(* ===== verification/Prelude.thy ===== *)
theory Prelude
  imports Main "HOL-Library.Sublist" "HOL-Library.List_Lexorder" "HOL-Library.Char_ord"
begin

text \<open>
  What every theory of the development shares: the collections of rewrite rules the component
  proofs use, facts on lists that several components need, and the notion of a reachable state
  with its invariant rule, stated once as the interface \<open>guarded_system\<close> that the concurrent
  components (leases, model slots, admission, concurrency groups) instantiate.
\<close>

named_theorems state_simps \<open>unfolding rules of the operations on component states\<close>

named_theorems string_simps \<open>facts on the string functions of the Go standard library\<close>

section \<open>Characters\<close>

abbreviation nl :: char where "nl \<equiv> CHR 0x0A"
abbreviation cr :: char where "cr \<equiv> CHR 0x0D"
abbreviation tab :: char where "tab \<equiv> CHR 0x09"
abbreviation squote :: char where "squote \<equiv> CHR 0x27"
abbreviation dquote :: char where "dquote \<equiv> CHR 0x22"
abbreviation backtick :: char where "backtick \<equiv> CHR 0x60"
abbreviation backslash :: char where "backslash \<equiv> CHR 0x5C"

section \<open>Lists\<close>

text \<open>Removing the element at an index: \<open>append(xs[:i], xs[i+1:]...)\<close> of the Go sources.\<close>

definition remove_at :: "nat \<Rightarrow> 'a list \<Rightarrow> 'a list" where
  "remove_at i xs = take i xs @ drop (Suc i) xs"

lemma length_remove_at [simp]: "i < length xs \<Longrightarrow> length (remove_at i xs) = length xs - 1"
  by (simp add: remove_at_def)

lemma set_remove_at_subset: "set (remove_at i xs) \<subseteq> set xs"
  by (auto simp: remove_at_def dest: in_set_takeD in_set_dropD)

lemma remove_at_0 [simp]: "remove_at 0 xs = tl xs"
  by (simp add: remove_at_def drop_Suc)

lemma distinct_remove_at: "distinct xs \<Longrightarrow> distinct (remove_at i xs)"
  using set_take_disj_set_drop_if_distinct [of xs i "Suc i"]
  by (auto simp: remove_at_def)

lemma set_remove_at:
  assumes "i < length xs" "distinct xs"
  shows "set (remove_at i xs) = set xs - {xs ! i}"
proof -
  have "xs = take i xs @ xs ! i # drop (Suc i) xs"
    using assms(1) by (rule id_take_nth_drop)
  moreover from this assms(2) have "distinct (take i xs @ xs ! i # drop (Suc i) xs)" by simp
  ultimately have "set xs = insert (xs ! i) (set (remove_at i xs))"
    and "xs ! i \<notin> set (remove_at i xs)"
    unfolding remove_at_def by (metis Un_insert_right list.simps(15) set_append)
      (use \<open>distinct (take i xs @ xs ! i # drop (Suc i) xs)\<close> in auto)
  then show ?thesis by auto
qed

lemma remove_at_filter:
  assumes "i < length xs" "distinct xs"
  shows "remove_at i xs = filter (\<lambda>x. x \<noteq> xs ! i) xs"
proof -
  have xs: "xs = take i xs @ xs ! i # drop (Suc i) xs"
    using assms(1) by (rule id_take_nth_drop)
  then have "distinct (take i xs @ xs ! i # drop (Suc i) xs)" using assms(2) by simp
  then have "xs ! i \<notin> set (take i xs)" "xs ! i \<notin> set (drop (Suc i) xs)" by simp_all
  then have "filter (\<lambda>x. x \<noteq> xs ! i) (take i xs) = take i xs"
    "filter (\<lambda>x. x \<noteq> xs ! i) (drop (Suc i) xs) = drop (Suc i) xs"
    by (metis (mono_tags, lifting) filter_True)+
  then have "filter (\<lambda>x. x \<noteq> xs ! i) (take i xs @ xs ! i # drop (Suc i) xs) = remove_at i xs"
    by (simp add: remove_at_def)
  with xs show ?thesis by simp
qed

text \<open>Position of the first element that satisfies a predicate, as the scanning loops return it.\<close>

fun find_index :: "('a \<Rightarrow> bool) \<Rightarrow> 'a list \<Rightarrow> nat option" where
  "find_index P [] = None"
| "find_index P (x # xs) = (if P x then Some 0 else map_option Suc (find_index P xs))"

lemma find_index_None_iff: "find_index P xs = None \<longleftrightarrow> (\<forall>x\<in>set xs. \<not> P x)"
  by (induction xs) auto

lemma find_index_SomeD:
  "find_index P xs = Some i \<Longrightarrow>
     i < length xs \<and> P (xs ! i) \<and> (\<forall>j<i. \<not> P (xs ! j))"
proof (induction xs arbitrary: i)
  case Nil
  then show ?case by simp
next
  case (Cons x xs)
  show ?case
  proof (cases "P x")
    case True
    with Cons.prems show ?thesis by simp
  next
    case False
    with Cons.prems obtain j where j: "i = Suc j" "find_index P xs = Some j" by auto
    with Cons.IH [of j] False show ?thesis
      by (auto simp: less_Suc_eq_0_disj)
  qed
qed

text \<open>Sorting by a key that no two elements share has one result, whatever order it starts from.\<close>

lemma sort_key_cong_set:
  fixes f :: "'a \<Rightarrow> 'b::linorder"
  assumes "distinct xs" "distinct ys" "set xs = set ys" "inj_on f (set xs)"
  shows "sort_key f xs = sort_key f ys"
proof -
  have "inj_on f (set (sort_key f xs) \<union> set (sort_key f ys))" using assms(3,4) by simp
  moreover have "map f (sort_key f xs) = map f (sort_key f ys)"
  proof (rule sorted_distinct_set_unique)
    show "sorted (map f (sort_key f xs))" "sorted (map f (sort_key f ys))" by simp_all
    show "distinct (map f (sort_key f xs))" "distinct (map f (sort_key f ys))"
      using assms by (simp_all add: distinct_map)
    show "set (map f (sort_key f xs)) = set (map f (sort_key f ys))" using assms(3) by simp
  qed
  ultimately show ?thesis by (metis map_inj_on)
qed

section \<open>Reachable states\<close>

text \<open>
  A component with concurrent callers is a relation between a state, the event that moves it and
  the next state. \<open>reach\<close> collects the states a run can pass through; \<open>run\<close> follows one
  sequence of events.
\<close>

inductive reach :: "'s \<Rightarrow> ('s \<Rightarrow> 'e \<Rightarrow> 's \<Rightarrow> bool) \<Rightarrow> 's \<Rightarrow> bool" for init step where
  reach_init: "reach init step init"
| reach_step: "reach init step s \<Longrightarrow> step s e t \<Longrightarrow> reach init step t"

inductive run :: "('s \<Rightarrow> 'e \<Rightarrow> 's \<Rightarrow> bool) \<Rightarrow> 's \<Rightarrow> 'e list \<Rightarrow> 's \<Rightarrow> bool" for step where
  run_nil: "run step s [] s"
| run_cons: "step s e t \<Longrightarrow> run step t es u \<Longrightarrow> run step s (e # es) u"

inductive_simps run_Nil_simp [simp]: "run step s [] t"
inductive_simps run_Cons_simp: "run step s (e # es) t"

lemma run_reach: "run step s es t \<Longrightarrow> reach init step s \<Longrightarrow> reach init step t"
  by (induction rule: run.induct) (auto intro: reach_step)

text \<open>
  The interface of a component whose correctness is an invariant: it holds initially, and every
  step keeps it.
\<close>

locale guarded_system =
  fixes init :: "'s"
    and step :: "'s \<Rightarrow> 'e \<Rightarrow> 's \<Rightarrow> bool"
    and inv :: "'s \<Rightarrow> bool"
  assumes inv_init: "inv init"
    and inv_step: "inv s \<Longrightarrow> step s e t \<Longrightarrow> inv t"
begin

lemma inv_reach: "reach init step s \<Longrightarrow> inv s"
  by (induction rule: reach.induct) (auto intro: inv_init inv_step)

lemma inv_run: "run step s es t \<Longrightarrow> inv s \<Longrightarrow> inv t"
  by (induction rule: run.induct) (auto intro: inv_step)

end

end
