(* ===== verification/GoStrings.thy ===== *)
theory GoStrings
  imports Prelude
begin

text \<open>
  The functions of Go's \<open>strings\<close> package that the sources call, on byte strings. A Go string is
  a sequence of bytes and \<open>char\<close> is a byte, so lengths and offsets are Go's. White space is the
  ASCII white space of \<open>unicode.IsSpace\<close>; the Unicode spaces beyond ASCII are not stripped by
  this model, and a rune loop over a string is a loop over its bytes, which agree on every
  comparison the sources make since they compare with ASCII characters only.
\<close>

section \<open>Prefixes, search\<close>

fun has_prefix :: "string \<Rightarrow> string \<Rightarrow> bool" where
  "has_prefix s [] = True"
| "has_prefix [] (p # ps) = False"
| "has_prefix (c # s) (p # ps) = (c = p \<and> has_prefix s ps)"

lemma has_prefix_iff: "has_prefix s p \<longleftrightarrow> (\<exists>t. s = p @ t)"
  by (induction s p rule: has_prefix.induct) auto

lemma has_prefix_take: "has_prefix s p \<longleftrightarrow> take (length p) s = p"
  by (induction s p rule: has_prefix.induct) auto

lemma has_prefix_append [simp]: "has_prefix (p @ t) p"
  by (auto simp: has_prefix_iff)

lemma has_prefix_length: "has_prefix s p \<Longrightarrow> length p \<le> length s"
  by (auto simp: has_prefix_iff)

lemma has_prefix_refl [simp]: "has_prefix s s"
  by (auto simp: has_prefix_iff)

definition has_suffix :: "string \<Rightarrow> string \<Rightarrow> bool" where
  "has_suffix s p = has_prefix (rev s) (rev p)"

lemma has_suffix_iff: "has_suffix s p \<longleftrightarrow> (\<exists>t. s = t @ p)"
  unfolding has_suffix_def has_prefix_iff by (metis rev_append rev_rev_ident)

text \<open>\<open>strings.Index\<close>: the first position where \<open>sub\<close> occurs.\<close>

fun index_of :: "string \<Rightarrow> string \<Rightarrow> nat option" where
  "index_of [] sub = (if sub = [] then Some 0 else None)"
| "index_of (c # s) sub =
     (if has_prefix (c # s) sub then Some 0 else map_option Suc (index_of s sub))"

definition contains :: "string \<Rightarrow> string \<Rightarrow> bool" where
  "contains s sub = (index_of s sub \<noteq> None)"

lemma index_of_Some:
  "index_of s sub = Some i \<Longrightarrow> i + length sub \<le> length s \<and> has_prefix (drop i s) sub"
proof (induction s arbitrary: i)
  case Nil
  then show ?case by (auto split: if_splits)
next
  case (Cons c s)
  then show ?case
    by (cases i) (auto split: if_splits dest: has_prefix_length)
qed

lemma index_of_Some_split:
  assumes "index_of s sub = Some i"
  shows "s = take i s @ sub @ drop (i + length sub) s"
proof -
  from index_of_Some [OF assms] obtain t where t: "drop i s = sub @ t"
    by (auto simp: has_prefix_iff)
  then have "drop (i + length sub) s = t"
    by (metis add.commute append_eq_conv_conj drop_drop)
  with t show ?thesis by (metis append_take_drop_id)
qed

lemma index_of_least:
  "index_of s sub = Some i \<Longrightarrow> j < i \<Longrightarrow> \<not> has_prefix (drop j s) sub"
proof (induction s arbitrary: i j)
  case Nil
  then show ?case by (auto split: if_splits)
next
  case (Cons c s)
  then show ?case by (cases j) (auto split: if_splits)
qed

lemma index_of_None:
  "index_of s sub = None \<longleftrightarrow> (\<forall>j\<le>length s. \<not> has_prefix (drop j s) sub)"
proof (induction s)
  case Nil
  then show ?case by (cases sub) auto
next
  case (Cons c s)
  show ?case
  proof (cases "has_prefix (c # s) sub")
    case True
    then show ?thesis by (auto intro!: exI [of _ 0])
  next
    case False
    have "(\<forall>j\<le>length (c # s). \<not> has_prefix (drop j (c # s)) sub) \<longleftrightarrow>
          (\<forall>j\<le>length s. \<not> has_prefix (drop j s) sub)"
      using False by (metis Suc_le_mono drop0 drop_Suc_Cons length_Cons not0_implies_Suc)
    with Cons.IH False show ?thesis by simp
  qed
qed

lemma contains_iff: "contains s sub \<longleftrightarrow> (\<exists>a b. s = a @ sub @ b)"
proof
  assume "contains s sub"
  then obtain i where "index_of s sub = Some i" unfolding contains_def by blast
  from index_of_Some_split [OF this] show "\<exists>a b. s = a @ sub @ b" by blast
next
  assume "\<exists>a b. s = a @ sub @ b"
  then obtain a b where s: "s = a @ sub @ b" by blast
  then have "has_prefix (drop (length a) s) sub" "length a \<le> length s" by simp_all
  then show "contains s sub" unfolding contains_def using index_of_None [of s sub] by blast
qed

lemma contains_Nil [simp]: "contains s []"
  by (cases s) (simp_all add: contains_def)

definition contains_any :: "string \<Rightarrow> string \<Rightarrow> bool" where
  "contains_any s cs = list_ex (\<lambda>c. c \<in> set cs) s"

lemma contains_any_iff: "contains_any s cs \<longleftrightarrow> set s \<inter> set cs \<noteq> {}"
  by (auto simp: contains_any_def list_ex_iff)

definition contains_byte :: "string \<Rightarrow> char \<Rightarrow> bool" where
  "contains_byte s c = (c \<in> set s)"

definition count_byte :: "string \<Rightarrow> char \<Rightarrow> nat" where
  "count_byte s c = length (filter ((=) c) s)"

lemma count_byte_simps [simp]:
  "count_byte [] c = 0"
  "count_byte (x # s) c = (if x = c then Suc (count_byte s c) else count_byte s c)"
  by (auto simp: count_byte_def)

lemma count_byte_append [simp]: "count_byte (s @ t) c = count_byte s c + count_byte t c"
  by (simp add: count_byte_def)

section \<open>Trimming\<close>

definition is_space :: "char \<Rightarrow> bool" where
  "is_space c = (c \<in> {CHR '' '', tab, nl, CHR 0x0B, CHR 0x0C, cr})"

lemma is_space_code [code, simp]:
  "is_space c \<longleftrightarrow> c = CHR '' '' \<or> c = tab \<or> c = nl \<or> c = CHR 0x0B \<or> c = CHR 0x0C \<or> c = cr"
  by (simp add: is_space_def)

definition trim_left_while :: "(char \<Rightarrow> bool) \<Rightarrow> string \<Rightarrow> string" where
  "trim_left_while P s = dropWhile P s"

definition trim_right_while :: "(char \<Rightarrow> bool) \<Rightarrow> string \<Rightarrow> string" where
  "trim_right_while P s = rev (dropWhile P (rev s))"

definition trim_space :: "string \<Rightarrow> string" where
  "trim_space s = trim_right_while is_space (trim_left_while is_space s)"

definition trim_left :: "string \<Rightarrow> string \<Rightarrow> string" where
  "trim_left s cs = dropWhile (\<lambda>c. c \<in> set cs) s"

definition trim_right :: "string \<Rightarrow> string \<Rightarrow> string" where
  "trim_right s cs = trim_right_while (\<lambda>c. c \<in> set cs) s"

definition trim_chars :: "string \<Rightarrow> string \<Rightarrow> string" where
  "trim_chars s cs = trim_right_while (\<lambda>c. c \<in> set cs) (trim_left s cs)"

lemma length_dropWhile_rev: "length (rev (dropWhile P (rev s))) \<le> length s"
  by (metis length_dropWhile_le length_rev)

lemma dropWhile_idem: "dropWhile P (dropWhile P s) = dropWhile P s"
  by (induction s) auto

lemma dropWhile_snoc: "\<not> P c \<Longrightarrow> dropWhile P (xs @ [c]) = dropWhile P xs @ [c]"
  by (induction xs) auto

lemma dropWhile_rev_head: "dropWhile P s = s \<Longrightarrow> dropWhile P (rev (dropWhile P (rev s))) = rev (dropWhile P (rev s))"
proof (cases s)
  case (Cons c r)
  assume "dropWhile P s = s"
  then have "\<not> P c" using Cons length_dropWhile_le [of P r] by auto
  then show ?thesis by (simp add: Cons dropWhile_snoc)
qed simp

lemma trim_space_idem [simp]: "trim_space (trim_space s) = trim_space s"
  using dropWhile_rev_head [of is_space "dropWhile is_space s"]
  by (simp add: trim_space_def trim_left_while_def trim_right_while_def dropWhile_idem)

lemma length_trim_space: "length (trim_space s) \<le> length s"
  unfolding trim_space_def trim_right_while_def trim_left_while_def
  by (rule order_trans [OF length_dropWhile_rev length_dropWhile_le])

lemma set_trim_space: "set (trim_space s) \<subseteq> set s"
  unfolding trim_space_def trim_right_while_def trim_left_while_def
  by (auto dest!: set_dropWhileD)

definition trim_prefix :: "string \<Rightarrow> string \<Rightarrow> string" where
  "trim_prefix s p = (if has_prefix s p then drop (length p) s else s)"

definition trim_suffix :: "string \<Rightarrow> string \<Rightarrow> string" where
  "trim_suffix s p = (if has_suffix s p then take (length s - length p) s else s)"

definition cut_prefix :: "string \<Rightarrow> string \<Rightarrow> string option" where
  "cut_prefix s p = (if has_prefix s p then Some (drop (length p) s) else None)"

text \<open>\<open>strings.Cut\<close> on a one-byte separator: what stands before it, and after it when present.\<close>

definition cut_byte :: "string \<Rightarrow> char \<Rightarrow> string \<times> string" where
  "cut_byte s c = (takeWhile (\<lambda>x. x \<noteq> c) s, drop 1 (dropWhile (\<lambda>x. x \<noteq> c) s))"

section \<open>Splitting and joining\<close>

text \<open>\<open>strings.Split\<close> on a one-byte separator never returns an empty slice.\<close>

fun split_byte :: "char \<Rightarrow> string \<Rightarrow> string list" where
  "split_byte sep [] = [[]]"
| "split_byte sep (c # s) =
     (if c = sep then [] # split_byte sep s
      else (case split_byte sep s of [] \<Rightarrow> [[c]] | p # ps \<Rightarrow> (c # p) # ps))"

fun join_with :: "string \<Rightarrow> string list \<Rightarrow> string" where
  "join_with sep [] = []"
| "join_with sep [x] = x"
| "join_with sep (x # y # xs) = x @ sep @ join_with sep (y # xs)"

lemma split_byte_neq_Nil [simp]: "split_byte sep s \<noteq> []"
  by (cases s) (auto split: list.splits)

lemma join_split_byte: "join_with [sep] (split_byte sep s) = s"
proof (induction s)
  case Nil
  then show ?case by simp
next
  case (Cons c s)
  obtain p ps where ps: "split_byte sep s = p # ps"
    by (metis split_byte_neq_Nil neq_Nil_conv)
  with Cons show ?case by (cases ps) auto
qed

lemma split_byte_no_sep: "p \<in> set (split_byte sep s) \<Longrightarrow> sep \<notin> set p"
proof (induction s arbitrary: p)
  case Nil
  then show ?case by simp
next
  case (Cons c s)
  then show ?case by (fastforce split: if_splits list.splits)
qed

lemma split_byte_plain: "sep \<notin> set s \<Longrightarrow> split_byte sep s = [s]"
  by (induction s) auto

lemma split_byte_append_sep:
  "sep \<notin> set p \<Longrightarrow> split_byte sep (p @ sep # s) = p # split_byte sep s"
  by (induction p) auto

lemma split_join_byte:
  "xs \<noteq> [] \<Longrightarrow> (\<And>x. x \<in> set xs \<Longrightarrow> sep \<notin> set x) \<Longrightarrow> split_byte sep (join_with [sep] xs) = xs"
proof (induction xs rule: induct_list012)
  case (3 x y xs)
  then show ?case by (simp add: split_byte_append_sep)
qed (auto simp: split_byte_plain)

lemma length_split_byte: "length (split_byte sep s) = Suc (count_byte s sep)"
proof (induction s)
  case Nil
  then show ?case by simp
next
  case (Cons c s)
  then show ?case by (auto split: list.splits)
qed

lemma length_join_with_le_split:
  "x \<in> set (split_byte sep s) \<Longrightarrow> length x \<le> length s"
proof (induction s arbitrary: x)
  case Nil
  then show ?case by simp
next
  case (Cons c s)
  then show ?case by (fastforce split: if_splits list.splits simp: le_Suc_eq)
qed

text \<open>\<open>strings.Fields\<close>: the maximal runs of non-space characters.\<close>

fun fields_acc :: "string \<Rightarrow> string \<Rightarrow> string list" where
  "fields_acc acc [] = (if acc = [] then [] else [rev acc])"
| "fields_acc acc (c # s) =
     (if is_space c then (if acc = [] then fields_acc [] s else rev acc # fields_acc [] s)
      else fields_acc (c # acc) s)"

definition fields :: "string \<Rightarrow> string list" where
  "fields s = fields_acc [] s"

section \<open>Replacing\<close>

text \<open>
  \<open>strings.ReplaceAll\<close> with a non-empty needle: scan left to right, never looking inside a
  replacement. The accumulator-free recursion skips the needle by its length.
\<close>

function replace_all :: "string \<Rightarrow> string \<Rightarrow> string \<Rightarrow> string" where
  "replace_all s old new =
     (if old = [] then s
      else (case s of
              [] \<Rightarrow> []
            | c # s' \<Rightarrow>
                if has_prefix s old then new @ replace_all (drop (length old) s) old new
                else c # replace_all s' old new))"
  by pat_completeness auto
termination
  by (relation "measure (\<lambda>(s, old, new). length s)") auto

declare replace_all.simps [simp del]

lemma replace_all_Nil [simp]: "replace_all [] old new = []"
  by (simp add: replace_all.simps)

lemma replace_all_absent: "\<not> contains s old \<Longrightarrow> replace_all s old new = s"
proof (induction s)
  case Nil
  then show ?case by simp
next
  case (Cons c s)
  have "\<not> has_prefix (c # s) old"
    using Cons.prems by (metis append_Nil contains_iff has_prefix_iff)
  moreover have "\<not> contains s old"
    using Cons.prems by (metis append_Cons contains_iff)
  moreover have "old \<noteq> []" using Cons.prems by auto
  ultimately show ?case using Cons.IH by (simp add: replace_all.simps [of "c # s"])
qed

section \<open>Sorting and case\<close>

text \<open>\<open>sort.Strings\<close> orders by bytes, which is the lexicographic order on \<open>string\<close>.\<close>

definition sort_strings :: "string list \<Rightarrow> string list" where
  "sort_strings xs = sort xs"

definition lower_char :: "char \<Rightarrow> char" where
  "lower_char c = (let n = of_char c :: nat in if 65 \<le> n \<and> n \<le> 90 then char_of (n + 32) else c)"

definition to_lower :: "string \<Rightarrow> string" where
  "to_lower s = map lower_char s"

definition equal_fold :: "string \<Rightarrow> string \<Rightarrow> bool" where
  "equal_fold a b = (to_lower a = to_lower b)"

text \<open>The order-preserving deduplication of the \<open>seen\<close> maps of the sources.\<close>

fun dedup :: "string list \<Rightarrow> string list \<Rightarrow> string list" where
  "dedup seen [] = []"
| "dedup seen (x # xs) = (if x \<in> set seen then dedup seen xs else x # dedup (x # seen) xs)"

lemma set_dedup: "set (dedup seen xs) = set xs - set seen"
  by (induction seen xs rule: dedup.induct) auto

lemma distinct_dedup: "distinct (dedup seen xs)"
  by (induction seen xs rule: dedup.induct) (auto simp: set_dedup)

text \<open>Decimal rendering of a number, as \<open>%d\<close> prints it.\<close>

fun digits_of :: "nat \<Rightarrow> string" where
  "digits_of n = (if n < 10 then [char_of (48 + n)] else digits_of (n div 10) @ [char_of (48 + n mod 10)])"

declare digits_of.simps [simp del]

definition show_nat :: "nat \<Rightarrow> string" where
  "show_nat n = digits_of n"

definition show_int :: "int \<Rightarrow> string" where
  "show_int i = (if i < 0 then CHR ''-'' # show_nat (nat (- i)) else show_nat (nat i))"

end
