(* ===== verification/GoPath.thy ===== *)
theory GoPath
  imports GoStrings
begin

text \<open>
  The lexical path functions of Go's \<open>path/filepath\<close> on Unix that the sources call: \<open>IsAbs\<close>,
  \<open>Clean\<close>, \<open>Join\<close>, \<open>Rel\<close>, \<open>Base\<close>, \<open>Dir\<close>, \<open>Ext\<close>. A path is read as its component
  list; \<open>Clean\<close> renders the reduced list. \<open>Rel\<close> is modelled for a rooted base and for the
  empty base, the two the sources use: with a relative base that has components, Go's answer on a
  target outside the base depends on spellings this reading does not keep apart.
\<close>

definition is_abs :: "string \<Rightarrow> bool" where
  "is_abs p = has_prefix p ''/''"

abbreviation dotdot :: string where "dotdot \<equiv> ''..''"

section \<open>Clean\<close>

text \<open>One component of the path, pushed on the reversed output of the components before it.\<close>

definition push_comp :: "bool \<Rightarrow> string list \<Rightarrow> string \<Rightarrow> string list" where
  "push_comp rooted acc c =
     (if c = [] \<or> c = ''.'' then acc
      else if c = dotdot then
        (case acc of
           [] \<Rightarrow> if rooted then [] else [dotdot]
         | x # xs \<Rightarrow> if x = dotdot then dotdot # acc else xs)
      else c # acc)"

definition reduce_comps :: "bool \<Rightarrow> string list \<Rightarrow> string list" where
  "reduce_comps rooted cs = rev (foldl (push_comp rooted) [] cs)"

definition path_comps :: "string \<Rightarrow> string list" where
  "path_comps p = reduce_comps (is_abs p) (split_byte CHR ''/'' p)"

definition render_path :: "bool \<Rightarrow> string list \<Rightarrow> string" where
  "render_path rooted cs =
     (if rooted then CHR ''/'' # join_with ''/'' cs
      else if cs = [] then ''.'' else join_with ''/'' cs)"

definition clean :: "string \<Rightarrow> string" where
  "clean p = render_path (is_abs p) (path_comps p)"

text \<open>A reduced component list: no empty or dot component, and \<open>..\<close> only in front of a relative one.\<close>

definition plain_comp :: "string \<Rightarrow> bool" where
  "plain_comp c = (c \<noteq> [] \<and> c \<noteq> ''.'' \<and> c \<noteq> dotdot \<and> CHR ''/'' \<notin> set c)"

definition reduced :: "bool \<Rightarrow> string list \<Rightarrow> bool" where
  "reduced rooted cs =
     (\<exists>n ds. cs = replicate n dotdot @ ds \<and> list_all plain_comp ds \<and> (rooted \<longrightarrow> n = 0))"

lemma reduced_push:
  assumes "reduced rooted (rev acc)" "CHR ''/'' \<notin> set c"
  shows "reduced rooted (rev (push_comp rooted acc c))"
proof -
  from assms(1) obtain n ds where acc: "rev acc = replicate n dotdot @ ds"
    and ds: "list_all plain_comp ds" and rt: "rooted \<longrightarrow> n = 0"
    unfolding reduced_def by blast
  consider "c = [] \<or> c = ''.''" | "c = dotdot" | "plain_comp c"
    using assms(2) by (auto simp: plain_comp_def)
  then show ?thesis
  proof cases
    case 1
    then show ?thesis using assms(1) by (auto simp: push_comp_def)
  next
    case 2
    show ?thesis
    proof (cases ds rule: rev_cases)
      case Nil
      then have a: "acc = replicate n dotdot" using acc by (metis append_Nil2 rev_replicate rev_rev_ident)
      show ?thesis
      proof (cases n)
        case 0
        then have "rev (push_comp rooted acc c) = replicate (if rooted then 0 else 1) dotdot @ []"
          using a 2 by (simp add: push_comp_def)
        then show ?thesis unfolding reduced_def using rt
          by (metis (full_types) list.pred_inject(1))
      next
        case (Suc m)
        then have p: "push_comp rooted acc c = replicate (Suc n) dotdot"
          using a 2 by (simp add: push_comp_def)
        have "rev (push_comp rooted acc c) = replicate (Suc n) dotdot @ []"
          unfolding p rev_replicate by simp
        moreover have "\<not> rooted" using Suc rt by simp
        ultimately show ?thesis unfolding reduced_def by (metis list.pred_inject(1))
      qed
    next
      case (snoc es e)
      then have a: "acc = e # rev (replicate n dotdot @ es)"
        using acc by (metis append.assoc rev_eq_Cons_iff rev_rev_ident)
      moreover have "e \<noteq> dotdot" using ds snoc by (simp add: plain_comp_def)
      ultimately have "rev (push_comp rooted acc c) = replicate n dotdot @ es"
        using 2 by (simp add: push_comp_def)
      moreover have "list_all plain_comp es" using ds snoc by simp
      ultimately show ?thesis using rt unfolding reduced_def by blast
    qed
  next
    case 3
    then have "rev (push_comp rooted acc c) = replicate n dotdot @ (ds @ [c])"
      using acc by (auto simp: push_comp_def plain_comp_def)
    moreover have "list_all plain_comp (ds @ [c])" using ds 3 by simp
    ultimately show ?thesis using rt unfolding reduced_def by blast
  qed
qed

lemma reduced_foldl:
  "reduced rooted (rev acc) \<Longrightarrow> (\<And>c. c \<in> set cs \<Longrightarrow> CHR ''/'' \<notin> set c) \<Longrightarrow>
     reduced rooted (rev (foldl (push_comp rooted) acc cs))"
  by (induction cs arbitrary: acc) (auto intro: reduced_push)

lemma reduced_Nil [simp]: "reduced rooted []"
  unfolding reduced_def by (metis append_Nil2 list.pred_inject(1) replicate_0)

lemma reduced_path_comps: "reduced (is_abs p) (path_comps p)"
  unfolding path_comps_def reduce_comps_def
  by (rule reduced_foldl) (auto dest: split_byte_no_sep)

lemma foldl_push_plain:
  "list_all plain_comp ds \<Longrightarrow> foldl (push_comp rooted) acc ds = rev ds @ acc"
  by (induction ds arbitrary: acc) (auto simp: push_comp_def plain_comp_def)

lemma foldl_push_dots:
  "foldl (push_comp False) (replicate m dotdot) (replicate n dotdot) = replicate (n + m) dotdot"
proof (induction n arbitrary: m)
  case 0
  then show ?case by simp
next
  case (Suc n)
  have "push_comp False (replicate m dotdot) dotdot = replicate (Suc m) dotdot"
    by (cases m) (auto simp: push_comp_def)
  with Suc [of "Suc m"] show ?case by simp
qed

lemma reduce_reduced: "reduced rooted cs \<Longrightarrow> reduce_comps rooted cs = cs"
proof -
  assume "reduced rooted cs"
  then obtain n ds where cs: "cs = replicate n dotdot @ ds" and ds: "list_all plain_comp ds"
    and rt: "rooted \<longrightarrow> n = 0" unfolding reduced_def by blast
  have "foldl (push_comp rooted) [] (replicate n dotdot) = replicate n dotdot"
    using rt foldl_push_dots [of 0 n] by (cases rooted) simp_all
  then show ?thesis using cs ds by (simp add: reduce_comps_def foldl_push_plain)
qed

lemma reduced_slash_free: "reduced rooted cs \<Longrightarrow> c \<in> set cs \<Longrightarrow> CHR ''/'' \<notin> set c \<and> c \<noteq> []"
proof -
  assume "reduced rooted cs" "c \<in> set cs"
  then obtain n ds where "c = dotdot \<or> c \<in> set ds" and "list_all plain_comp ds"
    unfolding reduced_def by (metis Un_iff in_set_replicate set_append)
  then have "c = dotdot \<or> plain_comp c" by (auto simp: list_all_iff)
  then show ?thesis by (auto simp: plain_comp_def)
qed

lemma join_slash_first:
  "reduced rooted cs \<Longrightarrow> cs \<noteq> [] \<Longrightarrow> \<not> has_prefix (join_with ''/'' cs) ''/''"
proof -
  assume r: "reduced rooted cs" and "cs \<noteq> []"
  then obtain c rest where cs: "cs = c # rest" by (cases cs) auto
  with reduced_slash_free [OF r, of c] obtain x xs where "c = x # xs" "x \<noteq> CHR ''/''"
    by (cases c) auto
  with cs show ?thesis by (cases rest) auto
qed

lemma split_join_reduced:
  "reduced rooted cs \<Longrightarrow> cs \<noteq> [] \<Longrightarrow> split_byte CHR ''/'' (join_with ''/'' cs) = cs"
  by (rule split_join_byte) (auto dest: reduced_slash_free)

lemma reduce_skip_empty: "reduce_comps rooted ([] # cs) = reduce_comps rooted cs"
  by (simp add: reduce_comps_def push_comp_def)

lemma is_abs_render: "reduced rooted cs \<Longrightarrow> is_abs (render_path rooted cs) = rooted"
  using join_slash_first [of rooted cs] by (auto simp: is_abs_def render_path_def)

lemma path_comps_render:
  assumes "reduced rooted cs"
  shows "path_comps (render_path rooted cs) = cs"
proof (cases "cs = []")
  case True
  then show ?thesis
    by (cases rooted)
      (simp_all add: path_comps_def is_abs_def render_path_def reduce_comps_def push_comp_def)
next
  case False
  show ?thesis
  proof (cases rooted)
    case True
    then have "split_byte CHR ''/'' (render_path rooted cs) = [] # cs"
      using split_join_reduced [OF assms False] by (simp add: render_path_def)
    then show ?thesis
      using is_abs_render [OF assms] reduce_reduced [OF assms]
      by (simp add: path_comps_def reduce_skip_empty)
  next
    case rel: False
    then have "split_byte CHR ''/'' (render_path rooted cs) = cs"
      using split_join_reduced [OF assms False] False by (simp add: render_path_def)
    then show ?thesis
      using is_abs_render [OF assms] reduce_reduced [OF assms] by (simp add: path_comps_def)
  qed
qed

lemma is_abs_clean [simp]: "is_abs (clean p) = is_abs p"
  by (simp add: clean_def is_abs_render reduced_path_comps)

lemma path_comps_clean [simp]: "path_comps (clean p) = path_comps p"
  by (simp add: clean_def path_comps_render reduced_path_comps)

lemma clean_cong: "is_abs p = is_abs q \<Longrightarrow> path_comps p = path_comps q \<Longrightarrow> clean p = clean q"
  unfolding clean_def by (simp only:)

lemma clean_clean [simp]: "clean (clean p) = clean p"
  by (rule clean_cong) simp_all

lemma clean_eq_iff: "clean p = clean q \<longleftrightarrow> is_abs p = is_abs q \<and> path_comps p = path_comps q"
proof
  assume eq: "clean p = clean q"
  have "is_abs (clean p) = is_abs (clean q)" "path_comps (clean p) = path_comps (clean q)"
    unfolding eq by (rule refl)+
  then show "is_abs p = is_abs q \<and> path_comps p = path_comps q" by simp
next
  assume "is_abs p = is_abs q \<and> path_comps p = path_comps q"
  then show "clean p = clean q" by (elim conjE) (rule clean_cong)
qed

lemma abs_comps_plain: "is_abs p \<Longrightarrow> list_all plain_comp (path_comps p)"
proof -
  assume "is_abs p"
  with reduced_path_comps [of p] obtain n ds where
    "path_comps p = replicate n dotdot @ ds" "list_all plain_comp ds" "n = 0"
    unfolding reduced_def by blast
  then show ?thesis by simp
qed

section \<open>Join, Rel, Base, Dir, Ext\<close>

definition path_join :: "string \<Rightarrow> string \<Rightarrow> string" where
  "path_join a b =
     (if a = [] then (if b = [] then [] else clean b) else clean (a @ ''/'' @ b))"

fun strip_common :: "string list \<Rightarrow> string list \<Rightarrow> string list \<times> string list" where
  "strip_common (a # as) (b # bs) = (if a = b then strip_common as bs else (a # as, b # bs))"
| "strip_common as bs = (as, bs)"

text \<open>\<open>filepath.Rel\<close>: \<open>None\<close> is its error.\<close>

definition path_rel :: "string \<Rightarrow> string \<Rightarrow> string option" where
  "path_rel base targ =
     (if clean base = clean targ then Some ''.''
      else if is_abs base \<noteq> is_abs targ then None
      else (let (up, down) = strip_common (path_comps base) (path_comps targ) in
            if up \<noteq> [] \<and> hd up = dotdot then None
            else Some (join_with ''/'' (replicate (length up) dotdot @ down))))"

definition path_base :: "string \<Rightarrow> string" where
  "path_base p =
     (if p = [] then ''.''
      else (let r = last (split_byte CHR ''/'' (trim_right_while (\<lambda>c. c = CHR ''/'') p))
            in if r = [] then ''/'' else r))"

definition path_dir :: "string \<Rightarrow> string" where
  "path_dir p = clean (trim_right_while (\<lambda>c. c \<noteq> CHR ''/'') p)"

definition path_ext :: "string \<Rightarrow> string" where
  "path_ext p =
     (let suf = takeWhile (\<lambda>c. c \<noteq> CHR ''/'') (rev p)
      in if CHR ''.'' \<in> set suf then CHR ''.'' # rev (takeWhile (\<lambda>c. c \<noteq> CHR ''.'') suf) else [])"

lemma strip_common_prefix:
  "strip_common as bs = (up, down) \<Longrightarrow> \<exists>pre. as = pre @ up \<and> bs = pre @ down"
  by (induction as bs rule: strip_common.induct) (auto split: if_splits intro: exI [of _ "_ # _"])

lemma strip_common_up_Nil: "fst (strip_common as bs) = [] \<longleftrightarrow> prefix as bs"
  by (induction as bs rule: strip_common.induct) auto

lemma strip_common_down: "prefix as bs \<Longrightarrow> strip_common as bs = ([], drop (length as) bs)"
  by (induction as bs rule: strip_common.induct) auto

text \<open>Whether a relative path climbs out, as the sources test it.\<close>

definition climbs :: "string \<Rightarrow> bool" where
  "climbs r = (r = dotdot \<or> has_prefix r ''../'')"

lemma has_prefix_dotdot_slash:
  assumes "CHR ''/'' \<notin> set c"
  shows "has_prefix (c @ s) ''../'' \<longleftrightarrow> c = dotdot \<and> has_prefix s ''/'' \<or>
    c = [] \<and> has_prefix s ''../'' \<or> c = ''.'' \<and> has_prefix s ''./''"
proof (cases c)
  case Nil
  then show ?thesis by simp
next
  case (Cons a c')
  show ?thesis
  proof (cases c')
    case Nil
    then show ?thesis using Cons by auto
  next
    case (Cons b c'')
    then show ?thesis using \<open>c = a # c'\<close> assms
      by (cases c'') auto
  qed
qed

lemma climbs_join_plain:
  assumes "list_all plain_comp ds"
  shows "\<not> climbs (join_with ''/'' ds)"
proof (cases ds)
  case Nil
  then show ?thesis by (simp add: climbs_def)
next
  case (Cons c rest)
  with assms have c: "plain_comp c" by simp
  then have sl: "CHR ''/'' \<notin> set c" by (simp add: plain_comp_def)
  show ?thesis
  proof (cases rest)
    case Nil
    then show ?thesis using Cons c has_prefix_dotdot_slash [OF sl, of "[]"]
      by (auto simp: climbs_def plain_comp_def)
  next
    case (Cons d rest')
    have "c @ ''/'' @ x \<noteq> dotdot" for x
    proof
      assume "c @ ''/'' @ x = dotdot"
      then have "CHR ''/'' \<in> set dotdot" by (metis append_Cons in_set_conv_decomp)
      then show False by simp
    qed
    moreover have "\<not> has_prefix (c @ ''/'' @ x) ''../''" for x
      using has_prefix_dotdot_slash [OF sl, of "''/'' @ x"] c by (auto simp: plain_comp_def)
    ultimately show ?thesis using Cons \<open>ds = c # rest\<close> by (simp add: climbs_def)
  qed
qed

text \<open>
  The containment test of the sources on a rooted base: the relative path exists, and it climbs
  exactly when the base's components are not a prefix of the target's.
\<close>

lemma path_rel_abs:
  assumes "is_abs base" "is_abs targ"
  obtains r where "path_rel base targ = Some r"
    "climbs r \<longleftrightarrow> \<not> prefix (path_comps base) (path_comps targ)"
proof (cases "clean base = clean targ")
  case True
  then have "path_rel base targ = Some ''.''" by (simp add: path_rel_def)
  moreover have "path_comps base = path_comps targ" using True by (simp add: clean_eq_iff)
  ultimately show ?thesis using that by (auto simp: climbs_def)
next
  case False
  obtain up down where ud: "strip_common (path_comps base) (path_comps targ) = (up, down)"
    by (metis surj_pair)
  from strip_common_prefix [OF ud] obtain pre where
    pre: "path_comps base = pre @ up" "path_comps targ = pre @ down" by blast
  have pl: "list_all plain_comp up" "list_all plain_comp down"
    using abs_comps_plain [OF assms(1)] abs_comps_plain [OF assms(2)] pre by simp_all
  have hd: "\<not> (up \<noteq> [] \<and> hd up = dotdot)"
    using pl(1) by (cases up) (auto simp: plain_comp_def)
  then have r: "path_rel base targ = Some (join_with ''/'' (replicate (length up) dotdot @ down))"
    using False assms ud by (simp add: path_rel_def)
  have upNil: "up = [] \<longleftrightarrow> prefix (path_comps base) (path_comps targ)"
    using strip_common_up_Nil [of "path_comps base" "path_comps targ"] ud by simp
  show ?thesis
  proof (rule that [OF r])
    show "climbs (join_with ''/'' (replicate (length up) dotdot @ down)) \<longleftrightarrow>
      \<not> prefix (path_comps base) (path_comps targ)"
    proof (cases up)
      case Nil
      then show ?thesis using climbs_join_plain [OF pl(2)] upNil by simp
    next
      case (Cons u us)
      have "climbs (join_with ''/'' (dotdot # xs))" for xs
        by (cases xs) (simp_all add: climbs_def)
      then show ?thesis using Cons upNil by simp
    qed
  qed
qed

end
