(* ===== verification/Lease.thy ===== *)
theory Lease
  imports GoPath
begin

text \<open>
  \<open>internal/lease/lease.go\<close>: advisory TTL leases over directory subtrees. The manager's state
  is the record \<open>lease_manager\<close>; the mutex-protected sections \<open>try\<close>, \<open>release\<close>, \<open>enterWait\<close>,
  \<open>leaveWait\<close> and \<open>sweep\<close> are functions on it, and the loop of \<open>Acquire\<close> is the program
  counter \<open>acquire_pc\<close> of a call, moved by \<open>lease_step\<close>. Times are integers (nanoseconds); the
  zero time of an entry nobody wrote yet is \<open>None\<close>, which is older than every TTL. Go visits a
  map in an order it does not specify, so an operation that ranges over the map takes the order
  as an argument. The wake channel is its generation number: closing it and making a new one adds
  one, and a caller that holds an older generation has been woken.
\<close>

section \<open>State\<close>

datatype lease_state = StateActive | StateCommitted | StateExpired

record lease_entry =
  e_since :: "int option"
  e_holder :: string
  e_waiters :: "string list"
  e_depth :: nat

record lease_manager =
  lm_root :: string
  lm_ttl :: int
  lm_held :: "string \<rightharpoonup> lease_entry"
  lm_wake :: nat
  lm_waiting :: int

record lease_row =
  r_since :: "int option"
  r_subtree :: string
  r_holder :: string
  r_state :: lease_state
  r_waiters :: "string list"

definition default_ttl :: int where
  "default_ttl = 30 * 60 * 1000000000"

definition new_manager :: "string \<Rightarrow> int \<Rightarrow> lease_manager" where
  "new_manager root ttl =
     \<lparr>lm_root = root, lm_ttl = ttl, lm_held = Map.empty, lm_wake = 0, lm_waiting = 0\<rparr>"

section \<open>Subtree keys\<close>

definition subtree :: "string \<Rightarrow> string \<Rightarrow> string" where
  "subtree root target =
     (let dir = path_dir (clean target) in
      if root = [] then dir
      else (case path_rel root dir of
              None \<Rightarrow> dir
            | Some rel \<Rightarrow> if rel = dotdot \<or> has_prefix rel ''../'' then dir else rel))"

definition overlaps :: "string \<Rightarrow> string \<Rightarrow> bool" where
  "overlaps a b =
     (a = b \<or> a = ''.'' \<or> b = ''.'' \<or> has_prefix a (b @ ''/'') \<or> has_prefix b (a @ ''/''))"

lemma overlaps_refl [simp]: "overlaps a a"
  by (simp add: overlaps_def)

lemma overlaps_sym: "overlaps a b = overlaps b a"
  by (auto simp: overlaps_def)

section \<open>The operations under the mutex\<close>

definition past_ttl :: "lease_manager \<Rightarrow> int \<Rightarrow> lease_entry \<Rightarrow> bool" where
  "past_ttl m now e = (case e_since e of None \<Rightarrow> True | Some t \<Rightarrow> now - t > lm_ttl m)"

definition state_of :: "lease_manager \<Rightarrow> int \<Rightarrow> lease_entry \<Rightarrow> lease_state" where
  "state_of m now e =
     (if e_depth e > 0 \<and> past_ttl m now e then StateExpired
      else if e_depth e > 0 then StateActive
      else StateCommitted)"

definition sweep :: "int \<Rightarrow> lease_manager \<Rightarrow> lease_manager" where
  "sweep now m = m\<lparr>lm_held := (\<lambda>key.
     case lm_held m key of
       None \<Rightarrow> None
     | Some e \<Rightarrow>
         if e_waiters e \<noteq> [] \<or> e_depth e > 0 \<or> \<not> past_ttl m now e then Some e else None)\<rparr>"

record contention =
  c_wake :: nat
  c_blocker :: string

definition contends :: "lease_manager \<Rightarrow> int \<Rightarrow> string \<Rightarrow> string \<Rightarrow> string \<Rightarrow> bool" where
  "contends m now key holder other =
     (case lm_held m other of
        None \<Rightarrow> False
      | Some e \<Rightarrow> \<not> (e_holder e = holder \<or> state_of m now e \<noteq> StateActive \<or> \<not> overlaps key other))"

definition take_entry :: "lease_manager \<Rightarrow> int \<Rightarrow> string \<Rightarrow> string \<Rightarrow> lease_entry" where
  "take_entry m now key holder =
     (let fresh = \<lparr>e_since = None, e_holder = holder, e_waiters = [], e_depth = 0\<rparr>;
          e = (case lm_held m key of
                 None \<Rightarrow> fresh
               | Some e \<Rightarrow> if e_holder e \<noteq> holder then fresh\<lparr>e_waiters := e_waiters e\<rparr> else e)
      in e\<lparr>e_depth := e_depth e + 1, e_since := Some now\<rparr>)"

definition try_lease ::
  "string list \<Rightarrow> int \<Rightarrow> string \<Rightarrow> string \<Rightarrow> lease_manager \<Rightarrow> lease_manager \<times> contention" where
  "try_lease order now key holder m0 =
     (let m = sweep now m0 in
      case find (contends m now key holder) order of
        Some other \<Rightarrow> (m, \<lparr>c_wake = lm_wake m, c_blocker = e_holder (the (lm_held m other))\<rparr>)
      | None \<Rightarrow>
          (m\<lparr>lm_held := (lm_held m)(key \<mapsto> take_entry m now key holder)\<rparr>,
           \<lparr>c_wake = 0, c_blocker = []\<rparr>))"

definition release_lease :: "int \<Rightarrow> string \<Rightarrow> string \<Rightarrow> lease_manager \<Rightarrow> lease_manager" where
  "release_lease now key holder m =
     (case lm_held m key of
        None \<Rightarrow> m
      | Some e \<Rightarrow>
          let e' = (if e_holder e = holder \<and> e_depth e > 0
                    then e\<lparr>e_depth := e_depth e - 1, e_since := Some now\<rparr> else e);
              m' = m\<lparr>lm_held := (lm_held m)(key \<mapsto> e')\<rparr>
          in if e_depth e' > 0 then m' else m'\<lparr>lm_wake := lm_wake m' + 1\<rparr>)"

definition enter_wait :: "string \<Rightarrow> string \<Rightarrow> lease_manager \<Rightarrow> lease_manager" where
  "enter_wait key holder m =
     (let e = (case lm_held m key of
                 None \<Rightarrow> \<lparr>e_since = None, e_holder = [], e_waiters = [], e_depth = 0\<rparr>
               | Some e \<Rightarrow> e)
      in m\<lparr>lm_held := (lm_held m)(key \<mapsto> e\<lparr>e_waiters := e_waiters e @ [holder]\<rparr>),
           lm_waiting := lm_waiting m + 1\<rparr>)"

definition leave_wait :: "string \<Rightarrow> string \<Rightarrow> lease_manager \<Rightarrow> lease_manager" where
  "leave_wait key holder m =
     (case lm_held m key of
        None \<Rightarrow> m
      | Some e \<Rightarrow>
          (case find_index (\<lambda>w. w = holder) (e_waiters e) of
             None \<Rightarrow> m
           | Some i \<Rightarrow>
               m\<lparr>lm_held := (lm_held m)(key \<mapsto> e\<lparr>e_waiters := remove_at i (e_waiters e)\<rparr>),
                 lm_waiting := lm_waiting m - 1\<rparr>))"

section \<open>What a client reads\<close>

definition range_order :: "('k \<rightharpoonup> 'v) \<Rightarrow> 'k list \<Rightarrow> bool" where
  "range_order f order = (distinct order \<and> set order = dom f)"

definition list_row :: "lease_manager \<Rightarrow> int \<Rightarrow> string \<Rightarrow> lease_entry \<Rightarrow> lease_row" where
  "list_row m now key e =
     \<lparr>r_since = e_since e, r_subtree = key, r_holder = e_holder e, r_state = state_of m now e,
      r_waiters = e_waiters e\<rparr>"

definition list_leases ::
  "string list \<Rightarrow> int \<Rightarrow> lease_manager \<Rightarrow> lease_manager \<times> lease_row list" where
  "list_leases order now m0 =
     (let m = sweep now m0;
          rows = List.map_filter (\<lambda>key.
            case lm_held m key of
              None \<Rightarrow> None
            | Some e \<Rightarrow> if e_holder e = [] \<and> e_waiters e = [] then None
                        else Some (list_row m now key e)) order
      in (m, sort_key r_subtree rows))"

definition dir_subtree :: "string \<Rightarrow> string \<Rightarrow> string" where
  "dir_subtree root dir = (if dir = [] then ''.'' else subtree root (path_join dir ''x''))"

definition under_scope :: "string \<Rightarrow> string \<Rightarrow> bool" where
  "under_scope scope key = (if scope = ''.'' then \<not> is_abs key else overlaps scope key)"

definition other_active_holders ::
  "string list \<Rightarrow> int \<Rightarrow> string \<Rightarrow> string \<Rightarrow> lease_manager \<Rightarrow> string list" where
  "other_active_holders order now holder dir m =
     (let scope = dir_subtree (lm_root m) dir;
          hs = List.map_filter (\<lambda>key.
            case lm_held m key of
              None \<Rightarrow> None
            | Some e \<Rightarrow>
                if e_holder e = [] \<or> e_holder e = holder \<or> state_of m now e \<noteq> StateActive
                then None
                else if \<not> under_scope scope key then None
                else Some (e_holder e)) order
      in sort_strings (dedup [] hs))"

definition count_leases :: "string list \<Rightarrow> int \<Rightarrow> lease_manager \<Rightarrow> nat \<times> int" where
  "count_leases order now m =
     (length (filter (\<lambda>key.
        case lm_held m key of None \<Rightarrow> False | Some e \<Rightarrow> state_of m now e = StateActive) order),
      lm_waiting m)"

section \<open>Acquire as a call\<close>

datatype acquire_start = NoManager | NoHolder | StartTry string string

text \<open>What \<open>Acquire\<close> decides before its loop: the nil manager and the missing holder.\<close>

definition acquire_start :: "lease_manager option \<Rightarrow> string option \<Rightarrow> string \<Rightarrow> acquire_start" where
  "acquire_start mgr ctx_holder target =
     (case mgr of
        None \<Rightarrow> NoManager
      | Some m \<Rightarrow>
          (case ctx_holder of
             None \<Rightarrow> NoHolder
           | Some h \<Rightarrow> if h = [] then NoHolder else StartTry (subtree (lm_root m) target) h))"

datatype acquire_pc =
    AcqTry bool
  | AcqEnter string nat
  | AcqSleep string nat
  | AcqLeaveHeld
  | AcqLeaveErr string
  | AcqHeld
  | AcqFailed
  | AcqReleased

record acquire_call =
  ac_key :: string
  ac_holder :: string
  ac_pc :: acquire_pc

record lease_sys =
  ls_mgr :: lease_manager
  ls_now :: int
  ls_calls :: "nat \<rightharpoonup> acquire_call"

datatype lease_event =
    LTick nat
  | LStart nat string string
  | LTry nat "string list"
  | LEnter nat
  | LWake nat
  | LCancel nat
  | LLeave nat
  | LRelease nat

definition set_call :: "nat \<Rightarrow> acquire_call \<Rightarrow> acquire_pc \<Rightarrow> lease_sys \<Rightarrow> lease_sys" where
  "set_call i c pc s = s\<lparr>ls_calls := (ls_calls s)(i \<mapsto> c\<lparr>ac_pc := pc\<rparr>)\<rparr>"

text \<open>Where the loop goes after \<open>try\<close>: out with the lease, into the wait, or back to the select.\<close>

definition after_try :: "bool \<Rightarrow> contention \<Rightarrow> acquire_pc" where
  "after_try waiting c =
     (if c_blocker c = [] then (if waiting then AcqLeaveHeld else AcqHeld)
      else if waiting then AcqSleep (c_blocker c) (c_wake c)
      else AcqEnter (c_blocker c) (c_wake c))"

inductive lease_step :: "lease_sys \<Rightarrow> lease_event \<Rightarrow> lease_sys \<Rightarrow> bool" where
  tick: "lease_step s (LTick d) (s\<lparr>ls_now := ls_now s + int d\<rparr>)"
| start: "ls_calls s i = None \<Longrightarrow>
    acquire_start (Some (ls_mgr s)) (Some h) target = StartTry key h' \<Longrightarrow>
    lease_step s (LStart i h target)
      (s\<lparr>ls_calls := (ls_calls s)(i \<mapsto> \<lparr>ac_key = key, ac_holder = h', ac_pc = AcqTry False\<rparr>)\<rparr>)"
| attempt: "ls_calls s i = Some c \<Longrightarrow> ac_pc c = AcqTry w \<Longrightarrow>
    range_order (lm_held (sweep (ls_now s) (ls_mgr s))) order \<Longrightarrow>
    try_lease order (ls_now s) (ac_key c) (ac_holder c) (ls_mgr s) = (m', cn) \<Longrightarrow>
    lease_step s (LTry i order) (set_call i c (after_try w cn) (s\<lparr>ls_mgr := m'\<rparr>))"
| enter: "ls_calls s i = Some c \<Longrightarrow> ac_pc c = AcqEnter b g \<Longrightarrow>
    lease_step s (LEnter i)
      (set_call i c (AcqSleep b g) (s\<lparr>ls_mgr := enter_wait (ac_key c) (ac_holder c) (ls_mgr s)\<rparr>))"
| wake: "ls_calls s i = Some c \<Longrightarrow> ac_pc c = AcqSleep b g \<Longrightarrow> g < lm_wake (ls_mgr s) \<Longrightarrow>
    lease_step s (LWake i) (set_call i c (AcqTry True) s)"
| cancel: "ls_calls s i = Some c \<Longrightarrow> ac_pc c = AcqSleep b g \<Longrightarrow>
    lease_step s (LCancel i) (set_call i c (AcqLeaveErr b) s)"
| leave_held: "ls_calls s i = Some c \<Longrightarrow> ac_pc c = AcqLeaveHeld \<Longrightarrow>
    lease_step s (LLeave i)
      (set_call i c AcqHeld (s\<lparr>ls_mgr := leave_wait (ac_key c) (ac_holder c) (ls_mgr s)\<rparr>))"
| leave_err: "ls_calls s i = Some c \<Longrightarrow> ac_pc c = AcqLeaveErr b \<Longrightarrow>
    lease_step s (LLeave i)
      (set_call i c AcqFailed (s\<lparr>ls_mgr := leave_wait (ac_key c) (ac_holder c) (ls_mgr s)\<rparr>))"
| release: "ls_calls s i = Some c \<Longrightarrow> ac_pc c = AcqHeld \<Longrightarrow>
    lease_step s (LRelease i)
      (set_call i c AcqReleased
        (s\<lparr>ls_mgr := release_lease (ls_now s) (ac_key c) (ac_holder c) (ls_mgr s)\<rparr>))"

inductive_cases lease_stepE: "lease_step s e t"

definition init_lease :: "string \<Rightarrow> int \<Rightarrow> int \<Rightarrow> lease_sys" where
  "init_lease root ttl t0 = \<lparr>ls_mgr = new_manager root ttl, ls_now = t0, ls_calls = Map.empty\<rparr>"

section \<open>Time, and what the operations keep of an entry\<close>

lemma state_of_held [simp]:
  "state_of (m\<lparr>lm_held := f\<rparr>) = state_of m"
  "state_of (m\<lparr>lm_held := f, lm_waiting := n\<rparr>) = state_of m"
  "state_of (m\<lparr>lm_wake := g\<rparr>) = state_of m"
  by (auto simp: fun_eq_iff state_of_def past_ttl_def split: option.splits)

lemma past_ttl_held [simp]:
  "past_ttl (m\<lparr>lm_held := f\<rparr>) = past_ttl m"
  "past_ttl (m\<lparr>lm_wake := g\<rparr>) = past_ttl m"
  by (auto simp: fun_eq_iff past_ttl_def split: option.splits)

lemma state_of_waiters [simp]: "state_of m now (e\<lparr>e_waiters := ws\<rparr>) = state_of m now e"
  by (auto simp: state_of_def past_ttl_def)

lemma state_of_sweep [simp]: "state_of (sweep now' m) = state_of m"
  by (simp add: sweep_def)

lemma active_depth: "state_of m now e = StateActive \<Longrightarrow> e_depth e > 0"
  by (auto simp: state_of_def split: if_splits)

lemma active_earlier:
  "state_of m now' e = StateActive \<Longrightarrow> now \<le> now' \<Longrightarrow> state_of m now e = StateActive"
  by (auto simp: state_of_def past_ttl_def split: if_splits option.splits)

lemma lm_fields_simps [simp]:
  "lm_ttl (sweep now m) = lm_ttl m" "lm_wake (sweep now m) = lm_wake m"
  "lm_waiting (sweep now m) = lm_waiting m" "lm_root (sweep now m) = lm_root m"
  by (simp_all add: sweep_def)

lemma sweep_held: "lm_held (sweep now m) k = Some e \<Longrightarrow> lm_held m k = Some e"
  by (auto simp: sweep_def split: option.splits if_splits)

lemma sweep_keeps:
  "lm_held m k = Some e \<Longrightarrow> e_waiters e \<noteq> [] \<or> e_depth e > 0 \<Longrightarrow> lm_held (sweep now m) k = Some e"
  by (auto simp: sweep_def)

lemma take_entry_simps [simp]:
  "e_holder (take_entry m now key h) = h" "e_depth (take_entry m now key h) > 0"
  "e_since (take_entry m now key h) = Some now"
  by (auto simp: take_entry_def Let_def split: option.splits)

text \<open>How \<open>try\<close> ends, as the two cases its callers distinguish.\<close>

lemma try_lease_cases:
  assumes "try_lease order now key holder m = (m', cn)"
    and "range_order (lm_held (sweep now m)) order"
  obtains
    (blocked) other e where "m' = sweep now m" "lm_held m' other = Some e"
      "e_holder e \<noteq> holder" "state_of m now e = StateActive" "overlaps key other"
      "cn = \<lparr>c_wake = lm_wake m, c_blocker = e_holder e\<rparr>"
  | (taken) "m' = (sweep now m)\<lparr>lm_held :=
        (lm_held (sweep now m))(key \<mapsto> take_entry (sweep now m) now key holder)\<rparr>"
      "cn = \<lparr>c_wake = 0, c_blocker = []\<rparr>"
      "\<And>other e. lm_held (sweep now m) other = Some e \<Longrightarrow> e_holder e \<noteq> holder \<Longrightarrow>
         state_of m now e = StateActive \<Longrightarrow> \<not> overlaps key other"
proof (cases "find (contends (sweep now m) now key holder) order")
  case None
  have no: "\<not> overlaps key other" if "lm_held (sweep now m) other = Some e" "e_holder e \<noteq> holder"
    "state_of m now e = StateActive" for other e
  proof -
    from that(1) assms(2) have "other \<in> set order" by (auto simp: range_order_def)
    with None have "\<not> contends (sweep now m) now key holder other" by (auto simp: find_None_iff)
    with that show ?thesis by (simp add: contends_def)
  qed
  show ?thesis using assms(1) None by (intro taken no) (auto simp: try_lease_def Let_def)
next
  case (Some other)
  then have c: "contends (sweep now m) now key holder other" by (auto simp: find_Some_iff)
  then obtain e where e: "lm_held (sweep now m) other = Some e"
    by (auto simp: contends_def split: option.splits)
  with c Some assms(1) show ?thesis
    by (intro blocked [of other e]) (auto simp: try_lease_def Let_def contends_def)
qed

section \<open>Exclusion\<close>

definition mgr_exclusive :: "lease_manager \<Rightarrow> int \<Rightarrow> bool" where
  "mgr_exclusive m now =
     (\<forall>k1 k2 e1 e2. lm_held m k1 = Some e1 \<longrightarrow> lm_held m k2 = Some e2 \<longrightarrow>
        state_of m now e1 = StateActive \<longrightarrow> state_of m now e2 = StateActive \<longrightarrow>
        overlaps k1 k2 \<longrightarrow> e_holder e1 = e_holder e2)"

lemma mgr_exclusiveD:
  "mgr_exclusive m now \<Longrightarrow> lm_held m k1 = Some e1 \<Longrightarrow> lm_held m k2 = Some e2 \<Longrightarrow>
   state_of m now e1 = StateActive \<Longrightarrow> state_of m now e2 = StateActive \<Longrightarrow>
   overlaps k1 k2 \<Longrightarrow> e_holder e1 = e_holder e2"
  unfolding mgr_exclusive_def by blast

text \<open>An operation that makes no lease active keeps exclusion.\<close>

lemma mgr_exclusive_mono:
  assumes "mgr_exclusive m now"
    and "\<And>k e'. lm_held m' k = Some e' \<Longrightarrow> state_of m' now' e' = StateActive \<Longrightarrow>
      \<exists>e. lm_held m k = Some e \<and> state_of m now e = StateActive \<and> e_holder e = e_holder e'"
  shows "mgr_exclusive m' now'"
  unfolding mgr_exclusive_def
proof (intro allI impI)
  fix k1 k2 e1 e2
  assume "lm_held m' k1 = Some e1" "lm_held m' k2 = Some e2" "state_of m' now' e1 = StateActive"
    "state_of m' now' e2 = StateActive" and ov: "overlaps k1 k2"
  with assms(2) obtain f1 f2 where
    "lm_held m k1 = Some f1" "state_of m now f1 = StateActive" "e_holder f1 = e_holder e1"
    "lm_held m k2 = Some f2" "state_of m now f2 = StateActive" "e_holder f2 = e_holder e2"
    by blast
  with mgr_exclusiveD [OF assms(1) _ _ _ _ ov] show "e_holder e1 = e_holder e2" by metis
qed

lemma exclusive_later: "mgr_exclusive m now \<Longrightarrow> now \<le> now' \<Longrightarrow> mgr_exclusive m now'"
  by (rule mgr_exclusive_mono) (auto intro: active_earlier)

lemma exclusive_sweep: "mgr_exclusive m now \<Longrightarrow> mgr_exclusive (sweep now' m) now"
  by (rule mgr_exclusive_mono) (auto dest: sweep_held)

lemma exclusive_try:
  assumes "mgr_exclusive m now" "range_order (lm_held (sweep now m)) order"
    "try_lease order now key holder m = (m', cn)"
  shows "mgr_exclusive m' now"
  using assms(3,2)
proof (cases rule: try_lease_cases)
  case (blocked other e)
  then show ?thesis using exclusive_sweep [OF assms(1)] by simp
next
  case taken
  have sw: "mgr_exclusive (sweep now m) now" using assms(1) by (rule exclusive_sweep)
  have other: "e_holder e = holder"
    if "lm_held (sweep now m) k = Some e" "state_of m now e = StateActive" "overlaps key k" for k e
    using taken(3) that by blast
  show ?thesis
    unfolding mgr_exclusive_def
  proof (intro allI impI)
    fix k1 k2 e1 e2
    assume h: "lm_held m' k1 = Some e1" "lm_held m' k2 = Some e2"
      and a: "state_of m' now e1 = StateActive" "state_of m' now e2 = StateActive"
      and ov: "overlaps k1 k2"
    have a': "state_of m now e1 = StateActive" "state_of m now e2 = StateActive"
      using a taken(1) by simp_all
    show "e_holder e1 = e_holder e2"
    proof (cases "k1 = key")
      case True
      with h(1) taken(1) have "e_holder e1 = holder" by auto
      moreover have "e_holder e2 = holder"
        using h(2) taken(1) True other [of k2 e2] a' ov by (cases "k2 = key") auto
      ultimately show ?thesis by simp
    next
      case False
      with h(1) taken(1) have h1: "lm_held (sweep now m) k1 = Some e1" by simp
      show ?thesis
      proof (cases "k2 = key")
        case True
        then have "overlaps key k1" using ov by (simp add: overlaps_sym)
        with other [OF h1 a'(1)] h(2) taken(1) True show ?thesis by auto
      next
        case False
        with h(2) taken(1) have "lm_held (sweep now m) k2 = Some e2" by simp
        with mgr_exclusiveD [OF sw h1 _ _ _ ov] a' show ?thesis by simp
      qed
    qed
  qed
qed

lemma exclusive_enter: "mgr_exclusive m now \<Longrightarrow> mgr_exclusive (enter_wait key h m) now"
  by (rule mgr_exclusive_mono)
    (auto simp: enter_wait_def Let_def dest: active_depth split: if_splits option.splits)

lemma exclusive_leave: "mgr_exclusive m now \<Longrightarrow> mgr_exclusive (leave_wait key h m) now"
  by (rule mgr_exclusive_mono)
    (auto simp: leave_wait_def split: if_splits option.splits)

text \<open>
  Releasing refreshes the time stamp of an entry that stays held, so it can only make a lease
  active that had expired while held more than once.
\<close>

definition late_release :: "lease_manager \<Rightarrow> int \<Rightarrow> string \<Rightarrow> string \<Rightarrow> bool" where
  "late_release m now key holder =
     (case lm_held m key of
        None \<Rightarrow> False
      | Some e \<Rightarrow> e_holder e = holder \<and> e_depth e > 1 \<and> past_ttl m now e)"

lemma exclusive_release:
  assumes "mgr_exclusive m now" "\<not> late_release m now key holder"
  shows "mgr_exclusive (release_lease now key holder m) now"
proof (rule mgr_exclusive_mono [OF assms(1)])
  fix k e'
  assume h: "lm_held (release_lease now key holder m) k = Some e'"
    and a: "state_of (release_lease now key holder m) now e' = StateActive"
  show "\<exists>e. lm_held m k = Some e \<and> state_of m now e = StateActive \<and> e_holder e = e_holder e'"
  proof (cases "lm_held m key")
    case None
    then show ?thesis using h a by (auto simp: release_lease_def)
  next
    case (Some e)
    have st: "state_of (release_lease now key holder m) = state_of m"
      using Some by (simp add: release_lease_def Let_def)
    show ?thesis
    proof (cases "k = key")
      case False
      then show ?thesis using h a Some st by (auto simp: release_lease_def Let_def split: if_splits)
    next
      case True
      show ?thesis
      proof (cases "e_holder e = holder \<and> e_depth e > 0")
        case False
        then have "e' = e" using h Some True by (auto simp: release_lease_def Let_def split: if_splits)
        then show ?thesis using a st True Some by auto
      next
        case rel: True
        then have e': "e' = e\<lparr>e_depth := e_depth e - 1, e_since := Some now\<rparr>"
          using h Some True by (auto simp: release_lease_def Let_def split: if_splits)
        with a st have "e_depth e > 1" by (auto dest: active_depth)
        with assms(2) Some rel have "\<not> past_ttl m now e" by (simp add: late_release_def)
        then show ?thesis using Some True rel e' by (auto simp: state_of_def)
      qed
    qed
  qed
qed

section \<open>Waiters\<close>

definition waiters_at :: "lease_manager \<Rightarrow> string \<Rightarrow> string list" where
  "waiters_at m k = (case lm_held m k of None \<Rightarrow> [] | Some e \<Rightarrow> e_waiters e)"

lemma waiters_sweep [simp]: "waiters_at (sweep now m) k = waiters_at m k"
  by (auto simp: waiters_at_def sweep_def split: option.splits)

lemma waiters_take: "e_waiters (take_entry m now key h) = waiters_at m key"
  by (auto simp: take_entry_def waiters_at_def Let_def split: option.splits)

lemma waiters_update [simp]:
  "waiters_at (m\<lparr>lm_held := f(key \<mapsto> e)\<rparr>) k =
     (if k = key then e_waiters e else waiters_at (m\<lparr>lm_held := f\<rparr>) k)"
  by (simp add: waiters_at_def)

lemma waiters_same [simp]: "waiters_at (m\<lparr>lm_held := lm_held m\<rparr>) k = waiters_at m k"
  by (simp add: waiters_at_def)

lemma waiters_try:
  assumes "try_lease order now key holder m = (m', cn)"
  shows "waiters_at m' k = waiters_at m k" "lm_waiting m' = lm_waiting m" "lm_wake m' = lm_wake m"
  using assms by (auto simp: try_lease_def Let_def waiters_take split: option.splits if_splits)

lemma waiters_release [simp]:
  "waiters_at (release_lease now key h m) k = waiters_at m k"
  "lm_waiting (release_lease now key h m) = lm_waiting m"
  by (auto simp: release_lease_def waiters_at_def Let_def split: option.splits)

lemma waiters_enter:
  "waiters_at (enter_wait key h m) k = (if k = key then waiters_at m k @ [h] else waiters_at m k)"
  "lm_waiting (enter_wait key h m) = lm_waiting m + 1"
  by (auto simp: enter_wait_def waiters_at_def Let_def split: option.splits)

lemma count_list_remove_first:
  assumes "find_index (\<lambda>w. w = h) ws = Some i"
  shows "count_list (remove_at i ws) h' = (if h' = h then count_list ws h' - 1 else count_list ws h')"
proof -
  from find_index_SomeD [OF assms] have "i < length ws" "ws ! i = h" by auto
  then have "ws = take i ws @ h # drop (Suc i) ws" by (metis id_take_nth_drop)
  then have "count_list ws h' = count_list (take i ws @ h # drop (Suc i) ws) h'" by simp
  then show ?thesis by (auto simp: remove_at_def)
qed

lemma waiters_leave:
  assumes "h \<in> set (waiters_at m key)"
  shows "lm_waiting (leave_wait key h m) = lm_waiting m - 1"
    and "count_list (waiters_at (leave_wait key h m) k) h' =
      (if k = key \<and> h' = h then count_list (waiters_at m k) h' - 1 else count_list (waiters_at m k) h')"
proof -
  from assms obtain e where e: "lm_held m key = Some e" "h \<in> set (e_waiters e)"
    by (cases "lm_held m key") (auto simp: waiters_at_def)
  then have "find_index (\<lambda>w. w = h) (e_waiters e) \<noteq> None"
    unfolding find_index_None_iff by blast
  then obtain i where i: "find_index (\<lambda>w. w = h) (e_waiters e) = Some i" by blast
  show "lm_waiting (leave_wait key h m) = lm_waiting m - 1"
    using e i by (simp add: leave_wait_def)
  show "count_list (waiters_at (leave_wait key h m) k) h' =
      (if k = key \<and> h' = h then count_list (waiters_at m k) h' - 1 else count_list (waiters_at m k) h')"
    using e i count_list_remove_first [OF i] by (auto simp: leave_wait_def waiters_at_def)
qed

section \<open>Invariants of the calls\<close>

fun waiting_pc :: "acquire_pc \<Rightarrow> bool" where
  "waiting_pc (AcqTry w) = w"
| "waiting_pc (AcqSleep b g) = True"
| "waiting_pc AcqLeaveHeld = True"
| "waiting_pc (AcqLeaveErr b) = True"
| "waiting_pc _ = False"

fun captured_wake :: "acquire_pc \<Rightarrow> nat option" where
  "captured_wake (AcqEnter b g) = Some g"
| "captured_wake (AcqSleep b g) = Some g"
| "captured_wake _ = None"

definition waiting_calls :: "lease_sys \<Rightarrow> string \<Rightarrow> string \<Rightarrow> nat set" where
  "waiting_calls s k h = {i. \<exists>c. ls_calls s i = Some c \<and> waiting_pc (ac_pc c) \<and> ac_key c = k \<and> ac_holder c = h}"

definition all_waiting :: "lease_sys \<Rightarrow> nat set" where
  "all_waiting s = {i. \<exists>c. ls_calls s i = Some c \<and> waiting_pc (ac_pc c)}"

lemma waiting_calls_mgr [simp]:
  "waiting_calls (s\<lparr>ls_mgr := m\<rparr>) = waiting_calls s" "all_waiting (s\<lparr>ls_mgr := m\<rparr>) = all_waiting s"
  "waiting_calls (s\<lparr>ls_now := t\<rparr>) = waiting_calls s" "all_waiting (s\<lparr>ls_now := t\<rparr>) = all_waiting s"
  by (auto simp: fun_eq_iff waiting_calls_def all_waiting_def)

lemma waiting_calls_set:
  "waiting_calls (set_call i c pc s) k h =
     (if waiting_pc pc \<and> ac_key c = k \<and> ac_holder c = h then insert i (waiting_calls s k h)
      else waiting_calls s k h - {i})"
  "all_waiting (set_call i c pc s) = (if waiting_pc pc then insert i (all_waiting s) else all_waiting s - {i})"
  by (auto simp: waiting_calls_def all_waiting_def set_call_def)

lemma set_call_fields [simp]:
  "ls_mgr (set_call i c pc s) = ls_mgr s" "ls_now (set_call i c pc s) = ls_now s"
  "dom (ls_calls (set_call i c pc s)) = insert i (dom (ls_calls s))"
  "ls_calls (set_call i c pc s) j = (if j = i then Some (c\<lparr>ac_pc := pc\<rparr>) else ls_calls s j)"
  by (auto simp: set_call_def)

lemma finite_waiting: "finite (dom (ls_calls s)) \<Longrightarrow> finite (waiting_calls s k h) \<and> finite (all_waiting s)"
  by (auto simp: waiting_calls_def all_waiting_def dom_def elim!: finite_subset [rotated])

definition wait_inv :: "lease_sys \<Rightarrow> bool" where
  "wait_inv s =
     (finite (dom (ls_calls s)) \<and>
      (\<forall>k h. count_list (waiters_at (ls_mgr s) k) h = card (waiting_calls s k h)) \<and>
      lm_waiting (ls_mgr s) = int (card (all_waiting s)) \<and>
      (\<forall>i c g. ls_calls s i = Some c \<longrightarrow> captured_wake (ac_pc c) = Some g \<longrightarrow> g \<le> lm_wake (ls_mgr s)))"

text \<open>A step that neither enters nor leaves a wait and changes no waiter list keeps the accounts.\<close>

lemma wait_inv_same:
  assumes "wait_inv s" and i: "ls_calls s i = Some c" and pc: "waiting_pc pc = waiting_pc (ac_pc c)"
    and w: "\<And>k. waiters_at m' k = waiters_at (ls_mgr s) k" "lm_waiting m' = lm_waiting (ls_mgr s)"
    and g: "lm_wake (ls_mgr s) \<le> lm_wake m'" "\<And>g. captured_wake pc = Some g \<Longrightarrow> g \<le> lm_wake m'"
  shows "wait_inv (set_call i c pc (s\<lparr>ls_mgr := m'\<rparr>))"
proof -
  have 1: "waiting_calls (set_call i c pc (s\<lparr>ls_mgr := m'\<rparr>)) k h = waiting_calls s k h" for k h
    using i pc by (auto simp: waiting_calls_set) (auto simp: waiting_calls_def)
  have 2: "all_waiting (set_call i c pc (s\<lparr>ls_mgr := m'\<rparr>)) = all_waiting s"
    using i pc by (auto simp: waiting_calls_set) (auto simp: all_waiting_def)
  have 3: "g \<le> lm_wake m'"
    if "ls_calls (set_call i c pc (s\<lparr>ls_mgr := m'\<rparr>)) j = Some d" "captured_wake (ac_pc d) = Some g" for j d g
  proof (cases "j = i")
    case True
    then show ?thesis using that g(2) by auto
  next
    case False
    then have "g \<le> lm_wake (ls_mgr s)" using that assms(1) by (auto simp: wait_inv_def)
    then show ?thesis using g(1) by simp
  qed
  show ?thesis using assms(1) w i 1 2 3 unfolding wait_inv_def
    by (simp add: insert_absorb domI)
qed

lemma wait_inv_enter:
  assumes inv: "wait_inv s" and i: "ls_calls s i = Some c" and pc: "ac_pc c = AcqEnter b g"
  shows "wait_inv (set_call i c (AcqSleep b g) (s\<lparr>ls_mgr := enter_wait (ac_key c) (ac_holder c) (ls_mgr s)\<rparr>))"
    (is "wait_inv ?t")
proof -
  have fin: "finite (waiting_calls s k h)" "finite (all_waiting s)" for k h
    using finite_waiting inv by (auto simp: wait_inv_def)
  have notin: "i \<notin> waiting_calls s k h" "i \<notin> all_waiting s" for k h
    using i pc by (auto simp: waiting_calls_def all_waiting_def)
  have "count_list (waiters_at (ls_mgr ?t) k) h = card (waiting_calls ?t k h)" for k h
    using inv fin notin by (auto simp: wait_inv_def waiters_enter waiting_calls_set)
  moreover have "lm_waiting (ls_mgr ?t) = int (card (all_waiting ?t))"
    using inv fin notin by (simp add: wait_inv_def waiters_enter waiting_calls_set)
  moreover have wk: "lm_wake (ls_mgr ?t) = lm_wake (ls_mgr s)" by (simp add: enter_wait_def Let_def)
  moreover have "g' \<le> lm_wake (ls_mgr ?t)"
    if "ls_calls ?t j = Some d" "captured_wake (ac_pc d) = Some g'" for j d g'
    using that inv i pc wk by (cases "j = i") (auto simp: wait_inv_def)
  ultimately show ?thesis using inv unfolding wait_inv_def by simp
qed

lemma wait_inv_leave:
  assumes inv: "wait_inv s" and i: "ls_calls s i = Some c" and pc: "waiting_pc (ac_pc c)"
    and pc': "\<not> waiting_pc pc'" "captured_wake pc' = None"
  shows "wait_inv (set_call i c pc' (s\<lparr>ls_mgr := leave_wait (ac_key c) (ac_holder c) (ls_mgr s)\<rparr>))"
    (is "wait_inv ?t")
proof -
  have fin: "finite (waiting_calls s k h)" "finite (all_waiting s)" for k h
    using finite_waiting inv by (auto simp: wait_inv_def)
  have ini: "i \<in> waiting_calls s (ac_key c) (ac_holder c)" "i \<in> all_waiting s"
    using i pc by (auto simp: waiting_calls_def all_waiting_def)
  have only: "i \<in> waiting_calls s k h \<longleftrightarrow> ac_key c = k \<and> ac_holder c = h" for k h
    using i pc by (auto simp: waiting_calls_def)
  have "card (waiting_calls s (ac_key c) (ac_holder c)) > 0"
    using fin ini(1) by (auto simp: card_gt_0_iff)
  then have "count_list (waiters_at (ls_mgr s) (ac_key c)) (ac_holder c) > 0"
    using inv by (simp add: wait_inv_def)
  then have mem: "ac_holder c \<in> set (waiters_at (ls_mgr s) (ac_key c))"
    by (metis count_notin less_irrefl)
  have "count_list (waiters_at (ls_mgr ?t) k) h = card (waiting_calls ?t k h)" for k h
    using inv waiters_leave(2) [OF mem] only fin pc'(1)
    by (auto simp: wait_inv_def waiting_calls_set card_Diff_singleton)
  moreover have "lm_waiting (ls_mgr ?t) = int (card (all_waiting ?t))"
    using inv waiters_leave(1) [OF mem] ini(2) fin pc'(1) card_gt_0_iff [of "all_waiting s"]
    by (auto simp: wait_inv_def waiting_calls_set card_Diff_singleton of_nat_diff)
  moreover have wk: "lm_wake (ls_mgr ?t) = lm_wake (ls_mgr s)"
    by (auto simp: leave_wait_def split: option.splits)
  moreover have "g' \<le> lm_wake (ls_mgr ?t)"
    if "ls_calls ?t j = Some d" "captured_wake (ac_pc d) = Some g'" for j d g'
    using that inv i pc'(2) wk by (cases "j = i") (auto simp: wait_inv_def)
  ultimately show ?thesis using inv unfolding wait_inv_def by simp
qed

lemma lm_wake_release: "lm_wake m \<le> lm_wake (release_lease now key h m)"
  by (auto simp: release_lease_def Let_def split: option.splits)

lemma set_call_mgr: "set_call i c pc s = set_call i c pc (s\<lparr>ls_mgr := ls_mgr s\<rparr>)"
  by simp

lemma after_try_waiting: "waiting_pc (after_try w cn) = w"
  by (cases w) (auto simp: after_try_def)

lemma after_try_captured: "captured_wake (after_try w cn) = Some g \<Longrightarrow> g = c_wake cn"
  by (auto simp: after_try_def split: if_splits)

lemma wait_inv_step: "wait_inv s \<Longrightarrow> lease_step s e t \<Longrightarrow> wait_inv t"
proof (erule lease_step.cases)
  assume inv: "wait_inv s"
  {
    fix s' d assume "s = s'" "t = s'\<lparr>ls_now := ls_now s' + int d\<rparr>"
    then show ?thesis using inv by (auto simp: wait_inv_def)
  next
    fix s' i h target key h'
    assume *: "s = s'" "ls_calls s' i = None" and t: "t = s'\<lparr>ls_calls := (ls_calls s')(i \<mapsto>
      \<lparr>ac_key = key, ac_holder = h', ac_pc = AcqTry False\<rparr>)\<rparr>"
    have "waiting_calls t k h = waiting_calls s k h" "all_waiting t = all_waiting s" for k h
      using * t by (auto simp: waiting_calls_def all_waiting_def)
    then show ?thesis using inv * t by (auto simp: wait_inv_def)
  next
    fix s' i c w order m' cn
    assume *: "s = s'" "ls_calls s' i = Some c" "ac_pc c = AcqTry w"
      and ro: "range_order (lm_held (sweep (ls_now s') (ls_mgr s'))) order"
      and tr: "try_lease order (ls_now s') (ac_key c) (ac_holder c) (ls_mgr s') = (m', cn)"
      and t: "t = set_call i c (after_try w cn) (s'\<lparr>ls_mgr := m'\<rparr>)"
    have "c_wake cn \<le> lm_wake m'"
      using tr ro by (cases rule: try_lease_cases) auto
    then show ?thesis unfolding t using inv * waiters_try [OF tr]
      by (intro wait_inv_same) (auto simp: after_try_waiting dest: after_try_captured)
  next
    fix s' i c b g
    assume "s = s'" "t = set_call i c (AcqSleep b g) (s'\<lparr>ls_mgr := enter_wait (ac_key c) (ac_holder c) (ls_mgr s')\<rparr>)"
      "ls_calls s' i = Some c" "ac_pc c = AcqEnter b g"
    then show ?thesis using wait_inv_enter inv by blast
  next
    fix s' i c b g
    assume "s = s'" "t = set_call i c (AcqTry True) s'" "ls_calls s' i = Some c" "ac_pc c = AcqSleep b g"
    then show ?thesis using inv
      by (simp only: set_call_mgr [of _ _ _ s']) (rule wait_inv_same, auto)
  next
    fix s' i c b g
    assume "s = s'" "t = set_call i c (AcqLeaveErr b) s'" "ls_calls s' i = Some c" "ac_pc c = AcqSleep b g"
    then show ?thesis using inv
      by (simp only: set_call_mgr [of _ _ _ s']) (rule wait_inv_same, auto)
  next
    fix s' i c
    assume "s = s'" "t = set_call i c AcqHeld (s'\<lparr>ls_mgr := leave_wait (ac_key c) (ac_holder c) (ls_mgr s')\<rparr>)"
      "ls_calls s' i = Some c" "ac_pc c = AcqLeaveHeld"
    then show ?thesis using wait_inv_leave [of s i c AcqHeld] inv by simp
  next
    fix s' i c b
    assume "s = s'" "t = set_call i c AcqFailed (s'\<lparr>ls_mgr := leave_wait (ac_key c) (ac_holder c) (ls_mgr s')\<rparr>)"
      "ls_calls s' i = Some c" "ac_pc c = AcqLeaveErr b"
    then show ?thesis using wait_inv_leave [of s i c AcqFailed] inv by simp
  next
    fix s' i c
    assume "s = s'" "ls_calls s' i = Some c" "ac_pc c = AcqHeld"
      "t = set_call i c AcqReleased
        (s'\<lparr>ls_mgr := release_lease (ls_now s') (ac_key c) (ac_holder c) (ls_mgr s')\<rparr>)"
    then show ?thesis using inv by (auto intro!: wait_inv_same lm_wake_release)
  }
qed

interpretation lease_waits: guarded_system "init_lease root ttl t0" lease_step wait_inv
proof unfold_locales
  show "wait_inv (init_lease root ttl t0)"
    by (auto simp: wait_inv_def init_lease_def new_manager_def waiters_at_def waiting_calls_def all_waiting_def)
qed (rule wait_inv_step)

section \<open>Exclusion over runs\<close>

definition holders_named :: "lease_sys \<Rightarrow> bool" where
  "holders_named s =
     ((\<forall>i c. ls_calls s i = Some c \<longrightarrow> ac_holder c \<noteq> []) \<and>
      (\<forall>k e. lm_held (ls_mgr s) k = Some e \<longrightarrow> e_depth e > 0 \<longrightarrow> e_holder e \<noteq> []))"

definition excl_inv :: "lease_sys \<Rightarrow> bool" where
  "excl_inv s = (holders_named s \<and> mgr_exclusive (ls_mgr s) (ls_now s))"

text \<open>A release is timely unless it is an inner release of a lease that has already expired.\<close>

fun timely :: "lease_sys \<Rightarrow> lease_event \<Rightarrow> bool" where
  "timely s (LRelease i) =
     (case ls_calls s i of
        None \<Rightarrow> True
      | Some c \<Rightarrow> \<not> late_release (ls_mgr s) (ls_now s) (ac_key c) (ac_holder c))"
| "timely s _ = True"

definition timely_step :: "lease_sys \<Rightarrow> lease_event \<Rightarrow> lease_sys \<Rightarrow> bool" where
  "timely_step s e t = (lease_step s e t \<and> timely s e)"

lemma holders_named_step: "holders_named s \<Longrightarrow> lease_step s e t \<Longrightarrow> holders_named t"
proof (erule lease_step.cases)
  assume inv: "holders_named s"
  {
    fix s' i h target key h'
    assume "s = s'" "acquire_start (Some (ls_mgr s')) (Some h) target = StartTry key h'"
      "t = s'\<lparr>ls_calls := (ls_calls s')(i \<mapsto> \<lparr>ac_key = key, ac_holder = h', ac_pc = AcqTry False\<rparr>)\<rparr>"
    then show ?thesis using inv by (auto simp: holders_named_def acquire_start_def split: if_splits)
  next
    fix s' i c w order m' cn
    assume *: "s = s'" "ls_calls s' i = Some c"
      and ro: "range_order (lm_held (sweep (ls_now s') (ls_mgr s'))) order"
      and tr: "try_lease order (ls_now s') (ac_key c) (ac_holder c) (ls_mgr s') = (m', cn)"
      and t: "t = set_call i c (after_try w cn) (s'\<lparr>ls_mgr := m'\<rparr>)"
    have "e_holder e \<noteq> []" if "lm_held m' k = Some e" "e_depth e > 0" for k e
      using tr ro
    proof (cases rule: try_lease_cases)
      case (blocked other e')
      then show ?thesis using that inv * by (auto simp: holders_named_def dest: sweep_held)
    next
      case taken
      then show ?thesis using that inv *
        by (cases "k = ac_key c") (auto simp: holders_named_def dest: sweep_held)
    qed
    then show ?thesis using inv * t by (auto simp: holders_named_def)
  next
    fix s' i c b g
    assume "s = s'" "t = set_call i c (AcqSleep b g) (s'\<lparr>ls_mgr := enter_wait (ac_key c) (ac_holder c) (ls_mgr s')\<rparr>)"
      "ls_calls s' i = Some c"
    then show ?thesis using inv
      by (auto simp: holders_named_def enter_wait_def Let_def split: if_splits option.splits)
  next
    fix s' i c
    assume "s = s'" "ls_calls s' i = Some c"
      "t = set_call i c AcqReleased
        (s'\<lparr>ls_mgr := release_lease (ls_now s') (ac_key c) (ac_holder c) (ls_mgr s')\<rparr>)"
    then show ?thesis using inv
      by (auto simp: holders_named_def release_lease_def Let_def split: if_splits option.splits)
  }
qed (auto simp: holders_named_def leave_wait_def split: option.splits if_splits)

lemma excl_inv_step: "excl_inv s \<Longrightarrow> timely_step s e t \<Longrightarrow> excl_inv t"
proof -
  assume inv: "excl_inv s" and st: "timely_step s e t"
  then have n: "holders_named t" and ls: "lease_step s e t" and tm: "timely s e"
    using holders_named_step by (auto simp: excl_inv_def timely_step_def)
  from inv have ex: "mgr_exclusive (ls_mgr s) (ls_now s)" by (simp add: excl_inv_def)
  from ls tm have "mgr_exclusive (ls_mgr t) (ls_now t)"
    by (cases rule: lease_step.cases)
      (auto intro: exclusive_later [OF ex] exclusive_try [OF ex] exclusive_enter [OF ex]
        exclusive_leave [OF ex] exclusive_release [OF ex] ex)
  with n show ?thesis by (simp add: excl_inv_def)
qed

lemma excl_inv_init: "excl_inv (init_lease root ttl t0)"
  by (auto simp: excl_inv_def holders_named_def mgr_exclusive_def init_lease_def new_manager_def)

interpretation lease_excl: guarded_system "init_lease root ttl t0" timely_step excl_inv
  by unfold_locales (rule excl_inv_init, rule excl_inv_step)

section \<open>Properties\<close>

text \<open>
  C6: two threads never write overlapping subtrees. In every state a run with timely releases
  reaches, two leases that are active now on subtrees of which one contains the other belong to
  the same thread.
\<close>

theorem lease_mutual_exclusion:
  assumes "reach (init_lease root ttl t0) timely_step s"
    and "lm_held (ls_mgr s) k1 = Some e1" "lm_held (ls_mgr s) k2 = Some e2"
    and "state_of (ls_mgr s) (ls_now s) e1 = StateActive"
    and "state_of (ls_mgr s) (ls_now s) e2 = StateActive"
    and "overlaps k1 k2"
  shows "e_holder e1 = e_holder e2"
proof -
  from assms(1) have "excl_inv s" by (rule lease_excl.inv_reach)
  then show ?thesis using assms(2-) by (auto simp: excl_inv_def dest: mgr_exclusiveD)
qed

definition demo_held :: lease_sys where
  "demo_held =
     (init_lease ''/p'' 10 0)\<lparr>ls_calls :=
        [0 \<mapsto> \<lparr>ac_key = ''a'', ac_holder = ''A'', ac_pc = AcqHeld\<rparr>],
      ls_mgr := (new_manager ''/p'' 10)\<lparr>lm_held :=
        [''a'' \<mapsto> \<lparr>e_since = Some 0, e_holder = ''A'', e_waiters = [], e_depth = 1\<rparr>]\<rparr>\<rparr>"

lemma sweep_new [simp]: "lm_held (sweep now (new_manager r t)) = Map.empty"
  by (simp add: sweep_def new_manager_def fun_eq_iff)

lemma demo_key: "subtree ''/p'' ''/p/a/f.go'' = ''a''"
  by code_simp

lemma demo_held_reach: "reach (init_lease ''/p'' 10 0) timely_step demo_held"
proof -
  let ?s0 = "init_lease ''/p'' 10 0"
  let ?s1 = "?s0\<lparr>ls_calls := [0 \<mapsto> \<lparr>ac_key = ''a'', ac_holder = ''A'', ac_pc = AcqTry False\<rparr>]\<rparr>"
  have "timely_step ?s0 (LStart 0 ''A'' ''/p/a/f.go'') ?s1"
    using lease_step.start [of ?s0 0 "''A''" "''/p/a/f.go''" "''a''" "''A''"]
    by (simp add: timely_step_def init_lease_def new_manager_def acquire_start_def demo_key)
  with reach_init have 1: "reach ?s0 timely_step ?s1" by (rule reach_step)
  have "try_lease [] 0 ''a'' ''A'' (new_manager ''/p'' 10) =
     ((new_manager ''/p'' 10)\<lparr>lm_held :=
        [''a'' \<mapsto> \<lparr>e_since = Some 0, e_holder = ''A'', e_waiters = [], e_depth = 1\<rparr>]\<rparr>,
      \<lparr>c_wake = 0, c_blocker = []\<rparr>)"
    by (simp add: try_lease_def sweep_def new_manager_def take_entry_def Let_def fun_eq_iff)
  then have "timely_step ?s1 (LTry 0 []) demo_held"
    using lease_step.attempt [of ?s1 0 "\<lparr>ac_key = ''a'', ac_holder = ''A'', ac_pc = AcqTry False\<rparr>" False "[]"]
    by (simp add: timely_step_def demo_held_def init_lease_def range_order_def after_try_def set_call_def)
  with 1 show ?thesis by (rule reach_step)
qed

theorem lease_mutual_exclusion_witness:
  "e_holder (the (lm_held (ls_mgr demo_held) ''a'')) = e_holder (the (lm_held (ls_mgr demo_held) ''a''))
   \<and> state_of (ls_mgr demo_held) (ls_now demo_held) (the (lm_held (ls_mgr demo_held) ''a'')) = StateActive"
proof -
  have h: "lm_held (ls_mgr demo_held) ''a'' =
      Some \<lparr>e_since = Some 0, e_holder = ''A'', e_waiters = [], e_depth = 1\<rparr>"
    by (simp add: demo_held_def)
  have a: "state_of (ls_mgr demo_held) (ls_now demo_held)
      \<lparr>e_since = Some 0, e_holder = ''A'', e_waiters = [], e_depth = 1\<rparr> = StateActive"
    by (simp add: demo_held_def state_of_def past_ttl_def init_lease_def new_manager_def)
  from lease_mutual_exclusion [OF demo_held_reach h h a a overlaps_refl] h a show ?thesis by simp
qed

text \<open>
  The inner release of an expired lease breaks exclusion. Thread A holds \<open>a\<close> twice, its
  lease expires, thread B takes \<open>a/b\<close>, A releases once: \<open>release\<close> refreshes A's time stamp
  and both leases are active on overlapping subtrees.
\<close>

theorem lease_late_release_revives:
  "let m0 = new_manager ''/p'' 10;
       m1 = fst (try_lease [] 0 ''a'' ''A'' m0);
       m2 = fst (try_lease [''a''] 1 ''a'' ''A'' m1);
       (m3, c) = try_lease [''a''] 100 ''a/b'' ''B'' m2;
       m4 = release_lease 101 ''a'' ''A'' m3
   in c_blocker c = [] \<and> overlaps ''a'' ''a/b'' \<and>
      map_option e_holder (lm_held m4 ''a'') = Some ''A'' \<and>
      map_option (state_of m4 101) (lm_held m4 ''a'') = Some StateActive \<and>
      map_option e_holder (lm_held m4 ''a/b'') = Some ''B'' \<and>
      map_option (state_of m4 101) (lm_held m4 ''a/b'') = Some StateActive"
  by (simp add: try_lease_def sweep_def new_manager_def take_entry_def release_lease_def
      contends_def state_of_def past_ttl_def overlaps_def Let_def)

text \<open>
  The waiting count of the diagnostics panel is the number of calls waiting: in every
  reachable state it equals the calls between \<open>enterWait\<close> and \<open>leaveWait\<close>, and a subtree's
  waiter list names each waiting thread once per waiting call.
\<close>

theorem lease_waiting_accounts:
  assumes "reach (init_lease root ttl t0) lease_step s"
  shows "snd (count_leases order now (ls_mgr s)) = int (card (all_waiting s)) \<and>
    count_list (waiters_at (ls_mgr s) k) h = card (waiting_calls s k h)"
  using lease_waits.inv_reach [OF assms] by (simp add: wait_inv_def count_leases_def)

theorem lease_waiting_accounts_witness:
  "snd (count_leases [''a''] 0 (ls_mgr demo_held)) = int (card (all_waiting demo_held))"
proof -
  have "reach (init_lease ''/p'' 10 0) lease_step demo_held"
    using demo_held_reach
    by (induction rule: reach.induct) (auto simp: timely_step_def intro: reach.intros)
  from lease_waiting_accounts [OF this] show ?thesis by blast
qed

text \<open>
  C4: \<open>try\<close> takes the lease exactly when nothing active of another thread overlaps the key, and
  then the lease on the key is the caller's, active now, and the waiters recorded there are kept;
  otherwise it reports a thread that holds an active overlapping lease and changes nothing but
  the sweep. The empty blocker, which \<open>Acquire\<close> reads as success, is never a real holder.
\<close>

theorem try_lease_correct:
  assumes "range_order (lm_held (sweep now m)) order"
    and named: "\<And>k e. lm_held m k = Some e \<Longrightarrow> e_depth e > 0 \<Longrightarrow> e_holder e \<noteq> []"
    and "0 \<le> lm_ttl m"
    and tr: "try_lease order now key holder m = (m', cn)"
  shows "(c_blocker cn = [] \<longleftrightarrow>
      (\<forall>k e. lm_held m k = Some e \<longrightarrow> e_holder e \<noteq> holder \<longrightarrow> overlaps key k \<longrightarrow>
         state_of m now e \<noteq> StateActive)) \<and>
    (c_blocker cn = [] \<longrightarrow>
      (\<exists>e. lm_held m' key = Some e \<and> e_holder e = holder \<and> state_of m' now e = StateActive \<and>
           e_waiters e = waiters_at m key)) \<and>
    (c_blocker cn \<noteq> [] \<longrightarrow> m' = sweep now m)"
  using tr assms(1)
proof (cases rule: try_lease_cases)
  case (blocked other e)
  then have o: "lm_held m other = Some e" by (auto dest: sweep_held)
  with named blocked active_depth have "e_holder e \<noteq> []" by blast
  with blocked o show ?thesis by auto
next
  case taken
  have "\<not> overlaps key k \<or> state_of m now e \<noteq> StateActive"
    if "lm_held m k = Some e" "e_holder e \<noteq> holder" for k e
  proof (cases "state_of m now e = StateActive")
    case True
    then have "lm_held (sweep now m) k = Some e"
      using sweep_keeps that(1) active_depth by blast
    with taken(3) that(2) True show ?thesis by blast
  qed simp
  moreover have "state_of m' now (take_entry (sweep now m) now key holder) = StateActive"
    using taken(1) assms(3) by (simp add: state_of_def past_ttl_def)
  ultimately show ?thesis using taken waiters_take [of "sweep now m" now key holder] by auto
qed

theorem try_lease_correct_witness:
  "(c_blocker (snd (try_lease [''a''] 1 ''a/b'' ''B'' (ls_mgr demo_held))) \<noteq> []) \<and>
   (c_blocker (snd (try_lease [''a''] 1 ''b'' ''B'' (ls_mgr demo_held))) = [])"
proof -
  let ?m = "ls_mgr demo_held"
  have ro: "range_order (lm_held (sweep 1 ?m)) [''a'']"
    by (auto simp: range_order_def sweep_def demo_held_def dom_def)
  have nm: "lm_held ?m k = Some e \<Longrightarrow> e_depth e > 0 \<Longrightarrow> e_holder e \<noteq> []" for k e
    by (auto simp: demo_held_def split: if_splits)
  have tt: "0 \<le> lm_ttl ?m" by (simp add: demo_held_def new_manager_def)
  note inst = try_lease_correct [OF ro nm tt surjective_pairing]
  from inst [where key = "''a/b''" and holder = "''B''"] inst [where key = "''b''" and holder = "''B''"] show ?thesis
    by (auto simp: demo_held_def overlaps_def state_of_def past_ttl_def new_manager_def
        split: if_splits)
qed

text \<open>
  No wakeup is lost. A release that gives up the last hold on a subtree lets every sleeping
  call retry, whatever it waits for.
\<close>

theorem lease_release_wakes_all:
  assumes r: "reach (init_lease root ttl t0) lease_step s"
    and i: "ls_calls s i = Some c" "ac_pc c = AcqHeld"
    and e: "lm_held (ls_mgr s) (ac_key c) = Some e" "e_holder e = ac_holder c" "e_depth e = 1"
    and j: "ls_calls s j = Some d" "ac_pc d = AcqSleep b g"
  shows "\<exists>t u. lease_step s (LRelease i) t \<and> lease_step t (LWake j) u \<and>
    ls_calls u j = Some (d\<lparr>ac_pc := AcqTry True\<rparr>)"
proof -
  let ?t = "set_call i c AcqReleased
    (s\<lparr>ls_mgr := release_lease (ls_now s) (ac_key c) (ac_holder c) (ls_mgr s)\<rparr>)"
  have st: "lease_step s (LRelease i) ?t" using i by (rule lease_step.release)
  have ne: "j \<noteq> i" using i j by auto
  have "g \<le> lm_wake (ls_mgr s)"
    using lease_waits.inv_reach [OF r] j by (auto simp: wait_inv_def)
  then have "g < lm_wake (ls_mgr ?t)" using e by (simp add: release_lease_def Let_def)
  moreover have "ls_calls ?t j = Some d" using ne j by simp
  ultimately have "lease_step ?t (LWake j) (set_call j d (AcqTry True) ?t)"
    using j by (intro lease_step.wake)
  moreover have "ls_calls (set_call j d (AcqTry True) ?t) j = Some (d\<lparr>ac_pc := AcqTry True\<rparr>)"
    by simp
  ultimately show ?thesis using st by blast
qed

text \<open>A thread B asleep behind A's lease: the state the witness releases from.\<close>

definition demo_calls :: "nat \<rightharpoonup> acquire_call" where
  "demo_calls =
     [0 \<mapsto> \<lparr>ac_key = ''a'', ac_holder = ''A'', ac_pc = AcqHeld\<rparr>,
      1 \<mapsto> \<lparr>ac_key = ''a'', ac_holder = ''B'', ac_pc = AcqSleep ''A'' 0\<rparr>]"

definition demo_sleep :: lease_sys where
  "demo_sleep =
     demo_held\<lparr>ls_calls := demo_calls, ls_mgr := enter_wait ''a'' ''B'' (ls_mgr demo_held)\<rparr>"

lemma demo_sleep_reach: "reach (init_lease ''/p'' 10 0) lease_step demo_sleep"
proof -
  let ?b = "\<lparr>ac_key = ''a'', ac_holder = ''B'', ac_pc = AcqTry False\<rparr>"
  let ?s1 = "demo_held\<lparr>ls_calls := (ls_calls demo_held)(1 \<mapsto> ?b)\<rparr>"
  let ?s2 = "set_call 1 ?b (AcqEnter ''A'' 0) ?s1"
  have 0: "reach (init_lease ''/p'' 10 0) lease_step demo_held"
    using demo_held_reach by (induction rule: reach.induct) (auto simp: timely_step_def intro: reach.intros)
  have "lease_step demo_held (LStart 1 ''B'' ''/p/a/f.go'') ?s1"
    by (rule lease_step.start)
      (simp_all add: demo_held_def acquire_start_def new_manager_def demo_key)
  with 0 have 1: "reach (init_lease ''/p'' 10 0) lease_step ?s1" by (rule reach_step)
  have sw: "sweep 0 (ls_mgr demo_held) = ls_mgr demo_held"
    by (simp add: sweep_def demo_held_def fun_eq_iff)
  have tr: "try_lease [''a''] 0 ''a'' ''B'' (ls_mgr demo_held) =
      (ls_mgr demo_held, \<lparr>c_wake = 0, c_blocker = ''A''\<rparr>)"
    by (simp add: try_lease_def sw Let_def)
      (simp add: contends_def demo_held_def state_of_def past_ttl_def new_manager_def)
  have "lease_step ?s1 (LTry 1 [''a'']) (set_call 1 ?b (after_try False \<lparr>c_wake = 0, c_blocker = ''A''\<rparr>)
      (?s1\<lparr>ls_mgr := ls_mgr demo_held\<rparr>))"
    by (rule lease_step.attempt)
      (use tr sw in \<open>auto simp: range_order_def demo_held_def init_lease_def\<close>)
  then have "lease_step ?s1 (LTry 1 [''a'']) ?s2" by (simp add: after_try_def)
  with 1 have 2: "reach (init_lease ''/p'' 10 0) lease_step ?s2" by (rule reach_step)
  let ?c = "?b\<lparr>ac_pc := AcqEnter ''A'' 0\<rparr>"
  have "set_call 1 ?c (AcqSleep ''A'' 0)
      (?s2\<lparr>ls_mgr := enter_wait (ac_key ?c) (ac_holder ?c) (ls_mgr ?s2)\<rparr>) = demo_sleep"
    by (rule lease_sys.equality)
      (simp_all add: demo_sleep_def set_call_def demo_calls_def demo_held_def init_lease_def)
  then have "lease_step ?s2 (LEnter 1) demo_sleep"
    using lease_step.enter [of ?s2 1 ?c "''A''" 0] by simp
  with 2 show ?thesis by (rule reach_step)
qed

theorem lease_release_wakes_all_witness:
  "\<exists>t u. lease_step demo_sleep (LRelease 0) t \<and> lease_step t (LWake 1) u"
proof -
  have "\<exists>t u. lease_step demo_sleep (LRelease 0) t \<and> lease_step t (LWake 1) u \<and>
      ls_calls u 1 = Some (\<lparr>ac_key = ''a'', ac_holder = ''B'', ac_pc = AcqSleep ''A'' 0\<rparr>\<lparr>ac_pc := AcqTry True\<rparr>)"
    by (rule lease_release_wakes_all [OF demo_sleep_reach,
          where e = "\<lparr>e_since = Some 0, e_holder = ''A'', e_waiters = [''B''], e_depth = 1\<rparr>"
            and c = "\<lparr>ac_key = ''a'', ac_holder = ''A'', ac_pc = AcqHeld\<rparr>"])
      (simp_all add: demo_sleep_def demo_calls_def demo_held_def enter_wait_def)
  then show ?thesis by blast
qed

text \<open>
  The TTL wakes nobody. A sleeping call whose wake channel is current cannot retry however
  long it waits while nothing is released, and B's wait in \<open>demo_sleep\<close> is such a wait: past the
  TTL its \<open>try\<close> would take the lease, and still no step of the clock lets it run.
\<close>

theorem lease_expiry_wakes_nobody:
  assumes "run lease_step demo_sleep es t" "\<And>e. e \<in> set es \<Longrightarrow> \<exists>d. e = LTick d"
  shows "(\<nexists>u. lease_step t (LWake 1) u) \<and>
    c_blocker (snd (try_lease [''a''] 11 ''a'' ''B'' (ls_mgr t))) = []"
proof -
  have "ls_mgr t = ls_mgr s \<and> ls_calls t = ls_calls s" if "run lease_step s es t" for s
    using that assms(2)
    by (induction rule: run.induct) (fastforce elim: lease_step.cases)+
  from this [OF assms(1)] have m: "ls_mgr t = ls_mgr demo_sleep" "ls_calls t = demo_calls"
    by (simp_all add: demo_sleep_def)
  have "\<nexists>u. lease_step t (LWake 1) u"
    using m by (auto elim!: lease_step.cases
      simp: demo_calls_def demo_sleep_def demo_held_def enter_wait_def new_manager_def)
  moreover have "c_blocker (snd (try_lease [''a''] 11 ''a'' ''B'' (ls_mgr demo_sleep))) = []"
    by (simp add: demo_sleep_def demo_held_def enter_wait_def new_manager_def try_lease_def sweep_def
        contends_def state_of_def past_ttl_def Let_def)
  ultimately show ?thesis using m by simp
qed

theorem lease_expiry_wakes_nobody_witness:
  "\<nexists>u. lease_step (demo_sleep\<lparr>ls_now := 1000\<rparr>) (LWake 1) u"
proof -
  have "lease_step demo_sleep (LTick 1000) (demo_sleep\<lparr>ls_now := ls_now demo_sleep + int 1000\<rparr>)"
    by (rule lease_step.tick)
  moreover have "ls_now demo_sleep = 0"
    by (simp add: demo_sleep_def demo_held_def init_lease_def)
  ultimately have "run lease_step demo_sleep [LTick 1000] (demo_sleep\<lparr>ls_now := 1000\<rparr>)"
    by (auto intro: run.intros)
  from lease_expiry_wakes_nobody [OF this] show ?thesis by simp
qed

end
