(* ===== verification/Sched.thy ===== *)
theory Sched
  imports Prelude Complex_Main "HOL-Library.Word"
begin

text \<open>
  \<open>internal/sched/sched.go\<close>: admission to the machine. Two protocols share the scheduler's
  record. \<open>AdmitSlot\<close> bounds the requests in flight at the local model server and hands a freed
  slot straight to the caller that has waited longest; \<open>admit\<close> keeps a turn on the local model
  and a gate run apart while memory is tight. Every mutex-protected section is a function on
  \<open>scheduler\<close>; a call is a program counter, and \<open>sched_step\<close> moves one call by one section. A
  waiter's channel is named by the call that made it and \<open>ss_closed\<close> holds the channels that were
  closed. The wake channel of \<open>admit\<close> is its generation number. The memory reading is an input of
  the event that uses it (\<open>None\<close> when the machine could not be read); fractions of memory are
  exact rationals, where the code rounds to a float64.
\<close>

section \<open>Memory\<close>

record memory =
  used_bytes :: "64 word"
  total_bytes :: "64 word"

definition mem_free :: "memory \<Rightarrow> 64 word" where
  "mem_free m = (if total_bytes m < used_bytes m then 0 else total_bytes m - used_bytes m)"

definition free_fraction :: "memory \<Rightarrow> rat" where
  "free_fraction m =
     (if total_bytes m = 0 then 1
      else of_int (uint (mem_free m)) / of_int (uint (total_bytes m)))"

definition read_memory :: "memory option \<Rightarrow> memory \<times> bool" where
  "read_memory r =
     (case r of
        None \<Rightarrow> (\<lparr>used_bytes = 0, total_bytes = 0\<rparr>, False)
      | Some m \<Rightarrow>
          if total_bytes m = 0 then (\<lparr>used_bytes = 0, total_bytes = 0\<rparr>, False) else (m, True))"

section \<open>The scheduler's state and its critical sections\<close>

datatype phase = PhaseEdit | PhaseExecute

record scheduler =
  sc_wake :: nat
  sc_waiting :: "nat list"
  sc_headroom :: rat
  sc_slots :: int
  sc_held :: int
  sc_turns :: int
  sc_gates :: int

record snapshot =
  sn_phase :: phase
  sn_memory :: memory
  sn_headroom :: rat
  sn_local_turns :: int
  sn_gate_runs :: int
  sn_local_slots :: int
  sn_slots_held :: int
  sn_measured :: bool

definition default_headroom :: rat where
  "default_headroom = 1 / 4"

definition new_scheduler :: "rat \<Rightarrow> int \<Rightarrow> scheduler" where
  "new_scheduler headroom slots =
     \<lparr>sc_wake = 0, sc_waiting = [], sc_headroom = headroom, sc_slots = slots, sc_held = 0,
      sc_turns = 0, sc_gates = 0\<rparr>"

datatype slot_admission = SlotUnbounded | SlotGranted | SlotQueued int

text \<open>The first section of \<open>AdmitSlot\<close>; \<open>SlotQueued\<close> carries the count its hold reason names.\<close>

definition admit_slot :: "nat \<Rightarrow> scheduler \<Rightarrow> scheduler \<times> slot_admission" where
  "admit_slot turn s =
     (if sc_slots s \<le> 0 then (s, SlotUnbounded)
      else if sc_held s < sc_slots s \<and> sc_waiting s = []
      then (s\<lparr>sc_held := sc_held s + 1\<rparr>, SlotGranted)
      else (s\<lparr>sc_waiting := sc_waiting s @ [turn]\<rparr>, SlotQueued (sc_held s)))"

text \<open>\<open>releaseSlot\<close> returns the channel it closes, if it closes one.\<close>

definition release_slot :: "scheduler \<Rightarrow> scheduler \<times> nat option" where
  "release_slot s =
     (case sc_waiting s of
        next # rest \<Rightarrow> (s\<lparr>sc_waiting := rest\<rparr>, Some next)
      | [] \<Rightarrow> (s\<lparr>sc_held := sc_held s - 1\<rparr>, None))"

definition abandon :: "nat \<Rightarrow> scheduler \<Rightarrow> scheduler \<times> bool" where
  "abandon turn s =
     (case find_index (\<lambda>w. w = turn) (sc_waiting s) of
        Some i \<Rightarrow> (s\<lparr>sc_waiting := remove_at i (sc_waiting s)\<rparr>, False)
      | None \<Rightarrow> (s, True))"

datatype hold_reason = HeldForGate rat | HeldForTurn rat

definition hold_reason_for :: "memory \<Rightarrow> bool \<Rightarrow> hold_reason" where
  "hold_reason_for m is_turn =
     (if is_turn then HeldForGate (free_fraction m * 100) else HeldForTurn (free_fraction m * 100))"

definition enter_admission ::
  "memory option \<Rightarrow> bool \<Rightarrow> scheduler \<Rightarrow> scheduler \<times> (nat \<times> hold_reason) option" where
  "enter_admission r is_turn s =
     (let (m, measured) = read_memory r;
          rival = (if is_turn then sc_gates s else sc_turns s)
      in if measured \<and> rival > 0 \<and> free_fraction m < sc_headroom s
         then (s, Some (sc_wake s, hold_reason_for m is_turn))
         else (if is_turn then s\<lparr>sc_turns := sc_turns s + 1\<rparr>
               else s\<lparr>sc_gates := sc_gates s + 1\<rparr>, None))"

definition leave_admission :: "bool \<Rightarrow> scheduler \<Rightarrow> scheduler" where
  "leave_admission is_turn s =
     (let s' = (if is_turn then s\<lparr>sc_turns := sc_turns s - 1\<rparr>
                else s\<lparr>sc_gates := sc_gates s - 1\<rparr>)
      in s'\<lparr>sc_wake := sc_wake s' + 1\<rparr>)"

definition take_snapshot :: "memory option \<Rightarrow> scheduler option \<Rightarrow> snapshot" where
  "take_snapshot r sched =
     (case sched of
        None \<Rightarrow> \<lparr>sn_phase = PhaseEdit, sn_memory = \<lparr>used_bytes = 0, total_bytes = 0\<rparr>,
                 sn_headroom = 0, sn_local_turns = 0, sn_gate_runs = 0, sn_local_slots = 0,
                 sn_slots_held = 0, sn_measured = False\<rparr>
      | Some s \<Rightarrow>
          let (m, measured) = read_memory r in
          \<lparr>sn_phase = (if sc_gates s > 0 then PhaseExecute else PhaseEdit), sn_memory = m,
           sn_headroom = sc_headroom s, sn_local_turns = sc_turns s, sn_gate_runs = sc_gates s,
           sn_local_slots = sc_slots s, sn_slots_held = sc_held s, sn_measured = measured\<rparr>)"

definition local_slots :: "scheduler option \<Rightarrow> int" where
  "local_slots sched = (case sched of None \<Rightarrow> 0 | Some s \<Rightarrow> sc_slots s)"

section \<open>Calls\<close>

datatype slot_pc =
    SlotUnbound
  | SlotWait
  | SlotGiveUp
  | SlotReturn
  | SlotOwn
  | SlotDone
  | SlotFailed

datatype adm_pc = AdmEnter bool | AdmSleep nat hold_reason | AdmHeld | AdmDone | AdmFailed

record adm_call =
  am_turn :: bool
  am_pc :: adm_pc

record sched_sys =
  ss_sched :: scheduler
  ss_slot :: "nat \<rightharpoonup> slot_pc"
  ss_closed :: "nat set"
  ss_adm :: "nat \<rightharpoonup> adm_call"

datatype sched_event =
    SAdmit nat
  | SReceive nat
  | SCancel nat
  | SAbandon nat
  | SReturn nat
  | SRelease nat
  | AStart nat bool
  | AEnter nat "memory option"
  | AWake nat
  | ACancel nat
  | ALeave nat

definition pc_after_admit :: "slot_admission \<Rightarrow> slot_pc" where
  "pc_after_admit a = (case a of SlotUnbounded \<Rightarrow> SlotUnbound | SlotGranted \<Rightarrow> SlotOwn
                       | SlotQueued n \<Rightarrow> SlotWait)"

text \<open>A release moves the scheduler and closes the channel it picked.\<close>

definition apply_release :: "sched_sys \<Rightarrow> sched_sys" where
  "apply_release s =
     (let (sc, handed) = release_slot (ss_sched s)
      in s\<lparr>ss_sched := sc, ss_closed := ss_closed s \<union> set_option handed\<rparr>)"

definition set_slot :: "nat \<Rightarrow> slot_pc \<Rightarrow> sched_sys \<Rightarrow> sched_sys" where
  "set_slot i pc s = s\<lparr>ss_slot := (ss_slot s)(i \<mapsto> pc)\<rparr>"

definition set_adm :: "nat \<Rightarrow> adm_call \<Rightarrow> adm_pc \<Rightarrow> sched_sys \<Rightarrow> sched_sys" where
  "set_adm i c pc s = s\<lparr>ss_adm := (ss_adm s)(i \<mapsto> c\<lparr>am_pc := pc\<rparr>)\<rparr>"

definition pc_after_enter :: "(nat \<times> hold_reason) option \<Rightarrow> adm_pc" where
  "pc_after_enter r = (case r of None \<Rightarrow> AdmHeld | Some (g, why) \<Rightarrow> AdmSleep g why)"

inductive sched_step :: "sched_sys \<Rightarrow> sched_event \<Rightarrow> sched_sys \<Rightarrow> bool" where
  slot_admit: "ss_slot s i = None \<Longrightarrow> admit_slot i (ss_sched s) = (sc, a) \<Longrightarrow>
    sched_step s (SAdmit i) (set_slot i (pc_after_admit a) (s\<lparr>ss_sched := sc\<rparr>))"
| slot_receive: "ss_slot s i = Some SlotWait \<Longrightarrow> i \<in> ss_closed s \<Longrightarrow>
    sched_step s (SReceive i) (set_slot i SlotOwn s)"
| slot_cancel: "ss_slot s i = Some SlotWait \<Longrightarrow>
    sched_step s (SCancel i) (set_slot i SlotGiveUp s)"
| slot_abandon: "ss_slot s i = Some SlotGiveUp \<Longrightarrow> abandon i (ss_sched s) = (sc, handed) \<Longrightarrow>
    sched_step s (SAbandon i)
      (set_slot i (if handed then SlotReturn else SlotFailed) (s\<lparr>ss_sched := sc\<rparr>))"
| slot_return: "ss_slot s i = Some SlotReturn \<Longrightarrow>
    sched_step s (SReturn i) (set_slot i SlotFailed (apply_release s))"
| slot_release: "ss_slot s i = Some SlotOwn \<Longrightarrow>
    sched_step s (SRelease i) (set_slot i SlotDone (apply_release s))"
| adm_start: "ss_adm s i = None \<Longrightarrow>
    sched_step s (AStart i b)
      (s\<lparr>ss_adm := (ss_adm s)(i \<mapsto> \<lparr>am_turn = b, am_pc = AdmEnter False\<rparr>)\<rparr>)"
| adm_enter: "ss_adm s i = Some c \<Longrightarrow> am_pc c = AdmEnter h \<Longrightarrow>
    enter_admission r (am_turn c) (ss_sched s) = (sc, why) \<Longrightarrow>
    sched_step s (AEnter i r) (set_adm i c (pc_after_enter why) (s\<lparr>ss_sched := sc\<rparr>))"
| adm_wake: "ss_adm s i = Some c \<Longrightarrow> am_pc c = AdmSleep g why \<Longrightarrow> g < sc_wake (ss_sched s) \<Longrightarrow>
    sched_step s (AWake i) (set_adm i c (AdmEnter True) s)"
| adm_cancel: "ss_adm s i = Some c \<Longrightarrow> am_pc c = AdmSleep g why \<Longrightarrow>
    sched_step s (ACancel i) (set_adm i c AdmFailed s)"
| adm_leave: "ss_adm s i = Some c \<Longrightarrow> am_pc c = AdmHeld \<Longrightarrow>
    sched_step s (ALeave i)
      (set_adm i c AdmDone (s\<lparr>ss_sched := leave_admission (am_turn c) (ss_sched s)\<rparr>))"

inductive_cases sched_stepE: "sched_step s e t"

definition init_sched :: "rat \<Rightarrow> int \<Rightarrow> sched_sys" where
  "init_sched headroom slots =
     \<lparr>ss_sched = new_scheduler headroom slots, ss_slot = Map.empty, ss_closed = {},
      ss_adm = Map.empty\<rparr>"

section \<open>Who owns a slot\<close>

text \<open>
  A call owns a slot from the moment it is granted or handed one until it gives it back, whether
  or not it has noticed: a waiter whose channel is closed owns the slot while it is still waking
  up, and while it is giving up.
\<close>

definition owns_slot :: "nat set \<Rightarrow> nat \<Rightarrow> slot_pc \<Rightarrow> bool" where
  "owns_slot cl i pc =
     (pc = SlotOwn \<or> pc = SlotReturn \<or> (pc = SlotWait \<or> pc = SlotGiveUp) \<and> i \<in> cl)"

definition queued_slot :: "nat set \<Rightarrow> nat \<Rightarrow> slot_pc \<Rightarrow> bool" where
  "queued_slot cl i pc = ((pc = SlotWait \<or> pc = SlotGiveUp) \<and> i \<notin> cl)"

definition slot_owners :: "sched_sys \<Rightarrow> nat set" where
  "slot_owners s = {i. \<exists>pc. ss_slot s i = Some pc \<and> owns_slot (ss_closed s) i pc}"

definition slot_queue :: "sched_sys \<Rightarrow> nat set" where
  "slot_queue s = {i. \<exists>pc. ss_slot s i = Some pc \<and> queued_slot (ss_closed s) i pc}"

definition slot_counts :: "int \<Rightarrow> int \<Rightarrow> nat list \<Rightarrow> nat set \<Rightarrow> bool" where
  "slot_counts slots held waiting owners =
     (if slots \<le> 0 then waiting = [] \<and> owners = {}
      else held = int (card owners) \<and> held \<le> slots \<and> (waiting \<noteq> [] \<longrightarrow> held = slots))"

definition slot_inv :: "sched_sys \<Rightarrow> bool" where
  "slot_inv s =
     (finite (dom (ss_slot s)) \<and> ss_closed s \<subseteq> dom (ss_slot s)
      \<and> distinct (sc_waiting (ss_sched s)) \<and> set (sc_waiting (ss_sched s)) = slot_queue s
      \<and> slot_counts (sc_slots (ss_sched s)) (sc_held (ss_sched s)) (sc_waiting (ss_sched s))
          (slot_owners s))"

lemma finite_owners: "finite (dom (ss_slot s)) \<Longrightarrow> finite (slot_owners s)"
  by (rule finite_subset [of _ "dom (ss_slot s)"]) (auto simp: slot_owners_def)

lemma owners_set_slot:
  "slot_owners (set_slot i pc s) =
     (if owns_slot (ss_closed s) i pc then insert i (slot_owners s) else slot_owners s - {i})"
  by (auto simp: slot_owners_def set_slot_def)

lemma queue_set_slot:
  "slot_queue (set_slot i pc s) =
     (if queued_slot (ss_closed s) i pc then insert i (slot_queue s) else slot_queue s - {i})"
  by (auto simp: slot_queue_def set_slot_def)

lemma set_slot_fields [simp]:
  "ss_sched (set_slot i pc s) = ss_sched s" "ss_closed (set_slot i pc s) = ss_closed s"
  "ss_adm (set_slot i pc s) = ss_adm s" "ss_slot (set_slot i pc s) = (ss_slot s)(i \<mapsto> pc)"
  by (simp_all add: set_slot_def)

lemma set_adm_fields [simp]:
  "ss_sched (set_adm i c pc s) = ss_sched s" "ss_closed (set_adm i c pc s) = ss_closed s"
  "ss_slot (set_adm i c pc s) = ss_slot s"
  "ss_adm (set_adm i c pc s) = (ss_adm s)(i \<mapsto> c\<lparr>am_pc := pc\<rparr>)"
  by (simp_all add: set_adm_def)

lemma owners_sched [simp]: "slot_owners (s\<lparr>ss_sched := sc\<rparr>) = slot_owners s"
  by (simp add: slot_owners_def)

lemma queue_sched [simp]: "slot_queue (s\<lparr>ss_sched := sc\<rparr>) = slot_queue s"
  by (simp add: slot_queue_def)

text \<open>The frame: a step of the admission protocol touches nothing the slot invariant reads.\<close>

lemma slot_inv_frame:
  assumes "slot_inv s" "ss_slot t = ss_slot s" "ss_closed t = ss_closed s"
    and "sc_waiting (ss_sched t) = sc_waiting (ss_sched s)"
    and "sc_slots (ss_sched t) = sc_slots (ss_sched s)"
    and "sc_held (ss_sched t) = sc_held (ss_sched s)"
  shows "slot_inv t"
proof -
  have "slot_owners t = slot_owners s" "slot_queue t = slot_queue s"
    using assms(2,3) by (simp_all add: slot_owners_def slot_queue_def)
  then show ?thesis using assms by (simp add: slot_inv_def)
qed

lemma admission_frame:
  "enter_admission r b s = (s', why) \<Longrightarrow>
     sc_waiting s' = sc_waiting s \<and> sc_slots s' = sc_slots s \<and> sc_held s' = sc_held s"
  "sc_waiting (leave_admission b s) = sc_waiting s"
  "sc_slots (leave_admission b s) = sc_slots s" "sc_held (leave_admission b s) = sc_held s"
  by (auto simp: enter_admission_def leave_admission_def Let_def split: prod.splits if_splits)

lemma slot_frame:
  "admit_slot i s = (s', a) \<Longrightarrow>
     sc_turns s' = sc_turns s \<and> sc_gates s' = sc_gates s \<and> sc_wake s' = sc_wake s"
  "release_slot s = (s', h) \<Longrightarrow>
     sc_turns s' = sc_turns s \<and> sc_gates s' = sc_gates s \<and> sc_wake s' = sc_wake s"
  "abandon i s = (s', b) \<Longrightarrow>
     sc_turns s' = sc_turns s \<and> sc_gates s' = sc_gates s \<and> sc_wake s' = sc_wake s"
  by (auto simp: admit_slot_def release_slot_def abandon_def
      split: if_splits list.splits option.splits)

text \<open>
  A release by an owner passes its slot to the head of the queue or gives it back; either way the
  owner is out and the count is right.
\<close>

lemma slot_inv_release:
  assumes inv: "slot_inv s" and i: "ss_slot s i = Some pc" "pc = SlotOwn \<or> pc = SlotReturn"
    and pc': "pc' = SlotDone \<or> pc' = SlotFailed"
  shows "slot_inv (set_slot i pc' (apply_release s))"
proof -
  have own: "i \<in> slot_owners s" using i by (auto simp: slot_owners_def owns_slot_def)
  have fin: "finite (slot_owners s)" using inv finite_owners by (simp add: slot_inv_def)
  have pos: "sc_slots (ss_sched s) > 0" using inv own by (auto simp: slot_inv_def slot_counts_def split: if_splits)
  have no: "\<not> owns_slot c i pc'" "\<not> queued_slot c i pc'" for c
    using pc' by (auto simp: owns_slot_def queued_slot_def)
  show ?thesis
  proof (cases "sc_waiting (ss_sched s)")
    case Nil
    then have r: "apply_release s = s\<lparr>ss_sched := (ss_sched s)\<lparr>sc_held := sc_held (ss_sched s) - 1\<rparr>\<rparr>"
      by (simp add: apply_release_def release_slot_def)
    have "int (card (slot_owners s - {i})) = int (card (slot_owners s)) - 1"
      using card_Suc_Diff1 [OF fin own] by linarith
    then have "slot_counts (sc_slots (ss_sched s)) (sc_held (ss_sched s) - 1) [] (slot_owners s - {i})"
      using inv pos by (simp add: slot_inv_def slot_counts_def)
    moreover have "slot_owners (set_slot i pc' (apply_release s)) = slot_owners s - {i}"
      "slot_queue (set_slot i pc' (apply_release s)) = slot_queue s - {i}"
      using no by (simp_all add: owners_set_slot queue_set_slot r)
    moreover have "slot_queue s = {}" using inv Nil by (simp add: slot_inv_def)
    ultimately show ?thesis using inv Nil unfolding slot_inv_def by (auto simp: r)
  next
    case (Cons w ws)
    then have r: "apply_release s =
        s\<lparr>ss_sched := (ss_sched s)\<lparr>sc_waiting := ws\<rparr>, ss_closed := insert w (ss_closed s)\<rparr>"
      by (simp add: apply_release_def release_slot_def)
    have wq: "set (w # ws) = slot_queue s" "distinct (w # ws)"
      using inv Cons by (simp_all add: slot_inv_def)
    then have w: "w \<in> slot_queue s" and dist: "distinct (w # ws)"
      and ws: "set ws = slot_queue s - {w}"
      by auto
    have wi: "w \<noteq> i" using i w by (auto simp: slot_queue_def queued_slot_def)
    have wo: "w \<notin> slot_owners s"
      using w by (auto simp: slot_queue_def slot_owners_def queued_slot_def owns_slot_def)
    from w obtain pw where pw: "ss_slot s w = Some pw" "pw = SlotWait \<or> pw = SlotGiveUp"
      by (auto simp: slot_queue_def queued_slot_def)
    have o: "slot_owners (apply_release s) = insert w (slot_owners s)"
      using pw by (auto simp: r slot_owners_def owns_slot_def)
    have q: "slot_queue (apply_release s) = slot_queue s - {w}"
      by (auto simp: r slot_queue_def queued_slot_def)
    have "insert w (slot_owners s) - {i} = insert w (slot_owners s - {i})" using wi by auto
    then have c: "card (insert w (slot_owners s) - {i}) = card (slot_owners s)"
      using own wo fin card_Suc_Diff1 [OF fin own] by simp
    have d: "w \<in> dom (ss_slot s)" using w by (auto simp: slot_queue_def)
    have ni: "i \<notin> slot_queue s" using i by (auto simp: slot_queue_def queued_slot_def)
    have t: "slot_owners (set_slot i pc' (apply_release s)) = insert w (slot_owners s) - {i}"
      "slot_queue (set_slot i pc' (apply_release s)) = set ws"
      using no ni ws by (simp_all add: owners_set_slot queue_set_slot o q)
    have f: "ss_sched (apply_release s) = (ss_sched s)\<lparr>sc_waiting := ws\<rparr>"
      "ss_closed (apply_release s) = insert w (ss_closed s)" "ss_slot (apply_release s) = ss_slot s"
      by (simp_all add: r)
    have "slot_counts (sc_slots (ss_sched s)) (sc_held (ss_sched s)) ws (insert w (slot_owners s) - {i})"
      using inv Cons pos c by (simp add: slot_inv_def slot_counts_def)
    then show ?thesis using inv dist d unfolding slot_inv_def t by (auto simp: f)
  qed
qed

lemma slot_inv_admit:
  assumes inv: "slot_inv s" and i: "ss_slot s i = None"
    and a: "admit_slot i (ss_sched s) = (sc, a)"
  shows "slot_inv (set_slot i (pc_after_admit a) (s\<lparr>ss_sched := sc\<rparr>))"
proof -
  have no: "i \<notin> slot_owners s" "i \<notin> slot_queue s" "i \<notin> ss_closed s"
    using i inv by (auto simp: slot_owners_def slot_queue_def slot_inv_def)
  have fin: "finite (slot_owners s)" using inv finite_owners by (simp add: slot_inv_def)
  consider (unbounded) "sc_slots (ss_sched s) \<le> 0" "sc = ss_sched s" "a = SlotUnbounded"
    | (granted) "sc_slots (ss_sched s) > 0" "sc_waiting (ss_sched s) = []"
        "sc_held (ss_sched s) < sc_slots (ss_sched s)"
        "sc = (ss_sched s)\<lparr>sc_held := sc_held (ss_sched s) + 1\<rparr>" "a = SlotGranted"
    | (queued) "sc_slots (ss_sched s) > 0"
        "sc_waiting (ss_sched s) \<noteq> [] \<or> sc_held (ss_sched s) \<ge> sc_slots (ss_sched s)"
        "sc = (ss_sched s)\<lparr>sc_waiting := sc_waiting (ss_sched s) @ [i]\<rparr>"
        "a = SlotQueued (sc_held (ss_sched s))"
    using a by (auto simp: admit_slot_def split: if_splits)
  then show ?thesis
  proof cases
    case unbounded
    then show ?thesis using inv no
      by (auto simp: slot_inv_def slot_counts_def owners_set_slot queue_set_slot pc_after_admit_def
          owns_slot_def queued_slot_def)
  next
    case granted
    then show ?thesis using inv no fin
      by (auto simp: slot_inv_def slot_counts_def owners_set_slot queue_set_slot pc_after_admit_def
          owns_slot_def queued_slot_def)
  next
    case queued
    then show ?thesis using inv no fin
      by (auto simp: slot_inv_def slot_counts_def owners_set_slot queue_set_slot pc_after_admit_def
          owns_slot_def queued_slot_def)
  qed
qed

text \<open>
  Receiving the slot and giving up change who knows about it, not who owns it; abandoning the
  queue leaves it, or finds that the slot was already handed over.
\<close>

lemma slot_inv_same_owner:
  assumes inv: "slot_inv s" and i: "ss_slot s i = Some pc"
    and "owns_slot (ss_closed s) i pc' = owns_slot (ss_closed s) i pc"
    and "queued_slot (ss_closed s) i pc' = queued_slot (ss_closed s) i pc"
  shows "slot_inv (set_slot i pc' s)"
proof -
  have "slot_owners (set_slot i pc' s) = slot_owners s" "slot_queue (set_slot i pc' s) = slot_queue s"
    using assms(2-4) by (auto simp: owners_set_slot queue_set_slot slot_owners_def slot_queue_def)
  then show ?thesis using inv i by (auto simp: slot_inv_def)
qed

lemma slot_inv_abandon:
  assumes inv: "slot_inv s" and i: "ss_slot s i = Some SlotGiveUp"
    and a: "abandon i (ss_sched s) = (sc, handed)"
  shows "slot_inv (set_slot i (if handed then SlotReturn else SlotFailed) (s\<lparr>ss_sched := sc\<rparr>))"
proof (cases "find_index (\<lambda>w. w = i) (sc_waiting (ss_sched s))")
  case None
  then have "i \<notin> slot_queue s" using inv by (auto simp: find_index_None_iff slot_inv_def)
  then have "i \<in> ss_closed s" using i by (auto simp: slot_queue_def queued_slot_def)
  moreover have "handed" "sc = ss_sched s" using a None by (auto simp: abandon_def)
  ultimately show ?thesis using slot_inv_same_owner [OF inv i, of SlotReturn]
    by (simp add: owns_slot_def queued_slot_def)
next
  case (Some n)
  then have h: "\<not> handed" "sc = (ss_sched s)\<lparr>sc_waiting := remove_at n (sc_waiting (ss_sched s))\<rparr>"
    using a by (auto simp: abandon_def)
  have n: "n < length (sc_waiting (ss_sched s))" "sc_waiting (ss_sched s) ! n = i"
    using find_index_SomeD [OF Some] by auto
  then have q: "i \<in> slot_queue s" using inv nth_mem by (fastforce simp: slot_inv_def)
  then have "i \<notin> slot_owners s"
    by (auto simp: slot_queue_def slot_owners_def queued_slot_def owns_slot_def)
  moreover have "set (remove_at n (sc_waiting (ss_sched s))) = slot_queue s - {i}"
    using inv n by (simp add: set_remove_at slot_inv_def)
  moreover have "distinct (remove_at n (sc_waiting (ss_sched s)))"
    using inv by (simp add: slot_inv_def distinct_remove_at)
  moreover have "sc_waiting (ss_sched s) \<noteq> []" using n by auto
  ultimately show ?thesis using inv i h
    by (auto simp: slot_inv_def slot_counts_def owners_set_slot queue_set_slot owns_slot_def
        queued_slot_def)
qed

lemma slot_inv_step:
  assumes inv: "slot_inv s" and step: "sched_step s e t"
  shows "slot_inv t"
  using step
proof cases
  case (slot_admit i sc a)
  then show ?thesis using slot_inv_admit [OF inv] by simp
next
  case (slot_receive i)
  then show ?thesis using slot_inv_same_owner [OF inv] by (simp add: owns_slot_def queued_slot_def)
next
  case (slot_cancel i)
  then show ?thesis using slot_inv_same_owner [OF inv] by (simp add: owns_slot_def queued_slot_def)
next
  case (slot_abandon i sc handed)
  then show ?thesis using slot_inv_abandon [OF inv] by blast
next
  case (slot_return i)
  then show ?thesis using slot_inv_release [OF inv] by simp
next
  case (slot_release i)
  then show ?thesis using slot_inv_release [OF inv] by simp
next
  case (adm_enter i c h r sc why)
  then show ?thesis using slot_inv_frame [OF inv, of t] admission_frame(1) [of r "am_turn c" "ss_sched s" sc why]
    by simp
qed (use slot_inv_frame [OF inv, of t] in \<open>simp_all add: admission_frame\<close>)

lemma slot_inv_init: "slot_inv (init_sched headroom slots)"
  by (auto simp: slot_inv_def slot_counts_def init_sched_def new_scheduler_def slot_owners_def
      slot_queue_def)

interpretation slot_sys: guarded_system "init_sched headroom slots" sched_step slot_inv
  by unfold_locales (rule slot_inv_init, rule slot_inv_step)

section \<open>The queue keeps its order\<close>

text \<open>Of two callers in the queue, the one in front stays in front until it leaves.\<close>

definition in_front :: "nat \<Rightarrow> nat \<Rightarrow> sched_sys \<Rightarrow> bool" where
  "in_front i j s =
     (ss_slot s i \<noteq> None \<and> ss_slot s j \<noteq> None
      \<and> (i \<in> set (sc_waiting (ss_sched s)) \<longrightarrow>
           j \<notin> ss_closed s \<and> (j \<in> set (sc_waiting (ss_sched s)) \<longrightarrow>
             subseq [i, j] (sc_waiting (ss_sched s)))))"

lemma subseq2_hd: "subseq [i, j] (x # xs) \<Longrightarrow> distinct (x # xs) \<Longrightarrow> x \<noteq> j"
  by (auto simp: subseq_singleton_left split: if_splits dest: subseq_Cons')

lemma subseq2_mem: "subseq [i, j] xs \<Longrightarrow> i \<in> set xs \<and> j \<in> set xs"
  by (metis list.set_intros(1,2) subseq_conv_nths set_nths_subset subsetD)

lemma subseq2_neq: "subseq [i, j] xs \<Longrightarrow> distinct xs \<Longrightarrow> i \<noteq> j"
  by (metis distinct_length_2_or_more distinct_nthsI subseq_conv_nths)

lemma in_front_release:
  assumes inv: "slot_inv s" and f: "in_front i j s"
  shows "in_front i j (set_slot k pc (apply_release s))"
proof (cases "sc_waiting (ss_sched s)")
  case Nil
  then show ?thesis using f
    by (simp add: in_front_def apply_release_def release_slot_def)
next
  case (Cons w ws)
  have d: "distinct (w # ws)" using inv Cons by (simp add: slot_inv_def)
  show ?thesis
  proof (cases "i \<in> set ws")
    case True
    then have iw: "i \<noteq> w" using d by auto
    have "j \<noteq> w"
      using f True Cons subseq2_hd [OF _ d, of i j] by (auto simp: in_front_def)
    then show ?thesis using f iw Cons True
      by (auto simp: in_front_def apply_release_def release_slot_def)
  next
    case False
    then show ?thesis using f Cons
      by (simp add: in_front_def apply_release_def release_slot_def)
  qed
qed

lemma in_front_step:
  assumes inv: "slot_inv s" and f: "in_front i j s" and ij: "i \<noteq> j" and step: "sched_step s e t"
  shows "in_front i j t"
  using step
proof cases
  case (slot_admit k sc a)
  then have "k \<noteq> i" "k \<noteq> j" using f by (auto simp: in_front_def)
  then show ?thesis using slot_admit f
    by (auto simp: in_front_def admit_slot_def split: if_splits)
next
  case (slot_abandon k sc handed)
  show ?thesis
  proof (cases "find_index (\<lambda>w. w = k) (sc_waiting (ss_sched s))")
    case None
    then show ?thesis using slot_abandon f by (auto simp: in_front_def abandon_def)
  next
    case (Some n)
    have n: "n < length (sc_waiting (ss_sched s))" "sc_waiting (ss_sched s) ! n = k"
      using find_index_SomeD [OF Some] by auto
    have "sc_waiting sc = filter (\<lambda>x. x \<noteq> k) (sc_waiting (ss_sched s))"
      using slot_abandon Some n remove_at_filter [OF n(1)] inv
      by (auto simp: abandon_def slot_inv_def)
    moreover have "subseq (filter (\<lambda>x. x \<noteq> k) [i, j]) (filter (\<lambda>x. x \<noteq> k) xs)"
      if "subseq [i, j] xs" for xs using that by (rule subseq_filter)
    ultimately show ?thesis using slot_abandon f
      by (auto simp: in_front_def split: if_splits)
  qed
next
  case (slot_return k)
  then show ?thesis using in_front_release [OF inv f] by simp
next
  case (slot_release k)
  then show ?thesis using in_front_release [OF inv f] by simp
next
  case (adm_enter k c h r sc why)
  then show ?thesis using f admission_frame(1) [of r "am_turn c" "ss_sched s" sc why]
    by (simp add: in_front_def)
qed (use f in \<open>auto simp: in_front_def admission_frame\<close>)

section \<open>The counts of the admission protocol\<close>

definition adm_holders :: "bool \<Rightarrow> sched_sys \<Rightarrow> nat set" where
  "adm_holders b s = {i. \<exists>c. ss_adm s i = Some c \<and> am_pc c = AdmHeld \<and> am_turn c = b}"

definition rivals :: "bool \<Rightarrow> scheduler \<Rightarrow> int" where
  "rivals is_turn s = (if is_turn then sc_gates s else sc_turns s)"

definition adm_inv :: "sched_sys \<Rightarrow> bool" where
  "adm_inv s =
     (finite (dom (ss_adm s))
      \<and> sc_turns (ss_sched s) = int (card (adm_holders True s))
      \<and> sc_gates (ss_sched s) = int (card (adm_holders False s))
      \<and> (\<forall>i c g why. ss_adm s i = Some c \<longrightarrow> am_pc c = AdmSleep g why \<longrightarrow>
           g \<le> sc_wake (ss_sched s)
           \<and> (g = sc_wake (ss_sched s) \<longrightarrow> rivals (am_turn c) (ss_sched s) > 0)))"

lemma finite_holders: "finite (dom (ss_adm s)) \<Longrightarrow> finite (adm_holders b s)"
  by (rule finite_subset [of _ "dom (ss_adm s)"]) (auto simp: adm_holders_def)

lemma holders_set_adm:
  "adm_holders b (set_adm i c pc s) =
     (if pc = AdmHeld \<and> am_turn c = b then insert i (adm_holders b s) else adm_holders b s - {i})"
  by (auto simp: adm_holders_def set_adm_def)

lemma holders_sched [simp]: "adm_holders b (s\<lparr>ss_sched := sc\<rparr>) = adm_holders b s"
  by (simp add: adm_holders_def)

lemma not_holder: "ss_adm s i = Some c \<Longrightarrow> am_pc c \<noteq> AdmHeld \<Longrightarrow> i \<notin> adm_holders b s"
  by (simp add: adm_holders_def)

lemma enter_admission_cases:
  assumes "enter_admission r b s = (s', why)"
  obtains (refused) m where "s' = s" "why = Some (sc_wake s, hold_reason_for m b)"
      "read_memory r = (m, True)" "rivals b s > 0" "free_fraction m < sc_headroom s"
  | (turn) "b" "s' = s\<lparr>sc_turns := sc_turns s + 1\<rparr>" "why = None"
  | (gate) "\<not> b" "s' = s\<lparr>sc_gates := sc_gates s + 1\<rparr>" "why = None"
  using assms
  by (cases "read_memory r")
    (auto simp: enter_admission_def rivals_def Let_def split: if_splits)

lemma adm_sleep_set:
  "ss_adm (set_adm i c pc s) k = Some c' \<Longrightarrow> am_pc c' = AdmSleep g why \<Longrightarrow>
     (k = i \<and> pc = AdmSleep g why \<and> am_turn c' = am_turn c) \<or> (k \<noteq> i \<and> ss_adm s k = Some c')"
  by (auto simp: set_adm_def split: if_splits)

lemma adm_inv_admitted:
  assumes inv: "adm_inv s" and c: "ss_adm s i = Some c" "am_pc c = AdmEnter h"
    and sc: "sc = (if am_turn c then (ss_sched s)\<lparr>sc_turns := sc_turns (ss_sched s) + 1\<rparr>
                   else (ss_sched s)\<lparr>sc_gates := sc_gates (ss_sched s) + 1\<rparr>)"
  shows "adm_inv (set_adm i c AdmHeld (s\<lparr>ss_sched := sc\<rparr>))" (is "adm_inv ?t")
proof -
  have ni: "i \<notin> adm_holders b s" for b using c by (simp add: not_holder)
  have fin: "finite (adm_holders b s)" for b using inv finite_holders by (simp add: adm_inv_def)
  have mono: "rivals b (ss_sched s) \<le> rivals b sc" "sc_wake sc = sc_wake (ss_sched s)" for b
    by (auto simp: sc rivals_def)
  have sleep: "g \<le> sc_wake sc \<and> (g = sc_wake sc \<longrightarrow> rivals (am_turn c') sc > 0)"
    if "ss_adm ?t k = Some c'" "am_pc c' = AdmSleep g why" for k c' g why
  proof -
    have "ss_adm s k = Some c'" using that adm_sleep_set [OF that] by auto
    then have "g \<le> sc_wake (ss_sched s)"
      "g = sc_wake (ss_sched s) \<longrightarrow> rivals (am_turn c') (ss_sched s) > 0"
      using inv that(2) unfolding adm_inv_def by blast+
    then show ?thesis using mono(1) [of "am_turn c'"] by (auto simp: mono(2))
  qed
  have "finite (dom (ss_adm ?t))" "sc_turns sc = int (card (adm_holders True ?t))"
    "sc_gates sc = int (card (adm_holders False ?t))"
    using inv ni fin by (auto simp: adm_inv_def holders_set_adm sc)
  then show ?thesis using sleep unfolding adm_inv_def by simp
qed

lemma adm_inv_enter:
  assumes inv: "adm_inv s" and c: "ss_adm s i = Some c" "am_pc c = AdmEnter h"
    and e: "enter_admission r (am_turn c) (ss_sched s) = (sc, why)"
  shows "adm_inv (set_adm i c (pc_after_enter why) (s\<lparr>ss_sched := sc\<rparr>))"
proof -
  have ni: "i \<notin> adm_holders b s" for b using c by (simp add: not_holder)
  from e show ?thesis
  proof (cases rule: enter_admission_cases)
    case (refused m)
    then show ?thesis using inv ni
      by (auto simp: adm_inv_def holders_set_adm pc_after_enter_def)
  next
    case turn
    then show ?thesis using adm_inv_admitted [OF inv c, of sc] by (simp add: pc_after_enter_def)
  next
    case gate
    then show ?thesis using adm_inv_admitted [OF inv c, of sc] by (simp add: pc_after_enter_def)
  qed
qed

lemma adm_inv_leave:
  assumes inv: "adm_inv s" and c: "ss_adm s i = Some c" "am_pc c = AdmHeld"
  shows "adm_inv (set_adm i c AdmDone (s\<lparr>ss_sched := leave_admission (am_turn c) (ss_sched s)\<rparr>))"
proof -
  have i: "i \<in> adm_holders (am_turn c) s" "i \<notin> adm_holders (\<not> am_turn c) s"
    using c by (auto simp: adm_holders_def)
  have fin: "finite (adm_holders b s)" for b using inv finite_holders by (simp add: adm_inv_def)
  have "int (card (adm_holders (am_turn c) s - {i})) = int (card (adm_holders (am_turn c) s)) - 1"
    using card_Suc_Diff1 [OF fin i(1)] by linarith
  then show ?thesis using inv i
    by (cases "am_turn c") (force simp: adm_inv_def holders_set_adm leave_admission_def)+
qed

lemma adm_inv_pc:
  assumes inv: "adm_inv s" and c: "ss_adm s i = Some c" "am_pc c \<noteq> AdmHeld"
    and pc: "pc \<noteq> AdmHeld" "\<And>g why. pc \<noteq> AdmSleep g why"
  shows "adm_inv (set_adm i c pc s)"
  using inv not_holder [OF c] pc by (auto simp: adm_inv_def holders_set_adm)

lemma adm_inv_frame:
  assumes "adm_inv s" "ss_adm t = ss_adm s"
    and "sc_turns (ss_sched t) = sc_turns (ss_sched s)"
    and "sc_gates (ss_sched t) = sc_gates (ss_sched s)"
    and "sc_wake (ss_sched t) = sc_wake (ss_sched s)"
  shows "adm_inv t"
proof -
  have "adm_holders b t = adm_holders b s" "rivals b (ss_sched t) = rivals b (ss_sched s)" for b
    using assms(2-4) by (simp_all add: adm_holders_def rivals_def)
  then show ?thesis using assms by (simp add: adm_inv_def)
qed

lemma apply_release_frame [simp]:
  "ss_adm (apply_release s) = ss_adm s"
  "sc_turns (ss_sched (apply_release s)) = sc_turns (ss_sched s)"
  "sc_gates (ss_sched (apply_release s)) = sc_gates (ss_sched s)"
  "sc_wake (ss_sched (apply_release s)) = sc_wake (ss_sched s)"
  by (auto simp: apply_release_def release_slot_def split: list.splits)

lemma adm_inv_start:
  assumes "adm_inv s" "ss_adm s i = None"
  shows "adm_inv (s\<lparr>ss_adm := (ss_adm s)(i \<mapsto> \<lparr>am_turn = b, am_pc = AdmEnter False\<rparr>)\<rparr>)"
proof -
  have "adm_holders b' (s\<lparr>ss_adm := (ss_adm s)(i \<mapsto> \<lparr>am_turn = b, am_pc = AdmEnter False\<rparr>)\<rparr>)
      = adm_holders b' s" for b'
    using assms(2) by (auto simp: adm_holders_def)
  then show ?thesis using assms by (auto simp: adm_inv_def)
qed

lemma adm_inv_step:
  assumes inv: "adm_inv s" and step: "sched_step s e t"
  shows "adm_inv t"
  using step
proof cases
  case (slot_admit i sc a)
  then show ?thesis using adm_inv_frame [OF inv, of t] slot_frame(1) [of i "ss_sched s" sc a] by simp
next
  case (slot_abandon i sc h)
  then show ?thesis using adm_inv_frame [OF inv, of t] slot_frame(3) [of i "ss_sched s" sc h] by simp
next
  case (adm_start i b)
  then show ?thesis using adm_inv_start [OF inv] by simp
next
  case (adm_enter i c h r sc why)
  then show ?thesis using adm_inv_enter [OF inv] by blast
next
  case (adm_wake i c g why)
  then show ?thesis using adm_inv_pc [OF inv] by simp
next
  case (adm_cancel i c g why)
  then show ?thesis using adm_inv_pc [OF inv] by simp
next
  case (adm_leave i c)
  then show ?thesis using adm_inv_leave [OF inv] by simp
qed (use adm_inv_frame [OF inv, of t] in simp_all)

lemma adm_inv_init: "adm_inv (init_sched headroom slots)"
  by (simp add: adm_inv_def init_sched_def new_scheduler_def adm_holders_def)

interpretation adm_sys: guarded_system "init_sched headroom slots" sched_step adm_inv
  by unfold_locales (rule adm_inv_init, rule adm_inv_step)

text \<open>Configuration does not change.\<close>

lemma slots_step: "sched_step s e t \<Longrightarrow> sc_slots (ss_sched t) = sc_slots (ss_sched s)
    \<and> sc_headroom (ss_sched t) = sc_headroom (ss_sched s)"
  by (erule sched_stepE)
    (auto simp: admit_slot_def release_slot_def apply_release_def abandon_def enter_admission_def
      leave_admission_def Let_def split: if_splits list.splits option.splits prod.splits)

interpretation config_sys: guarded_system "init_sched headroom slots" sched_step
    "\<lambda>s. sc_slots (ss_sched s) = slots \<and> sc_headroom (ss_sched s) = headroom"
  by unfold_locales (use slots_step in \<open>auto simp: init_sched_def new_scheduler_def\<close>)

section \<open>Properties\<close>

text \<open>
  C22: the model server never gets more requests than it has slots, and no slot stands idle while
  somebody queues for one. In every reachable state the count of held slots is the number of calls
  that own one (those handed a slot they have not noticed yet included), it is at most the bound,
  and it equals the bound while anyone waits.
\<close>

theorem slot_bound:
  assumes "reach (init_sched headroom slots) sched_step s" and "slots > 0"
  shows "sc_held (ss_sched s) = int (card (slot_owners s))
    \<and> int (card (slot_owners s)) \<le> slots
    \<and> (sc_waiting (ss_sched s) \<noteq> [] \<longrightarrow> int (card (slot_owners s)) = slots)"
  using slot_sys.inv_reach [OF assms(1)] config_sys.inv_reach [OF assms(1)] assms(2)
  by (auto simp: slot_inv_def slot_counts_def)

text \<open>
  Slots are handed over in the order callers queued. If \<open>i\<close> queued before \<open>j\<close>, then after any
  run in which \<open>i\<close> has not been served and has not given up, \<open>j\<close>'s channel is still open.
\<close>

theorem slot_fifo:
  assumes "reach (init_sched headroom slots) sched_step s"
    and "subseq [i, j] (sc_waiting (ss_sched s))"
    and "run sched_step s es t" and "i \<in> set (sc_waiting (ss_sched t))"
  shows "j \<notin> ss_closed t"
proof -
  have inv: "slot_inv s" by (rule slot_sys.inv_reach [OF assms(1)])
  have ij: "i \<in> set (sc_waiting (ss_sched s))" "j \<in> set (sc_waiting (ss_sched s))"
    using subseq2_mem [OF assms(2)] by simp_all
  have ne: "i \<noteq> j" using subseq2_neq [OF assms(2)] inv by (simp add: slot_inv_def)
  have q: "i \<in> slot_queue s" "j \<in> slot_queue s" using inv ij by (simp_all add: slot_inv_def)
  have "in_front i j s" using assms(2) q
    by (auto simp: in_front_def slot_queue_def queued_slot_def)
  with assms(3) inv have "in_front i j t"
    by (induction rule: run.induct) (auto intro: in_front_step [OF _ _ ne] slot_inv_step)
  with assms(4) show ?thesis by (simp add: in_front_def)
qed

text \<open>A scheduler with one slot, whose owner is call 0 and whose queue is calls 1 and 2.\<close>

definition demo_sched :: sched_sys where
  "demo_sched =
     \<lparr>ss_sched = \<lparr>sc_wake = 0, sc_waiting = [1, 2], sc_headroom = 1 / 4, sc_slots = 1, sc_held = 1,
        sc_turns = 0, sc_gates = 0\<rparr>,
      ss_slot = [0 \<mapsto> SlotOwn, 1 \<mapsto> SlotWait, 2 \<mapsto> SlotWait], ss_closed = {}, ss_adm = Map.empty\<rparr>"

lemma demo_sched_reach: "reach (init_sched (1 / 4) 1) sched_step demo_sched"
proof -
  let ?i = "init_sched (1 / 4) 1"
  let ?s1 = "set_slot 0 SlotOwn (?i\<lparr>ss_sched := (ss_sched ?i)\<lparr>sc_held := 1\<rparr>\<rparr>)"
  let ?s2 = "set_slot 1 SlotWait (?s1\<lparr>ss_sched := (ss_sched ?s1)\<lparr>sc_waiting := [1]\<rparr>\<rparr>)"
  have "sched_step ?i (SAdmit 0) ?s1"
    using sched_step.slot_admit [of ?i 0 "(ss_sched ?i)\<lparr>sc_held := 1\<rparr>" SlotGranted]
    by (simp add: init_sched_def new_scheduler_def admit_slot_def pc_after_admit_def)
  moreover have "sched_step ?s1 (SAdmit 1) ?s2"
    using sched_step.slot_admit [of ?s1 1 "(ss_sched ?s1)\<lparr>sc_waiting := [1]\<rparr>" "SlotQueued 1"]
    by (simp add: init_sched_def new_scheduler_def admit_slot_def pc_after_admit_def set_slot_def)
  moreover have "sched_step ?s2 (SAdmit 2) demo_sched"
    using sched_step.slot_admit [of ?s2 2 "(ss_sched ?s2)\<lparr>sc_waiting := [1, 2]\<rparr>" "SlotQueued 1"]
    by (simp add: init_sched_def new_scheduler_def admit_slot_def pc_after_admit_def set_slot_def
        demo_sched_def)
  ultimately show ?thesis by (meson reach_init reach_step)
qed

theorem slot_bound_witness:
  "sc_waiting (ss_sched demo_sched) \<noteq> [] \<and> int (card (slot_owners demo_sched)) = 1"
  using slot_bound [OF demo_sched_reach] by (simp add: demo_sched_def)

lemma demo_release:
  "sched_step demo_sched (SRelease 0) (set_slot 0 SlotDone (apply_release demo_sched))"
  by (rule sched_step.slot_release) (simp add: demo_sched_def)

theorem slot_fifo_witness:
  "\<exists>t. run sched_step demo_sched [SCancel 2] t \<and> 2 \<notin> ss_closed t"
proof -
  let ?t = "set_slot 2 SlotGiveUp demo_sched"
  have "sched_step demo_sched (SCancel 2) ?t"
    by (rule sched_step.slot_cancel) (simp add: demo_sched_def)
  then have r: "run sched_step demo_sched [SCancel 2] ?t" by (simp add: run_Cons_simp)
  moreover have "2 \<notin> ss_closed ?t"
    by (rule slot_fifo [OF demo_sched_reach _ r, of 1]) (simp_all add: demo_sched_def)
  ultimately show ?thesis by blast
qed

lemma owner_can_move:
  assumes "ss_slot s j = Some pc" "owns_slot (ss_closed s) j pc"
  shows "\<exists>e t. e \<in> {SReceive j, SAbandon j, SReturn j, SRelease j} \<and> sched_step s e t"
proof -
  obtain sc h where "abandon j (ss_sched s) = (sc, h)" by fastforce
  then show ?thesis using assms sched_step.intros(2,4,5,6) [of s j]
    by (auto simp: owns_slot_def)
qed

text \<open>
  No slot leaks and no caller waits for nothing. While a call queues, another call owns a slot
  and can move towards giving it back without being cancelled first (a waiter whose slot was
  handed over as it gave up gives it back too), and once every call has returned the count is
  back at zero.
\<close>

theorem slot_progress:
  assumes "reach (init_sched headroom slots) sched_step s" and "slots > 0"
  shows "(\<forall>i \<in> set (sc_waiting (ss_sched s)). \<exists>j \<in> slot_owners s. \<exists>e t.
             j \<noteq> i \<and> e \<in> {SReceive j, SAbandon j, SReturn j, SRelease j} \<and> sched_step s e t)
       \<and> ((\<forall>pc \<in> ran (ss_slot s). pc = SlotDone \<or> pc = SlotFailed) \<longrightarrow> sc_held (ss_sched s) = 0)"
proof (intro conjI ballI impI)
  have inv: "slot_inv s" by (rule slot_sys.inv_reach [OF assms(1)])
  have bound: "sc_held (ss_sched s) = int (card (slot_owners s))"
    "sc_waiting (ss_sched s) \<noteq> [] \<longrightarrow> int (card (slot_owners s)) = slots"
    using inv config_sys.inv_reach [OF assms(1)] assms(2)
    by (auto simp: slot_inv_def slot_counts_def)
  show "\<exists>j \<in> slot_owners s. \<exists>e t.
      j \<noteq> i \<and> e \<in> {SReceive j, SAbandon j, SReturn j, SRelease j} \<and> sched_step s e t"
    if i: "i \<in> set (sc_waiting (ss_sched s))" for i
  proof -
    have "slot_owners s \<noteq> {}" using bound(2) i assms(2) by auto
    then obtain j pc where j: "j \<in> slot_owners s" "ss_slot s j = Some pc"
      "owns_slot (ss_closed s) j pc" by (auto simp: slot_owners_def)
    have "i \<in> slot_queue s" using inv i by (simp add: slot_inv_def)
    then have "j \<noteq> i" using j by (auto simp: slot_queue_def queued_slot_def owns_slot_def)
    moreover have "\<exists>e t. e \<in> {SReceive j, SAbandon j, SReturn j, SRelease j} \<and> sched_step s e t"
      using owner_can_move [OF j(2,3)] .
    ultimately show ?thesis using j(1) by blast
  qed
  show "sc_held (ss_sched s) = 0"
    if "\<forall>pc \<in> ran (ss_slot s). pc = SlotDone \<or> pc = SlotFailed"
  proof -
    have "slot_owners s = {}" using that by (fastforce simp: slot_owners_def owns_slot_def ran_def)
    then show ?thesis using bound(1) by simp
  qed
qed

theorem slot_progress_witness:
  "\<exists>j \<in> slot_owners demo_sched. \<exists>e t.
     j \<noteq> 1 \<and> e \<in> {SReceive j, SAbandon j, SReturn j, SRelease j} \<and> sched_step demo_sched e t"
proof -
  have "1 \<in> set (sc_waiting (ss_sched demo_sched))" by (simp add: demo_sched_def)
  with slot_progress [OF demo_sched_reach] show ?thesis by simp
qed

text \<open>
  A turn and a gate run are not admitted together while memory is tight. A call admitted on
  a reading below the headroom finds no call of the other kind holding admission, and a call is
  turned away only then.
\<close>

theorem admission_exclusion:
  assumes "reach (init_sched headroom slots) sched_step s"
    and "sched_step s (AEnter i r) t" and "ss_adm s i = Some c" and "ss_adm t i = Some c'"
  shows "am_pc c' = AdmHeld \<longleftrightarrow>
     \<not> (\<exists>m. r = Some m \<and> total_bytes m \<noteq> 0 \<and> free_fraction m < headroom
          \<and> adm_holders (\<not> am_turn c) s \<noteq> {})"
proof -
  have inv: "adm_inv s" by (rule adm_sys.inv_reach [OF assms(1)])
  have cfg: "sc_headroom (ss_sched s) = headroom" using config_sys.inv_reach [OF assms(1)] by simp
  have fin: "finite (adm_holders b s)" for b using inv finite_holders by (simp add: adm_inv_def)
  have riv: "rivals (am_turn c) (ss_sched s) > 0 \<longleftrightarrow> adm_holders (\<not> am_turn c) s \<noteq> {}"
    using inv fin by (cases "am_turn c") (simp_all add: rivals_def adm_inv_def card_gt_0_iff)
  from assms(2) obtain h sc why where e: "am_pc c = AdmEnter h"
    "enter_admission r (am_turn c) (ss_sched s) = (sc, why)"
    "t = set_adm i c (pc_after_enter why) (s\<lparr>ss_sched := sc\<rparr>)"
    using assms(3) by (auto elim: sched_stepE)
  have "am_pc c' = AdmHeld \<longleftrightarrow> why = None"
    using assms(4) e(3) by (auto simp: pc_after_enter_def split: option.splits)
  also have "\<dots> \<longleftrightarrow> \<not> (snd (read_memory r) \<and> rivals (am_turn c) (ss_sched s) > 0
      \<and> free_fraction (fst (read_memory r)) < headroom)"
    using e(2) cfg by (auto simp: enter_admission_def rivals_def Let_def split: prod.splits if_splits)
  also have "\<dots> \<longleftrightarrow> \<not> (\<exists>m. r = Some m \<and> total_bytes m \<noteq> 0 \<and> free_fraction m < headroom
      \<and> adm_holders (\<not> am_turn c) s \<noteq> {})"
    unfolding riv by (cases r) (auto simp: read_memory_def)
  finally show ?thesis .
qed

text \<open>
  No admission wait outlives its cause. A sleeping call can retry at once, or a call of the
  other kind holds admission and the sleeper can retry as soon as that one leaves.
\<close>

theorem admission_no_lost_wakeup:
  assumes "reach (init_sched headroom slots) sched_step s"
    and "ss_adm s i = Some c" and "am_pc c = AdmSleep g why"
  shows "(\<exists>t. sched_step s (AWake i) t)
     \<or> (\<exists>j \<in> adm_holders (\<not> am_turn c) s. \<exists>t u. sched_step s (ALeave j) t \<and> sched_step t (AWake i) u)"
proof -
  have inv: "adm_inv s" by (rule adm_sys.inv_reach [OF assms(1)])
  have g: "g \<le> sc_wake (ss_sched s)"
    "g = sc_wake (ss_sched s) \<longrightarrow> rivals (am_turn c) (ss_sched s) > 0"
    using inv assms(2,3) unfolding adm_inv_def by blast+
  show ?thesis
  proof (cases "g < sc_wake (ss_sched s)")
    case True
    then show ?thesis using sched_step.adm_wake [OF assms(2,3)] by blast
  next
    case False
    then have "rivals (am_turn c) (ss_sched s) > 0" using g by simp
    then have "adm_holders (\<not> am_turn c) s \<noteq> {}"
      using inv by (cases "am_turn c") (auto simp: rivals_def adm_inv_def)
    then obtain j d where j: "j \<in> adm_holders (\<not> am_turn c) s" "ss_adm s j = Some d"
      "am_pc d = AdmHeld" by (auto simp: adm_holders_def)
    let ?t = "set_adm j d AdmDone (s\<lparr>ss_sched := leave_admission (am_turn d) (ss_sched s)\<rparr>)"
    have "sched_step s (ALeave j) ?t" by (rule sched_step.adm_leave [OF j(2,3)])
    moreover have "j \<noteq> i" using assms(2,3) j by auto
    then have "ss_adm ?t i = Some c" using assms(2) by simp
    moreover have "g < sc_wake (ss_sched ?t)" using g(1) by (simp add: leave_admission_def Let_def)
    ultimately show ?thesis using sched_step.adm_wake [OF _ assms(3)] j(1) by blast
  qed
qed

text \<open>A gate run holds admission, memory is at a tenth, and a turn has asked: before and after.\<close>

definition tight :: memory where
  "tight = \<lparr>used_bytes = 90, total_bytes = 100\<rparr>"

lemma tight_free [simp]: "free_fraction tight = 1 / 10"
  by (simp add: free_fraction_def tight_def mem_free_def)

definition gate_call :: adm_call where
  "gate_call = \<lparr>am_turn = False, am_pc = AdmEnter False\<rparr>"

definition turn_call :: adm_call where
  "turn_call = \<lparr>am_turn = True, am_pc = AdmEnter False\<rparr>"

definition demo_asked :: sched_sys where
  "demo_asked =
     \<lparr>ss_sched = (new_scheduler (1 / 4) 1)\<lparr>sc_gates := 1\<rparr>, ss_slot = Map.empty, ss_closed = {},
      ss_adm = [0 \<mapsto> gate_call\<lparr>am_pc := AdmHeld\<rparr>, 1 \<mapsto> turn_call]\<rparr>"

definition demo_refused :: sched_sys where
  "demo_refused = set_adm 1 turn_call (AdmSleep 0 (HeldForGate 10)) demo_asked"

lemma demo_asked_reach: "reach (init_sched (1 / 4) 1) sched_step demo_asked"
proof -
  let ?i = "init_sched (1 / 4) 1"
  let ?s1 = "?i\<lparr>ss_adm := [0 \<mapsto> gate_call]\<rparr>"
  let ?s2 = "set_adm 0 gate_call AdmHeld (?s1\<lparr>ss_sched := (ss_sched ?s1)\<lparr>sc_gates := 1\<rparr>\<rparr>)"
  have "sched_step ?i (AStart 0 False) ?s1"
    using sched_step.adm_start [of ?i 0 False] by (simp add: init_sched_def gate_call_def)
  moreover have "sched_step ?s1 (AEnter 0 None) ?s2"
    using sched_step.adm_enter [of ?s1 0 gate_call False None "(ss_sched ?s1)\<lparr>sc_gates := 1\<rparr>" None]
    by (simp add: gate_call_def enter_admission_def read_memory_def pc_after_enter_def
        init_sched_def new_scheduler_def)
  moreover have "sched_step ?s2 (AStart 1 True) demo_asked"
    using sched_step.adm_start [of ?s2 1 True]
    by (simp add: init_sched_def gate_call_def turn_call_def demo_asked_def set_adm_def)
  ultimately show ?thesis by (meson reach_init reach_step)
qed

lemma demo_refused_step: "sched_step demo_asked (AEnter 1 (Some tight)) demo_refused"
proof -
  have "enter_admission (Some tight) True (ss_sched demo_asked) =
      (ss_sched demo_asked, Some (0, HeldForGate 10))"
    by (simp add: enter_admission_def read_memory_def hold_reason_for_def demo_asked_def
        new_scheduler_def) (simp add: tight_def)
  then show ?thesis
    using sched_step.adm_enter [of demo_asked 1 turn_call False "Some tight" "ss_sched demo_asked"
        "Some (0, HeldForGate 10)"]
    by (simp add: turn_call_def demo_refused_def pc_after_enter_def demo_asked_def)
qed

theorem admission_exclusion_witness:
  "sched_step demo_asked (AEnter 1 (Some tight)) demo_refused
   \<and> (\<exists>c. ss_adm demo_refused 1 = Some c \<and> am_pc c \<noteq> AdmHeld)"
proof -
  let ?c = "turn_call\<lparr>am_pc := AdmSleep 0 (HeldForGate 10)\<rparr>"
  have "adm_holders False demo_asked \<noteq> {}" "ss_adm demo_asked 1 = Some turn_call"
    "total_bytes tight \<noteq> 0"
    by (auto simp: demo_asked_def adm_holders_def gate_call_def tight_def)
  moreover have "ss_adm demo_refused 1 = Some ?c" by (simp add: demo_refused_def)
  ultimately have "am_pc ?c \<noteq> AdmHeld"
    using admission_exclusion [OF demo_asked_reach demo_refused_step, of turn_call ?c]
    by (simp add: turn_call_def)
  with \<open>ss_adm demo_refused 1 = Some ?c\<close> show ?thesis using demo_refused_step by blast
qed

theorem admission_no_lost_wakeup_witness:
  "\<exists>j t u. sched_step demo_refused (ALeave j) t \<and> sched_step t (AWake 1) u"
proof -
  have "reach (init_sched (1 / 4) 1) sched_step demo_refused"
    by (rule reach_step [OF demo_asked_reach demo_refused_step])
  moreover have "ss_adm demo_refused 1 = Some (turn_call\<lparr>am_pc := AdmSleep 0 (HeldForGate 10)\<rparr>)"
    by (simp add: demo_refused_def)
  moreover have "\<nexists>t. sched_step demo_refused (AWake 1) t"
    by (auto simp: demo_refused_def demo_asked_def new_scheduler_def elim!: sched_stepE)
  ultimately show ?thesis
    using admission_no_lost_wakeup [of "1 / 4" 1 demo_refused 1] by fastforce
qed

end
