(* ===== verification/GuardSplit.thy ===== *)
theory GuardSplit
  imports GoStrings "HOL-Library.Multiset"
begin

text \<open>
  \<open>internal/guard/split.go\<close>: the hand-written readers of a shell command line, which answer when
  the bash parser rejects the text. Each scanning loop keeps the code's index and quote flags and
  is a recursion on the distance to the end. \<open>separator\<close> is the interface of the function argument
  of \<open>splitTopLevel\<close>; its two arguments in the code, the sequence and the pipeline separators,
  are interpreted below.
\<close>

section \<open>Splitting on top-level operators\<close>

abbreviation cur :: "string \<Rightarrow> nat \<Rightarrow> char \<Rightarrow> bool" where
  "cur rs i c \<equiv> i < length rs \<and> rs ! i = c"

definition is_redir_amp :: "string \<Rightarrow> nat \<Rightarrow> bool" where
  "is_redir_amp rs i = (if cur rs (i + 1) CHR ''>'' then True else i > 0 \<and> rs ! (i - 1) = CHR ''>'')"

definition seq_sep :: "string \<Rightarrow> nat \<Rightarrow> nat option" where
  "seq_sep rs i =
     (let c = rs ! i in
      if c = CHR '';'' \<or> c = nl then Some 1
      else if c = CHR ''&'' \<and> cur rs (i + 1) CHR ''&'' then Some 2
      else if c = CHR ''|'' \<and> cur rs (i + 1) CHR ''|'' then Some 2
      else if c = CHR ''&'' \<and> is_redir_amp rs i then None
      else if c = CHR ''&'' then Some 1
      else None)"

definition pipe_sep :: "string \<Rightarrow> nat \<Rightarrow> nat option" where
  "pipe_sep rs i = (if rs ! i = CHR ''|'' then Some 1 else None)"

definition flush_fragment :: "string \<Rightarrow> string list \<Rightarrow> string list" where
  "flush_fragment buf out = (let f = trim_space buf in if f \<noteq> [] then out @ [f] else out)"

text \<open>
  The loop of \<open>splitTopLevel\<close>. A separator of width \<open>n\<close> moves the index by \<open>n - 1\<close> and the loop
  header by one more; widths are one or two.
\<close>

function split_loop ::
  "(string \<Rightarrow> nat \<Rightarrow> nat option) \<Rightarrow> string \<Rightarrow> nat \<Rightarrow> bool \<Rightarrow> bool \<Rightarrow> string \<Rightarrow> string list \<Rightarrow> string list"
where
  "split_loop sep rs i in_single in_double buf out =
     (if i < length rs then
        (let c = rs ! i in
         if in_single then split_loop sep rs (i + 1) (c \<noteq> squote) in_double (buf @ [c]) out
         else if in_double then split_loop sep rs (i + 1) in_single (c \<noteq> dquote) (buf @ [c]) out
         else if c = squote then split_loop sep rs (i + 1) True in_double (buf @ [c]) out
         else if c = dquote then split_loop sep rs (i + 1) in_single True (buf @ [c]) out
         else (case sep rs i of
                 Some n \<Rightarrow>
                   split_loop sep rs (i + (n - 1) + 1) in_single in_double [] (flush_fragment buf out)
               | None \<Rightarrow> split_loop sep rs (i + 1) in_single in_double (buf @ [c]) out))
      else flush_fragment buf out)"
  by pat_completeness auto
termination by (relation "measure (\<lambda>(sep, rs, i, q, d, buf, out). length rs - i)") auto

declare split_loop.simps [simp del]

definition split_top_level :: "(string \<Rightarrow> nat \<Rightarrow> nat option) \<Rightarrow> string \<Rightarrow> string list" where
  "split_top_level sep s = split_loop sep s 0 False False [] []"

definition split_sequence :: "string \<Rightarrow> string list" where
  "split_sequence s = split_top_level seq_sep s"

definition split_pipeline :: "string \<Rightarrow> string list" where
  "split_pipeline s = split_top_level pipe_sep s"

lemma filter_trim_space:
  assumes "\<And>c. is_space c \<Longrightarrow> \<not> P c"
  shows "filter P (trim_space s) = filter P s"
proof -
  have l: "filter P (dropWhile is_space t) = filter P t" for t
    using assms by (induction t) auto
  then have "filter P (rev (dropWhile is_space (rev t))) = filter P t" for t
    by (metis rev_filter rev_rev_ident)
  with l show ?thesis by (simp add: trim_space_def trim_right_while_def trim_left_while_def)
qed

lemma concat_flush: "concat (flush_fragment buf out) = concat out @ trim_space buf"
  by (simp add: flush_fragment_def Let_def)

text \<open>
  What the loop needs of its separator: it consumes operator characters of the text and at least
  one of them.
\<close>

locale separator =
  fixes sep :: "string \<Rightarrow> nat \<Rightarrow> nat option"
    and ops :: "char set"
  assumes sep_width: "sep rs i = Some n \<Longrightarrow> i < length rs \<Longrightarrow> n > 0 \<and> i + n \<le> length rs"
    and sep_ops: "sep rs i = Some n \<Longrightarrow> i < length rs \<Longrightarrow> set (take n (drop i rs)) \<subseteq> ops"
begin

definition kept :: "char \<Rightarrow> bool" where
  "kept c = (\<not> is_space c \<and> c \<notin> ops)"

lemma drop_keep:
  "i < length rs \<Longrightarrow> filter kept (drop i rs) = filter kept [rs ! i] @ filter kept (drop (i + 1) rs)"
  by (simp add: Cons_nth_drop_Suc [symmetric])

lemma drop_sep:
  assumes "sep rs i = Some n" "i < length rs"
  shows "filter kept (drop i rs) = filter kept (drop (i + n) rs)"
proof -
  have "drop i rs = take n (drop i rs) @ drop (i + n) rs"
    by (metis add.commute append_take_drop_id drop_drop)
  moreover have "filter kept (take n (drop i rs)) = []"
    using sep_ops [OF assms] by (auto simp: filter_empty_conv kept_def)
  ultimately show ?thesis by (metis append_Nil filter_append)
qed

lemma kept_trim [simp]: "filter kept (trim_space s) = filter kept s"
  by (rule filter_trim_space) (simp add: kept_def)

lemma split_loop_kept:
  "filter kept (concat (split_loop sep rs i q d buf out)) =
     filter kept (concat out) @ filter kept buf @ filter kept (drop i rs)"
proof (induction "length rs - i" arbitrary: i q d buf out rule: less_induct)
  case less
  show ?case
  proof (cases "i < length rs")
    case False
    then show ?thesis by (simp add: split_loop.simps [of sep rs i] concat_flush)
  next
    case True
    have IH: "filter kept (concat (split_loop sep rs j q' d' buf' out')) =
        filter kept (concat out') @ filter kept buf' @ filter kept (drop j rs)"
      if "i < j" for j q' d' buf' out'
      using less [of j q' d' buf' out'] that True by simp
    show ?thesis
    proof (cases "sep rs i")
      case None
      then show ?thesis using True
        by (auto simp: split_loop.simps [of sep rs i] Let_def IH drop_keep)
    next
      case (Some n)
      have n: "n > 0" using sep_width [OF Some True] by simp
      then have "i + (n - 1) + 1 = i + n" by simp
      with Some n show ?thesis using True drop_sep [OF Some True]
        by (auto simp: split_loop.simps [of sep rs i] Let_def IH drop_keep concat_flush)
    qed
  qed
qed

lemma split_kept: "filter kept (concat (split_top_level sep s)) = filter kept s"
  by (simp add: split_top_level_def split_loop_kept)

end

lemma in_flush: "f \<in> set (flush_fragment buf out) \<Longrightarrow> f \<in> set out \<or> f = trim_space buf \<and> f \<noteq> []"
  by (auto simp: flush_fragment_def Let_def split: if_splits)

lemma split_loop_trimmed:
  assumes "\<And>f. f \<in> set out \<Longrightarrow> f \<noteq> [] \<and> trim_space f = f"
  shows "f \<in> set (split_loop sep rs i q d buf out) \<Longrightarrow> f \<noteq> [] \<and> trim_space f = f"
  using assms
proof (induction sep rs i q d buf out rule: split_loop.induct)
  case (1 sep rs i q d buf out)
  have fl: "g \<noteq> [] \<and> trim_space g = g" if "g \<in> set (flush_fragment buf out)" for g
    using in_flush [OF that] "1.prems"(2) by auto
  show ?case
    using "1.prems" "1.IH"(1-6) fl
    by (cases "sep rs i") (auto simp: split_loop.simps [of sep rs i] Let_def split: if_splits)
qed

lemma take_here:
  "i < length rs \<Longrightarrow> take (Suc 0) (drop i rs) = [rs ! i]"
  "Suc i < length rs \<Longrightarrow> take 2 (drop i rs) = [rs ! i, rs ! Suc i]"
  "i < length rs \<Longrightarrow> \<not> Suc i < length rs \<Longrightarrow> drop i rs = [rs ! i]"
  by (simp_all add: Cons_nth_drop_Suc [symmetric] numeral_2_eq_2 take_Suc_conv_app_nth)

interpretation seq: separator seq_sep "{nl, CHR '';'', CHR ''&'', CHR ''|''}"
  by unfold_locales (auto simp: seq_sep_def Let_def take_here split: if_splits)

interpretation pipe: separator pipe_sep "{CHR ''|''}"
  by unfold_locales (auto simp: pipe_sep_def take_here split: if_splits)

section \<open>Words\<close>

text \<open>
  One turn of the range loop of \<open>tokenize\<close> on its variables; \<open>tk_has\<close> says a word has begun, so
  that a pair of quotes with nothing between them is an empty word.
\<close>

record tok_state =
  tk_single :: bool
  tk_double :: bool
  tk_has :: bool
  tk_buf :: string
  tk_tokens :: "string list"

definition flush_word :: "tok_state \<Rightarrow> tok_state" where
  "flush_word t =
     (if tk_has t then t\<lparr>tk_tokens := tk_tokens t @ [tk_buf t], tk_buf := [], tk_has := False\<rparr> else t)"

definition tokenize_step :: "tok_state \<Rightarrow> char \<Rightarrow> tok_state" where
  "tokenize_step t c =
     (if tk_single t then
        (if c = squote then t\<lparr>tk_single := False\<rparr> else t\<lparr>tk_buf := tk_buf t @ [c]\<rparr>)
      else if tk_double t then
        (if c = dquote then t\<lparr>tk_double := False\<rparr> else t\<lparr>tk_buf := tk_buf t @ [c]\<rparr>)
      else if c = squote then t\<lparr>tk_single := True, tk_has := True\<rparr>
      else if c = dquote then t\<lparr>tk_double := True, tk_has := True\<rparr>
      else if c = CHR '' '' \<or> c = tab \<or> c = nl then flush_word t
      else t\<lparr>tk_buf := tk_buf t @ [c], tk_has := True\<rparr>)"

definition tok_start :: tok_state where
  "tok_start = \<lparr>tk_single = False, tk_double = False, tk_has = False, tk_buf = [], tk_tokens = []\<rparr>"

definition tokenize :: "string \<Rightarrow> string list" where
  "tokenize s = tk_tokens (flush_word (foldl tokenize_step tok_start s))"

definition word_char :: "char \<Rightarrow> bool" where
  "word_char c = (c \<noteq> squote \<and> c \<noteq> dquote \<and> c \<noteq> CHR '' '' \<and> c \<noteq> tab \<and> c \<noteq> nl)"

definition tok_ok :: "tok_state \<Rightarrow> bool" where
  "tok_ok t = ((tk_has t \<or> tk_buf t = []) \<and> (tk_single t \<or> tk_double t \<longrightarrow> tk_has t))"

definition tok_chars :: "tok_state \<Rightarrow> string" where
  "tok_chars t = filter word_char (concat (tk_tokens t) @ tk_buf t)"

definition tok_size :: "tok_state \<Rightarrow> nat" where
  "tok_size t = sum_list (map length (tk_tokens t)) + length (tk_tokens t) + length (tk_buf t)
     + (if tk_has t then 1 else 0)"

lemma tok_flush:
  "tok_ok t \<Longrightarrow> tok_ok (flush_word t) \<or> tk_single t \<or> tk_double t"
  "tok_ok t \<Longrightarrow> tok_chars (flush_word t) = tok_chars t"
  "tok_ok t \<Longrightarrow> tok_size (flush_word t) = tok_size t"
  "tok_ok t \<Longrightarrow> tk_buf (flush_word t) = [] \<and> \<not> tk_has (flush_word t)"
  by (auto simp: tok_ok_def tok_chars_def tok_size_def flush_word_def)

text \<open>Under the invariant a turn flushes, moves a quote flag, or appends its character.\<close>

lemma tokenize_step_cases:
  assumes "tok_ok t"
  obtains (flush) "tokenize_step t c = flush_word t" "\<not> word_char c" "\<not> tk_single t" "\<not> tk_double t"
  | (quote) q d where "tokenize_step t c = t\<lparr>tk_single := q, tk_double := d, tk_has := True\<rparr>"
      "\<not> word_char c"
  | (char) "tokenize_step t c = t\<lparr>tk_buf := tk_buf t @ [c], tk_has := True\<rparr>"
proof -
  have has: "t = t\<lparr>tk_has := True\<rparr>" if "tk_single t \<or> tk_double t"
    using assms that by (cases t) (auto simp: tok_ok_def)
  consider "tk_single t" "c = squote" | "tk_single t" "c \<noteq> squote"
    | "\<not> tk_single t" "tk_double t" "c = dquote" | "\<not> tk_single t" "tk_double t" "c \<noteq> dquote"
    | "\<not> tk_single t" "\<not> tk_double t" "c = squote" | "\<not> tk_single t" "\<not> tk_double t" "c = dquote"
    | "\<not> tk_single t" "\<not> tk_double t" "c \<noteq> squote" "c \<noteq> dquote" "c = CHR '' '' \<or> c = tab \<or> c = nl"
    | "\<not> tk_single t" "\<not> tk_double t" "c \<noteq> squote" "c \<noteq> dquote" "\<not> (c = CHR '' '' \<or> c = tab \<or> c = nl)"
    by blast
  then show thesis
  proof cases
    case 1
    then have "tokenize_step t c = t\<lparr>tk_single := False, tk_double := tk_double t, tk_has := True\<rparr>"
      using has by (cases t) (simp add: tokenize_step_def)
    then show thesis by (rule quote) (use 1 in \<open>simp add: word_char_def\<close>)
  next
    case 2
    then have "tokenize_step t c = t\<lparr>tk_buf := tk_buf t @ [c], tk_has := True\<rparr>"
      using has by (cases t) (simp add: tokenize_step_def)
    then show thesis by (rule char)
  next
    case 3
    then have "tokenize_step t c = t\<lparr>tk_single := tk_single t, tk_double := False, tk_has := True\<rparr>"
      using has by (cases t) (simp add: tokenize_step_def)
    then show thesis by (rule quote) (use 3 in \<open>simp add: word_char_def\<close>)
  next
    case 4
    then have "tokenize_step t c = t\<lparr>tk_buf := tk_buf t @ [c], tk_has := True\<rparr>"
      using has by (cases t) (simp add: tokenize_step_def)
    then show thesis by (rule char)
  next
    case 5
    then have "tokenize_step t c = t\<lparr>tk_single := True, tk_double := tk_double t, tk_has := True\<rparr>"
      by (cases t) (simp add: tokenize_step_def)
    then show thesis by (rule quote) (use 5 in \<open>simp add: word_char_def\<close>)
  next
    case 6
    then have "tokenize_step t c = t\<lparr>tk_single := tk_single t, tk_double := True, tk_has := True\<rparr>"
      by (cases t) (simp add: tokenize_step_def)
    then show thesis by (rule quote) (use 6 in \<open>simp add: word_char_def\<close>)
  next
    case 7
    then show thesis using flush by (simp add: tokenize_step_def word_char_def)
  next
    case 8
    then show thesis using char by (simp add: tokenize_step_def)
  qed
qed

lemma tok_step_ok: "tok_ok t \<Longrightarrow> tok_ok (tokenize_step t c)"
  by (rule tokenize_step_cases [of t c]; simp)
    (auto simp: tok_ok_def flush_word_def)

lemma tok_step_chars: "tok_ok t \<Longrightarrow> tok_chars (tokenize_step t c) = tok_chars t @ filter word_char [c]"
  by (rule tokenize_step_cases [of t c]; simp add: tok_flush(2)) (simp_all add: tok_chars_def)

lemma tok_step_size:
  assumes "tok_ok t" "tok_size t \<le> n + (if tk_has t then 1 else 0)"
  shows "tok_size (tokenize_step t c) \<le> n + 1 + (if tk_has (tokenize_step t c) then 1 else 0)"
  using assms(1)
proof (cases rule: tokenize_step_cases [of t c])
  case flush
  then show ?thesis using assms tok_flush(3) [of t] by (simp split: if_splits)
next
  case (quote q d)
  then show ?thesis using assms by (simp add: tok_size_def split: if_splits)
next
  case char
  then show ?thesis using assms by (simp add: tok_size_def split: if_splits)
qed

lemma tok_start_ok: "tok_ok tok_start" "tok_chars tok_start = []" "tok_size tok_start = 0"
  by (simp_all add: tok_ok_def tok_chars_def tok_size_def tok_start_def)

lemma tok_fold:
  "tok_ok t \<Longrightarrow> tok_size t \<le> n + (if tk_has t then 1 else 0) \<Longrightarrow>
     tok_ok (foldl tokenize_step t s)
     \<and> tok_chars (foldl tokenize_step t s) = tok_chars t @ filter word_char s
     \<and> tok_size (foldl tokenize_step t s) \<le> n + length s + 1"
proof (induction s arbitrary: t n)
  case Nil
  then show ?case by (auto split: if_splits)
next
  case (Cons c s)
  have "tok_size (tokenize_step t c) \<le> (n + 1) + (if tk_has (tokenize_step t c) then 1 else 0)"
    by (rule tok_step_size [OF Cons.prems])
  from Cons.IH [OF tok_step_ok [OF Cons.prems(1)] this] tok_step_chars [OF Cons.prems(1), of c]
  show ?case by simp
qed

text \<open>No character of the command escapes the words, and words are not longer than the command.\<close>

lemma tokenize_chars: "filter word_char (concat (tokenize s)) = filter word_char s"
proof -
  let ?t = "foldl tokenize_step tok_start s"
  have t: "tok_ok ?t" "tok_chars ?t = filter word_char s"
    using tok_fold [of tok_start 0 s] tok_start_ok by simp_all
  then have "tok_chars (flush_word ?t) = filter word_char s" "tk_buf (flush_word ?t) = []"
    using tok_flush(2,4) [of ?t] by simp_all
  then show ?thesis by (simp add: tok_chars_def tokenize_def)
qed

lemma tokenize_size: "sum_list (map length (tokenize s)) + length (tokenize s) \<le> length s + 1"
proof -
  let ?t = "foldl tokenize_step tok_start s"
  have t: "tok_ok ?t" "tok_size ?t \<le> length s + 1"
    using tok_fold [of tok_start 0 s] tok_start_ok by simp_all
  then have "tok_size (flush_word ?t) \<le> length s + 1" "tk_buf (flush_word ?t) = []"
    "\<not> tk_has (flush_word ?t)"
    using tok_flush(3,4) [of ?t] by simp_all
  then show ?thesis by (simp add: tok_size_def tokenize_def)
qed

section \<open>Substitutions\<close>

function paren_loop :: "string \<Rightarrow> nat \<Rightarrow> nat \<Rightarrow> nat option" where
  "paren_loop rs i depth =
     (if i < length rs then
        (if rs ! i = CHR ''('' then paren_loop rs (i + 1) (depth + 1)
         else if rs ! i = CHR '')'' then
           (if depth - 1 = 0 then Some i else paren_loop rs (i + 1) (depth - 1))
         else paren_loop rs (i + 1) depth)
      else None)"
  by pat_completeness auto
termination by (relation "measure (\<lambda>(rs, i, d). length rs - i)") auto

declare paren_loop.simps [simp del]

definition match_paren :: "string \<Rightarrow> nat \<Rightarrow> nat option" where
  "match_paren rs open_at = paren_loop rs (open_at + 1) 1"

definition index_rune_from :: "string \<Rightarrow> nat \<Rightarrow> char \<Rightarrow> nat option" where
  "index_rune_from rs start target =
     map_option ((+) start) (find_index (\<lambda>c. c = target) (drop start rs))"

record subst_scanner =
  sb_buf :: string
  sb_subs :: "string list"
  sb_single :: bool
  sb_double :: bool

definition write_rune :: "char \<Rightarrow> subst_scanner \<Rightarrow> subst_scanner" where
  "write_rune c sc = sc\<lparr>sb_buf := sb_buf sc @ [c]\<rparr>"

definition slice :: "string \<Rightarrow> nat \<Rightarrow> nat \<Rightarrow> string" where
  "slice rs a b = take (b - a) (drop a rs)"

text \<open>A substitution found: keep its text, and leave one space where it stood.\<close>

definition take_sub :: "string \<Rightarrow> subst_scanner \<Rightarrow> subst_scanner" where
  "take_sub sub sc = write_rune CHR '' '' (sc\<lparr>sb_subs := sb_subs sc @ [sub]\<rparr>)"

definition step_double :: "string \<Rightarrow> nat \<Rightarrow> subst_scanner \<Rightarrow> subst_scanner \<times> nat" where
  "step_double rs i sc =
     (let c = rs ! i in
      if c = backslash \<and> i + 1 < length rs
      then (write_rune (rs ! (i + 1)) (write_rune c sc), i + 1)
      else ((if c = dquote then (write_rune c sc)\<lparr>sb_double := False\<rparr> else write_rune c sc), i))"

definition step_paren_subst :: "string \<Rightarrow> nat \<Rightarrow> subst_scanner \<Rightarrow> subst_scanner \<times> nat" where
  "step_paren_subst rs i sc =
     (case match_paren rs (i + 1) of
        None \<Rightarrow> (write_rune CHR ''$'' sc, i)
      | Some e \<Rightarrow> (take_sub (slice rs (i + 2) e) sc, e))"

definition step_backtick :: "string \<Rightarrow> nat \<Rightarrow> subst_scanner \<Rightarrow> subst_scanner \<times> nat" where
  "step_backtick rs i sc =
     (case index_rune_from rs (i + 1) backtick of
        None \<Rightarrow> (write_rune backtick sc, i)
      | Some e \<Rightarrow> (take_sub (slice rs (i + 1) e) sc, e))"

definition subst_step :: "string \<Rightarrow> nat \<Rightarrow> subst_scanner \<Rightarrow> subst_scanner \<times> nat" where
  "subst_step rs i sc =
     (let c = rs ! i in
      if sb_single sc then
        ((if c = squote then (write_rune c sc)\<lparr>sb_single := False\<rparr> else write_rune c sc), i)
      else if sb_double sc then step_double rs i sc
      else if c = squote then (write_rune c (sc\<lparr>sb_single := True\<rparr>), i)
      else if c = dquote then (write_rune c (sc\<lparr>sb_double := True\<rparr>), i)
      else if c = CHR ''$'' \<and> cur rs (i + 1) CHR ''('' then step_paren_subst rs i sc
      else if c = backtick then step_backtick rs i sc
      else (write_rune c sc, i))"

lemma paren_loop_range: "paren_loop rs i d = Some e \<Longrightarrow> i \<le> e \<and> e < length rs"
  by (induction rs i d rule: paren_loop.induct)
    (subst (asm) (2) paren_loop.simps, fastforce split: if_splits)

lemma index_rune_range:
  "index_rune_from rs a c = Some e \<Longrightarrow> a \<le> e \<and> e < length rs"
  by (auto simp: index_rune_from_def dest!: find_index_SomeD)

lemma paren_loop_close: "paren_loop rs i d = Some e \<Longrightarrow> rs ! e = CHR '')''"
  by (induction rs i d rule: paren_loop.induct)
    (subst (asm) (2) paren_loop.simps, fastforce split: if_splits)

lemma index_rune_at: "index_rune_from rs a c = Some e \<Longrightarrow> rs ! e = c"
  by (auto simp: index_rune_from_def dest!: find_index_SomeD)

lemma slice_one [simp]: "i < length rs \<Longrightarrow> slice rs i (i + 1) = [rs ! i]"
  "i < length rs \<Longrightarrow> slice rs i (Suc i) = [rs ! i]"
  by (simp_all add: slice_def take_here)

lemma slice_two: "i + 1 < length rs \<Longrightarrow> slice rs i (i + 2) = [rs ! i, rs ! (i + 1)]"
  by (simp add: slice_def take_here)

lemma write_rune_simps [simp]:
  "sb_buf (write_rune c sc) = sb_buf sc @ [c]" "sb_subs (write_rune c sc) = sb_subs sc"
  "sb_single (write_rune c sc) = sb_single sc" "sb_double (write_rune c sc) = sb_double sc"
  by (simp_all add: write_rune_def)

text \<open>How a turn of the scanner moves: it copies characters, or cuts one substitution out.\<close>

lemma subst_step_cases:
  assumes i: "i < length rs" and step: "subst_step rs i sc = (sc', j)"
  obtains (copy) "i \<le> j" "j < length rs" "sb_buf sc' = sb_buf sc @ slice rs i (j + 1)"
      "sb_subs sc' = sb_subs sc"
  | (cut) a where "i < a" "a \<le> j" "j < length rs" "sb_buf sc' = sb_buf sc @ '' ''"
      "sb_subs sc' = sb_subs sc @ [slice rs a j]"
      "set (slice rs i a) \<subseteq> {CHR ''$'', CHR ''('', backtick}" "rs ! j \<in> {CHR '')'', backtick}"
proof -
  have one: thesis if "j = i" "sb_buf sc' = sb_buf sc @ [rs ! i]" "sb_subs sc' = sb_subs sc"
    using that i copy by simp
  consider (simple) "j = i" "sb_buf sc' = sb_buf sc @ [rs ! i]" "sb_subs sc' = sb_subs sc"
    | (double) "step_double rs i sc = (sc', j)"
    | (paren) "rs ! i = CHR ''$''" "cur rs (i + 1) CHR ''(''" "step_paren_subst rs i sc = (sc', j)"
    | (tick) "rs ! i = backtick" "step_backtick rs i sc = (sc', j)"
    using step by (auto simp: subst_step_def Let_def split: if_splits)
  then show thesis
  proof cases
    case simple
    then show thesis by (rule one)
  next
    case double
    show thesis
    proof (cases "rs ! i = backslash \<and> i + 1 < length rs")
      case True
      then have "j = i + 1" "sb_buf sc' = sb_buf sc @ [rs ! i, rs ! (i + 1)]" "sb_subs sc' = sb_subs sc"
        using double by (auto simp: step_double_def)
      then show thesis using copy True slice_two [of i rs] by simp
    next
      case False
      then have "j = i" "sb_buf sc' = sb_buf sc @ [rs ! i]" "sb_subs sc' = sb_subs sc"
        using double by (auto simp: step_double_def Let_def split: if_splits)
      then show thesis by (rule one)
    qed
  next
    case paren
    show thesis
    proof (cases "match_paren rs (i + 1)")
      case None
      then show thesis using paren one by (auto simp: step_paren_subst_def)
    next
      case (Some e)
      then have e: "i + 2 \<le> e" "e < length rs" "rs ! e = CHR '')''"
        using paren_loop_range paren_loop_close by (fastforce simp: match_paren_def)+
      have "sc' = take_sub (slice rs (i + 2) e) sc" "j = e"
        using paren(3) Some by (auto simp: step_paren_subst_def)
      then show thesis using e paren slice_two [of i rs]
        by (intro cut [of "i + 2"]) (auto simp: take_sub_def)
    qed
  next
    case tick
    show thesis
    proof (cases "index_rune_from rs (i + 1) backtick")
      case None
      then show thesis using tick one by (auto simp: step_backtick_def)
    next
      case (Some e)
      have e: "i + 1 \<le> e" "e < length rs" "rs ! e = backtick"
        using index_rune_range [OF Some] index_rune_at [OF Some] by auto
      have "sc' = take_sub (slice rs (i + 1) e) sc" "j = e"
        using tick(2) Some by (auto simp: step_backtick_def)
      then show thesis using e i tick
        by (intro cut [of "i + 1"]) (auto simp: take_sub_def)
    qed
  qed
qed

lemma subst_step_mono:
  "i < length rs \<Longrightarrow> subst_step rs i sc = (sc', j) \<Longrightarrow> i \<le> j \<and> j < length rs"
  by (erule (1) subst_step_cases) auto

function subst_loop :: "string \<Rightarrow> nat \<Rightarrow> subst_scanner \<Rightarrow> subst_scanner" where
  "subst_loop rs i sc =
     (if i < length rs
      then (case subst_step rs i sc of (sc', j) \<Rightarrow> subst_loop rs (j + 1) sc')
      else sc)"
  by pat_completeness auto
termination
proof (relation "measure (\<lambda>(rs, i, sc). length rs - i)", goal_cases)
  case (2 rs i sc sc' j)
  from 2(2) have "subst_step rs i sc = (sc', j)" by simp
  from subst_step_mono [OF 2(1) this] have "i \<le> j" "j < length rs" by simp_all
  then show ?case by (simp add: diff_less_mono2)
qed simp

declare subst_loop.simps [simp del]

definition extract_substitutions :: "string \<Rightarrow> string \<times> string list" where
  "extract_substitutions s =
     (let sc = subst_loop s 0 \<lparr>sb_buf = [], sb_subs = [], sb_single = False, sb_double = False\<rparr>
      in (sb_buf sc, sb_subs sc))"

text \<open>
  What is kept of the text: the buffer and the substitutions together hold every character but
  the delimiters of the substitutions and the spaces put in their place.
\<close>

definition subst_plain :: "char \<Rightarrow> bool" where
  "subst_plain c = (c \<notin> {CHR ''$'', CHR ''('', CHR '')'', backtick, CHR '' ''})"

definition subst_content :: "subst_scanner \<Rightarrow> char multiset" where
  "subst_content sc = mset (filter subst_plain (sb_buf sc @ concat (sb_subs sc)))"

lemma slice_drop: "a \<le> b \<Longrightarrow> slice rs a b @ drop b rs = drop a rs"
  by (simp add: slice_def) (metis append_take_drop_id drop_drop le_add_diff_inverse2)

lemma slice_slice:
  assumes "a \<le> b" "b \<le> c" "c \<le> length rs"
  shows "slice rs a b @ slice rs b c = slice rs a c"
proof -
  have d: "slice rs x y = drop x (take y rs)" for x y by (simp add: slice_def drop_take)
  have "take c rs = take b rs @ drop b (take c rs)"
    using assms by (metis append_take_drop_id min.absorb1 take_take)
  then have "drop a (take c rs) = drop a (take b rs @ drop b (take c rs))" by simp
  also have "\<dots> = drop a (take b rs) @ drop b (take c rs)" using assms by simp
  finally show ?thesis by (simp add: d)
qed

lemma subst_step_content:
  assumes "i < length rs" "subst_step rs i sc = (sc', j)"
  shows "subst_content sc' = subst_content sc + mset (filter subst_plain (slice rs i (j + 1)))"
  using assms
proof (cases rule: subst_step_cases)
  case copy
  then show ?thesis by (simp add: subst_content_def)
next
  case (cut a)
  have "slice rs i (j + 1) = slice rs i a @ slice rs a j @ [rs ! j]"
    using cut slice_slice [of a j "j + 1" rs] slice_slice [of i a "j + 1" rs] by simp
  moreover have "filter subst_plain (slice rs i a) = []" "\<not> subst_plain (rs ! j)"
    using cut by (auto simp: filter_empty_conv subst_plain_def)
  moreover have "\<not> subst_plain CHR '' ''" by (simp add: subst_plain_def)
  ultimately show ?thesis using cut by (simp add: subst_content_def)
qed

lemma subst_loop_content:
  "i \<le> length rs \<Longrightarrow>
     subst_content (subst_loop rs i sc) = subst_content sc + mset (filter subst_plain (drop i rs))"
proof (induction rs i sc rule: subst_loop.induct)
  case (1 rs i sc)
  show ?case
  proof (cases "i < length rs")
    case False
    then show ?thesis using 1 by (subst (1) subst_loop.simps) simp
  next
    case True
    obtain sc' j where s: "subst_step rs i sc = (sc', j)" by fastforce
    have j: "i \<le> j" "j < length rs" using subst_step_mono [OF True s] by simp_all
    have "subst_loop rs i sc = subst_loop rs (j + 1) sc'"
      using True s by (simp add: subst_loop.simps [of rs i])
    moreover have "subst_content (subst_loop rs (j + 1) sc') =
        subst_content sc' + mset (filter subst_plain (drop (j + 1) rs))"
      using 1 True s j by simp
    moreover have "drop i rs = slice rs i (j + 1) @ drop (j + 1) rs"
      using slice_drop [of i "j + 1" rs] j by simp
    ultimately show ?thesis using subst_step_content [OF True s]
      by (simp add: union_assoc)
  qed
qed

lemma subst_loop_short:
  assumes "\<And>x. x \<in> set (sb_subs sc) \<Longrightarrow> length x < length rs" "length (sb_buf sc) \<le> i"
  shows "(\<forall>x \<in> set (sb_subs (subst_loop rs i sc)). length x < length rs)
    \<and> length (sb_buf (subst_loop rs i sc)) \<le> max i (length rs)"
  using assms
proof (induction rs i sc rule: subst_loop.induct)
  case (1 rs i sc)
  show ?case
  proof (cases "i < length rs")
    case False
    then have "subst_loop rs i sc = sc" by (simp add: subst_loop.simps [of rs i])
    then show ?thesis using 1 by simp
  next
    case True
    obtain sc' j where s: "subst_step rs i sc = (sc', j)" by fastforce
    have "(\<forall>x \<in> set (sb_subs sc'). length x < length rs) \<and> length (sb_buf sc') \<le> j + 1 \<and> j < length rs"
      using True s
    proof (cases rule: subst_step_cases)
      case copy
      then show ?thesis using 1 by (auto simp: slice_def)
    next
      case (cut a)
      then show ?thesis using 1 by (auto simp: slice_def)
    qed
    then show ?thesis using 1(1) [OF True s [symmetric]] True s by (simp add: subst_loop.simps [of rs i])
  qed
qed

lemma extract_short:
  "extract_substitutions s = (outer, subs) \<Longrightarrow> x \<in> set subs \<Longrightarrow> length x < length s"
  using subst_loop_short [of "\<lparr>sb_buf = [], sb_subs = [], sb_single = False, sb_double = False\<rparr>" s 0]
  by (auto simp: extract_substitutions_def Let_def)

section \<open>Heredocs\<close>

definition is_word_rune :: "char \<Rightarrow> bool" where
  "is_word_rune c =
     (c = CHR ''_'' \<or> (CHR ''0'' \<le> c \<and> c \<le> CHR ''9'') \<or> (CHR ''a'' \<le> c \<and> c \<le> CHR ''z'')
      \<or> (CHR ''A'' \<le> c \<and> c \<le> CHR ''Z''))"

text \<open>The last loop of \<open>heredocWord\<close>; no quote is the rune 0 of the code.\<close>

function word_loop :: "char option \<Rightarrow> string \<Rightarrow> nat \<Rightarrow> string \<Rightarrow> string \<times> nat" where
  "word_loop quote rs i word =
     (if i < length rs then
        (if quote \<noteq> None \<and> Some (rs ! i) = quote then (word, i)
         else if quote = None \<and> \<not> is_word_rune (rs ! i) then (word, i - 1)
         else word_loop quote rs (i + 1) (word @ [rs ! i]))
      else (word, i))"
  by pat_completeness auto
termination by (relation "measure (\<lambda>(q, rs, i, w). length rs - i)") auto

declare word_loop.simps [simp del]

definition heredoc_word :: "string \<Rightarrow> nat \<Rightarrow> string \<times> nat" where
  "heredoc_word rs i0 =
     (let i1 = (if cur rs i0 CHR ''-'' then i0 + 1 else i0);
          i2 = i1 + length (takeWhile (\<lambda>c. c = CHR '' '' \<or> c = tab) (drop i1 rs))
      in if i2 \<ge> length rs then ([], i2)
         else if rs ! i2 = squote \<or> rs ! i2 = dquote then word_loop (Some (rs ! i2)) rs (i2 + 1) []
         else word_loop None rs i2 [])"

lemma word_loop_range: "word_loop q rs i w = (w', j) \<Longrightarrow> i \<le> j + 1"
  by (induction q rs i w rule: word_loop.induct)
    (subst (asm) (2) word_loop.simps, fastforce split: if_splits)

lemma heredoc_word_range: "heredoc_word rs i = (w, j) \<Longrightarrow> i \<le> j + 1"
  by (auto simp: heredoc_word_def Let_def dest!: word_loop_range split: if_splits)

function heredoc_loop :: "string \<Rightarrow> nat \<Rightarrow> bool \<Rightarrow> bool \<Rightarrow> string list \<Rightarrow> string list" where
  "heredoc_loop rs i in_single in_double words =
     (if i < length rs then
        (let c = rs ! i in
         if in_single then heredoc_loop rs (i + 1) (c \<noteq> squote) in_double words
         else if in_double then heredoc_loop rs (i + 1) in_single (c \<noteq> dquote) words
         else if c = squote then heredoc_loop rs (i + 1) True in_double words
         else if c = dquote then heredoc_loop rs (i + 1) in_single True words
         else if c = CHR ''<'' \<and> cur rs (i + 1) CHR ''<'' then
           (case heredoc_word rs (i + 2) of
              (w, j) \<Rightarrow> heredoc_loop rs (j + 1) in_single in_double (if w \<noteq> [] then words @ [w] else words))
         else heredoc_loop rs (i + 1) in_single in_double words)
      else words)"
  by pat_completeness auto
termination
proof (relation "measure (\<lambda>(rs, i, q, d, w). length rs - i)", goal_cases)
  case (6 rs i q d words c w j)
  have "heredoc_word rs (i + 2) = (w, j)" using 6 by simp
  then have "i + 2 \<le> j + 1" by (rule heredoc_word_range)
  with 6(1) show ?case by simp
qed auto

declare heredoc_loop.simps [simp del]

definition heredoc_terminators :: "string \<Rightarrow> string list" where
  "heredoc_terminators line = heredoc_loop line 0 False False []"

text \<open>The inner loop of \<open>stripHeredocBodies\<close>: what is left after the line that ends the body.\<close>

definition skip_body :: "string list \<Rightarrow> string \<Rightarrow> string list" where
  "skip_body rest want = drop 1 (dropWhile (\<lambda>l. trim_space l \<noteq> want) rest)"

lemma length_skip_body: "length (skip_body rest want) \<le> length rest"
  by (simp add: skip_body_def) (metis diff_le_self le_trans length_dropWhile_le)

lemma length_skip_bodies: "length (foldl skip_body rest ws) \<le> length rest"
  by (induction ws arbitrary: rest) (auto intro: le_trans [OF _ length_skip_body])

function strip_lines :: "string list \<Rightarrow> string list" where
  "strip_lines [] = []"
| "strip_lines (l # rest) = l # strip_lines (foldl skip_body rest (heredoc_terminators l))"
  by pat_completeness auto
termination
  by (relation "measure length") (auto simp: less_Suc_eq_le length_skip_bodies)

definition strip_heredoc_bodies :: "string \<Rightarrow> string" where
  "strip_heredoc_bodies command = join_with [nl] (strip_lines (split_byte nl command))"

lemma subseq_skip_body: "subseq (skip_body rest w) rest"
  unfolding skip_body_def
  by (metis (no_types, lifting) suffix_drop suffix_dropWhile suffix_imp_subseq suffix_order.trans)

lemma subseq_skip_bodies: "subseq (foldl skip_body rest ws) rest"
  by (induction ws arbitrary: rest)
    (auto intro: subseq_order.trans [OF _ subseq_skip_body])

lemma subseq_strip_lines: "subseq (strip_lines ls) ls"
  by (induction ls rule: strip_lines.induct)
    (auto intro: subseq_order.trans [OF _ subseq_skip_bodies])

lemma length_join_subseq:
  "subseq xs ys \<Longrightarrow> xs \<noteq> [] \<or> ys = [] \<Longrightarrow> length (join_with [c] xs) \<le> length (join_with [c] ys)"
proof -
  have len: "length (join_with [c] zs) = sum_list (map length zs) + length zs - 1" for zs
    by (induction zs rule: induct_list012) auto
  have "sum_list (map length xs) \<le> sum_list (map length ys)" "length xs \<le> length ys" if "subseq xs ys"
    using that by (induction rule: list_emb.induct) auto
  then show "subseq xs ys \<Longrightarrow> xs \<noteq> [] \<or> ys = [] \<Longrightarrow>
      length (join_with [c] xs) \<le> length (join_with [c] ys)"
    unfolding len by (meson add_le_mono diff_le_mono)
qed

lemma strip_heredoc_length: "length (strip_heredoc_bodies s) \<le> length s"
proof -
  have "strip_lines (split_byte nl s) \<noteq> []"
    by (cases "split_byte nl s") auto
  then have "length (strip_heredoc_bodies s) \<le> length (join_with [nl] (split_byte nl s))"
    unfolding strip_heredoc_bodies_def by (intro length_join_subseq subseq_strip_lines) simp
  then show ?thesis by (simp add: join_split_byte)
qed

section \<open>Properties\<close>

definition shell_plain :: "char \<Rightarrow> bool" where
  "shell_plain c = (\<not> is_space c \<and> c \<notin> set '';&|$()'' \<and> c \<noteq> backtick \<and> c \<noteq> squote \<and> c \<noteq> dquote)"

lemma filter_weaken:
  "filter P xs = filter P ys \<Longrightarrow> (\<And>c. Q c \<Longrightarrow> P c) \<Longrightarrow> filter Q xs = filter Q ys"
proof -
  assume e: "filter P xs = filter P ys" and "\<And>c. Q c \<Longrightarrow> P c"
  then have "filter Q zs = filter Q (filter P zs)" for zs by (auto simp: filter_filter intro: filter_cong)
  with e show ?thesis by metis
qed

lemma split_sequence_plain:
  "filter shell_plain (concat (split_sequence s)) = filter shell_plain s"
  using seq.split_kept [of s] unfolding split_sequence_def
  by (rule filter_weaken) (auto simp: shell_plain_def seq.kept_def)

lemma split_pipeline_plain:
  "filter shell_plain (concat (split_pipeline s)) = filter shell_plain s"
  using pipe.split_kept [of s] unfolding split_pipeline_def
  by (rule filter_weaken) (auto simp: shell_plain_def pipe.kept_def)

lemma tokenize_plain: "filter shell_plain (concat (tokenize s)) = filter shell_plain s"
  using tokenize_chars [of s] by (rule filter_weaken) (auto simp: shell_plain_def word_char_def)

lemma filter_concat_map:
  "(\<And>x. filter P (concat (f x)) = filter P x) \<Longrightarrow>
     filter P (concat (concat (map f xs))) = filter P (concat xs)"
  by (induction xs) simp_all

lemma extract_plain:
  assumes "extract_substitutions s = (outer, subs)"
  shows "mset (filter shell_plain (outer @ concat subs)) = mset (filter shell_plain s)"
proof -
  have "mset (filter subst_plain (outer @ concat subs)) = mset (filter subst_plain s)"
    using assms subst_loop_content [of 0 s "\<lparr>sb_buf = [], sb_subs = [], sb_single = False, sb_double = False\<rparr>"]
    by (auto simp: extract_substitutions_def Let_def subst_content_def)
  then have "filter_mset shell_plain (mset (filter subst_plain (outer @ concat subs))) =
      filter_mset shell_plain (mset (filter subst_plain s))" by simp
  moreover have "filter_mset shell_plain (mset (filter subst_plain zs)) = mset (filter shell_plain zs)" for zs
    by (simp add: mset_filter [symmetric] filter_filter del: mset_filter)
      (rule arg_cong [of _ _ mset], auto simp: shell_plain_def subst_plain_def intro: filter_cong)
  ultimately show ?thesis by simp
qed

text \<open>
  The hand-written readers hide nothing from the classifier. Taken together, the words of
  every stage of every sequence element of the text around the substitutions, and the texts of the
  substitutions, hold every character of the command but white space, quotes, operators and
  substitution delimiters.
\<close>

theorem split_loses_nothing:
  fixes s :: string
  defines "outer \<equiv> fst (extract_substitutions s)" and "subs \<equiv> snd (extract_substitutions s)"
  defines "stages \<equiv> concat (map split_pipeline (split_sequence outer))"
  shows "mset (filter shell_plain (concat (concat (map tokenize stages)) @ concat subs)) =
     mset (filter shell_plain s)"
proof -
  have "filter shell_plain (concat (concat (map tokenize stages))) = filter shell_plain (concat stages)"
    by (rule filter_concat_map) (rule tokenize_plain)
  also have "\<dots> = filter shell_plain (concat (split_sequence outer))"
    unfolding stages_def by (rule filter_concat_map) (rule split_pipeline_plain)
  also have "\<dots> = filter shell_plain outer" by (rule split_sequence_plain)
  finally show ?thesis using extract_plain [of s outer subs]
    by (simp add: outer_def subs_def)
qed

text \<open>
  A heredoc's body is dropped, and nothing else. When a line opens one heredoc, the lines up
  to and including the first that trims to its terminator are gone, and reading goes on with the
  line after it.
\<close>

theorem heredoc_body_dropped:
  assumes "heredoc_terminators line = [want]"
    and "\<forall>l \<in> set body. trim_space l \<noteq> want" and "trim_space stop = want"
  shows "strip_lines (line # body @ stop # rest) = line # strip_lines rest"
proof -
  have "dropWhile (\<lambda>l. trim_space l \<noteq> want) (body @ stop # rest) = stop # rest"
    using assms(2,3) by (induction body) auto
  then show ?thesis using assms(1) by (simp add: skip_body_def)
qed

lemma demo_heredoc: "heredoc_terminators ''cat <<EOF'' = [''EOF'']"
  by code_simp

theorem heredoc_body_dropped_witness:
  "strip_lines [''cat <<EOF'', ''rm -rf /'', ''EOF'', ''ls''] = [''cat <<EOF'', ''ls'']"
proof -
  have "heredoc_terminators ''ls'' = []" by code_simp
  then have "strip_lines [''ls''] = [''ls'']" by simp
  moreover have "\<forall>l \<in> set [''rm -rf /'']. trim_space l \<noteq> ''EOF''" "trim_space ''EOF'' = ''EOF''"
    by code_simp+
  ultimately show ?thesis
    using heredoc_body_dropped [OF demo_heredoc, of "[''rm -rf /'']" "''EOF''" "[''ls'']"] by simp
qed

end
