(* ===== verification/GuardRules.thy ===== *)
theory GuardRules
  imports GuardSplit GoPath
begin

text \<open>
  The rules of \<open>internal/guard\<close>: verdicts and their order (\<open>guard.go\<close>), the environment and its
  path expansion (\<open>env.go\<close>), the allowlist (\<open>allow.go\<close>, \<open>ecosystem.go\<close>), the protected paths
  (\<open>protected.go\<close>), redirections (\<open>writes.go\<close>) and the rule of every command (\<open>rules.go\<close>).
  Sets and maps of literals are lists here. \<open>replace_bare\<close> may loop for ever when a value names
  its own variable, so it and what depends on it return an option whose \<open>None\<close> is not returning.
\<close>

section \<open>Verdicts\<close>

datatype verdict = Allow | NeedsApproval | Refuse

fun rank :: "verdict \<Rightarrow> nat" where
  "rank Refuse = 2"
| "rank NeedsApproval = 1"
| "rank Allow = 0"

definition worse :: "verdict \<Rightarrow> verdict \<Rightarrow> bool" where
  "worse v other = (rank v > rank other)"

lemma rank_inj: "rank a = rank b \<longleftrightarrow> a = b"
  by (cases a; cases b) simp_all

instantiation verdict :: linorder
begin

definition less_eq_verdict :: "verdict \<Rightarrow> verdict \<Rightarrow> bool" where
  "less_eq_verdict a b = (rank a \<le> rank b)"

definition less_verdict :: "verdict \<Rightarrow> verdict \<Rightarrow> bool" where
  "less_verdict a b = (rank a < rank b)"

instance
  by standard (auto simp: less_eq_verdict_def less_verdict_def rank_inj)

end

lemma verdict_order [simp]:
  "Allow \<le> v" "v \<le> Refuse" "v \<le> Allow \<longleftrightarrow> v = Allow" "Refuse \<le> v \<longleftrightarrow> v = Refuse"
  by (cases v; simp add: less_eq_verdict_def)+

record finding =
  verdict :: verdict
  reason :: string
  fragment :: string

definition mk_finding :: "verdict \<Rightarrow> string \<Rightarrow> string \<Rightarrow> finding" where
  "mk_finding v r f = \<lparr>verdict = v, reason = r, fragment = f\<rparr>"

lemma mk_finding_simps [simp]:
  "verdict (mk_finding v r f) = v" "reason (mk_finding v r f) = r" "fragment (mk_finding v r f) = f"
  by (simp_all add: mk_finding_def)

definition reason_no_match :: string where
  "reason_no_match = ''no destructive pattern matched''"

text \<open>One turn of the loop of \<open>worst\<close>.\<close>

definition pick_worse :: "finding \<Rightarrow> finding \<Rightarrow> finding" where
  "pick_worse best f = (if rank (verdict f) > rank (verdict best) then f else best)"

definition worst :: "finding list \<Rightarrow> string \<Rightarrow> finding" where
  "worst findings whole = foldl pick_worse (mk_finding Allow reason_no_match whole) findings"

lemma pick_worse_ge: "verdict b \<le> verdict (pick_worse b f)" "verdict f \<le> verdict (pick_worse b f)"
  "pick_worse b f = b \<or> pick_worse b f = f"
  by (auto simp: pick_worse_def less_eq_verdict_def)

lemma foldl_worst_ge: "verdict b \<le> verdict (foldl pick_worse b fs)"
  by (induction fs arbitrary: b) (auto intro: order.trans [OF pick_worse_ge(1)])

lemma foldl_worst:
  "f \<in> set fs \<Longrightarrow> verdict f \<le> verdict (foldl pick_worse b fs)"
  "foldl pick_worse b fs \<in> insert b (set fs)"
proof (induction fs arbitrary: b)
  case (Cons g gs)
  { case 1
    show ?case
      using 1 Cons.IH(1) [of "pick_worse b g"] order.trans [OF pick_worse_ge(2) foldl_worst_ge]
      by auto
  next
    case 2
    show ?case using Cons.IH(2) [of "pick_worse b g"] pick_worse_ge(3) [of b g] by auto
  }
qed simp_all

lemma worst_ge: "f \<in> set fs \<Longrightarrow> verdict f \<le> verdict (worst fs w)"
  unfolding worst_def by (rule foldl_worst(1))

lemma worst_in: "worst fs w = mk_finding Allow reason_no_match w \<or> worst fs w \<in> set fs"
  using foldl_worst(2) [of "mk_finding Allow reason_no_match w" fs] by (auto simp: worst_def)

lemma worst_verdict_iff:
  "v \<noteq> Allow \<Longrightarrow> v \<le> verdict (worst fs w) \<longleftrightarrow> (\<exists>f \<in> set fs. v \<le> verdict f)"
  using worst_in [of fs w] worst_ge by (auto intro: order.trans)

lemma worst_allow: "verdict (worst fs w) = Allow \<longleftrightarrow> (\<forall>f \<in> set fs. verdict f = Allow)"
  using worst_in [of fs w] worst_ge [of _ fs w] by force

lemma worst_refuse: "verdict (worst fs w) = Refuse \<longleftrightarrow> (\<exists>f \<in> set fs. verdict f = Refuse)"
  using worst_in [of fs w] worst_ge [of _ fs w] by force

section \<open>The environment\<close>

record env =
  project_root :: string
  home :: string
  temp_dir :: string
  allowed_commands :: "string list"
  colocated_jj :: bool

definition is_word_char :: "char \<Rightarrow> bool" where
  "is_word_char r =
     (r = CHR ''_'' \<or> (CHR ''0'' \<le> r \<and> r \<le> CHR ''9'') \<or> (CHR ''a'' \<le> r \<and> r \<le> CHR ''z'')
      \<or> (CHR ''A'' \<le> r \<and> r \<le> CHR ''Z''))"

partial_function (option) replace_bare :: "string \<Rightarrow> string \<Rightarrow> string \<Rightarrow> string option" where
  "replace_bare s name value =
     (case index_of s (CHR ''$'' # name) of
        None \<Rightarrow> Some s
      | Some i \<Rightarrow>
          (if i + length name + 1 < length s \<and> is_word_char (s ! (i + length name + 1)) then Some s
           else replace_bare (take i s @ value @ drop (i + length name + 1) s) name value))"

declare replace_bare.simps [code]

definition replace_var :: "string \<Rightarrow> string \<Rightarrow> string \<Rightarrow> string option" where
  "replace_var s name value = replace_bare (replace_all s (''${'' @ name @ ''}'') value) name value"

definition unresolved_chars :: string where
  "unresolved_chars = ''$'' @ [backtick] @ ''*?[]{}''"

text \<open>The tilde part of \<open>expandPath\<close>, under its \<open>Home != ""\<close> guard.\<close>

definition expand_tilde :: "string \<Rightarrow> string \<Rightarrow> string" where
  "expand_tilde hm out =
     (if out = ''~'' then hm
      else (case cut_prefix out ''~/'' of Some rest \<Rightarrow> path_join hm rest | None \<Rightarrow> out))"

definition expand_path :: "env \<Rightarrow> string \<Rightarrow> (string \<times> bool) option" where
  "expand_path e target =
     Option.bind (if home e \<noteq> [] then replace_var (expand_tilde (home e) target) ''HOME'' (home e)
                  else Some target) (\<lambda>o1.
     Option.bind (if temp_dir e \<noteq> [] then replace_var o1 ''TMPDIR'' (temp_dir e) else Some o1) (\<lambda>o2.
     Option.bind (if project_root e \<noteq> [] then replace_var o2 ''PWD'' (project_root e) else Some o2) (\<lambda>o3.
     Some (o3, \<not> contains_any o3 unresolved_chars))))"

text \<open>The replacement loop ends when the value holds no variable sign: each turn removes one.\<close>

lemma replace_bare_ends:
  assumes "CHR ''$'' \<notin> set value"
  shows "\<exists>r. replace_bare s name value = Some r"
proof (induction "count_byte s CHR ''$''" arbitrary: s rule: less_induct)
  case less
  show ?case
  proof (cases "index_of s (CHR ''$'' # name)")
    case None
    then show ?thesis by (subst replace_bare.simps) simp
  next
    case (Some i)
    let ?s' = "take i s @ value @ drop (i + length name + 1) s"
    have "s = take i s @ (CHR ''$'' # name) @ drop (i + length (CHR ''$'' # name)) s"
      by (rule index_of_Some_split [OF Some])
    then have "count_byte s CHR ''$'' = count_byte (take i s) CHR ''$'' + 1 + count_byte name CHR ''$''
        + count_byte (drop (i + length name + 1) s) CHR ''$''"
      by (metis (no_types, lifting) add.assoc add.commute append_Cons count_byte_append
          count_byte_simps(2) length_Cons plus_1_eq_Suc)
    moreover have "count_byte value CHR ''$'' = 0"
      using assms by (auto simp: count_byte_def filter_empty_conv)
    ultimately have "count_byte ?s' CHR ''$'' < count_byte s CHR ''$''" by simp
    from less [OF this] Some show ?thesis by (subst replace_bare.simps) auto
  qed
qed

definition plain_env :: "env \<Rightarrow> bool" where
  "plain_env e = (CHR ''$'' \<notin> set (home e) \<and> CHR ''$'' \<notin> set (temp_dir e) \<and> CHR ''$'' \<notin> set (project_root e))"

lemma replace_var_ends: "CHR ''$'' \<notin> set value \<Longrightarrow> \<exists>r. replace_var s name value = Some r"
  unfolding replace_var_def by (rule replace_bare_ends)

lemma expand_path_ends:
  assumes "plain_env e"
  shows "\<exists>r. expand_path e target = Some r"
proof -
  have d: "CHR ''$'' \<notin> set (home e)" "CHR ''$'' \<notin> set (temp_dir e)" "CHR ''$'' \<notin> set (project_root e)"
    using assms by (simp_all add: plain_env_def)
  obtain o1 where 1: "(if home e \<noteq> [] then replace_var (expand_tilde (home e) target) ''HOME'' (home e)
      else Some target) = Some o1"
    using replace_var_ends [OF d(1)] by fastforce
  obtain o2 where 2: "(if temp_dir e \<noteq> [] then replace_var o1 ''TMPDIR'' (temp_dir e) else Some o1) = Some o2"
    using replace_var_ends [OF d(2)] by fastforce
  obtain o3 where 3: "(if project_root e \<noteq> [] then replace_var o2 ''PWD'' (project_root e) else Some o2) = Some o3"
    using replace_var_ends [OF d(3)] by fastforce
  show ?thesis unfolding expand_path_def 1 2 3 bind.bind_lunit by blast
qed

section \<open>The allowlist\<close>

definition default_allowed :: "string list" where
  "default_allowed =
     [''awk'', ''basename'', ''cat'', ''cd'', ''chmod'', ''chown'', ''cksum'',
      ''comm'', ''cp'', ''cut'', ''date'', ''diff'',
      ''dirname'', ''du'', ''echo'', ''expr'', ''false'',
      ''file'', ''go'', ''gofmt'', ''golangci-lint'', ''grep'',
      ''head'', ''hk'', ''jq'', ''ln'', ''ls'',
      ''mise'', ''mkdir'', ''mktemp'', ''mv'', ''pkl'',
      ''printf'', ''pwd'', ''readlink'', ''realpath'', ''rg'',
      ''rm'', ''sed'', ''seq'', ''sort'', ''stat'',
      ''tail'', ''tee'', ''test'', ''touch'', ''tr'',
      ''tree'', ''true'', ''uniq'', ''wc'', ''which'',
      ''xargs'', ''yq'']"

text \<open>A token \<open>NAME=value\<close> that \<open>withoutAssignments\<close> skips.\<close>

definition is_assignment :: "string \<Rightarrow> bool" where
  "is_assignment tok =
     (case find_index (\<lambda>c. c = CHR ''='') tok of
        None \<Rightarrow> False
      | Some eq \<Rightarrow> \<not> (eq = 0 \<or> contains_any (take eq tok) ''/.-''))"

definition without_assignments :: "string list \<Rightarrow> string list" where
  "without_assignments tokens = dropWhile is_assignment tokens"

definition reason_unlisted :: string where
  "reason_unlisted = '' is not on the list of commands that run without asking''"

definition project_relative :: "string \<Rightarrow> bool" where
  "project_relative prog =
     (if \<not> contains prog ''/'' \<or> has_prefix prog ''/'' then False
      else \<not> has_prefix prog ''../'' \<and> \<not> contains prog ''/../'')"

definition vouched_for :: "env \<Rightarrow> string \<Rightarrow> bool" where
  "vouched_for e name = list_ex (\<lambda>extra. trim_space extra = name) (allowed_commands e)"

definition allowed :: "env \<Rightarrow> string \<Rightarrow> string \<Rightarrow> bool" where
  "allowed e prog name =
     (if project_relative prog then True
      else if name \<in> set default_allowed then True
      else list_ex (\<lambda>extra. trim_space extra = name) (allowed_commands e))"

definition ecosystems :: "(string \<times> string list) list" where
  "ecosystems =
     [(''go'', [''gopls'', ''gotestsum'', ''staticcheck'']),
      (''javascript'',
        [''bun'', ''bunx'', ''deno'', ''eslint'', ''node'', ''npm'', ''npx'', ''pnpm'',
         ''prettier'', ''tsc'', ''tsx'', ''vitest'', ''yarn'']),
      (''python'',
        [''basedpyright'', ''mypy'', ''pip'', ''poetry'', ''py.test'', ''pyright'', ''pytest'',
         ''python'', ''python3'', ''ruff'', ''ty'', ''uv'', ''uvx'']),
      (''ruby'', [''bundle'', ''gem'', ''rake'', ''rspec'', ''rubocop'', ''ruby'']),
      (''rust'', [''cargo'', ''clippy-driver'', ''rustc'', ''rustfmt'']),
      (''zig'', [''zig''])]"

definition ecosystem_commands :: "string list \<Rightarrow> string list" where
  "ecosystem_commands names =
     sort_strings (dedup [] (concat (map (\<lambda>name.
       case map_of ecosystems (to_lower (trim_space name)) of None \<Rightarrow> [] | Some cmds \<Rightarrow> cmds) names)))"

section \<open>Protected paths\<close>

definition repo_internals :: "string list" where
  "repo_internals = [''.git'', ''.jj'']"

definition root_protected :: "string list" where
  "root_protected =
     [''.config/mise.toml'',
      ''.config/mise/conf.d'',
      ''.config/mise/config.toml'',
      ''.config/mise/tasks'',
      ''.github/workflows'',
      ''.mise-tasks'',
      ''.mise.local.toml'',
      ''.mise.toml'',
      ''.mise/config.toml'',
      ''.mise/tasks'',
      ''.wavez.pkl'',
      ''.wavez/approvals.jsonl'',
      ''hk.pkl'',
      ''mise-tasks'',
      ''mise.local.toml'',
      ''mise.toml'',
      ''mise/config.toml'',
      ''mise/tasks'']"

definition repo_exec_paths :: "string list" where
  "repo_exec_paths = [''config'', ''hooks'']"

definition reason_protected :: string where
  "reason_protected = ''governs what a later command may run without asking, so no tool may write it; ''
     @ ''ask the user to make this change by hand''"

definition clean_root :: "string \<Rightarrow> string" where
  "clean_root root = (if root = [] then root else clean root)"

definition protected_rel :: "string \<Rightarrow> string" where
  "protected_rel rel =
     (if rel = ''.'' \<or> has_prefix rel ''../'' then []
      else (case find (\<lambda>part. part \<in> set repo_internals) (split_byte CHR ''/'' rel) of
              Some dir \<Rightarrow> dir @ ''/''
            | None \<Rightarrow>
                (case find (\<lambda>p. rel = p \<or> has_prefix rel (p @ ''/'')) root_protected of
                   Some p \<Rightarrow> (if rel = p then p else p @ ''/'')
                 | None \<Rightarrow> [])))"

definition protected_write :: "string \<Rightarrow> string \<Rightarrow> string" where
  "protected_write root target =
     (case path_rel (clean_root root) (clean target) of None \<Rightarrow> [] | Some rel \<Rightarrow> protected_rel rel)"

definition protected_target :: "string \<Rightarrow> string \<Rightarrow> string" where
  "protected_target tok root =
     (if is_abs tok then protected_write root tok else protected_rel (clean tok))"

section \<open>Redirections\<close>

definition strip_fd :: "string \<Rightarrow> string" where
  "strip_fd word = trim_left word ''0123456789''"

definition is_write_redirect :: "string \<Rightarrow> bool" where
  "is_write_redirect word =
     (strip_fd word \<in> set [''>'', ''>>'', ''>|'', ''>&'', ''>>&'', ''&>'', ''&>>'', ''<>''])"

definition is_redirect :: "string \<Rightarrow> bool" where
  "is_redirect word =
     (is_write_redirect word \<or> strip_fd word \<in> set [''<'', ''<<'', ''<<-'', ''<<<'', ''<&''])"

fun args_only :: "string list \<Rightarrow> string list" where
  "args_only [] = []"
| "args_only (w # ws) = (if \<not> is_redirect w then w # args_only ws else args_only (tl ws))"

text \<open>The loop of \<open>writesProtected\<close>; \<open>first\<close> marks the token at index 0.\<close>

fun protected_loop :: "env \<Rightarrow> bool \<Rightarrow> bool \<Rightarrow> string list \<Rightarrow> string option" where
  "protected_loop e is_writer first [] = None"
| "protected_loop e is_writer first (tok # toks) =
     (if tok = ''>'' \<or> tok = ''>>'' then protected_loop e True False toks
      else if \<not> is_writer \<or> first then protected_loop e is_writer False toks
      else if protected_target tok (project_root e) \<noteq> [] then
        Some (''writes '' @ protected_target tok (project_root e) @ '', which '' @ reason_protected)
      else protected_loop e is_writer False toks)"

definition writes_protected :: "string list \<Rightarrow> env \<Rightarrow> string option" where
  "writes_protected tokens e =
     protected_loop e
       (path_base (hd tokens) \<in> set [''rm'', ''mv'', ''cp'', ''tee'', ''truncate'']) True tokens"

section \<open>The rule of each command\<close>

definition base_name :: "string \<Rightarrow> string" where
  "base_name cmd = path_base cmd"

definition shell_interpreters :: "string list" where
  "shell_interpreters = [''sh'', ''bash'', ''zsh'', ''dash'', ''ksh'', ''fish'']"

definition fetch_commands :: "string list" where
  "fetch_commands = [''curl'', ''wget'']"

definition diskutil_destructive :: "string list" where
  "diskutil_destructive = [''eraseDisk'', ''eraseVolume'', ''zeroDisk'', ''partitionDisk'', ''eraseAllDisk'']"

text \<open>The loop of \<open>pipeToShellReason\<close> and \<open>pipeToShellStages\<close> over the words of the stages.\<close>

fun fetch_into_shell :: "bool \<Rightarrow> string list list \<Rightarrow> bool" where
  "fetch_into_shell saw [] = False"
| "fetch_into_shell saw (tokens # rest) =
     (case tokens of
        [] \<Rightarrow> fetch_into_shell saw rest
      | h # _ \<Rightarrow>
          if h \<in> set fetch_commands then fetch_into_shell True rest
          else if saw \<and> base_name h \<in> set shell_interpreters then True
          else fetch_into_shell saw rest)"

definition reason_pipe_to_shell :: string where
  "reason_pipe_to_shell = ''pipes a network fetch into a shell interpreter''"

definition pipe_to_shell :: "string list list \<Rightarrow> string option" where
  "pipe_to_shell stages =
     (if length stages < 2 then None
      else if fetch_into_shell False stages then Some reason_pipe_to_shell else None)"

definition pipe_to_shell_reason :: "string \<Rightarrow> string option" where
  "pipe_to_shell_reason pipe = pipe_to_shell (map tokenize (split_pipeline pipe))"

definition is_fork_bomb :: "string \<Rightarrow> bool" where
  "is_fork_bomb cmd = contains (concat (GoStrings.fields cmd)) '':(){:|:&};:''"

fun has_recursive_force_loop :: "bool \<Rightarrow> bool \<Rightarrow> string list \<Rightarrow> bool" where
  "has_recursive_force_loop r f [] = (r \<and> f)"
| "has_recursive_force_loop r f (tok # toks) =
     (if \<not> has_prefix tok ''-'' then has_recursive_force_loop r f toks
      else if tok = ''--recursive'' then has_recursive_force_loop True f toks
      else if tok = ''--force'' then has_recursive_force_loop r True toks
      else if has_prefix tok ''--'' then has_recursive_force_loop r f toks
      else has_recursive_force_loop (r \<or> contains_any (tl tok) ''rR'') (f \<or> contains (tl tok) ''f'') toks)"

definition has_recursive_force :: "string list \<Rightarrow> bool" where
  "has_recursive_force tokens = has_recursive_force_loop False False (tl tokens)"

definition is_outside_or_at_root :: "string \<Rightarrow> string \<Rightarrow> bool" where
  "is_outside_or_at_root target root =
     (if target = ''/'' \<or> target = ''~'' \<or> target = ''$HOME'' \<or> has_prefix target ''~/'' then True
      else
        (let p = (if is_abs target then clean target else clean (path_join root target)) in
         if p = root then True
         else (case path_rel root p of
                 None \<Rightarrow> True
               | Some rel \<Rightarrow> rel = ''..'' \<or> has_prefix rel ''../'')))"

definition rule_targets :: "string list \<Rightarrow> string list" where
  "rule_targets tokens = filter (\<lambda>tok. \<not> has_prefix tok ''-'') (tl (args_only tokens))"

fun rm_targets :: "string \<Rightarrow> env \<Rightarrow> string list \<Rightarrow> finding option" where
  "rm_targets cmd e [] = Some (mk_finding Allow ''rm -rf scoped inside the project root'' cmd)"
| "rm_targets cmd e (target # rest) =
     Option.bind (expand_path e target) (\<lambda>(expanded, resolved).
       if \<not> resolved then
         Some (mk_finding NeedsApproval
           (''rm -rf targets '' @ target @ '', which does not resolve to one location'') cmd)
       else if is_outside_or_at_root expanded (project_root e) then
         Some (mk_finding Refuse
           (''rm -rf targets '' @ expanded @ '', which is at or outside the project root'') cmd)
       else rm_targets cmd e rest)"

definition classify_rm :: "string \<Rightarrow> string list \<Rightarrow> env \<Rightarrow> finding option" where
  "classify_rm cmd tokens e =
     (if \<not> has_recursive_force tokens then Some (mk_finding Allow reason_no_match cmd)
      else if rule_targets tokens = [] then
        Some (mk_finding NeedsApproval ''rm -rf with no resolvable target'' cmd)
      else rm_targets cmd e (rule_targets tokens))"

definition git_read_only :: "string list" where
  "git_read_only =
     [''blame'', ''cat-file'', ''config'', ''describe'', ''diff'', ''grep'', ''log'', ''ls-files'',
      ''ls-remote'', ''rev-parse'', ''shortlog'', ''show'', ''status'']"

definition reason_force_push :: string where
  "reason_force_push = ''a force push overwrites history on the remote and cannot be undone from here''"

definition forced_push :: "string list \<Rightarrow> bool" where
  "forced_push args = list_ex (\<lambda>tok. tok = ''--force'' \<or> tok = ''-f'' \<or> tok = ''--force-with-lease''
     \<or> has_prefix tok ''--force-with-lease='') args"

definition third_token :: "string list \<Rightarrow> string" where
  "third_token tokens = (if length tokens > 2 then tokens ! 2 else [])"

definition classify_git_stash :: "string \<Rightarrow> string list \<Rightarrow> finding" where
  "classify_git_stash cmd tokens =
     (let sub = third_token tokens in
      if sub = ''list'' \<or> sub = ''show'' then mk_finding Allow reason_no_match cmd
      else if sub = ''drop'' \<or> sub = ''clear'' then
        mk_finding Refuse ''discards stashed work irrecoverably'' cmd
      else mk_finding NeedsApproval ''moves uncommitted work out of the working copy'' cmd)"

definition classify_git :: "string \<Rightarrow> string list \<Rightarrow> env \<Rightarrow> finding" where
  "classify_git cmd tokens e =
     (if length tokens < 2 then mk_finding Allow reason_no_match cmd
      else
        (let sub = tokens ! 1 in
         if colocated_jj e \<and> sub \<notin> set git_read_only then
           mk_finding Refuse
             ''this project is a colocated jj checkout, where jj owns the working copy; use jj'' cmd
         else if sub = ''push'' \<and> forced_push (drop 2 tokens) then
           mk_finding Refuse reason_force_push cmd
         else if sub = ''reset'' \<and> ''--hard'' \<in> set (drop 2 tokens) then
           mk_finding NeedsApproval ''git reset --hard discards uncommitted work'' cmd
         else if sub = ''rebase'' \<or> sub = ''filter-branch'' \<or> sub = ''filter-repo'' then
           mk_finding NeedsApproval ''rewrites commit history'' cmd
         else if sub = ''stash'' then classify_git_stash cmd tokens
         else if sub = ''checkout'' \<or> sub = ''switch'' \<or> sub = ''restore'' then
           mk_finding NeedsApproval ''replaces files in the working copy'' cmd
         else if sub = ''clean'' then mk_finding NeedsApproval ''deletes untracked files'' cmd
         else if sub = ''worktree'' then
           mk_finding NeedsApproval ''adds a second working copy of this repository'' cmd
         else mk_finding Allow reason_no_match cmd))"

definition jj_discards :: "string \<Rightarrow> string \<Rightarrow> string option" where
  "jj_discards name sub =
     (if name = ''abandon'' then Some ''jj abandon discards a change and its descendants''
      else if name = ''restore'' then Some ''jj restore discards working-copy changes''
      else if name = ''undo'' then Some ''jj undo rewinds the last operation''
      else if name = ''op'' then
        (if sub = ''restore'' \<or> sub = ''undo'' then Some ''jj op rewinds the whole repository'' else None)
      else if name = ''workspace'' then
        (if sub = ''forget'' then Some ''jj workspace forget drops a working copy'' else None)
      else None)"

definition classify_jj :: "string \<Rightarrow> string list \<Rightarrow> finding" where
  "classify_jj cmd tokens =
     (if length tokens < 2 then mk_finding Allow reason_no_match cmd
      else
        (let sub = third_token tokens in
         case jj_discards (tokens ! 1) sub of
           Some why \<Rightarrow> mk_finding NeedsApproval why cmd
         | None \<Rightarrow>
             if tokens ! 1 = ''git'' \<and> sub = ''push'' \<and> forced_push (drop 3 tokens) then
               mk_finding Refuse reason_force_push cmd
             else mk_finding Allow reason_no_match cmd))"

definition classify_chmod_chown :: "string \<Rightarrow> string list \<Rightarrow> env \<Rightarrow> finding option" where
  "classify_chmod_chown cmd tokens e =
     (if rule_targets tokens = [] then
        Some (mk_finding NeedsApproval ''chmod/chown with no resolvable target'' cmd)
      else
        (let target = last (rule_targets tokens) in
         Option.bind (expand_path e target) (\<lambda>(expanded, resolved).
           Some (if \<not> resolved then
                   mk_finding NeedsApproval
                     (hd tokens @ '' targets '' @ target @ '', which does not resolve to one location'') cmd
                 else if is_outside_or_at_root expanded (project_root e) then
                   mk_finding Refuse
                     (hd tokens @ '' targets '' @ expanded @ '', which is outside the project root'') cmd
                 else mk_finding Allow reason_no_match cmd))))"

definition classify_dd :: "string \<Rightarrow> string list \<Rightarrow> finding" where
  "classify_dd cmd tokens =
     (if list_ex (\<lambda>tok. has_prefix tok ''of=/dev/'') (tl tokens)
      then mk_finding Refuse ''dd writes directly to a block device'' cmd
      else mk_finding NeedsApproval ''dd can overwrite arbitrary data'' cmd)"

definition classify_diskutil :: "string \<Rightarrow> string list \<Rightarrow> finding" where
  "classify_diskutil cmd tokens =
     (if length tokens \<ge> 2 \<and> tokens ! 1 \<in> set diskutil_destructive
      then mk_finding Refuse (''diskutil '' @ tokens ! 1 @ '' destroys disk contents'') cmd
      else mk_finding NeedsApproval ''diskutil can modify disk partitions'' cmd)"

definition classify_kill :: "string \<Rightarrow> string list \<Rightarrow> finding" where
  "classify_kill cmd tokens =
     (if ''-9'' \<in> set (tl tokens) \<and> ''-1'' \<in> set (tl tokens)
      then mk_finding Refuse ''kills every process the user owns'' cmd
      else mk_finding Allow reason_no_match cmd)"

definition killall_process_wide :: "string \<Rightarrow> string list \<Rightarrow> bool" where
  "killall_process_wide name tokens =
     (if name \<noteq> ''killall'' \<and> name \<noteq> ''pkill'' then False else ''-9'' \<in> set (tl tokens))"

definition superseded_tools :: "(string \<times> string) list" where
  "superseded_tools =
     [(''find'', ''list names what is under a directory (with a glob), and search reads ''
        @ ''contents through the code index''),
      (''truncate'', ''write replaces a whole file and str_replace replaces part of one''),
      (''git'', ''the harness owns version control; undo puts back a file this run edited''),
      (''jj'', ''the harness owns version control; undo puts back a file this run edited'')]"

definition fetches_dependencies :: "(string \<times> string list) list" where
  "fetches_dependencies =
     [(''cargo'', [''add'', ''fetch'', ''install'', ''update'']),
      (''go'', [''get'']),
      (''npm'', [''ci'', ''i'', ''install'', ''update'']),
      (''pip'', [''download'', ''install'', ''uninstall'']),
      (''pip3'', [''download'', ''install'', ''uninstall'']),
      (''pnpm'', [''add'', ''install'', ''update'']),
      (''uv'', [''add'', ''lock'', ''pip'', ''remove'', ''sync'', ''tool'']),
      (''yarn'', [''add'', ''install'', ''up''])]"

definition reason_no_network :: string where
  "reason_no_network = '' cannot reach the network here, and a partial run of it leaves the ''
     @ ''environment worse than it was. Say what the project needs installed instead''"

definition fetches_dependency :: "string \<Rightarrow> string list \<Rightarrow> string option" where
  "fetches_dependency prog tokens =
     (case map_of fetches_dependencies prog of
        None \<Rightarrow> None
      | Some subs \<Rightarrow>
          (case dropWhile (\<lambda>arg. has_prefix arg ''-'') tokens of
             arg # _ \<Rightarrow>
               if arg \<in> set subs then Some (prog @ '' '' @ arg)
               else if prog = ''uv'' \<and> ''--with'' \<in> set tokens then Some ''uv run --with'' else None
           | [] \<Rightarrow> if prog = ''uv'' \<and> ''--with'' \<in> set tokens then Some ''uv run --with'' else None))"

definition by_name :: "string \<Rightarrow> string \<Rightarrow> string \<Rightarrow> string list \<Rightarrow> env \<Rightarrow> finding list" where
  "by_name cmd prog name args e =
     (if \<not> allowed e prog name then [mk_finding NeedsApproval (name @ reason_unlisted) cmd] else [])
     @ (case map_of superseded_tools name of
          Some instead \<Rightarrow> [mk_finding Refuse (name @ '' is not available here: '' @ instead) cmd]
        | None \<Rightarrow> [])
     @ (case fetches_dependency name args of
          Some fetch \<Rightarrow> [mk_finding Refuse (fetch @ reason_no_network) cmd]
        | None \<Rightarrow> [])
     @ (if has_prefix name ''mkfs'' then [mk_finding Refuse ''formats a filesystem'' cmd] else [])"

end
