(* ===== verification/Guard.thy ===== *)
theory Guard
  imports GuardRules
begin

text \<open>
  The classifier of \<open>internal/guard\<close>: \<open>classifyTokens\<close> with every rule that matches one command
  (\<open>rules.go\<close>), the pipelines and \<open>Classify\<close> itself (\<open>guard.go\<close>). The bash parser behind \<open>walk\<close>
  is third-party code: it is the parameter \<open>parse\<close>, which returns \<open>None\<close> when it rejects the
  text. \<open>None\<close> as a verdict means that the path expansion never returned.
\<close>

section \<open>What the parser yields\<close>

record cmd_node =
  cn_fragment :: string
  cn_words :: "string list"

record pipeline =
  pl_fragment :: string
  pl_stages :: "cmd_node list"

record sub_node =
  sn_fragment :: string
  sn_top :: "pipeline list"

record parsed =
  pr_top :: "pipeline list"
  pr_subs :: "sub_node list"

section \<open>One command\<close>

definition xargs_command :: "string list \<Rightarrow> string list" where
  "xargs_command tokens = dropWhile (\<lambda>t. has_prefix t ''-'') (tl tokens)"

text \<open>The switch of \<open>classifyTokens\<close>, all but its recursive xargs case.\<close>

definition special_rule :: "string \<Rightarrow> string \<Rightarrow> string list \<Rightarrow> env \<Rightarrow> finding list option" where
  "special_rule name frag tokens e =
     (if name = ''rm'' then map_option (\<lambda>f. [f]) (classify_rm frag tokens e)
      else if name = ''git'' then Some [classify_git frag tokens e]
      else if name = ''jj'' then Some [classify_jj frag tokens]
      else if name = ''chmod'' \<or> name = ''chown'' then
        map_option (\<lambda>f. [f]) (classify_chmod_chown frag tokens e)
      else if name = ''dd'' then Some [classify_dd frag tokens]
      else if name = ''diskutil'' then Some [classify_diskutil frag tokens]
      else if name = ''kill'' then Some [classify_kill frag tokens]
      else Some [])"

definition sudo_rule :: "string \<Rightarrow> string list \<Rightarrow> finding list" where
  "sudo_rule frag tokens =
     (if ''sudo'' \<in> set tokens
      then [mk_finding Refuse (''sudo steps outside the sandbox'' @ [squote] @ ''s user scope'') frag]
      else [])"

text \<open>The rules after the switch: the command's name, killall, and protected paths.\<close>

definition later_rules :: "string \<Rightarrow> string list \<Rightarrow> env \<Rightarrow> finding list" where
  "later_rules frag tokens e =
     (let name = base_name (hd tokens) in
      by_name frag (hd tokens) name (tl tokens) e
      @ (if killall_process_wide name tokens
         then [mk_finding NeedsApproval ''kills processes by name across the whole user'' frag] else [])
      @ (case writes_protected tokens e of
           Some why \<Rightarrow> [mk_finding Refuse why frag] | None \<Rightarrow> []))"

definition words_size :: "string list \<Rightarrow> nat" where
  "words_size ws = sum_list (map length ws) + length ws"

lemma words_size_suffix: "suffix ys xs \<Longrightarrow> words_size ys \<le> words_size xs"
  by (auto simp: words_size_def suffix_def)

lemma length_join_space: "ws \<noteq> [] \<Longrightarrow> length (join_with '' '' ws) + 1 = words_size ws"
  by (induction ws rule: induct_list012) (auto simp: words_size_def)

lemma tokenize_join_size: "ws \<noteq> [] \<Longrightarrow> words_size (tokenize (join_with '' '' ws)) \<le> words_size ws"
  using tokenize_size [of "join_with '' '' ws"] length_join_space [of ws]
  by (simp add: words_size_def)

lemma without_assignments_suffix: "suffix (without_assignments ts) ts"
  by (simp add: without_assignments_def suffix_dropWhile)

lemma xargs_smaller:
  assumes "tokens \<noteq> []" "xargs_command tokens \<noteq> []"
  shows "words_size (tokenize (join_with '' '' (xargs_command tokens))) < words_size tokens"
proof -
  have "suffix (xargs_command tokens) (tl tokens)" by (simp add: xargs_command_def suffix_dropWhile)
  then have "words_size (xargs_command tokens) \<le> words_size (tl tokens)" by (rule words_size_suffix)
  also have "\<dots> < words_size tokens" using assms(1) by (cases tokens) (auto simp: words_size_def)
  finally show ?thesis using tokenize_join_size [OF assms(2)] by simp
qed

function classify_tokens :: "string \<Rightarrow> string list \<Rightarrow> env \<Rightarrow> finding option" where
  "classify_tokens frag raw e =
     (if raw = [] then Some (mk_finding NeedsApproval ''empty command could not be classified'' frag)
      else if without_assignments raw = [] then
        Some (mk_finding Allow ''sets a variable and runs nothing'' frag)
      else
        (let tokens = without_assignments raw; name = base_name (hd tokens) in
         Option.bind
           (if name = ''xargs'' then
              (if xargs_command tokens = [] then Some [mk_finding Allow reason_no_match frag]
               else map_option (\<lambda>f. [f])
                 (classify_tokens (join_with '' '' (xargs_command tokens))
                    (tokenize (join_with '' '' (xargs_command tokens))) e))
            else special_rule name frag tokens e)
           (\<lambda>special. Some (worst (sudo_rule frag tokens @ special @ later_rules frag tokens e) frag))))"
  by pat_completeness auto
termination
proof (relation "measure (\<lambda>(frag, raw, e). words_size raw)", goal_cases)
  case (2 frag raw e tokens name)
  then have "words_size (tokenize (join_with '' '' (xargs_command tokens))) < words_size tokens"
    by (intro xargs_smaller) simp_all
  also have "\<dots> \<le> words_size raw"
    using 2 by (simp add: words_size_suffix without_assignments_suffix)
  finally show ?case by simp
qed simp

declare classify_tokens.simps [simp del]

definition classify_command :: "string \<Rightarrow> env \<Rightarrow> finding option" where
  "classify_command cmd e = classify_tokens cmd (tokenize cmd) e"

section \<open>Pipelines and whole commands\<close>

text \<open>All results, or \<open>None\<close> when one of them never returns.\<close>

definition all_of :: "'a option list \<Rightarrow> 'a list option" where
  "all_of xs = (if None \<in> set xs then None else Some (map the xs))"

definition classify_stages :: "pipeline \<Rightarrow> env \<Rightarrow> finding list option" where
  "classify_stages pipe e =
     (case pipe_to_shell (map cn_words (pl_stages pipe)) of
        Some why \<Rightarrow> Some [mk_finding Refuse why (pl_fragment pipe)]
      | None \<Rightarrow>
          all_of (map (\<lambda>stage. classify_tokens (cn_fragment stage) (cn_words stage) e) (pl_stages pipe)))"

definition in_substitution :: "finding \<Rightarrow> finding" where
  "in_substitution f = f\<lparr>reason := ''command substitution runs: '' @ reason f\<rparr>"

definition classify_parsed :: "parsed \<Rightarrow> env \<Rightarrow> finding list option" where
  "classify_parsed p e =
     Option.bind (all_of (map (\<lambda>pipe. classify_stages pipe e) (pr_top p))) (\<lambda>top.
     Option.bind (all_of (map (\<lambda>pipe. classify_stages pipe e) (concat (map sn_top (pr_subs p))))) (\<lambda>subs.
     Some (concat top
       @ map in_substitution (filter (\<lambda>f. verdict f \<noteq> Allow) (concat subs)))))"

definition classify_pipeline :: "string \<Rightarrow> env \<Rightarrow> finding list option" where
  "classify_pipeline pipe e =
     (let trimmed = trim_space pipe in
      if trimmed = [] then Some []
      else (case pipe_to_shell_reason trimmed of
              Some why \<Rightarrow> Some [mk_finding Refuse why trimmed]
            | None \<Rightarrow>
                all_of (map (\<lambda>stage. classify_command stage e)
                  (filter (\<lambda>stage. stage \<noteq> []) (map trim_space (split_pipeline trimmed))))))"

lemma strip_extract_short:
  "x \<in> set (snd (extract_substitutions (strip_heredoc_bodies (trim_space c)))) \<Longrightarrow> length x < length c"
proof -
  assume "x \<in> set (snd (extract_substitutions (strip_heredoc_bodies (trim_space c))))"
  then have "length x < length (strip_heredoc_bodies (trim_space c))"
    by (metis extract_short prod.collapse)
  then show ?thesis using strip_heredoc_length [of "trim_space c"] length_trim_space [of c] by linarith
qed

definition clean_env :: "env \<Rightarrow> env" where
  "clean_env e = e\<lparr>project_root := clean_root (project_root e)\<rparr>"

function classify :: "(string \<Rightarrow> parsed option) \<Rightarrow> string \<Rightarrow> env \<Rightarrow> finding option" where
  "classify parse command e0 =
     (let trimmed = trim_space command; e = clean_env e0 in
      if trimmed = [] then Some (mk_finding Allow ''empty command'' [])
      else if is_fork_bomb trimmed then Some (mk_finding Refuse ''fork bomb'' trimmed)
      else
        (case parse trimmed of
           Some p \<Rightarrow> Option.bind (classify_parsed p e) (\<lambda>fs. Some (worst fs trimmed))
         | None \<Rightarrow>
             (let (outer, subs) = extract_substitutions (strip_heredoc_bodies trimmed) in
              Option.bind (all_of (map (\<lambda>seq. classify_pipeline seq e) (split_sequence outer))) (\<lambda>fs.
              Option.bind (all_of (map (\<lambda>sub. classify parse sub e) subs)) (\<lambda>inner.
              Some (worst (concat fs @ map in_substitution (filter (\<lambda>f. verdict f \<noteq> Allow) inner))
                trimmed))))))"
  by pat_completeness auto
termination
proof (relation "measure (\<lambda>(parse, command, e). length command)", goal_cases)
  case (2 parse command e0 trimmed e x outer subs fs sub)
  then have "sub \<in> set (snd (extract_substitutions (strip_heredoc_bodies (trim_space command))))"
    by (metis snd_conv)
  then show ?case by (simp add: strip_extract_short)
qed simp

declare classify.simps [simp del]

section \<open>The commands a line runs\<close>

text \<open>
  The word lists \<open>Classify\<close> grades, wherever they stand in the line: the specification the
  properties below quantify over.
\<close>

definition parsed_words :: "parsed \<Rightarrow> string list list" where
  "parsed_words p =
     map cn_words (concat (map pl_stages (pr_top p @ concat (map sn_top (pr_subs p)))))"

definition pipeline_words :: "string \<Rightarrow> string list list" where
  "pipeline_words pipe =
     map tokenize (filter (\<lambda>stage. stage \<noteq> []) (map trim_space (split_pipeline (trim_space pipe))))"

function graded_words :: "(string \<Rightarrow> parsed option) \<Rightarrow> string \<Rightarrow> string list list" where
  "graded_words parse command =
     (let trimmed = trim_space command in
      if trimmed = [] \<or> is_fork_bomb trimmed then []
      else
        (case parse trimmed of
           Some p \<Rightarrow> parsed_words p
         | None \<Rightarrow>
             (let (outer, subs) = extract_substitutions (strip_heredoc_bodies trimmed) in
              concat (map pipeline_words (split_sequence outer))
              @ concat (map (\<lambda>sub. graded_words parse sub) subs))))"
  by pat_completeness auto
termination
proof (relation "measure (\<lambda>(parse, command). length command)", goal_cases)
  case (2 parse command trimmed x outer subs sub)
  then have "sub \<in> set (snd (extract_substitutions (strip_heredoc_bodies (trim_space command))))"
    by (metis snd_conv)
  then show ?case by (simp add: strip_extract_short)
qed simp

declare graded_words.simps [simp del]

lemma all_of_Some: "all_of xs = Some ys \<longleftrightarrow> xs = map Some ys"
proof
  assume "all_of xs = Some ys"
  then have n: "None \<notin> set xs" and ys: "ys = map the xs" by (auto simp: all_of_def split: if_splits)
  have "Some (the x) = x" if "x \<in> set xs" for x using that n by (metis option.collapse)
  then have "map (Some \<circ> the) xs = xs" by (intro map_idI) simp
  then show "xs = map Some ys" unfolding ys by simp
qed (auto simp: all_of_def comp_def)

lemma all_of_map_Some:
  "all_of (map f xs) = Some ys \<Longrightarrow> x \<in> set xs \<Longrightarrow> \<exists>y \<in> set ys. f x = Some y"
  unfolding all_of_Some by (metis (no_types, lifting) imageE image_eqI list.set_map)

lemma all_of_exists: "(\<And>x. x \<in> set xs \<Longrightarrow> \<exists>y. f x = Some y) \<Longrightarrow> \<exists>ys. all_of (map f xs) = Some ys"
  by (fastforce simp: all_of_def)

lemma clean_env_idem [simp]: "clean_env (clean_env e) = clean_env e"
  by (simp add: clean_env_def clean_root_def clean_clean)

lemma verdict_in_substitution [simp]: "verdict (in_substitution f) = verdict f"
  by (simp add: in_substitution_def)

text \<open>A pipeline's findings grade each of its stages, unless the pipeline as a whole is refused.\<close>

lemma classify_stages_words:
  assumes "classify_stages pipe e = Some fs" "stage \<in> set (pl_stages pipe)"
  shows "(\<exists>f \<in> set fs. classify_tokens (cn_fragment stage) (cn_words stage) e = Some f)
    \<or> (\<exists>f \<in> set fs. verdict f = Refuse)"
  using assms by (auto simp: classify_stages_def split: option.splits dest: all_of_map_Some)

lemma classify_pipeline_words:
  assumes "classify_pipeline pipe e = Some fs" "ws \<in> set (pipeline_words pipe)"
  shows "(\<exists>f \<in> set fs. \<exists>frag. classify_tokens frag ws e = Some f) \<or> (\<exists>f \<in> set fs. verdict f = Refuse)"
proof -
  obtain stage where stage: "ws = tokenize stage" "stage \<noteq> []"
    "stage \<in> set (map trim_space (split_pipeline (trim_space pipe)))"
    using assms(2) by (auto simp: pipeline_words_def)
  have ne: "trim_space pipe \<noteq> []"
  proof
    assume "trim_space pipe = []"
    moreover have "split_pipeline [] = []" by code_simp
    ultimately show False using stage(3) by simp
  qed
  show ?thesis
  proof (cases "pipe_to_shell_reason (trim_space pipe)")
    case (Some why)
    then show ?thesis using assms(1) ne by (auto simp: classify_pipeline_def)
  next
    case None
    then have "all_of (map (\<lambda>stage. classify_command stage e)
        (filter (\<lambda>stage. stage \<noteq> []) (map trim_space (split_pipeline (trim_space pipe))))) = Some fs"
      using assms(1) ne by (simp add: classify_pipeline_def)
    from all_of_map_Some [OF this, of stage] stage show ?thesis
      by (auto simp: classify_command_def)
  qed
qed

definition grades :: "env \<Rightarrow> string list \<Rightarrow> finding \<Rightarrow> bool" where
  "grades e ws r =
     (verdict r = Refuse \<or> (\<exists>frag f. classify_tokens frag ws e = Some f \<and> verdict f \<le> verdict r))"

lemma grades_mono: "grades e ws f \<Longrightarrow> verdict f \<le> verdict r \<Longrightarrow> grades e ws r"
  unfolding grades_def by (metis order.trans verdict_order(4))

lemma grades_worst: "f \<in> set fs \<Longrightarrow> grades e ws f \<Longrightarrow> grades e ws (worst fs w)"
  by (rule grades_mono [OF _ worst_ge])

lemma classify_parsed_grades:
  assumes "classify_parsed p e = Some fs" "ws \<in> set (parsed_words p)"
  shows "grades e ws (worst fs w)"
proof -
  obtain top subs where tops: "all_of (map (\<lambda>pipe. classify_stages pipe e) (pr_top p)) = Some top"
    "all_of (map (\<lambda>pipe. classify_stages pipe e) (concat (map sn_top (pr_subs p)))) = Some subs"
    "fs = concat top @ map in_substitution (filter (\<lambda>f. verdict f \<noteq> Allow) (concat subs))"
    using assms(1) by (auto simp: classify_parsed_def bind_eq_Some_conv)
  obtain pipe stage where s: "pipe \<in> set (pr_top p @ concat (map sn_top (pr_subs p)))"
    "stage \<in> set (pl_stages pipe)" "ws = cn_words stage"
    using assms(2) by (auto simp: parsed_words_def)
  from s(1) consider "pipe \<in> set (pr_top p)" | "pipe \<in> set (concat (map sn_top (pr_subs p)))"
    by auto
  then show ?thesis
  proof cases
    case 1
    then obtain fs' where fs': "fs' \<in> set top" "classify_stages pipe e = Some fs'"
      using all_of_map_Some [OF tops(1)] by blast
    from classify_stages_words [OF fs'(2) s(2)] obtain f where "f \<in> set fs'" "grades e ws f"
      by (auto simp: grades_def s(3))
    then show ?thesis using fs'(1) tops(3) by (intro grades_worst [of f]) auto
  next
    case 2
    then obtain fs' where fs': "fs' \<in> set subs" "classify_stages pipe e = Some fs'"
      using all_of_map_Some [OF tops(2)] by blast
    from classify_stages_words [OF fs'(2) s(2)] obtain f where f: "f \<in> set fs'" "grades e ws f"
      by (auto simp: grades_def s(3))
    show ?thesis
    proof (cases "verdict f = Allow")
      case True
      then show ?thesis using f(2) by (rule_tac grades_mono [of e ws f]) auto
    next
      case False
      then have "in_substitution f \<in> set fs" using f fs'(1) tops(3) by auto
      moreover have "grades e ws (in_substitution f)" using f(2) by (rule grades_mono) simp
      ultimately show ?thesis by (rule grades_worst)
    qed
  qed
qed

text \<open>The result of \<open>Classify\<close> is at least as strict as the grade of every command in the line.\<close>

lemma classify_grades:
  "classify parse c e = Some r \<Longrightarrow> ws \<in> set (graded_words parse c) \<Longrightarrow> grades (clean_env e) ws r"
proof (induction "length c" arbitrary: c e r rule: less_induct)
  case less
  let ?t = "trim_space c" and ?e = "clean_env e"
  have nt: "?t \<noteq> []" "\<not> is_fork_bomb ?t"
    using less.prems(2) by (auto simp: graded_words.simps [of parse c] Let_def split: if_splits)
  show ?case
  proof (cases "parse ?t")
    case (Some p)
    then obtain fs where "classify_parsed p ?e = Some fs" "r = worst fs ?t"
      using less.prems(1) nt by (auto simp: classify.simps [of parse c] Let_def bind_eq_Some_conv)
    moreover have "ws \<in> set (parsed_words p)"
      using less.prems(2) Some nt by (simp add: graded_words.simps [of parse c] Let_def)
    ultimately show ?thesis using classify_parsed_grades by blast
  next
    case None
    obtain outer subs where os: "extract_substitutions (strip_heredoc_bodies ?t) = (outer, subs)"
      by fastforce
    obtain fs inner where fs: "all_of (map (\<lambda>seq. classify_pipeline seq ?e) (split_sequence outer)) = Some fs"
      "all_of (map (\<lambda>sub. classify parse sub ?e) subs) = Some inner"
      "r = worst (concat fs @ map in_substitution (filter (\<lambda>f. verdict f \<noteq> Allow) inner)) ?t"
      using less.prems(1) nt None os
      by (auto simp: classify.simps [of parse c] Let_def bind_eq_Some_conv)
    have "ws \<in> set (concat (map pipeline_words (split_sequence outer)))
        \<or> ws \<in> set (concat (map (graded_words parse) subs))"
      using less.prems(2) nt None os by (simp add: graded_words.simps [of parse c] Let_def)
    then consider (seq) s where "s \<in> set (split_sequence outer)" "ws \<in> set (pipeline_words s)"
      | (sub) x where "x \<in> set subs" "ws \<in> set (graded_words parse x)" by auto
    then show ?thesis
    proof cases
      case seq
      then obtain fs' where fs': "fs' \<in> set fs" "classify_pipeline s ?e = Some fs'"
        using all_of_map_Some [OF fs(1)] by blast
      from classify_pipeline_words [OF fs'(2) seq(2)] obtain f where "f \<in> set fs'" "grades ?e ws f"
        by (auto simp: grades_def)
      then show ?thesis using fs'(1) fs(3) by (auto intro!: grades_worst [of f])
    next
      case sub
      then obtain f where f: "f \<in> set inner" "classify parse x ?e = Some f"
        using all_of_map_Some [OF fs(2)] by blast
      have "length x < length c" using strip_extract_short [of x c] os sub(1) by simp
      from less.hyps [OF this f(2) sub(2)] have g: "grades ?e ws f" by simp
      show ?thesis
      proof (cases "verdict f = Allow")
        case True
        then show ?thesis using g by (rule_tac grades_mono [of ?e ws f]) auto
      next
        case False
        then have "in_substitution f \<in> set (concat fs @ map in_substitution (filter (\<lambda>f. verdict f \<noteq> Allow) inner))"
          using f(1) by auto
        moreover have "grades ?e ws (in_substitution f)" using g by (rule grades_mono) simp
        ultimately show ?thesis unfolding fs(3) by (rule grades_worst)
      qed
    qed
  qed
qed

section \<open>One command's grade\<close>

lemma classify_tokens_parts:
  assumes "classify_tokens frag ws e = Some f" "without_assignments ws \<noteq> []"
  obtains special where
    "f = worst (sudo_rule frag (without_assignments ws) @ special
           @ later_rules frag (without_assignments ws) e) frag"
    "base_name (hd (without_assignments ws)) \<noteq> ''xargs'' \<Longrightarrow>
       special_rule (base_name (hd (without_assignments ws))) frag (without_assignments ws) e = Some special"
proof -
  have "ws \<noteq> []" using assms(2) by (auto simp: without_assignments_def)
  with assms obtain special where
    "f = worst (sudo_rule frag (without_assignments ws) @ special
           @ later_rules frag (without_assignments ws) e) frag"
    "(if base_name (hd (without_assignments ws)) = ''xargs'' then
        (if xargs_command (without_assignments ws) = [] then Some [mk_finding Allow reason_no_match frag]
         else map_option (\<lambda>f. [f])
           (classify_tokens (join_with '' '' (xargs_command (without_assignments ws)))
              (tokenize (join_with '' '' (xargs_command (without_assignments ws)))) e))
      else special_rule (base_name (hd (without_assignments ws))) frag (without_assignments ws) e)
      = Some special"
    unfolding classify_tokens.simps [of frag ws] Let_def by (auto simp: bind_eq_Some_conv)
  then show thesis by (intro that [of special]) simp_all
qed

lemma later_refuses:
  assumes "classify_tokens frag ws e = Some f" "without_assignments ws \<noteq> []"
    and "g \<in> set (sudo_rule frag (without_assignments ws) @ later_rules frag (without_assignments ws) e)"
  shows "verdict g \<le> verdict f"
proof -
  obtain special where "f = worst (sudo_rule frag (without_assignments ws) @ special
      @ later_rules frag (without_assignments ws) e) frag"
    using assms(1,2) by (rule classify_tokens_parts)
  then show ?thesis using assms(3) by (auto intro!: worst_ge)
qed

text \<open>What the rules refuse whatever the command's arguments are.\<close>

definition always_refused :: "env \<Rightarrow> string list \<Rightarrow> bool" where
  "always_refused e t =
     (''sudo'' \<in> set t \<or> map_of superseded_tools (base_name (hd t)) \<noteq> None
      \<or> fetches_dependency (base_name (hd t)) (tl t) \<noteq> None
      \<or> has_prefix (base_name (hd t)) ''mkfs'' \<or> writes_protected t e \<noteq> None)"

lemma always_refused_finding:
  assumes "always_refused e t"
  shows "\<exists>g \<in> set (sudo_rule frag t @ later_rules frag t e). verdict g = Refuse"
  using assms by (auto simp: always_refused_def sudo_rule_def later_rules_def by_name_def Let_def)

lemma unlisted_finding:
  "\<not> allowed e (hd t) (base_name (hd t)) \<Longrightarrow>
     \<exists>g \<in> set (later_rules frag t e). verdict g = NeedsApproval"
  by (auto simp: later_rules_def by_name_def Let_def)

lemma grades_refused:
  assumes "grades e ws r" "without_assignments ws \<noteq> []" "always_refused e (without_assignments ws)"
  shows "verdict r = Refuse"
proof (cases "verdict r = Refuse")
  case False
  then obtain frag f where f: "classify_tokens frag ws e = Some f" "verdict f \<le> verdict r"
    using assms(1) by (auto simp: grades_def)
  obtain g where g: "g \<in> set (sudo_rule frag (without_assignments ws) @ later_rules frag (without_assignments ws) e)"
    "verdict g = Refuse" using always_refused_finding [OF assms(3)] by blast
  have "verdict g \<le> verdict f" by (rule later_refuses [OF f(1) assms(2) g(1)])
  then have "verdict f = Refuse" using g(2) by simp
  then show ?thesis using f(2) by simp
qed

lemma grades_allow:
  assumes "grades e ws r" "verdict r = Allow"
  shows "ws \<noteq> []"
    "without_assignments ws \<noteq> [] \<Longrightarrow>
       allowed e (hd (without_assignments ws)) (base_name (hd (without_assignments ws)))
       \<and> \<not> always_refused e (without_assignments ws)"
proof -
  obtain frag f where f: "classify_tokens frag ws e = Some f" "verdict f = Allow"
    using assms by (auto simp: grades_def)
  then show "ws \<noteq> []" by (auto simp: classify_tokens.simps [of frag])
  assume ne: "without_assignments ws \<noteq> []"
  have "\<not> always_refused e (without_assignments ws)"
    using grades_refused [OF assms(1) ne] assms(2) by auto
  moreover have "allowed e (hd (without_assignments ws)) (base_name (hd (without_assignments ws)))"
  proof (rule ccontr)
    assume "\<not> ?thesis"
    from unlisted_finding [OF this] obtain g where
      "g \<in> set (later_rules frag (without_assignments ws) e)" "verdict g = NeedsApproval" by blast
    then show False using later_refuses [OF f(1) ne, of g] f(2) by simp
  qed
  ultimately show "allowed e (hd (without_assignments ws)) (base_name (hd (without_assignments ws)))
      \<and> \<not> always_refused e (without_assignments ws)" by blast
qed

lemma rm_targets_allow:
  assumes "rm_targets cmd e ts = Some f" "verdict f = Allow" "t \<in> set ts"
  shows "\<exists>x. expand_path e t = Some (x, True) \<and> \<not> is_outside_or_at_root x (project_root e)"
  using assms
  by (induction cmd e ts rule: rm_targets.induct)
    (auto simp: bind_eq_Some_conv split: if_splits prod.splits)

lemma not_outside_strict:
  assumes "is_abs root" "clean root = root" "\<not> is_outside_or_at_root x root"
  shows "strict_prefix (path_comps root) (path_comps (if is_abs x then x else root @ ''/'' @ x))"
proof -
  let ?q = "if is_abs x then x else root @ ''/'' @ x"
  define p where "p = (if is_abs x then clean x else clean (path_join root x))"
  have ne: "root \<noteq> []" using assms(1) by (auto simp: is_abs_def)
  have absq: "is_abs ?q" using assms(1) ne by (cases root) (auto simp: is_abs_def)
  have p: "p = clean ?q" using ne by (auto simp: p_def path_join_def clean_clean)
  have "p \<noteq> root" "case path_rel root p of None \<Rightarrow> False | Some rel \<Rightarrow> \<not> climbs rel"
    using assms(3) by (auto simp: is_outside_or_at_root_def Let_def p_def climbs_def split: option.splits if_splits)
  moreover have absp: "is_abs p" using absq by (simp add: p is_abs_clean)
  obtain r where "path_rel root p = Some r" "climbs r \<longleftrightarrow> \<not> prefix (path_comps root) (path_comps p)"
    by (rule path_rel_abs [OF assms(1) absp])
  ultimately have "prefix (path_comps root) (path_comps p)" "p \<noteq> root" by simp_all
  moreover have "path_comps root \<noteq> path_comps p"
  proof
    assume "path_comps root = path_comps p"
    then have "clean root = clean p" using assms(1) absp by (simp add: clean_eq_iff)
    then show False using \<open>p \<noteq> root\<close> assms(2) by (simp add: p clean_clean)
  qed
  moreover have "path_comps p = path_comps ?q" unfolding p by (rule path_comps_clean)
  ultimately show ?thesis by (simp add: strict_prefix_def)
qed

section \<open>Properties\<close>


text \<open>
  What is refused stays refused. A line holding a command with sudo, a superseded tool, a
  dependency fetch, mkfs, or a write to a protected path is refused, wherever the command stands
  and whatever the project allows.
\<close>

theorem classify_refuses:
  assumes "classify parse c e = Some r" and "ws \<in> set (graded_words parse c)"
    and "without_assignments ws \<noteq> []" and "always_refused (clean_env e) (without_assignments ws)"
  shows "verdict r = Refuse"
  by (rule grades_refused [OF classify_grades [OF assms(1,2)] assms(3,4)])


definition demo_env :: env where
  "demo_env = \<lparr>project_root = ''/p'', home = ''/h'', temp_dir = [], allowed_commands = [], colocated_jj = False\<rparr>"

definition no_parse :: "string \<Rightarrow> parsed option" where
  "no_parse c = None"

lemma demo_rm_allowed:
  "classify no_parse ''rm -rf $PWD/out'' demo_env =
     Some (mk_finding Allow reason_no_match ''rm -rf $PWD/out'')"
  by code_simp

lemma demo_rm_words: "graded_words no_parse ''rm -rf $PWD/out'' = [[''rm'', ''-rf'', ''$PWD/out'']]"
  by code_simp

lemma demo_sudo: "classify no_parse ''ls; sudo rm x'' demo_env =
     Some (mk_finding Refuse (''sudo steps outside the sandbox'' @ [squote] @ ''s user scope'') ''sudo rm x'')"
  by code_simp


theorem classify_refuses_witness:
  "verdict (mk_finding Refuse (''sudo steps outside the sandbox'' @ [squote] @ ''s user scope'') ''sudo rm x'') = Refuse"
proof (rule classify_refuses [OF demo_sudo, of "[''sudo'', ''rm'', ''x'']"])
  have "graded_words no_parse ''ls; sudo rm x'' = [[''ls''], [''sudo'', ''rm'', ''x'']]" by code_simp
  then show "[''sudo'', ''rm'', ''x''] \<in> set (graded_words no_parse ''ls; sudo rm x'')" by simp
  have w: "without_assignments [''sudo'', ''rm'', ''x''] = [''sudo'', ''rm'', ''x'']" by code_simp
  then show "without_assignments [''sudo'', ''rm'', ''x''] \<noteq> []" by simp
  show "always_refused (clean_env demo_env) (without_assignments [''sudo'', ''rm'', ''x''])"
    unfolding w by (simp add: always_refused_def)
qed


section \<open>The allowlist only answers prompts\<close>

abbreviation with_allowed :: "string list \<Rightarrow> env \<Rightarrow> env" where
  "with_allowed names e \<equiv> e\<lparr>allowed_commands := names\<rparr>"

definition any_refused :: "finding list \<Rightarrow> bool" where
  "any_refused fs = (\<exists>f \<in> set fs. verdict f = Refuse)"

definition same_refusal :: "finding option \<Rightarrow> finding option \<Rightarrow> bool" where
  "same_refusal = rel_option (\<lambda>f g. verdict f = Refuse \<longleftrightarrow> verdict g = Refuse)"

definition same_refusals :: "finding list option \<Rightarrow> finding list option \<Rightarrow> bool" where
  "same_refusals = rel_option (\<lambda>fs gs. any_refused fs \<longleftrightarrow> any_refused gs)"

lemma any_refused_simps [simp]:
  "any_refused [] = False" "any_refused (f # fs) \<longleftrightarrow> verdict f = Refuse \<or> any_refused fs"
  "any_refused (fs @ gs) \<longleftrightarrow> any_refused fs \<or> any_refused gs"
  "any_refused (concat fss) \<longleftrightarrow> (\<exists>fs \<in> set fss. any_refused fs)"
  "any_refused (map in_substitution (filter (\<lambda>f. verdict f \<noteq> Allow) fs)) \<longleftrightarrow> any_refused fs"
  by (auto simp: any_refused_def)

lemma worst_any_refused: "verdict (worst fs w) = Refuse \<longleftrightarrow> any_refused fs"
  by (simp add: worst_refuse any_refused_def)

lemma expand_path_allowed [simp]: "expand_path (with_allowed ns e) = expand_path e"
  by (simp add: fun_eq_iff expand_path_def)

lemma rm_targets_allowed [simp]: "rm_targets cmd (with_allowed ns e) ts = rm_targets cmd e ts"
  by (induction ts) (simp_all add: case_prod_unfold cong: if_cong)

lemma special_rule_allowed [simp]:
  "special_rule name frag tokens (with_allowed ns e) = special_rule name frag tokens e"
  by (simp add: special_rule_def classify_rm_def classify_git_def classify_chmod_chown_def case_prod_unfold Let_def
      cong: if_cong)

lemma protected_loop_allowed [simp]: "protected_loop (with_allowed ns e) w f ts = protected_loop e w f ts"
  by (induction e w f ts rule: protected_loop.induct) simp_all

lemma later_rules_allowed:
  "any_refused (later_rules frag tokens (with_allowed ns e)) \<longleftrightarrow> any_refused (later_rules frag tokens e)"
  by (simp add: later_rules_def by_name_def Let_def writes_protected_def)

lemma same_refusal_tokens:
  "same_refusal (classify_tokens frag ws (with_allowed ns e)) (classify_tokens frag ws e)"
proof (induction frag ws e rule: classify_tokens.induct)
  case (1 frag raw e)
  let ?t = "without_assignments raw" and ?x = "xargs_command (without_assignments raw)"
  have w: "same_refusal
      (Option.bind a (\<lambda>sp. Some (worst (sudo_rule frag ?t @ sp @ later_rules frag ?t (with_allowed ns e)) frag)))
      (Option.bind b (\<lambda>sp. Some (worst (sudo_rule frag ?t @ sp @ later_rules frag ?t e) frag)))"
    if "same_refusals a b" for a b
    using that
    by (cases a; cases b) (simp_all add: same_refusals_def same_refusal_def worst_any_refused later_rules_allowed)
  show ?case
  proof (cases "raw = [] \<or> ?t = []")
    case True
    then show ?thesis by (auto simp: classify_tokens.simps [of frag raw] same_refusal_def)
  next
    case False
    have "same_refusals
       (if base_name (hd ?t) = ''xargs'' then
          (if ?x = [] then Some [mk_finding Allow reason_no_match frag]
           else map_option (\<lambda>f. [f])
             (classify_tokens (join_with '' '' ?x) (tokenize (join_with '' '' ?x)) (with_allowed ns e)))
        else special_rule (base_name (hd ?t)) frag ?t (with_allowed ns e))
       (if base_name (hd ?t) = ''xargs'' then
          (if ?x = [] then Some [mk_finding Allow reason_no_match frag]
           else map_option (\<lambda>f. [f])
             (classify_tokens (join_with '' '' ?x) (tokenize (join_with '' '' ?x)) e))
        else special_rule (base_name (hd ?t)) frag ?t e)"
    proof (cases "base_name (hd ?t) = ''xargs'' \<and> ?x \<noteq> []")
      case True
      have "same_refusal (classify_tokens (join_with '' '' ?x) (tokenize (join_with '' '' ?x)) (with_allowed ns e))
          (classify_tokens (join_with '' '' ?x) (tokenize (join_with '' '' ?x)) e)"
        using 1 [OF _ _ refl refl] False True by blast
      then show ?thesis using True
        by (auto simp: same_refusals_def same_refusal_def option.rel_map elim: option.rel_mono_strong)
    next
      case no: False
      then show ?thesis by (auto simp: same_refusals_def option.rel_refl)
    qed
    from w [OF this] show ?thesis using False
      by (simp add: classify_tokens.simps [of frag raw] Let_def)
  qed
qed

lemma all_of_rel:
  assumes "\<And>x. x \<in> set xs \<Longrightarrow> rel_option R (f x) (g x)"
  shows "rel_option (list_all2 R) (all_of (map f xs)) (all_of (map g xs))"
proof (cases "all_of (map f xs)")
  case None
  then obtain x where "x \<in> set xs" "f x = None" by (auto simp: all_of_def split: if_splits)
  with assms [of x] have "None \<in> set (map g xs)" by (cases "g x") force+
  with None show ?thesis by (simp add: all_of_def)
next
  case (Some ys)
  then have "None \<notin> f ` set xs" by (auto simp: all_of_def split: if_splits)
  with assms have g: "None \<notin> g ` set xs" by (force elim: option.rel_cases)
  have "list_all2 R (map the (map f xs)) (map the (map g xs))"
    using assms g \<open>None \<notin> f ` set xs\<close>
    by (auto simp: list_all2_map1 list_all2_map2 intro!: list.rel_refl_strong)
      (metis image_eqI option.collapse option.rel_sel)
  then show ?thesis using g \<open>None \<notin> f ` set xs\<close> by (auto simp: all_of_def)
qed

lemma any_refused_rel:
  "list_all2 (\<lambda>f g. verdict f = Refuse \<longleftrightarrow> verdict g = Refuse) fs gs \<Longrightarrow> any_refused fs \<longleftrightarrow> any_refused gs"
  by (induction rule: list_all2_induct) auto

lemma any_refused_rels:
  "list_all2 (\<lambda>fs gs. any_refused fs \<longleftrightarrow> any_refused gs) fss gss \<Longrightarrow>
     any_refused (concat fss) \<longleftrightarrow> any_refused (concat gss)"
  by (induction rule: list_all2_induct) auto

lemma same_refusals_all:
  assumes "\<And>x. x \<in> set xs \<Longrightarrow> same_refusal (f x) (g x)"
  shows "same_refusals (all_of (map f xs)) (all_of (map g xs))"
  unfolding same_refusals_def
  by (rule option.rel_mono_strong [OF all_of_rel]) (use assms in \<open>auto simp: same_refusal_def any_refused_rel\<close>)

lemma same_refusals_stages:
  "same_refusals (classify_stages pipe (with_allowed ns e)) (classify_stages pipe e)"
proof (cases "pipe_to_shell (map cn_words (pl_stages pipe))")
  case None
  have "same_refusals
     (all_of (map (\<lambda>stage. classify_tokens (cn_fragment stage) (cn_words stage) (with_allowed ns e)) (pl_stages pipe)))
     (all_of (map (\<lambda>stage. classify_tokens (cn_fragment stage) (cn_words stage) e) (pl_stages pipe)))"
    by (rule same_refusals_all) (rule same_refusal_tokens)
  then show ?thesis using None by (simp add: classify_stages_def)
qed (simp add: classify_stages_def same_refusals_def)

lemma same_refusals_pipeline:
  "same_refusals (classify_pipeline pipe (with_allowed ns e)) (classify_pipeline pipe e)"
proof -
  have "same_refusals
     (all_of (map (\<lambda>stage. classify_command stage (with_allowed ns e)) xs))
     (all_of (map (\<lambda>stage. classify_command stage e) xs))" for xs
    by (rule same_refusals_all) (simp add: classify_command_def same_refusal_tokens)
  then show ?thesis
    by (cases "pipe_to_shell_reason (trim_space pipe)")
      (auto simp: classify_pipeline_def Let_def same_refusals_def)
qed

lemma same_refusals_concat:
  assumes "\<And>x. x \<in> set xs \<Longrightarrow> same_refusals (f x) (g x)"
  shows "same_refusals (map_option concat (all_of (map f xs))) (map_option concat (all_of (map g xs)))"
proof -
  have "rel_option (list_all2 (\<lambda>fs gs. any_refused fs \<longleftrightarrow> any_refused gs)) (all_of (map f xs)) (all_of (map g xs))"
    by (rule all_of_rel) (use assms in \<open>auto simp: same_refusals_def\<close>)
  then show ?thesis unfolding same_refusals_def option.rel_map
    by (rule option.rel_mono_strong) (erule any_refused_rels)
qed

lemma bind_concat:
  "Option.bind a (\<lambda>x. k (concat x)) = Option.bind (map_option concat a) k"
  by (cases a) simp_all

lemma same_refusals_bind:
  assumes "same_refusals a b" "same_refusals c d"
  shows "same_refusals
      (Option.bind a (\<lambda>x. Option.bind c (\<lambda>y. Some (x @ map in_substitution (filter (\<lambda>f. verdict f \<noteq> Allow) y)))))
      (Option.bind b (\<lambda>x. Option.bind d (\<lambda>y. Some (x @ map in_substitution (filter (\<lambda>f. verdict f \<noteq> Allow) y)))))"
  using assms by (cases a; cases b; cases c; cases d) (simp_all add: same_refusals_def)

lemma same_refusals_parsed:
  "same_refusals (classify_parsed p (with_allowed ns e)) (classify_parsed p e)"
proof -
  have "same_refusals
      (map_option concat (all_of (map (\<lambda>pipe. classify_stages pipe (with_allowed ns e)) xs)))
      (map_option concat (all_of (map (\<lambda>pipe. classify_stages pipe e) xs)))" for xs
    by (rule same_refusals_concat) (rule same_refusals_stages)
  from same_refusals_bind [OF this this]
  show ?thesis unfolding classify_parsed_def bind_concat [symmetric] .
qed

lemma same_refusal_worst:
  "same_refusals a b \<Longrightarrow>
     same_refusal (Option.bind a (\<lambda>fs. Some (worst fs w))) (Option.bind b (\<lambda>fs. Some (worst fs w)))"
  by (cases a; cases b) (simp_all add: same_refusals_def same_refusal_def worst_any_refused)

lemma clean_with_allowed: "clean_env (with_allowed ns e) = with_allowed ns (clean_env e)"
  by (simp add: clean_env_def)

lemma same_refusal_classify:
  "same_refusal (classify parse c (with_allowed ns e)) (classify parse c e)"
proof (induction "length c" arbitrary: c e rule: less_induct)
  case less
  let ?t = "trim_space c" and ?e = "clean_env e"
  obtain outer subs where os: "extract_substitutions (strip_heredoc_bodies ?t) = (outer, subs)" by fastforce
  consider (early) "?t = [] \<or> is_fork_bomb ?t" | (parsed) p where "?t \<noteq> []" "\<not> is_fork_bomb ?t" "parse ?t = Some p"
    | (raw) "?t \<noteq> []" "\<not> is_fork_bomb ?t" "parse ?t = None"
    by (cases "parse ?t") auto
  then show ?case
  proof cases
    case early
    then show ?thesis by (auto simp: classify.simps [of parse c] same_refusal_def Let_def)
  next
    case parsed
    then show ?thesis using same_refusal_worst [OF same_refusals_parsed]
      by (simp add: classify.simps [of parse c] Let_def clean_with_allowed)
  next
    case raw
    have seqs: "same_refusals
        (map_option concat (all_of (map (\<lambda>s. classify_pipeline s (with_allowed ns ?e)) (split_sequence outer))))
        (map_option concat (all_of (map (\<lambda>s. classify_pipeline s ?e) (split_sequence outer))))"
      by (rule same_refusals_concat) (rule same_refusals_pipeline)
    have "same_refusals (all_of (map (\<lambda>s. classify parse s (with_allowed ns ?e)) subs))
        (all_of (map (\<lambda>s. classify parse s ?e) subs))"
    proof (rule same_refusals_all)
      fix x assume "x \<in> set subs"
      then have "length x < length c" using strip_extract_short [of x c] os by simp
      then show "same_refusal (classify parse x (with_allowed ns ?e)) (classify parse x ?e)"
        by (rule less)
    qed
    from same_refusal_worst [OF same_refusals_bind [OF seqs this], of ?t] raw
    show ?thesis
      by (simp add: classify.simps [of parse c] Let_def clean_with_allowed os bind_assoc
          bind_concat [symmetric, of _ "\<lambda>x. Option.bind _ (\<lambda>y. Some (worst (x @ _ y) _))"])
  qed
qed

text \<open>
  The allowlist answers prompts and nothing more. Whatever commands a project allows, a line
  is refused with them exactly when it is refused without them.
\<close>

theorem allowlist_never_unlocks:
  assumes "classify parse c e = Some r" and "classify parse c (with_allowed names e) = Some r'"
  shows "verdict r' = Refuse \<longleftrightarrow> verdict r = Refuse"
  using same_refusal_classify [of parse c names e] assms by (simp add: same_refusal_def)

lemma demo_unlisted: "classify no_parse ''make all'' demo_env =
     Some (mk_finding NeedsApproval (''make'' @ reason_unlisted) ''make all'')"
  by code_simp

lemma demo_listed: "classify no_parse ''make all'' (with_allowed [''make''] demo_env) =
     Some (mk_finding Allow reason_no_match ''make all'')"
  by code_simp

theorem allowlist_never_unlocks_witness:
  "verdict (mk_finding Allow reason_no_match ''make all'') = Refuse
     \<longleftrightarrow> verdict (mk_finding NeedsApproval (''make'' @ reason_unlisted) ''make all'') = Refuse"
  by (rule allowlist_never_unlocks [OF demo_unlisted demo_listed])

section \<open>Classification returns\<close>

lemma rm_targets_ends: "plain_env e \<Longrightarrow> \<exists>f. rm_targets cmd e ts = Some f"
proof (induction ts)
  case (Cons t ts)
  then obtain x ok where "expand_path e t = Some (x, ok)" using expand_path_ends [of e t] by auto
  with Cons show ?case by auto
qed simp

lemma classify_rm_ends: "plain_env e \<Longrightarrow> \<exists>f. classify_rm frag tokens e = Some f"
  by (simp add: classify_rm_def rm_targets_ends)

lemma special_rule_ends: "plain_env e \<Longrightarrow> \<exists>fs. special_rule name frag tokens e = Some fs"
proof -
  assume p: "plain_env e"
  obtain f where "classify_rm frag tokens e = Some f"
    using classify_rm_ends [OF p] by blast
  moreover obtain g where "classify_chmod_chown frag tokens e = Some g"
  proof (cases "rule_targets tokens = []")
    case False
    obtain x ok where "expand_path e (last (rule_targets tokens)) = Some (x, ok)"
      using expand_path_ends [OF p] by fastforce
    with False that show ?thesis by (auto simp: classify_chmod_chown_def Let_def)
  qed (use that in \<open>simp add: classify_chmod_chown_def\<close>)
  ultimately show ?thesis by (simp add: special_rule_def)
qed

lemma classify_tokens_ends: "plain_env e \<Longrightarrow> \<exists>f. classify_tokens frag ws e = Some f"
proof (induction frag ws e rule: classify_tokens.induct)
  case (1 frag raw e)
  let ?t = "without_assignments raw" and ?x = "xargs_command (without_assignments raw)"
  show ?case
  proof (cases "raw \<noteq> [] \<and> ?t \<noteq> [] \<and> base_name (hd ?t) = ''xargs'' \<and> ?x \<noteq> []")
    case True
    then obtain f where "classify_tokens (join_with '' '' ?x) (tokenize (join_with '' '' ?x)) e = Some f"
      using "1.IH" [OF _ _ refl refl] "1.prems" by blast
    then show ?thesis using True by (simp add: classify_tokens.simps [of frag raw] Let_def)
  next
    case False
    obtain fs where "special_rule (base_name (hd ?t)) frag ?t e = Some fs"
      using special_rule_ends [OF "1.prems"] by blast
    then show ?thesis using False by (auto simp: classify_tokens.simps [of frag raw] Let_def)
  qed
qed

lemma plain_clean_env: "plain_env e \<Longrightarrow> clean (project_root e) = project_root e \<Longrightarrow> plain_env (clean_env e)"
  by (simp add: plain_env_def clean_env_def clean_root_def)

lemma classify_stages_ends: "plain_env e \<Longrightarrow> \<exists>fs. classify_stages pipe e = Some fs"
  by (cases "pipe_to_shell (map cn_words (pl_stages pipe))")
    (auto simp: classify_stages_def intro!: all_of_exists classify_tokens_ends)

lemma classify_pipeline_ends: "plain_env e \<Longrightarrow> \<exists>fs. classify_pipeline pipe e = Some fs"
  by (cases "pipe_to_shell_reason (trim_space pipe)")
    (auto simp: classify_pipeline_def classify_command_def Let_def
      intro!: all_of_exists classify_tokens_ends)

lemma classify_parsed_ends:
  assumes "plain_env e"
  shows "\<exists>fs. classify_parsed p e = Some fs"
proof -
  have "\<exists>fss. all_of (map (\<lambda>pipe. classify_stages pipe e) xs) = Some fss" for xs
    by (rule all_of_exists) (rule classify_stages_ends [OF assms])
  then show ?thesis unfolding classify_parsed_def by (metis bind.bind_lunit)
qed



section \<open>Where the guard falls short\<close>

definition quoted_subst :: string where
  "quoted_subst = ''echo '' @ [dquote] @ ''$(rm -rf ~)'' @ [dquote, nl] @ ''echo '' @ [squote] @ ''x''"

definition bare_subst :: string where
  "bare_subst = ''echo $(rm -rf ~)'' @ [nl] @ ''echo '' @ [squote] @ ''x''"

text \<open>
  A substitution inside double quotes escapes the fallback reader. When the parser rejects
  the text (here for its unclosed quote), a line that deletes the home directory through
  \<open>"$(rm -rf ~)"\<close> on its first line is allowed, while the same substitution outside the quotes is
  refused.
\<close>

theorem quoted_substitution_escapes:
  "map_option verdict (classify no_parse quoted_subst demo_env) = Some Allow
   \<and> map_option verdict (classify no_parse bare_subst demo_env) = Some Refuse"
proof
  show "map_option verdict (classify no_parse quoted_subst demo_env) = Some Allow" by code_simp
  show "map_option verdict (classify no_parse bare_subst demo_env) = Some Refuse" by code_simp
qed

text \<open>
  The protected-path rule knows two spellings of a redirect. \<open>echo x > hk.pkl\<close> is refused, and
  the same write through \<open>>|\<close>, \<open>&>\<close> or \<open>1>\<close>, which the package's own list of write redirections
  names, is allowed.
\<close>

theorem redirect_spelling_escapes:
  "map_option verdict (classify_tokens ''echo'' [''echo'', ''x'', ''>'', ''hk.pkl''] demo_env) = Some Refuse
   \<and> list_all (\<lambda>op. is_write_redirect op
        \<and> map_option verdict (classify_tokens ''echo'' [''echo'', ''x'', op, ''hk.pkl''] demo_env) = Some Allow)
       [''>|'', ''&>'', ''1>'']"
proof
  show "map_option verdict (classify_tokens ''echo'' [''echo'', ''x'', ''>'', ''hk.pkl''] demo_env) = Some Refuse"
    by code_simp
  show "list_all (\<lambda>op. is_write_redirect op
        \<and> map_option verdict (classify_tokens ''echo'' [''echo'', ''x'', op, ''hk.pkl''] demo_env) = Some Allow)
       [''>|'', ''&>'', ''1>'']"
    by code_simp
qed

lemma index_of_after:
  "CHR ''$'' \<notin> set pre \<Longrightarrow> index_of (pre @ CHR ''$'' # s) (CHR ''$'' # s) = Some (length pre)"
  by (induction pre) auto

lemma replace_bare_loops:
  assumes "replace_bare s name val = Some r"
  shows "val = CHR ''/'' # CHR ''$'' # name \<longrightarrow> (\<forall>pre. CHR ''$'' \<notin> set pre \<longrightarrow> s \<noteq> pre @ CHR ''$'' # name)"
    (is "?P s name val r")
  using assms
proof (rule replace_bare.raw_induct [where P = "?P", rotated])
  fix rc s name val r
  assume IH: "\<And>s name val r. rc s name val = Some r \<Longrightarrow> ?P s name val r"
    and body: "(case index_of s (CHR ''$'' # name) of
        None \<Rightarrow> Some s
      | Some i \<Rightarrow>
          (if i + length name + 1 < length s \<and> is_word_char (s ! (i + length name + 1)) then Some s
           else rc (take i s @ val @ drop (i + length name + 1) s) name val)) = Some r"
  show "?P s name val r"
  proof (intro impI allI notI)
    fix pre assume v: "val = CHR ''/'' # CHR ''$'' # name" and pre: "CHR ''$'' \<notin> set pre"
      and s: "s = pre @ CHR ''$'' # name"
    have "index_of s (CHR ''$'' # name) = Some (length pre)" unfolding s by (rule index_of_after [OF pre])
    then have "rc ((pre @ ''/'') @ CHR ''$'' # name) name val = Some r" using body by (simp add: s v)
    from IH [OF this] v have "CHR ''$'' \<in> set (pre @ ''/'')" by blast
    with pre show False by simp
  qed
qed

text \<open>
  Path expansion can loop for ever. With a home directory \<open>/$HOME\<close>, the value that replaces
  \<open>$HOME\<close> brings the variable back, so the expansion of \<open>$HOME\<close> never returns and \<open>rm -rf $HOME\<close>
  gets no verdict.
\<close>

theorem expansion_can_hang:
  assumes "home e = ''/$HOME''"
  shows "expand_path e ''$HOME'' = None \<and> classify_tokens frag [''rm'', ''-rf'', ''$HOME''] e = None"
proof -
  have "replace_bare ''$HOME'' ''HOME'' ''/$HOME'' = None"
  proof (cases "replace_bare ''$HOME'' ''HOME'' ''/$HOME''")
    case (Some r)
    from replace_bare_loops [OF Some] show ?thesis by (metis append_Nil empty_iff list.set(1))
  qed
  moreover have "replace_all (expand_tilde ''/$HOME'' ''$HOME'') ''${HOME}'' ''/$HOME'' = ''$HOME''"
    by code_simp
  ultimately have x: "expand_path e ''$HOME'' = None"
    using assms by (simp add: expand_path_def replace_var_def)
  have c: "without_assignments [''rm'', ''-rf'', ''$HOME''] = [''rm'', ''-rf'', ''$HOME'']"
    "base_name ''rm'' = ''rm''" "has_recursive_force [''rm'', ''-rf'', ''$HOME'']"
    "rule_targets [''rm'', ''-rf'', ''$HOME''] = [''$HOME'']"
    by code_simp+
  then have "classify_rm frag [''rm'', ''-rf'', ''$HOME''] e = None" using x by (simp add: classify_rm_def)
  then show ?thesis using x c by (simp add: classify_tokens.simps [of frag] special_rule_def Let_def)
qed

theorem expansion_can_hang_witness:
  "expand_path (demo_env\<lparr>home := ''/$HOME''\<rparr>) ''$HOME'' = None"
  using expansion_can_hang [of "demo_env\<lparr>home := ''/$HOME''\<rparr>"] by simp

end
