(* ===== verification/GuardChecks.thy ===== *)
theory GuardChecks
  imports Guard
begin

text \<open>
  What else \<open>internal/guard\<close> reads off a command: the project's own checks a command re-runs
  (\<open>checks.go\<close>, \<open>declared.go\<close>), the scripts it executes (\<open>executed.go\<close>) and the files a parsed
  command writes (\<open>writes.go\<close>). The regular expressions of \<open>textTargets\<close>, which answer for text
  the parser rejects, are left out.
\<close>

section \<open>Checks the harness runs itself\<close>

definition harness_tools :: "(string \<times> string) list" where
  "harness_tools =
     [(''golangci-lint'', ''lint''), (''gofmt'', ''format''), (''goimports'', ''format''),
      (''hk'', ''the hook pipeline'')]"

definition after_exec :: "string list \<Rightarrow> string list" where
  "after_exec tokens = tl (dropWhile (\<lambda>t. t \<noteq> ''--'') tokens)"

definition go_sweeps :: "(string \<times> string) list" where
  "go_sweeps = [(''build'', ''build''), (''test'', ''tests''), (''vet'', ''vet'')]"

definition whole_tree :: string where
  "whole_tree = ''./...''"

definition go_check :: "string list \<Rightarrow> string option" where
  "go_check tokens =
     (if length tokens < 2 then None
      else (case map_of go_sweeps (tokens ! 1) of
              None \<Rightarrow> None
            | Some name \<Rightarrow> if whole_tree \<in> set (drop 2 tokens) then Some name else None))"

lemma length_after_exec: "tokens \<noteq> [] \<Longrightarrow> length (after_exec tokens) < length tokens"
proof -
  assume "tokens \<noteq> []"
  moreover have "length (dropWhile (\<lambda>t. t \<noteq> ''--'') tokens) \<le> length tokens" by (rule length_dropWhile_le)
  moreover have "length (after_exec tokens) = length (dropWhile (\<lambda>t. t \<noteq> ''--'') tokens) - 1"
    by (simp add: after_exec_def)
  ultimately show ?thesis by (cases tokens) (simp_all del: dropWhile.simps)
qed

function check_of :: "string list \<Rightarrow> string option" where
  "check_of tokens =
     (if tokens = [] then None
      else
        (let h = base_name (hd tokens) in
         if h = ''mise'' \<and> length tokens > 1 \<and> tokens ! 1 = ''exec'' then check_of (after_exec tokens)
         else (case map_of harness_tools h of
                 Some name \<Rightarrow> Some name
               | None \<Rightarrow>
                   if h = ''mise'' \<and> length tokens > 1 \<and> tokens ! 1 = ''run'' then Some ''the mise task''
                   else if h = ''go'' then go_check tokens
                   else None)))"
  by pat_completeness auto
termination by (relation "measure length") (auto intro: length_after_exec)

declare check_of.simps [simp del]

text \<open>The loops over the sequence elements of a command return the first answer.\<close>

fun first_some :: "('a \<Rightarrow> 'b option) \<Rightarrow> 'a list \<Rightarrow> 'b option" where
  "first_some f [] = None"
| "first_some f (x # xs) = (case f x of Some y \<Rightarrow> Some y | None \<Rightarrow> first_some f xs)"

definition project_check :: "string \<Rightarrow> string option" where
  "project_check command =
     first_some (\<lambda>s. check_of (tokenize s)) (split_sequence (trim_space command))"

definition vcs_reads :: "string list" where
  "vcs_reads = [''diff'', ''log'', ''show'', ''st'', ''status'']"

definition vcs_inspect :: "string \<Rightarrow> bool" where
  "vcs_inspect command =
     (let tokens = tokenize (trim_space command) in
      if length tokens < 2 then False
      else if base_name (hd tokens) \<noteq> ''git'' \<and> base_name (hd tokens) \<noteq> ''jj'' then False
      else tokens ! 1 \<in> set vcs_reads)"

definition in_place_commands :: "string list" where
  "in_place_commands = [''perl'', ''ruby'', ''sed'']"

definition in_place_flag :: "string \<Rightarrow> bool" where
  "in_place_flag tok =
     (if has_prefix tok ''--'' then tok = ''--in-place'' \<or> has_prefix tok ''--in-place=''
      else if \<not> has_prefix tok ''-'' \<or> tok = ''-'' then False
      else (let cluster = fst (cut_byte (tl tok) CHR ''='')
            in \<not> has_prefix cluster ''I'' \<and> contains_byte cluster CHR ''i''))"

definition in_place_edit_of :: "string list \<Rightarrow> string option" where
  "in_place_edit_of tokens =
     (case tokens of
        [] \<Rightarrow> None
      | t # ts \<Rightarrow>
          if base_name t \<notin> set in_place_commands then None
          else if list_ex in_place_flag ts then Some (base_name t) else None)"

definition in_place_edit :: "string \<Rightarrow> string option" where
  "in_place_edit command =
     first_some (\<lambda>s. in_place_edit_of (tokenize s)) (split_sequence (trim_space command))"

definition go_package_dir :: "string \<Rightarrow> string" where
  "go_package_dir pat = trim_suffix (trim_suffix (trim_prefix pat ''./'') ''...'') ''/''"

text \<open>The loop over the arguments of \<open>goPackageSweepOf\<close>; \<open>None\<close> is its early return on \<open>-run\<close>.\<close>

fun sweep_args :: "string list \<Rightarrow> string list option" where
  "sweep_args [] = Some []"
| "sweep_args (tok # toks) =
     (if tok = ''-run'' \<or> has_prefix tok ''-run='' then None
      else if tok = whole_tree \<or> \<not> has_prefix tok ''./'' then sweep_args toks
      else map_option ((#) (go_package_dir tok)) (sweep_args toks))"

function go_package_sweep_of :: "string list \<Rightarrow> string list option" where
  "go_package_sweep_of tokens =
     (if length tokens < 2 then None
      else if base_name (hd tokens) = ''mise'' \<and> tokens ! 1 = ''exec'' then
        go_package_sweep_of (after_exec tokens)
      else if base_name (hd tokens) \<noteq> ''go'' then None
      else (case map_of go_sweeps (tokens ! 1) of
              None \<Rightarrow> None
            | Some _ \<Rightarrow>
                (case sweep_args (drop 2 tokens) of
                   None \<Rightarrow> None
                 | Some pkgs \<Rightarrow> if pkgs \<noteq> [] then Some pkgs else None)))"
  by pat_completeness auto
termination by (relation "measure length") (auto intro!: length_after_exec)

declare go_package_sweep_of.simps [simp del]

definition go_package_sweep :: "string \<Rightarrow> string list option" where
  "go_package_sweep command =
     first_some (\<lambda>s. go_package_sweep_of (tokenize s)) (split_sequence (trim_space command))"

section \<open>Declared checks\<close>

record declared =
  dc_name :: string
  dc_command :: string

definition is_shell_operator :: "string \<Rightarrow> bool" where
  "is_shell_operator tok = (tok \<in> set [''&&'', ''||'', '';'', ''|'', ''>'', ''>>''])"

definition is_operator :: "string \<Rightarrow> bool" where
  "is_operator tok = (if is_shell_operator tok \<or> tok = ''&'' then True else contains_any tok ''<>'')"

definition looks_like_target :: "string \<Rightarrow> bool" where
  "looks_like_target path =
     (if path = [] \<or> path = ''-'' \<or> path = ''/'' \<or> path = ''.'' \<or> path = ''..'' then False
      else if has_prefix path ''/dev/'' \<or> contains path ''://'' then False
      else if contains_any path unresolved_chars then False
      else True)"

definition leading_words :: "string list \<Rightarrow> string list" where
  "leading_words tokens = takeWhile (\<lambda>t. \<not> (has_prefix t ''-'' \<or> has_prefix t ''{'')) tokens"

fun path_args :: "string list \<Rightarrow> string list" where
  "path_args [] = []"
| "path_args (tok # toks) =
     (if is_operator tok then []
      else if has_prefix tok ''-'' then
        (if \<not> contains_byte tok CHR ''='' \<and> toks \<noteq> [] \<and> \<not> is_operator (hd toks)
         then path_args (tl toks) else path_args toks)
      else if looks_like_target tok then tok # path_args toks
      else path_args toks)"

definition match_declared :: "string list \<Rightarrow> string \<Rightarrow> string list option" where
  "match_declared tokens declared_command =
     (let lead = leading_words (tokenize declared_command) in
      if lead = [] \<or> length tokens < length lead then None
      else if take (length lead) tokens \<noteq> lead then None
      else Some (path_args (drop (length lead) tokens)))"

definition declared_check :: "string \<Rightarrow> declared list \<Rightarrow> (string \<times> string list) option" where
  "declared_check command ds =
     first_some (\<lambda>s. first_some (\<lambda>d. map_option (\<lambda>paths. (dc_name d, paths))
         (match_declared (tokenize s) (dc_command d))) ds)
       (split_sequence (trim_space command))"

section \<open>Scripts a command executes\<close>

definition interpreters :: "string list" where
  "interpreters =
     [''ash'', ''bash'', ''dash'', ''ksh'', ''sh'', ''zsh'', ''node'', ''perl'', ''python'', ''python3'', ''ruby'']"

definition runs_inline_code :: "string list \<Rightarrow> bool" where
  "runs_inline_code args =
     (case dropWhile (\<lambda>a. \<not> (a = ''-c'' \<or> a = ''-e'') \<and> has_prefix a ''-'') args of
        [] \<Rightarrow> False
      | a # _ \<Rightarrow> a = ''-c'' \<or> a = ''-e'')"

definition inside_root :: "string \<Rightarrow> string \<Rightarrow> string option" where
  "inside_root arg root =
     (if root = [] \<or> arg = [] then None
      else
        (let p = (if is_abs arg then arg else path_join root arg) in
         case path_rel root (clean p) of
           None \<Rightarrow> None
         | Some rel \<Rightarrow> if rel = ''.'' \<or> has_prefix rel ''..'' then None else Some rel))"

text \<open>\<open>projectPaths\<close> with its limit; \<open>out\<close> is what it has collected.\<close>

fun project_paths :: "string list \<Rightarrow> string \<Rightarrow> nat \<Rightarrow> string list \<Rightarrow> string list" where
  "project_paths [] root limit out = out"
| "project_paths (arg # args) root limit out =
     (if has_prefix arg ''-'' then project_paths args root limit out
      else (case inside_root arg root of
              None \<Rightarrow> out
            | Some rel \<Rightarrow>
                if length (out @ [rel]) = limit then out @ [rel]
                else project_paths args root limit (out @ [rel])))"

definition looks_like_path :: "string \<Rightarrow> bool" where
  "looks_like_path tok = contains tok ''/''"

definition scripts_in :: "string \<Rightarrow> string \<Rightarrow> string list" where
  "scripts_in stage root =
     (case tokenize stage of
        [] \<Rightarrow> []
      | t # ts \<Rightarrow>
          if base_name t = ''source'' \<or> t = ''.'' then project_paths ts root 1 []
          else if base_name t \<in> set interpreters then
            (if runs_inline_code ts then [] else project_paths ts root 1 [])
          else if looks_like_path t then project_paths [t] root 1 []
          else [])"

definition strip_substitutions :: "string \<Rightarrow> string" where
  "strip_substitutions command = fst (extract_substitutions (trim_space command))"

definition executed_scripts :: "string \<Rightarrow> env \<Rightarrow> string list" where
  "executed_scripts command e =
     dedup [] (concat (map (\<lambda>s. concat (map (\<lambda>stage. scripts_in stage (clean_root (project_root e)))
       (split_pipeline s))) (split_sequence (strip_substitutions command))))"

definition shebang :: "string \<Rightarrow> string option" where
  "shebang body =
     (if \<not> has_prefix body ''#!'' then None
      else Some (trim_space (trim_prefix (fst (cut_byte body nl)) ''#!'')))"

definition interpreter_of :: "string \<Rightarrow> string" where
  "interpreter_of line =
     (case GoStrings.fields line of
        [] \<Rightarrow> []
      | f # fs \<Rightarrow>
          if base_name f \<noteq> ''env'' then f
          else (case find (\<lambda>x. \<not> has_prefix x ''-'' \<and> \<not> contains_byte x CHR ''='') fs of
                  Some x \<Rightarrow> x | None \<Rightarrow> []))"

definition readable_as_shell :: "string \<Rightarrow> string \<Rightarrow> bool" where
  "readable_as_shell path body =
     (case shebang body of
        Some line \<Rightarrow> base_name (interpreter_of line) \<in> set shell_interpreters
      | None \<Rightarrow> to_lower (path_ext path) \<in> set [[], ''.sh'', ''.bash'', ''.zsh'', ''.ksh''])"

section \<open>Files a parsed command writes\<close>

definition move_copy_commands :: "string list" where
  "move_copy_commands = [''cp'', ''install'', ''mv'', ''rsync'']"

definition remove_commands :: "string list" where
  "remove_commands = [''rm'', ''rmdir'', ''shred'', ''unlink'']"

definition tee_commands :: "string list" where
  "tee_commands = [''tee'']"

definition formatters :: "(string \<times> string list option) list" where
  "formatters =
     [(''biome'', Some [''--write'']),
      (''black'', None),
      (''cargo'', Some [''fmt'']),
      (''go'', Some [''fmt'', ''generate'']),
      (''gofmt'', Some [''-w'']),
      (''gofumpt'', Some [''-w'']),
      (''goimports'', Some [''-w'']),
      (''isort'', None),
      (''mdformat'', None),
      (''prettier'', Some [''--write'', ''-w'']),
      (''ruff'', Some [''format'', ''--fix'']),
      (''shfmt'', Some [''-w'']),
      (''taplo'', Some [''fmt''])]"

definition is_descriptor :: "string \<Rightarrow> bool" where
  "is_descriptor word = (if word = ''-'' then True else word \<noteq> [] \<and> strip_fd word = [])"

fun redirect_targets :: "string list \<Rightarrow> string list" where
  "redirect_targets [] = []"
| "redirect_targets (word # rest) =
     (if \<not> is_write_redirect word \<or> rest = [] then redirect_targets rest
      else if contains_byte word CHR ''&'' \<and> is_descriptor (hd rest) then redirect_targets rest
      else hd rest # redirect_targets rest)"

definition holds_command :: "string list \<Rightarrow> string list \<Rightarrow> bool" where
  "holds_command ws names = list_ex (\<lambda>w. base_name w \<in> set names) ws"

definition has_in_place_flag :: "string list \<Rightarrow> bool" where
  "has_in_place_flag ws =
     (if \<not> holds_command ws in_place_commands then False
      else list_ex (\<lambda>w. w = ''-i'' \<or> has_prefix w ''-i.'') ws)"

definition stage_formats :: "string list \<Rightarrow> bool" where
  "stage_formats ws =
     list_ex (\<lambda>w. case map_of formatters (base_name w) of
        None \<Rightarrow> False
      | Some None \<Rightarrow> True
      | Some (Some flags) \<Rightarrow> list_ex (\<lambda>flag. flag \<in> set ws) flags) ws"

fun words_after_loop :: "string list \<Rightarrow> bool \<Rightarrow> string list \<Rightarrow> string list" where
  "words_after_loop names collecting [] = []"
| "words_after_loop names collecting (w # ws) =
     (if base_name w \<in> set names then words_after_loop names True ws
      else if \<not> collecting then words_after_loop names collecting ws
      else if has_prefix w ''-'' then words_after_loop names collecting ws
      else if is_write_redirect w then words_after_loop names False ws
      else w # words_after_loop names collecting ws)"

definition words_after :: "string list \<Rightarrow> string list \<Rightarrow> string list" where
  "words_after ws names = words_after_loop names False ws"

definition formatter_names :: "string list" where
  "formatter_names = map fst formatters"

definition stage_targets :: "string list \<Rightarrow> string list" where
  "stage_targets ws =
     redirect_targets ws
     @ (if has_in_place_flag ws then words_after ws in_place_commands else [])
     @ (if stage_formats ws then words_after ws formatter_names else [])
     @ concat (map (words_after ws) [move_copy_commands, remove_commands, tee_commands])"

definition parsed_targets :: "parsed \<Rightarrow> string list" where
  "parsed_targets p = concat (map stage_targets (parsed_words p))"

text \<open>One turn of the loop of \<open>normalizeTargets\<close>, without its deduplication.\<close>

definition normalize_target :: "string \<Rightarrow> string \<Rightarrow> string option" where
  "normalize_target root t =
     (let path = trim_chars (trim_space t) [dquote, squote, backtick] in
      if \<not> looks_like_target path then None
      else Some (clean (if \<not> is_abs path \<and> root \<noteq> [] then path_join root path else path)))"

definition normalize_targets :: "string list \<Rightarrow> string \<Rightarrow> string list" where
  "normalize_targets targets root = sort_strings (dedup [] (List.map_filter (normalize_target root) targets))"

text \<open>\<open>WriteTargets\<close> of a line the parser accepts.\<close>

definition write_targets :: "parsed \<Rightarrow> env \<Rightarrow> string list" where
  "write_targets p e = normalize_targets (parsed_targets p) (clean_root (project_root e))"

section \<open>Properties\<close>

lemma first_some_iff: "first_some f xs = None \<longleftrightarrow> (\<forall>x \<in> set xs. f x = None)"
  by (induction xs) (auto split: option.splits)

lemma first_someD: "first_some f xs = Some y \<Longrightarrow> \<exists>x \<in> set xs. f x = Some y"
  by (induction xs) (auto split: option.splits)

text \<open>Scripts: what \<open>insideRoot\<close> resolves lies strictly inside the root.\<close>

lemma inside_root_strict:
  assumes "inside_root arg root = Some rel" "is_abs root"
  shows "strict_prefix (path_comps root) (path_comps (if is_abs arg then arg else root @ ''/'' @ arg))"
    "path_rel root (clean (if is_abs arg then arg else path_join root arg)) = Some rel"
proof -
  let ?p = "if is_abs arg then arg else path_join root arg"
  let ?q = "if is_abs arg then arg else root @ ''/'' @ arg"
  have ne: "root \<noteq> []" using assms(2) by (auto simp: is_abs_def)
  have r: "path_rel root (clean ?p) = Some rel" "rel \<noteq> ''.''" "\<not> has_prefix rel ''..''"
    using assms(1) by (auto simp: inside_root_def Let_def split: if_splits option.splits)
  then show "path_rel root (clean ?p) = Some rel" by simp
  have absq: "is_abs ?q" using assms(2) ne by (cases root) (auto simp: is_abs_def)
  have pq: "clean ?p = clean ?q" using ne by (simp add: path_join_def clean_clean)
  have absp: "is_abs (clean ?p)" unfolding pq using absq by (simp add: is_abs_clean)
  have nc: "\<not> climbs rel" using r(3) by (auto simp: climbs_def has_prefix_iff)
  obtain r' where "path_rel root (clean ?p) = Some r'" "climbs r' \<longleftrightarrow> \<not> prefix (path_comps root) (path_comps (clean ?p))"
    by (rule path_rel_abs [OF assms(2) absp])
  then have pre: "prefix (path_comps root) (path_comps ?q)"
    using r(1) nc unfolding pq by (simp add: path_comps_clean)
  moreover have "path_comps root \<noteq> path_comps ?q"
  proof
    assume "path_comps root = path_comps ?q"
    then have "clean root = clean (clean ?p)" using assms(2) absq by (simp add: clean_eq_iff clean_clean pq)
    then have "path_rel root (clean ?p) = Some ''.''" by (simp add: path_rel_def)
    with r show False by simp
  qed
  ultimately show "strict_prefix (path_comps root) (path_comps ?q)" by (simp add: strict_prefix_def)
qed

lemma project_paths_inside:
  "x \<in> set (project_paths args root limit out) \<Longrightarrow>
     x \<in> set out \<or> (\<exists>arg \<in> set args. inside_root arg root = Some x)"
  by (induction args root limit out rule: project_paths.induct) (auto split: if_splits option.splits)

lemma scripts_in_inside:
  "x \<in> set (scripts_in stage root) \<Longrightarrow> \<exists>arg \<in> set (tokenize stage). inside_root arg root = Some x"
proof -
  assume x: "x \<in> set (scripts_in stage root)"
  then obtain t ts where t: "tokenize stage = t # ts" by (cases "tokenize stage") (auto simp: scripts_in_def)
  have "x \<in> set (project_paths ts root 1 []) \<or> x \<in> set (project_paths [t] root 1 [])"
    using x unfolding scripts_in_def t by (simp split: if_splits)
  then show ?thesis unfolding t using project_paths_inside [of x _ root 1 "[]"] by fastforce
qed

text \<open>
  Every script reported for a command is named by a word of the command and lies strictly
  inside the project root, component by component, and none is reported twice.
\<close>

theorem executed_scripts_inside:
  assumes "is_abs (project_root e)"
  shows "distinct (executed_scripts command e)
     \<and> (\<forall>x \<in> set (executed_scripts command e). \<exists>arg root.
          root = clean (project_root e) \<and> inside_root arg root = Some x
          \<and> strict_prefix (path_comps root) (path_comps (if is_abs arg then arg else root @ ''/'' @ arg)))"
proof (intro conjI ballI)
  show "distinct (executed_scripts command e)" by (simp add: executed_scripts_def distinct_dedup)
  have root: "clean_root (project_root e) = clean (project_root e)"
    using assms by (auto simp: clean_root_def is_abs_def)
  have abs: "is_abs (clean (project_root e))" using assms by (simp add: is_abs_clean)
  fix x assume "x \<in> set (executed_scripts command e)"
  then obtain stage where "x \<in> set (scripts_in stage (clean (project_root e)))"
    by (auto simp: executed_scripts_def set_dedup root)
  then obtain arg where arg: "inside_root arg (clean (project_root e)) = Some x"
    using scripts_in_inside by blast
  with inside_root_strict(1) [OF arg abs]
  show "\<exists>arg root. root = clean (project_root e) \<and> inside_root arg root = Some x
      \<and> strict_prefix (path_comps root) (path_comps (if is_abs arg then arg else root @ ''/'' @ arg))"
    by blast
qed

lemma demo_scripts: "executed_scripts ''make && ./run.sh | sh tools/x.sh'' demo_env = [''run.sh'', ''tools/x.sh'']"
  by code_simp

theorem executed_scripts_inside_witness:
  "\<exists>arg. inside_root arg (clean (project_root demo_env)) = Some ''run.sh''"
proof -
  have "is_abs (project_root demo_env)" by code_simp
  from executed_scripts_inside [OF this, of "''make && ./run.sh | sh tools/x.sh''"]
  show ?thesis by (auto simp: demo_scripts)
qed

text \<open>
  Two ways a project script runs unread. The guard lets a script run by its project-relative
  path without a prompt because the caller classifies the script's contents, and the list of
  scripts the caller reads misses one behind a variable assignment and one in a directory whose
  name starts with two dots: both lines are allowed and report no script.
\<close>

theorem script_contents_escape:
  "list_all (\<lambda>line. executed_scripts line demo_env = []
      \<and> map_option verdict (classify no_parse line demo_env) = Some Allow) [''A=1 ./evil.sh'', ''..x/evil.sh'']
   \<and> executed_scripts ''./evil.sh'' demo_env = [''evil.sh'']"
proof
  show "list_all (\<lambda>line. executed_scripts line demo_env = []
      \<and> map_option verdict (classify no_parse line demo_env) = Some Allow) [''A=1 ./evil.sh'', ''..x/evil.sh'']" by code_simp
  show "executed_scripts ''./evil.sh'' demo_env = [''evil.sh'']" by code_simp
qed

text \<open>Write targets.\<close>

lemma redirect_targets_mem:
  "redirect_targets ws = xs \<Longrightarrow> ws = us @ op # t # vs \<Longrightarrow> is_write_redirect op \<Longrightarrow>
     \<not> (contains_byte op CHR ''&'' \<and> is_descriptor t) \<Longrightarrow> t \<in> set xs"
  by (induction us arbitrary: ws xs) auto

lemma normalize_targets_mem:
  "t \<in> set ts \<Longrightarrow> normalize_target root t = Some p \<Longrightarrow> p \<in> set (normalize_targets ts root)"
  by (force simp: normalize_targets_def sort_strings_def set_dedup List.map_filter_def)

text \<open>
  No redirection escapes the write targets. The file any command of a parsed line opens for
  writing through a redirection, at the top level or inside a substitution, is among the targets,
  cleaned and resolved against the root; the targets are sorted and free of duplicates.
\<close>

theorem write_targets_redirects:
  assumes "us @ op # t # vs \<in> set (parsed_words p)" and "is_write_redirect op"
    and "\<not> (contains_byte op CHR ''&'' \<and> is_descriptor t)"
    and "normalize_target (clean_root (project_root e)) t = Some path"
  shows "path \<in> set (write_targets p e) \<and> sorted (write_targets p e) \<and> distinct (write_targets p e)"
proof (intro conjI)
  have "t \<in> set (redirect_targets (us @ op # t # vs))"
    using redirect_targets_mem [OF refl refl assms(2,3)] .
  then have "t \<in> set (parsed_targets p)"
    using assms(1) by (force simp: parsed_targets_def stage_targets_def)
  then show "path \<in> set (write_targets p e)"
    unfolding write_targets_def using assms(4) by (rule normalize_targets_mem)
  show "sorted (write_targets p e)" "distinct (write_targets p e)"
    by (simp_all add: write_targets_def normalize_targets_def sort_strings_def distinct_dedup)
qed

definition demo_parsed :: parsed where
  "demo_parsed = \<lparr>pr_top = [\<lparr>pl_fragment = ''ls > out'', pl_stages =
     [\<lparr>cn_fragment = ''ls > out'', cn_words = [''ls'', ''>'', ''out'']\<rparr>]\<rparr>], pr_subs = []\<rparr>"

theorem write_targets_redirects_witness: "''/p/out'' \<in> set (write_targets demo_parsed demo_env)"
proof -
  have w: "[''ls''] @ ''>'' # ''out'' # [] \<in> set (parsed_words demo_parsed)"
    "is_write_redirect ''>''" "\<not> (contains_byte ''>'' CHR ''&'' \<and> is_descriptor ''out'')"
    "normalize_target (clean_root (project_root demo_env)) ''out'' = Some ''/p/out''"
    by code_simp+
  from write_targets_redirects [OF w] show ?thesis by simp
qed

end
