(* ===== verification/Routine.thy ===== *)
theory Routine
  imports GoStrings "HOL-Library.AList"
begin

text \<open>
  \<open>internal/routine\<close>: routines as validated DAGs of actions (\<open>routine.go\<close>, \<open>builtin.go\<close>,
  \<open>cache.go\<close>) and how a run executes one (\<open>runner.go\<close>, \<open>schedule.go\<close>). An action's parameters and
  the handler it binds are values the caller supplies, so they are the type parameters \<open>'p\<close> and
  \<open>'b\<close>, and the registry is the argument \<open>reg\<close> that looks an action up by name. Durations and
  times are integers (nanoseconds). Go maps with string keys are association lists with distinct
  keys, which the code only reads by key or in sorted key order.
\<close>

section \<open>Definitions and compiled routines\<close>

datatype trigger = TriggerChange | TriggerManual | TriggerSchedule | TriggerThreadStart | TriggerThreadFinish

datatype concurrency = Queue | CancelInProgress | RoundRobin

record 'p step_def =
  sd_params :: 'p
  sd_name :: string
  sd_action :: string
  sd_parents :: "string list"

record 'p definition_t =
  df_name :: string
  df_concurrency_key :: string
  df_concurrency :: "concurrency option"
  df_triggers :: "trigger list"
  df_paths :: "string list"
  df_steps :: "'p step_def list"
  df_interval :: int
  df_enabled :: bool

record 'b step =
  st_bound :: 'b
  st_name :: string
  st_action :: string
  st_parents :: "string list"

record 'b routine =
  rt_name :: string
  rt_concurrency_key :: string
  rt_concurrency :: concurrency
  rt_triggers :: "trigger list"
  rt_paths :: "string list"
  rt_steps :: "'b step list"
  rt_order :: "nat list list"
  rt_interval :: int
  rt_enabled :: bool

datatype routine_error =
    ErrNoSteps
  | ErrDuplicateStep string
  | ErrUnknownParent string string
  | ErrCyclicDAG
  | ErrUnknownAction string string
  | ErrBind string string
  | ErrBadInterval int

type_synonym ('p, 'b) registry = "string \<Rightarrow> ('p \<Rightarrow> string + 'b) option"

definition triggered :: "'b routine \<Rightarrow> trigger \<Rightarrow> bool" where
  "triggered r t = (if \<not> rt_enabled r then False else t \<in> set (rt_triggers r))"

definition routine_key :: "'b routine \<Rightarrow> string" where
  "routine_key r = (if rt_concurrency_key r \<noteq> [] then rt_concurrency_key r else rt_name r)"

definition min_interval :: int where
  "min_interval = 30 * 1000000000"

section \<open>Binding\<close>

fun bind_loop :: "('p, 'b) registry \<Rightarrow> string list \<Rightarrow> 'p step_def list \<Rightarrow> routine_error + 'b step list" where
  "bind_loop reg seen [] = Inr []"
| "bind_loop reg seen (sd # sds) =
     (if sd_name sd \<in> set seen then Inl (ErrDuplicateStep (sd_name sd))
      else (case reg (sd_action sd) of
              None \<Rightarrow> Inl (ErrUnknownAction (sd_name sd) (sd_action sd))
            | Some bnd \<Rightarrow>
                (case bnd (sd_params sd) of
                   Inl err \<Rightarrow> Inl (ErrBind (sd_name sd) err)
                 | Inr b \<Rightarrow>
                     (case bind_loop reg (sd_name sd # seen) sds of
                        Inl e \<Rightarrow> Inl e
                      | Inr steps \<Rightarrow>
                          Inr (\<lparr>st_bound = b, st_name = sd_name sd, st_action = sd_action sd,
                                st_parents = sd_parents sd\<rparr> # steps)))))"

text \<open>The first parent, in step order, that names no step.\<close>

definition unknown_parent :: "'b step list \<Rightarrow> (string \<times> string) option" where
  "unknown_parent steps =
     find (\<lambda>(s, p). p \<notin> set (map st_name steps))
       (concat (map (\<lambda>s. map (Pair (st_name s)) (st_parents s)) steps))"

definition bind_steps :: "('p, 'b) registry \<Rightarrow> 'p definition_t \<Rightarrow> routine_error + 'b step list" where
  "bind_steps reg def =
     (case bind_loop reg [] (df_steps def) of
        Inl e \<Rightarrow> Inl e
      | Inr steps \<Rightarrow>
          (case unknown_parent steps of
             Some (s, p) \<Rightarrow> Inl (ErrUnknownParent s p)
           | None \<Rightarrow> Inr steps))"

section \<open>Dependency waves\<close>

text \<open>The index map: a later step of the same name wins, and a missing name reads as 0.\<close>

definition step_index :: "'b step list \<Rightarrow> string \<Rightarrow> nat" where
  "step_index steps name =
     (case find (\<lambda>i. st_name (steps ! i) = name) (rev [0..<length steps]) of
        Some i \<Rightarrow> i | None \<Rightarrow> 0)"

definition parents_done :: "'b step list \<Rightarrow> bool list \<Rightarrow> 'b step \<Rightarrow> bool" where
  "parents_done steps don s = list_all (\<lambda>p. don ! step_index steps p) (st_parents s)"

definition next_wave :: "'b step list \<Rightarrow> bool list \<Rightarrow> nat list" where
  "next_wave steps don =
     filter (\<lambda>i. \<not> don ! i \<and> parents_done steps don (steps ! i)) [0..<length steps]"

definition mark_done :: "nat list \<Rightarrow> bool list \<Rightarrow> bool list" where
  "mark_done wave don = foldl (\<lambda>d i. d[i := True]) don wave"

function topo_loop :: "'b step list \<Rightarrow> bool list \<Rightarrow> nat \<Rightarrow> nat list list \<Rightarrow> routine_error + nat list list" where
  "topo_loop steps don placed waves =
     (if placed < length steps then
        (let wave = next_wave steps don in
         if wave = [] then Inl ErrCyclicDAG
         else topo_loop steps (mark_done wave don) (placed + length wave) (waves @ [wave]))
      else Inr waves)"
  by pat_completeness auto
termination
  by (relation "measure (\<lambda>(steps, don, placed, waves). length steps - placed)")
    (auto simp: Let_def intro!: diff_less_mono2)

declare topo_loop.simps [simp del]

definition topo_waves :: "'b step list \<Rightarrow> routine_error + nat list list" where
  "topo_waves steps = topo_loop steps (replicate (length steps) False) 0 []"

definition compile :: "('p, 'b) registry \<Rightarrow> 'p definition_t \<Rightarrow> routine_error + 'b routine" where
  "compile reg def =
     (if df_enabled def \<and> df_steps def = [] then Inl ErrNoSteps
      else if df_enabled def \<and> TriggerSchedule \<in> set (df_triggers def) \<and> df_interval def < min_interval
      then Inl (ErrBadInterval (df_interval def))
      else
        (case bind_steps reg def of
           Inl e \<Rightarrow> Inl e
         | Inr steps \<Rightarrow>
             (case topo_waves steps of
                Inl e \<Rightarrow> Inl e
              | Inr order \<Rightarrow>
                  Inr \<lparr>rt_name = df_name def, rt_concurrency_key = df_concurrency_key def,
                       rt_concurrency = (case df_concurrency def of None \<Rightarrow> Queue | Some c \<Rightarrow> c),
                       rt_triggers = df_triggers def, rt_paths = df_paths def, rt_steps = steps,
                       rt_order = order, rt_interval = df_interval def, rt_enabled = df_enabled def\<rparr>)))"

section \<open>Sets of routines\<close>

record 'b routine_set =
  rs_by_name :: "(string \<times> 'b routine) list"
  rs_hash :: string

definition builtin_prefix :: string where
  "builtin_prefix = ''gate-''"

definition builtin_name :: "string \<Rightarrow> string" where
  "builtin_name gate = builtin_prefix @ gate"

definition gate_prefix :: string where
  "gate_prefix = ''gate.''"

definition builtin_gate :: "'p \<Rightarrow> string \<Rightarrow> 'p definition_t" where
  "builtin_gate no_params gate =
     \<lparr>df_name = builtin_name gate, df_concurrency_key = [], df_concurrency = None,
      df_triggers = [TriggerManual], df_paths = [],
      df_steps = [\<lparr>sd_params = no_params, sd_name = gate, sd_action = gate_prefix @ gate, sd_parents = []\<rparr>],
      df_interval = 0, df_enabled = True\<rparr>"

definition builtin_definitions :: "'p \<Rightarrow> (string \<times> 'p definition_t) list" where
  "builtin_definitions no_params =
     map (\<lambda>gate. (builtin_name gate, builtin_gate no_params gate))
       [''format'', ''convention'', ''lsp'', ''go-test'', ''build'']"

section \<open>The waves are a layering\<close>

definition depends :: "'b step list \<Rightarrow> (nat \<times> nat) set" where
  "depends steps = {(step_index steps p, i) | p i. i < length steps \<and> p \<in> set (st_parents (steps ! i))}"

text \<open>
  A wave may hold only steps that no earlier wave holds and whose parents all stand in earlier
  waves.
\<close>

definition layered :: "'b step list \<Rightarrow> nat list list \<Rightarrow> bool" where
  "layered steps waves =
     (\<forall>k < length waves. distinct (waves ! k) \<and>
        (\<forall>i \<in> set (waves ! k). i < length steps \<and> i \<notin> set (concat (take k waves))
           \<and> (\<forall>j. (j, i) \<in> depends steps \<longrightarrow> j \<in> set (concat (take k waves)))))"

lemma find_in_set: "find P xs = Some x \<Longrightarrow> x \<in> set xs"
  by (induction xs) (auto split: if_splits)

lemma step_index_less: "i < length steps \<Longrightarrow> step_index steps p < length steps"
  by (auto simp: step_index_def split: option.splits dest!: find_in_set)

lemma mark_done_eq:
  "(\<And>i. i \<in> set wave \<Longrightarrow> i < length don) \<Longrightarrow>
     mark_done wave don = map (\<lambda>i. i \<in> set wave \<or> don ! i) [0..<length don]"
proof (induction wave arbitrary: don)
  case Nil
  then show ?case by (simp add: mark_done_def map_nth)
next
  case (Cons w ws)
  have "mark_done (w # ws) don = mark_done ws (don[w := True])" by (simp add: mark_done_def)
  also have "\<dots> = map (\<lambda>i. i \<in> set ws \<or> don[w := True] ! i) [0..<length don]"
    using Cons.IH [of "don[w := True]"] Cons.prems by simp
  finally show ?case using Cons.prems by (auto simp: nth_list_update)
qed

definition done_flags :: "'b step list \<Rightarrow> nat list list \<Rightarrow> bool list" where
  "done_flags steps waves = map (\<lambda>i. i \<in> set (concat waves)) [0..<length steps]"

lemma next_wave_eq:
  "next_wave steps (done_flags steps waves) =
     filter (\<lambda>i. i \<notin> set (concat waves) \<and> (\<forall>j. (j, i) \<in> depends steps \<longrightarrow> j \<in> set (concat waves)))
       [0..<length steps]"
proof -
  have "parents_done steps (done_flags steps waves) (steps ! i) \<longleftrightarrow>
      (\<forall>j. (j, i) \<in> depends steps \<longrightarrow> j \<in> set (concat waves))" if "i < length steps" for i
    using that step_index_less [OF that]
    by (auto simp: parents_done_def done_flags_def depends_def list_all_iff)
  then show ?thesis
    by (auto simp: next_wave_def done_flags_def intro!: filter_cong)
qed

lemma layered_snoc:
  assumes "layered steps waves"
  shows "layered steps (waves @ [next_wave steps (done_flags steps waves)])"
  using assms by (auto simp: layered_def less_Suc_eq nth_append next_wave_eq)

lemma done_flags_snoc:
  "mark_done (next_wave steps (done_flags steps waves)) (done_flags steps waves) =
     done_flags steps (waves @ [next_wave steps (done_flags steps waves)])"
proof -
  have "i < length steps" if "i \<in> set (next_wave steps (done_flags steps waves))" for i
    using that by (simp add: next_wave_def)
  then show ?thesis
    by (subst mark_done_eq) (auto simp: done_flags_def)
qed

lemma layered_distinct: "layered steps waves \<Longrightarrow> distinct (concat waves)"
proof (induction waves rule: rev_induct)
  case (snoc w ws)
  have "layered steps ws" unfolding layered_def
  proof (intro allI impI)
    fix k assume k: "k < length ws"
    from spec [OF snoc.prems [unfolded layered_def], of k] k
    show "distinct (ws ! k) \<and> (\<forall>i \<in> set (ws ! k). i < length steps \<and> i \<notin> set (concat (take k ws))
        \<and> (\<forall>j. (j, i) \<in> depends steps \<longrightarrow> j \<in> set (concat (take k ws))))"
      by (simp add: nth_append)
  qed
  moreover have "length ws < length (ws @ [w])" by simp
  then have "distinct ((ws @ [w]) ! length ws)
      \<and> (\<forall>i \<in> set ((ws @ [w]) ! length ws). i \<notin> set (concat (take (length ws) (ws @ [w]))))"
    using snoc.prems unfolding layered_def by blast
  then have "distinct w" "\<forall>i \<in> set w. i \<notin> set (concat ws)" by simp_all
  ultimately show ?case using snoc.IH by fastforce
qed simp

lemma in_some_wave: "i \<in> set (concat waves) \<Longrightarrow> \<exists>k < length waves. i \<in> set (waves ! k)"
proof -
  assume "i \<in> set (concat waves)"
  then obtain w where "w \<in> set waves" "i \<in> set w" by auto
  then show ?thesis by (metis in_set_conv_nth)
qed

lemma layered_bound: "layered steps waves \<Longrightarrow> set (concat waves) \<subseteq> {..<length steps}"
  using in_some_wave [of _ waves] unfolding layered_def by blast

lemma topo_loop_result:
  assumes "layered steps waves" "don = done_flags steps waves" "placed = length (concat waves)"
  shows "case topo_loop steps don placed waves of
       Inr ws \<Rightarrow> layered steps ws \<and> set (concat ws) = {..<length steps}
     | Inl e \<Rightarrow> e = ErrCyclicDAG \<and> (\<exists>S. S \<noteq> {} \<and> S \<subseteq> {..<length steps}
                  \<and> (\<forall>i \<in> S. \<exists>j \<in> S. (j, i) \<in> depends steps))"
  using assms
proof (induction steps don placed waves rule: topo_loop.induct)
  case (1 steps don placed waves)
  let ?w = "next_wave steps (done_flags steps waves)"
  have card: "placed = card (set (concat waves))"
    using layered_distinct [OF "1.prems"(1)] "1.prems"(3) distinct_card by metis
  show ?case
  proof (cases "placed < length steps")
    case False
    have "set (concat waves) = {..<length steps}"
      using layered_bound [OF "1.prems"(1)] card_mono [OF _ layered_bound [OF "1.prems"(1)]] card False
      by (intro card_subset_eq) simp_all
    then show ?thesis using False "1.prems"(1) by (simp add: topo_loop.simps [of steps])
  next
    case True
    show ?thesis
    proof (cases "?w = []")
      case empty: True
      let ?S = "{..<length steps} - set (concat waves)"
      have "?S \<noteq> {}"
        using True card layered_bound [OF "1.prems"(1)] by (metis Diff_eq_empty_iff card_lessThan less_irrefl subset_antisym)
      moreover have "\<forall>i \<in> ?S. \<exists>j \<in> ?S. (j, i) \<in> depends steps"
      proof
        fix i assume i: "i \<in> ?S"
        then have "i \<notin> set ?w" using empty by simp
        then obtain j where j: "(j, i) \<in> depends steps" "j \<notin> set (concat waves)"
          using i unfolding next_wave_eq by auto
        then have "j < length steps" using i step_index_less by (auto simp: depends_def)
        with j show "\<exists>j \<in> ?S. (j, i) \<in> depends steps" by auto
      qed
      ultimately have "\<exists>S. S \<noteq> {} \<and> S \<subseteq> {..<length steps} \<and> (\<forall>i \<in> S. \<exists>j \<in> S. (j, i) \<in> depends steps)"
        by (intro exI [of _ ?S]) simp
      moreover have "topo_loop steps don placed waves = Inl ErrCyclicDAG"
        using True empty "1.prems"(2) by (subst topo_loop.simps) simp
      ultimately show ?thesis by simp
    next
      case False
      have "topo_loop steps don placed waves =
          topo_loop steps (mark_done ?w don) (placed + length ?w) (waves @ [?w])"
        using True False "1.prems"(2) by (subst topo_loop.simps) (simp add: Let_def)
      moreover have "case topo_loop steps (mark_done ?w don) (placed + length ?w) (waves @ [?w]) of
         Inr ws \<Rightarrow> layered steps ws \<and> set (concat ws) = {..<length steps}
       | Inl e \<Rightarrow> e = ErrCyclicDAG \<and> (\<exists>S. S \<noteq> {} \<and> S \<subseteq> {..<length steps}
                  \<and> (\<forall>i \<in> S. \<exists>j \<in> S. (j, i) \<in> depends steps))"
        using "1.IH" [OF True, of ?w] False "1.prems" layered_snoc [OF "1.prems"(1)] done_flags_snoc [of steps waves]
        by simp
      ultimately show ?thesis by simp
    qed
  qed
qed

lemma topo_waves_result:
  "case topo_waves steps of
     Inr ws \<Rightarrow> layered steps ws \<and> set (concat ws) = {..<length steps}
   | Inl e \<Rightarrow> e = ErrCyclicDAG \<and> (\<exists>S. S \<noteq> {} \<and> S \<subseteq> {..<length steps}
                \<and> (\<forall>i \<in> S. \<exists>j \<in> S. (j, i) \<in> depends steps))"
  unfolding topo_waves_def
  by (rule topo_loop_result) (auto simp: layered_def done_flags_def map_replicate_trivial)

lemma layered_acyclic:
  assumes "layered steps waves" "set (concat waves) = {..<length steps}"
  shows "acyclic (depends steps)"
proof -
  define rank where "rank i = (LEAST k. k < length waves \<and> i \<in> set (waves ! k))" for i
  have "rank j < rank i" if d: "(j, i) \<in> depends steps" for i j
  proof -
    have "i < length steps" using d by (auto simp: depends_def)
    then have "i \<in> set (concat waves)" unfolding assms(2) by simp
    then have "\<exists>k < length waves. i \<in> set (waves ! k)" by (rule in_some_wave)
    then have r: "rank i < length waves \<and> i \<in> set (waves ! rank i)"
      unfolding rank_def by (rule LeastI_ex)
    then have "j \<in> set (concat (take (rank i) waves))" 
      using assms(1) d r unfolding layered_def by blast
    from in_some_wave [OF this] obtain k where
      "k < length (take (rank i) waves)" "j \<in> set (take (rank i) waves ! k)" by blast
    then have k: "k < rank i" "k < length waves \<and> j \<in> set (waves ! k)" by auto
    have "rank j \<le> k" unfolding rank_def by (rule Least_le) (rule k(2))
    with k(1) show ?thesis by simp
  qed
  then show ?thesis by (intro acyclicI_order [of _ "\<lambda>i. - int (rank i)"]) simp
qed

lemma finite_depends: "finite (depends steps)"
proof -
  have "depends steps \<subseteq> (\<lambda>(i, p). (step_index steps p, i)) `
      (SIGMA i : {..<length steps}. set (st_parents (steps ! i)))"
    by (auto simp: depends_def)
  then show ?thesis by (rule finite_subset) (intro finite_imageI finite_SigmaI; simp)
qed

lemma stuck_cyclic:
  assumes "S \<noteq> {}" "\<forall>i \<in> S. \<exists>j \<in> S. (j, i) \<in> depends steps"
  shows "\<not> acyclic (depends steps)"
proof
  assume "acyclic (depends steps)"
  then have "wf (depends steps)" by (rule finite_acyclic_wf [OF finite_depends])
  then obtain z where "z \<in> S" "\<forall>y. (y, z) \<in> depends steps \<longrightarrow> y \<notin> S"
    using assms(1) by (metis equals0I wfE_min)
  with assms(2) show False by blast
qed

section \<open>Running a routine\<close>

datatype status = StatusPass | StatusFail | StatusAbstained | StatusSkipped | StatusCanceled | StatusError

record 'f outcome =
  oc_failures :: "'f list"
  oc_examined :: int
  oc_pass :: bool

record 'f step_record =
  sr_name :: string
  sr_action :: string
  sr_status :: status
  sr_error :: string
  sr_failures :: "'f list"
  sr_examined :: int

definition plain_record :: "'b step \<Rightarrow> status \<Rightarrow> 'f step_record" where
  "plain_record step st =
     \<lparr>sr_name = st_name step, sr_action = st_action step, sr_status = st, sr_error = [],
      sr_failures = [], sr_examined = 0\<rparr>"

text \<open>
  \<open>runStep\<close> after its handler returned: whether the run's context was cancelled by then, and the
  handler's error or outcome. Durations are not modelled.
\<close>

definition run_step :: "'b step \<Rightarrow> bool \<times> (string + 'f outcome) \<Rightarrow> 'f step_record" where
  "run_step step result =
     (case result of (canceled, res) \<Rightarrow>
        if canceled then plain_record step StatusCanceled
        else (case res of
                Inl err \<Rightarrow> (plain_record step StatusError)\<lparr>sr_error := err\<rparr>
              | Inr oc \<Rightarrow>
                  if oc_pass oc \<and> oc_examined oc = 0 then plain_record step StatusAbstained
                  else if oc_pass oc then (plain_record step StatusPass)\<lparr>sr_examined := oc_examined oc\<rparr>
                  else (plain_record step StatusFail)
                    \<lparr>sr_examined := oc_examined oc, sr_failures := oc_failures oc\<rparr>))"

definition parent_failed :: "'b step \<Rightarrow> string list \<Rightarrow> bool" where
  "parent_failed step failed = list_ex (\<lambda>p. p \<in> set failed) (st_parents step)"

definition blocks :: "status \<Rightarrow> bool" where
  "blocks st = (st \<noteq> StatusPass \<and> st \<noteq> StatusAbstained)"

text \<open>
  One wave: its steps read the failures of the waves before it, so their order does not matter;
  after all of them are done, the wave's own failures are added.
\<close>

definition step_in_wave ::
  "'b step list \<Rightarrow> (nat \<Rightarrow> bool \<times> (string + 'f outcome)) \<Rightarrow> string list \<Rightarrow> nat \<Rightarrow> 'f step_record" where
  "step_in_wave steps result failed i =
     (if parent_failed (steps ! i) failed then plain_record (steps ! i) StatusSkipped
      else run_step (steps ! i) (result i))"

definition run_wave ::
  "'b step list \<Rightarrow> (nat \<Rightarrow> bool \<times> (string + 'f outcome)) \<Rightarrow>
     'f step_record list \<times> string list \<Rightarrow> nat list \<Rightarrow> 'f step_record list \<times> string list" where
  "run_wave steps result st wave =
     (case st of (records, failed) \<Rightarrow>
        let records' = foldl (\<lambda>rs i. rs[i := step_in_wave steps result failed i]) records wave;
            failed' = foldl (\<lambda>f i. if blocks (sr_status (records' ! i)) then st_name (steps ! i) # f else f)
                        failed wave
        in (records', failed'))"

definition zero_record :: "'f step_record" where
  "zero_record =
     \<lparr>sr_name = [], sr_action = [], sr_status = StatusError, sr_error = [], sr_failures = [], sr_examined = 0\<rparr>"

definition execute_steps ::
  "'b step list \<Rightarrow> nat list list \<Rightarrow> (nat \<Rightarrow> bool \<times> (string + 'f outcome)) \<Rightarrow> 'f step_record list" where
  "execute_steps steps order result =
     fst (foldl (run_wave steps result) (replicate (length steps) zero_record, []) order)"

fun all_passed_loop :: "bool \<Rightarrow> 'f step_record list \<Rightarrow> bool" where
  "all_passed_loop passed [] = passed"
| "all_passed_loop passed (r # rs) =
     (case sr_status r of
        StatusPass \<Rightarrow> all_passed_loop True rs
      | StatusAbstained \<Rightarrow> all_passed_loop passed rs
      | _ \<Rightarrow> False)"

definition all_passed :: "'f step_record list \<Rightarrow> bool" where
  "all_passed records = all_passed_loop False records"

record 'f run_record =
  rr_routine :: string
  rr_trigger :: trigger
  rr_steps :: "'f step_record list"
  rr_pass :: bool

definition execute :: "'b routine \<Rightarrow> trigger \<Rightarrow> (nat \<Rightarrow> bool \<times> (string + 'f outcome)) \<Rightarrow> 'f run_record" where
  "execute rt t result =
     (let records = execute_steps (rt_steps rt) (rt_order rt) result
      in \<lparr>rr_routine = rt_name rt, rr_trigger = t, rr_steps = records, rr_pass = all_passed records\<rparr>)"

lemma all_passed_loop_iff:
  "all_passed_loop passed rs \<longleftrightarrow>
     (passed \<or> (\<exists>r \<in> set rs. sr_status r = StatusPass)) \<and> (\<forall>r \<in> set rs. \<not> blocks (sr_status r))"
  by (induction passed rs rule: all_passed_loop.induct) (auto simp: blocks_def split: status.splits)

lemma foldl_update:
  "(\<And>i. i \<in> set is \<Longrightarrow> i < length rs) \<Longrightarrow>
     foldl (\<lambda>rs i. rs[i := f i]) rs is = map (\<lambda>i. if i \<in> set is then f i else rs ! i) [0..<length rs]"
proof (induction "is" arbitrary: rs)
  case Nil
  then show ?case by (simp add: map_nth)
next
  case (Cons j js)
  have "foldl (\<lambda>rs i. rs[i := f i]) rs (j # js) = foldl (\<lambda>rs i. rs[i := f i]) (rs[j := f j]) js" by simp
  also have "\<dots> = map (\<lambda>i. if i \<in> set js then f i else rs[j := f j] ! i) [0..<length rs]"
    using Cons.IH [of "rs[j := f j]"] Cons.prems by simp
  finally show ?case using Cons.prems by (auto simp: nth_list_update)
qed

lemma set_foldl_failed:
  "set (foldl (\<lambda>f i. if P i then g i # f else f) acc is) = set acc \<union> g ` {i \<in> set is. P i}"
  by (induction "is" arbitrary: acc) auto

text \<open>What a run records for a step, given the records of all steps.\<close>

definition run_outcome ::
  "'b step list \<Rightarrow> (nat \<Rightarrow> bool \<times> (string + 'f outcome)) \<Rightarrow> 'f step_record list \<Rightarrow> nat \<Rightarrow> 'f step_record" where
  "run_outcome steps result recs i =
     (if \<exists>j. (j, i) \<in> depends steps \<and> blocks (sr_status (recs ! j))
      then plain_record (steps ! i) StatusSkipped else run_step (steps ! i) (result i))"

definition named_steps :: "'b step list \<Rightarrow> bool" where
  "named_steps steps = (distinct (map st_name steps)
     \<and> (\<forall>s \<in> set steps. set (st_parents s) \<subseteq> set (map st_name steps)))"

lemma step_index_name:
  assumes "distinct (map st_name steps)" "i < length steps"
  shows "step_index steps (st_name (steps ! i)) = i"
proof (cases "find (\<lambda>k. st_name (steps ! k) = st_name (steps ! i)) (rev [0..<length steps])")
  case None
  then show ?thesis using assms(2) by (auto simp: find_None_iff)
next
  case (Some k)
  then have "k < length steps" "st_name (steps ! k) = st_name (steps ! i)"
    using find_in_set [OF Some] by (auto simp: find_Some_iff)
  then have "k = i" using assms by (metis length_map nth_eq_iff_index_eq nth_map)
  then show ?thesis using Some by (simp add: step_index_def)
qed

lemma parent_failed_iff:
  assumes "named_steps steps" "i < length steps" "\<And>j. (j, i) \<in> depends steps \<Longrightarrow> j \<in> D"
    and "D \<subseteq> {..<length steps}"
    and "set failed = (\<lambda>j. st_name (steps ! j)) ` {j \<in> D. blocks (sr_status (recs ! j))}"
  shows "parent_failed (steps ! i) failed \<longleftrightarrow>
     (\<exists>j. (j, i) \<in> depends steps \<and> blocks (sr_status (recs ! j)))"
proof
  assume "parent_failed (steps ! i) failed"
  then obtain p where p: "p \<in> set (st_parents (steps ! i))" "p \<in> set failed"
    by (auto simp: parent_failed_def list_ex_iff)
  then obtain j where j: "j \<in> D" "blocks (sr_status (recs ! j))" "p = st_name (steps ! j)"
    using assms(5) by auto
  then have "step_index steps p = j"
    using assms(1,4) step_index_name by (auto simp: named_steps_def)
  then have "(j, i) \<in> depends steps" using p(1) assms(2) by (auto simp: depends_def)
  with j(2) show "\<exists>j. (j, i) \<in> depends steps \<and> blocks (sr_status (recs ! j))" by blast
next
  assume "\<exists>j. (j, i) \<in> depends steps \<and> blocks (sr_status (recs ! j))"
  then obtain j where j: "(j, i) \<in> depends steps" "blocks (sr_status (recs ! j))" by blast
  then obtain p where p: "j = step_index steps p" "p \<in> set (st_parents (steps ! i))"
    by (auto simp: depends_def)
  then have "p \<in> set (map st_name steps)" using assms(1,2) nth_mem by (fastforce simp: named_steps_def)
  then obtain k where k: "k < length steps" "p = st_name (steps ! k)" by (auto simp: in_set_conv_nth)
  then have "j = k" using p(1) assms(1) step_index_name by (auto simp: named_steps_def)
  moreover have "j \<in> D" by (rule assms(3) [OF j(1)])
  ultimately have "p \<in> set failed" using assms(5) j(2) k(2) by auto
  then show "parent_failed (steps ! i) failed" using p(2) by (auto simp: parent_failed_def list_ex_iff)
qed

definition run_inv ::
  "'b step list \<Rightarrow> (nat \<Rightarrow> bool \<times> (string + 'f outcome)) \<Rightarrow> nat set \<Rightarrow> 'f step_record list \<Rightarrow> string list \<Rightarrow> bool" where
  "run_inv steps result D recs failed =
     (length recs = length steps \<and> D \<subseteq> {..<length steps}
      \<and> (\<forall>i \<in> D. recs ! i = run_outcome steps result recs i \<and> (\<forall>j. (j, i) \<in> depends steps \<longrightarrow> j \<in> D))
      \<and> set failed = (\<lambda>j. st_name (steps ! j)) ` {j \<in> D. blocks (sr_status (recs ! j))})"

lemma run_inv_wave:
  assumes named: "named_steps steps" and inv: "run_inv steps result D recs failed"
    and wave: "\<And>i. i \<in> set wave \<Longrightarrow> i < length steps \<and> i \<notin> D \<and> (\<forall>j. (j, i) \<in> depends steps \<longrightarrow> j \<in> D)"
    and run: "run_wave steps result (recs, failed) wave = (recs', failed')"
  shows "run_inv steps result (D \<union> set wave) recs' failed'"
proof -
  have len: "length recs = length steps" and D: "D \<subseteq> {..<length steps}"
    and old: "\<And>i. i \<in> D \<Longrightarrow> recs ! i = run_outcome steps result recs i"
      "\<And>i j. i \<in> D \<Longrightarrow> (j, i) \<in> depends steps \<Longrightarrow> j \<in> D"
    and fl: "set failed = (\<lambda>j. st_name (steps ! j)) ` {j \<in> D. blocks (sr_status (recs ! j))}"
    using inv by (auto simp: run_inv_def)
  have r': "recs' = map (\<lambda>i. if i \<in> set wave then step_in_wave steps result failed i else recs ! i) [0..<length steps]"
    and f': "set failed' = set failed \<union> (\<lambda>i. st_name (steps ! i)) ` {i \<in> set wave. blocks (sr_status (recs' ! i))}"
    using run wave foldl_update [of wave recs "step_in_wave steps result failed"] len
    by (auto simp: run_wave_def Let_def set_foldl_failed)
  have same: "recs' ! i = recs ! i" if "i \<in> D" for i
  proof -
    have "i < length steps" "i \<notin> set wave" using that D wave [of i] by auto
    then show ?thesis unfolding r' by simp
  qed
  have out: "run_outcome steps result recs' i = run_outcome steps result recs i"
    if "\<And>j. (j, i) \<in> depends steps \<Longrightarrow> j \<in> D" for i
    using that same by (auto simp: run_outcome_def)
  have new: "recs' ! i = run_outcome steps result recs' i" if "i \<in> set wave" for i
  proof -
    have i: "i < length steps" "\<And>j. (j, i) \<in> depends steps \<Longrightarrow> j \<in> D" using wave [OF that] by auto
    have "recs' ! i = step_in_wave steps result failed i" using that i(1) by (simp add: r')
    also have "\<dots> = run_outcome steps result recs i"
      using parent_failed_iff [OF named i D fl] by (simp add: step_in_wave_def run_outcome_def)
    finally show ?thesis using out [OF i(2)] by simp
  qed
  have "recs' ! i = run_outcome steps result recs' i" if "i \<in> D \<union> set wave" for i
    using that new same [of i] old(1) [of i] out [of i] old(2) [of i] by auto
  moreover have "set failed' = (\<lambda>j. st_name (steps ! j)) ` {j \<in> D \<union> set wave. blocks (sr_status (recs' ! j))}"
    unfolding f' fl using same by auto
  moreover have "length recs' = length steps" by (simp add: r')
  ultimately show ?thesis using D wave old(2) unfolding run_inv_def by blast
qed

lemma run_inv_waves:
  assumes "named_steps steps" "layered steps (prev @ waves)"
    and "run_inv steps result (set (concat prev)) recs failed"
  shows "\<exists>recs' failed'. foldl (run_wave steps result) (recs, failed) waves = (recs', failed')
     \<and> run_inv steps result (set (concat (prev @ waves))) recs' failed'"
  using assms(2,3)
proof (induction waves arbitrary: prev recs failed)
  case Nil
  then show ?case by simp
next
  case (Cons w ws)
  obtain r f where rf: "run_wave steps result (recs, failed) w = (r, f)" by fastforce
  have wv: "i < length steps \<and> i \<notin> set (concat prev) \<and> (\<forall>j. (j, i) \<in> depends steps \<longrightarrow> j \<in> set (concat prev))"
    if "i \<in> set w" for i
  proof -
    have "length prev < length (prev @ w # ws)" "(prev @ w # ws) ! length prev = w"
      "take (length prev) (prev @ w # ws) = prev" by simp_all
    then show ?thesis using Cons.prems(1) that unfolding layered_def by metis
  qed
  have "run_inv steps result (set (concat prev) \<union> set w) r f"
    by (rule run_inv_wave [OF assms(1) Cons.prems(2) wv rf])
  then have "run_inv steps result (set (concat (prev @ [w]))) r f" by simp
  from Cons.IH [OF _ this] Cons.prems(1) show ?case by (simp add: rf)
qed

section \<open>What compiling guarantees\<close>

lemma bind_loop_names:
  "bind_loop reg seen sds = Inr steps \<Longrightarrow>
     map st_name steps = map sd_name sds \<and> distinct (map st_name steps)
     \<and> set (map st_name steps) \<inter> set seen = {}"
proof (induction reg seen sds arbitrary: steps rule: bind_loop.induct)
  case (2 reg seen sd sds)
  from "2.prems" obtain bnd b rest where b: "sd_name sd \<notin> set seen" "reg (sd_action sd) = Some bnd"
    "bnd (sd_params sd) = Inr b" "bind_loop reg (sd_name sd # seen) sds = Inr rest"
    "steps = \<lparr>st_bound = b, st_name = sd_name sd, st_action = sd_action sd, st_parents = sd_parents sd\<rparr> # rest"
    by (auto split: if_splits option.splits sum.splits)
  have i: "map st_name rest = map sd_name sds" "distinct (map st_name rest)"
    "set (map st_name rest) \<inter> set (sd_name sd # seen) = {}"
    using "2.IH" [OF b(1-3) b(4)] by blast+
  have "sd_name sd \<notin> set (map st_name rest)" "set (map st_name rest) \<inter> set seen = {}"
    using i(3) by auto
  then show ?case unfolding b(5) using i(1,2) b(1) by simp
qed simp

lemma bind_steps_named:
  assumes "bind_steps reg def = Inr steps"
  shows "named_steps steps"
proof -
  have l: "bind_loop reg [] (df_steps def) = Inr steps" and u: "unknown_parent steps = None"
    using assms by (auto simp: bind_steps_def split: sum.splits option.splits)
  have "p \<in> set (map st_name steps)" if "s \<in> set steps" "p \<in> set (st_parents s)" for s p
    using u that unfolding unknown_parent_def find_None_iff by fastforce
  then show ?thesis using bind_loop_names [OF l] by (auto simp: named_steps_def)
qed

lemma compile_parts:
  assumes "compile reg def = Inr rt"
  shows "named_steps (rt_steps rt)" "topo_waves (rt_steps rt) = Inr (rt_order rt)"
    "rt_enabled rt \<longrightarrow> rt_steps rt \<noteq> []"
proof -
  obtain steps order where s: "bind_steps reg def = Inr steps" "topo_waves steps = Inr order"
    "rt_steps rt = steps" "rt_order rt = order" "rt_enabled rt = df_enabled def"
    "\<not> (df_enabled def \<and> df_steps def = [])"
    using assms by (auto simp: compile_def split: if_splits sum.splits)
  show "named_steps (rt_steps rt)" using bind_steps_named [OF s(1)] s(3) by simp
  show "topo_waves (rt_steps rt) = Inr (rt_order rt)" using s by simp
  have "bind_loop reg [] (df_steps def) = Inr steps"
    using s(1) by (auto simp: bind_steps_def split: sum.splits option.splits)
  then have "map st_name steps = map sd_name (df_steps def)" using bind_loop_names by blast
  then show "rt_enabled rt \<longrightarrow> rt_steps rt \<noteq> []" using s by auto
qed

lemma compile_layered:
  assumes "compile reg def = Inr rt"
  shows "layered (rt_steps rt) (rt_order rt)" "set (concat (rt_order rt)) = {..<length (rt_steps rt)}"
  using topo_waves_result [of "rt_steps rt"] compile_parts(2) [OF assms] by simp_all

section \<open>Properties of a routine\<close>

text \<open>
  C29: waves are found exactly for acyclic steps. \<open>topoWaves\<close> fails, with the cycle error, if and
  only if the steps depend on each other in a cycle; otherwise its waves hold every step once, and
  every step's parents stand in earlier waves.
\<close>

theorem topo_waves_correct:
  "(\<not> acyclic (depends steps) \<longleftrightarrow> topo_waves steps = Inl ErrCyclicDAG)
   \<and> (\<forall>e. topo_waves steps = Inl e \<longrightarrow> e = ErrCyclicDAG)
   \<and> (\<forall>waves. topo_waves steps = Inr waves \<longrightarrow>
        layered steps waves \<and> distinct (concat waves) \<and> set (concat waves) = {..<length steps})"
proof (cases "topo_waves steps")
  case (Inl e)
  then have e: "e = ErrCyclicDAG"
    "\<exists>S. S \<noteq> {} \<and> S \<subseteq> {..<length steps} \<and> (\<forall>i \<in> S. \<exists>j \<in> S. (j, i) \<in> depends steps)"
    using topo_waves_result [of steps] by simp_all
  then have "\<not> acyclic (depends steps)" using stuck_cyclic by blast
  with Inl e(1) show ?thesis by simp
next
  case (Inr waves)
  then have w: "layered steps waves" "set (concat waves) = {..<length steps}"
    using topo_waves_result [of steps] by simp_all
  with Inr layered_acyclic [OF w] layered_distinct [OF w(1)] show ?thesis by simp
qed

definition chain_steps :: "unit step list" where
  "chain_steps =
     [\<lparr>st_bound = (), st_name = ''b'', st_action = ''x'', st_parents = [''a'']\<rparr>,
      \<lparr>st_bound = (), st_name = ''a'', st_action = ''x'', st_parents = []\<rparr>]"

theorem topo_waves_correct_witness:
  "topo_waves chain_steps = Inr [[1], [0]] \<and> layered chain_steps [[1], [0]]"
proof -
  have "topo_waves chain_steps = Inr [[1], [0]]" by code_simp
  with topo_waves_correct [of chain_steps] show ?thesis by simp
qed

text \<open>
  C10: a step runs exactly when nothing it depends on went wrong. In the record of a compiled
  routine's run, a step is skipped if and only if a step it depends on neither passed nor
  abstained, and otherwise its record is that of its own run.
\<close>

theorem execute_follows_dag:
  assumes "compile reg def = Inr rt" and "i < length (rt_steps rt)"
  shows "rr_steps (execute rt t result) ! i =
     run_outcome (rt_steps rt) result (rr_steps (execute rt t result)) i"
proof -
  have l: "layered (rt_steps rt) ([] @ rt_order rt)" using compile_layered [OF assms(1)] by simp
  have start: "run_inv (rt_steps rt) result (set (concat [])) (replicate (length (rt_steps rt)) zero_record) []"
    by (simp add: run_inv_def)
  obtain recs failed where r:
    "foldl (run_wave (rt_steps rt) result) (replicate (length (rt_steps rt)) zero_record, []) (rt_order rt)
       = (recs, failed)"
    "run_inv (rt_steps rt) result (set (concat ([] @ rt_order rt))) recs failed"
    using run_inv_waves [OF compile_parts(1) [OF assms(1)] l start] by blast
  have "rr_steps (execute rt t result) = recs"
    using r(1) by (simp add: execute_def execute_steps_def Let_def)
  moreover have "i \<in> set (concat ([] @ rt_order rt))"
    unfolding append_Nil compile_layered(2) [OF assms(1)] using assms(2) by simp
  then have "recs ! i = run_outcome (rt_steps rt) result recs i"
    using r(2) unfolding run_inv_def by blast
  ultimately show ?thesis by simp
qed

definition chain_def :: "unit definition_t" where
  "chain_def =
     \<lparr>df_name = ''r'', df_concurrency_key = [], df_concurrency = None, df_triggers = [TriggerManual],
      df_paths = [],
      df_steps = [\<lparr>sd_params = (), sd_name = ''b'', sd_action = ''x'', sd_parents = [''a'']\<rparr>,
                  \<lparr>sd_params = (), sd_name = ''a'', sd_action = ''x'', sd_parents = []\<rparr>],
      df_interval = 0, df_enabled = True\<rparr>"

definition any_action :: "(unit, unit) registry" where
  "any_action name = Some (\<lambda>_. Inr ())"

definition chain_rt :: "unit routine" where
  "chain_rt =
     \<lparr>rt_name = ''r'', rt_concurrency_key = [], rt_concurrency = Queue, rt_triggers = [TriggerManual],
      rt_paths = [], rt_steps = chain_steps, rt_order = [[1], [0]], rt_interval = 0, rt_enabled = True\<rparr>"

lemma chain_compiles: "compile any_action chain_def = Inr chain_rt"
  by code_simp

definition failing :: "nat \<Rightarrow> bool \<times> (string + unit outcome)" where
  "failing i = (False, Inr \<lparr>oc_failures = [], oc_examined = 1, oc_pass = False\<rparr>)"

theorem execute_follows_dag_witness:
  "sr_status (rr_steps (execute chain_rt TriggerManual failing) ! 0) = StatusSkipped"
proof -
  have l: "0 < length (rt_steps chain_rt)" by code_simp
  have "sr_status (rr_steps (execute chain_rt TriggerManual failing) ! 1) = StatusFail" by code_simp
  moreover have "(1, 0) \<in> depends chain_steps"
  proof -
    have "step_index chain_steps ''a'' = 1" "0 < length chain_steps" "''a'' \<in> set (st_parents (chain_steps ! 0))"
      by code_simp+
    then show ?thesis
      unfolding depends_def by (intro CollectI exI [of _ "''a''"] exI [of _ "0 :: nat"]) simp
  qed
  ultimately show ?thesis
    using execute_follows_dag [OF chain_compiles l, of TriggerManual failing]
    by (auto simp: run_outcome_def blocks_def chain_rt_def plain_record_def)
qed

lemma run_pass_steps:
  "rr_pass (execute rt t result) \<longleftrightarrow>
     StatusPass \<in> sr_status ` set (rr_steps (execute rt t result))
     \<and> sr_status ` set (rr_steps (execute rt t result)) \<subseteq> {StatusPass, StatusAbstained}"
proof -
  let ?R = "set (rr_steps (execute rt t result))"
  have "rr_pass (execute rt t result) \<longleftrightarrow>
      (\<exists>r \<in> ?R. sr_status r = StatusPass) \<and> (\<forall>r \<in> ?R. sr_status r \<in> {StatusPass, StatusAbstained})"
    by (auto simp: execute_def Let_def all_passed_def all_passed_loop_iff blocks_def)
  then show ?thesis by (auto simp: image_iff) (metis imageI)+
qed

text \<open>
  A run passes when some step passed and every step passed or abstained. So a run that holds
  an abstention can be a pass, which the comment on the record's \<open>Pass\<close> field denies, and a run
  whose steps all abstained is none.
\<close>

theorem run_pass_iff:
  "(rr_pass (execute rt t result) \<longleftrightarrow>
      StatusPass \<in> sr_status ` set (rr_steps (execute rt t result))
      \<and> sr_status ` set (rr_steps (execute rt t result)) \<subseteq> {StatusPass, StatusAbstained})
   \<and> (\<exists>res :: nat \<Rightarrow> bool \<times> (string + unit outcome). rr_pass (execute chain_rt t res)
        \<and> StatusAbstained \<in> sr_status ` set (rr_steps (execute chain_rt t res)))"
proof
  show "rr_pass (execute rt t result) \<longleftrightarrow>
      StatusPass \<in> sr_status ` set (rr_steps (execute rt t result))
      \<and> sr_status ` set (rr_steps (execute rt t result)) \<subseteq> {StatusPass, StatusAbstained}"
    by (simp add: run_pass_steps)
  let ?res = "\<lambda>i :: nat. (False, Inr \<lparr>oc_failures = [], oc_examined = int i, oc_pass = True\<rparr>)
    :: bool \<times> (string + unit outcome)"
  have "map sr_status (rr_steps (execute chain_rt TriggerManual ?res)) = [StatusAbstained, StatusPass]"
    by code_simp
  moreover have "rr_steps (execute chain_rt t ?res) = rr_steps (execute chain_rt TriggerManual ?res)"
    "rr_pass (execute chain_rt t ?res) = rr_pass (execute chain_rt TriggerManual ?res)"
    by (simp_all add: execute_def Let_def)
  moreover have "rr_pass (execute chain_rt TriggerManual ?res)" by code_simp
  ultimately show "\<exists>res :: nat \<Rightarrow> bool \<times> (string + unit outcome). rr_pass (execute chain_rt t res)
      \<and> StatusAbstained \<in> sr_status ` set (rr_steps (execute chain_rt t res))"
    by (intro exI [of _ ?res]) (metis list.set_intros(1) set_map)
qed

section \<open>Compiling a project's set\<close>

definition registered :: "'p definition_t \<Rightarrow> ('p, 'b) registry \<Rightarrow> bool" where
  "registered def reg = list_all (\<lambda>s. reg (sd_action s) \<noteq> None) (df_steps def)"

definition semgrep_definition :: "'p \<Rightarrow> 'p definition_t" where
  "semgrep_definition no_params =
     \<lparr>df_name = ''semgrep'', df_concurrency_key = [], df_concurrency = None,
      df_triggers = [TriggerManual], df_paths = [],
      df_steps = [\<lparr>sd_params = no_params, sd_name = ''scan'', sd_action = ''semgrep.scan'', sd_parents = []\<rparr>],
      df_interval = 0, df_enabled = False\<rparr>"

definition override_with :: "'p definition_t \<Rightarrow> 'p definition_t \<Rightarrow> 'p definition_t" where
  "override_with base def =
     def\<lparr>df_steps := (if df_steps def = [] then df_steps base else df_steps def),
         df_triggers := (if df_triggers def = [] then df_triggers base else df_triggers def)\<rparr>"

definition merge_one ::
  "(string \<times> 'p definition_t) list \<Rightarrow> string \<times> 'p definition_t \<Rightarrow> (string \<times> 'p definition_t) list" where
  "merge_one merged nd =
     (case nd of (name, d) \<Rightarrow>
        let def = d\<lparr>df_name := name\<rparr> in
        AList.update name
          (case map_of merged name of Some base \<Rightarrow> override_with base def | None \<Rightarrow> def) merged)"

definition merged_definitions ::
  "'p \<Rightarrow> ('p, 'b) registry \<Rightarrow> (string \<times> 'p definition_t) list \<Rightarrow> (string \<times> 'p definition_t) list" where
  "merged_definitions no_params reg defs =
     (let builtin = filter (\<lambda>nd. registered (snd nd) reg) (sort_key fst (builtin_definitions no_params));
          start = (if reg ''semgrep.scan'' \<noteq> None
                   then AList.update ''semgrep'' (semgrep_definition no_params) builtin else builtin)
      in foldl merge_one start (sort_key fst defs))"

definition compile_one :: "('p, 'b) registry \<Rightarrow> string \<times> 'p definition_t \<Rightarrow> routine_error + string \<times> 'b routine" where
  "compile_one reg nd =
     (case nd of (name, d) \<Rightarrow>
        if \<not> df_enabled d \<and> df_steps d = [] then
          Inr (name, \<lparr>rt_name = name, rt_concurrency_key = [], rt_concurrency = Queue, rt_triggers = [],
                rt_paths = [], rt_steps = [], rt_order = [], rt_interval = 0, rt_enabled = False\<rparr>)
        else (case compile reg (d\<lparr>df_name := name\<rparr>) of
                Inl e \<Rightarrow> Inl e
              | Inr r \<Rightarrow> Inr (name, r)))"

fun compile_all :: "('p, 'b) registry \<Rightarrow> (string \<times> 'p definition_t) list \<Rightarrow> routine_error + (string \<times> 'b routine) list" where
  "compile_all reg [] = Inr []"
| "compile_all reg (nd # nds) =
     (case compile_one reg nd of
        Inl e \<Rightarrow> Inl e
      | Inr r \<Rightarrow> (case compile_all reg nds of Inl e \<Rightarrow> Inl e | Inr rs \<Rightarrow> Inr (r # rs)))"

definition compile_set ::
  "'p \<Rightarrow> (string \<times> 'p definition_t) list \<Rightarrow> ('p, 'b) registry \<Rightarrow> string \<Rightarrow> routine_error + 'b routine_set" where
  "compile_set no_params defs reg hash =
     (case compile_all reg (sort_key fst (merged_definitions no_params reg defs)) of
        Inl e \<Rightarrow> Inl e
      | Inr rs \<Rightarrow> Inr \<lparr>rs_by_name = rs, rs_hash = hash\<rparr>)"

definition set_get :: "'b routine_set option \<Rightarrow> string \<Rightarrow> 'b routine option" where
  "set_get s name = (case s of None \<Rightarrow> None | Some rs \<Rightarrow> map_of (rs_by_name rs) name)"

definition set_all :: "'b routine_set option \<Rightarrow> 'b routine list" where
  "set_all s = (case s of None \<Rightarrow> [] | Some rs \<Rightarrow> map snd (sort_key fst (rs_by_name rs)))"

definition set_triggered :: "'b routine_set option \<Rightarrow> trigger \<Rightarrow> 'b routine list" where
  "set_triggered s t = filter (\<lambda>r. triggered r t) (set_all s)"

definition disabled_gates :: "'b routine_set option \<Rightarrow> string list" where
  "disabled_gates s = List.map_filter (\<lambda>r.
     case cut_prefix (rt_name r) builtin_prefix of
       None \<Rightarrow> None
     | Some gate \<Rightarrow> if rt_enabled r then None else Some gate) (set_all s)"

record 'b routine_cache =
  ca_set :: "'b routine_set option"
  ca_hash :: string

definition cache_compiled ::
  "'b routine_cache \<Rightarrow> 'p \<Rightarrow> string \<Rightarrow> (string \<times> 'p definition_t) list \<Rightarrow> ('p, 'b) registry \<Rightarrow>
     'b routine_cache \<times> (routine_error + 'b routine_set)" where
  "cache_compiled c no_params hash defs reg =
     (case ca_set c of
        Some s \<Rightarrow>
          if ca_hash c = hash then (c, Inr s)
          else (case compile_set no_params defs reg hash of
                  Inl e \<Rightarrow> (c, Inl e)
                | Inr s' \<Rightarrow> (\<lparr>ca_set = Some s', ca_hash = hash\<rparr>, Inr s'))
      | None \<Rightarrow>
          (case compile_set no_params defs reg hash of
             Inl e \<Rightarrow> (c, Inl e)
           | Inr s' \<Rightarrow> (\<lparr>ca_set = Some s', ca_hash = hash\<rparr>, Inr s')))"

section \<open>The schedule\<close>

text \<open>
  One routine of one wake-up of the timekeeper: the clock when it is looked at, and the clock when
  its run is over (read only if it ran).
\<close>

definition fire_one :: "(string \<rightharpoonup> int) \<Rightarrow> 'b routine \<Rightarrow> int \<times> int \<Rightarrow> (string \<rightharpoonup> int) \<times> bool" where
  "fire_one due rt clock =
     (case clock of (now, finished) \<Rightarrow>
        case due (rt_name rt) of
          None \<Rightarrow> (due(rt_name rt \<mapsto> now + rt_interval rt), False)
        | Some next \<Rightarrow>
            if now < next then (due, False)
            else (due(rt_name rt \<mapsto> finished + rt_interval rt), True))"

type_synonym 'b look = "'b routine \<times> int \<times> int"

fun fire_due :: "(string \<rightharpoonup> int) \<Rightarrow> 'b look list \<Rightarrow> (string \<rightharpoonup> int) \<times> 'b look list" where
  "fire_due due [] = (due, [])"
| "fire_due due ((rt, clock) # rest) =
     (case fire_one due rt clock of (due', fired) \<Rightarrow>
        case fire_due due' rest of (due'', went) \<Rightarrow>
          (due'', if fired then (rt, clock) # went else went))"

text \<open>
  The timekeeper looks at every scheduled routine at each wake-up, and keeps \<open>due\<close> from one wake-up
  to the next, so a life of it is one list of looks.
\<close>

lemma fire_due_append:
  "fire_due due (xs @ ys) =
     (case fire_due due xs of (due', went) \<Rightarrow> case fire_due due' ys of (due'', went') \<Rightarrow> (due'', went @ went'))"
  by (induction xs arbitrary: due) (auto simp: case_prod_unfold)

abbreviation looks_at :: "string \<Rightarrow> 'b look list \<Rightarrow> 'b look list" where
  "looks_at name looks \<equiv> filter (\<lambda>(rt, c). rt_name rt = name) looks"

definition spaced_from :: "int \<Rightarrow> 'b look list \<Rightarrow> bool" where
  "spaced_from start runs =
     ((case runs of [] \<Rightarrow> True | (rt, n, f) # _ \<Rightarrow> start \<le> n)
      \<and> successively (\<lambda>(rt, n, f) (rt', n', f'). f + rt_interval rt \<le> n') runs)"

lemma spaced_from_Cons:
  "start \<le> n \<Longrightarrow> spaced_from (f + rt_interval rt) runs \<Longrightarrow> spaced_from start ((rt, n, f) # runs)"
  by (cases runs) (auto simp: spaced_from_def)

lemma fire_one_other: "rt_name rt \<noteq> name \<Longrightarrow> fst (fire_one due rt c) name = due name"
  by (auto simp: fire_one_def split: prod.splits option.splits)

lemma fire_due_spaced:
  "due name = Some next \<Longrightarrow> spaced_from next (looks_at name (snd (fire_due due looks)))"
proof (induction looks arbitrary: due "next")
  case (Cons l looks)
  obtain rt now fin where l: "l = (rt, now, fin)" by (cases l) auto
  define due' where "due' = fst (fire_one due rt (now, fin))"
  have step: "snd (fire_due due (l # looks)) =
      (if snd (fire_one due rt (now, fin)) then [l] else []) @ snd (fire_due due' looks)"
    by (simp add: l due'_def case_prod_unfold)
  consider "rt_name rt \<noteq> name" | "rt_name rt = name" "now < next" | "rt_name rt = name" "\<not> now < next"
    by blast
  then show ?case
  proof cases
    case 1
    then have "due' name = Some next" using Cons.prems by (simp add: due'_def fire_one_other)
    with Cons.IH 1 show ?thesis unfolding step by (auto simp: l)
  next
    case 2
    then have "due' = due" "\<not> snd (fire_one due rt (now, fin))"
      using Cons.prems by (simp_all add: due'_def fire_one_def)
    with Cons show ?thesis unfolding step by simp
  next
    case 3
    then have "due' name = Some (fin + rt_interval rt)" "snd (fire_one due rt (now, fin))"
      using Cons.prems by (simp_all add: due'_def fire_one_def)
    with Cons.IH 3 show ?thesis unfolding step by (simp add: l spaced_from_Cons)
  qed
qed (simp add: spaced_from_def)

lemma fire_due_first:
  "due name = None \<Longrightarrow> looks_at name looks = (rt0, seen, x) # ls \<Longrightarrow>
     spaced_from (seen + rt_interval rt0) (looks_at name (snd (fire_due due looks)))"
proof (induction looks arbitrary: due)
  case (Cons l looks)
  obtain rt now fin where l: "l = (rt, now, fin)" by (cases l) auto
  define due' where "due' = fst (fire_one due rt (now, fin))"
  have step: "snd (fire_due due (l # looks)) =
      (if snd (fire_one due rt (now, fin)) then [l] else []) @ snd (fire_due due' looks)"
    by (simp add: l due'_def case_prod_unfold)
  show ?case
  proof (cases "rt_name rt = name")
    case True
    then have "due' name = Some (seen + rt_interval rt0)" "\<not> snd (fire_one due rt (now, fin))"
      using Cons.prems by (simp_all add: l due'_def fire_one_def)
    then show ?thesis unfolding step by (simp add: fire_due_spaced)
  next
    case False
    then have "due' name = None" using Cons.prems by (simp add: due'_def fire_one_other)
    with Cons.IH Cons.prems False show ?thesis unfolding step by (auto simp: l)
  qed
qed simp

text \<open>
  A scheduled routine never runs back to back, however late or often the timekeeper wakes and
  whatever else is scheduled. From a fresh timekeeper, its first run starts an interval or more
  after it was first looked at, and each further run an interval or more after the one before it
  finished.
\<close>

theorem schedule_spacing:
  assumes "looks_at name looks = (rt0, seen, x) # ls"
    and "looks_at name (snd (fire_due Map.empty looks)) = runs"
  shows "(case runs of [] \<Rightarrow> True | (rt, n, f) # _ \<Rightarrow> seen + rt_interval rt0 \<le> n)
     \<and> successively (\<lambda>(rt, n, f) (rt', n', f'). f + rt_interval rt \<le> n') runs"
  using fire_due_first [OF _ assms(1), of Map.empty] assms(2) by (simp add: spaced_from_def)

definition slow_rt :: "unit routine" where "slow_rt = chain_rt\<lparr>rt_interval := 10\<rparr>"

definition slow_looks :: "unit look list" where
  "slow_looks = [(slow_rt, 0, 0), (slow_rt, 5, 5), (slow_rt, 12, 30), (slow_rt, 35, 36), (slow_rt, 41, 50)]"

theorem schedule_spacing_witness:
  "looks_at (rt_name slow_rt) (snd (fire_due Map.empty slow_looks)) = [(slow_rt, 12, 30), (slow_rt, 41, 50)]
   \<and> successively (\<lambda>(rt, n, f) (rt', n', f'). f + rt_interval rt \<le> n')
       (looks_at (rt_name slow_rt) (snd (fire_due Map.empty slow_looks)))"
proof
  show "looks_at (rt_name slow_rt) (snd (fire_due Map.empty slow_looks)) = [(slow_rt, 12, 30), (slow_rt, 41, 50)]"
    by (simp add: slow_looks_def fire_one_def slow_rt_def chain_rt_def)
  have "looks_at (rt_name slow_rt) slow_looks = (slow_rt, 0, 0) # tl slow_looks"
    by (simp add: slow_looks_def)
  from schedule_spacing [OF this refl]
  show "successively (\<lambda>(rt, n, f) (rt', n', f'). f + rt_interval rt \<le> n')
       (looks_at (rt_name slow_rt) (snd (fire_due Map.empty slow_looks)))" ..
qed

end
