(* ===== verification/RoutineKeys.thy ===== *)
theory RoutineKeys
  imports Prelude Routine
begin

text \<open>
  Concurrency keys of routine runs (\<open>internal/routine/concurrency.go\<close>): at most one run holds a
  key, and the others queue behind it. A call of \<open>acquire\<close> is a program counter, each mutex-guarded
  operation is one step, and the select of a waiting call may take the cancelled branch whether or
  not the key was handed to it, as Go's select may.
\<close>

section \<open>One key's group\<close>

text \<open>
  A waiter is the number of its call, with the name of its routine. \<open>gr_cancel_held\<close> is the call
  whose run the stored cancel function cancels.
\<close>

record group =
  gr_held :: bool
  gr_cancel_held :: "nat option"
  gr_last_served :: string
  gr_waiters :: "(nat \<times> string) list"
  gr_rotate :: bool

definition new_group :: group where
  "new_group = \<lparr>gr_held = False, gr_cancel_held = None, gr_last_served = [], gr_waiters = [], gr_rotate = False\<rparr>"

datatype entered = Admitted | Queued "nat option"

text \<open>The second component is the call to cancel, when the arriving run cancels the one in progress.\<close>

definition group_enter :: "nat \<Rightarrow> 'b routine \<Rightarrow> group \<Rightarrow> group \<times> entered" where
  "group_enter i rt g =
     (if \<not> gr_held g
      then (g\<lparr>gr_held := True, gr_cancel_held := Some i, gr_last_served := rt_name rt\<rparr>, Admitted)
      else (g\<lparr>gr_waiters := gr_waiters g @ [(i, rt_name rt)],
              gr_rotate := (if rt_concurrency rt = RoundRobin then True else gr_rotate g)\<rparr>,
            Queued (if rt_concurrency rt = CancelInProgress then gr_cancel_held g else None)))"

definition group_take :: "nat \<Rightarrow> 'b routine \<Rightarrow> group \<Rightarrow> group" where
  "group_take i rt g = g\<lparr>gr_cancel_held := Some i, gr_last_served := rt_name rt\<rparr>"

definition group_next :: "group \<Rightarrow> nat option" where
  "group_next g =
     (if gr_waiters g = [] then None
      else if \<not> gr_rotate g then Some 0
      else case find_index (\<lambda>w. snd w \<noteq> gr_last_served g) (gr_waiters g) of
             Some i \<Rightarrow> Some i
           | None \<Rightarrow> Some 0)"

text \<open>The second component is the waiter whose channel is closed.\<close>

definition group_leave :: "group \<Rightarrow> group \<times> nat option" where
  "group_leave g =
     (let g = g\<lparr>gr_cancel_held := None\<rparr>
      in case group_next g of
           None \<Rightarrow> (g\<lparr>gr_held := False\<rparr>, None)
         | Some n \<Rightarrow> (g\<lparr>gr_waiters := remove_at n (gr_waiters g)\<rparr>, Some (fst (gr_waiters g ! n))))"

definition group_drop :: "nat \<Rightarrow> group \<Rightarrow> group" where
  "group_drop i g =
     (case find_index (\<lambda>w. fst w = i) (gr_waiters g) of
        None \<Rightarrow> g
      | Some n \<Rightarrow> g\<lparr>gr_waiters := remove_at n (gr_waiters g)\<rparr>)"

section \<open>Concurrent calls on one key\<close>

datatype group_pc = GrpWait | GrpGiveUp | GrpHold | GrpDone | GrpFailed

record 'b group_call =
  gc_rt :: "'b routine"
  gc_pc :: group_pc

record 'b group_sys =
  gs_group :: group
  gs_call :: "nat \<rightharpoonup> 'b group_call"
  gs_closed :: "nat set"
  gs_cancelled :: "nat set"

datatype 'b group_event =
    GEnter nat "'b routine"
  | GTake nat
  | GCancel nat
  | GDrop nat
  | GLeave nat

definition set_call :: "nat \<Rightarrow> 'b routine \<Rightarrow> group_pc \<Rightarrow> 'b group_sys \<Rightarrow> 'b group_sys" where
  "set_call i rt pc s = s\<lparr>gs_call := (gs_call s)(i \<mapsto> \<lparr>gc_rt = rt, gc_pc = pc\<rparr>)\<rparr>"

definition do_enter :: "nat \<Rightarrow> 'b routine \<Rightarrow> 'b group_sys \<Rightarrow> 'b group_sys" where
  "do_enter i rt s =
     (case group_enter i rt (gs_group s) of
        (g, Admitted) \<Rightarrow> set_call i rt GrpHold (s\<lparr>gs_group := g\<rparr>)
      | (g, Queued victim) \<Rightarrow>
          set_call i rt GrpWait (s\<lparr>gs_group := g, gs_cancelled := gs_cancelled s \<union> set_option victim\<rparr>))"

definition do_leave :: "nat \<Rightarrow> 'b routine \<Rightarrow> 'b group_sys \<Rightarrow> 'b group_sys" where
  "do_leave i rt s =
     (case group_leave (gs_group s) of
        (g, handed) \<Rightarrow>
          set_call i rt GrpDone (s\<lparr>gs_group := g, gs_closed := gs_closed s \<union> set_option handed,
                                   gs_cancelled := insert i (gs_cancelled s)\<rparr>))"

inductive group_step :: "'b group_sys \<Rightarrow> 'b group_event \<Rightarrow> 'b group_sys \<Rightarrow> bool" where
  grp_enter: "gs_call s i = None \<Longrightarrow> group_step s (GEnter i rt) (do_enter i rt s)"
| grp_take: "gs_call s i = Some \<lparr>gc_rt = rt, gc_pc = GrpWait\<rparr> \<Longrightarrow> i \<in> gs_closed s \<Longrightarrow>
    group_step s (GTake i) (set_call i rt GrpHold (s\<lparr>gs_group := group_take i rt (gs_group s)\<rparr>))"
| grp_cancel: "gs_call s i = Some \<lparr>gc_rt = rt, gc_pc = GrpWait\<rparr> \<Longrightarrow>
    group_step s (GCancel i) (set_call i rt GrpGiveUp s)"
| grp_drop: "gs_call s i = Some \<lparr>gc_rt = rt, gc_pc = GrpGiveUp\<rparr> \<Longrightarrow>
    group_step s (GDrop i) (set_call i rt GrpFailed (s\<lparr>gs_group := group_drop i (gs_group s)\<rparr>))"
| grp_leave: "gs_call s i = Some \<lparr>gc_rt = rt, gc_pc = GrpHold\<rparr> \<Longrightarrow>
    group_step s (GLeave i) (do_leave i rt s)"

inductive_cases group_stepE: "group_step s e t"

definition init_group :: "'b group_sys" where
  "init_group = \<lparr>gs_group = new_group, gs_call = Map.empty, gs_closed = {}, gs_cancelled = {}\<rparr>"

section \<open>All keys\<close>

text \<open>A key that was never asked for reads as a new group, which is what \<open>get\<close> stores for it.\<close>

definition groups_get :: "string \<Rightarrow> (string \<rightharpoonup> group) \<Rightarrow> (string \<rightharpoonup> group) \<times> group" where
  "groups_get key m = (case m key of None \<Rightarrow> (m(key \<mapsto> new_group), new_group) | Some g \<Rightarrow> (m, g))"

inductive groups_step ::
  "(string \<Rightarrow> 'b group_sys) \<Rightarrow> string \<times> 'b group_event \<Rightarrow> (string \<Rightarrow> 'b group_sys) \<Rightarrow> bool" where
  on_key: "group_step (ss key) e t \<Longrightarrow> (\<forall>i rt. e = GEnter i rt \<longrightarrow> routine_key rt = key) \<Longrightarrow>
    groups_step ss (key, e) (ss(key := t))"

inductive_cases groups_stepE: "groups_step ss ke tt"

lemma groups_reach_key: "reach (\<lambda>_. init_group) groups_step ss \<Longrightarrow> reach init_group group_step (ss key)"
proof (induction rule: reach.induct)
  case (reach_step s e t)
  from reach_step.hyps(2) obtain key' e' u where t: "t = s(key' := u)" "group_step (s key') e' u"
    by (auto elim: groups_stepE)
  show ?case
  proof (cases "key = key'")
    case True
    then show ?thesis using t reach_step.IH by (auto intro: reach.reach_step)
  next
    case False
    then show ?thesis using t reach_step.IH by simp
  qed
qed (rule reach_init)

section \<open>Who the key belongs to\<close>

text \<open>
  A call has the key from the step that gives it the key to the step that gives it back. A waiter
  whose channel was closed has it, and keeps it even when it reports itself cancelled: nothing
  gives the key back for it.
\<close>

definition has_key :: "'b group_sys \<Rightarrow> nat \<Rightarrow> bool" where
  "has_key s i =
     (case gs_call s i of
        None \<Rightarrow> False
      | Some c \<Rightarrow> gc_pc c = GrpHold \<or> (i \<in> gs_closed s \<and> gc_pc c \<noteq> GrpDone))"

definition is_queued :: "'b group_sys \<Rightarrow> nat \<Rightarrow> string \<Rightarrow> bool" where
  "is_queued s i r =
     (case gs_call s i of
        None \<Rightarrow> False
      | Some c \<Rightarrow> gc_pc c \<in> {GrpWait, GrpGiveUp} \<and> i \<notin> gs_closed s \<and> rt_name (gc_rt c) = r)"

definition group_inv :: "'b group_sys \<Rightarrow> bool" where
  "group_inv s =
     ((\<forall>i j. has_key s i \<longrightarrow> has_key s j \<longrightarrow> i = j)
      \<and> (gr_held (gs_group s) \<longleftrightarrow> (\<exists>i. has_key s i))
      \<and> (\<not> gr_held (gs_group s) \<longrightarrow> gr_waiters (gs_group s) = [])
      \<and> distinct (map fst (gr_waiters (gs_group s)))
      \<and> (\<forall>i r. (i, r) \<in> set (gr_waiters (gs_group s)) \<longleftrightarrow> is_queued s i r)
      \<and> gs_closed s \<subseteq> dom (gs_call s)
      \<and> (\<forall>i c. gs_call s i = Some c \<longrightarrow> gc_pc c = GrpHold \<longrightarrow> rt_name (gc_rt c) = gr_last_served (gs_group s))
      \<and> (\<forall>i. gr_cancel_held (gs_group s) = Some i \<longrightarrow> (\<exists>c. gs_call s i = Some c \<and> gc_pc c = GrpHold)))"

lemmas group_fun_defs = group_enter_def group_take_def group_leave_def group_drop_def
  do_enter_def do_leave_def set_call_def

lemma group_next_less: "group_next g = Some n \<Longrightarrow> n < length (gr_waiters g)"
  by (auto simp: group_next_def split: if_splits option.splits dest: find_index_SomeD)

lemma group_next_None [simp]: "group_next g = None \<longleftrightarrow> gr_waiters g = []"
  by (auto simp: group_next_def split: option.splits)

lemma group_next_cancel [simp]: "group_next (g\<lparr>gr_cancel_held := c\<rparr>) = group_next g"
  by (simp add: group_next_def)

lemma set_remove_waiter:
  assumes "n < length ws" "distinct (map fst ws)"
  shows "set (remove_at n ws) = {w \<in> set ws. fst w \<noteq> fst (ws ! n)}"
proof -
  have "distinct ws" using assms(2) by (simp add: distinct_map)
  then have "set (remove_at n ws) = set ws - {ws ! n}" using set_remove_at [OF assms(1)] by simp
  moreover have "w = ws ! n" if "w \<in> set ws" "fst w = fst (ws ! n)" for w
    using that assms by (auto simp: distinct_map inj_on_def)
  ultimately show ?thesis by auto
qed

lemma map_remove_at: "map f (remove_at n xs) = remove_at n (map f xs)"
  by (simp add: remove_at_def take_map drop_map)

lemma distinct_remove_waiter: "distinct (map fst ws) \<Longrightarrow> distinct (map fst (remove_at n ws))"
  by (simp add: map_remove_at distinct_remove_at)

lemma group_drop_waiters:
  assumes "distinct (map fst (gr_waiters g))"
  shows "set (gr_waiters (group_drop i g)) = {w \<in> set (gr_waiters g). fst w \<noteq> i}"
    and "distinct (map fst (gr_waiters (group_drop i g)))"
proof -
  show "set (gr_waiters (group_drop i g)) = {w \<in> set (gr_waiters g). fst w \<noteq> i}"
  proof (cases "find_index (\<lambda>w. fst w = i) (gr_waiters g)")
    case None
    then have "group_drop i g = g" by (simp add: group_drop_def)
    moreover have "\<forall>w \<in> set (gr_waiters g). fst w \<noteq> i" using None by (simp add: find_index_None_iff)
    ultimately show ?thesis by auto
  next
    case (Some n)
    then show ?thesis using find_index_SomeD [OF Some] assms
      by (simp add: group_drop_def set_remove_waiter)
  qed
  show "distinct (map fst (gr_waiters (group_drop i g)))"
    using assms by (simp add: group_drop_def distinct_remove_waiter split: option.splits)
qed

lemma group_drop_other [simp]:
  "gr_held (group_drop i g) = gr_held g" "gr_last_served (group_drop i g) = gr_last_served g"
  "gr_cancel_held (group_drop i g) = gr_cancel_held g" "gr_rotate (group_drop i g) = gr_rotate g"
  by (simp_all add: group_drop_def split: option.splits)

text \<open>A step that hands nothing over keeps the invariant if it keeps each waiter and the holder.\<close>

lemma group_inv_quiet:
  assumes inv: "group_inv s"
    and hk: "\<And>j. has_key t j \<longleftrightarrow> has_key s j"
    and g: "gr_held (gs_group t) = gr_held (gs_group s)"
      "\<not> gr_held (gs_group s) \<Longrightarrow> gr_waiters (gs_group s) = [] \<Longrightarrow> gr_waiters (gs_group t) = []"
      "distinct (map fst (gr_waiters (gs_group t)))"
    and q: "\<And>j r. (j, r) \<in> set (gr_waiters (gs_group t)) \<longleftrightarrow> is_queued t j r"
    and cl: "gs_closed t = gs_closed s" "dom (gs_call s) \<subseteq> dom (gs_call t)"
    and last: "\<And>j c. gs_call t j = Some c \<Longrightarrow> gc_pc c = GrpHold \<Longrightarrow>
        rt_name (gc_rt c) = gr_last_served (gs_group t)"
    and cnc: "\<And>j. gr_cancel_held (gs_group t) = Some j \<Longrightarrow> \<exists>c. gs_call t j = Some c \<and> gc_pc c = GrpHold"
  shows "group_inv t"
proof -
  have "gs_closed t \<subseteq> dom (gs_call t)" using inv cl(2) unfolding cl(1) group_inv_def by blast
  then show ?thesis using inv g last cnc unfolding group_inv_def hk q by blast
qed

lemma group_inv_enter:
  assumes inv: "group_inv s" and new: "gs_call s i = None"
  shows "group_inv (do_enter i rt s)"
proof (cases "gr_held (gs_group s)")
  case False
  have i: "i \<notin> gs_closed s" using inv new by (auto simp: group_inv_def)
  have no: "\<not> has_key s j" "\<not> is_queued s j r" for j r using inv False by (auto simp: group_inv_def)
  have hk: "has_key (do_enter i rt s) j \<longleftrightarrow> j = i" for j
    using no(1) [of j] False i by (auto simp: group_fun_defs has_key_def split: option.splits)
  moreover have "\<not> is_queued (do_enter i rt s) j r" for j r
    using no(2) [of j r] False by (auto simp: group_fun_defs is_queued_def split: option.splits)
  moreover have "gc_pc c \<noteq> GrpHold" if "gs_call s j = Some c" for j c
    using no(1) [of j] that by (auto simp: has_key_def)
  ultimately show ?thesis using inv False
    by (auto simp: group_inv_def group_fun_defs)
next
  case True
  have i: "i \<notin> gs_closed s" using inv new by (auto simp: group_inv_def)
  let ?g = "gs_group s"
  obtain v rot where t: "do_enter i rt s = set_call i rt GrpWait (s\<lparr>gs_group := ?g\<lparr>
      gr_waiters := gr_waiters ?g @ [(i, rt_name rt)], gr_rotate := rot\<rparr>, gs_cancelled := v\<rparr>)"
    using True by (simp add: do_enter_def group_enter_def)
  have hk: "has_key (do_enter i rt s) j \<longleftrightarrow> has_key s j" for j
    unfolding t using i new by (auto simp: set_call_def has_key_def split: option.splits)
  have q: "is_queued (do_enter i rt s) j r \<longleftrightarrow> is_queued s j r \<or> j = i \<and> r = rt_name rt" for j r
    unfolding t using i new by (auto simp: set_call_def is_queued_def split: option.splits)
  have "\<not> is_queued s i r" for r using new by (simp add: is_queued_def)
  then have out: "i \<notin> fst ` set (gr_waiters ?g)" using inv by (auto simp: group_inv_def)
  show ?thesis
  proof (rule group_inv_quiet [OF inv hk])
    show "(j, r) \<in> set (gr_waiters (gs_group (do_enter i rt s))) \<longleftrightarrow> is_queued (do_enter i rt s) j r" for j r
      unfolding q using inv by (auto simp: t set_call_def group_inv_def)
    show "distinct (map fst (gr_waiters (gs_group (do_enter i rt s))))"
      using inv out by (auto simp: t set_call_def group_inv_def)
    show "rt_name (gc_rt c) = gr_last_served (gs_group (do_enter i rt s))"
      if "gs_call (do_enter i rt s) j = Some c" "gc_pc c = GrpHold" for j c
      using inv that by (auto simp: t set_call_def group_inv_def split: if_splits)
    show "\<exists>c. gs_call (do_enter i rt s) j = Some c \<and> gc_pc c = GrpHold"
      if "gr_cancel_held (gs_group (do_enter i rt s)) = Some j" for j
    proof -
      from that inv obtain c where c: "gs_call s j = Some c" "gc_pc c = GrpHold"
        by (auto simp: t set_call_def group_inv_def)
      then have "j \<noteq> i" using new by auto
      then show ?thesis using c by (simp add: t set_call_def)
    qed
  qed (use True in \<open>auto simp: t set_call_def\<close>)
qed

lemma group_inv_take:
  assumes inv: "group_inv s" and i: "gs_call s i = Some \<lparr>gc_rt = rt, gc_pc = GrpWait\<rparr>" "i \<in> gs_closed s"
  shows "group_inv (set_call i rt GrpHold (s\<lparr>gs_group := group_take i rt (gs_group s)\<rparr>))" (is "group_inv ?t")
proof (rule group_inv_quiet [OF inv])
  have hk: "has_key s i" using i by (simp add: has_key_def)
  have only: "j = i" if "gs_call s j = Some c" "gc_pc c = GrpHold" for j c
  proof -
    have "has_key s j" using that by (simp add: has_key_def)
    with inv hk show ?thesis by (simp add: group_inv_def)
  qed
  show "has_key ?t j \<longleftrightarrow> has_key s j" for j
    using i by (auto simp: group_fun_defs has_key_def split: option.splits)
  have q: "is_queued ?t j r \<longleftrightarrow> is_queued s j r" for j r
    using i by (auto simp: group_fun_defs is_queued_def split: option.splits)
  show "(j, r) \<in> set (gr_waiters (gs_group ?t)) \<longleftrightarrow> is_queued ?t j r" for j r
    unfolding q using inv by (simp add: group_inv_def group_fun_defs)
  show "rt_name (gc_rt c) = gr_last_served (gs_group ?t)" if "gs_call ?t j = Some c" "gc_pc c = GrpHold" for j c
    using that only [of j] by (auto simp: group_fun_defs split: if_splits)
qed (use inv in \<open>auto simp: group_inv_def group_fun_defs\<close>)

lemma group_inv_give_up:
  assumes inv: "group_inv s" and i: "gs_call s i = Some c" "gc_pc c \<noteq> GrpHold"
    and pc: "pc \<noteq> GrpHold" "pc \<noteq> GrpDone" "gc_pc c \<noteq> GrpDone"
    and g: "gr_held g = gr_held (gs_group s)" "gr_cancel_held g = gr_cancel_held (gs_group s)"
      "gr_last_served g = gr_last_served (gs_group s)"
      "gr_waiters (gs_group s) = [] \<Longrightarrow> gr_waiters g = []" "distinct (map fst (gr_waiters g))"
    and q: "\<And>j r. (j, r) \<in> set (gr_waiters g) \<longleftrightarrow> is_queued (set_call i rt pc s) j r"
  shows "group_inv (set_call i rt pc (s\<lparr>gs_group := g\<rparr>))" (is "group_inv ?t")
proof (rule group_inv_quiet [OF inv])
  show "has_key ?t j \<longleftrightarrow> has_key s j" for j
    using i pc by (auto simp: set_call_def has_key_def split: option.splits)
  show "(j, r) \<in> set (gr_waiters (gs_group ?t)) \<longleftrightarrow> is_queued ?t j r" for j r
    unfolding is_queued_def using q [of j r]
    by (simp add: set_call_def is_queued_def cong: option.case_cong)
  show "rt_name (gc_rt d) = gr_last_served (gs_group ?t)" if "gs_call ?t j = Some d" "gc_pc d = GrpHold" for j d
    using inv that g pc by (auto simp: set_call_def group_inv_def split: if_splits)
  show "\<exists>d. gs_call ?t j = Some d \<and> gc_pc d = GrpHold" if j: "gr_cancel_held (gs_group ?t) = Some j" for j
  proof -
    from j inv g obtain d where d: "gs_call s j = Some d" "gc_pc d = GrpHold"
      by (auto simp: set_call_def group_inv_def)
    then have "j \<noteq> i" using i by auto
    then show ?thesis using d by (simp add: set_call_def)
  qed
qed (use g in \<open>auto simp: set_call_def\<close>)

lemma group_inv_cancel:
  assumes inv: "group_inv s" and i: "gs_call s i = Some \<lparr>gc_rt = rt, gc_pc = GrpWait\<rparr>"
  shows "group_inv (set_call i rt GrpGiveUp s)"
proof -
  have q: "is_queued (set_call i rt GrpGiveUp s) j r \<longleftrightarrow> is_queued s j r" for j r
    using i by (auto simp: group_fun_defs is_queued_def split: option.splits)
  have "group_inv (set_call i rt GrpGiveUp (s\<lparr>gs_group := gs_group s\<rparr>))"
    by (rule group_inv_give_up [OF inv i]) (use inv q in \<open>simp_all add: group_inv_def\<close>)
  then show ?thesis by simp
qed

lemma group_inv_drop:
  assumes inv: "group_inv s" and i: "gs_call s i = Some \<lparr>gc_rt = rt, gc_pc = GrpGiveUp\<rparr>"
  shows "group_inv (set_call i rt GrpFailed (s\<lparr>gs_group := group_drop i (gs_group s)\<rparr>))"
proof (rule group_inv_give_up [OF inv i])
  have d: "distinct (map fst (gr_waiters (gs_group s)))" using inv by (simp add: group_inv_def)
  show "distinct (map fst (gr_waiters (group_drop i (gs_group s))))" by (rule group_drop_waiters(2) [OF d])
  have "is_queued (set_call i rt GrpFailed s) j r \<longleftrightarrow> is_queued s j r \<and> j \<noteq> i" for j r
    using i by (auto simp: set_call_def is_queued_def split: option.splits)
  then show "(j, r) \<in> set (gr_waiters (group_drop i (gs_group s))) \<longleftrightarrow>
      is_queued (set_call i rt GrpFailed s) j r" for j r
    using inv group_drop_waiters(1) [OF d, of i] by (simp add: group_inv_def)
qed (auto simp: group_drop_def remove_at_def split: option.splits)

lemma group_inv_leave:
  assumes inv: "group_inv s" and i: "gs_call s i = Some \<lparr>gc_rt = rt, gc_pc = GrpHold\<rparr>"
  shows "group_inv (do_leave i rt s)"
proof (cases "group_next (gs_group s)")
  case None
  then have w: "gr_waiters (gs_group s) = []" by simp
  have "has_key s i" using i by (simp add: has_key_def)
  then have only: "j = i \<or> \<not> has_key s j" for j using inv unfolding group_inv_def by blast
  have t: "do_leave i rt s = set_call i rt GrpDone (s\<lparr>gs_group := (gs_group s)\<lparr>gr_cancel_held := None,
      gr_held := False\<rparr>, gs_cancelled := insert i (gs_cancelled s)\<rparr>)"
    by (simp add: do_leave_def group_leave_def None del: group_next_None)
  have "\<not> has_key (do_leave i rt s) j" for j
    using only [of j] unfolding t by (auto simp: set_call_def has_key_def split: option.splits)
  moreover have "is_queued (do_leave i rt s) j r \<longleftrightarrow> is_queued s j r" for j r
    unfolding t using i by (auto simp: set_call_def is_queued_def split: option.splits)
  moreover have "\<not> is_queued s j r" for j r using inv w by (auto simp: group_inv_def)
  moreover have "gc_pc c \<noteq> GrpHold" if "gs_call s j = Some c" "j \<noteq> i" for j c
    using only [of j] that by (auto simp: has_key_def)
  ultimately show ?thesis using inv w unfolding group_inv_def
    by (simp add: t set_call_def) auto
next
  case (Some n)
  let ?g = "gs_group s" and ?t = "do_leave i rt s"
  let ?h = "fst (gr_waiters ?g ! n)"
  have n: "n < length (gr_waiters ?g)" using group_next_less Some by blast
  have d: "distinct (map fst (gr_waiters ?g))" using inv by (simp add: group_inv_def)
  obtain h hr where w: "gr_waiters ?g ! n = (h, hr)" by fastforce
  have hq: "is_queued s h hr" using inv n w nth_mem [OF n] by (simp add: group_inv_def)
  have t: "?t = set_call i rt GrpDone (s\<lparr>gs_group := ?g\<lparr>gr_cancel_held := None,
      gr_waiters := remove_at n (gr_waiters ?g)\<rparr>, gs_closed := insert h (gs_closed s),
      gs_cancelled := insert i (gs_cancelled s)\<rparr>)"
    using Some w by (simp add: do_leave_def group_leave_def)
  have "has_key s i" using i by (simp add: has_key_def)
  then have only: "j = i \<or> \<not> has_key s j" for j using inv unfolding group_inv_def by blast
  have hi: "h \<noteq> i" using hq i by (auto simp: is_queued_def)
  have hk: "has_key ?t j \<longleftrightarrow> j = h" for j
    using only [of j] hq hi unfolding t by (auto simp: has_key_def is_queued_def set_call_def split: option.splits)
  have q: "is_queued ?t j r \<longleftrightarrow> is_queued s j r \<and> j \<noteq> h" for j r
    using i unfolding t by (auto simp: is_queued_def set_call_def split: option.splits)
  have set_w: "(j, r) \<in> set (gr_waiters (gs_group ?t)) \<longleftrightarrow> is_queued ?t j r" for j r
    using inv w set_remove_waiter [OF n d] unfolding q by (auto simp: t set_call_def group_inv_def)
  have held: "gr_held ?g" using inv \<open>has_key s i\<close> unfolding group_inv_def by blast
  have cl: "gs_closed ?t \<subseteq> dom (gs_call ?t)"
    using inv hq by (auto simp: t set_call_def group_inv_def is_queued_def split: option.splits)
  have nohold: "gc_pc c \<noteq> GrpHold" if "gs_call ?t j = Some c" for j c
    using hk [of j] only [of j] that hq hi
    by (auto simp: t set_call_def has_key_def is_queued_def split: if_splits)
  have dis: "distinct (map fst (gr_waiters (gs_group ?t)))"
    using distinct_remove_waiter [OF d] by (simp add: t set_call_def)
  have "has_key ?t h" using hk by simp
  moreover have "gr_held (gs_group ?t)" "gr_cancel_held (gs_group ?t) = None"
    using held by (simp_all add: t set_call_def)
  ultimately show ?thesis unfolding group_inv_def using hk set_w cl nohold dis by simp blast
qed

lemma group_inv_step: "group_inv s \<Longrightarrow> group_step s e t \<Longrightarrow> group_inv t"
  by (erule group_stepE)
    (simp_all add: group_inv_enter group_inv_take group_inv_cancel group_inv_drop group_inv_leave)

lemma group_inv_init: "group_inv init_group"
  by (simp add: init_group_def new_group_def group_inv_def has_key_def is_queued_def)

interpretation group_key: guarded_system init_group group_step group_inv
  by unfold_locales (rule group_inv_init, rule group_inv_step)

section \<open>Properties\<close>

definition holding :: "'b group_sys \<Rightarrow> nat \<Rightarrow> bool" where
  "holding s i = (case gs_call s i of None \<Rightarrow> False | Some c \<Rightarrow> gc_pc c = GrpHold)"

lemma holding_has_key: "holding s i \<Longrightarrow> has_key s i"
  by (simp add: holding_def has_key_def split: option.splits)

text \<open>
  C27: at most one run holds a concurrency key, whatever strategies, cancellations and orders of
  arrival the calls on it and on other keys have.
\<close>

theorem group_mutual_exclusion:
  assumes "reach (\<lambda>_. init_group) groups_step ss"
    and "holding (ss key) i" "holding (ss key) j"
  shows "i = j"
proof -
  have "group_inv (ss key)" by (rule group_key.inv_reach [OF groups_reach_key [OF assms(1)]])
  then show ?thesis using assms(2,3)[THEN holding_has_key] by (simp add: group_inv_def)
qed

text \<open>A run holds the key, a second waits; then the first leaves.\<close>

definition plain_rt :: "string \<Rightarrow> unit routine" where
  "plain_rt n = \<lparr>rt_name = n, rt_concurrency_key = ''k'', rt_concurrency = Queue, rt_triggers = [],
     rt_paths = [], rt_steps = [], rt_order = [], rt_interval = 0, rt_enabled = True\<rparr>"

abbreviation "rt_a \<equiv> plain_rt ''a''"
abbreviation "rt_b \<equiv> plain_rt ''b''"

definition demo_g1 :: "unit group_sys" where "demo_g1 = do_enter 0 rt_a init_group"
definition demo_g2 :: "unit group_sys" where "demo_g2 = do_enter 1 rt_b demo_g1"
definition demo_g3 :: "unit group_sys" where "demo_g3 = do_leave 0 rt_a demo_g2"

lemmas demo_group = demo_g1_def demo_g2_def demo_g3_def do_enter_def do_leave_def group_enter_def
  group_leave_def group_next_def init_group_def new_group_def set_call_def plain_rt_def

lemma demo_group_steps:
  "group_step init_group (GEnter 0 rt_a) demo_g1" "group_step demo_g1 (GEnter 1 rt_b) demo_g2"
  "group_step demo_g2 (GLeave 0) demo_g3"
proof -
  show "group_step init_group (GEnter 0 rt_a) demo_g1"
    unfolding demo_g1_def by (rule grp_enter) (simp add: init_group_def)
  show "group_step demo_g1 (GEnter 1 rt_b) demo_g2"
    unfolding demo_g2_def by (rule grp_enter) (simp add: demo_group)
  show "group_step demo_g2 (GLeave 0) demo_g3"
    unfolding demo_g3_def by (rule grp_leave) (simp add: demo_group)
qed

lemma demo_group_reach:
  "reach init_group group_step demo_g1" "reach init_group group_step demo_g2"
  "reach init_group group_step demo_g3"
  using demo_group_steps by (meson reach_init reach_step)+

theorem group_mutual_exclusion_witness:
  "holding demo_g2 0 \<and> \<not> holding demo_g2 1"
proof -
  let ?ss = "\<lambda>_ :: string. init_group :: unit group_sys"
  have k: "routine_key rt_a = ''k''" "routine_key rt_b = ''k''" by (simp_all add: plain_rt_def routine_key_def)
  have "groups_step ?ss (''k'', GEnter 0 rt_a) (?ss(''k'' := demo_g1))"
    using demo_group_steps(1) k by (auto intro: on_key)
  moreover have "groups_step (?ss(''k'' := demo_g1)) (''k'', GEnter 1 rt_b) (?ss(''k'' := demo_g1, ''k'' := demo_g2))"
    using on_key [of "?ss(''k'' := demo_g1)" "''k''" "GEnter 1 rt_b" demo_g2] demo_group_steps(2) k by simp
  ultimately have "reach ?ss groups_step (?ss(''k'' := demo_g1, ''k'' := demo_g2))"
    by (meson reach_init reach_step)
  note me = group_mutual_exclusion [OF this, of "''k''"]
  have h: "holding demo_g2 0" by (simp add: holding_def demo_group)
  with me [of 0 1] show ?thesis by auto
qed

text \<open>
  A step is patient when it leaves no call that has been handed the key giving up: no waiter takes
  the cancelled branch of its select after its channel was closed, and none is handed the key
  between that branch and \<open>drop\<close>.
\<close>

definition patient_step :: "'b group_sys \<Rightarrow> 'b group_event \<Rightarrow> 'b group_sys \<Rightarrow> bool" where
  "patient_step s e t =
     (group_step s e t \<and> (\<forall>i c. gs_call t i = Some c \<longrightarrow> i \<in> gs_closed t \<longrightarrow> gc_pc c \<noteq> GrpGiveUp))"

text \<open>No call that was handed the key has given up.\<close>

definition kept_inv :: "'b group_sys \<Rightarrow> bool" where
  "kept_inv s = (group_inv s \<and>
     (\<forall>i c. gs_call s i = Some c \<longrightarrow> i \<in> gs_closed s \<longrightarrow> gc_pc c \<noteq> GrpGiveUp \<and> gc_pc c \<noteq> GrpFailed))"

lemma queued_iff: "group_inv s \<Longrightarrow> i \<in> fst ` set (gr_waiters (gs_group s)) \<longleftrightarrow> (\<exists>r. is_queued s i r)"
proof -
  assume inv: "group_inv s"
  then have eq: "(i, r) \<in> set (gr_waiters (gs_group s)) \<longleftrightarrow> is_queued s i r" for r by (simp add: group_inv_def)
  show "i \<in> fst ` set (gr_waiters (gs_group s)) \<longleftrightarrow> (\<exists>r. is_queued s i r)"
    unfolding eq [symmetric] by force
qed

lemma is_queued_known: "is_queued s i r \<Longrightarrow> gs_call s i \<noteq> None"
  by (auto simp: is_queued_def split: option.splits)

lemma do_leave_closed:
  assumes "group_inv s" "i \<in> gs_closed (do_leave j rt s)" "i \<notin> gs_closed s"
  shows "\<exists>r. is_queued s i r"
proof -
  obtain n where n: "group_next (gs_group s) = Some n" "i = fst (gr_waiters (gs_group s) ! n)"
    using assms(2,3) by (auto simp: do_leave_def group_leave_def set_call_def Let_def split: option.splits)
  obtain j r where w: "gr_waiters (gs_group s) ! n = (j, r)" by fastforce
  have "gr_waiters (gs_group s) ! n \<in> set (gr_waiters (gs_group s))"
    using group_next_less [OF n(1)] by simp
  then have "is_queued s j r" using assms(1) by (simp add: w group_inv_def)
  then show ?thesis using n(2) w by auto
qed

lemma do_leave_call: "gs_call (do_leave i rt s) = (gs_call s)(i \<mapsto> \<lparr>gc_rt = rt, gc_pc = GrpDone\<rparr>)"
  by (simp add: do_leave_def set_call_def split: prod.splits)

lemma do_enter_simps:
  "gs_closed (do_enter i rt s) = gs_closed s"
  "\<exists>pc \<in> {GrpHold, GrpWait}. gs_call (do_enter i rt s) = (gs_call s)(i \<mapsto> \<lparr>gc_rt = rt, gc_pc = pc\<rparr>)"
  by (auto simp: do_enter_def set_call_def split: prod.splits entered.splits)

lemma closed_not_failed:
  assumes inv: "kept_inv s" and st: "group_step s e t" and c: "gs_call t j = Some c" and j: "j \<in> gs_closed t"
  shows "gc_pc c \<noteq> GrpFailed"
  using st
proof cases
  case (grp_enter i rt)
  then show ?thesis using inv c j do_enter_simps [of i rt s]
    by (auto simp: kept_inv_def split: if_splits)
next
  case (grp_leave i rt)
  have g: "group_inv s" using inv by (simp add: kept_inv_def)
  show ?thesis
  proof (cases "j \<in> gs_closed s")
    case True
    then show ?thesis using inv c grp_leave by (auto simp: do_leave_call kept_inv_def split: if_splits)
  next
    case False
    then obtain r where "is_queued s j r" using do_leave_closed [OF g] j grp_leave by blast
    then show ?thesis using c grp_leave
      by (auto simp: do_leave_call is_queued_def split: if_splits option.splits)
  qed
next
  case (grp_drop i rt)
  then have "i \<notin> gs_closed s" using inv by (fastforce simp: kept_inv_def)
  then show ?thesis using grp_drop inv c j by (auto simp: kept_inv_def set_call_def split: if_splits)
qed (use inv c j in \<open>auto simp: kept_inv_def set_call_def split: if_splits\<close>)

lemma kept_inv_step: "kept_inv s \<Longrightarrow> patient_step s e t \<Longrightarrow> kept_inv t"
  unfolding patient_step_def by (auto simp: kept_inv_def intro: group_inv_step dest: closed_not_failed [rotated])

interpretation patient_key: guarded_system init_group patient_step kept_inv
  by unfold_locales (simp add: kept_inv_def group_inv_init, simp add: init_group_def, rule kept_inv_step)

text \<open>
  C36: with patient waiters no key is lost. While a call queues, another one has the key and can
  take it or give it back, and once every call has returned the key is free.
\<close>

theorem group_progress:
  assumes "reach init_group patient_step s"
  shows "(\<forall>i r. is_queued s i r \<longrightarrow>
            (\<exists>j e t. j \<noteq> i \<and> e \<in> {GTake j, GLeave j} \<and> group_step s e t))
       \<and> ((\<forall>c \<in> ran (gs_call s). gc_pc c \<in> {GrpDone, GrpFailed}) \<longrightarrow>
            \<not> gr_held (gs_group s) \<and> gr_waiters (gs_group s) = [])"
proof (intro conjI allI impI)
  have inv: "kept_inv s" by (rule patient_key.inv_reach [OF assms])
  show "\<exists>j e t. j \<noteq> i \<and> e \<in> {GTake j, GLeave j} \<and> group_step s e t" if q: "is_queued s i r" for i r
  proof -
    have "(i, r) \<in> set (gr_waiters (gs_group s))" using inv q by (simp add: kept_inv_def group_inv_def)
    then have "gr_held (gs_group s)" using inv by (auto simp: kept_inv_def group_inv_def)
    then obtain j where "has_key s j" using inv by (auto simp: kept_inv_def group_inv_def)
    then obtain rt pc where j: "gs_call s j = Some \<lparr>gc_rt = rt, gc_pc = pc\<rparr>"
      "pc = GrpHold \<or> pc = GrpWait \<and> j \<in> gs_closed s"
      using inv by (auto simp: has_key_def kept_inv_def split: option.splits)
        (metis (full_types) group_call.cases group_call.select_convs(2) group_pc.exhaust)+
    have "j \<noteq> i" using q j by (auto simp: is_queued_def)
    then show ?thesis using j grp_take [of s j rt] grp_leave [of s j rt] by blast
  qed
next
  assume all: "\<forall>c \<in> ran (gs_call s). gc_pc c \<in> {GrpDone, GrpFailed}"
  have inv: "kept_inv s" by (rule patient_key.inv_reach [OF assms])
  have "\<not> has_key s j" for j
    using inv all by (fastforce simp: has_key_def kept_inv_def ran_def split: option.splits)
  then show "\<not> gr_held (gs_group s)" using inv by (simp add: kept_inv_def group_inv_def)
  then show "gr_waiters (gs_group s) = []" using inv by (simp add: kept_inv_def group_inv_def)
qed

theorem group_progress_witness:
  "\<exists>j e t. j \<noteq> 1 \<and> e \<in> {GTake j, GLeave j} \<and> group_step demo_g2 e t"
proof -
  have "patient_step init_group (GEnter 0 rt_a) demo_g1" "patient_step demo_g1 (GEnter 1 rt_b) demo_g2"
    using demo_group_steps by (auto simp: patient_step_def demo_group)
  then have "reach init_group patient_step demo_g2" by (meson reach_init reach_step)
  moreover have "is_queued demo_g2 1 ''b''" by (simp add: is_queued_def demo_group)
  ultimately show ?thesis using group_progress by blast
qed

section \<open>A key that is lost\<close>

definition lost :: "'b group_sys \<Rightarrow> nat \<Rightarrow> bool" where
  "lost s i = (group_inv s \<and> i \<in> gs_closed s \<and> (\<exists>c. gs_call s i = Some c \<and> gc_pc c = GrpFailed))"

lemma lost_step: "lost s i \<Longrightarrow> group_step s e t \<Longrightarrow> lost t i"
proof -
  assume l: "lost s i" and st: "group_step s e t"
  have inv: "group_inv t" by (rule group_inv_step [OF _ st]) (use l in \<open>simp add: lost_def\<close>)
  show "lost t i" using st
  proof cases
    case (grp_enter j rt)
    then show ?thesis using l inv do_enter_simps [of j rt s] by (auto simp: lost_def)
  next
    case (grp_leave j rt)
    then have "i \<in> gs_closed t" using l by (auto simp: lost_def do_leave_def set_call_def split: prod.splits)
    then show ?thesis using grp_leave l inv by (auto simp: lost_def do_leave_call)
  qed (use l inv in \<open>auto simp: lost_def set_call_def\<close>)
qed

lemma lost_forever: "run group_step s es t \<Longrightarrow> lost s i \<Longrightarrow> \<not> holding t j"
proof (induction rule: run.induct)
  case (run_nil s)
  show ?case
  proof
    assume h: "holding s j"
    have "has_key s i" using run_nil by (auto simp: lost_def has_key_def)
    then have "i = j" using holding_has_key [OF h] run_nil by (simp add: lost_def group_inv_def)
    then show False using run_nil h by (auto simp: lost_def holding_def)
  qed
next
  case (run_cons s e t es u)
  then show ?case using lost_step by blast
qed

text \<open>
  A waiter cancelled as it is handed the key loses the key for good. After a run of two calls
  that have both returned, one done and one reported cancelled, no continuation ever lets any call
  on that key run again.
\<close>

theorem group_handoff_leak:
  "\<exists>s. run group_step init_group [GEnter 0 rt_a, GEnter 1 rt_b, GLeave 0, GCancel 1, GDrop 1] s
     \<and> gs_call s = [0 \<mapsto> \<lparr>gc_rt = rt_a, gc_pc = GrpDone\<rparr>, 1 \<mapsto> \<lparr>gc_rt = rt_b, gc_pc = GrpFailed\<rparr>]
     \<and> \<not> (\<exists>es t i. run group_step s es t \<and> holding t i)"
proof -
  let ?s4 = "set_call 1 rt_b GrpGiveUp demo_g3"
  let ?s5 = "set_call 1 rt_b GrpFailed (?s4\<lparr>gs_group := group_drop 1 (gs_group ?s4)\<rparr>)"
  have "group_step demo_g3 (GCancel 1) ?s4" by (rule grp_cancel) (simp add: demo_group)
  moreover have "group_step ?s4 (GDrop 1) ?s5" by (rule grp_drop) (simp add: set_call_def)
  ultimately have r: "run group_step init_group [GEnter 0 rt_a, GEnter 1 rt_b, GLeave 0, GCancel 1, GDrop 1] ?s5"
    using demo_group_steps by (meson run_cons run_nil)
  have "group_inv ?s5"
    using group_key.inv_run [OF r group_inv_init] .
  then have "lost ?s5 1" by (simp add: lost_def) (simp add: demo_group)
  then have "\<not> (\<exists>es t i. run group_step ?s5 es t \<and> holding t i)" using lost_forever by blast
  moreover have "gs_call ?s5 = [0 \<mapsto> \<lparr>gc_rt = rt_a, gc_pc = GrpDone\<rparr>, 1 \<mapsto> \<lparr>gc_rt = rt_b, gc_pc = GrpFailed\<rparr>]"
    by (simp add: demo_group)
  ultimately show ?thesis using r by blast
qed

section \<open>Turns\<close>

lemma remove_at_waiters:
  assumes "n < length ws" "distinct (map fst ws)"
  shows "remove_at n ws = filter (\<lambda>w. fst w \<noteq> fst (ws ! n)) ws"
proof -
  have "distinct ws" using assms(2) by (simp add: distinct_map)
  then have "remove_at n ws = filter (\<lambda>w. w \<noteq> ws ! n) ws" by (rule remove_at_filter [OF assms(1)])
  also have "\<dots> = filter (\<lambda>w. fst w \<noteq> fst (ws ! n)) ws"
    using assms by (intro filter_cong) (auto simp: distinct_map inj_on_def)
  finally show ?thesis .
qed

lemma group_drop_filter:
  assumes "distinct (map fst (gr_waiters g))"
  shows "gr_waiters (group_drop i g) = filter (\<lambda>w. fst w \<noteq> i) (gr_waiters g)"
proof (cases "find_index (\<lambda>w. fst w = i) (gr_waiters g)")
  case None
  then have "\<forall>w \<in> set (gr_waiters g). fst w \<noteq> i" by (simp add: find_index_None_iff)
  then show ?thesis using None by (simp add: group_drop_def)
next
  case (Some n)
  then show ?thesis using find_index_SomeD [OF Some] assms
    by (simp add: group_drop_def remove_at_waiters)
qed

definition ahead :: "nat \<Rightarrow> (nat \<times> string) list \<Rightarrow> nat" where
  "ahead i ws = length (takeWhile (\<lambda>w. fst w \<noteq> i) ws)"

lemma ahead_filter: "h \<noteq> i \<Longrightarrow> ahead i (filter (\<lambda>w. fst w \<noteq> h) ws) \<le> ahead i ws"
  by (induction ws) (auto simp: ahead_def)

lemma ahead_append: "i \<in> fst ` set ws \<Longrightarrow> ahead i (ws @ vs) = ahead i ws"
  by (induction ws) (auto simp: ahead_def)

lemma ahead_nth: "p < length ws \<Longrightarrow> fst (ws ! p) = i \<Longrightarrow> ahead i ws \<le> p"
  by (induction ws arbitrary: p) (auto simp: ahead_def nth_Cons split: nat.splits)

text \<open>The routine \<open>r\<close> was served last: the call handed the key is of it, or none is and it was recorded.\<close>

definition handed :: "'b group_sys \<Rightarrow> nat \<Rightarrow> string \<Rightarrow> bool" where
  "handed s j r = (j \<in> gs_closed s \<and>
     (\<exists>c. gs_call s j = Some c \<and> gc_pc c \<in> {GrpWait, GrpGiveUp, GrpFailed} \<and> rt_name (gc_rt c) = r))"

definition served_last :: "'b group_sys \<Rightarrow> string \<Rightarrow> bool" where
  "served_last s r =
     ((\<exists>j. handed s j r) \<or> (\<forall>j r'. \<not> handed s j r') \<and> gr_last_served (gs_group s) = r)"

definition turns_left :: "nat \<Rightarrow> 'b group_sys \<Rightarrow> nat" where
  "turns_left i s =
     (let ws = gr_waiters (gs_group s)
      in 2 * ahead i ws + (if served_last s (snd (hd ws)) then 1 else 0))"

lemma handed_has_key: "handed s j r \<Longrightarrow> has_key s j"
  by (auto simp: handed_def has_key_def)

fun is_leave :: "'b group_event \<Rightarrow> bool" where
  "is_leave (GLeave i) = True"
| "is_leave _ = False"

lemma turns_removed:
  assumes "gr_waiters (gs_group t) = filter (\<lambda>w. fst w \<noteq> h) (gr_waiters (gs_group s))" "h \<noteq> i"
    and "i \<in> fst ` set (gr_waiters (gs_group s))"
  shows "fst (hd (gr_waiters (gs_group s))) = h \<Longrightarrow> turns_left i t + 1 \<le> 2 * ahead i (gr_waiters (gs_group s))"
    and "fst (hd (gr_waiters (gs_group s))) \<noteq> h \<Longrightarrow>
      turns_left i t \<le> 2 * ahead i (gr_waiters (gs_group s))
        + (if served_last t (snd (hd (gr_waiters (gs_group s)))) then 1 else 0)"
proof -
  obtain w ws where ws: "gr_waiters (gs_group s) = w # ws" using assms(3) by (cases "gr_waiters (gs_group s)") auto
  note f = ahead_filter [OF assms(2)]
  show "turns_left i t + 1 \<le> 2 * ahead i (gr_waiters (gs_group s))" if "fst (hd (gr_waiters (gs_group s))) = h"
    using that assms(1,2) f [of ws] by (auto simp: ws turns_left_def Let_def ahead_def)
  show "turns_left i t \<le> 2 * ahead i (gr_waiters (gs_group s))
      + (if served_last t (snd (hd (gr_waiters (gs_group s)))) then 1 else 0)"
    if "fst (hd (gr_waiters (gs_group s))) \<noteq> h"
    using that assms(1,2) f [of ws] by (auto simp: ws turns_left_def Let_def ahead_def)
qed

lemma served_last_same:
  assumes "\<And>j r. handed t j r \<longleftrightarrow> handed s j r"
    and "gr_last_served (gs_group t) = gr_last_served (gs_group s)"
  shows "served_last t r = served_last s r"
  using assms by (simp add: served_last_def)

lemma served_last_holding:
  assumes "group_inv s" "holding s j"
  shows "served_last s r \<longleftrightarrow> gr_last_served (gs_group s) = r"
proof -
  have no: "\<not> handed s k r'" for k r'
  proof
    assume h: "handed s k r'"
    have "k = j" using assms handed_has_key [OF h] holding_has_key [OF assms(2)] by (simp add: group_inv_def)
    then show False using h assms(2) by (auto simp: handed_def holding_def)
  qed
  then show ?thesis by (simp add: served_last_def)
qed

lemma turns_leave:
  assumes inv: "group_inv s" and c: "gs_call s j = Some \<lparr>gc_rt = rt, gc_pc = GrpHold\<rparr>"
    and q: "i \<in> fst ` set (gr_waiters (gs_group s))"
    and q': "i \<in> fst ` set (gr_waiters (gs_group (do_leave j rt s)))"
  shows "turns_left i (do_leave j rt s) + 1 \<le> turns_left i s"
proof -
  let ?g = "gs_group s" and ?t = "do_leave j rt s"
  have d: "distinct (map fst (gr_waiters ?g))" using inv by (simp add: group_inv_def)
  obtain n where n: "group_next ?g = Some n" using q by (cases "group_next ?g") auto
  have len: "n < length (gr_waiters ?g)" by (rule group_next_less [OF n])
  obtain h hr where w: "gr_waiters ?g ! n = (h, hr)" by fastforce
  have t: "?t = set_call j rt GrpDone (s\<lparr>gs_group := ?g\<lparr>gr_cancel_held := None,
      gr_waiters := remove_at n (gr_waiters ?g)\<rparr>, gs_closed := insert h (gs_closed s),
      gs_cancelled := insert j (gs_cancelled s)\<rparr>)"
    using n w by (simp add: do_leave_def group_leave_def)
  have f: "gr_waiters (gs_group ?t) = filter (\<lambda>w. fst w \<noteq> h) (gr_waiters ?g)"
    using remove_at_waiters [OF len d] w by (simp add: t set_call_def)
  have hi: "h \<noteq> i" using q' unfolding f by auto
  have hold: "holding s j" using c by (simp add: holding_def)
  have hq: "is_queued s h hr" using inv w nth_mem [OF len] by (simp add: group_inv_def)
  have inv': "group_inv ?t" by (rule group_inv_leave [OF inv c])
  have hh: "handed ?t h hr" using hq c unfolding t
    by (auto simp: handed_def is_queued_def set_call_def split: option.splits)
  then have sl: "served_last ?t r \<longleftrightarrow> r = hr" for r
    using inv' handed_has_key unfolding group_inv_def served_last_def
    by (metis (no_types, lifting) handed_def option.inject)
  show ?thesis
  proof (cases "n = 0")
    case True
    then have "fst (hd (gr_waiters ?g)) = h" using w len by (simp add: hd_conv_nth)
    then show ?thesis using turns_removed(1) [OF f hi q] by (simp add: turns_left_def Let_def)
  next
    case False
    then have fi: "gr_rotate ?g" "find_index (\<lambda>w. snd w \<noteq> gr_last_served ?g) (gr_waiters ?g) = Some n"
      using n by (auto simp: group_next_def split: if_splits option.splits)
    note fs = find_index_SomeD [OF fi(2)]
    have hd: "snd (hd (gr_waiters ?g)) = gr_last_served ?g"
      using fs False len by (cases "gr_waiters ?g") (auto simp: nth_Cons')
    have "hr \<noteq> gr_last_served ?g" using fs w by simp
    then have nsl: "\<not> served_last ?t (snd (hd (gr_waiters ?g)))" using sl hd by simp
    have "served_last s (snd (hd (gr_waiters ?g)))"
      using served_last_holding [OF inv hold] hd by simp
    moreover have "fst (hd (gr_waiters ?g)) \<noteq> h"
    proof
      assume "fst (hd (gr_waiters ?g)) = h"
      then have "map fst (gr_waiters ?g) ! 0 = map fst (gr_waiters ?g) ! n"
        using w len nth_map [OF len, of fst] by (cases "gr_waiters ?g") auto
      then show False using d len False nth_eq_iff_index_eq [OF d, of 0 n] by (metis gr0I length_map less_trans)
    qed
    ultimately show ?thesis using turns_removed(2) [OF f hi q] nsl
      by (simp add: turns_left_def [of i s] Let_def)
  qed
qed

lemma turns_step:
  assumes inv: "group_inv s" and st: "group_step s e u"
    and q: "i \<in> fst ` set (gr_waiters (gs_group s))"
    and q': "i \<in> fst ` set (gr_waiters (gs_group u))"
  shows "turns_left i u + (if is_leave e then 1 else 0) \<le> turns_left i s"
  using st
proof cases
  case (grp_enter j rt)
  let ?g = "gs_group s"
  have held: "gr_held ?g" using inv q by (auto simp: group_inv_def)
  have j: "j \<notin> gs_closed s" using inv grp_enter by (auto simp: group_inv_def)
  have "handed u k r \<longleftrightarrow> handed s k r" for k r
    using j held grp_enter by (auto simp: handed_def do_enter_def group_enter_def set_call_def)
  then have "served_last u r = served_last s r" for r
    using held grp_enter by (intro served_last_same) (auto simp: do_enter_def group_enter_def set_call_def)
  moreover have w: "gr_waiters (gs_group u) = gr_waiters ?g @ [(j, rt_name rt)]"
    using held grp_enter by (simp add: do_enter_def group_enter_def set_call_def)
  moreover have "hd (gr_waiters (gs_group u)) = hd (gr_waiters ?g)"
    using q unfolding w by (cases "gr_waiters ?g") auto
  ultimately show ?thesis using q grp_enter by (simp add: turns_left_def ahead_append)
next
  case (grp_take j rt)
  have h: "handed s j (rt_name rt)" using grp_take by (simp add: handed_def)
  then have uniq: "k = j \<and> r = rt_name rt" if "handed s k r" for k r
    using inv that handed_has_key [OF h] handed_has_key [OF that]
    by (auto simp: group_inv_def handed_def)
  have "group_inv u" using inv st by (rule group_inv_step)
  moreover have "holding u j" using grp_take by (simp add: holding_def set_call_def)
  ultimately have "served_last u r \<longleftrightarrow> r = rt_name rt" for r
    using served_last_holding [of u j r] grp_take by (auto simp: set_call_def group_take_def)
  moreover have "served_last s r \<longleftrightarrow> r = rt_name rt" for r
    using h uniq unfolding served_last_def by blast
  ultimately show ?thesis using grp_take by (simp add: turns_left_def set_call_def group_take_def)
next
  case (grp_cancel j rt)
  have "handed u k r \<longleftrightarrow> handed s k r" for k r
    using grp_cancel by (auto simp: handed_def set_call_def)
  then have "served_last u r = served_last s r" for r
    using grp_cancel by (intro served_last_same) (auto simp: set_call_def)
  then show ?thesis using grp_cancel by (simp add: turns_left_def set_call_def)
next
  case (grp_drop j rt)
  let ?g = "gs_group s"
  have "handed u k r \<longleftrightarrow> handed s k r" for k r
    using grp_drop by (auto simp: handed_def set_call_def)
  then have sl: "served_last u r = served_last s r" for r
    using grp_drop by (intro served_last_same) (auto simp: set_call_def)
  have f: "gr_waiters (gs_group u) = filter (\<lambda>w. fst w \<noteq> j) (gr_waiters ?g)"
    using grp_drop inv by (simp add: group_drop_filter set_call_def group_inv_def)
  then have "j \<noteq> i" using q' by auto
  from turns_removed [OF f this q] sl show ?thesis using grp_drop
    by (cases "fst (hd (gr_waiters ?g)) = j") (simp_all add: turns_left_def [of i s] Let_def)
next
  case (grp_leave j rt)
  then show ?thesis using turns_leave [OF inv _ q] q' by simp
qed

lemma known_step: "group_step s e u \<Longrightarrow> gs_call s i \<noteq> None \<Longrightarrow> gs_call u i \<noteq> None"
proof (erule group_stepE)
  fix j rt
  assume "gs_call s i \<noteq> None" "u = do_enter j rt s"
  then show "gs_call u i \<noteq> None" using do_enter_simps(2) [of j rt s] by auto
qed (auto simp: set_call_def do_leave_call)

text \<open>A call that is out of the queue never queues again.\<close>

lemma queue_out_step:
  assumes inv: "group_inv s" and st: "group_step s e u"
    and out: "i \<notin> fst ` set (gr_waiters (gs_group s))" "gs_call s i \<noteq> None"
  shows "i \<notin> fst ` set (gr_waiters (gs_group u)) \<and> gs_call u i \<noteq> None"
proof -
  have inv': "group_inv u" using inv st by (rule group_inv_step)
  have no: "\<not> is_queued s i r" for r using queued_iff [OF inv] out by blast
  have "\<not> is_queued u i r \<and> gs_call u i \<noteq> None" for r
    using st
  proof cases
    case (grp_enter j rt)
    then have "j \<noteq> i" using out by auto
    then have "gs_call u i = gs_call s i" "gs_closed u = gs_closed s"
      using grp_enter do_enter_simps [of j rt s] by auto
    then show ?thesis using out no [of r] by (simp add: is_queued_def cong: option.case_cong)
  next
    case (grp_leave j rt)
    then have "gs_closed s \<subseteq> gs_closed u" by (auto simp: do_leave_def set_call_def split: prod.splits)
    then show ?thesis using grp_leave out no [of r]
      by (auto simp: do_leave_call is_queued_def split: option.splits)
  qed (use out no [of r] in \<open>auto simp: is_queued_def set_call_def split: option.splits\<close>)
  then show ?thesis using queued_iff [OF inv'] by blast
qed

lemma queue_out_run:
  "run group_step s es t \<Longrightarrow> group_inv s \<Longrightarrow> i \<notin> fst ` set (gr_waiters (gs_group s)) \<Longrightarrow>
     gs_call s i \<noteq> None \<Longrightarrow> i \<notin> fst ` set (gr_waiters (gs_group t))"
  by (induction rule: run.induct) (use queue_out_step group_inv_step in blast)+

lemma turns_run:
  "run group_step s es t \<Longrightarrow> group_inv s \<Longrightarrow> i \<in> fst ` set (gr_waiters (gs_group s)) \<Longrightarrow>
     i \<in> fst ` set (gr_waiters (gs_group t)) \<Longrightarrow>
     turns_left i t + length (filter is_leave es) \<le> turns_left i s"
proof (induction rule: run.induct)
  case (run_cons s e u es t)
  have inv: "group_inv u" using run_cons.prems(1) run_cons.hyps(1) by (rule group_inv_step)
  have known: "gs_call u i \<noteq> None"
    by (rule known_step [OF run_cons.hyps(1)]) (use queued_iff run_cons.prems(1,2) is_queued_known in blast)
  have q: "i \<in> fst ` set (gr_waiters (gs_group u))"
    using queue_out_run [OF run_cons.hyps(2) inv _ known] run_cons.prems(3) by blast
  have "turns_left i u + (if is_leave e then 1 else 0) \<le> turns_left i s"
    by (rule turns_step [OF run_cons.prems(1) run_cons.hyps(1) run_cons.prems(2) q])
  then show ?case using run_cons.IH [OF inv q run_cons.prems(3)] by (cases "is_leave e") auto
qed simp

text \<open>
  No routine is starved on a key, rotation included. A waiter with \<open>p\<close> waiters before it is
  passed over at most \<open>2 * p + 1\<close> times, whatever arrives, gives up or rotates meanwhile.
\<close>

theorem group_turn_bound:
  assumes "reach init_group group_step s" and "run group_step s es t"
    and "p < length (gr_waiters (gs_group s))" and "gr_waiters (gs_group s) ! p = (i, r)"
    and "i \<in> fst ` set (gr_waiters (gs_group t))"
  shows "length (filter is_leave es) \<le> 2 * p + 1"
proof -
  let ?ws = "gr_waiters (gs_group s)"
  have inv: "group_inv s" by (rule group_key.inv_reach [OF assms(1)])
  have "?ws ! p \<in> set ?ws" using assms(3) by simp
  then have "i \<in> fst ` set ?ws" using assms(4) by force
  from turns_run [OF assms(2) inv this assms(5)]
  have "length (filter is_leave es) \<le> turns_left i s" by simp
  also have "\<dots> \<le> 2 * ahead i ?ws + 1" by (simp add: turns_left_def Let_def)
  also have "ahead i ?ws \<le> p" using ahead_nth [OF assms(3)] assms(4) by simp
  finally show ?thesis by simp
qed

text \<open>A waiter of the routine just served is passed over once by a waiter of another.\<close>

abbreviation "turn_rt n \<equiv> (plain_rt n)\<lparr>rt_concurrency := RoundRobin\<rparr>"

definition demo_t1 :: "unit group_sys" where "demo_t1 = do_enter 0 (turn_rt ''a'') init_group"
definition demo_t2 :: "unit group_sys" where "demo_t2 = do_enter 1 (turn_rt ''a'') demo_t1"
definition demo_t3 :: "unit group_sys" where "demo_t3 = do_enter 2 (turn_rt ''b'') demo_t2"
definition demo_t4 :: "unit group_sys" where "demo_t4 = do_leave 0 (turn_rt ''a'') demo_t3"

theorem group_turn_bound_witness:
  "gr_waiters (gs_group demo_t4) = [(1, ''a'')] \<and> length (filter is_leave [GLeave 0 :: unit group_event]) \<le> 1"
proof
  note defs = demo_t1_def demo_t2_def demo_t3_def demo_t4_def demo_group remove_at_def
  have s: "group_step init_group (GEnter 0 (turn_rt ''a'')) demo_t1"
    "group_step demo_t1 (GEnter 1 (turn_rt ''a'')) demo_t2"
    "group_step demo_t2 (GEnter 2 (turn_rt ''b'')) demo_t3"
    unfolding demo_t1_def demo_t2_def demo_t3_def by (rule grp_enter, simp add: demo_group)+
  have l: "group_step demo_t3 (GLeave 0) demo_t4"
    unfolding demo_t4_def by (rule grp_leave) (simp add: defs)
  have "reach init_group group_step demo_t3" using s by (meson reach_init reach_step)
  moreover have "run group_step demo_t3 [GLeave 0] demo_t4" using l by (simp add: run_Cons_simp)
  moreover show w: "gr_waiters (gs_group demo_t4) = [(1, ''a'')]" by (simp add: defs)
  ultimately show "length (filter is_leave [GLeave 0 :: unit group_event]) \<le> 1"
    using group_turn_bound [of demo_t3 "[GLeave 0]" demo_t4 0 1 "''a''"] by (simp add: defs)
qed

end
