(* ===== verification/GoUtf8.thy ===== *)
theory GoUtf8
  imports Prelude
begin

text \<open>
  Go's UTF-8 and UTF-16 as the sources use them: a string is bytes, a \<open>range\<close> loop or a conversion
  to \<open>[]rune\<close> decodes them, \<open>WriteRune\<close> encodes, and \<open>utf16.Encode\<close> gives one or two units. A rune is
  a natural number. A byte that starts no valid sequence decodes to U+FFFD and is one byte long, as
  in \<open>unicode/utf8\<close>.
\<close>

section \<open>Encoding and decoding\<close>

definition byte_of :: "char \<Rightarrow> nat" where
  "byte_of c = of_char c"

definition of_byte :: "nat \<Rightarrow> char" where
  "of_byte n = char_of n"

lemma byte_of_of_byte [simp]: "n < 256 \<Longrightarrow> byte_of (of_byte n) = n"
  by (simp add: byte_of_def of_byte_def)

lemma of_byte_byte_of [simp]: "of_byte (byte_of c) = c"
  by (simp add: byte_of_def of_byte_def)

lemma byte_of_less: "byte_of c < 256"
  by (simp add: byte_of_def)

abbreviation rune_error :: nat where "rune_error \<equiv> 0xFFFD"

definition cont :: "nat \<Rightarrow> bool" where
  "cont b = (0x80 \<le> b \<and> b \<le> 0xBF)"

text \<open>The first continuation byte's range, by the leading byte (\<open>acceptRanges\<close>).\<close>

definition accept2 :: "nat \<Rightarrow> nat \<Rightarrow> bool" where
  "accept2 b0 b1 =
     ((if b0 = 0xE0 then 0xA0 else if b0 = 0xF0 then 0x90 else 0x80) \<le> b1
      \<and> b1 \<le> (if b0 = 0xED then 0x9F else if b0 = 0xF4 then 0x8F else 0xBF))"

fun decode_bytes :: "nat list \<Rightarrow> nat \<times> nat" where
  "decode_bytes bs =
     (case bs of
        [] \<Rightarrow> (rune_error, 0)
      | b0 # rest \<Rightarrow>
          if b0 < 0x80 then (b0, 1)
          else if 0xC2 \<le> b0 \<and> b0 \<le> 0xDF then
            (case rest of
               b1 # _ \<Rightarrow> if cont b1 then ((b0 - 0xC0) * 64 + (b1 - 0x80), 2) else (rune_error, 1)
             | _ \<Rightarrow> (rune_error, 1))
          else if 0xE0 \<le> b0 \<and> b0 \<le> 0xEF then
            (case rest of
               b1 # b2 # _ \<Rightarrow>
                 if accept2 b0 b1 \<and> cont b2
                 then ((b0 - 0xE0) * 4096 + (b1 - 0x80) * 64 + (b2 - 0x80), 3) else (rune_error, 1)
             | _ \<Rightarrow> (rune_error, 1))
          else if 0xF0 \<le> b0 \<and> b0 \<le> 0xF4 then
            (case rest of
               b1 # b2 # b3 # _ \<Rightarrow>
                 if accept2 b0 b1 \<and> cont b2 \<and> cont b3
                 then ((b0 - 0xF0) * 262144 + (b1 - 0x80) * 4096 + (b2 - 0x80) * 64 + (b3 - 0x80), 4)
                 else (rune_error, 1)
             | _ \<Rightarrow> (rune_error, 1))
          else (rune_error, 1))"

declare decode_bytes.simps [simp del]

text \<open>Four bytes are all a rune can take.\<close>

definition decode_rune :: "string \<Rightarrow> nat \<times> nat" where
  "decode_rune s = decode_bytes (map byte_of (take 4 s))"

definition valid_rune :: "nat \<Rightarrow> bool" where
  "valid_rune r = (r < 0xD800 \<or> 0xDFFF < r \<and> r \<le> 0x10FFFF)"

definition encode_bytes :: "nat \<Rightarrow> nat list" where
  "encode_bytes r0 =
     (let r = (if valid_rune r0 then r0 else rune_error) in
      if r < 0x80 then [r]
      else if r < 0x800 then [0xC0 + r div 64, 0x80 + r mod 64]
      else if r < 0x10000 then [0xE0 + r div 4096, 0x80 + r div 64 mod 64, 0x80 + r mod 64]
      else [0xF0 + r div 262144, 0x80 + r div 4096 mod 64, 0x80 + r div 64 mod 64, 0x80 + r mod 64])"

definition encode_rune :: "nat \<Rightarrow> string" where
  "encode_rune r = map of_byte (encode_bytes r)"

definition utf16_units :: "nat \<Rightarrow> nat" where
  "utf16_units r = (if 0x10000 \<le> r \<and> r \<le> 0x10FFFF then 2 else 1)"

lemma decode_bytes_size: "bs \<noteq> [] \<Longrightarrow> 0 < snd (decode_bytes bs) \<and> snd (decode_bytes bs) \<le> length bs"
  by (cases bs) (auto simp: decode_bytes.simps split: list.splits)

lemma utf16_units_code [code]:
  "utf16_units r = (if 0x10000 \<le> int r \<and> int r \<le> 0x10FFFF then 2 else 1)"
  by (auto simp: utf16_units_def)

text \<open>The runes of a string, each with its length in bytes, as a \<open>range\<close> loop meets them.\<close>

lemma decode_size: "s \<noteq> [] \<Longrightarrow> 0 < snd (decode_rune s) \<and> snd (decode_rune s) \<le> length s"
proof -
  assume "s \<noteq> []"
  then have "map byte_of (take 4 s) \<noteq> []" by simp
  from decode_bytes_size [OF this] show "0 < snd (decode_rune s) \<and> snd (decode_rune s) \<le> length s"
    by (auto simp: decode_rune_def)
qed

function runes :: "string \<Rightarrow> (nat \<times> nat) list" where
  "runes s = (if s = [] then [] else decode_rune s # runes (drop (snd (decode_rune s)) s))"
  by pat_completeness auto
termination
  by (relation "measure length") (auto dest: decode_size)

declare runes.simps [simp del]

lemma runes_Nil [simp]: "runes [] = []"
  by (simp add: runes.simps)

definition encode_runes :: "nat list \<Rightarrow> string" where
  "encode_runes rs = concat (map encode_rune rs)"

lemma encode_runes_simps [simp]:
  "encode_runes [] = []" "encode_runes (r # rs) = encode_rune r @ encode_runes rs"
  "encode_runes (xs @ ys) = encode_runes xs @ encode_runes ys"
  by (simp_all add: encode_runes_def)

section \<open>Decoding what was encoded\<close>

lemma encode_bytes_less: "b \<in> set (encode_bytes r) \<Longrightarrow> b < 256"
  by (auto simp: encode_bytes_def valid_rune_def Let_def split: if_splits)

lemma length_encode_bytes: "0 < length (encode_bytes r) \<and> length (encode_bytes r) \<le> 4"
  by (auto simp: encode_bytes_def Let_def)

lemma bytes_of_encode: "map byte_of (encode_rune r) = encode_bytes r"
  by (simp add: encode_rune_def map_idI encode_bytes_less)

lemma length_encode_rune: "0 < length (encode_rune r)" "length (encode_rune r) \<le> 4"
  using length_encode_bytes [of r] by (simp_all add: encode_rune_def)

lemma decode3:
  assumes "q \<le> 0xF" "m < 64" "n < 64" "q = 0 \<Longrightarrow> 32 \<le> m" "q = 13 \<Longrightarrow> m < 32"
  shows "decode_bytes ((0xE0 + q) # (0x80 + m) # (0x80 + n) # bs) = (q * 4096 + m * 64 + n, 3)"
proof -
  have "accept2 (0xE0 + q) (0x80 + m)" using assms by (auto simp: accept2_def)
  then show ?thesis using assms by (simp add: decode_bytes.simps cont_def)
qed

lemma decode4:
  assumes "q \<le> 4" "m < 64" "n < 64" "k < 64" "q = 0 \<Longrightarrow> 16 \<le> m" "q = 4 \<Longrightarrow> m < 16"
  shows "decode_bytes ((0xF0 + q) # (0x80 + m) # (0x80 + n) # (0x80 + k) # bs)
    = (q * 262144 + m * 4096 + n * 64 + k, 4)"
proof -
  have "accept2 (0xF0 + q) (0x80 + m)" using assms by (auto simp: accept2_def)
  then show ?thesis using assms by (simp add: decode_bytes.simps cont_def)
qed

lemma div_div64: "(r::nat) div 4096 = r div 64 div 64" "(r::nat) div 262144 = r div 4096 div 64"
  by (simp_all add: div_mult2_eq [symmetric])

lemma div_digits: "(r::nat) div 4096 * 4096 + r div 64 mod 64 * 64 + r mod 64 = r"
proof -
  have "r div 64 div 64 * 64 + r div 64 mod 64 = r div 64" by (rule div_mult_mod_eq)
  moreover have "r div 64 * 64 + r mod 64 = r" by (rule div_mult_mod_eq)
  ultimately show ?thesis unfolding div_div64 by linarith
qed

lemma div_digits4: "(r::nat) div 262144 * 262144 + r div 4096 mod 64 * 4096 + r div 64 mod 64 * 64 + r mod 64 = r"
proof -
  have "r div 4096 div 64 * 64 + r div 4096 mod 64 = r div 4096" by (rule div_mult_mod_eq)
  then show ?thesis unfolding div_div64(2) using div_digits [of r] by linarith
qed

lemma decode_bytes_encode:
  assumes "valid_rune r"
  shows "decode_bytes (encode_bytes r @ bs) = (r, length (encode_bytes r))"
proof -
  consider "r < 0x80" | "0x80 \<le> r" "r < 0x800" | "0x800 \<le> r" "r < 0x10000" | "0x10000 \<le> r" "r \<le> 0x10FFFF"
    using assms by (fastforce simp: valid_rune_def)
  then show ?thesis
  proof cases
    case 1
    then show ?thesis using assms by (simp add: encode_bytes_def decode_bytes.simps)
  next
    case 2
    then have "2 \<le> r div 64" "r div 64 \<le> 0x1F" by auto
    then show ?thesis using 2 assms by (simp add: encode_bytes_def decode_bytes.simps cont_def)
  next
    case 3
    have e: "encode_bytes r = [0xE0 + r div 4096, 0x80 + r div 64 mod 64, 0x80 + r mod 64]"
      using 3 assms by (simp add: encode_bytes_def)
    have q: "r div 4096 \<le> 0xF" using 3 by auto
    have low: "32 \<le> r div 64 mod 64" if "r div 4096 = 0"
    proof -
      have "r div 64 < 64" using that unfolding div_div64 by simp
      moreover have "32 \<le> r div 64" using div_le_mono [OF 3(1), of 64] by simp
      ultimately show ?thesis by simp
    qed
    have high: "r div 64 mod 64 < 32" if "r div 4096 = 13"
    proof -
      have "r < 0xD800" using that assms by (auto simp: valid_rune_def)
      then have "r div 64 < 864" by (simp add: less_mult_imp_div_less)
      moreover have "13 * 64 + r div 64 mod 64 = r div 64"
        using that div_mult_mod_eq [of "r div 64" 64] unfolding div_div64 by simp
      ultimately show ?thesis by simp
    qed
    show ?thesis using decode3 [OF q _ _ low high, of "r mod 64" bs] by (simp add: e div_digits)
  next
    case 4
    have e: "encode_bytes r =
        [0xF0 + r div 262144, 0x80 + r div 4096 mod 64, 0x80 + r div 64 mod 64, 0x80 + r mod 64]"
      using 4 assms by (simp add: encode_bytes_def)
    have q: "r div 262144 \<le> 4" using 4 by auto
    have low: "16 \<le> r div 4096 mod 64" if "r div 262144 = 0"
    proof -
      have "r div 4096 < 64" using that unfolding div_div64(2) by simp
      moreover have "16 \<le> r div 4096" using div_le_mono [OF 4(1), of 4096] by simp
      ultimately show ?thesis by simp
    qed
    have high: "r div 4096 mod 64 < 16" if "r div 262144 = 4"
    proof -
      have "r div 4096 < 272" using 4(2) by (simp add: less_mult_imp_div_less)
      moreover have "4 * 64 + r div 4096 mod 64 = r div 4096"
        using that div_mult_mod_eq [of "r div 4096" 64] unfolding div_div64(2) by simp
      ultimately show ?thesis by simp
    qed
    show ?thesis using decode4 [OF q _ _ _ low high, of "r div 64 mod 64" "r mod 64" bs]
      by (simp add: e div_digits4)
  qed
qed

lemma decode_encode_rune:
  assumes "valid_rune r"
  shows "decode_rune (encode_rune r @ s) = (r, length (encode_rune r))"
proof -
  have "map byte_of (take 4 (encode_rune r @ s)) =
      encode_bytes r @ map byte_of (take (4 - length (encode_rune r)) s)"
    using length_encode_rune [of r] by (simp add: bytes_of_encode)
  then show ?thesis unfolding decode_rune_def
    using decode_bytes_encode [OF assms] by (simp add: encode_rune_def)
qed

lemma runes_encode_append:
  assumes "list_all valid_rune rs"
  shows "runes (encode_runes rs @ s) = map (\<lambda>r. (r, length (encode_rune r))) rs @ runes s"
  using assms
proof (induction rs)
  case (Cons r rs)
  then have "valid_rune r" by simp
  note d = decode_encode_rune [OF this]
  have "encode_rune r \<noteq> []" using length_encode_rune [of r] by auto
  then show ?case using Cons
    by (subst runes.simps) (simp add: d)
qed simp

lemma runes_encode: "list_all valid_rune rs \<Longrightarrow> map fst (runes (encode_runes rs)) = rs"
  using runes_encode_append [of rs "[]"] by (simp add: comp_def)

lemma runes_sizes: "sum_list (map snd (runes s)) = length s"
proof (induction s rule: runes.induct)
  case (1 s)
  show ?case
  proof (cases "s = []")
    case False
    then show ?thesis using 1 decode_size [OF False] by (subst runes.simps) simp
  qed simp
qed

end
