(* ===== verification/EditReplace.thy ===== *)
theory EditReplace
  imports GoStrings GoUtf8
begin

text \<open>
  String replacement with a fuzzy fallback (\<open>internal/edit/replace.go\<close>, \<open>entity.go\<close>): exact
  occurrences first, then line blocks equal up to spacing, then blocks whose blank lines the anchor
  dropped, and last the anchor with collapsed HTML references put back. Offsets are byte offsets.
  A slice expression that Go would panic on is the error \<open>RuntimePanic\<close>. Source text is taken to be
  valid UTF-8, so that comparing lines by byte and by rune agree.
\<close>

section \<open>Results and errors\<close>

record line_range =
  lr_start :: int
  lr_end :: int

datatype edit_error =
    NotFound string string nat nat
  | NotUnique "nat list"
  | EmptyOldString
  | NoChange
  | RuntimePanic

record edit_result =
  er_source :: string
  er_note :: string
  er_ranges :: "line_range list"
  er_added :: nat
  er_removed :: nat
  er_matches :: nat

record splice =
  sp_source :: string
  sp_ranges :: "line_range list"
  sp_start_line :: int
  sp_added :: nat
  sp_removed :: nat
  sp_matches :: nat

definition mk_line_range :: "int \<Rightarrow> nat \<Rightarrow> line_range" where
  "mk_line_range start_line added =
     (if added = 0 then \<lparr>lr_start = start_line, lr_end = start_line - 1\<rparr>
      else \<lparr>lr_start = start_line, lr_end = start_line + int added - 1\<rparr>)"

definition count_lines :: "string \<Rightarrow> nat" where
  "count_lines s = (if s = [] then 0 else count_byte s nl + 1)"

section \<open>Lines up to spacing\<close>

fun collapse_loop :: "bool \<Rightarrow> string \<Rightarrow> string" where
  "collapse_loop space [] = []"
| "collapse_loop space (c # s) =
     (if c = CHR '' '' \<or> c = tab then collapse_loop True s
      else (if space then [CHR '' ''] else []) @ c # collapse_loop False s)"

definition collapse_spacing :: "string \<Rightarrow> string" where
  "collapse_spacing s = collapse_loop False (trim_space s)"

definition same_line :: "string \<Rightarrow> string \<Rightarrow> bool" where
  "same_line a b = (collapse_spacing a = collapse_spacing b)"

definition blank_line :: "string \<Rightarrow> bool" where
  "blank_line s = (collapse_spacing s = [])"

definition blanks :: string where "blanks = [CHR '' '', tab]"

definition leading_whitespace :: "string \<Rightarrow> string" where
  "leading_whitespace s = take (length s - length (trim_left s blanks)) s"

definition non_blank :: "string list \<Rightarrow> string list" where
  "non_blank ls = filter (\<lambda>t. t \<noteq> []) (map collapse_spacing ls)"

definition first_indent :: "string list \<Rightarrow> string" where
  "first_indent ls = (case find (\<lambda>l. \<not> blank_line l) ls of Some l \<Rightarrow> leading_whitespace l | None \<Rightarrow> [])"

definition lines_of :: "string \<Rightarrow> string list" where
  "lines_of s = split_byte nl s"

definition unlines :: "string list \<Rightarrow> string" where
  "unlines ls = join_with [nl] ls"

lemma unlines_lines_of [simp]: "unlines (lines_of s) = s"
  by (simp add: unlines_def lines_of_def join_split_byte)

lemma lines_of_neq_Nil [simp]: "lines_of s \<noteq> []"
  by (simp add: lines_of_def)

section \<open>Exact matches\<close>

text \<open>Every caller passes a non-empty anchor; Go would not return on an empty one.\<close>

function find_all_from :: "nat \<Rightarrow> string \<Rightarrow> string \<Rightarrow> nat list" where
  "find_all_from offset s old =
     (if old = [] then []
      else (case index_of s old of
              None \<Rightarrow> []
            | Some i \<Rightarrow>
                (offset + i) # find_all_from (offset + i + length old) (drop (i + length old) s) old))"
  by pat_completeness auto
termination
proof (relation "measure (\<lambda>(offset, s, old). length s)")
  fix offset :: nat and s old :: string and i
  assume "old \<noteq> []" "index_of s old = Some i"
  then show "((offset + i + length old, drop (i + length old) s, old), (offset, s, old))
      \<in> measure (\<lambda>(offset, s, old). length s)"
    using index_of_Some [of s old i] by (cases old) auto
qed simp

declare find_all_from.simps [simp del]

definition find_all :: "string \<Rightarrow> string \<Rightarrow> nat list" where
  "find_all source old = find_all_from 0 source old"

definition line_at :: "string \<Rightarrow> nat \<Rightarrow> nat" where
  "line_at source idx = 1 + count_byte (take idx source) nl"

definition match_lines :: "string \<Rightarrow> nat list \<Rightarrow> nat list" where
  "match_lines source idxs = map (line_at source) idxs"

definition splice_exact :: "string \<Rightarrow> string \<Rightarrow> string \<Rightarrow> nat \<Rightarrow> splice" where
  "splice_exact source old new idx =
     \<lparr>sp_source = take idx source @ new @ drop (idx + length old) source, sp_ranges = [],
      sp_start_line = int (line_at source idx), sp_added = count_lines new,
      sp_removed = count_lines old, sp_matches = 0\<rparr>"

fun splice_every_loop ::
  "string \<Rightarrow> string \<Rightarrow> string \<Rightarrow> nat \<Rightarrow> int \<Rightarrow> nat list \<Rightarrow> string \<times> line_range list" where
  "splice_every_loop source old new prev delta [] = (drop prev source, [])"
| "splice_every_loop source old new prev delta (idx # idxs) =
     (case splice_every_loop source old new (idx + length old)
             (delta + int (count_byte new nl) - int (count_byte old nl)) idxs of
        (out, ranges) \<Rightarrow>
          (take (idx - prev) (drop prev source) @ new @ out,
           mk_line_range (int (line_at source idx) + delta) (count_lines new) # ranges))"

definition splice_every :: "string \<Rightarrow> string \<Rightarrow> string \<Rightarrow> nat list \<Rightarrow> splice" where
  "splice_every source old new idxs =
     (case splice_every_loop source old new 0 0 idxs of
        (out, ranges) \<Rightarrow>
          \<lparr>sp_source = out, sp_ranges = ranges, sp_start_line = lr_start (hd ranges),
           sp_added = length idxs * count_lines new, sp_removed = length idxs * count_lines old,
           sp_matches = length idxs\<rparr>)"

section \<open>Matches up to spacing\<close>

definition block_matches :: "string list \<Rightarrow> string list \<Rightarrow> bool" where
  "block_matches block old_lines = list_all (\<lambda>j. same_line (block ! j) (old_lines ! j)) [0..<length old_lines]"

definition fuzzy_matches :: "string list \<Rightarrow> string list \<Rightarrow> nat list" where
  "fuzzy_matches source_lines old_lines =
     filter (\<lambda>i. block_matches (take (length old_lines) (drop i source_lines)) old_lines)
       [0..<length source_lines + 1 - length old_lines]"

definition new_lines :: "string \<Rightarrow> string list" where
  "new_lines new = (if new = [] then [] else lines_of new)"

definition reindent :: "string list \<Rightarrow> string list \<Rightarrow> string list" where
  "reindent real_indents ls =
     map (\<lambda>(j, l). (if j < length real_indents then real_indents ! j
                    else real_indents ! (length real_indents - 1)) @ trim_left l blanks)
       (enumerate 0 ls)"

definition splice_block :: "string list \<Rightarrow> string list \<Rightarrow> string \<Rightarrow> nat \<Rightarrow> splice" where
  "splice_block source_lines old_lines new start =
     (let n = length old_lines;
          real_indents = map (\<lambda>j. leading_whitespace (source_lines ! (start + j))) [0..<n];
          fresh = reindent real_indents (new_lines new)
      in \<lparr>sp_source = unlines (take start source_lines @ fresh @ drop (start + n) source_lines),
          sp_ranges = [], sp_start_line = int start + 1, sp_added = length (new_lines new),
          sp_removed = n, sp_matches = 0\<rparr>)"

definition shift_line :: "string \<Rightarrow> string \<Rightarrow> string \<Rightarrow> string" where
  "shift_line src_indent to_indent l =
     (if blank_line l then l else to_indent @ trim_prefix l src_indent)"

text \<open>A span that runs past the lines makes Go's slice expressions panic.\<close>

definition splice_span ::
  "string list \<Rightarrow> string list \<Rightarrow> string \<Rightarrow> nat \<Rightarrow> nat \<Rightarrow> edit_error + splice" where
  "splice_span source_lines old_lines new start fin =
     (if length source_lines \<le> start \<or> length source_lines < fin + 1 then Inl RuntimePanic
      else
        (let shifted = map (shift_line (first_indent old_lines) (leading_whitespace (source_lines ! start)))
                         (new_lines new)
         in Inr \<lparr>sp_source = unlines (take start source_lines @ shifted @ drop (fin + 1) source_lines),
                 sp_ranges = [], sp_start_line = int start + 1, sp_added = length (new_lines new),
                 sp_removed = fin + 1 - start, sp_matches = 0\<rparr>))"

text \<open>The spans from the last one back; the lines, and the added and removed totals.\<close>

fun every_span_loop ::
  "string list \<Rightarrow> string \<Rightarrow> (nat \<times> nat) list \<Rightarrow> string list \<times> nat \<times> nat \<Rightarrow> edit_error + string list \<times> nat \<times> nat" where
  "every_span_loop old_lines new [] st = Inr st"
| "every_span_loop old_lines new ((start, fin) # spans) (ls, added, removed) =
     (case splice_span ls old_lines new start fin of
        Inl e \<Rightarrow> Inl e
      | Inr one \<Rightarrow>
          every_span_loop old_lines new spans
            (lines_of (sp_source one), added + sp_added one, removed + sp_removed one))"

fun span_ranges_loop :: "nat \<Rightarrow> int \<Rightarrow> (nat \<times> nat) list \<Rightarrow> line_range list" where
  "span_ranges_loop n delta [] = []"
| "span_ranges_loop n delta ((start, fin) # spans) =
     mk_line_range (int start + 1 + delta) n #
       span_ranges_loop n (delta + int n - (int fin - int start + 1)) spans"

definition splice_every_span ::
  "string list \<Rightarrow> string list \<Rightarrow> string \<Rightarrow> (nat \<times> nat) list \<Rightarrow> edit_error + splice" where
  "splice_every_span source_lines old_lines new spans =
     (case every_span_loop old_lines new (rev spans) (source_lines, 0, 0) of
        Inl e \<Rightarrow> Inl e
      | Inr (ls, added, removed) \<Rightarrow>
          (let ranges = span_ranges_loop (count_lines new) 0 spans
           in Inr \<lparr>sp_source = unlines ls, sp_ranges = ranges, sp_start_line = lr_start (hd ranges),
                   sp_added = added, sp_removed = removed, sp_matches = length spans\<rparr>))"

text \<open>
  The end of the anchor's lines matched from \<open>i\<close>, skipping blank source lines before each. The
  blank lines are dropped from the front of what is left of the source.
\<close>

fun over_blanks_loop :: "string list \<Rightarrow> string list \<Rightarrow> nat \<Rightarrow> nat \<Rightarrow> nat option" where
  "over_blanks_loop source_lines [] i fin = Some fin"
| "over_blanks_loop source_lines (want # wanted) i fin =
     (let i' = i + length (takeWhile blank_line (drop i source_lines)) in
      if length source_lines \<le> i' \<or> collapse_spacing (source_lines ! i') \<noteq> want then None
      else over_blanks_loop source_lines wanted (i' + 1) i')"

definition span_over_blanks :: "string list \<Rightarrow> string list \<Rightarrow> nat \<Rightarrow> nat option" where
  "span_over_blanks source_lines wanted start =
     (if collapse_spacing (source_lines ! start) \<noteq> hd wanted then None
      else over_blanks_loop source_lines wanted start start)"

section \<open>The near-match report\<close>

record closest_state =
  cs_anchored :: "nat option"
  cs_anchored_score :: nat
  cs_best :: "nat option"
  cs_best_score :: nat

definition match_score :: "string list \<Rightarrow> string list \<Rightarrow> nat \<Rightarrow> nat" where
  "match_score source_lines old_lines i =
     length (filter (\<lambda>j. same_line (source_lines ! (i + j)) (old_lines ! j)) [0..<length old_lines])"

definition closest_step :: "string list \<Rightarrow> string list \<Rightarrow> closest_state \<Rightarrow> nat \<Rightarrow> closest_state" where
  "closest_step source_lines old_lines st i =
     (let score = match_score source_lines old_lines i;
          st = (if cs_best_score st < score then st\<lparr>cs_best := Some i, cs_best_score := score\<rparr> else st)
      in if cs_anchored_score st < score \<and> same_line (source_lines ! i) (old_lines ! 0)
         then st\<lparr>cs_anchored := Some i, cs_anchored_score := score\<rparr> else st)"

definition closest_match :: "string list \<Rightarrow> string list \<Rightarrow> nat option" where
  "closest_match source_lines old_lines =
     (let st = foldl (closest_step source_lines old_lines)
                 \<lparr>cs_anchored = None, cs_anchored_score = 0, cs_best = None, cs_best_score = 0\<rparr>
                 [0..<length source_lines + 1 - length old_lines]
      in case cs_anchored st of Some i \<Rightarrow> Some i | None \<Rightarrow> cs_best st)"

definition min_prefix_match :: nat where "min_prefix_match = 8"

function longest_prefix_loop :: "string \<Rightarrow> string \<Rightarrow> nat \<Rightarrow> nat \<Rightarrow> nat" where
  "longest_prefix_loop source want lo hi =
     (if lo < hi then
        (let mid = lo + (hi - lo + 1) div 2 in
         if contains source (take mid want) then longest_prefix_loop source want mid hi
         else longest_prefix_loop source want lo (mid - 1))
      else lo)"
  by pat_completeness auto
termination
  by (relation "measure (\<lambda>(source, want, lo, hi). hi - lo)") auto

declare longest_prefix_loop.simps [simp del]

definition longest_prefix :: "string \<Rightarrow> string \<Rightarrow> nat" where
  "longest_prefix source want = longest_prefix_loop source want 0 (length want)"

definition rest_of_line :: "string \<Rightarrow> string" where
  "rest_of_line s = (let t = takeWhile (\<lambda>c. c \<noteq> nl) s in if t = [] then ''(end of line)'' else t)"

definition nowhere :: edit_error where "nowhere = NotFound [] [] 0 0"

definition prefix_mismatch :: "string \<Rightarrow> string \<Rightarrow> edit_error" where
  "prefix_mismatch source old =
     (let n = longest_prefix source old in
      if n < min_prefix_match then nowhere
      else (case index_of source (take n old) of
              None \<Rightarrow> RuntimePanic
            | Some idx \<Rightarrow>
                NotFound (rest_of_line (drop n old)) (rest_of_line (drop (idx + n) source))
                  (line_at source idx) (line_at source (idx + n))))"

definition not_found_error :: "string \<Rightarrow> string \<Rightarrow> string list \<Rightarrow> string list \<Rightarrow> edit_error" where
  "not_found_error source old source_lines old_lines =
     (case closest_match source_lines old_lines of
        None \<Rightarrow> prefix_mismatch source old
      | Some best \<Rightarrow>
          (case find (\<lambda>j. \<not> same_line (source_lines ! (best + j)) (old_lines ! j)) [0..<length old_lines] of
             None \<Rightarrow> nowhere
           | Some j \<Rightarrow> NotFound (old_lines ! j) (source_lines ! (best + j)) (best + 1) (best + j + 1)))"

section \<open>The ladder\<close>

definition splice_over_blanks ::
  "string \<Rightarrow> string \<Rightarrow> string \<Rightarrow> string list \<Rightarrow> string list \<Rightarrow> bool \<Rightarrow> edit_error + splice" where
  "splice_over_blanks source old new source_lines old_lines every =
     (let wanted = non_blank old_lines in
      if wanted = [] then Inl (not_found_error source old source_lines old_lines)
      else
        (let spans = List.map_filter
               (\<lambda>i. map_option (Pair i) (span_over_blanks source_lines wanted i)) [0..<length source_lines]
         in case spans of
              [] \<Rightarrow> Inl (not_found_error source old source_lines old_lines)
            | [(start, fin)] \<Rightarrow> splice_span source_lines old_lines new start fin
            | _ \<Rightarrow>
                if every then splice_every_span source_lines old_lines new spans
                else Inl (NotUnique (map (\<lambda>s. fst s + 1) spans))))"

definition splice_fuzzy :: "string \<Rightarrow> string \<Rightarrow> string \<Rightarrow> bool \<Rightarrow> edit_error + splice" where
  "splice_fuzzy source old new every =
     (let source_lines = lines_of source;
          old_lines = lines_of old;
          starts = fuzzy_matches source_lines old_lines
      in case starts of
           [] \<Rightarrow> splice_over_blanks source old new source_lines old_lines every
         | [start] \<Rightarrow> Inr (splice_block source_lines old_lines new start)
         | _ \<Rightarrow>
             if every then
               splice_every_span source_lines old_lines new
                 (map (\<lambda>s. (s, s + length old_lines - 1)) starts)
             else Inl (NotUnique (map (\<lambda>s. s + 1) starts)))"

definition do_replace :: "string \<Rightarrow> string \<Rightarrow> string \<Rightarrow> bool \<Rightarrow> edit_error + splice" where
  "do_replace source old new every =
     (case find_all source old of
        [] \<Rightarrow> splice_fuzzy source old new every
      | [idx] \<Rightarrow> Inr (splice_exact source old new idx)
      | idxs \<Rightarrow>
          if every then Inr (splice_every source old new idxs)
          else Inl (NotUnique (match_lines source idxs)))"

definition crlf :: string where "crlf = [cr, nl]"

definition attempt :: "string \<Rightarrow> string \<Rightarrow> string \<Rightarrow> bool \<Rightarrow> edit_error + edit_result" where
  "attempt source old new every =
     (if old = [] then Inl EmptyOldString
      else if old = new then Inl NoChange
      else
        (let windows = contains source crlf;
             norm = (\<lambda>s. if windows then replace_all s crlf [nl] else s)
         in case do_replace (norm source) (norm old) (norm new) every of
              Inl e \<Rightarrow> Inl e
            | Inr sp \<Rightarrow>
                Inr \<lparr>er_source = (if windows then replace_all (sp_source sp) [nl] crlf else sp_source sp),
                     er_note = [],
                     er_ranges = (if sp_ranges sp = [] then [mk_line_range (sp_start_line sp) (sp_added sp)]
                                  else sp_ranges sp),
                     er_added = sp_added sp, er_removed = sp_removed sp,
                     er_matches = max (sp_matches sp) 1\<rparr>))"

section \<open>Collapsed HTML references\<close>

text \<open>The rune of each semicolon-less reference (\<open>html.UnescapeString\<close>).\<close>

definition legacy_entities :: "(string \<times> nat) list" where
  "legacy_entities =
     [(''acute'', 180), (''amp'', 38), (''cedil'', 184), (''cent'', 162), (''copy'', 169),
      (''curren'', 164), (''deg'', 176), (''divide'', 247), (''eth'', 240), (''frac12'', 189),
      (''frac14'', 188), (''frac34'', 190), (''gt'', 62), (''iexcl'', 161), (''iquest'', 191),
      (''laquo'', 171), (''lt'', 60), (''macr'', 175), (''micro'', 181), (''middot'', 183),
      (''nbsp'', 160), (''not'', 172), (''ordf'', 170), (''ordm'', 186), (''para'', 182),
      (''plusmn'', 177), (''pound'', 163), (''quot'', 34), (''raquo'', 187), (''reg'', 174),
      (''sect'', 167), (''shy'', 173), (''sup1'', 185), (''sup2'', 178), (''sup3'', 179),
      (''szlig'', 223), (''thorn'', 254), (''times'', 215), (''uml'', 168), (''yen'', 165)]"

definition entity_runes :: "(nat \<times> string) list" where
  "entity_runes =
     map (\<lambda>(name, r). (r, CHR ''&'' # name)) (filter (\<lambda>(name, r). 0x80 \<le> r) legacy_entities)"

text \<open>\<open>unicode.IsLetter\<close> and \<open>unicode.IsDigit\<close> together are the table \<open>uni\<close>.\<close>

definition ident_rune :: "(nat \<Rightarrow> bool) \<Rightarrow> nat \<Rightarrow> bool" where
  "ident_rune uni r = (r = 95 \<or> uni r)"

fun restore_loop :: "(nat \<Rightarrow> bool) \<Rightarrow> nat list \<Rightarrow> string \<times> bool" where
  "restore_loop uni [] = ([], False)"
| "restore_loop uni (r # rs) =
     (case restore_loop uni rs of
        (out, changed) \<Rightarrow>
          (case map_of entity_runes r of
             Some name \<Rightarrow>
               if rs \<noteq> [] \<and> ident_rune uni (hd rs) then (name @ out, True) else (encode_rune r @ out, changed)
           | None \<Rightarrow> (encode_rune r @ out, changed)))"

definition restore_entities :: "(nat \<Rightarrow> bool) \<Rightarrow> string \<Rightarrow> string \<times> bool" where
  "restore_entities uni s = restore_loop uni (map fst (runes s))"

definition repair_note :: string where
  "repair_note = ''old_string and new_string arrived with an HTML character reference in place of an ampersand and a name, and were repaired to match the file. Text you send may be mangled that way in transit.''"

definition is_not_found :: "edit_error \<Rightarrow> bool" where
  "is_not_found e = (case e of NotFound a b c d \<Rightarrow> True | _ \<Rightarrow> False)"

definition replace_with_repair ::
  "(nat \<Rightarrow> bool) \<Rightarrow> string \<Rightarrow> string \<Rightarrow> string \<Rightarrow> bool \<Rightarrow> edit_error + edit_result" where
  "replace_with_repair uni source old new every =
     (case attempt source old new every of
        Inr res \<Rightarrow> Inr res
      | Inl e \<Rightarrow>
          if \<not> is_not_found e then Inl e
          else
            (case restore_entities uni old of
               (repaired_old, changed) \<Rightarrow>
                 if \<not> changed then Inl e
                 else (case attempt source repaired_old (fst (restore_entities uni new)) every of
                         Inl RuntimePanic \<Rightarrow> Inl RuntimePanic
                       | Inl e' \<Rightarrow> Inl e
                       | Inr repaired \<Rightarrow> Inr (repaired\<lparr>er_note := repair_note\<rparr>))))"

definition replace :: "(nat \<Rightarrow> bool) \<Rightarrow> string \<Rightarrow> string \<Rightarrow> string \<Rightarrow> edit_error + edit_result" where
  "replace uni source old new = replace_with_repair uni source old new False"

definition replace_every :: "(nat \<Rightarrow> bool) \<Rightarrow> string \<Rightarrow> string \<Rightarrow> string \<Rightarrow> edit_error + edit_result" where
  "replace_every uni source old new = replace_with_repair uni source old new True"

definition holds :: "string \<Rightarrow> string \<Rightarrow> bool" where
  "holds source anchor =
     (if anchor = [] then False
      else (case do_replace source anchor (anchor @ [CHR 0x00]) False of
              Inr sp \<Rightarrow> True
            | Inl (NotUnique ls) \<Rightarrow> True
            | Inl e \<Rightarrow> False))"

section \<open>What the caller reads\<close>

definition max_reported_line :: nat where "max_reported_line = 200"

definition ellipsis :: string where "ellipsis = encode_rune 0x2026"

definition clip :: "string \<Rightarrow> string" where
  "clip line =
     (let l = trim_right line blanks in
      if length l \<le> max_reported_line then l else take max_reported_line l @ ellipsis)"

definition shown :: "string \<Rightarrow> string" where
  "shown line = (if trim_space line = [] then ''a blank line'' else clip line)"

definition not_found_text :: "string \<Rightarrow> string \<Rightarrow> nat \<Rightarrow> nat \<Rightarrow> string" where
  "not_found_text sent found candidate mismatch =
     (if candidate = 0 then ''old_string not found in source''
      else ''old_string not found in source; the closest match starts at line '' @ show_nat candidate @
           '' and first differs at line '' @ show_nat mismatch @ '':'' @ [nl] @
           ''  you sent:   '' @ shown sent @ [nl] @ ''  source has: '' @ shown found)"

section \<open>Several spans of one text\<close>

text \<open>
  What the batch edits promise, as a specification: a span is its start, its end and the text that
  goes there, and disjoint spans in order are replaced at once, reading the source from front to
  back. Splicing them one after the other from the last to the first gives the same text.
\<close>

type_synonym text_span = "nat \<times> nat \<times> string"

fun splice_forward :: "nat \<Rightarrow> text_span list \<Rightarrow> string \<Rightarrow> string" where
  "splice_forward prev [] s = drop prev s"
| "splice_forward prev ((start, fin, repl) # spans) s =
     take (start - prev) (drop prev s) @ repl @ splice_forward fin spans s"

fun ordered_spans :: "nat \<Rightarrow> nat \<Rightarrow> text_span list \<Rightarrow> bool" where
  "ordered_spans prev n [] = (prev \<le> n)"
| "ordered_spans prev n ((start, fin, repl) # spans) = (prev \<le> start \<and> start \<le> fin \<and> ordered_spans fin n spans)"

definition splice_text :: "text_span \<Rightarrow> string \<Rightarrow> string" where
  "splice_text sp s = (case sp of (start, fin, repl) \<Rightarrow> take start s @ repl @ drop fin s)"

lemma ordered_spans_le: "ordered_spans prev n spans \<Longrightarrow> prev \<le> n"
  by (induction prev n spans rule: ordered_spans.induct) auto

lemma foldr_splice_forward:
  "ordered_spans prev (length s) spans \<Longrightarrow>
     foldr splice_text spans s = take prev s @ splice_forward prev spans s"
proof (induction spans arbitrary: prev)
  case (Cons sp spans)
  obtain start fin repl where sp: "sp = (start, fin, repl)" by (cases sp)
  then have o: "prev \<le> start" "start \<le> fin" "fin \<le> length s"
    using Cons.prems by (auto dest: ordered_spans_le)
  have "foldr splice_text spans s = take fin s @ splice_forward fin spans s" using Cons sp by simp
  then have "splice_text sp (foldr splice_text spans s) = take start s @ repl @ splice_forward fin spans s"
    using o by (simp add: splice_text_def sp min_absorb1)
  also have "take start s = take prev s @ take (start - prev) (drop prev s)"
    using o(1) by (metis le_add_diff_inverse take_add)
  finally show ?case by (simp add: sp)
qed simp

lemma ordered_spans_disjoint:
  "ordered_spans prev n spans \<Longrightarrow> successively (\<lambda>(s, f, x) (s', f', x'). f \<le> s') spans"
  by (induction spans arbitrary: prev rule: induct_list012) auto

lemma ordered_spans_snoc:
  "ordered_spans k n (spans @ [(start, fin, repl)]) \<longleftrightarrow> ordered_spans k start spans \<and> start \<le> fin \<and> fin \<le> n"
  by (induction k start spans rule: ordered_spans.induct) auto

end
