(* ===== verification/EditReplaceFacts.thy ===== *)
theory EditReplaceFacts
  imports EditReplace
begin

text \<open>What string replacement guarantees: where it edits, when it refuses, and where it goes wrong.\<close>

section \<open>Spacing\<close>

lemma leading_whitespace_takeWhile: "leading_whitespace s = takeWhile (\<lambda>c. c \<in> set blanks) s"
proof -
  have "length (takeWhile (\<lambda>c. c \<in> set blanks) s) + length (trim_left s blanks) = length s"
    unfolding trim_left_def by (metis length_append takeWhile_dropWhile_id)
  then have "length s - length (trim_left s blanks) = length (takeWhile (\<lambda>c. c \<in> set blanks) s)" by linarith
  then show ?thesis unfolding leading_whitespace_def by (metis takeWhile_eq_take)
qed

lemma set_leading_whitespace: "set (leading_whitespace s) \<subseteq> set blanks"
  by (auto simp: leading_whitespace_takeWhile dest: set_takeWhileD)

lemma collapse_blanks_append: "set w \<subseteq> set blanks \<Longrightarrow> collapse_spacing (w @ l) = collapse_spacing l"
  by (induction w) (auto simp: collapse_spacing_def trim_space_def trim_left_while_def blanks_def)

lemma collapse_trim_left: "collapse_spacing (trim_left l blanks) = collapse_spacing l"
proof -
  have "collapse_spacing (takeWhile (\<lambda>c. c \<in> set blanks) l @ trim_left l blanks) = collapse_spacing (trim_left l blanks)"
    by (rule collapse_blanks_append) (auto dest: set_takeWhileD)
  then show ?thesis by (simp add: trim_left_def)
qed

lemma collapse_trim_prefix: "set p \<subseteq> set blanks \<Longrightarrow> collapse_spacing (trim_prefix l p) = collapse_spacing l"
  using collapse_blanks_append [of p "drop (length p) l"]
  by (auto simp: trim_prefix_def has_prefix_iff)

lemma set_first_indent: "set (first_indent ls) \<subseteq> set blanks"
  using set_leading_whitespace by (auto simp: first_indent_def split: option.splits)

lemma collapse_shift_line:
  "set p \<subseteq> set blanks \<Longrightarrow> set q \<subseteq> set blanks \<Longrightarrow> collapse_spacing (shift_line p q l) = collapse_spacing l"
  by (simp add: shift_line_def collapse_blanks_append collapse_trim_prefix)

lemma collapse_reindent:
  assumes "\<And>i. i \<in> set inds \<Longrightarrow> set i \<subseteq> set blanks" "inds \<noteq> []"
  shows "map collapse_spacing (reindent inds ls) = map collapse_spacing ls"
proof -
  have "collapse_spacing ((if j < length inds then inds ! j else inds ! (length inds - 1)) @ trim_left l blanks)
      = collapse_spacing l" for j l
    using assms by (auto simp: collapse_blanks_append collapse_trim_left)
  then have "map collapse_spacing (reindent inds ls) = map collapse_spacing (map snd (enumerate 0 ls))"
    by (simp add: reindent_def comp_def case_prod_unfold del: map_snd_enumerate)
  then show ?thesis by simp
qed

lemma collapse_loop_nl: "collapse_loop sp s = [] \<Longrightarrow> nl \<notin> set s"
  by (induction sp s rule: collapse_loop.induct) (auto split: if_splits)

section \<open>Lines\<close>

lemma split_byte_append: "split_byte sep (p @ sep # s) = split_byte sep p @ split_byte sep s"
  by (induction p) (auto split: list.splits)

lemma lines_of_append: "lines_of (a @ nl # b) = lines_of a @ lines_of b"
  by (simp add: lines_of_def split_byte_append)

lemma lines_of_Nil [simp]: "lines_of [] = [[]]"
  by (simp add: lines_of_def)

lemma lines_of_no_nl: "l \<in> set (lines_of s) \<Longrightarrow> nl \<notin> set l"
  unfolding lines_of_def by (rule split_byte_no_sep)

lemma collapse_Nil [simp]: "collapse_spacing [] = []"
  by (simp add: collapse_spacing_def trim_space_def trim_left_while_def trim_right_while_def)

lemma non_blank_append [simp]: "non_blank (xs @ ys) = non_blank xs @ non_blank ys"
  by (simp add: non_blank_def)

lemma non_blank_Nil [simp]: "non_blank [] = []" "non_blank [[]] = []"
  by (simp_all add: non_blank_def)

lemma non_blank_Cons_Nil [simp]: "non_blank ([] # ls) = non_blank ls"
  by (simp add: non_blank_def)

lemma non_blank_cong: "map collapse_spacing xs = map collapse_spacing ys \<Longrightarrow> non_blank xs = non_blank ys"
  by (simp add: non_blank_def)

definition plain_lines :: "string list \<Rightarrow> bool" where
  "plain_lines ls = (\<forall>l \<in> set ls. nl \<notin> set l)"

lemma plain_lines_simps [simp]:
  "plain_lines []" "plain_lines (xs @ ys) \<longleftrightarrow> plain_lines xs \<and> plain_lines ys" "plain_lines (lines_of s)"
  using lines_of_no_nl by (auto simp: plain_lines_def)

lemma plain_lines_take_drop [simp]: "plain_lines ls \<Longrightarrow> plain_lines (take n ls)" "plain_lines ls \<Longrightarrow> plain_lines (drop n ls)"
  by (auto simp: plain_lines_def dest: in_set_takeD in_set_dropD)

lemma lines_of_unlines: "ls \<noteq> [] \<Longrightarrow> plain_lines ls \<Longrightarrow> lines_of (unlines ls) = ls"
  unfolding lines_of_def unlines_def plain_lines_def by (rule split_join_byte) auto

lemma unlines_append: "xs \<noteq> [] \<Longrightarrow> ys \<noteq> [] \<Longrightarrow> unlines (xs @ ys) = unlines xs @ nl # unlines ys"
proof (induction xs rule: induct_list012)
  case (2 x)
  then show ?case by (cases ys) (auto simp: unlines_def)
next
  case (3 x y zs)
  then show ?case by (cases ys) (auto simp: unlines_def)
qed simp

section \<open>Where an edit lands\<close>

text \<open>Two texts are the same up to spacing and blank lines.\<close>

definition same_text :: "string \<Rightarrow> string \<Rightarrow> bool" where
  "same_text a b = (non_blank (lines_of a) = non_blank (lines_of b))"

text \<open>The result differs from the source in one place only, which held \<open>old\<close> and now holds \<open>new\<close>.\<close>

definition edits_region :: "string \<Rightarrow> string \<Rightarrow> string \<Rightarrow> string \<Rightarrow> bool" where
  "edits_region source result old new =
     (\<exists>pre mid fresh post. source = pre @ mid @ post \<and> result = pre @ fresh @ post
        \<and> same_text mid old \<and> same_text fresh new)"

lemma non_blank_unlines: "plain_lines ls \<Longrightarrow> non_blank (lines_of (unlines ls)) = non_blank ls"
  by (cases "ls = []") (simp_all add: lines_of_unlines, simp add: unlines_def)

lemma non_blank_around [simp]:
  "non_blank (lines_of (a @ [nl])) = non_blank (lines_of a)"
  "non_blank (lines_of (nl # a)) = non_blank (lines_of a)"
  using lines_of_append [of a "[]"] lines_of_append [of "[]" a] by simp_all

lemma edits_region_lines:
  assumes "plain_lines M" "plain_lines M'" "M \<noteq> []"
    and "non_blank M = non_blank (lines_of old)" "non_blank M' = non_blank (lines_of new)"
  shows "edits_region (unlines (A @ M @ B)) (unlines (A @ M' @ B)) old new"
proof -
  note m = non_blank_unlines [OF assms(1)] non_blank_unlines [OF assms(2)]
  have none: "M' = [] \<Longrightarrow> non_blank (lines_of new) = []" using assms(5) by simp
  consider "A = []" "B = []" | "A = []" "B \<noteq> []" | "A \<noteq> []" "B = []" | "A \<noteq> []" "B \<noteq> []" by blast
  then show ?thesis
  proof cases
    case 1
    then show ?thesis using assms m unfolding edits_region_def same_text_def
      by (intro exI [of _ "[]"] exI [of _ "unlines M"] exI [of _ "unlines M'"]) simp
  next
    case 2
    then show ?thesis using assms m none unfolding edits_region_def same_text_def
      by (intro exI [of _ "[]"] exI [of _ "unlines M @ [nl]"] exI [of _ "if M' = [] then [] else unlines M' @ [nl]"]
          exI [of _ "unlines B"]) (auto simp: unlines_append)
  next
    case 3
    then show ?thesis using assms m none unfolding edits_region_def same_text_def
      by (intro exI [of _ "unlines A"] exI [of _ "nl # unlines M"] exI [of _ "if M' = [] then [] else nl # unlines M'"]
          exI [of _ "[]"]) (auto simp: unlines_append)
  next
    case 4
    then show ?thesis using assms m none unfolding edits_region_def same_text_def
      by (intro exI [of _ "unlines A @ [nl]"] exI [of _ "unlines M @ [nl]"]
          exI [of _ "if M' = [] then [] else unlines M' @ [nl]"] exI [of _ "unlines B"]) (auto simp: unlines_append)
  qed
qed

section \<open>Each rung edits one region\<close>

lemma take_drop_middle: "i + n \<le> length xs \<Longrightarrow> xs = take i xs @ take n (drop i xs) @ drop (i + n) xs"
  by (metis append_take_drop_id drop_drop add.commute)

lemma fuzzy_match_block:
  assumes "i \<in> set (fuzzy_matches sl ol)"
  shows "i + length ol \<le> length sl"
    and "map collapse_spacing (take (length ol) (drop i sl)) = map collapse_spacing ol"
proof -
  have i: "i < length sl + 1 - length ol" "block_matches (take (length ol) (drop i sl)) ol"
    using assms by (auto simp: fuzzy_matches_def)
  then show le: "i + length ol \<le> length sl" by simp
  show "map collapse_spacing (take (length ol) (drop i sl)) = map collapse_spacing ol"
    using i(2) le by (intro nth_equalityI) (auto simp: block_matches_def list_all_iff same_line_def)
qed

lemma non_blank_new_lines: "non_blank (new_lines new) = non_blank (lines_of new)"
  by (simp add: new_lines_def)

lemma plain_new_lines: "plain_lines (new_lines new)"
  by (simp add: new_lines_def)

lemma set_trim_left: "set (trim_left l cs) \<subseteq> set l"
  by (auto simp: trim_left_def dest: set_dropWhileD)

lemma blanks_no_nl: "set i \<subseteq> set blanks \<Longrightarrow> nl \<notin> set i"
  by (auto simp: blanks_def)

lemma splice_block_region:
  assumes "start \<in> set (fuzzy_matches (lines_of source) (lines_of old))"
  shows "edits_region source (sp_source (splice_block (lines_of source) (lines_of old) new start)) old new"
proof -
  let ?sl = "lines_of source" and ?ol = "lines_of old"
  let ?n = "length ?ol"
  note fb = fuzzy_match_block [OF assms]
  let ?M = "take ?n (drop start ?sl)"
  let ?inds = "map (\<lambda>j. leading_whitespace (?sl ! (start + j))) [0..<?n]"
  let ?M' = "reindent ?inds (new_lines new)"
  have n: "0 < ?n" by simp
  have inds: "\<And>i. i \<in> set ?inds \<Longrightarrow> set i \<subseteq> set blanks" using set_leading_whitespace by auto
  have c: "map collapse_spacing ?M' = map collapse_spacing (new_lines new)"
    by (rule collapse_reindent [OF inds]) (use n in auto)
  have "nl \<notin> set l" if "l \<in> set ?M'" for l
  proof -
    from that obtain j x where l: "l = (if j < length ?inds then ?inds ! j else ?inds ! (length ?inds - 1)) @ trim_left x blanks"
      "x \<in> set (new_lines new)"
      by (auto simp: reindent_def in_set_enumerate_eq simp del: length_map)
    have "nl \<notin> set x" using l(2) plain_new_lines by (auto simp: plain_lines_def)
    moreover have "nl \<notin> set (if j < length ?inds then ?inds ! j else ?inds ! (length ?inds - 1))"
      using n by (intro blanks_no_nl inds) (auto intro!: nth_mem)
    ultimately show ?thesis using l(1) set_trim_left [of x blanks] by auto
  qed
  then have p: "plain_lines ?M'" by (simp add: plain_lines_def)
  have "edits_region (unlines (take start ?sl @ ?M @ drop (start + ?n) ?sl))
      (unlines (take start ?sl @ ?M' @ drop (start + ?n) ?sl)) old new"
  proof (rule edits_region_lines)
    have "start < length ?sl" using fb(1) n by linarith
    then show "?M \<noteq> []" by simp
    show "non_blank ?M = non_blank ?ol" by (rule non_blank_cong [OF fb(2)])
    show "non_blank ?M' = non_blank (lines_of new)"
      using non_blank_cong [OF c] by (simp add: non_blank_new_lines)
  qed (use p in simp_all)
  then show ?thesis using take_drop_middle [OF fb(1)] by (simp add: splice_block_def Let_def)
qed

lemma splice_span_region:
  assumes "splice_span (lines_of source) (lines_of old) new start fin = Inr sp" "start \<le> fin"
    and "non_blank (take (fin + 1 - start) (drop start (lines_of source))) = non_blank (lines_of old)"
  shows "edits_region source (sp_source sp) old new"
proof -
  let ?sl = "lines_of source"
  let ?n = "fin + 1 - start"
  let ?M = "take ?n (drop start ?sl)"
  let ?f = "shift_line (first_indent (lines_of old)) (leading_whitespace (?sl ! start))"
  let ?M' = "map ?f (new_lines new)"
  have le: "start + ?n \<le> length ?sl" "start < length ?sl"
    using assms(1,2) by (auto simp: splice_span_def split: if_splits)
  have c: "collapse_spacing (?f l) = collapse_spacing l" for l
    using set_first_indent set_leading_whitespace by (rule collapse_shift_line)
  have "nl \<notin> set (?f l)" if "nl \<notin> set l" for l
    using that blanks_no_nl [OF set_leading_whitespace]
    by (auto simp: shift_line_def trim_prefix_def dest: in_set_dropD)
  then have p: "plain_lines ?M'" using plain_new_lines by (auto simp: plain_lines_def)
  have "edits_region (unlines (take start ?sl @ ?M @ drop (start + ?n) ?sl))
      (unlines (take start ?sl @ ?M' @ drop (start + ?n) ?sl)) old new"
  proof (rule edits_region_lines)
    show "?M \<noteq> []" using le assms(2) by auto
    show "non_blank ?M' = non_blank (lines_of new)"
      using c by (simp add: non_blank_def comp_def) (simp add: non_blank_def [symmetric] non_blank_new_lines)
  qed (use p assms(3) in simp_all)
  moreover have "sp_source sp = unlines (take start ?sl @ ?M' @ drop (start + ?n) ?sl)"
    using assms(1,2) by (auto simp: splice_span_def split: if_splits)
  ultimately show ?thesis using take_drop_middle [OF le(1)] by simp
qed

lemma takeWhile_blank: "non_blank (takeWhile blank_line ls) = []"
  by (auto simp: non_blank_def blank_line_def filter_empty_conv dest: set_takeWhileD)

lemma over_blanks_found:
  "over_blanks_loop sl wanted i e = Some f \<Longrightarrow> wanted \<noteq> [] \<Longrightarrow> [] \<notin> set wanted \<Longrightarrow>
     i \<le> f \<and> f < length sl \<and> non_blank (take (f + 1 - i) (drop i sl)) = wanted"
proof (induction sl wanted i e rule: over_blanks_loop.induct)
  case (2 sl want wanted i e)
  define b where "b = takeWhile blank_line (drop i sl)"
  define i' where "i' = i + length b"
  have i': "i' < length sl" "collapse_spacing (sl ! i') = want"
    and rec: "over_blanks_loop sl wanted (i' + 1) i' = Some f"
    using 2(2) by (auto simp: i'_def b_def Let_def split: if_splits)
  have bl: "take (length b) (drop i sl) = b" unfolding b_def by (rule takeWhile_eq_take [symmetric])
  have head: "take (i' + 1 - i) (drop i sl) = b @ [sl ! i']"
    using i'(1) bl by (simp add: i'_def take_Suc_conv_app_nth)
  have nb: "non_blank (b @ [sl ! i']) = [want]"
    using i'(2) 2(4) takeWhile_blank by (auto simp: b_def) (auto simp: non_blank_def)
  show ?case
  proof (cases "wanted = []")
    case True
    then have "f = i'" using rec by simp
    then show ?thesis using i' head nb True by (simp add: i'_def)
  next
    case False
    let ?R = "take (f + 1 - (i' + 1)) (drop (i' + 1) sl)"
    have r: "i' + 1 \<le> f" "f < length sl" "non_blank ?R = wanted"
      using 2(1) [OF i'_def [unfolded b_def]] i' rec False 2(4) by (auto simp: not_le)
    have "f + 1 - i = (i' + 1 - i) + (f + 1 - (i' + 1))" using r(1) by (simp add: i'_def)
    moreover have "drop (i' + 1 - i) (drop i sl) = drop (i' + 1) sl" by (simp add: i'_def add.commute)
    ultimately have "take (f + 1 - i) (drop i sl) = (b @ [sl ! i']) @ ?R" using head by (metis take_add)
    then have "non_blank (take (f + 1 - i) (drop i sl)) = want # wanted"
      by (simp only: non_blank_append [of "b @ [sl ! i']"] nb r(3)) simp
    then show ?thesis using r by (simp add: i'_def)
  qed
qed simp

section \<open>The ladder edits one region\<close>

lemma non_blank_members: "[] \<notin> set (non_blank ls)"
  by (simp add: non_blank_def)

lemma span_over_blanks_found:
  "span_over_blanks sl (non_blank ol) i = Some f \<Longrightarrow> non_blank ol \<noteq> [] \<Longrightarrow>
     i \<le> f \<and> non_blank (take (f + 1 - i) (drop i sl)) = non_blank ol"
  using over_blanks_found [of sl "non_blank ol" i i f] non_blank_members
  by (auto simp: span_over_blanks_def split: if_splits)

lemma splice_over_blanks_region:
  assumes "splice_over_blanks source old new (lines_of source) (lines_of old) False = Inr sp"
  shows "edits_region source (sp_source sp) old new"
proof -
  let ?sl = "lines_of source" and ?w = "non_blank (lines_of old)"
  define spans where "spans = List.map_filter (\<lambda>i. map_option (Pair i) (span_over_blanks ?sl ?w i)) [0..<length ?sl]"
  have w: "?w \<noteq> []" using assms by (auto simp: splice_over_blanks_def split: if_splits)
  obtain start fin where one: "spans = [(start, fin)]" "splice_span ?sl (lines_of old) new start fin = Inr sp"
    using assms w unfolding splice_over_blanks_def Let_def spans_def [symmetric]
    by (auto split: list.splits prod.splits)
  have "(start, fin) \<in> set spans" using one by simp
  then have "span_over_blanks ?sl ?w start = Some fin"
    unfolding spans_def by (auto simp: List.map_filter_def)
  from span_over_blanks_found [OF this w] show ?thesis
    by (intro splice_span_region [OF one(2)]) auto
qed

lemma splice_fuzzy_region:
  assumes "splice_fuzzy source old new False = Inr sp"
  shows "edits_region source (sp_source sp) old new"
proof (cases "fuzzy_matches (lines_of source) (lines_of old)")
  case Nil
  then show ?thesis using assms by (auto simp: splice_fuzzy_def intro: splice_over_blanks_region)
next
  case (Cons start more)
  then have "more = []" "sp = splice_block (lines_of source) (lines_of old) new start"
    using assms by (auto simp: splice_fuzzy_def Let_def split: list.splits)
  then show ?thesis using splice_block_region [of start source old new] Cons by simp
qed

lemma find_all_occurs:
  "idx \<in> set (find_all_from k s old) \<Longrightarrow> k \<le> idx \<and> s = take (idx - k) s @ old @ drop (idx - k + length old) s"
proof (induction k s old rule: find_all_from.induct)
  case (1 k s old)
  note m = 1(2) [unfolded find_all_from.simps [of k s old]]
  have o: "old \<noteq> []" using m by (auto split: if_splits)
  obtain i where "index_of s old = Some i" using m o by (cases "index_of s old") simp_all
  note i = o this
  have idx: "idx = k + i \<or> idx \<in> set (find_all_from (k + i + length old) (drop (i + length old) s) old)"
    using m i by simp
  let ?n = "i + length old"
  from idx show ?case
  proof
    assume "idx = k + i"
    then show ?thesis using index_of_Some_split [OF i(2)] by simp
  next
    assume "idx \<in> set (find_all_from (k + i + length old) (drop ?n s) old)"
    with 1(1) [OF i] have j: "k + ?n \<le> idx"
      "drop ?n s = take (idx - (k + ?n)) (drop ?n s) @ old @ drop (idx - (k + ?n) + length old) (drop ?n s)"
      by (auto simp: add.assoc)
    have "s = take ?n s @ drop ?n s" by simp
    also have "\<dots> = (take ?n s @ take (idx - (k + ?n)) (drop ?n s)) @ old @ drop (idx - (k + ?n) + length old + ?n) s"
      using j(2) by (metis append.assoc drop_drop)
    also have "take ?n s @ take (idx - (k + ?n)) (drop ?n s) = take (idx - k) s"
      using j(1) by (metis add_diff_inverse_nat diff_diff_left le_add_diff_inverse not_less take_add add_le_imp_le_diff add.commute)
    also have "idx - (k + ?n) + length old + ?n = idx - k + length old" using j(1) by simp
    finally show ?thesis using j(1) by simp
  qed
qed

lemma do_replace_region:
  assumes "do_replace source old new False = Inr sp"
  shows "edits_region source (sp_source sp) old new"
proof (cases "find_all source old")
  case Nil
  then show ?thesis using assms by (simp add: do_replace_def splice_fuzzy_region)
next
  case (Cons idx more)
  then have sp: "more = []" "sp = splice_exact source old new idx"
    using assms by (auto simp: do_replace_def split: list.splits)
  have "idx \<in> set (find_all_from 0 source old)" using Cons by (simp add: find_all_def)
  from find_all_occurs [OF this] have "source = take idx source @ old @ drop (idx + length old) source" by simp
  moreover have "sp_source sp = take idx source @ new @ drop (idx + length old) source"
    by (simp add: sp splice_exact_def)
  ultimately show ?thesis unfolding edits_region_def same_text_def by blast
qed

section \<open>How many occurrences\<close>

lemma has_prefix_drop_append: "has_prefix (a @ s) p \<Longrightarrow> length p \<le> length a \<Longrightarrow> has_prefix a p"
  by (auto simp: has_prefix_take)

text \<open>Two occurrences that do not overlap are both found.\<close>

lemma find_all_two:
  assumes "source = a @ old @ b @ old @ c" "old \<noteq> []"
  shows "\<exists>i j more. find_all source old = i # j # more"
proof -
  have p0: "has_prefix (drop (length a) source) old" using assms by simp
  have "contains source old" using assms(1) by (auto simp: contains_iff)
  then obtain i where i: "index_of source old = Some i" by (auto simp: contains_def)
  have le: "i \<le> length a" using index_of_least [OF i] p0 not_le by blast
  define rest where "rest = drop (i + length old) source"
  have "rest = drop (i + length old) (a @ old) @ b @ old @ c" using le by (simp add: rest_def assms(1))
  then have "contains rest old" by (auto simp: contains_iff intro: exI [of _ "drop (i + length old) (a @ old) @ b"])
  then obtain j where j: "index_of rest old = Some j" by (auto simp: contains_def)
  show ?thesis unfolding find_all_def
    by (subst find_all_from.simps, simp add: i assms(2) rest_def [symmetric],
        subst find_all_from.simps, simp add: j assms(2))
qed

section \<open>CRLF files\<close>

lemma crlf_neq_Nil [simp]: "crlf \<noteq> []" "[nl] \<noteq> []"
  by (simp_all add: crlf_def)

definition to_lf :: "string \<Rightarrow> string" where "to_lf s = replace_all s crlf [nl]"
definition to_crlf :: "string \<Rightarrow> string" where "to_crlf s = replace_all s [nl] crlf"

lemma to_crlf_simps [simp]:
  "to_crlf [] = []" "to_crlf (c # s) = (if c = nl then crlf @ to_crlf s else c # to_crlf s)"
  by (simp_all add: to_crlf_def replace_all.simps [of "c # s"])

lemma to_crlf_append [simp]: "to_crlf (a @ b) = to_crlf a @ to_crlf b"
  by (induction a) auto

lemma to_lf_simps [simp]:
  "to_lf [] = []" "to_lf (cr # nl # s) = nl # to_lf s"
  by (simp_all add: to_lf_def crlf_def replace_all.simps [of "cr # nl # s"])

lemma to_lf_other: "\<not> (c = cr \<and> (\<exists>t. s = nl # t)) \<Longrightarrow> to_lf (c # s) = c # to_lf s"
  unfolding to_lf_def by (subst replace_all.simps) (cases s; auto simp: crlf_def)

text \<open>Every line feed follows a carriage return.\<close>

fun only_crlf :: "string \<Rightarrow> bool" where
  "only_crlf [] = True"
| "only_crlf [c] = (c \<noteq> nl)"
| "only_crlf (c # d # s) = (if c = cr \<and> d = nl then only_crlf s else c \<noteq> nl \<and> only_crlf (d # s))"

lemma to_crlf_to_lf: "only_crlf s \<Longrightarrow> to_crlf (to_lf s) = s"
proof (induction s rule: only_crlf.induct)
  case (2 c)
  then show ?case by (simp add: to_lf_other)
next
  case (3 c d s)
  show ?case
  proof (cases "c = cr \<and> d = nl")
    case True
    then show ?thesis using 3 by (simp add: crlf_def)
  next
    case False
    then have "to_lf (c # d # s) = c # to_lf (d # s)" by (auto intro: to_lf_other)
    then show ?thesis using 3 False by simp
  qed
qed simp

lemma trim_trailing:
  assumes "P c"
  shows "trim_right_while P (dropWhile P (l @ [c])) = trim_right_while P (dropWhile P l)"
proof (cases "\<forall>x \<in> set l. P x")
  case True
  then have e: "dropWhile P l = []" "dropWhile P (l @ [c]) = []" using assms by simp_all
  show ?thesis by (simp only: e)
next
  case False
  then have "dropWhile P (l @ [c]) = dropWhile P l @ [c]" by (auto simp: dropWhile_append1)
  then show ?thesis using assms by (simp add: trim_right_while_def)
qed

lemma collapse_cr: "collapse_spacing (l @ [cr]) = collapse_spacing l"
proof -
  have "is_space cr" by simp
  then show ?thesis
    unfolding collapse_spacing_def trim_space_def trim_left_while_def by (simp only: trim_trailing)
qed

lemma first_line_cases:
  obtains "nl \<notin> set s" | l rest where "s = l @ nl # rest" "nl \<notin> set l"
  using split_list_first [of nl s] by auto

lemma to_crlf_plain: "nl \<notin> set l \<Longrightarrow> to_crlf l = l"
  by (induction l) auto

lemma to_lf_plain: "nl \<notin> set l \<Longrightarrow> to_lf l = l"
proof (induction l)
  case (Cons a l)
  have "to_lf (a # l) = a # to_lf l" by (rule to_lf_other) (use Cons in auto)
  then show ?case using Cons by simp
qed simp

lemma collapse_lines_to_crlf: "map collapse_spacing (lines_of (to_crlf s)) = map collapse_spacing (lines_of s)"
proof (induction "length s" arbitrary: s rule: less_induct)
  case less
  show ?case
  proof (cases s rule: first_line_cases)
    case 1
    then show ?thesis by (simp add: to_crlf_plain)
  next
    case (2 l rest)
    have "lines_of (to_crlf s) = (l @ [cr]) # lines_of (to_crlf rest)"
      using lines_of_append [of "l @ [cr]" "to_crlf rest"] 2
      by (simp add: to_crlf_plain crlf_def lines_of_def split_byte_plain)
    moreover have "lines_of s = l # lines_of rest"
      using lines_of_append [of l rest] 2 by (simp add: lines_of_def split_byte_plain)
    ultimately show ?thesis using less [of rest] 2 by (simp add: collapse_cr)
  qed
qed

definition strip_cr :: "string \<Rightarrow> string" where
  "strip_cr l = (if l \<noteq> [] \<and> last l = cr then butlast l else l)"

lemma to_lf_line: "nl \<notin> set l \<Longrightarrow> to_lf (l @ nl # r) = strip_cr l @ nl # to_lf r"
proof (induction l rule: induct_list012)
  case 1
  then show ?case by (simp add: to_lf_other strip_cr_def)
next
  case (2 c)
  then show ?case by (cases "c = cr") (auto simp: to_lf_other strip_cr_def)
next
  case (3 c d l)
  have "to_lf (c # d # l @ nl # r) = c # to_lf (d # l @ nl # r)"
    by (rule to_lf_other) (use 3 in auto)
  then show ?case using 3 by (auto simp: strip_cr_def)
qed

lemma collapse_strip_cr: "collapse_spacing (strip_cr l) = collapse_spacing l"
proof (cases "l \<noteq> [] \<and> last l = cr")
  case True
  then have "butlast l @ [cr] = l" by (metis append_butlast_last_id)
  then show ?thesis using collapse_cr [of "butlast l"] True by (simp add: strip_cr_def)
qed (auto simp: strip_cr_def)

lemma collapse_lines_to_lf: "map collapse_spacing (lines_of (to_lf s)) = map collapse_spacing (lines_of s)"
proof (induction "length s" arbitrary: s rule: less_induct)
  case less
  show ?case
  proof (cases s rule: first_line_cases)
    case 1
    then show ?thesis by (simp add: to_lf_plain)
  next
    case (2 l rest)
    have "nl \<notin> set (strip_cr l)" using 2 by (auto simp: strip_cr_def dest: in_set_butlastD)
    then have "lines_of (to_lf s) = strip_cr l # lines_of (to_lf rest)"
      using lines_of_append [of "strip_cr l" "to_lf rest"] 2
      by (simp add: to_lf_line lines_of_def split_byte_plain)
    moreover have "lines_of s = l # lines_of rest"
      using lines_of_append [of l rest] 2 by (simp add: lines_of_def split_byte_plain)
    ultimately show ?thesis using less [of rest] 2 by (simp add: collapse_strip_cr)
  qed
qed

lemma same_text_crlf: "same_text (to_crlf a) b = same_text a b" "same_text b (to_lf a) = same_text b a"
  using non_blank_cong [OF collapse_lines_to_crlf, of a] non_blank_cong [OF collapse_lines_to_lf, of a]
  by (simp_all add: same_text_def)

lemma edits_region_crlf:
  assumes "edits_region (to_lf source) result (to_lf old) (to_lf new)" "only_crlf source"
  shows "edits_region source (to_crlf result) old new"
proof -
  obtain pre mid fresh post where e: "to_lf source = pre @ mid @ post" "result = pre @ fresh @ post"
    "same_text mid old" "same_text fresh new"
    using assms(1) by (auto simp: edits_region_def same_text_crlf)
  have "source = to_crlf pre @ to_crlf mid @ to_crlf post"
    using to_crlf_to_lf [OF assms(2)] e(1) by simp
  then show ?thesis using e unfolding edits_region_def
    by (intro exI [of _ "to_crlf pre"] exI [of _ "to_crlf mid"] exI [of _ "to_crlf fresh"] exI [of _ "to_crlf post"])
      (simp add: same_text_crlf)
qed

lemma attempt_region:
  assumes "attempt source old new False = Inr r" and "contains source crlf \<Longrightarrow> only_crlf source"
  shows "edits_region source (er_source r) old new"
proof (cases "contains source crlf")
  case True
  then obtain sp where "do_replace (to_lf source) (to_lf old) (to_lf new) False = Inr sp"
    "er_source r = to_crlf (sp_source sp)"
    using assms(1) by (auto simp: attempt_def to_lf_def to_crlf_def Let_def split: if_splits sum.splits)
  then show ?thesis using edits_region_crlf do_replace_region assms(2) True by metis
next
  case False
  then obtain sp where "do_replace source old new False = Inr sp" "er_source r = sp_source sp"
    using assms(1) by (auto simp: attempt_def Let_def split: if_splits sum.splits)
  then show ?thesis using do_replace_region by metis
qed

section \<open>Replacing every occurrence\<close>

lemma index_of_hit: "s \<noteq> [] \<Longrightarrow> has_prefix s sub \<Longrightarrow> index_of s sub = Some 0"
  by (cases s) auto

lemma replace_all_index:
  "old \<noteq> [] \<Longrightarrow> replace_all s old new =
     (case index_of s old of
        None \<Rightarrow> s
      | Some i \<Rightarrow> take i s @ new @ replace_all (drop (i + length old) s) old new)"
proof (induction s)
  case (Cons c s)
  show ?case
  proof (cases "has_prefix (c # s) old")
    case True
    then show ?thesis using Cons.prems by (subst replace_all.simps) simp
  next
    case False
    then have "replace_all (c # s) old new = c # replace_all s old new"
      using Cons.prems by (subst replace_all.simps) simp
    then show ?thesis using False Cons by (cases "index_of s old") auto
  qed
qed simp

lemma splice_every_loop_replace_all:
  "old \<noteq> [] \<Longrightarrow> s = drop prev source \<Longrightarrow>
     fst (splice_every_loop source old new prev delta (find_all_from prev s old)) = replace_all s old new"
proof (induction prev s old arbitrary: delta rule: find_all_from.induct)
  case (1 prev s old)
  show ?case
  proof (cases "index_of s old")
    case None
    then have "find_all_from prev s old = []" "replace_all s old new = s"
      using 1(2) by (simp_all add: find_all_from.simps [of prev s old] replace_all_index [of old s])
    then show ?thesis using 1(3) by simp
  next
    case (Some i)
    have "fst (splice_every_loop source old new (prev + i + length old) d
        (find_all_from (prev + i + length old) (drop (i + length old) s) old))
        = replace_all (drop (i + length old) s) old new" for d
      using 1(1) [OF 1(2) Some 1(2)] 1(3) by (simp add: add.commute add.left_commute)
    moreover have "find_all_from prev s old =
        (prev + i) # find_all_from (prev + i + length old) (drop (i + length old) s) old"
      "replace_all s old new = take i s @ new @ replace_all (drop (i + length old) s) old new"
      using 1(2) Some by (simp_all add: find_all_from.simps [of prev s old] replace_all_index [of old s])
    ultimately show ?thesis using 1(3) by (simp add: case_prod_unfold)
  qed
qed

lemma find_all_from_0: "index_of s old = Some i \<Longrightarrow> old \<noteq> [] \<Longrightarrow>
    find_all s old = i # find_all_from (i + length old) (drop (i + length old) s) old"
  by (simp add: find_all_def find_all_from.simps [of 0 s old])

lemma find_all_nonempty: "old \<noteq> [] \<Longrightarrow> contains s old \<Longrightarrow> find_all s old \<noteq> []"
  by (auto simp: contains_def find_all_from_0)

section \<open>The longest prefix\<close>

lemma contains_take_mono: "contains s (take n w) \<Longrightarrow> m \<le> n \<Longrightarrow> contains s (take m w)"
proof -
  assume c: "contains s (take n w)" and le: "m \<le> n"
  then obtain a b where "s = a @ take n w @ b" by (auto simp: contains_iff)
  moreover have "take n w = take m w @ drop m (take n w)"
    using le by (metis append_take_drop_id min.absorb1 take_take)
  ultimately have "s = a @ take m w @ drop m (take n w) @ b" by (metis append.assoc)
  then show ?thesis by (auto simp: contains_iff)
qed

lemma longest_prefix_loop_correct:
  "contains s (take lo w) \<Longrightarrow> lo \<le> hi \<Longrightarrow> (\<And>n. contains s (take n w) \<Longrightarrow> n \<le> length w \<Longrightarrow> n \<le> hi) \<Longrightarrow>
     (let r = longest_prefix_loop s w lo hi in
      lo \<le> r \<and> r \<le> hi \<and> contains s (take r w) \<and> (\<forall>n \<le> length w. contains s (take n w) \<longrightarrow> n \<le> r))"
proof (induction s w lo hi rule: longest_prefix_loop.induct)
  case (1 s w lo hi)
  show ?case
  proof (cases "lo < hi")
    case True
    define mid where "mid = lo + (hi - lo + 1) div 2"
    have mid: "lo < mid" "mid \<le> hi" using True by (auto simp: mid_def)
    show ?thesis
    proof (cases "contains s (take mid w)")
      case c: True
      have "longest_prefix_loop s w lo hi = longest_prefix_loop s w mid hi"
        using True c unfolding mid_def by (subst longest_prefix_loop.simps) (simp add: Let_def)
      then show ?thesis using 1(1) [OF True mid_def c c mid(2) 1(5)] mid by (auto simp: Let_def)
    next
      case c: False
      have ub: "n \<le> mid - 1" if "contains s (take n w)" for n
        using contains_take_mono [OF that, of mid] c mid(1) by (cases "mid \<le> n") auto
      have "longest_prefix_loop s w lo hi = longest_prefix_loop s w lo (mid - 1)"
        using True c unfolding mid_def by (subst longest_prefix_loop.simps) (simp add: Let_def)
      moreover have le: "lo \<le> mid - 1" "mid - 1 \<le> hi" using mid by auto
      ultimately show ?thesis using 1(2) [OF True mid_def c 1(3) le(1)] ub
        by (auto simp: Let_def intro: order_trans [OF _ le(2)])
    qed
  next
    case False
    then have "longest_prefix_loop s w lo hi = lo" by (subst longest_prefix_loop.simps) simp
    then show ?thesis using 1(3-5) False by (auto simp: Let_def)
  qed
qed

section \<open>Properties\<close>


definition demo_source :: string where
  "demo_source = ''func f() {'' @ [nl, tab] @ ''x := 1'' @ [nl, nl, tab] @ ''g(x)'' @ [nl] @ ''}'' @ [nl]"

definition demo_anchor :: string where "demo_anchor = ''x  := 1'' @ [nl] @ ''g(x)''"

definition demo_new :: string where "demo_new = ''x := 2'' @ [nl] @ ''g(x)''"

definition demo_result :: edit_result where
  "demo_result =
     \<lparr>er_source = ''func f() {'' @ [nl, tab] @ ''x := 2'' @ [nl, tab] @ ''g(x)'' @ [nl] @ ''}'' @ [nl],
      er_note = [], er_ranges = [\<lparr>lr_start = 2, lr_end = 3\<rparr>], er_added = 2, er_removed = 3, er_matches = 1\<rparr>"

lemma demo_replace: "replace (\<lambda>_. False) demo_source demo_anchor demo_new = Inr demo_result"
  by code_simp


text \<open>
  An anchor that occurs twice is refused. If \<open>old_string\<close> occurs at two places that do not
  overlap, the replacement fails and reports the line of every occurrence found.
\<close>

theorem replace_refuses_two:
  assumes "source = a @ old @ b @ old @ c" and "old \<noteq> []" and "old \<noteq> new" and "\<not> contains source crlf"
  shows "replace uni source old new = Inl (NotUnique (match_lines source (find_all source old)))
     \<and> 2 \<le> length (find_all source old)"
proof -
  obtain i j more where f: "find_all source old = i # j # more" using find_all_two [OF assms(1,2)] by blast
  then have "attempt source old new False = Inl (NotUnique (match_lines source (find_all source old)))"
    using assms by (simp add: attempt_def do_replace_def)
  then show ?thesis using f by (simp add: replace_def replace_with_repair_def is_not_found_def)
qed

theorem replace_refuses_two_witness:
  "replace (\<lambda>_. False) (''a'' @ [nl] @ ''b'' @ [nl] @ ''a'') ''a'' ''c'' = Inl (NotUnique [1, 3])"
proof -
  have "\<not> contains (''a'' @ [nl] @ ''b'' @ [nl] @ ''a'') crlf" by code_simp
  with replace_refuses_two [of "''a'' @ [nl] @ ''b'' @ [nl] @ ''a''" "[]" "''a''" "[nl] @ ''b'' @ [nl]" "[]" "''c''"]
  have "replace (\<lambda>_. False) (''a'' @ [nl] @ ''b'' @ [nl] @ ''a'') ''a'' ''c'' =
      Inl (NotUnique (match_lines (''a'' @ [nl] @ ''b'' @ [nl] @ ''a'') (find_all (''a'' @ [nl] @ ''b'' @ [nl] @ ''a'') ''a'')))"
    by simp
  also have "match_lines (''a'' @ [nl] @ ''b'' @ [nl] @ ''a'') (find_all (''a'' @ [nl] @ ''b'' @ [nl] @ ''a'') ''a'') = [1, 3]"
    by code_simp
  finally show ?thesis .
qed

text \<open>
  An anchor that occurs twice can be taken for unique. The two occurrences of the anchor in
  this text overlap, the scan goes on after the first, and the first is edited.
\<close>

theorem replace_overlap_guessed:
  "has_prefix (drop 0 (''}'' @ [nl] @ ''}'' @ [nl] @ ''}'')) (''}'' @ [nl] @ ''}'')
   \<and> has_prefix (drop 2 (''}'' @ [nl] @ ''}'' @ [nl] @ ''}'')) (''}'' @ [nl] @ ''}'')
   \<and> map_sum id er_source (replace uni (''}'' @ [nl] @ ''}'' @ [nl] @ ''}'') (''}'' @ [nl] @ ''}'') (''}'' @ [nl, nl] @ ''}''))
      = Inr (''}'' @ [nl, nl] @ ''}'' @ [nl] @ ''}'')"
proof (intro conjI)
  have "map_sum id er_source (attempt (''}'' @ [nl] @ ''}'' @ [nl] @ ''}'') (''}'' @ [nl] @ ''}'') (''}'' @ [nl, nl] @ ''}'') False)
      = Inr (''}'' @ [nl, nl] @ ''}'' @ [nl] @ ''}'')" by code_simp
  then show "map_sum id er_source (replace uni (''}'' @ [nl] @ ''}'' @ [nl] @ ''}'') (''}'' @ [nl] @ ''}'') (''}'' @ [nl, nl] @ ''}''))
      = Inr (''}'' @ [nl, nl] @ ''}'' @ [nl] @ ''}'')"
    by (auto simp: replace_def replace_with_repair_def split: sum.splits)
qed code_simp+

text \<open>
  Replacing every occurrence of text that occurs is \<open>strings.ReplaceAll\<close>, and the number of
  matches it reports is the number of occurrences.
\<close>

theorem replace_every_is_replace_all:
  assumes "old \<noteq> []" and "old \<noteq> new" and "contains source old" and "\<not> contains source crlf"
  shows "\<exists>r. replace_every uni source old new = Inr r \<and> er_source r = replace_all source old new
     \<and> er_matches r = length (find_all source old)"
proof -
  have ne: "find_all source old \<noteq> []" by (rule find_all_nonempty [OF assms(1,3)])
  have all: "fst (splice_every_loop source old new 0 0 (find_all source old)) = replace_all source old new"
    using splice_every_loop_replace_all [OF assms(1), of source 0 source new 0] by (simp add: find_all_def)
  obtain sp where sp: "do_replace source old new True = Inr sp"
    "sp_source sp = replace_all source old new" "max (sp_matches sp) 1 = length (find_all source old)"
  proof (cases "find_all source old")
    case (Cons idx more)
    show ?thesis
    proof (cases more)
      case Nil
      have "splice_exact source old new idx = splice_exact source old new idx" by simp
      moreover have "sp_source (splice_exact source old new idx) = replace_all source old new"
        using all Cons Nil by (simp add: splice_exact_def)
      ultimately show ?thesis using that [of "splice_exact source old new idx"] Cons Nil
        by (simp add: do_replace_def splice_exact_def)
    next
      case more: (Cons j rest)
      show ?thesis using that [of "splice_every source old new (find_all source old)"] all Cons more
        by (simp add: do_replace_def splice_every_def case_prod_unfold)
    qed
  qed (use ne in simp)
  then have "\<exists>r. attempt source old new True = Inr r \<and> er_source r = replace_all source old new
      \<and> er_matches r = length (find_all source old)"
    using assms by (simp add: attempt_def)
  then show ?thesis by (auto simp: replace_every_def replace_with_repair_def)
qed

theorem replace_every_is_replace_all_witness:
  "\<exists>r. replace_every (\<lambda>_. False) ''f(a, a)'' ''a'' ''bb'' = Inr r \<and> er_source r = ''f(bb, bb)'' \<and> er_matches r = 2"
proof -
  have "contains ''f(a, a)'' ''a''" "\<not> contains ''f(a, a)'' crlf" by code_simp+
  from replace_every_is_replace_all [OF _ _ this, of "''bb''" "\<lambda>_. False"]
  have "\<exists>r. replace_every (\<lambda>_. False) ''f(a, a)'' ''a'' ''bb'' = Inr r
      \<and> er_source r = replace_all ''f(a, a)'' ''a'' ''bb'' \<and> er_matches r = length (find_all ''f(a, a)'' ''a'')" by simp
  moreover have "replace_all ''f(a, a)'' ''a'' ''bb'' = ''f(bb, bb)''" "length (find_all ''f(a, a)'' ''a'') = 2"
    by code_simp+
  ultimately show ?thesis by simp
qed

text \<open>
  Replacing every fuzzy occurrence can crash. The anchor of two equal lines matches three equal
  lines at two overlapping places; deleting both, the second deletion slices past the lines that
  are left.
\<close>

theorem replace_every_crashes:
  "replace_every uni ([tab] @ ''x'' @ [nl, tab] @ ''x'' @ [nl, tab] @ ''x'') ('' x'' @ [nl] @ '' x'') [] = Inl RuntimePanic"
proof -
  have "attempt ([tab] @ ''x'' @ [nl, tab] @ ''x'' @ [nl, tab] @ ''x'') ('' x'' @ [nl] @ '' x'') [] True = Inl RuntimePanic"
    by code_simp
  then show ?thesis by (simp add: replace_every_def replace_with_repair_def is_not_found_def)
qed

text \<open>
  A file that mixes line endings is rewritten outside the edit: the bare line feed after
  \<open>b\<close> becomes CRLF though the edit is on the first line.
\<close>

theorem mixed_endings_rewritten:
  "map_sum id er_source (replace uni (''a'' @ [cr, nl] @ ''b'' @ [nl] @ ''c'') ''a'' ''x'')
     = Inr (''x'' @ [cr, nl] @ ''b'' @ [cr, nl] @ ''c'')"
proof -
  have "map_sum id er_source (attempt (''a'' @ [cr, nl] @ ''b'' @ [nl] @ ''c'') ''a'' ''x'' False)
      = Inr (''x'' @ [cr, nl] @ ''b'' @ [cr, nl] @ ''c'')" by code_simp
  then show ?thesis by (auto simp: replace_def replace_with_repair_def split: sum.splits)
qed

text \<open>
  In a CRLF file \<open>Holds\<close> and \<open>Replace\<close> disagree: the anchor is matched by \<open>Replace\<close>, which
  normalises line endings first, and \<open>Holds\<close> denies it is there.
\<close>

theorem holds_disagrees:
  "\<not> holds (''ab'' @ [cr, nl] @ ''cd'') (''b'' @ [nl] @ ''c'')
   \<and> map_sum id er_source (replace uni (''ab'' @ [cr, nl] @ ''cd'') (''b'' @ [nl] @ ''c'') ''x'') = Inr ''axd''"
proof
  have "map_sum id er_source (attempt (''ab'' @ [cr, nl] @ ''cd'') (''b'' @ [nl] @ ''c'') ''x'' False) = Inr ''axd''"
    by code_simp
  then show "map_sum id er_source (replace uni (''ab'' @ [cr, nl] @ ''cd'') (''b'' @ [nl] @ ''c'') ''x'') = Inr ''axd''"
    by (auto simp: replace_def replace_with_repair_def split: sum.splits)
qed code_simp

text \<open>
  The binary search of the near-match report is exact: it returns the length of the longest
  prefix of the anchor that occurs in the source.
\<close>

theorem longest_prefix_exact:
  "longest_prefix source want = Max {n. n \<le> length want \<and> contains source (take n want)}"
proof -
  define r where "r = longest_prefix source want"
  have r: "r \<le> length want" "contains source (take r want)"
    "\<And>n. n \<le> length want \<Longrightarrow> contains source (take n want) \<Longrightarrow> n \<le> r"
    using longest_prefix_loop_correct [of source 0 want "length want"]
    by (auto simp: r_def longest_prefix_def Let_def)
  have "Max {n. n \<le> length want \<and> contains source (take n want)} = r"
    using r by (intro Max_eqI) auto
  then show ?thesis by (simp add: r_def)
qed

end
