(* ===== verification/EditBatch.thy ===== *)
theory EditBatch
  imports EditReplace
begin

text \<open>
  Batches of replacements (\<open>internal/edit/batch.go\<close>, \<open>apply.go\<close>): every anchor is resolved against
  the file as it was read, the located spans are spliced in from the end, and every file's batch is
  resolved before any file is written. The file system is a map from paths to files; a write
  replaces the file or fails and leaves it, which is what the temporary file and rename give.
\<close>

section \<open>Locating one pair\<close>

record pair =
  pr_old :: string
  pr_new :: string
  pr_all :: bool

record located =
  lo_text :: string
  lo_note :: string
  lo_start :: nat
  lo_end :: nat
  lo_added :: nat
  lo_removed :: nat
  lo_index :: nat

fun common_prefix :: "string \<Rightarrow> string \<Rightarrow> nat" where
  "common_prefix (a # as) (b # bs) = (if a = b then Suc (common_prefix as bs) else 0)"
| "common_prefix _ _ = 0"

definition common_suffix :: "string \<Rightarrow> string \<Rightarrow> nat" where
  "common_suffix a b = common_prefix (rev a) (rev b)"

definition locate :: "(nat \<Rightarrow> bool) \<Rightarrow> string \<Rightarrow> pair \<Rightarrow> edit_error + located" where
  "locate uni src p =
     (case replace_with_repair uni src (pr_old p) (pr_new p) (pr_all p) of
        Inl e \<Rightarrow> Inl e
      | Inr res \<Rightarrow>
          (let fresh = er_source res;
               head = common_prefix src fresh;
               tail = common_suffix (drop head src) (drop head fresh)
           in Inr \<lparr>lo_text = take (length fresh - tail - head) (drop head fresh), lo_note = er_note res,
                   lo_start = head, lo_end = length src - tail, lo_added = er_added res,
                   lo_removed = er_removed res, lo_index = 0\<rparr>))"

section \<open>One file's batch\<close>

datatype batch_error =
    BatchEmpty
  | StatFailed string
  | IsSymlink string
  | ReadFailed string
  | EditFailed nat nat edit_error
  | Overlap nat nat
  | WriteFailed string

record applied =
  ap_source :: string
  ap_notes :: "string list"
  ap_added :: nat
  ap_removed :: nat

fun locate_loop :: "(nat \<Rightarrow> bool) \<Rightarrow> string \<Rightarrow> nat \<Rightarrow> nat \<Rightarrow> pair list \<Rightarrow> batch_error + located list" where
  "locate_loop uni before tot i [] = Inr []"
| "locate_loop uni before tot i (p # ps) =
     (case locate uni before p of
        Inl e \<Rightarrow> Inl (EditFailed (i + 1) tot e)
      | Inr span \<Rightarrow>
          (case locate_loop uni before tot (i + 1) ps of
             Inl e \<Rightarrow> Inl e
           | Inr spans \<Rightarrow> Inr (span\<lparr>lo_index := i + 1\<rparr> # spans)))"

fun first_overlap :: "located list \<Rightarrow> (nat \<times> nat) option" where
  "first_overlap (a # b # spans) =
     (if lo_start b < lo_end a then Some (lo_index a, lo_index b) else first_overlap (b # spans))"
| "first_overlap _ = None"

definition splice_one :: "located \<Rightarrow> string \<Rightarrow> string" where
  "splice_one l source = take (lo_start l) source @ lo_text l @ drop (lo_end l) source"

definition lo_span :: "located \<Rightarrow> text_span" where
  "lo_span l = (lo_start l, lo_end l, lo_text l)"

lemma splice_one_span: "splice_one = (\<lambda>l. splice_text (lo_span l))"
  by (simp add: splice_one_def splice_text_def lo_span_def fun_eq_iff)

text \<open>
  \<open>sort.Slice\<close> sorts at most twelve elements by insertion, which keeps the order of spans that
  start at the same offset; a longer batch may order such spans otherwise.
\<close>

definition apply_all :: "(nat \<Rightarrow> bool) \<Rightarrow> string \<Rightarrow> pair list \<Rightarrow> batch_error + applied" where
  "apply_all uni before pairs =
     (case locate_loop uni before (length pairs) 0 pairs of
        Inl e \<Rightarrow> Inl e
      | Inr located \<Rightarrow>
          (let spans = sort_key lo_start located in
           case first_overlap spans of
             Some (a, b) \<Rightarrow> Inl (Overlap a b)
           | None \<Rightarrow>
               Inr \<lparr>ap_source = foldr splice_one spans before,
                    ap_notes = filter (\<lambda>n. n \<noteq> []) (map lo_note spans),
                    ap_added = sum_list (map lo_added spans),
                    ap_removed = sum_list (map lo_removed spans)\<rparr>))"

section \<open>What moved\<close>

fun common_lines :: "string list \<Rightarrow> string list \<Rightarrow> nat" where
  "common_lines (a # as) (b # bs) = (if a = b then Suc (common_lines as bs) else 0)"
| "common_lines _ _ = 0"

definition head_lines :: "string list \<Rightarrow> string list \<Rightarrow> nat" where
  "head_lines old fresh = common_lines old fresh"

definition tail_lines :: "string list \<Rightarrow> string list \<Rightarrow> nat" where
  "tail_lines old fresh =
     (let h = head_lines old fresh in common_lines (rev (drop h old)) (rev (drop h fresh)))"

definition changed_span :: "string \<Rightarrow> string \<Rightarrow> line_range list" where
  "changed_span before after =
     (let old = lines_of before; fresh = lines_of after; h = head_lines old fresh in
      if h = length old \<and> h = length fresh then []
      else [\<lparr>lr_start = int h + 1,
             lr_end = max (int h + 1) (int (length fresh) - int (tail_lines old fresh))\<rparr>])"

definition summarize :: "string \<Rightarrow> string \<Rightarrow> nat \<times> nat \<times> line_range list" where
  "summarize before after =
     (let ranges = changed_span before after in
      if ranges = [] then (0, 0, [])
      else
        (let old = lines_of before; fresh = lines_of after;
             h = head_lines old fresh; t = tail_lines old fresh
         in (length fresh - h - t, length old - h - t, ranges)))"

section \<open>Files\<close>

record file_entry =
  fl_symlink :: bool
  fl_mode :: nat
  fl_data :: string

type_synonym file_system = "string \<rightharpoonup> file_entry"

text \<open>Which paths can be read and written, for reasons other than being absent.\<close>

record io =
  io_readable :: "string \<Rightarrow> bool"
  io_writable :: "string \<Rightarrow> bool"

record change =
  ch_path :: string
  ch_added :: nat
  ch_removed :: nat
  ch_ranges :: "line_range list"

record file_edit =
  fe_path :: string
  fe_pairs :: "pair list"

record planned_write =
  pw_path :: string
  pw_before :: string
  pw_after :: string
  pw_notes :: "string list"
  pw_mode :: nat
  pw_added :: nat
  pw_removed :: nat

record batch =
  ba_changes :: "change list"
  ba_notes :: "string list"

definition read_target :: "io \<Rightarrow> file_system \<Rightarrow> string \<Rightarrow> batch_error + file_entry" where
  "read_target io fs path =
     (case fs path of
        None \<Rightarrow> Inl (StatFailed path)
      | Some f \<Rightarrow>
          if fl_symlink f then Inl (IsSymlink path)
          else if \<not> io_readable io path then Inl (ReadFailed path)
          else Inr f)"

definition write_atomic :: "io \<Rightarrow> string \<Rightarrow> nat \<Rightarrow> string \<Rightarrow> file_system \<Rightarrow> file_system option" where
  "write_atomic io path mode data fs =
     (if io_writable io path then Some (fs(path \<mapsto> \<lparr>fl_symlink = False, fl_mode = mode, fl_data = data\<rparr>))
      else None)"

definition plan_file :: "(nat \<Rightarrow> bool) \<Rightarrow> io \<Rightarrow> file_system \<Rightarrow> file_edit \<Rightarrow> batch_error + planned_write" where
  "plan_file uni io fs fe =
     (if fe_pairs fe = [] then Inl BatchEmpty
      else (case read_target io fs (fe_path fe) of
              Inl e \<Rightarrow> Inl e
            | Inr f \<Rightarrow>
                (case apply_all uni (fl_data f) (fe_pairs fe) of
                   Inl e \<Rightarrow> Inl e
                 | Inr out \<Rightarrow>
                     Inr \<lparr>pw_path = fe_path fe, pw_before = fl_data f, pw_after = ap_source out,
                          pw_notes = ap_notes out, pw_mode = fl_mode f, pw_added = ap_added out,
                          pw_removed = ap_removed out\<rparr>)))"

fun plan_all :: "(nat \<Rightarrow> bool) \<Rightarrow> io \<Rightarrow> file_system \<Rightarrow> file_edit list \<Rightarrow> batch_error + planned_write list" where
  "plan_all uni io fs [] = Inr []"
| "plan_all uni io fs (fe # fes) =
     (case plan_file uni io fs fe of
        Inl e \<Rightarrow> Inl e
      | Inr p \<Rightarrow> (case plan_all uni io fs fes of Inl e \<Rightarrow> Inl e | Inr ps \<Rightarrow> Inr (p # ps)))"

definition change_of :: "planned_write \<Rightarrow> change" where
  "change_of p =
     \<lparr>ch_path = pw_path p, ch_added = pw_added p, ch_removed = pw_removed p,
      ch_ranges = changed_span (pw_before p) (pw_after p)\<rparr>"

fun write_all :: "io \<Rightarrow> planned_write list \<Rightarrow> file_system \<Rightarrow> file_system \<times> (batch_error + batch)" where
  "write_all io [] fs = (fs, Inr \<lparr>ba_changes = [], ba_notes = []\<rparr>)"
| "write_all io (p # ps) fs =
     (case write_atomic io (pw_path p) (pw_mode p) (pw_after p) fs of
        None \<Rightarrow> (fs, Inl (WriteFailed (pw_path p)))
      | Some fs' \<Rightarrow>
          (case write_all io ps fs' of
             (fs'', Inl e) \<Rightarrow> (fs'', Inl e)
           | (fs'', Inr b) \<Rightarrow>
               (fs'', Inr \<lparr>ba_changes = change_of p # ba_changes b, ba_notes = pw_notes p @ ba_notes b\<rparr>)))"

definition apply_to_files ::
  "(nat \<Rightarrow> bool) \<Rightarrow> io \<Rightarrow> file_edit list \<Rightarrow> file_system \<Rightarrow> file_system \<times> (batch_error + batch)" where
  "apply_to_files uni io edits fs =
     (if edits = [] then (fs, Inl BatchEmpty)
      else (case plan_all uni io fs edits of
              Inl e \<Rightarrow> (fs, Inl e)
            | Inr planned \<Rightarrow> write_all io planned fs))"

definition apply_all_to_file ::
  "(nat \<Rightarrow> bool) \<Rightarrow> io \<Rightarrow> string \<Rightarrow> pair list \<Rightarrow> file_system \<Rightarrow> file_system \<times> (batch_error + change)" where
  "apply_all_to_file uni io path pairs fs =
     (case apply_to_files uni io [\<lparr>fe_path = path, fe_pairs = pairs\<rparr>] fs of
        (fs', Inl e) \<Rightarrow> (fs', Inl e)
      | (fs', Inr b) \<Rightarrow> (fs', Inr (hd (ba_changes b))))"

definition apply_to_file ::
  "(nat \<Rightarrow> bool) \<Rightarrow> io \<Rightarrow> string \<Rightarrow> string \<Rightarrow> string \<Rightarrow> file_system \<Rightarrow> file_system \<times> (batch_error + change)" where
  "apply_to_file uni io path old new fs =
     (case read_target io fs path of
        Inl e \<Rightarrow> (fs, Inl e)
      | Inr f \<Rightarrow>
          (case replace uni (fl_data f) old new of
             Inl e \<Rightarrow> (fs, Inl (EditFailed 1 1 e))
           | Inr r \<Rightarrow>
               (case write_atomic io path (fl_mode f) (er_source r) fs of
                  None \<Rightarrow> (fs, Inl (WriteFailed path))
                | Some fs' \<Rightarrow>
                    (fs', Inr \<lparr>ch_path = path, ch_added = er_added r, ch_removed = er_removed r,
                               ch_ranges = er_ranges r\<rparr>))))"

section \<open>Located spans\<close>

lemma common_prefix_take: "take (common_prefix a b) a = take (common_prefix a b) b"
  by (induction a b rule: common_prefix.induct) auto

lemma common_prefix_le: "common_prefix a b \<le> length a" "common_prefix a b \<le> length b"
  by (induction a b rule: common_prefix.induct) auto

lemma common_suffix_le: "common_suffix a b \<le> length a" "common_suffix a b \<le> length b"
  using common_prefix_le [of "rev a" "rev b"] by (simp_all add: common_suffix_def)

lemma common_suffix_drop:
  "drop (length a - common_suffix a b) a = drop (length b - common_suffix a b) b"
proof -
  have "take (common_suffix a b) (rev a) = take (common_suffix a b) (rev b)"
    unfolding common_suffix_def by (rule common_prefix_take)
  then show ?thesis by (simp add: take_rev)
qed

lemma locate_splices:
  assumes "locate uni src p = Inr l"
  shows "\<exists>r. replace_with_repair uni src (pr_old p) (pr_new p) (pr_all p) = Inr r
     \<and> splice_one l src = er_source r \<and> lo_start l \<le> lo_end l \<and> lo_end l \<le> length src"
proof -
  obtain r where r: "replace_with_repair uni src (pr_old p) (pr_new p) (pr_all p) = Inr r"
    using assms by (auto simp: locate_def split: sum.splits)
  let ?f = "er_source r"
  define h where "h = common_prefix src ?f"
  define t where "t = common_suffix (drop h src) (drop h ?f)"
  have l: "lo_start l = h" "lo_end l = length src - t" "lo_text l = take (length ?f - t - h) (drop h ?f)"
    using assms r by (auto simp: locate_def Let_def h_def t_def)
  have h: "take h src = take h ?f" "h \<le> length src" "h \<le> length ?f"
    using common_prefix_take common_prefix_le by (simp_all add: h_def)
  have t: "t \<le> length src - h" "t \<le> length ?f - h"
    using common_suffix_le [of "drop h src" "drop h ?f"] by (simp_all add: t_def)
  have "drop (length (drop h src) - t) (drop h src) = drop (length (drop h ?f) - t) (drop h ?f)"
    unfolding t_def by (rule common_suffix_drop)
  then have d: "drop (length src - t) src = drop (length ?f - t) ?f" using h t by simp
  have "splice_one l src = take h ?f @ take (length ?f - t - h) (drop h ?f) @ drop (length ?f - t) ?f"
    by (simp add: splice_one_def l h(1) d)
  also have "\<dots> = take h ?f @ drop h ?f"
  proof -
    have "drop (length ?f - t) ?f = drop (length ?f - t - h) (drop h ?f)" using t h by simp
    then show ?thesis by (metis append_take_drop_id)
  qed
  finally have "splice_one l src = ?f" by simp
  moreover have "lo_start l \<le> lo_end l" "lo_end l \<le> length src" using l t h by auto
  ultimately show ?thesis using r by blast
qed

lemma first_overlap_ordered:
  "first_overlap spans = None \<Longrightarrow> (\<And>l. l \<in> set spans \<Longrightarrow> lo_start l \<le> lo_end l \<and> lo_end l \<le> n) \<Longrightarrow>
     (\<And>l. spans = l # tl spans \<Longrightarrow> prev \<le> lo_start l) \<Longrightarrow> prev \<le> n \<Longrightarrow> ordered_spans prev n (map lo_span spans)"
proof (induction spans arbitrary: prev rule: first_overlap.induct)
  case (1 a b spans)
  have "lo_end a \<le> lo_start b" "first_overlap (b # spans) = None"
    using 1(2) by (auto split: if_splits)
  then have "ordered_spans (lo_end a) n (map lo_span (b # spans))" using 1(1,3) by (auto split: if_splits)
  moreover have "lo_start a \<le> lo_end a" "prev \<le> lo_start a" using 1(3,4) by auto
  ultimately show ?case by (simp add: lo_span_def [of a])
qed (auto simp: lo_span_def)

lemma locate_loop_spans:
  "locate_loop uni before tot i ps = Inr spans \<Longrightarrow>
     list_all2 (\<lambda>p l. \<exists>l0. locate uni before p = Inr l0 \<and> (\<exists>k. l = l0\<lparr>lo_index := k\<rparr>)) ps spans"
  by (induction ps arbitrary: i spans) (auto split: sum.splits)

lemma splice_one_index [simp]: "splice_one (l\<lparr>lo_index := k\<rparr>) = splice_one l"
  by (simp add: splice_one_def fun_eq_iff)

text \<open>A span of a pair: put into the file alone, it makes the pair's own replacement.\<close>

definition span_of :: "(nat \<Rightarrow> bool) \<Rightarrow> string \<Rightarrow> pair \<Rightarrow> located \<Rightarrow> bool" where
  "span_of uni before p l =
     (lo_start l \<le> lo_end l \<and> lo_end l \<le> length before
      \<and> (\<exists>r. replace_with_repair uni before (pr_old p) (pr_new p) (pr_all p) = Inr r
             \<and> splice_one l before = er_source r))"

lemma locate_loop_span_of:
  "locate_loop uni before tot i ps = Inr spans \<Longrightarrow> list_all2 (span_of uni before) ps spans"
proof -
  assume "locate_loop uni before tot i ps = Inr spans"
  from locate_loop_spans [OF this] show ?thesis
    by (rule list_all2_mono) (auto simp: span_of_def dest!: locate_splices)
qed

lemma apply_all_spans:
  assumes "apply_all uni before pairs = Inr out"
  obtains located where "list_all2 (span_of uni before) pairs located"
    "first_overlap (sort_key lo_start located) = None"
    "ap_source out = foldr splice_one (sort_key lo_start located) before"
    "ordered_spans 0 (length before) (map lo_span (sort_key lo_start located))"
proof -
  obtain located where l: "locate_loop uni before (length pairs) 0 pairs = Inr located"
    "first_overlap (sort_key lo_start located) = None"
    "ap_source out = foldr splice_one (sort_key lo_start located) before"
    using assms by (auto simp: apply_all_def Let_def split: sum.splits option.splits prod.splits)
  note sp = locate_loop_span_of [OF l(1)]
  have "ordered_spans 0 (length before) (map lo_span (sort_key lo_start located))"
  proof (rule first_overlap_ordered [OF l(2)])
    fix m
    assume "m \<in> set (sort_key lo_start located)"
    then have "m \<in> set located" by simp
    then obtain p where "span_of uni before p m"
      using sp by (metis (full_types) in_set_conv_nth list_all2_conv_all_nth)
    then show "lo_start m \<le> lo_end m \<and> lo_end m \<le> length before" by (simp add: span_of_def)
  qed simp_all
  with sp l(2,3) show thesis by (rule that)
qed

section \<open>Properties of a batch\<close>

text \<open>
  C9: a batch makes all its replacements at once. When it succeeds, each pair has a span that put
  into the file alone is the pair's own replacement, the spans are disjoint, and the result is the
  file with every span replaced, read from front to back.
\<close>

theorem apply_all_simultaneous:
  assumes "apply_all uni before pairs = Inr out"
  shows "\<exists>located. list_all2 (span_of uni before) pairs located
     \<and> ordered_spans 0 (length before) (map lo_span (sort_key lo_start located))
     \<and> ap_source out = splice_forward 0 (map lo_span (sort_key lo_start located)) before"
proof -
  obtain located where l: "list_all2 (span_of uni before) pairs located"
    "first_overlap (sort_key lo_start located) = None"
    "ap_source out = foldr splice_one (sort_key lo_start located) before"
    "ordered_spans 0 (length before) (map lo_span (sort_key lo_start located))"
    by (rule apply_all_spans [OF assms])
  have "ap_source out = foldr splice_text (map lo_span (sort_key lo_start located)) before"
    by (simp add: l(3) splice_one_span foldr_map comp_def)
  then show ?thesis using l foldr_splice_forward [OF l(4)] by (intro exI [of _ located]) simp
qed

definition pair_ab :: "string \<Rightarrow> string \<Rightarrow> pair" where
  "pair_ab a b = \<lparr>pr_old = a, pr_new = b, pr_all = False\<rparr>"

theorem apply_all_simultaneous_witness:
  "\<exists>out located. apply_all (\<lambda>_. False) ''one two'' [pair_ab ''two'' ''2'', pair_ab ''one'' ''1''] = Inr out
     \<and> ap_source out = ''1 2'' \<and> ap_source out = splice_forward 0 (map lo_span (sort_key lo_start located)) ''one two''"
proof -
  let ?r = "apply_all (\<lambda>_. False) ''one two'' [pair_ab ''two'' ''2'', pair_ab ''one'' ''1'']"
  have "map_sum id ap_source ?r = Inr ''1 2''" by code_simp
  then obtain out where "?r = Inr out" "ap_source out = ''1 2''" by (cases ?r) auto
  with apply_all_simultaneous [OF this(1)] show ?thesis by blast
qed

text \<open>
  Two insertions at one place are not refused, though which comes first is undecidable: both
  orders of the same two pairs succeed, with different results.
\<close>

theorem insertions_not_refused:
  "map_sum id ap_source (apply_all (\<lambda>_. False) ''ab'' [pair_ab ''a'' ''aX'', pair_ab ''b'' ''Yb'']) = Inr ''aXYb''
   \<and> map_sum id ap_source (apply_all (\<lambda>_. False) ''ab'' [pair_ab ''b'' ''Yb'', pair_ab ''a'' ''aX'']) = Inr ''aYXb''"
  by (intro conjI) code_simp+

lemma write_all_Cons:
  "write_all io (p # ps) fs =
     (case write_atomic io (pw_path p) (pw_mode p) (pw_after p) fs of
        None \<Rightarrow> (fs, Inl (WriteFailed (pw_path p)))
      | Some fs' \<Rightarrow>
          (fst (write_all io ps fs'),
           map_sum id (\<lambda>b. \<lparr>ba_changes = change_of p # ba_changes b, ba_notes = pw_notes p @ ba_notes b\<rparr>)
             (snd (write_all io ps fs'))))"
  by (auto split: option.splits prod.splits sum.splits)

declare write_all.simps(2) [simp del]

lemma write_all_other: "path \<notin> pw_path ` set ps \<Longrightarrow> fst (write_all io ps fs) path = fs path"
  by (induction ps arbitrary: fs) (auto simp: write_all_Cons write_atomic_def)

lemma write_all_error: "snd (write_all io ps fs) = Inl e \<Longrightarrow> \<exists>path. e = WriteFailed path"
proof (induction ps arbitrary: fs)
  case (Cons p ps)
  show ?case
  proof (cases "write_atomic io (pw_path p) (pw_mode p) (pw_after p) fs")
    case (Some fs')
    then have "snd (write_all io ps fs') = Inl e"
      using Cons.prems by (cases "snd (write_all io ps fs')") (auto simp: write_all_Cons)
    then show ?thesis by (rule Cons.IH)
  qed (use Cons.prems in \<open>auto simp: write_all_Cons\<close>)
qed simp

lemma write_all_written:
  "snd (write_all io ps fs) = Inr b \<Longrightarrow> distinct (map pw_path ps) \<Longrightarrow> p \<in> set ps \<Longrightarrow>
     fst (write_all io ps fs) (pw_path p)
       = Some \<lparr>fl_symlink = False, fl_mode = pw_mode p, fl_data = pw_after p\<rparr>"
proof (induction ps arbitrary: fs b)
  case (Cons q ps)
  obtain fs' where w: "write_atomic io (pw_path q) (pw_mode q) (pw_after q) fs = Some fs'"
    using Cons.prems(1) by (cases "write_atomic io (pw_path q) (pw_mode q) (pw_after q) fs") (auto simp: write_all_Cons)
  then obtain b' where b': "snd (write_all io ps fs') = Inr b'"
    using Cons.prems(1) by (cases "snd (write_all io ps fs')") (auto simp: write_all_Cons)
  show ?case
  proof (cases "p = q")
    case True
    then show ?thesis using w Cons.prems(2) write_all_other [of "pw_path q" ps io fs']
      by (auto simp: write_all_Cons write_atomic_def split: if_splits)
  next
    case False
    then show ?thesis using w Cons.IH [OF b'] Cons.prems(2,3) by (simp add: write_all_Cons)
  qed
qed simp

lemma plan_all_paths: "plan_all uni io fs edits = Inr ps \<Longrightarrow> map pw_path ps = map fe_path edits"
  by (induction edits arbitrary: ps) (auto simp: plan_file_def split: sum.splits if_splits)

lemma plan_all_planned:
  "plan_all uni io fs edits = Inr ps \<Longrightarrow> fe \<in> set edits \<Longrightarrow> \<exists>p \<in> set ps. plan_file uni io fs fe = Inr p"
  by (induction edits arbitrary: ps) (auto split: sum.splits)

text \<open>
  C30: a batch over files is all or nothing short of a failing write: any error but a failed write
  leaves every file as it was, and whatever happens, a file that no edit names is left alone.
\<close>

theorem apply_to_files_atomic:
  assumes "apply_to_files uni io edits fs = (fs', r)"
  shows "(\<forall>e. r = Inl e \<longrightarrow> (\<forall>path. e \<noteq> WriteFailed path) \<longrightarrow> fs' = fs)
     \<and> (\<forall>path. path \<notin> fe_path ` set edits \<longrightarrow> fs' path = fs path)"
proof (cases "edits = [] \<or> (\<exists>e. plan_all uni io fs edits = Inl e)")
  case True
  then have "fs' = fs" using assms by (auto simp: apply_to_files_def split: if_splits sum.splits)
  then show ?thesis by simp
next
  case False
  then obtain ps where ps: "plan_all uni io fs edits = Inr ps" by (cases "plan_all uni io fs edits") auto
  then have w: "write_all io ps fs = (fs', r)" using False assms by (simp add: apply_to_files_def)
  have "pw_path ` set ps = fe_path ` set edits" using plan_all_paths [OF ps] by (metis set_map)
  then have "fs' path = fs path" if "path \<notin> fe_path ` set edits" for path
    using write_all_other [of path ps io fs] w that by simp
  moreover have "\<exists>path. e = WriteFailed path" if "r = Inl e" for e
    using write_all_error [of io ps fs e] w that by simp
  ultimately show ?thesis by blast
qed

definition demo_fs :: file_system where
  "demo_fs = [''/a'' \<mapsto> \<lparr>fl_symlink = False, fl_mode = 420, fl_data = ''one two''\<rparr>,
              ''/b'' \<mapsto> \<lparr>fl_symlink = False, fl_mode = 420, fl_data = ''three''\<rparr>]"

definition all_io :: io where "all_io = \<lparr>io_readable = (\<lambda>_. True), io_writable = (\<lambda>_. True)\<rparr>"

definition edit_on :: "string \<Rightarrow> string \<Rightarrow> string \<Rightarrow> file_edit" where
  "edit_on path a b = \<lparr>fe_path = path, fe_pairs = [pair_ab a b]\<rparr>"

lemma demo_missing:
  "apply_to_files (\<lambda>_. False) all_io [edit_on ''/a'' ''one'' ''1'', edit_on ''/b'' [] ''4''] demo_fs
     = (demo_fs, Inl (EditFailed 1 1 EmptyOldString))"
proof -
  have r: "read_target all_io demo_fs ''/a'' = Inr \<lparr>fl_symlink = False, fl_mode = 420, fl_data = ''one two''\<rparr>"
    "read_target all_io demo_fs ''/b'' = Inr \<lparr>fl_symlink = False, fl_mode = 420, fl_data = ''three''\<rparr>"
    by (simp_all add: read_target_def all_io_def demo_fs_def)
  have "\<exists>out. apply_all (\<lambda>_. False) ''one two'' [pair_ab ''one'' ''1''] = Inr out"
    "apply_all (\<lambda>_. False) ''three'' [pair_ab [] ''4''] = Inl (EditFailed 1 1 EmptyOldString)"
  proof -
    have "map_sum id ap_source (apply_all (\<lambda>_. False) ''one two'' [pair_ab ''one'' ''1'']) = Inr ''1 two''" by code_simp
    then show "\<exists>out. apply_all (\<lambda>_. False) ''one two'' [pair_ab ''one'' ''1''] = Inr out"
      by (cases "apply_all (\<lambda>_. False) ''one two'' [pair_ab ''one'' ''1'']") auto
  qed code_simp
  then show ?thesis using r
    by (auto simp: apply_to_files_def plan_file_def edit_on_def)
qed

theorem apply_to_files_atomic_witness:
  "fst (apply_to_files (\<lambda>_. False) all_io [edit_on ''/a'' ''one'' ''1'', edit_on ''/b'' [] ''4''] demo_fs) = demo_fs"
  using apply_to_files_atomic [OF demo_missing] by (simp add: demo_missing)

text \<open>
  A batch that succeeds gives each file its own edits: when no two edits name the same path,
  every named file holds its pairs applied to what it held before, with its mode.
\<close>

theorem apply_to_files_result:
  assumes "apply_to_files uni io edits fs = (fs', Inr b)" and "distinct (map fe_path edits)"
    and "fe \<in> set edits"
  shows "\<exists>f out. fs (fe_path fe) = Some f \<and> apply_all uni (fl_data f) (fe_pairs fe) = Inr out
     \<and> fs' (fe_path fe) = Some (f\<lparr>fl_data := ap_source out\<rparr>)"
proof -
  obtain ps where ps: "plan_all uni io fs edits = Inr ps" "write_all io ps fs = (fs', Inr b)"
    using assms(1) by (auto simp: apply_to_files_def split: if_splits sum.splits)
  obtain p where p: "p \<in> set ps" "plan_file uni io fs fe = Inr p" using plan_all_planned [OF ps(1) assms(3)] by blast
  then obtain f out where f: "fs (fe_path fe) = Some f" "\<not> fl_symlink f"
    "apply_all uni (fl_data f) (fe_pairs fe) = Inr out"
    "pw_path p = fe_path fe" "pw_after p = ap_source out" "pw_mode p = fl_mode f"
    by (auto simp: plan_file_def read_target_def split: if_splits sum.splits option.splits)
  have "distinct (map pw_path ps)" using plan_all_paths [OF ps(1)] assms(2) by simp
  then have "fs' (fe_path fe) = Some \<lparr>fl_symlink = False, fl_mode = fl_mode f, fl_data = ap_source out\<rparr>"
    using write_all_written [of io ps fs b p] ps(2) p f by simp
  moreover have "f\<lparr>fl_data := ap_source out\<rparr> = \<lparr>fl_symlink = False, fl_mode = fl_mode f, fl_data = ap_source out\<rparr>"
    using f(2) by (cases f) simp
  ultimately show ?thesis using f by auto
qed

lemma demo_apply:
  "\<exists>out. apply_all (\<lambda>_. False) ''one two'' [pair_ab a b] = Inr out \<and> ap_source out = c"
  if "map_sum id ap_source (apply_all (\<lambda>_. False) ''one two'' [pair_ab a b]) = Inr c"
  using that by (cases "apply_all (\<lambda>_. False) ''one two'' [pair_ab a b]") auto

lemma demo_batch:
  assumes "map_sum id ap_source (apply_all (\<lambda>_. False) ''one two'' [pair_ab a b]) = Inr c"
    and "map_sum id ap_source (apply_all (\<lambda>_. False) ''one two'' [pair_ab a' b']) = Inr c'"
  shows "\<exists>ba. apply_to_files (\<lambda>_. False) all_io [edit_on ''/a'' a b, edit_on ''/a'' a' b'] demo_fs
     = (demo_fs(''/a'' \<mapsto> \<lparr>fl_symlink = False, fl_mode = 420, fl_data = c'\<rparr>), Inr ba) \<and> length (ba_changes ba) = 2"
  using demo_apply [OF assms(1)] demo_apply [OF assms(2)]
  by (auto simp: apply_to_files_def plan_file_def edit_on_def read_target_def all_io_def demo_fs_def
      write_all_Cons write_atomic_def)

theorem apply_to_files_result_witness:
  "\<exists>fs' b. apply_to_files (\<lambda>_. False) all_io [edit_on ''/a'' ''one'' ''1''] demo_fs = (fs', Inr b)
     \<and> map_option fl_data (fs' ''/a'') = Some ''1 two''"
proof -
  have "map_sum id ap_source (apply_all (\<lambda>_. False) ''one two'' [pair_ab ''one'' ''1'']) = Inr ''1 two''" by code_simp
  from demo_apply [OF this] obtain out where out:
    "apply_all (\<lambda>_. False) ''one two'' [pair_ab ''one'' ''1''] = Inr out" "ap_source out = ''1 two''" by blast
  then obtain fs' b where r: "apply_to_files (\<lambda>_. False) all_io [edit_on ''/a'' ''one'' ''1''] demo_fs = (fs', Inr b)"
    by (auto simp: apply_to_files_def plan_file_def edit_on_def read_target_def all_io_def demo_fs_def
        write_all_Cons write_atomic_def)
  have "map_option fl_data (fs' ''/a'') = Some ''1 two''"
    using apply_to_files_result [OF r, of "edit_on ''/a'' ''one'' ''1''"] out
    by (auto simp: edit_on_def demo_fs_def)
  with r show ?thesis by blast
qed

text \<open>
  Two edits of one path in a batch lose the first. Both are reported as changes, and the file
  holds the second alone.
\<close>

theorem same_path_loses_edit:
  "\<exists>fs' b. apply_to_files (\<lambda>_. False) all_io [edit_on ''/a'' ''one'' ''1'', edit_on ''/a'' ''two'' ''2''] demo_fs
       = (fs', Inr b)
     \<and> length (ba_changes b) = 2 \<and> map_option fl_data (fs' ''/a'') = Some ''one 2''"
proof -
  have "map_sum id ap_source (apply_all (\<lambda>_. False) ''one two'' [pair_ab ''one'' ''1'']) = Inr ''1 two''"
    "map_sum id ap_source (apply_all (\<lambda>_. False) ''one two'' [pair_ab ''two'' ''2'']) = Inr ''one 2''" by code_simp+
  from demo_batch [OF this] show ?thesis by auto
qed

section \<open>The reported span\<close>

lemma common_lines_take: "take (common_lines a b) a = take (common_lines a b) b"
  by (induction a b rule: common_lines.induct) auto

lemma common_lines_le: "common_lines a b \<le> length a" "common_lines a b \<le> length b"
  by (induction a b rule: common_lines.induct) auto

lemma tail_lines_drop:
  assumes "t \<le> tail_lines old fresh"
  shows "drop (length old - t) old = drop (length fresh - t) fresh"
proof -
  let ?h = "head_lines old fresh"
  let ?a = "drop ?h old" and ?b = "drop ?h fresh"
  have H: "?h \<le> length old" "?h \<le> length fresh"
    using common_lines_le by (simp_all add: head_lines_def)
  have T: "tail_lines old fresh \<le> length ?a" "tail_lines old fresh \<le> length ?b"
    using common_lines_le [of "rev ?a" "rev ?b"] by (simp_all add: tail_lines_def Let_def)
  have "take (tail_lines old fresh) (rev ?a) = take (tail_lines old fresh) (rev ?b)"
    unfolding tail_lines_def Let_def by (rule common_lines_take)
  then have "take t (rev ?a) = take t (rev ?b)" using assms by (metis min.absorb1 take_take)
  then have "drop (length ?a - t) ?a = drop (length ?b - t) ?b" by (simp add: take_rev)
  moreover have "drop (length ?a - t) ?a = drop (length old - t) old"
    using assms T H by simp
  moreover have "drop (length ?b - t) ?b = drop (length fresh - t) fresh"
    using assms T H by simp
  ultimately show ?thesis by simp
qed

text \<open>
  The reported range covers everything that moved. Outside it the file's lines are the old
  file's, as a block from the front and a block from the back, and no range is reported exactly when
  the file did not change.
\<close>

theorem changed_span_covers:
  "(changed_span before after = [] \<longleftrightarrow> before = after)
   \<and> (case changed_span before after of
        [] \<Rightarrow> True
      | r # rs \<Rightarrow>
          rs = [] \<and> 1 \<le> lr_start r \<and> lr_start r \<le> lr_end r
          \<and> take (nat (lr_start r) - 1) (lines_of before) = take (nat (lr_start r) - 1) (lines_of after)
          \<and> (let keep = length (lines_of after) - nat (lr_end r)
             in drop (nat (lr_end r)) (lines_of after) = drop (length (lines_of before) - keep) (lines_of before)))"
proof -
  let ?o = "lines_of before" and ?f = "lines_of after"
  define h where "h = head_lines ?o ?f"
  define t where "t = tail_lines ?o ?f"
  have h: "take h ?o = take h ?f" "h \<le> length ?o" "h \<le> length ?f"
    using common_lines_take common_lines_le by (simp_all add: h_def head_lines_def)
  show ?thesis
  proof (cases "h = length ?o \<and> h = length ?f")
    case True
    then have "?o = ?f" using h(1) by simp
    then have "before = after" using unlines_def lines_of_def join_split_byte by metis
    then show ?thesis using True by (simp add: changed_span_def Let_def h_def)
  next
    case False
    define e where "e = max (int h + 1) (int (length ?f) - int t)"
    have cs: "changed_span before after = [\<lparr>lr_start = int h + 1, lr_end = e\<rparr>]"
      using False by (simp add: changed_span_def Let_def h_def t_def e_def)
    have ne: "before \<noteq> after"
    proof
      assume "before = after"
      moreover have "common_lines xs xs = length xs" for xs by (induction xs) auto
      ultimately show False using False by (simp add: h_def head_lines_def)
    qed
    have "length ?f - nat e \<le> t" by (simp add: e_def nat_le_iff)
    from tail_lines_drop [OF this [unfolded t_def]]
    have d: "drop (length ?o - (length ?f - nat e)) ?o = drop (length ?f - (length ?f - nat e)) ?f" .
    have "drop (nat e) ?f = drop (length ?f - (length ?f - nat e)) ?f"
      by (cases "nat e \<le> length ?f") auto
    then show ?thesis using ne h(1) d by (simp add: cs Let_def nat_add_distrib) (simp add: e_def)
  qed
qed

end
