(* ===== verification/EditSpans.thy ===== *)
theory EditSpans
  imports EditBatch
begin

text \<open>
  Edits addressed by position (\<open>internal/edit/spans.go\<close>): zero-based lines and UTF-16 columns, as a
  language server states them, turned into byte offsets and spliced in from the last to the first.
\<close>

section \<open>Positions\<close>

record span =
  sn_text :: string
  sn_line :: int
  sn_column :: int
  sn_end_line :: int
  sn_end_column :: int

datatype span_error =
    LineOutOfRange int nat
  | NegativeColumn
  | ColumnPast int nat
  | EndBeforeStart int
  | SpansOverlap int

text \<open>The loop over a line's runes: the byte offset, and the UTF-16 units before it.\<close>

fun byte_loop :: "int \<Rightarrow> nat \<Rightarrow> nat \<Rightarrow> (nat \<times> nat) list \<Rightarrow> span_error + nat" where
  "byte_loop column i units [] = (if int units < column then Inl (ColumnPast column units) else Inr i)"
| "byte_loop column i units ((r, sz) # rs) =
     (if column \<le> int units then Inr i else byte_loop column (i + sz) (units + utf16_units r) rs)"

definition byte_in_line :: "string \<Rightarrow> int \<Rightarrow> span_error + nat" where
  "byte_in_line line column =
     (if column < 0 then Inl NegativeColumn else byte_loop column 0 0 (runes line))"

fun source_length :: "string list \<Rightarrow> nat" where
  "source_length [] = 0"
| "source_length [l] = length l"
| "source_length (l # l' # ls) = length l + 1 + source_length (l' # ls)"

definition offset_of :: "string list \<Rightarrow> int \<Rightarrow> int \<Rightarrow> span_error + nat" where
  "offset_of ls line column =
     (if line = int (length ls) \<and> column = 0 then Inr (source_length ls)
      else if line < 0 \<or> int (length ls) \<le> line then Inl (LineOutOfRange (line + 1) (length ls))
      else
        (let offset = sum_list (map (\<lambda>l. length l + 1) (take (nat line) ls))
         in case byte_in_line (ls ! nat line) column of
              Inl e \<Rightarrow> Inl e
            | Inr within \<Rightarrow> Inr (offset + within)))"

section \<open>Applying spans\<close>

text \<open>A span placed in the text: its line, for the error, and what it replaces with what.\<close>

type_synonym placed = "int \<times> text_span"

definition place :: "string list \<Rightarrow> span \<Rightarrow> span_error + placed" where
  "place ls s =
     (case offset_of ls (sn_line s) (sn_column s) of
        Inl e \<Rightarrow> Inl e
      | Inr start \<Rightarrow>
          (case offset_of ls (sn_end_line s) (sn_end_column s) of
             Inl e \<Rightarrow> Inl e
           | Inr fin \<Rightarrow>
               if fin < start then Inl (EndBeforeStart (sn_line s + 1))
               else Inr (sn_line s, start, fin, sn_text s)))"

fun place_all :: "string list \<Rightarrow> span list \<Rightarrow> span_error + placed list" where
  "place_all ls [] = Inr []"
| "place_all ls (s # ss) =
     (case place ls s of
        Inl e \<Rightarrow> Inl e
      | Inr p \<Rightarrow> (case place_all ls ss of Inl e \<Rightarrow> Inl e | Inr ps \<Rightarrow> Inr (p # ps)))"

fun splice_loop :: "nat \<Rightarrow> string \<Rightarrow> placed list \<Rightarrow> span_error + string" where
  "splice_loop prev_start out [] = Inr out"
| "splice_loop prev_start out ((line, start, fin, repl) # ps) =
     (if prev_start < fin then Inl (SpansOverlap (line + 1))
      else splice_loop start (take start out @ repl @ drop fin out) ps)"

definition touched_lines :: "span list \<Rightarrow> nat" where
  "touched_lines spans = length (remdups (concat (map (\<lambda>s. [sn_line s .. sn_end_line s]) spans)))"

definition span_ranges :: "span list \<Rightarrow> line_range list" where
  "span_ranges spans =
     sort_key lr_start (map (\<lambda>s. \<lparr>lr_start = sn_line s + 1, lr_end = sn_end_line s + 1\<rparr>) spans)"

text \<open>
  The order is by falling start. As for a batch, up to twelve spans are sorted by insertion, which
  keeps spans of equal start in the order they were given.
\<close>

definition by_falling_start :: "placed list \<Rightarrow> placed list" where
  "by_falling_start ps = sort_key (\<lambda>p. - int (fst (snd p))) ps"

definition apply_spans :: "string \<Rightarrow> span list \<Rightarrow> span_error + string \<times> nat" where
  "apply_spans src spans =
     (case place_all (lines_of src) spans of
        Inl e \<Rightarrow> Inl e
      | Inr ps \<Rightarrow>
          (case splice_loop (length src + 1) src (by_falling_start ps) of
             Inl e \<Rightarrow> Inl e
           | Inr out \<Rightarrow> Inr (out, touched_lines spans)))"

datatype spans_file_error = SpansFile batch_error | BadSpan span_error

definition apply_spans_to_file ::
  "io \<Rightarrow> string \<Rightarrow> span list \<Rightarrow> file_system \<Rightarrow> file_system \<times> (spans_file_error + change)" where
  "apply_spans_to_file io path spans fs =
     (case read_target io fs path of
        Inl e \<Rightarrow> (fs, Inl (SpansFile e))
      | Inr f \<Rightarrow>
          (case apply_spans (fl_data f) spans of
             Inl e \<Rightarrow> (fs, Inl (BadSpan e))
           | Inr (out, touched) \<Rightarrow>
               (case write_atomic io path (fl_mode f) out fs of
                  None \<Rightarrow> (fs, Inl (SpansFile (WriteFailed path)))
                | Some fs' \<Rightarrow>
                    (fs', Inr \<lparr>ch_path = path, ch_added = touched, ch_removed = touched,
                               ch_ranges = span_ranges spans\<rparr>))))"

section \<open>Columns are UTF-16\<close>

definition utf16_length :: "nat list \<Rightarrow> nat" where
  "utf16_length rs = sum_list (map utf16_units rs)"

lemma utf16_units_pos: "0 < utf16_units r"
  by (simp add: utf16_units_def)

lemma byte_loop_at:
  "byte_loop (int (units + utf16_length xs)) i units (map (\<lambda>r. (r, length (encode_rune r))) xs @ rest)
     = Inr (i + length (encode_runes xs))"
proof (induction xs arbitrary: i units)
  case Nil
  then show ?case by (cases rest) (auto simp: utf16_length_def)
next
  case (Cons r xs)
  have "\<not> int (units + utf16_length (r # xs)) \<le> int units"
    using utf16_units_pos [of r] by (simp add: utf16_length_def)
  then show ?case using Cons [of "units + utf16_units r" "i + length (encode_rune r)"]
    by (simp add: utf16_length_def add.assoc)
qed

text \<open>
  C31: a column is counted in UTF-16 units. The column with \<open>xs\<close> before it is the byte offset at
  which the UTF-8 of \<open>xs\<close> ends, whatever follows on the line and whatever planes \<open>xs\<close> is in.
\<close>

theorem byte_in_line_utf16:
  assumes "list_all valid_rune xs"
  shows "byte_in_line (encode_runes xs @ rest) (int (utf16_length xs)) = Inr (length (encode_runes xs))"
  using byte_loop_at [of 0 xs 0 "runes rest"] runes_encode_append [OF assms, of rest]
  by (simp add: byte_in_line_def)

theorem byte_in_line_utf16_witness:
  "byte_in_line (encode_runes [0x1F600, 233] @ ''x'') 3 = Inr 6"
proof -
  have "list_all valid_rune [0x1F600, 233]" by (simp add: valid_rune_def)
  from byte_in_line_utf16 [OF this, of "''x''"] show ?thesis
    by (simp add: utf16_length_def utf16_units_def encode_rune_def encode_bytes_def valid_rune_def)
qed

section \<open>Offsets are in the text\<close>

lemma byte_loop_le: "byte_loop column i units rs = Inr k \<Longrightarrow> k \<le> i + sum_list (map snd rs)"
  by (induction column i units rs rule: byte_loop.induct) (auto split: if_splits)

lemma byte_in_line_le: "byte_in_line l column = Inr k \<Longrightarrow> k \<le> length l"
  using byte_loop_le [of column 0 0 "runes l" k] by (auto simp: byte_in_line_def runes_sizes split: if_splits)

lemma source_length_eq: "ls \<noteq> [] \<Longrightarrow> source_length ls + 1 = sum_list (map (\<lambda>l. length l + 1) ls)"
  by (induction ls rule: source_length.induct) auto

lemma source_length_unlines: "source_length ls = length (unlines ls)"
  by (induction ls rule: source_length.induct) (auto simp: unlines_def)

lemma offset_of_le:
  assumes "offset_of (lines_of src) line column = Inr k"
  shows "k \<le> length src"
proof -
  let ?ls = "lines_of src"
  have len: "source_length ?ls = length src" by (simp add: source_length_unlines)
  show ?thesis
  proof (cases "line = int (length ?ls) \<and> column = 0")
    case True
    then show ?thesis using assms len by (simp add: offset_of_def)
  next
    case False
    define i where "i = nat line"
    obtain within where w: "byte_in_line (?ls ! i) column = Inr within" "i < length ?ls"
      "k = sum_list (map (\<lambda>l. length l + 1) (take i ?ls)) + within"
      using assms False by (auto simp: offset_of_def Let_def i_def split: if_splits sum.splits)
    have "?ls = take i ?ls @ ?ls ! i # drop (Suc i) ?ls" using w(2) by (rule id_take_nth_drop)
    then have "sum_list (map (\<lambda>l. length l + 1) ?ls) =
        sum_list (map (\<lambda>l. length l + 1) (take i ?ls)) + (length (?ls ! i) + 1)
          + sum_list (map (\<lambda>l. length l + 1) (drop (Suc i) ?ls))"
      by (metis (no_types, lifting) ab_semigroup_add_class.add_ac(1) list.simps(9) map_append sum_list.Cons sum_list_append)
    then show ?thesis using byte_in_line_le [OF w(1)] w(3) source_length_eq [of ?ls] len by simp
  qed
qed

section \<open>Spans are applied at once\<close>

lemma splice_loop_fold: "splice_loop prev s ps = Inr out \<Longrightarrow> out = fold splice_text (map snd ps) s"
  by (induction prev s ps rule: splice_loop.induct) (auto simp: splice_text_def split: if_splits)

lemma splice_loop_ordered:
  "splice_loop prev s ps = Inr out \<Longrightarrow> (\<And>l a b x. (l, a, b, x) \<in> set ps \<Longrightarrow> a \<le> b) \<Longrightarrow>
     ordered_spans 0 prev (rev (map snd ps))"
proof (induction prev s ps rule: splice_loop.induct)
  case (2 prev s line start fin repl ps)
  then have "ordered_spans 0 start (rev (map snd ps))" "start \<le> fin" "fin \<le> prev"
    by (auto split: if_splits)
  then show ?case by (simp add: ordered_spans_snoc)
qed simp

lemma place_in_text:
  assumes "place (lines_of src) s = Inr (l, a, b, x)"
  shows "a \<le> b \<and> b \<le> length src"
  using assms by (auto simp: place_def split: sum.splits if_splits dest: offset_of_le)

lemma place_all_in_text:
  "place_all (lines_of src) spans = Inr ps \<Longrightarrow> (l, a, b, x) \<in> set ps \<Longrightarrow> a \<le> b \<and> b \<le> length src"
  by (induction spans arbitrary: ps) (auto split: sum.splits dest: place_in_text)

text \<open>
  C32: spans are replaced at once and never overlap. When applying them succeeds, every span was
  placed inside the text, in order of position they are disjoint, and the result is the text with
  each replaced, read from front to back.
\<close>

theorem apply_spans_simultaneous:
  assumes "apply_spans src spans = Inr (out, n)"
  shows "\<exists>ps. place_all (lines_of src) spans = Inr ps
     \<and> ordered_spans 0 (length src) (map snd (rev (by_falling_start ps)))
     \<and> out = splice_forward 0 (map snd (rev (by_falling_start ps))) src"
proof -
  obtain ps where ps: "place_all (lines_of src) spans = Inr ps"
    "splice_loop (length src + 1) src (by_falling_start ps) = Inr out"
    using assms by (auto simp: apply_spans_def split: sum.splits)
  let ?o = "by_falling_start ps"
  have inside: "a \<le> b \<and> b \<le> length src" if "(l, a, b, x) \<in> set ?o" for l a b x
    using place_all_in_text [OF ps(1)] that by (auto simp: by_falling_start_def)
  have o: "ordered_spans 0 (length src + 1) (rev (map snd ?o))"
    by (rule splice_loop_ordered [OF ps(2)]) (use inside in blast)
  have "ordered_spans 0 (length src) (rev (map snd ?o))"
  proof (cases ?o)
    case (Cons p rest)
    then show ?thesis using o inside [of "fst p" "fst (snd p)" "fst (snd (snd p))" "snd (snd (snd p))"]
      by (cases p) (auto simp: ordered_spans_snoc)
  qed simp
  moreover have "out = foldr splice_text (rev (map snd ?o)) src"
    using splice_loop_fold [OF ps(2)] by (simp add: foldr_conv_fold)
  ultimately show ?thesis using foldr_splice_forward [of 0 src "rev (map snd ?o)"] ps(1)
    by (intro exI [of _ ps]) (simp add: rev_map)
qed

definition span_at :: "string \<Rightarrow> int \<Rightarrow> int \<Rightarrow> int \<Rightarrow> span" where
  "span_at s line from to =
     \<lparr>sn_text = s, sn_line = line, sn_column = from, sn_end_line = line, sn_end_column = to\<rparr>"

theorem apply_spans_simultaneous_witness:
  "\<exists>ps. apply_spans (''old'' @ [nl] @ ''old'') [span_at ''new'' 0 0 3, span_at ''x'' 1 1 2] = Inr (''new'' @ [nl] @ ''oxd'', 2)
     \<and> ''new'' @ [nl] @ ''oxd'' = splice_forward 0 (map snd (rev (by_falling_start ps))) (''old'' @ [nl] @ ''old'')"
proof -
  have "apply_spans (''old'' @ [nl] @ ''old'') [span_at ''new'' 0 0 3, span_at ''x'' 1 1 2] = Inr (''new'' @ [nl] @ ''oxd'', 2)"
    by code_simp
  with apply_spans_simultaneous [OF this] show ?thesis by blast
qed

text \<open>
  Insertions at one position come out in reverse. Two insertions a server gives in the order X,
  Y at one place leave Y before X, and an insertion followed by a replacement that starts there is
  refused as overlapping, though the same two in the other order are applied.
\<close>

theorem insertions_reversed:
  "apply_spans ''ab'' [span_at ''X'' 0 1 1, span_at ''Y'' 0 1 1] = Inr (''aYXb'', 1)
   \<and> apply_spans ''ab'' [span_at ''X'' 0 0 0, span_at ''Z'' 0 0 1] = Inl (SpansOverlap 1)
   \<and> apply_spans ''ab'' [span_at ''Z'' 0 0 1, span_at ''X'' 0 0 0] = Inr (''XZb'', 1)"
  by (intro conjI) code_simp+

end
