(* ===== verification/Effects.thy ===== *)
theory Effects
  imports Prelude
begin

text \<open>
  Sequential code that calls out: a program takes a state, which holds the code's own variables and
  the outside world, and either goes on with a value or leaves early with a result, as a Go function
  does at a \<open>return\<close> inside a nested call. The rules of this theory prove what a program keeps
  (\<open>keeps\<close>, a relation between the state it starts from and the one it ends in) and what holds
  after it (\<open>triple\<close>), one construct at a time.
\<close>

named_theorems prog_simps \<open>evaluation of the program constructs\<close>

datatype ('a, 'x) res = Go 'a | Leave 'x

type_synonym ('s, 'a, 'x) prog = "'s \<Rightarrow> ('a, 'x) res \<times> 's"

definition give :: "'a \<Rightarrow> ('s, 'a, 'x) prog" where
  "give a s = (Go a, s)"

definition leave :: "'x \<Rightarrow> ('s, 'a, 'x) prog" where
  "leave x s = (Leave x, s)"

definition look :: "('s \<Rightarrow> 'a) \<Rightarrow> ('s, 'a, 'x) prog" where
  "look f s = (Go (f s), s)"

definition change :: "('s \<Rightarrow> 's) \<Rightarrow> ('s, unit, 'x) prog" where
  "change f s = (Go (), f s)"

definition seq :: "('s, 'a, 'x) prog \<Rightarrow> ('a \<Rightarrow> ('s, 'b, 'x) prog) \<Rightarrow> ('s, 'b, 'x) prog" where
  "seq m f s = (case m s of (Go a, t) \<Rightarrow> f a t | (Leave x, t) \<Rightarrow> (Leave x, t))"

definition andthen :: "('s, unit, 'x) prog \<Rightarrow> ('s, 'b, 'x) prog \<Rightarrow> ('s, 'b, 'x) prog" where
  "andthen m k = seq m (\<lambda>_. k)"

definition provided :: "bool \<Rightarrow> ('s, unit, 'x) prog \<Rightarrow> ('s, unit, 'x) prog" where
  "provided b m = (if b then m else give ())"

text \<open>A call whose early return is read as a value rather than passed on.\<close>

definition attempt :: "('s, 'a, 'x) prog \<Rightarrow> ('s, 'x + 'a, 'x) prog" where
  "attempt m s = (case m s of (Go a, t) \<Rightarrow> (Go (Inr a), t) | (Leave x, t) \<Rightarrow> (Go (Inl x), t))"

fun for_each :: "'a list \<Rightarrow> ('a \<Rightarrow> ('s, unit, 'x) prog) \<Rightarrow> ('s, unit, 'x) prog" where
  "for_each [] f = give ()"
| "for_each (x # xs) f = andthen (f x) (for_each xs f)"

lemma prog_eval [prog_simps]:
  "give a s = (Go a, s)" "leave x s = (Leave x, s)" "look g s = (Go (g s), s)"
  "change h s = (Go (), h s)"
  by (simp_all add: give_def leave_def look_def change_def)

lemma seq_assoc: "seq (seq m f) g = seq m (\<lambda>a. seq (f a) g)"
  by (auto simp: fun_eq_iff seq_def prog_simps split: prod.splits res.splits)

lemma seq_give [simp]: "seq (give a) f = f a" "seq m give = m"
  by (auto simp: fun_eq_iff seq_def prog_simps split: prod.splits res.splits)

section \<open>What a program keeps\<close>

text \<open>
  \<open>keeps R E m\<close>: the state \<open>m\<close> ends in is related to the one it starts from, and when it leaves early
  the result it leaves with fits the state it leaves in.
\<close>

definition keeps :: "('s \<Rightarrow> 's \<Rightarrow> bool) \<Rightarrow> ('x \<Rightarrow> 's \<Rightarrow> bool) \<Rightarrow> ('s, 'a, 'x) prog \<Rightarrow> bool" where
  "keeps R E m \<longleftrightarrow> (\<forall>s. case m s of (Go a, t) \<Rightarrow> R s t | (Leave x, t) \<Rightarrow> R s t \<and> E x t)"

lemma keepsI:
  "(\<And>s a t. m s = (Go a, t) \<Longrightarrow> R s t) \<Longrightarrow> (\<And>s x t. m s = (Leave x, t) \<Longrightarrow> R s t \<and> E x t) \<Longrightarrow> keeps R E m"
  unfolding keeps_def by (auto split: prod.splits res.splits)

lemma keeps_end: "keeps R E m \<Longrightarrow> m s = (r, t) \<Longrightarrow> R s t"
  unfolding keeps_def by (drule spec [of _ s]) (auto split: res.splits)

lemma keeps_leaves: "keeps R E m \<Longrightarrow> m s = (Leave x, t) \<Longrightarrow> E x t"
  unfolding keeps_def by (drule spec [of _ s]) auto

text \<open>
  The interface of a relation that sequential composition keeps: a preorder on states. Each of the
  relations the agent's run keeps (its history only grows, its counters only rise) is one.
\<close>

locale kept =
  fixes R :: "'s \<Rightarrow> 's \<Rightarrow> bool"
    and E :: "'x \<Rightarrow> 's \<Rightarrow> bool"
  assumes kept_refl: "R s s"
    and kept_trans: "R s t \<Longrightarrow> R t u \<Longrightarrow> R s u"
begin

lemma keeps_give [intro]: "keeps R E (give a)"
  and keeps_look [intro]: "keeps R E (look f)"
  by (simp_all add: keeps_def prog_simps kept_refl)

lemma keeps_leave: "(\<And>s. E x s) \<Longrightarrow> keeps R E (leave x)"
  by (simp add: keeps_def prog_simps kept_refl)

lemma keeps_change: "(\<And>s. R s (h s)) \<Longrightarrow> keeps R E (change h)"
  by (simp add: keeps_def prog_simps)

lemma keeps_seq [intro]:
  assumes "keeps R E m" "\<And>a. keeps R E (f a)"
  shows "keeps R E (seq m f)"
proof (rule keepsI)
  fix s a t
  assume "seq m f s = (Go a, t)"
  then obtain b u where "m s = (Go b, u)" "f b u = (Go a, t)"
    by (auto simp: seq_def split: prod.splits res.splits)
  with assms show "R s t" by (meson kept_trans keeps_end)
next
  fix s x t
  assume "seq m f s = (Leave x, t)"
  then consider b u where "m s = (Go b, u)" "f b u = (Leave x, t)" | "m s = (Leave x, t)"
    by (auto simp: seq_def split: prod.splits res.splits)
  then show "R s t \<and> E x t"
  proof cases
    case 1
    then show ?thesis
      using kept_trans [OF keeps_end [OF assms(1)] keeps_end [OF assms(2)]] keeps_leaves [OF assms(2)] by simp
  next
    case 2
    then show ?thesis using keeps_end [OF assms(1)] keeps_leaves [OF assms(1)] by simp
  qed
qed

lemma keeps_andthen [intro]: "keeps R E m \<Longrightarrow> keeps R E k \<Longrightarrow> keeps R E (andthen m k)"
  unfolding andthen_def by (rule keeps_seq)

lemma keeps_provided [intro]: "keeps R E m \<Longrightarrow> keeps R E (provided b m)"
  by (simp add: provided_def keeps_give)

lemma keeps_attempt [intro]: "keeps R E' m \<Longrightarrow> keeps R E (attempt m)"
  by (rule keepsI) (auto simp: attempt_def dest: keeps_end split: prod.splits res.splits)

lemma keeps_for_each [intro]: "(\<And>x. keeps R E (f x)) \<Longrightarrow> keeps R E (for_each xs f)"
  by (induction xs) (auto intro: keeps_andthen keeps_give)

lemma keeps_if [intro]: "(b \<Longrightarrow> keeps R E m) \<Longrightarrow> (\<not> b \<Longrightarrow> keeps R E k) \<Longrightarrow> keeps R E (if b then m else k)"
  by simp

lemma keeps_option [intro]:
  "keeps R E m \<Longrightarrow> (\<And>x. keeps R E (k x)) \<Longrightarrow> keeps R E (case y of None \<Rightarrow> m | Some x \<Rightarrow> k x)"
  by (cases y) simp_all

lemma keeps_sum [intro]:
  "(\<And>x. keeps R E (m x)) \<Longrightarrow> (\<And>x. keeps R E (k x)) \<Longrightarrow> keeps R E (case y of Inl x \<Rightarrow> m x | Inr x \<Rightarrow> k x)"
  by (cases y) simp_all

lemma keeps_prod [intro]: "(\<And>x y. keeps R E (m x y)) \<Longrightarrow> keeps R E (case p of (x, y) \<Rightarrow> m x y)"
  by (cases p) simp

end

section \<open>What holds after a program\<close>

definition triple ::
  "('s \<Rightarrow> bool) \<Rightarrow> ('s, 'a, 'x) prog \<Rightarrow> ('a \<Rightarrow> 's \<Rightarrow> bool) \<Rightarrow> ('x \<Rightarrow> 's \<Rightarrow> bool) \<Rightarrow> bool" where
  "triple P m Q E \<longleftrightarrow>
     (\<forall>s. P s \<longrightarrow> (case m s of (Go a, t) \<Rightarrow> Q a t | (Leave x, t) \<Rightarrow> E x t))"

lemma triple_Go: "triple P m Q E \<Longrightarrow> P s \<Longrightarrow> m s = (Go a, t) \<Longrightarrow> Q a t"
  and triple_Leave: "triple P m Q E \<Longrightarrow> P s \<Longrightarrow> m s = (Leave x, t) \<Longrightarrow> E x t"
  unfolding triple_def by fastforce+

lemma triple_pre: "triple P m Q E \<Longrightarrow> (\<And>s. P' s \<Longrightarrow> P s) \<Longrightarrow> triple P' m Q E"
  by (simp add: triple_def)

lemma triple_post:
  "triple P m Q E \<Longrightarrow> (\<And>a s. Q a s \<Longrightarrow> Q' a s) \<Longrightarrow> (\<And>x s. E x s \<Longrightarrow> E' x s) \<Longrightarrow> triple P m Q' E'"
  unfolding triple_def by (fastforce split: prod.splits res.splits)

lemma triple_give: "(\<And>s. P s \<Longrightarrow> Q a s) \<Longrightarrow> triple P (give a) Q E"
  by (simp add: triple_def prog_simps)

lemma triple_leave: "(\<And>s. P s \<Longrightarrow> E x s) \<Longrightarrow> triple P (leave x) Q E"
  by (simp add: triple_def prog_simps)

lemma triple_look: "(\<And>s. P s \<Longrightarrow> Q (f s) s) \<Longrightarrow> triple P (look f) Q E"
  by (simp add: triple_def prog_simps)

lemma triple_change: "(\<And>s. P s \<Longrightarrow> Q () (h s)) \<Longrightarrow> triple P (change h) Q E"
  by (simp add: triple_def prog_simps)

lemma triple_seq:
  assumes "triple P m Q E" "\<And>a. triple (Q a) (f a) Q' E"
  shows "triple P (seq m f) Q' E"
proof -
  have "case seq m f s of (Go a, t) \<Rightarrow> Q' a t | (Leave x, t) \<Rightarrow> E x t" if "P s" for s
  proof (cases "m s")
    case (Pair r t)
    show ?thesis
    proof (cases r)
      case (Go a)
      then have "Q a t" using triple_Go [OF assms(1) \<open>P s\<close>] Pair by simp
      with assms(2) [of a] show ?thesis using Pair Go by (simp add: triple_def seq_def)
    next
      case (Leave x)
      then have "E x t" using triple_Leave [OF assms(1) \<open>P s\<close>] Pair by simp
      then show ?thesis using Pair Leave by (simp add: seq_def)
    qed
  qed
  then show ?thesis by (simp add: triple_def)
qed

lemma triple_andthen:
  "triple P m (\<lambda>_. Q) E \<Longrightarrow> triple Q k Q' E \<Longrightarrow> triple P (andthen m k) Q' E"
  unfolding andthen_def by (rule triple_seq)

lemma triple_if:
  "(b \<Longrightarrow> triple P m Q E) \<Longrightarrow> (\<not> b \<Longrightarrow> triple P k Q E) \<Longrightarrow> triple P (if b then m else k) Q E"
  by simp

lemma triple_provided:
  "(b \<Longrightarrow> triple P m Q E) \<Longrightarrow> (\<And>s. \<not> b \<Longrightarrow> P s \<Longrightarrow> Q () s) \<Longrightarrow> triple P (provided b m) Q E"
  by (auto simp: provided_def intro: triple_give)

lemma triple_option:
  "(y = None \<Longrightarrow> triple P m Q E) \<Longrightarrow> (\<And>x. y = Some x \<Longrightarrow> triple P (k x) Q E) \<Longrightarrow>
     triple P (case y of None \<Rightarrow> m | Some x \<Rightarrow> k x) Q E"
  by (cases y) simp_all

section \<open>Programs that always leave\<close>

definition never_goes :: "('s, 'a, 'x) prog \<Rightarrow> bool" where
  "never_goes m \<longleftrightarrow> (\<forall>s a t. m s \<noteq> (Go a, t))"

lemma never_goesD: "never_goes m \<Longrightarrow> m s = (r, t) \<Longrightarrow> \<exists>x. r = Leave x"
  by (cases r) (auto simp: never_goes_def)

lemma never_goes_leave: "never_goes (leave x)"
  by (simp add: never_goes_def prog_simps)

lemma never_goes_seq: "(\<And>a. never_goes (f a)) \<Longrightarrow> never_goes (seq m f)"
  by (auto simp: never_goes_def seq_def split: prod.splits res.splits)

lemma never_goes_andthen: "never_goes k \<Longrightarrow> never_goes (andthen m k)"
  unfolding andthen_def by (rule never_goes_seq)

end
