(* ===== verification/Router.thy ===== *)
theory Router
  imports GoStrings
begin

text \<open>
  Model of \<open>internal/router\<close>: which of the three model tiers serves a turn. A tier is the Go type
  \<open>Choice\<close>; the empty string, which means that nothing is pinned, is \<open>NoChoice\<close>, and text that
  names no tier is \<open>Unknown\<close>.
\<close>

datatype choice = NoChoice | Fast | Balanced | Deep | Unknown string

definition choice_text :: "choice \<Rightarrow> string" where
  "choice_text c =
     (case c of NoChoice \<Rightarrow> [] | Fast \<Rightarrow> ''fast'' | Balanced \<Rightarrow> ''balanced'' | Deep \<Rightarrow> ''deep''
      | Unknown t \<Rightarrow> t)"

definition default_choice :: choice where
  "default_choice = Balanced"

definition order :: "choice list" where
  "order = [Fast, Balanced, Deep]"

definition valid_choice :: "choice \<Rightarrow> bool" where
  "valid_choice c \<longleftrightarrow> c = Fast \<or> c = Balanced \<or> c = Deep"

definition fast_context_budget :: int where
  "fast_context_budget = 8192"

definition reply_reserve :: int where
  "reply_reserve = 1024"

definition hosted_context_budget :: int where
  "hosted_context_budget = 128000"

record input =
  in_override :: choice
  in_window :: int
  in_estimated :: int
  in_prior_failures :: nat

record decision =
  dc_choice :: choice
  dc_reason :: string

definition fast_budget :: "int \<Rightarrow> int" where
  "fast_budget window =
     (let w = (if window \<le> 0 then fast_context_budget else window) in max (w - reply_reserve) 0)"

text \<open>The loop over \<open>order\<close>: the position of the tier, then \<open>steps\<close> further, stopping at the last.\<close>

definition escalate_choice :: "choice \<Rightarrow> nat \<Rightarrow> choice" where
  "escalate_choice c steps =
     (case find_index (\<lambda>t. t = c) order of
        Some i \<Rightarrow> order ! min (i + steps) (length order - 1)
      | None \<Rightarrow> c)"

definition route_base :: "input \<Rightarrow> choice \<times> string" where
  "route_base inp =
     (let (base, reason) = (if in_override inp \<noteq> NoChoice then (in_override inp, ''explicit override'')
                            else (default_choice, ''default tier''))
      in if base = Fast \<and> in_estimated inp > fast_budget (in_window inp)
         then (Balanced, ''over the fast tier's context budget'') else (base, reason))"

definition route :: "input \<Rightarrow> decision" where
  "route inp =
     (let (base, reason) = route_base inp in
      if in_prior_failures inp > 0 then
        let up = escalate_choice base (in_prior_failures inp) in
        if up \<noteq> base
        then \<lparr>dc_choice = up, dc_reason = ''escalated past '' @ choice_text base @ '' after a failure''\<rparr>
        else \<lparr>dc_choice = base, dc_reason = ''no tier above '' @ choice_text base\<rparr>
      else \<lparr>dc_choice = base, dc_reason = reason\<rparr>)"

definition context_budget :: "choice \<Rightarrow> int \<Rightarrow> int" where
  "context_budget c fast_window =
     (if c = Fast then (if fast_window > 0 then fast_window else fast_context_budget)
      else hosted_context_budget)"

record 'a tiers =
  t_fast :: 'a
  t_balanced :: 'a
  t_deep :: 'a

definition tier_for :: "'a tiers \<Rightarrow> decision \<Rightarrow> 'a" where
  "tier_for t d =
     (case dc_choice d of Fast \<Rightarrow> t_fast t | Deep \<Rightarrow> t_deep t | Balanced \<Rightarrow> t_balanced t
      | _ \<Rightarrow> t_balanced t)"

section \<open>Tiers are ordered, and failures climb\<close>

definition rank :: "choice \<Rightarrow> nat" where
  "rank c = (case c of Fast \<Rightarrow> 0 | Balanced \<Rightarrow> 1 | Deep \<Rightarrow> 2 | _ \<Rightarrow> 1)"

lemma escalate_choice_simps [simp]:
  "escalate_choice Fast n = (if n = 0 then Fast else if n = 1 then Balanced else Deep)"
  "escalate_choice Balanced n = (if n = 0 then Balanced else Deep)"
  "escalate_choice Deep n = Deep"
  "escalate_choice NoChoice n = NoChoice"
  "escalate_choice (Unknown t) n = Unknown t"
  by (auto simp: escalate_choice_def order_def nth_Cons' min_def)

lemma route_choice:
  "dc_choice (route inp) = escalate_choice (fst (route_base inp)) (in_prior_failures inp)"
proof (cases "route_base inp")
  case (Pair base reason)
  show ?thesis
    by (cases base) (simp_all add: route_def Pair Let_def)
qed

lemma route_base_valid:
  "in_override inp = NoChoice \<or> valid_choice (in_override inp) \<Longrightarrow> valid_choice (fst (route_base inp))"
  by (auto simp: route_base_def valid_choice_def default_choice_def Let_def)

lemma rank_escalate:
  "valid_choice c \<Longrightarrow> rank (escalate_choice c n) = min (rank c + n) 2 \<and> valid_choice (escalate_choice c n)"
  by (auto simp: valid_choice_def rank_def split: if_splits)

lemma rank_route:
  assumes "in_override inp = NoChoice \<or> valid_choice (in_override inp)"
  shows "rank (dc_choice (route inp)) = min (rank (fst (route_base inp)) + in_prior_failures inp) 2"
    and "valid_choice (dc_choice (route inp))"
  using rank_escalate [OF route_base_valid [OF assms]] by (simp_all add: route_choice)

lemma deep_iff_rank: "valid_choice c \<Longrightarrow> c = Deep \<longleftrightarrow> rank c = 2"
  by (auto simp: valid_choice_def rank_def)

text \<open>
  The router's comments promise that a failing tier is never retried on itself. That holds while the
  request's size does not change: with one more failure the next turn is on a strictly higher tier,
  unless it was already the top one. It does not hold when the request that failed was over the fast
  tier's budget and the next one, compacted, is under it; and a pin that names no tier is retried for
  ever.
\<close>

lemma failure_climbs:
  assumes "in_override inp = NoChoice \<or> valid_choice (in_override inp)"
    and "dc_choice (route inp) \<noteq> Deep"
  shows "rank (dc_choice (route (inp\<lparr>in_prior_failures := Suc (in_prior_failures inp)\<rparr>)))
       = Suc (rank (dc_choice (route inp)))"
proof -
  have b: "route_base (inp\<lparr>in_prior_failures := n\<rparr>) = route_base inp" for n
    by (simp add: route_base_def)
  have "rank (dc_choice (route inp)) < 2"
    using assms deep_iff_rank [of "dc_choice (route inp)"] rank_route [OF assms(1)]
    by (auto simp: min_def split: if_splits)
  then show ?thesis
    using rank_route(1) [OF assms(1)]
      rank_route(1) [of "inp\<lparr>in_prior_failures := Suc (in_prior_failures inp)\<rparr>"] assms(1)
    by (simp add: b)
qed

text \<open>
  One more failure moves the turn exactly one tier up when the request stays as large; a request that
  shrank below the fast budget is sent to the tier that just failed, and an unknown pin is.
\<close>

theorem route_failure:
  "(if rank (dc_choice (route inp)) < 2 \<and> (in_override inp = NoChoice \<or> valid_choice (in_override inp))
    then rank (dc_choice (route (inp\<lparr>in_prior_failures := Suc (in_prior_failures inp)\<rparr>)))
         = Suc (rank (dc_choice (route inp)))
    else dc_choice (route (inp\<lparr>in_prior_failures := Suc (in_prior_failures inp)\<rparr>)) = dc_choice (route inp))
   \<and> dc_choice (route \<lparr>in_override = Fast, in_window = 0, in_estimated = 9000, in_prior_failures = 0\<rparr>)
     = dc_choice (route \<lparr>in_override = Fast, in_window = 0, in_estimated = 100, in_prior_failures = 1\<rparr>)"
proof
  let ?up = "inp\<lparr>in_prior_failures := Suc (in_prior_failures inp)\<rparr>"
  have b: "route_base ?up = route_base inp" by (simp add: route_base_def)
  show "if rank (dc_choice (route inp)) < 2 \<and> (in_override inp = NoChoice \<or> valid_choice (in_override inp))
    then rank (dc_choice (route ?up)) = Suc (rank (dc_choice (route inp)))
    else dc_choice (route ?up) = dc_choice (route inp)"
  proof (cases "in_override inp = NoChoice \<or> valid_choice (in_override inp)")
    case True
    note v = rank_route(2) [OF True]
    show ?thesis
    proof (cases "dc_choice (route inp) = Deep")
      case False
      with failure_climbs [OF True False] deep_iff_rank [OF v] rank_route(1) [OF True] True
      show ?thesis by (auto simp: min_def split: if_splits)
    next
      case deep: True
      then have "dc_choice (route ?up) = Deep"
        using deep_iff_rank [OF v] rank_route [of ?up] rank_route(1) [OF True] True
          deep_iff_rank [of "dc_choice (route ?up)"] by (auto simp: b min_def split: if_splits)
      with deep show ?thesis by (simp add: rank_def)
    qed
  next
    case False
    then obtain t where "in_override inp = Unknown t"
      by (cases "in_override inp") (auto simp: valid_choice_def)
    then show ?thesis
      by (simp add: route_choice b) (simp add: route_base_def valid_choice_def Let_def)
  qed
  show "dc_choice (route \<lparr>in_override = Fast, in_window = 0, in_estimated = 9000, in_prior_failures = 0\<rparr>)
     = dc_choice (route \<lparr>in_override = Fast, in_window = 0, in_estimated = 100, in_prior_failures = 1\<rparr>)"
    by code_simp
qed

end
