(* ===== verification/AgentTypes.thy ===== *)
theory AgentTypes
  imports Complex_Main GoStrings
begin

text \<open>
  The data the agent's loop handles: messages and calls (\<open>internal/llm\<close>), tool results and changes
  (\<open>internal/tool\<close>), permission requests (\<open>internal/permission\<close>), the events a thread logs
  (\<open>internal/event\<close>), and verdicts (\<open>internal/condition\<close>). Raw JSON is the text it is; floats are
  rationals; the event's time and sequence number belong to the log.
\<close>

section \<open>Messages\<close>

datatype role = RoleSystem | RoleUser | RoleAssistant | RoleTool

record tool_call =
  tc_id :: string
  tc_name :: string
  tc_input :: string

record message =
  ms_role :: role
  ms_content :: string
  ms_calls :: "tool_call list"
  ms_call_id :: string
  ms_error :: bool

record tool_spec =
  ts_name :: string
  ts_description :: string
  ts_schema :: string

record usage =
  us_input :: int
  us_output :: int
  us_cache_read :: int
  us_reasoning :: int

datatype stop_reason = StopEndTurn | StopToolUse | StopMaxTokens | StopUnset

datatype chunk = ChunkText string | ChunkToolCall "tool_call option" | ChunkDone "usage option" stop_reason

record request =
  rq_thinking :: "bool option"
  rq_model :: string
  rq_system :: string
  rq_messages :: "message list"
  rq_tools :: "tool_spec list"
  rq_presence :: rat
  rq_repeat :: rat

record turn_message =
  tm_message :: message
  tm_turn :: int

definition user_message :: "string \<Rightarrow> message" where
  "user_message text = \<lparr>ms_role = RoleUser, ms_content = text, ms_calls = [], ms_call_id = [], ms_error = False\<rparr>"

section \<open>Tools\<close>

datatype cause =
    CauseUnspecified | CauseNoMatch | CauseAmbiguous | CauseBadInput | CauseRefused | CauseConflict
  | CauseIO | CauseUpstream | CauseMalformed | CauseRepeat

definition cause_text :: "cause \<Rightarrow> string" where
  "cause_text c =
     (case c of CauseUnspecified \<Rightarrow> [] | CauseNoMatch \<Rightarrow> ''no_match'' | CauseAmbiguous \<Rightarrow> ''ambiguous''
      | CauseBadInput \<Rightarrow> ''bad_input'' | CauseRefused \<Rightarrow> ''refused'' | CauseConflict \<Rightarrow> ''conflict''
      | CauseIO \<Rightarrow> ''io'' | CauseUpstream \<Rightarrow> ''upstream'' | CauseMalformed \<Rightarrow> ''malformed''
      | CauseRepeat \<Rightarrow> ''repeat'')"

datatype risk = RiskRead | RiskEgress | RiskWriteLocal | RiskExec | RiskExternal

record change_t =
  cg_path :: string
  cg_writer :: string
  cg_ranges :: "(int \<times> int) list"
  cg_added :: int
  cg_removed :: int

record tool_result =
  tr_content :: string
  tr_cause :: cause
  tr_changes :: "change_t list"
  tr_error :: bool

definition tool_fail :: "cause \<Rightarrow> string \<Rightarrow> tool_result" where
  "tool_fail c text = \<lparr>tr_content = text, tr_cause = c, tr_changes = [], tr_error = True\<rparr>"

section \<open>Permission\<close>

datatype answer = Allow | Deny | AllowAlways | OtherAnswer string

record perm_request =
  pr_thread :: string
  pr_tool :: string
  pr_action :: string
  pr_detail :: string
  pr_reason :: string
  pr_key :: string
  pr_paths :: "string list"

section \<open>Events\<close>

datatype kind =
    KindUser | KindAgent | KindTool | KindGate | KindPermission | KindState | KindError | KindLedger
  | KindUsage | KindCycle | KindHypothesis | KindGoal | KindFinish | KindArchive | KindReview

datatype event_role = RoleNone | RoleAnswer | RoleNote

datatype lifecycle =
    StateNone | StateIdle | StateWorking | StateGating | StateNeedsIn | StateBlocked | StateFailed | StateDone

datatype detail =
    DBool bool | DInt int | DText string | DTexts "string list" | DUsage usage
  | DPairs "(string \<times> string) list" | DSavings "(string \<times> int \<times> int) list"
  | DNumber rat | DObject "(string \<times> detail) list"

record event =
  ev_kind :: kind
  ev_text :: string
  ev_tool :: string
  ev_state :: lifecycle
  ev_role :: event_role
  ev_changes :: "change_t list"
  ev_detail :: "(string \<times> detail) list"

text \<open>
  A field of an event read back from its file: numbers have become \<open>float64\<close>, structures maps. (Lists stay,
  nothing reads them again.)
\<close>

fun reread :: "detail \<Rightarrow> detail" where
  "reread (DInt i) = DNumber (of_int i)"
| "reread (DUsage u) =
     DObject ([(''input_tokens'', DNumber (of_int (us_input u))), (''output_tokens'', DNumber (of_int (us_output u))),
               (''cache_read_tokens'', DNumber (of_int (us_cache_read u)))]
              @ (if us_reasoning u = 0 then [] else [(''reasoning_bytes'', DNumber (of_int (us_reasoning u)))]))"
| "reread (DPairs ps) = DObject (map (\<lambda>(k, v). (k, DText v)) ps)"
| "reread d = d"

definition reread_event :: "event \<Rightarrow> event" where
  "reread_event ev = ev\<lparr>ev_detail := map (\<lambda>(k, d). (k, reread d)) (ev_detail ev)\<rparr>"

text \<open>What a log gives back when it is asked for everything: the ring while it holds all of it, else the file.\<close>

definition logged_events :: "event list \<Rightarrow> event list" where
  "logged_events evs = (if int (length evs) \<le> 4096 then evs else map reread_event evs)"

definition plain_event :: "kind \<Rightarrow> string \<Rightarrow> (string \<times> detail) list \<Rightarrow> event" where
  "plain_event k text d =
     \<lparr>ev_kind = k, ev_text = text, ev_tool = [], ev_state = StateNone, ev_role = RoleNone,
      ev_changes = [], ev_detail = d\<rparr>"

section \<open>Verdicts\<close>

record verdict =
  vd_condition :: string
  vd_reason :: string
  vd_holds :: bool

definition met :: "string \<Rightarrow> string \<Rightarrow> verdict" where
  "met name reason = \<lparr>vd_condition = name, vd_reason = reason, vd_holds = True\<rparr>"

definition unmet :: "string \<Rightarrow> string \<Rightarrow> verdict" where
  "unmet name reason = \<lparr>vd_condition = name, vd_reason = reason, vd_holds = False\<rparr>"

end
