(* ===== verification/AgentText.thy ===== *)
theory AgentText
  imports AgentTypes GoUtf8
begin

text \<open>
  Model of \<open>internal/agent/talkednotacted.go\<close> and \<open>toolcalltext.go\<close>: what the loop reads off a
  turn's prose. Case folding is that of ASCII; whether a rune outside ASCII is a letter is the
  table \<open>letter\<close>.
\<close>

section \<open>Lines\<close>

fun first_line_of :: "string list \<Rightarrow> string" where
  "first_line_of [] = []"
| "first_line_of (l # ls) = (if trim_space l \<noteq> [] then trim_space l else first_line_of ls)"

definition first_non_empty_line :: "string \<Rightarrow> string" where
  "first_non_empty_line text = first_line_of (split_byte nl text)"

definition last_non_empty_line :: "string \<Rightarrow> string" where
  "last_non_empty_line text = first_line_of (rev (split_byte nl text))"

section \<open>Turns that talk instead of acting\<close>

definition offer_phrases :: "string list" where
  "offer_phrases = [''would you like'', ''do you want'', ''shall i'', ''should i'', ''want me to'',
     ''do you need'', ''let me know if'']"

definition announce_prefixes :: "string list" where
  "announce_prefixes = [''i'' @ [squote] @ ''ll '', ''i will '', ''let me '', ''now i'' @ [squote] @ ''ll '',
     ''next, i'', ''let'' @ [squote] @ ''s '', ''trying again'', ''retrying'']"

definition retry_phrases :: "string list" where
  "retry_phrases = [''let me try'', ''try again'']"

definition looks_like_question_to_user :: "string \<Rightarrow> bool" where
  "looks_like_question_to_user text =
     (let line = to_lower (last_non_empty_line text)
      in has_suffix line ''?'' \<and> list_ex (contains line) offer_phrases)"

definition looks_like_announced_action :: "string \<Rightarrow> bool" where
  "looks_like_announced_action text =
     (let line = to_lower (last_non_empty_line text)
      in \<not> has_suffix line ''?''
         \<and> (list_ex (has_prefix line) announce_prefixes \<or> list_ex (contains line) retry_phrases))"

section \<open>Tasks that ask for a change\<close>

definition edit_verbs :: "string list" where
  "edit_verbs = GoStrings.fields (''add append bump change convert create delete drop edit extract fix implement '' @
     ''insert introduce migrate move refactor remove rename replace rewrite split update upgrade write'')"

definition question_words :: "string list" where
  "question_words = GoStrings.fields (''are can could describe do does explain how is list should show summarize '' @
     ''tell what when where which who why would'')"

definition ascii_letter :: "nat \<Rightarrow> bool" where
  "ascii_letter r = (65 \<le> r \<and> r \<le> 90 \<or> 97 \<le> r \<and> r \<le> 122)"

text \<open>\<open>unicode.IsLetter\<close> or an apostrophe.\<close>

definition word_rune :: "(nat \<Rightarrow> bool) \<Rightarrow> nat \<Rightarrow> bool" where
  "word_rune letter r = (if r < 128 then ascii_letter r \<or> r = 39 else letter r)"

text \<open>\<open>strings.FieldsFunc\<close>: the maximal runs of word runes, as the bytes they are.\<close>

fun words_of :: "(nat \<Rightarrow> bool) \<Rightarrow> string \<Rightarrow> (nat \<times> nat) list \<Rightarrow> string \<Rightarrow> string list" where
  "words_of letter acc [] s = (if acc = [] then [] else [acc])"
| "words_of letter acc ((r, n) # rs) s =
     (if word_rune letter r then words_of letter (acc @ take n s) rs (drop n s)
      else if acc = [] then words_of letter [] rs (drop n s)
      else acc # words_of letter [] rs (drop n s))"

definition looks_like_edit_task :: "(nat \<Rightarrow> bool) \<Rightarrow> string \<Rightarrow> bool" where
  "looks_like_edit_task letter task =
     (let line = to_lower (first_non_empty_line task) in
      if has_suffix line ''?'' then False
      else case words_of letter [] (runes line) line of
             [] \<Rightarrow> False
           | w # ws \<Rightarrow> w \<notin> set question_words \<and> list_ex (\<lambda>v. v \<in> set edit_verbs) (w # ws))"

section \<open>Tool calls written as text\<close>

definition tool_call_markers :: "string list" where
  "tool_call_markers = [''<function='', ''<function_calls>'', ''<tool_call>'', ''<invoke name='', ''<|tool_call'']"

definition looks_like_tool_call_text :: "string \<Rightarrow> string list \<Rightarrow> bool" where
  "looks_like_tool_call_text text names =
     list_ex (\<lambda>marker. case index_of text marker of
                         None \<Rightarrow> False
                       | Some i \<Rightarrow> list_ex (contains (drop (i + length marker) text)) names)
       tool_call_markers"

text \<open>\<open>strings.Cut\<close>.\<close>

definition cut :: "string \<Rightarrow> string \<Rightarrow> (string \<times> string) option" where
  "cut s sep = (case index_of s sep of None \<Rightarrow> None | Some i \<Rightarrow> Some (take i s, drop (i + length sep) s))"

lemma cut_length: "cut s sep = Some (a, b) \<Longrightarrow> length b \<le> length s - length sep \<and> length a \<le> length s"
  by (auto simp: cut_def split: option.splits)

definition function_open :: string where
  "function_open = ''<function=''"

text \<open>
  The scan of \<open>parseToolCallText\<close>; \<open>params\<close> reads the rendered parameters of one call into JSON
  (\<open>internal/xmlcall\<close>). The calls found so far are \<open>calls\<close>, whose number names the next one.
\<close>

function parse_calls ::
  "(string \<Rightarrow> string) \<Rightarrow> string list \<Rightarrow> tool_call list \<Rightarrow> string \<Rightarrow> tool_call list" where
  "parse_calls params names calls rest =
     (case cut rest function_open of
        None \<Rightarrow> calls
      | Some (before, after) \<Rightarrow>
          (case cut after ''>'' of
             None \<Rightarrow> calls
           | Some (raw, body) \<Rightarrow>
               let name = trim_space raw;
                   (block, tail) = (case cut body ''</function>'' of
                                      Some (b, t) \<Rightarrow> (b, t) | None \<Rightarrow> (body, []))
               in parse_calls params names
                    (if name \<in> set names
                     then calls @ [\<lparr>tc_id = ''recovered-'' @ show_nat (length calls), tc_name = name,
                                     tc_input = params block\<rparr>]
                     else calls) tail))"
  by pat_completeness auto
termination
proof (relation "measure (\<lambda>(params, names, calls, rest). length rest)")
  fix params :: "string \<Rightarrow> string" and names calls rest p before after p' raw body name q block tail
  assume a: "cut rest function_open = Some p" "(before, after) = p"
    and b: "cut after ''>'' = Some p'" "(raw, body) = p'"
    and q: "q = (case cut body ''</function>'' of Some (b, t) \<Rightarrow> (b, t) | None \<Rightarrow> (body, []))"
    "(block, tail) = q"
  have "0 < length rest"
    using a by (cases rest) (auto simp: cut_def function_open_def)
  moreover have "length after \<le> length rest - 10" "length body \<le> length after - 1"
    using a b cut_length [of rest] cut_length [of after "''>''"] by (force simp: function_open_def)+
  moreover have "length tail \<le> length body"
    using q cut_length [of body "''</function>''"] by (fastforce split: option.splits)
  ultimately have "length tail < length rest" by linarith
  then show "((params, names, if name \<in> set names
        then calls @ [\<lparr>tc_id = ''recovered-'' @ show_nat (length calls), tc_name = name,
                        tc_input = params block\<rparr>] else calls, tail), params, names, calls, rest)
      \<in> measure (\<lambda>(params, names, calls, rest). length rest)"
    by simp
qed simp

declare parse_calls.simps [simp del]

definition parse_tool_call_text :: "(string \<Rightarrow> string) \<Rightarrow> string \<Rightarrow> string list \<Rightarrow> tool_call list" where
  "parse_tool_call_text params text names = parse_calls params names [] text"

text \<open>\<open>recoverTextCalls\<close> of the loop: recovery runs only on text the detector fired on.\<close>

definition recover_text_calls :: "(string \<Rightarrow> string) \<Rightarrow> string list \<Rightarrow> string \<Rightarrow> tool_call list" where
  "recover_text_calls params names text =
     (if looks_like_tool_call_text text names then parse_tool_call_text params text names else [])"

lemma parse_calls_known:
  "set (map tc_name calls) \<subseteq> set names \<Longrightarrow>
     set (map tc_name (parse_calls params names calls rest)) \<subseteq> set names"
proof (induction params names calls rest rule: parse_calls.induct)
  case (1 params names calls rest)
  show ?case
  proof (cases "cut rest function_open")
    case None
    with "1.prems" show ?thesis by (simp add: parse_calls.simps [of params names calls rest])
  next
    case (Some p)
    obtain before after where p: "p = (before, after)" by (cases p)
    show ?thesis
    proof (cases "cut after ''>''")
      case None
      with "1.prems" Some p show ?thesis by (simp add: parse_calls.simps [of params names calls rest])
    next
      case (Some p')
      obtain raw body where p': "p' = (raw, body)" by (cases p')
      obtain block tail where q: "(case cut body ''</function>'' of
          Some (b, t) \<Rightarrow> (b, t) | None \<Rightarrow> (body, [])) = (block, tail)"
        by (metis surj_pair)
      have "set (map tc_name (parse_calls params names
          (if trim_space raw \<in> set names
           then calls @ [\<lparr>tc_id = ''recovered-'' @ show_nat (length calls), tc_name = trim_space raw,
                           tc_input = params block\<rparr>] else calls) tail)) \<subseteq> set names"
        using "1.prems"
        by (intro "1.IH" [OF \<open>cut rest function_open = Some p\<close> p [symmetric] Some p' [symmetric]
              refl q [symmetric] refl]) auto
      then show ?thesis
        using \<open>cut rest function_open = Some p\<close> p Some p' q
        by (simp add: parse_calls.simps [of params names calls rest] Let_def)
    qed
  qed
qed

lemma recover_known: "set (map tc_name (recover_text_calls params names t)) \<subseteq> set names"
  using parse_calls_known [of "[]" names params t]
  by (cases "looks_like_tool_call_text t names")
    (simp_all add: recover_text_calls_def parse_tool_call_text_def)

text \<open>A turn that says nothing is none of the three kinds of talk.\<close>

lemma blank_lines:
  assumes "trim_space t = []"
  shows "last_non_empty_line t = []"
proof -
  have sp: "list_all is_space t"
  proof (rule ccontr)
    assume "\<not> list_all is_space t"
    then have ne: "dropWhile is_space t \<noteq> []" by (auto simp: dropWhile_eq_Nil_conv list_all_iff)
    then have "hd (dropWhile is_space t) \<in> set (dropWhile is_space t)"
      "\<not> is_space (hd (dropWhile is_space t))"
      by (rule hd_in_set, rule hd_dropWhile)
    then have "trim_space t \<noteq> []"
      unfolding trim_space_def trim_left_while_def trim_right_while_def
      by (auto simp only: rev_is_Nil_conv dropWhile_eq_Nil_conv set_rev)
    with assms show False by simp
  qed
  have line: "trim_space l = []" if "l \<in> set (split_byte nl t)" for l
  proof -
    have "set l \<subseteq> set t"
      using that by (induction nl t arbitrary: l rule: split_byte.induct)
        (fastforce split: list.splits if_splits)+
    with sp have "list_all is_space l" by (auto simp: list_all_iff)
    then have "dropWhile is_space l = []" by (simp only: dropWhile_eq_Nil_conv list_all_iff)
    then show ?thesis unfolding trim_space_def trim_left_while_def trim_right_while_def by (simp del: dropWhile_eq_Nil_conv)
  qed
  have all: "first_line_of ls = []" if "\<And>l. l \<in> set ls \<Longrightarrow> trim_space l = []" for ls
    using that by (induction ls) auto
  show ?thesis unfolding last_non_empty_line_def by (rule all) (simp add: line)
qed

lemma blank_talk:
  assumes "trim_space t = []"
  shows "\<not> looks_like_question_to_user t" "\<not> looks_like_announced_action t"
  using blank_lines [OF assms]
  by (simp_all add: looks_like_question_to_user_def looks_like_announced_action_def to_lower_def
      has_suffix_def announce_prefixes_def retry_phrases_def contains_def Let_def)

end
