(* ===== verification/Compaction.thy ===== *)
theory Compaction
  imports AgentTypes
begin

text \<open>
  Model of \<open>internal/thread/compaction.go\<close>: the three deterministic rules that shorten the view of a
  thread's history. Go's loops over a copied slice are recursions that build the new list and the
  \<open>Savings\<close> together; \<open>hash\<close> is the hexadecimal SHA-256 of \<open>contentHash\<close>.
\<close>

record savings =
  sv_tokens :: int
  sv_items :: int

record compact_options =
  co_keep_lines :: int
  co_observation_budget :: int
  co_dedupe_reads :: bool

record compact_report =
  cr_rules :: "(string \<times> savings) list"
  cr_total :: int

definition no_savings :: savings where
  "no_savings = \<lparr>sv_tokens = 0, sv_items = 0\<rparr>"

definition add_saving :: "int \<Rightarrow> savings \<Rightarrow> savings" where
  "add_saving n s = \<lparr>sv_tokens = sv_tokens s + n, sv_items = sv_items s + 1\<rparr>"

definition estimate_tokens :: "string \<Rightarrow> int" where
  "estimate_tokens s = int (length s) div 4"

definition with_content :: "turn_message \<Rightarrow> string \<Rightarrow> turn_message" where
  "with_content item s = item\<lparr>tm_message := (tm_message item)\<lparr>ms_content := s\<rparr>\<rparr>"

definition content_of :: "turn_message \<Rightarrow> string" where
  "content_of item = ms_content (tm_message item)"

definition is_tool :: "turn_message \<Rightarrow> bool" where
  "is_tool item \<longleftrightarrow> ms_role (tm_message item) = RoleTool"

section \<open>Truncating long results\<close>

definition truncated :: "nat \<Rightarrow> string \<Rightarrow> string" where
  "truncated keep s =
     (let ls = split_byte nl s; dropped = length ls - 2 * keep
      in join_with [nl] (take keep ls) @ [nl] @ ''... '' @ show_nat dropped @ '' lines omitted ...'' @ [nl]
         @ join_with [nl] (drop (length ls - keep) ls))"

fun truncate_tool_output :: "nat \<Rightarrow> turn_message list \<Rightarrow> turn_message list \<times> savings" where
  "truncate_tool_output keep [] = ([], no_savings)"
| "truncate_tool_output keep (item # items) =
     (let (out, s) = truncate_tool_output keep items in
      if \<not> is_tool item then (item # out, s)
      else if length (split_byte nl (content_of item)) \<le> 2 * keep then (item # out, s)
      else let replacement = truncated keep (content_of item);
               saved = estimate_tokens (content_of item) - estimate_tokens replacement
           in if saved \<le> 0 then (item # out, s)
              else (with_content item replacement # out, add_saving saved s))"

section \<open>Masking old results\<close>

definition mask_ref :: "turn_message \<Rightarrow> string" where
  "mask_ref item = ''[tool result from turn '' @ show_int (tm_turn item) @ '' omitted, see thread log]''"

text \<open>The walk from the newest entry: the list is the history in reverse.\<close>

fun mask_walk :: "int \<Rightarrow> bool \<Rightarrow> turn_message list \<Rightarrow> turn_message list \<times> savings" where
  "mask_walk remaining newest [] = ([], no_savings)"
| "mask_walk remaining newest (item # older) =
     (if \<not> is_tool item then
        (let (out, s) = mask_walk remaining newest older in (item # out, s))
      else let cost = estimate_tokens (content_of item) in
        if newest \<or> cost \<le> remaining then
          (let (out, s) = mask_walk (remaining - cost) False older in (item # out, s))
        else let saved = cost - estimate_tokens (mask_ref item) in
          if saved \<le> 0 then
            (let (out, s) = mask_walk (remaining - cost) newest older in (item # out, s))
          else
            (let (out, s) = mask_walk remaining newest older
             in (with_content item (mask_ref item) # out, add_saving saved s)))"

definition mask_old_tool_results :: "int \<Rightarrow> turn_message list \<Rightarrow> turn_message list \<times> savings" where
  "mask_old_tool_results budget items =
     (let (out, s) = mask_walk budget True (rev items) in (rev out, s))"

section \<open>Deduplicating reads\<close>

definition dedupe_ref :: "(string \<Rightarrow> string) \<Rightarrow> int \<Rightarrow> string \<Rightarrow> string" where
  "dedupe_ref hash turn s = ''[same content as turn '' @ show_int turn @ '', hash '' @ take 8 (hash s) @ '']''"

fun dedupe_walk ::
  "(string \<Rightarrow> string) \<Rightarrow> (string \<rightharpoonup> int) \<Rightarrow> turn_message list \<Rightarrow> turn_message list \<times> savings" where
  "dedupe_walk hash seen [] = ([], no_savings)"
| "dedupe_walk hash seen (item # items) =
     (if \<not> is_tool item \<or> content_of item = [] then
        (let (out, s) = dedupe_walk hash seen items in (item # out, s))
      else (case seen (hash (content_of item)) of
              None \<Rightarrow>
                (let (out, s) = dedupe_walk hash (seen(hash (content_of item) \<mapsto> tm_turn item)) items
                 in (item # out, s))
            | Some first \<Rightarrow>
                (let (out, s) = dedupe_walk hash seen items;
                     ref = dedupe_ref hash first (content_of item);
                     saved = estimate_tokens (content_of item) - estimate_tokens ref
                 in if saved \<le> 0 then (item # out, s)
                    else (with_content item ref # out, add_saving saved s))))"

definition dedupe_tool_reads :: "(string \<Rightarrow> string) \<Rightarrow> turn_message list \<Rightarrow> turn_message list \<times> savings" where
  "dedupe_tool_reads hash items = dedupe_walk hash Map.empty items"

section \<open>Running the rules\<close>

definition compact ::
  "(string \<Rightarrow> string) \<Rightarrow> turn_message list \<Rightarrow> compact_options \<Rightarrow> turn_message list \<times> compact_report" where
  "compact hash items opts =
     (let (out1, r1) =
            (if co_keep_lines opts > 0 then
               (let (out, s) = truncate_tool_output (nat (co_keep_lines opts)) items
                in (out, [(''truncate_tool_output'', s)])) else (items, []));
          (out2, r2) =
            (if co_observation_budget opts > 0 then
               (let (out, s) = mask_old_tool_results (co_observation_budget opts) out1
                in (out, r1 @ [(''mask_old_tool_results'', s)])) else (out1, r1));
          (out3, r3) =
            (if co_dedupe_reads opts then
               (let (out, s) = dedupe_tool_reads hash out2
                in (out, r2 @ [(''dedupe_tool_reads'', s)])) else (out2, r2))
      in (out3, \<lparr>cr_rules = r3, cr_total = sum_list (map (sv_tokens \<circ> snd) r3)\<rparr>))"

definition flatten :: "turn_message list \<Rightarrow> message list" where
  "flatten items = map tm_message items"

section \<open>What the rules keep\<close>

text \<open>
  A rule's view: entry by entry the same message, except that a tool result may hold other text; and
  the reported saving is the fall of the estimate.
\<close>

definition same_entry :: "turn_message \<Rightarrow> turn_message \<Rightarrow> bool" where
  "same_entry a b \<longleftrightarrow> (if is_tool a then b = with_content a (content_of b) else b = a)"

definition weight :: "turn_message list \<Rightarrow> int" where
  "weight items = sum_list (map (estimate_tokens \<circ> content_of) items)"

definition is_view :: "turn_message list \<Rightarrow> turn_message list \<times> savings \<Rightarrow> bool" where
  "is_view items os \<longleftrightarrow> list_all2 same_entry items (fst os)
     \<and> weight items - weight (fst os) = sv_tokens (snd os) \<and> 0 \<le> sv_tokens (snd os)"

lemma content_with [simp]: "content_of (with_content item s) = s"
  and with_with [simp]: "with_content (with_content item s) r = with_content item r"
  and with_own [simp]: "with_content item (content_of item) = item"
  and tool_with [simp]: "is_tool (with_content item s) = is_tool item"
  by (simp_all add: content_of_def with_content_def is_tool_def)

lemma same_entry_refl [simp]: "same_entry a a"
  by (simp add: same_entry_def)

lemma same_entry_with: "is_tool a \<Longrightarrow> same_entry a (with_content a s)"
  by (simp add: same_entry_def)

lemma same_entry_trans: "same_entry a b \<Longrightarrow> same_entry b c \<Longrightarrow> same_entry a c"
  by (auto simp: same_entry_def split: if_splits) (metis tool_with with_with)+

lemma weight_simps [simp]:
  "weight [] = 0" "weight (a # as) = estimate_tokens (content_of a) + weight as"
  "weight (as @ bs) = weight as + weight bs" "weight (rev as) = weight as"
  by (simp_all add: weight_def rev_map [symmetric] sum_list_rev)

lemma saving_simps [simp]:
  "sv_tokens no_savings = 0" "sv_tokens (add_saving n s) = sv_tokens s + n"
  by (simp_all add: no_savings_def add_saving_def)

lemma is_view_Nil: "is_view [] ([], no_savings)"
  by (simp add: is_view_def)

lemma is_view_keep: "is_view items (out, s) \<Longrightarrow> is_view (item # items) (item # out, s)"
  by (simp add: is_view_def)

lemma is_view_replace:
  "is_view items (out, s) \<Longrightarrow> is_tool item \<Longrightarrow>
     saved = estimate_tokens (content_of item) - estimate_tokens r \<Longrightarrow> 0 < saved \<Longrightarrow>
     is_view (item # items) (with_content item r # out, add_saving saved s)"
  by (simp add: is_view_def same_entry_with)

lemmas view_rules = is_view_Nil is_view_keep is_view_replace

lemma truncate_view: "is_view items (truncate_tool_output keep items)"
proof (induction items)
  case (Cons item items)
  obtain out s where p: "truncate_tool_output keep items = (out, s)" by (cases "truncate_tool_output keep items")
  with Cons show ?case by (auto simp: Let_def intro: view_rules)
qed (simp add: is_view_Nil)

lemma mask_walk_view: "is_view items (mask_walk remaining newest items)"
proof (induction items arbitrary: remaining newest)
  case (Cons item items)
  have ih: "is_view items (fst (mask_walk r n items), snd (mask_walk r n items))" for r n
    using Cons [of r n] by simp
  show ?case by (auto simp: Let_def case_prod_unfold intro: view_rules ih)
qed (simp add: is_view_Nil)

lemma mask_view: "is_view items (mask_old_tool_results budget items)"
proof -
  obtain out s where p: "mask_walk budget True (rev items) = (out, s)"
    by (cases "mask_walk budget True (rev items)")
  from mask_walk_view [of "rev items" budget True] have "is_view (rev items) (out, s)" by (simp add: p)
  then have "is_view items (rev out, s)"
    unfolding is_view_def by (auto simp: list_all2_rev1)
  then show ?thesis by (simp add: mask_old_tool_results_def p)
qed

lemma dedupe_walk_view: "is_view items (dedupe_walk hash seen items)"
proof (induction items arbitrary: seen)
  case (Cons item items)
  have ih: "is_view items (fst (dedupe_walk hash sn items), snd (dedupe_walk hash sn items))" for sn
    using Cons [of sn] by simp
  show ?case by (auto simp: Let_def case_prod_unfold split: option.splits intro: view_rules ih)
qed (simp add: is_view_Nil)

lemma same_entries_trans:
  "list_all2 same_entry a b \<Longrightarrow> list_all2 same_entry b c \<Longrightarrow> list_all2 same_entry a c"
  by (rule list_all2_trans [OF same_entry_trans])

definition chain_view :: "turn_message list \<Rightarrow> turn_message list \<times> (string \<times> savings) list \<Rightarrow> bool" where
  "chain_view items ol \<longleftrightarrow> list_all2 same_entry items (fst ol)
     \<and> weight items - weight (fst ol) = sum_list (map (sv_tokens \<circ> snd) (snd ol))
     \<and> list_all (\<lambda>r. 0 \<le> sv_tokens (snd r)) (snd ol)"

lemma chain_view_start: "chain_view items (items, [])"
  by (simp add: chain_view_def list_all2_same)

lemma chain_view_step:
  "chain_view items (out, rs) \<Longrightarrow> is_view out (out', s) \<Longrightarrow> chain_view items (out', rs @ [(n, s)])"
  unfolding chain_view_def is_view_def by (auto intro: same_entries_trans)

text \<open>
  Compaction keeps every entry and changes nothing of it but the text of tool results, whichever rules
  are switched on; the saving it reports is exactly the fall of the token estimate and never negative.
\<close>

theorem compact_saves:
  "list_all2 same_entry items (fst (compact hash items opts))
   \<and> weight items - weight (fst (compact hash items opts)) = cr_total (snd (compact hash items opts))
   \<and> 0 \<le> cr_total (snd (compact hash items opts))"
proof -
  let ?k = "nat (co_keep_lines opts)" and ?b = "co_observation_budget opts"
  define t where "t = truncate_tool_output ?k items"
  define p1 where "p1 = (if co_keep_lines opts > 0 then (fst t, [(''truncate_tool_output'', snd t)]) else (items, []))"
  define m where "m = mask_old_tool_results ?b (fst p1)"
  define p2 where "p2 = (if ?b > 0 then (fst m, snd p1 @ [(''mask_old_tool_results'', snd m)]) else p1)"
  define d where "d = dedupe_tool_reads hash (fst p2)"
  define p3 where "p3 = (if co_dedupe_reads opts then (fst d, snd p2 @ [(''dedupe_tool_reads'', snd d)]) else p2)"
  have c: "compact hash items opts = (fst p3, \<lparr>cr_rules = snd p3, cr_total = sum_list (map (sv_tokens \<circ> snd) (snd p3))\<rparr>)"
    by (auto simp: compact_def t_def p1_def m_def p2_def d_def p3_def Let_def case_prod_unfold)
  have "chain_view items p1"
    using chain_view_step [OF chain_view_start, of items "fst t" "snd t"] truncate_view [of items ?k]
    by (auto simp: p1_def t_def chain_view_start)
  then have "chain_view items p2"
    using chain_view_step [of items "fst p1" "snd p1" "fst m" "snd m"] mask_view [of "fst p1" ?b]
    by (auto simp: p2_def m_def)
  then have "chain_view items p3"
    using chain_view_step [of items "fst p2" "snd p2" "fst d" "snd d"] dedupe_walk_view [of "fst p2" hash Map.empty]
    by (auto simp: p3_def d_def dedupe_tool_reads_def)
  then show ?thesis
    by (auto simp: c chain_view_def list_all_iff intro!: sum_list_nonneg)
qed

section \<open>Deduplication points back, and never rewrites what was sent\<close>

lemma dedupe_walk_append:
  "\<exists>sn. fst (dedupe_walk hash seen (xs @ ys)) = fst (dedupe_walk hash seen xs) @ fst (dedupe_walk hash sn ys)"
proof (induction xs arbitrary: seen)
  case (Cons x xs)
  show ?case
  proof (cases "\<not> is_tool x \<or> content_of x = []")
    case True
    with Cons [of seen] show ?thesis by (auto simp: case_prod_unfold Let_def)
  next
    case False
    with Cons [of seen] Cons [of "seen(hash (content_of x) \<mapsto> tm_turn x)"] show ?thesis
      by (cases "seen (hash (content_of x))") (auto simp: case_prod_unfold Let_def simp del: fun_upd_apply)
  qed
qed auto

definition points_back ::
  "(string \<Rightarrow> string) \<Rightarrow> turn_message set \<Rightarrow> turn_message \<Rightarrow> turn_message \<Rightarrow> bool" where
  "points_back hash earlier a b \<longleftrightarrow>
     b = a \<or> (\<exists>x \<in> earlier. hash (content_of x) = hash (content_of a)
              \<and> b = with_content a (dedupe_ref hash (tm_turn x) (content_of a)))"

lemma points_back_mono: "points_back hash A a b \<Longrightarrow> A \<subseteq> B \<Longrightarrow> points_back hash B a b"
  by (auto simp: points_back_def)

definition kept_before :: "turn_message list \<Rightarrow> turn_message list \<Rightarrow> nat \<Rightarrow> turn_message set" where
  "kept_before items out i = (\<lambda>j. items ! j) ` {j. j < i \<and> out ! j = items ! j}"

lemma kept_before_Cons:
  "kept_before (a # items) (b # out) (Suc i) = (if b = a then {a} else {}) \<union> kept_before items out i"
proof -
  have "{j. j < Suc i \<and> (b # out) ! j = (a # items) ! j}
      = (if b = a then {0} else {}) \<union> Suc ` {j. j < i \<and> out ! j = items ! j}"
    by (auto simp: less_Suc_eq_0_disj)
  then show ?thesis unfolding kept_before_def by (simp add: image_Un image_image)
qed

lemma dedupe_walk_points:
  assumes "\<And>h t. seen h = Some t \<Longrightarrow> \<exists>x \<in> P. hash (content_of x) = h \<and> tm_turn x = t"
    and "i < length items"
  shows "points_back hash (P \<union> kept_before items (fst (dedupe_walk hash seen items)) i)
           (items ! i) (fst (dedupe_walk hash seen items) ! i)"
  using assms
proof (induction items arbitrary: seen P i)
  case (Cons a items)
  let ?h = "hash (content_of a)"
  define sn where "sn = (if is_tool a \<and> content_of a \<noteq> [] \<and> seen ?h = None then seen(?h \<mapsto> tm_turn a) else seen)"
  define b where "b = hd (fst (dedupe_walk hash seen (a # items)))"
  have step: "fst (dedupe_walk hash seen (a # items)) = b # fst (dedupe_walk hash sn items)"
    by (auto simp: b_def sn_def case_prod_unfold Let_def split: option.splits)
  have b: "points_back hash P a b"
    using Cons.prems(1)
    by (auto simp: b_def points_back_def case_prod_unfold Let_def split: option.splits)
  have keep: "sn = seen \<or> b = a"
    by (auto simp: b_def sn_def case_prod_unfold Let_def split: option.splits)
  show ?case
  proof (cases i)
    case 0
    with b show ?thesis
      by (auto simp: step simp del: dedupe_walk.simps intro: points_back_mono)
  next
    case (Suc k)
    let ?P = "P \<union> (if b = a then {a} else {})"
    have "\<exists>x \<in> ?P. hash (content_of x) = h \<and> tm_turn x = t" if "sn h = Some t" for h t
    proof (cases "sn = seen")
      case True
      with that Cons.prems(1) [of h t] show ?thesis by auto
    next
      case False
      with that keep Cons.prems(1) show ?thesis by (auto simp: sn_def split: if_splits)
    qed
    from Cons.IH [where seen = sn and P = ?P and i = k, OF this] Cons.prems(2) Suc
    show ?thesis by (simp add: step kept_before_Cons Un_assoc del: dedupe_walk.simps)
  qed
qed simp

text \<open>
  C35: deduplication is stable under appending: what is sent for the entries so far stays as it was when later
  entries come. Every entry is sent as it is or as a reference, by turn number, to an earlier entry of
  equal hash that is itself sent whole, so no reference points at a reference.
\<close>

theorem dedupe_stable:
  "(\<exists>later. fst (dedupe_tool_reads hash (xs @ ys)) = fst (dedupe_tool_reads hash xs) @ later)
   \<and> list_all (\<lambda>i. points_back hash (kept_before xs (fst (dedupe_tool_reads hash xs)) i)
                     (xs ! i) (fst (dedupe_tool_reads hash xs) ! i)) [0..<length xs]"
proof
  show "\<exists>later. fst (dedupe_tool_reads hash (xs @ ys)) = fst (dedupe_tool_reads hash xs) @ later"
    using dedupe_walk_append [of hash Map.empty xs ys] by (auto simp: dedupe_tool_reads_def)
  show "list_all (\<lambda>i. points_back hash (kept_before xs (fst (dedupe_tool_reads hash xs)) i)
                     (xs ! i) (fst (dedupe_tool_reads hash xs) ! i)) [0..<length xs]"
    using dedupe_walk_points [of Map.empty "{}" hash _ xs] by (auto simp: list_all_iff dedupe_tool_reads_def)
qed

end
