(* ===== verification/GoJson.thy ===== *)
theory GoJson
  imports GoStrings
begin

text \<open>
  \<open>encoding/json\<close>'s validity check: the byte-at-a-time scanner of the standard library, as its states
  and the stack of open composites. \<open>json_valid\<close> is \<open>json.Valid\<close>; nesting deeper than 10000 is invalid.
\<close>

datatype parse_state = ObjectKey | ObjectValue | ArrayValue

datatype scan_state =
    BeginValue | BeginValueOrEmpty | BeginString | BeginStringOrEmpty | EndValue | EndTop
  | InString | InStringEsc | InStringEscU nat | NegSign | Digits | Zero | Dot | DotDigits
  | Exp | ExpSign | ExpDigits | Literal string | ScanError

definition json_space :: "char \<Rightarrow> bool" where
  "json_space c \<longleftrightarrow> c = CHR '' '' \<or> c = tab \<or> c = cr \<or> c = nl"

definition digit :: "char \<Rightarrow> bool" where
  "digit c \<longleftrightarrow> c \<in> set ''0123456789''"

definition hex_digit :: "char \<Rightarrow> bool" where
  "hex_digit c \<longleftrightarrow> c \<in> set ''0123456789abcdefABCDEF''"

definition max_nesting :: nat where
  "max_nesting = 10000"

type_synonym scanner = "scan_state \<times> parse_state list"

definition push :: "parse_state \<Rightarrow> scan_state \<Rightarrow> parse_state list \<Rightarrow> scanner" where
  "push p next stack = (if Suc (length stack) \<le> max_nesting then (next, p # stack) else (ScanError, p # stack))"

definition pop :: "parse_state list \<Rightarrow> scanner" where
  "pop stack = (if tl stack = [] then (EndTop, []) else (EndValue, tl stack))"

definition begin_value :: "char \<Rightarrow> parse_state list \<Rightarrow> scanner" where
  "begin_value c stack =
     (if json_space c then (BeginValue, stack)
      else if c = CHR ''{'' then push ObjectKey BeginStringOrEmpty stack
      else if c = CHR ''['' then push ArrayValue BeginValueOrEmpty stack
      else if c = dquote then (InString, stack)
      else if c = CHR ''-'' then (NegSign, stack)
      else if c = CHR ''0'' then (Zero, stack)
      else if c = CHR ''t'' then (Literal ''rue'', stack)
      else if c = CHR ''f'' then (Literal ''alse'', stack)
      else if c = CHR ''n'' then (Literal ''ull'', stack)
      else if digit c then (Digits, stack)
      else (ScanError, stack))"

definition end_value :: "char \<Rightarrow> parse_state list \<Rightarrow> scanner" where
  "end_value c stack =
     (case stack of
        [] \<Rightarrow> if json_space c then (EndTop, []) else (ScanError, [])
      | p # ps \<Rightarrow>
          if json_space c then (EndValue, stack)
          else (case p of
                  ObjectKey \<Rightarrow> if c = CHR '':'' then (BeginValue, ObjectValue # ps) else (ScanError, stack)
                | ObjectValue \<Rightarrow> if c = CHR '','' then (BeginString, ObjectKey # ps)
                               else if c = CHR ''}'' then pop stack else (ScanError, stack)
                | ArrayValue \<Rightarrow> if c = CHR '','' then (BeginValue, stack)
                              else if c = CHR '']'' then pop stack else (ScanError, stack)))"

definition begin_string :: "char \<Rightarrow> parse_state list \<Rightarrow> scanner" where
  "begin_string c stack =
     (if json_space c then (BeginString, stack) else if c = dquote then (InString, stack) else (ScanError, stack))"

fun scan_step :: "scanner \<Rightarrow> char \<Rightarrow> scanner" where
  "scan_step (BeginValue, st) c = begin_value c st"
| "scan_step (BeginValueOrEmpty, st) c =
     (if json_space c then (BeginValueOrEmpty, st)
      else if c = CHR '']'' then end_value c st else begin_value c st)"
| "scan_step (BeginString, st) c = begin_string c st"
| "scan_step (BeginStringOrEmpty, st) c =
     (if json_space c then (BeginStringOrEmpty, st)
      else if c = CHR ''}'' then end_value c (ObjectValue # tl st) else begin_string c st)"
| "scan_step (EndValue, st) c = end_value c st"
| "scan_step (EndTop, st) c = (if json_space c then (EndTop, st) else (ScanError, st))"
| "scan_step (InString, st) c =
     (if c = dquote then (EndValue, st) else if c = backslash then (InStringEsc, st)
      else if (of_char c :: nat) < 0x20 then (ScanError, st) else (InString, st))"
| "scan_step (InStringEsc, st) c =
     (if c \<in> set ''bfnrt/'' \<union> {backslash, dquote} then (InString, st)
      else if c = CHR ''u'' then (InStringEscU 4, st) else (ScanError, st))"
| "scan_step (InStringEscU n, st) c =
     (if hex_digit c then (if n \<le> 1 then (InString, st) else (InStringEscU (n - 1), st)) else (ScanError, st))"
| "scan_step (NegSign, st) c =
     (if c = CHR ''0'' then (Zero, st) else if digit c then (Digits, st) else (ScanError, st))"
| "scan_step (Digits, st) c =
     (if digit c then (Digits, st) else if c = CHR ''.'' then (Dot, st)
      else if c = CHR ''e'' \<or> c = CHR ''E'' then (Exp, st) else end_value c st)"
| "scan_step (Zero, st) c =
     (if c = CHR ''.'' then (Dot, st)
      else if c = CHR ''e'' \<or> c = CHR ''E'' then (Exp, st) else end_value c st)"
| "scan_step (Dot, st) c = (if digit c then (DotDigits, st) else (ScanError, st))"
| "scan_step (DotDigits, st) c =
     (if digit c then (DotDigits, st) else if c = CHR ''e'' \<or> c = CHR ''E'' then (Exp, st) else end_value c st)"
| "scan_step (Exp, st) c =
     (if c = CHR ''+'' \<or> c = CHR ''-'' then (ExpSign, st) else if digit c then (ExpDigits, st) else (ScanError, st))"
| "scan_step (ExpSign, st) c = (if digit c then (ExpDigits, st) else (ScanError, st))"
| "scan_step (ExpDigits, st) c = (if digit c then (ExpDigits, st) else end_value c st)"
| "scan_step (Literal t, st) c =
     (case t of [] \<Rightarrow> (ScanError, st)
      | x # xs \<Rightarrow> if c = x then (if xs = [] then (EndValue, st) else (Literal xs, st)) else (ScanError, st))"
| "scan_step (ScanError, st) c = (ScanError, st)"

text \<open>\<open>checkValid\<close>: every byte, then the virtual space of \<open>eof\<close>.\<close>

definition scan_all :: "string \<Rightarrow> scanner" where
  "scan_all s = foldl scan_step (BeginValue, []) s"

definition json_valid :: "string \<Rightarrow> bool" where
  "json_valid s =
     (let (st, stack) = scan_all s in
      st \<noteq> ScanError \<and> (st = EndTop \<or> fst (scan_step (st, stack) (CHR '' '')) = EndTop))"

lemma scan_error_absorbs: "fst (foldl scan_step (ScanError, st) s) = ScanError"
  by (induction s) simp_all

lemma json_valid_examples:
  "json_valid ''{}''" "json_valid ''[1, -0.5e+3, null]''" "\<not> json_valid ''''" "\<not> json_valid ''{a}''"
  "\<not> json_valid ''[1,]''" "\<not> json_valid ''{} {}''"
  by code_simp+

end
