(* ===== verification/AgentState.thy ===== *)
theory AgentState
  imports Effects Router AgentText Compaction GoJson GoPath
begin

text \<open>
  Model of \<open>internal/agent/loop.go\<close> with \<open>finish.go\<close>, \<open>hooks.go\<close>, \<open>permission.go\<close>, \<open>review.go\<close> and
  \<open>compact.go\<close>, over the history of \<open>internal/thread/thread.go\<close>. A \<open>Loop\<close> is the record \<open>loop\<close>: its
  options, and as functions on the outside world \<open>'w\<close> what it calls (providers, tools, gates, the
  log's file, the clock). The Go type \<open>run\<close> together with its thread is the record \<open>run_t\<close>. A method
  of \<open>run\<close> is a program of theory Effects: it leaves early with the outcome and error that \<open>drive\<close>
  returns, and goes on with a value otherwise, where Go returns \<open>done = false\<close>.
\<close>

section \<open>Outcomes\<close>

datatype stop =
    StopNone | StopComplete | StopMaxTurns | StopToolCallFlood | StopMalformedTool | StopLoopDetected
  | StopStagnant | StopDeadline | StopCostCeiling | StopCanceled | StopFailed | StopVerifyFailed
  | StopAskedInProse | StopAnnouncedNotDone | StopTreeState

definition stop_text :: "stop \<Rightarrow> string" where
  "stop_text s =
     (case s of StopNone \<Rightarrow> [] | StopComplete \<Rightarrow> ''complete'' | StopMaxTurns \<Rightarrow> ''max_turns''
      | StopToolCallFlood \<Rightarrow> ''tool_call_flood'' | StopMalformedTool \<Rightarrow> ''malformed_tool_call''
      | StopLoopDetected \<Rightarrow> ''loop_detected'' | StopStagnant \<Rightarrow> ''stagnant'' | StopDeadline \<Rightarrow> ''deadline''
      | StopCostCeiling \<Rightarrow> ''cost_ceiling'' | StopCanceled \<Rightarrow> ''canceled'' | StopFailed \<Rightarrow> ''provider_failed''
      | StopVerifyFailed \<Rightarrow> ''verify_failed'' | StopAskedInProse \<Rightarrow> ''asked_in_prose''
      | StopAnnouncedNotDone \<Rightarrow> ''announced_not_done'' | StopTreeState \<Rightarrow> ''tree_state'')"

datatype gate_verdict = VerdictPass | VerdictFailed | VerdictUnattributed

definition gate_verdict_text :: "gate_verdict \<Rightarrow> string" where
  "gate_verdict_text v =
     (case v of VerdictPass \<Rightarrow> ''pass'' | VerdictFailed \<Rightarrow> ''failed'' | VerdictUnattributed \<Rightarrow> ''unattributed'')"

datatype review_result = ReviewNone | ReviewOK | ReviewObjection | ReviewSkipped

definition review_text_of :: "review_result \<Rightarrow> string" where
  "review_text_of r =
     (case r of ReviewNone \<Rightarrow> [] | ReviewOK \<Rightarrow> ''ok'' | ReviewObjection \<Rightarrow> ''objection'' | ReviewSkipped \<Rightarrow> ''skipped'')"

record review_verdict =
  rv_result :: review_result
  rv_note :: string
  rv_served :: string

record edit_point =
  ep_repo :: string
  ep_op :: string
  ep_paths :: "string list"

record run_outcome =
  ro_review :: review_verdict
  ro_reason :: string
  ro_checkpoint :: string
  ro_stagnant_tool :: string
  ro_stop :: stop
  ro_edits :: "edit_point list"
  ro_findings :: "string list"
  ro_turns :: int
  ro_tool_calls :: int
  ro_input_tokens :: int
  ro_output_tokens :: int
  ro_compacted :: int
  ro_elapsed :: int
  ro_spend :: rat
  ro_thread_spend :: rat
  ro_stagnant_count :: int
  ro_recovered :: int
  ro_false_alarms :: int
  ro_gates_passed :: bool

definition empty_outcome :: run_outcome where
  "empty_outcome =
     \<lparr>ro_review = \<lparr>rv_result = ReviewNone, rv_note = [], rv_served = []\<rparr>, ro_reason = [],
      ro_checkpoint = [], ro_stagnant_tool = [], ro_stop = StopNone, ro_edits = [], ro_findings = [],
      ro_turns = 0, ro_tool_calls = 0, ro_input_tokens = 0, ro_output_tokens = 0, ro_compacted = 0,
      ro_elapsed = 0, ro_spend = 0, ro_thread_spend = 0, ro_stagnant_count = 0, ro_recovered = 0,
      ro_false_alarms = 0, ro_gates_passed = False\<rparr>"

text \<open>The errors callers tell apart: cancellation, \<open>ErrScriptedFailure\<close>, and any other.\<close>

datatype run_error = ErrCanceled string | ErrStreamFailed string | ErrOther string

definition outcome_condition :: "run_outcome \<Rightarrow> verdict" where
  "outcome_condition o' = met (stop_text (ro_stop o')) (ro_reason o')"

section \<open>The loop and what it calls\<close>

record pricing =
  pc_input :: rat
  pc_output :: rat
  pc_cache_read :: rat

record 'w tool_t =
  tl_name :: string
  tl_risk :: risk
  tl_requester :: "(string \<Rightarrow> perm_request option) option"
  tl_run :: "string \<Rightarrow> 'w \<Rightarrow> (int list \<times> (string + tool_result)) \<times> 'w"

record hook_decision =
  hd_allow :: bool
  hd_reason :: string
  hd_output :: string
  hd_exit :: int

record 'w hooks =
  hk_pre_configured :: bool
  hk_post_configured :: bool
  hk_pre :: "tool_call \<Rightarrow> string list \<Rightarrow> 'w \<Rightarrow> hook_decision \<times> 'w"
  hk_post :: "tool_call \<Rightarrow> string list \<Rightarrow> tool_result \<Rightarrow> 'w \<Rightarrow> hook_decision \<times> 'w"

record 'w change_gate =
  gt_begin :: "string \<Rightarrow> 'w \<Rightarrow> 'w"
  gt_enqueue :: "change_t \<Rightarrow> 'w \<Rightarrow> 'w"
  gt_take_feedback :: "string \<Rightarrow> 'w \<Rightarrow> (string \<times> bool) \<times> 'w"
  gt_false_alarms :: "string \<Rightarrow> 'w \<Rightarrow> string list \<times> 'w"
  gt_stuck :: "string \<Rightarrow> 'w \<Rightarrow> string option \<times> 'w"

record 'w checkpointer =
  cp_repo_root :: "string \<Rightarrow> 'w \<Rightarrow> string option \<times> 'w"
  cp_capture :: "string \<Rightarrow> 'w \<Rightarrow> (string + string) \<times> 'w"

record finish_t =
  fn_task :: string
  fn_goal :: string
  fn_answer :: string
  fn_checkpoint :: string
  fn_changes :: "change_t list"
  fn_history :: "message list"

type_synonym 'w provider = "request \<Rightarrow> int option \<Rightarrow> 'w \<Rightarrow> (chunk list \<times> string option) \<times> 'w"

record 'w loop =
  lo_max_turns :: int
  lo_max_calls :: int
  lo_max_verify :: int
  lo_max_review :: int
  lo_max_stagnant :: int
  lo_before_nudge :: int
  lo_max_wall :: int
  lo_max_spend :: rat
  lo_compact_trigger :: rat
  lo_cache_lifetime :: int
  lo_context_window :: int
  lo_compact :: compact_options
  lo_compact_enabled :: bool
  lo_gate_writes :: bool
  lo_pricing :: "string \<Rightarrow> pricing option"
  lo_models :: "string tiers"
  lo_thinking :: "bool option tiers"
  lo_fast_presence :: rat
  lo_fast_repeat :: rat
  lo_repo_root :: string
  lo_providers :: "'w provider tiers"
  lo_tools :: "string \<Rightarrow> 'w tool_t option"
  lo_gate :: "perm_request \<Rightarrow> 'w \<Rightarrow> (string + answer) \<times> 'w"
  lo_slots :: "(string \<Rightarrow> 'w \<Rightarrow> string option \<times> 'w) option"
  lo_release :: "'w \<Rightarrow> 'w"
  lo_hooks :: "'w hooks option"
  lo_verifier :: "(change_t list \<Rightarrow> 'w \<Rightarrow> (string \<times> gate_verdict) \<times> 'w) option"
  lo_reviewer :: "(string \<Rightarrow> string \<Rightarrow> change_t list \<Rightarrow> 'w \<Rightarrow> review_verdict \<times> 'w) option"
  lo_finisher :: "(finish_t \<Rightarrow> 'w \<Rightarrow> (string + string list) \<times> 'w) option"
  lo_change_gate :: "'w change_gate option"
  lo_checkpointer :: "'w checkpointer option"
  lo_clock :: "'w \<Rightarrow> int \<times> 'w"
  lo_ctx :: "'w \<Rightarrow> string option \<times> 'w"
  lo_log :: "event \<Rightarrow> 'w \<Rightarrow> string option \<times> 'w"
  lo_record :: "turn_message \<Rightarrow> 'w \<Rightarrow> string option \<times> 'w"
  lo_hash :: "string \<Rightarrow> string"
  lo_letter :: "nat \<Rightarrow> bool"
  lo_params :: "string \<Rightarrow> string"
  lo_write_paths :: "string \<Rightarrow> (string \<times> string list) option"

text \<open>
  \<open>run_t\<close>: the fields of \<open>run\<close>, of its \<open>gateKeeper\<close> and of its \<open>Thread\<close> that change, and those that are
  set once (\<open>rn_id\<close> to \<open>rn_prior_spend\<close>).
\<close>

record 'w run_t =
  rn_world :: 'w
  rn_id :: string
  rn_system :: string
  rn_tools :: "tool_spec list"
  rn_fast_tools :: "tool_spec list"
  rn_override :: choice
  rn_thinking :: "bool option"
  rn_task :: string
  rn_start :: int
  rn_prior_spend :: rat
  th_entries :: "turn_message list"
  th_turn :: int
  th_state :: lifecycle
  th_goal :: string
  th_log :: "event list"
  rn_deadline :: "int option"
  rn_allowed :: "string list"
  rn_last_call :: "tool_call option"
  rn_answer :: string
  rn_changes :: "change_t list"
  rn_compacted :: "turn_message list"
  rn_compacted_through :: nat
  rn_route :: choice
  rn_outcome :: run_outcome
  rn_verify_rounds :: int
  rn_review_rounds :: int
  rn_turn_calls :: int
  rn_errors :: int
  rn_escalations :: nat
  rn_nudges :: int
  rn_stuck_escalated :: bool
  rn_edit_attempted :: bool
  rn_prefix_cold :: bool

type_synonym 'w leaving = "run_outcome \<times> run_error option"
type_synonym ('w, 'a) act = "('w run_t, 'a, run_outcome \<times> run_error option) prog"

definition ext :: "('w \<Rightarrow> 'a \<times> 'w) \<Rightarrow> ('w, 'a) act" where
  "ext f s = (case f (rn_world s) of (a, w) \<Rightarrow> (Go a, s\<lparr>rn_world := w\<rparr>))"

definition fail :: "string \<Rightarrow> ('w, 'a) act" where
  "fail e = leave (empty_outcome, Some (ErrOther e))"

definition set_outcome :: "(run_outcome \<Rightarrow> run_outcome) \<Rightarrow> ('w, unit) act" where
  "set_outcome f = change (\<lambda>s. s\<lparr>rn_outcome := f (rn_outcome s)\<rparr>)"

definition now :: "'w loop \<Rightarrow> ('w, int) act" where
  "now L = ext (lo_clock L)"

text \<open>The result \<open>return r.outcome, nil\<close>, or with an error.\<close>

definition leave_outcome :: "run_error option \<Rightarrow> ('w, 'a) act" where
  "leave_outcome e = seq (look rn_outcome) (\<lambda>o'. leave (o', e))"

end
