(* ===== verification/AgentLoop.thy ===== *)
theory AgentLoop
  imports AgentState
begin

text \<open>
  The methods of \<open>run\<close> in \<open>internal/agent\<close>, in the order a turn uses them: the thread's operations,
  stopping, the checks at the end of a turn, tool calls, the request and its stream, and \<open>drive\<close>.
\<close>

section \<open>The thread\<close>

definition context_error :: "'w loop \<Rightarrow> ('w, string option) act" where
  "context_error L = ext (lo_ctx L)"

definition log_append :: "'w loop \<Rightarrow> event \<Rightarrow> ('w, string option) act" where
  "log_append L ev =
     seq (ext (lo_log L ev)) (\<lambda>r.
       case r of
         Some e \<Rightarrow> give (Some e)
       | None \<Rightarrow> andthen (change (\<lambda>s. s\<lparr>th_log := th_log s @ [ev]\<rparr>)) (give None))"

definition log_or_fail :: "'w loop \<Rightarrow> string \<Rightarrow> event \<Rightarrow> ('w, unit) act" where
  "log_or_fail L wrap ev =
     seq (log_append L ev) (\<lambda>r. case r of Some e \<Rightarrow> fail (wrap @ '': '' @ e) | None \<Rightarrow> give ())"

text \<open>\<open>record\<close>: the sidecar first, then the entries.\<close>

definition record_entry :: "'w loop \<Rightarrow> string \<Rightarrow> message \<Rightarrow> ('w, unit) act" where
  "record_entry L wrap msg =
     seq (look (\<lambda>s. \<lparr>tm_message = msg, tm_turn = th_turn s\<rparr>)) (\<lambda>entry.
     seq (ext (lo_record L entry)) (\<lambda>r.
       case r of
         Some e \<Rightarrow> fail (wrap @ '': '' @ e)
       | None \<Rightarrow> change (\<lambda>s. s\<lparr>th_entries := th_entries s @ [entry]\<rparr>)))"

definition check_context :: "'w loop \<Rightarrow> string \<Rightarrow> ('w, unit) act" where
  "check_context L wrap =
     seq (context_error L) (\<lambda>r.
       case r of Some e \<Rightarrow> fail (wrap @ '': context: '' @ e) | None \<Rightarrow> give ())"

definition append_user :: "'w loop \<Rightarrow> string \<Rightarrow> string \<Rightarrow> ('w, unit) act" where
  "append_user L wrap content =
     andthen (check_context L wrap) (
     andthen (record_entry L wrap (user_message content)) (
     andthen (log_or_fail L (wrap @ '': logging user turn'') (plain_event KindUser content [])) (
     change (\<lambda>s. if th_goal s = [] then s\<lparr>th_goal := content\<rparr> else s))))"

definition assistant_event :: "message \<Rightarrow> usage option \<Rightarrow> string \<Rightarrow> string \<Rightarrow> event" where
  "assistant_event msg us model tier =
     (plain_event KindAgent []
       ([(''tool_calls'', DInt (int (length (ms_calls msg))))]
        @ (case us of Some u \<Rightarrow> [(''usage'', DUsage u)] | None \<Rightarrow> [])
        @ (if model \<noteq> [] then [(''model'', DText model)] else [])
        @ (if tier \<noteq> [] then [(''tier'', DText tier)] else [])))
     \<lparr>ev_role := (if ms_calls msg = [] then RoleAnswer else RoleNote)\<rparr>"

definition append_assistant ::
  "'w loop \<Rightarrow> message \<Rightarrow> usage option \<Rightarrow> string \<Rightarrow> string \<Rightarrow> ('w, unit) act" where
  "append_assistant L msg0 us model tier =
     (let msg = msg0\<lparr>ms_role := RoleAssistant\<rparr>; wrap = ''appending assistant turn'' in
      andthen (check_context L wrap) (
      andthen (record_entry L wrap msg) (
      log_or_fail L (wrap @ '': logging agent turn'') (assistant_event msg us model tier))))"

definition max_logged_input :: nat where
  "max_logged_input = 2000"

definition max_logged_failed_input :: nat where
  "max_logged_failed_input = 32768"

definition truncate :: "string \<Rightarrow> nat \<Rightarrow> string" where
  "truncate s limit = (if length s \<le> limit then s else take limit s @ encode_rune 0x2026)"

definition tool_event ::
  "string \<Rightarrow> string \<Rightarrow> tool_result \<Rightarrow> string \<Rightarrow> (string \<times> string) list \<Rightarrow> event" where
  "tool_event name inp res checkpoint repos =
     (plain_event KindTool (tr_content res)
       ((if inp \<noteq> []
         then [(''input'', DText (truncate inp (if tr_error res then max_logged_failed_input else max_logged_input)))]
         else [])
        @ (if tr_error res then [(''is_error'', DBool True)] else [])
        @ (if tr_error res \<and> tr_cause res \<noteq> CauseUnspecified
           then [(''cause'', DText (cause_text (tr_cause res)))] else [])
        @ (if checkpoint \<noteq> [] then [(''checkpoint'', DText checkpoint)] else [])
        @ (if repos \<noteq> [] then [(''checkpoints'', DPairs repos)] else [])))
     \<lparr>ev_tool := name, ev_changes := tr_changes res\<rparr>"

definition tool_message :: "string \<Rightarrow> tool_result \<Rightarrow> message" where
  "tool_message call_id res =
     \<lparr>ms_role = RoleTool, ms_content = tr_content res, ms_calls = [], ms_call_id = call_id,
      ms_error = tr_error res\<rparr>"

definition append_tool_result ::
  "'w loop \<Rightarrow> tool_call \<Rightarrow> tool_result \<Rightarrow> string \<Rightarrow> (string \<times> string) list \<Rightarrow> ('w, unit) act" where
  "append_tool_result L call res checkpoint repos =
     (let wrap = ''appending tool result'' in
      andthen (check_context L wrap) (
      andthen (record_entry L wrap (tool_message (tc_id call) res)) (
      log_or_fail L (wrap @ '': logging tool turn'')
        (tool_event (tc_name call) (tc_input call) res checkpoint repos))))"

text \<open>
  \<open>SetState\<close>; under \<open>context.WithoutCancel\<close> the context is not read. The state is set before the log
  is written, so it stands when the write fails.
\<close>

definition set_state :: "'w loop \<Rightarrow> bool \<Rightarrow> lifecycle \<Rightarrow> ('w, string option) act" where
  "set_state L cancelable st =
     seq (if cancelable then context_error L else give None) (\<lambda>r.
       case r of
         Some e \<Rightarrow> give (Some (''context: '' @ e))
       | None \<Rightarrow>
           andthen (change (\<lambda>s. s\<lparr>th_state := st\<rparr>)) (
           seq (log_append L ((plain_event KindState [] [])\<lparr>ev_state := st\<rparr>)) (\<lambda>r.
             give (map_option (\<lambda>e. ''logging state: '' @ e) r))))"

definition set_state_or_fail :: "'w loop \<Rightarrow> lifecycle \<Rightarrow> ('w, unit) act" where
  "set_state_or_fail L st =
     seq (set_state L True st) (\<lambda>r. case r of Some e \<Rightarrow> fail (''setting state: '' @ e) | None \<Rightarrow> give ())"

section \<open>Time and money\<close>

definition elapsed :: "'w loop \<Rightarrow> ('w, int) act" where
  "elapsed L = seq (now L) (\<lambda>t. look (\<lambda>s. t - rn_start s))"

definition past_deadline :: "'w loop \<Rightarrow> ('w, bool) act" where
  "past_deadline L =
     seq (look rn_deadline) (\<lambda>d.
       case d of None \<Rightarrow> give False | Some d \<Rightarrow> seq (now L) (\<lambda>t. give (d \<le> t)))"

definition remaining :: "'w loop \<Rightarrow> ('w, int) act" where
  "remaining L =
     seq (look rn_deadline) (\<lambda>d.
       case d of None \<Rightarrow> give 0 | Some d \<Rightarrow> seq (now L) (\<lambda>t. give (d - t)))"

text \<open>\<open>Duration.Round(time.Second)\<close> printed: whole seconds, halves rounded away from zero.\<close>

definition round_seconds :: "int \<Rightarrow> int" where
  "round_seconds ns = (if ns < 0 then - ((500000000 - ns) div 1000000000) else (ns + 500000000) div 1000000000)"

definition show_seconds :: "int \<Rightarrow> string" where
  "show_seconds ns =
     (let s = round_seconds ns; a = \<bar>s\<bar>; h = a div 3600; m = a div 60 mod 60
      in (if s < 0 then ''-'' else [])
         @ (if h > 0 then show_int h @ ''h'' else [])
         @ (if a \<ge> 60 then show_int m @ ''m'' else [])
         @ show_int (a mod 60) @ ''s'')"

text \<open>\<open>%.4f\<close>.\<close>

definition round_half_even :: "rat \<Rightarrow> int" where
  "round_half_even q =
     (let f = \<lfloor>q\<rfloor>; d = q - of_int f
      in if d < 1/2 \<or> (d = 1/2 \<and> even f) then f else f + 1)"

definition show_fixed4 :: "rat \<Rightarrow> string" where
  "show_fixed4 q =
     (let n = round_half_even (\<bar>q\<bar> * 10000); frac = show_int (n mod 10000)
      in (if q < 0 then ''-'' else []) @ show_int (n div 10000) @ ''.''
         @ replicate (4 - length frac) (CHR ''0'') @ frac)"

definition changed_file_count :: "change_t list \<Rightarrow> nat" where
  "changed_file_count cs = card (set (map cg_path cs))"

definition price_turn :: "'w loop \<Rightarrow> string \<Rightarrow> usage \<Rightarrow> rat" where
  "price_turn L model us =
     (case lo_pricing L model of
        None \<Rightarrow> 0
      | Some p \<Rightarrow>
          let cached = (if pc_cache_read p = 0 then 0 else min (us_cache_read us) (us_input us));
              fresh = us_input us - cached
          in of_int fresh / 1000000 * pc_input p + of_int cached / 1000000 * pc_cache_read p
             + of_int (us_output us) / 1000000 * pc_output p)"

text \<open>
  \<open>priorSpend\<close>: the events that close an assistant turn, priced from what they logged; it reads the counts
  only as the map a file gives back.
\<close>

definition logged_int :: "(string \<times> detail) list \<Rightarrow> string \<Rightarrow> int" where
  "logged_int raw k = (case map_of raw k of Some (DNumber q) \<Rightarrow> if q < 0 then \<lceil>q\<rceil> else \<lfloor>q\<rfloor> | _ \<Rightarrow> 0)"

definition logged_price :: "'w loop \<Rightarrow> event \<Rightarrow> rat" where
  "logged_price L ev =
     (if ev_kind ev \<noteq> KindAgent \<or> ev_role ev = RoleNone then 0
      else case (map_of (ev_detail ev) ''usage'', map_of (ev_detail ev) ''model'') of
             (Some (DObject raw), Some (DText model)) \<Rightarrow>
               price_turn L model
                 \<lparr>us_input = logged_int raw ''input_tokens'', us_output = logged_int raw ''output_tokens'',
                  us_cache_read = logged_int raw ''cache_read_tokens'', us_reasoning = 0\<rparr>
           | _ \<Rightarrow> 0)"

definition prior_spend :: "'w loop \<Rightarrow> event list \<Rightarrow> rat" where
  "prior_spend L evs = sum_list (map (logged_price L) (logged_events evs))"

text \<open>The turns this process ran are in the ring as they were appended, and count nothing.\<close>

lemma live_turns_unpriced:
  "int (length evs) \<le> 4096 \<Longrightarrow> list_all (\<lambda>ev. map_of (ev_detail ev) ''usage'' \<in> {None, Some (DUsage (us ev))}) evs \<Longrightarrow> prior_spend L evs = 0"
  unfolding prior_spend_def logged_events_def
  by (induction evs) (auto simp: logged_price_def split: option.splits)

text \<open>Tool and queue waits push the deadline out.\<close>

definition credit_human_wait :: "'w loop \<Rightarrow> int \<Rightarrow> ('w, unit) act" where
  "credit_human_wait L waited =
     change (\<lambda>s.
       let s1 = (if waited \<ge> lo_cache_lifetime L then s\<lparr>rn_prefix_cold := True\<rparr> else s)
       in if waited \<le> 0 then s1 else s1\<lparr>rn_deadline := map_option (\<lambda>d. d + waited) (rn_deadline s1)\<rparr>)"

section \<open>Stopping\<close>

definition run_finish_checks :: "'w loop \<Rightarrow> ('w, unit) act" where
  "run_finish_checks L =
     (case lo_finisher L of
        None \<Rightarrow> give ()
      | Some finisher \<Rightarrow>
          seq (look (\<lambda>s. \<lparr>fn_task = rn_task s, fn_goal = th_goal s, fn_answer = rn_answer s,
                          fn_checkpoint = ro_checkpoint (rn_outcome s), fn_changes = rn_changes s,
                          fn_history = flatten (th_entries s)\<rparr>)) (\<lambda>f.
          seq (ext (finisher f)) (\<lambda>r.
            case r of
              Inl e \<Rightarrow> fail (''running the finish checks: '' @ e)
            | Inr findings \<Rightarrow>
                if findings = [] then give ()
                else andthen (set_outcome (\<lambda>o'. o'\<lparr>ro_findings := findings\<rparr>)) (
                     log_or_fail L ''logging the finish checks''
                       (plain_event KindFinish (''finish checks: '' @ join_with ''; '' findings)
                         [(''findings'', DTexts findings)])))))"

definition checkpoint_detail :: "'w run_t \<Rightarrow> (string \<times> detail) list" where
  "checkpoint_detail s =
     (let c = ro_checkpoint (rn_outcome s) in if c \<noteq> [] then [(''checkpoint'', DText c)] else [])"

definition verify_abandoned :: "'w loop \<Rightarrow> ('w, unit) act" where
  "verify_abandoned L =
     seq (look rn_changes) (\<lambda>changes.
       case lo_verifier L of
         None \<Rightarrow> give ()
       | Some verify \<Rightarrow>
           if changes = [] then give ()
           else seq (ext (verify changes)) (\<lambda>(feedback, verdict).
                let passed = (verdict = VerdictPass) in
                andthen (set_outcome (\<lambda>o'. o'\<lparr>ro_gates_passed := passed\<rparr>)) (
                seq (look checkpoint_detail) (\<lambda>cd.
                seq (log_append L
                       (plain_event KindGate
                         (if passed then ''gates passed on the abandoned change set''
                          else ''gates failed on the abandoned change set'')
                         ([(''pass'', DBool passed), (''abandoned'', DBool True),
                           (''verdict'', DText (gate_verdict_text verdict))]
                          @ (if passed then [] else [(''feedback'', DText feedback)]) @ cd)))
                  (\<lambda>_. give ())))))"

definition error_text :: "run_error option \<Rightarrow> string" where
  "error_text e =
     (case e of None \<Rightarrow> [] | Some (ErrCanceled t) \<Rightarrow> t | Some (ErrStreamFailed t) \<Rightarrow> t | Some (ErrOther t) \<Rightarrow> t)"

definition check_abandoned :: "'w loop \<Rightarrow> ('w, unit) act" where
  "check_abandoned L =
     seq (look rn_answer) (\<lambda>answer.
       if answer = [] then give ()
       else seq (attempt (run_finish_checks L)) (\<lambda>r.
            case r of
              Inr _ \<Rightarrow> give ()
            | Inl left \<Rightarrow>
                seq (log_append L (plain_event KindError
                       (''finish checks did not run: '' @ error_text (snd left)) []))
                  (\<lambda>_. give ())))"

definition set_stop :: "'w loop \<Rightarrow> stop \<Rightarrow> string \<Rightarrow> ('w, unit) act" where
  "set_stop L st reason =
     seq (elapsed L) (\<lambda>t.
     set_outcome (\<lambda>o'. o'\<lparr>ro_elapsed := t, ro_stop := st, ro_reason := reason\<rparr>))"

definition stop_bound :: "'w loop \<Rightarrow> stop \<Rightarrow> string \<Rightarrow> ('w, 'a) act" where
  "stop_bound L st reason =
     andthen (set_stop L st reason) (
     seq (look checkpoint_detail) (\<lambda>cd.
     andthen (log_or_fail L ''logging bound''
       (plain_event KindError reason ([(''bound'', DText (stop_text st))] @ cd))) (
     andthen (verify_abandoned L) (
     andthen (check_abandoned L) (
     andthen (set_state_or_fail L StateFailed) (
     leave_outcome None))))))"

definition stop_canceled :: "'w loop \<Rightarrow> ('w, 'a) act" where
  "stop_canceled L =
     andthen (set_stop L StopCanceled ''the run's context was canceled'') (
     seq (context_error L) (\<lambda>c.
     let cause = (case c of Some e \<Rightarrow> e | None \<Rightarrow> ''%!w(<nil>)'') in
     seq (set_state L False StateIdle) (\<lambda>r.
       case r of
         Some e \<Rightarrow> leave_outcome (Some (ErrCanceled (''agent run canceled: '' @ cause
                     @ '' (also failed logging cancellation: '' @ e @ '')'')))
       | None \<Rightarrow> leave_outcome (Some (ErrCanceled (''agent run canceled: '' @ cause))))))"

definition stop_failed :: "'w loop \<Rightarrow> string \<Rightarrow> ('w, 'a) act" where
  "stop_failed L cause =
     (let reason = ''provider stream failed: '' @ cause in
      andthen (set_stop L StopFailed reason) (
      seq (look checkpoint_detail) (\<lambda>cd.
      andthen (log_or_fail L ''logging failure'' (plain_event KindError reason cd)) (
      andthen (set_state_or_fail L StateFailed) (
      leave_outcome (Some (ErrStreamFailed (''agent: provider stream failed: '' @ cause))))))))"

definition deadline_reason :: "'w loop \<Rightarrow> ('w, string) act" where
  "deadline_reason L =
     seq (elapsed L) (\<lambda>t.
     look (\<lambda>s. ''deadline reached: '' @ show_seconds t @ '' elapsed, ''
                 @ show_nat (changed_file_count (rn_changes s)) @ '' file(s) changed''))"

definition stop_deadline :: "'w loop \<Rightarrow> ('w, 'a) act" where
  "stop_deadline L = seq (deadline_reason L) (stop_bound L StopDeadline)"

text \<open>\<open>escalate\<close>: one tier up, unless the turn in flight is on the top one.\<close>

definition escalate :: "('w, bool) act" where
  "escalate =
     seq (look rn_route) (\<lambda>c.
       if c = Deep then give False
       else andthen (change (\<lambda>s. s\<lparr>rn_escalations := Suc (rn_escalations s)\<rparr>)) (give True))"

section \<open>The end of a turn\<close>

definition handle_talked_not_acted :: "'w loop \<Rightarrow> stop \<Rightarrow> string \<Rightarrow> string \<Rightarrow> ('w, unit) act" where
  "handle_talked_not_acted L st reason critique =
     seq escalate (\<lambda>moved.
       if \<not> moved then stop_bound L st reason
       else append_user L (''appending '' @ stop_text st @ '' critique'') critique)"

definition complete :: "'w loop \<Rightarrow> ('w, unit) act" where
  "complete L =
     andthen (run_finish_checks L) (
     seq (elapsed L) (\<lambda>t.
     andthen (set_outcome (\<lambda>o'. o'\<lparr>ro_elapsed := t, ro_stop := StopComplete,
       ro_reason := ''the model ended its turn after '' @ show_int (ro_turns o')
                    @ '' turn(s) and every configured check passed''\<rparr>)) (
     andthen (set_state_or_fail L StateDone) (
     leave_outcome None))))"

definition review_text :: "review_verdict \<Rightarrow> string" where
  "review_text v =
     (case rv_result v of
        ReviewObjection \<Rightarrow> ''review objects: '' @ rv_note v
      | ReviewSkipped \<Rightarrow> ''not reviewed: '' @ rv_note v
      | ReviewOK \<Rightarrow> ''review: the diff does what the task asked''
      | ReviewNone \<Rightarrow> ''review: '')"

definition review_critique :: "string \<Rightarrow> string" where
  "review_critique objection =
     ''A review of your diff against the task objects: '' @ objection @ [nl]
     @ ''Either change the diff so it does what the task asked, or say in one sentence why the ''
     @ ''objection is wrong. Do not restate what you already did.''"

definition review_detail :: "review_verdict \<Rightarrow> int \<Rightarrow> (string \<times> detail) list" where
  "review_detail v rnd =
     [(''round'', DInt rnd), (''result'', DText (review_text_of (rv_result v)))]
     @ (if rv_note v \<noteq> [] then [(''note'', DText (rv_note v))] else [])
     @ (if rv_served v \<noteq> [] then [(''served'', DText (rv_served v))] else [])"

definition log_review :: "'w loop \<Rightarrow> review_verdict \<Rightarrow> ('w, unit) act" where
  "log_review L v =
     seq (look rn_review_rounds) (\<lambda>rnd.
     log_or_fail L ''logging review round'' (plain_event KindReview (review_text v) (review_detail v rnd)))"

definition no_change_critique :: string where
  "no_change_critique =
     ''That turn ended with no files changed on a task that asked for one. Read the last ''
     @ ''tool result if there is one, fix whatever kept the edit from applying, and make ''
     @ ''the edit before reporting anything finished.''"

definition no_change_reason :: string where
  "no_change_reason =
     ''the task asked for a change and the run left no file changed again after escalating''"

text \<open>A run that left nothing changed although a change was asked for, or an edit tool was called.\<close>

definition owes_change :: "'w loop \<Rightarrow> 'w run_t \<Rightarrow> bool" where
  "owes_change L s \<longleftrightarrow>
     rn_changes s = [] \<and> (rn_edit_attempted s \<or> looks_like_edit_task (lo_letter L) (rn_task s))"

definition review_or_complete :: "'w loop \<Rightarrow> ('w, unit) act" where
  "review_or_complete L =
     seq (look id) (\<lambda>s.
       if owes_change L s
       then handle_talked_not_acted L StopStagnant no_change_reason no_change_critique
       else (case lo_reviewer L of
               None \<Rightarrow> complete L
             | Some review \<Rightarrow>
                 if rn_changes s = [] then complete L
                 else seq (ext (review (rn_task s) (ro_checkpoint (rn_outcome s)) (rn_changes s))) (\<lambda>v.
                      andthen (change (\<lambda>s. s\<lparr>rn_review_rounds := rn_review_rounds s + 1\<rparr>)) (
                      andthen (set_outcome (\<lambda>o'. o'\<lparr>ro_review := v\<rparr>)) (
                      andthen (log_review L v) (
                      seq (look rn_review_rounds) (\<lambda>rounds.
                        if rv_result v \<noteq> ReviewObjection \<or> lo_max_review L \<le> rounds then complete L
                        else append_user L ''appending review objection'' (review_critique (rv_note v)))))))))"

definition verify_event :: "int \<Rightarrow> gate_verdict \<Rightarrow> event" where
  "verify_event rnd v =
     plain_event KindGate (''verification round '' @ show_int rnd)
       [(''round'', DInt rnd), (''pass'', DBool (v = VerdictPass)), (''verdict'', DText (gate_verdict_text v))]"

definition log_verify :: "'w loop \<Rightarrow> gate_verdict \<Rightarrow> ('w, unit) act" where
  "log_verify L v =
     seq (look rn_verify_rounds) (\<lambda>rnd. log_or_fail L ''logging verification round'' (verify_event rnd v))"

definition finish_or_verify :: "'w loop \<Rightarrow> ('w, unit) act" where
  "finish_or_verify L =
     (case lo_verifier L of
        None \<Rightarrow> review_or_complete L
      | Some verify \<Rightarrow>
          seq (look rn_changes) (\<lambda>changes.
          seq (ext (verify changes)) (\<lambda>(feedback, v).
          andthen (change (\<lambda>s. s\<lparr>rn_verify_rounds := rn_verify_rounds s + 1\<rparr>)) (
          andthen (log_verify L v) (
            if v = VerdictPass then review_or_complete L
            else if v = VerdictUnattributed then stop_bound L StopTreeState feedback
            else seq (look rn_verify_rounds) (\<lambda>rounds.
                 if lo_max_verify L \<le> rounds
                 then stop_bound L StopVerifyFailed
                        (''verification failed after '' @ show_int rounds @ '' round(s)'')
                 else append_user L ''appending verification feedback'' feedback))))))"

definition tool_names :: "'w run_t \<Rightarrow> string list" where
  "tool_names s = map ts_name (rn_tools s)"

definition handle_tool_call_as_text :: "'w loop \<Rightarrow> ('w, unit) act" where
  "handle_tool_call_as_text L =
     seq escalate (\<lambda>moved.
       if \<not> moved
       then stop_bound L StopMalformedTool ''the model wrote a tool call as text again after escalating''
       else append_user L ''appending tool-call-as-text critique''
              (''That turn made no tool call. Text describing a call does nothing, whatever markup ''
               @ ''it uses. Make the call itself, and write no prose before it.''))"

text \<open>
  \<open>emptyTurn\<close>: leaves with the provider's failure on the top tier. Where there is a tier to move up to
  it only counts the escalation, and the caller goes on with the blank text.
\<close>

definition empty_turn :: "'w loop \<Rightarrow> string \<Rightarrow> usage option \<Rightarrow> ('w, unit) act" where
  "empty_turn L content us =
     (if trim_space content \<noteq> [] then give ()
      else let cause = ''the model returned no text and no tool call''
                 @ (case us of
                      Some u \<Rightarrow> if us_reasoning u > 0
                                then '', spending '' @ show_int (us_reasoning u) @ '' bytes on reasoning it did not act on''
                                else []
                    | None \<Rightarrow> [])
           in seq escalate (\<lambda>moved. if moved then give () else stop_failed L cause))"

definition end_turn_without_calls :: "'w loop \<Rightarrow> string \<Rightarrow> ('w, unit) act" where
  "end_turn_without_calls L content =
     andthen (change (\<lambda>s. s\<lparr>rn_answer := content\<rparr>)) (
     seq (look tool_names) (\<lambda>names.
       if looks_like_tool_call_text content names then handle_tool_call_as_text L
       else if looks_like_question_to_user content then
         handle_talked_not_acted L StopAskedInProse
           ''the model offered to act instead of acting again after escalating''
           (''Do not offer to do work; do it. If you genuinely need a decision only the user ''
            @ ''can make, call the question tool. Otherwise finish the task and report what ''
            @ ''you changed.'')
       else if looks_like_announced_action content then
         handle_talked_not_acted L StopAnnouncedNotDone
           ''the model announced a next step and took none again after escalating''
           (''That turn ended by announcing a step and taking none. Make the call you just ''
            @ ''described, in this turn, with no prose before it.'')
       else finish_or_verify L))"

definition end_turn_with_no_calls :: "'w loop \<Rightarrow> string \<Rightarrow> usage option \<Rightarrow> ('w, unit) act" where
  "end_turn_with_no_calls L content us = andthen (empty_turn L content us) (end_turn_without_calls L content)"

section \<open>Permission\<close>

text \<open>
  \<open>gateKeeper.ask\<close>: an answer \<open>AllowAlways\<close> is remembered under the request's key alone.
\<close>

definition gate_ask :: "'w loop \<Rightarrow> perm_request \<Rightarrow> ('w, string + bool) act" where
  "gate_ask L req =
     seq (look rn_allowed) (\<lambda>allowed.
       if pr_key req \<in> set allowed then give (Inr True)
       else seq (ext (lo_gate L req)) (\<lambda>r.
            case r of
              Inl e \<Rightarrow> give (Inl (''asking permission: '' @ e))
            | Inr Allow \<Rightarrow> give (Inr True)
            | Inr AllowAlways \<Rightarrow>
                andthen (change (\<lambda>s. s\<lparr>rn_allowed := pr_key req # rn_allowed s\<rparr>)) (give (Inr True))
            | Inr _ \<Rightarrow> give (Inr False)))"

fun unique_paths :: "string list \<Rightarrow> string list \<Rightarrow> string list" where
  "unique_paths seen [] = []"
| "unique_paths seen (p # ps) =
     (let q = trim_space p in
      if q = [] \<or> q \<in> set seen then unique_paths seen ps else q # unique_paths (q # seen) ps)"

definition write_paths :: "'w loop \<Rightarrow> string \<Rightarrow> string list" where
  "write_paths L inp =
     (case lo_write_paths L inp of None \<Rightarrow> [] | Some (path, paths) \<Rightarrow> unique_paths [] (path # paths))"

fun ask_writes :: "'w loop \<Rightarrow> string \<Rightarrow> string list \<Rightarrow> ('w, string + bool) act" where
  "ask_writes L name [] = give (Inr True)"
| "ask_writes L name (p # ps) =
     seq (gate_ask L \<lparr>pr_thread = [], pr_tool = name, pr_action = ''write'', pr_detail = p,
                      pr_reason = ''the write gate is enabled for this run'',
                      pr_key = ''write '' @ p, pr_paths = []\<rparr>) (\<lambda>r.
       if r = Inr True then ask_writes L name ps else give r)"

definition requested :: "'w tool_t \<Rightarrow> string \<Rightarrow> perm_request option" where
  "requested t inp = (case tl_requester t of None \<Rightarrow> None | Some f \<Rightarrow> f inp)"

definition gate_check :: "'w loop \<Rightarrow> 'w tool_t \<Rightarrow> string \<Rightarrow> ('w, string + bool) act" where
  "gate_check L t inp =
     (case requested t inp of
        Some req \<Rightarrow> gate_ask L req
      | None \<Rightarrow>
          if tl_risk t \<noteq> RiskWriteLocal \<or> \<not> lo_gate_writes L then give (Inr True)
          else ask_writes L (tl_name t) (write_paths L inp))"

section \<open>Tool calls\<close>

definition edit_tool_names :: "string list" where
  "edit_tool_names = [''delete'', ''rename'', ''str_replace'', ''write'']"

text \<open>\<open>checkStagnation\<close>: consecutive errors count, refusals neither count nor reset.\<close>

definition check_stagnation :: "'w loop \<Rightarrow> string \<Rightarrow> bool \<Rightarrow> cause \<Rightarrow> ('w, unit) act" where
  "check_stagnation L name is_error c =
     (if \<not> is_error then change (\<lambda>s. s\<lparr>rn_errors := 0\<rparr>)
      else if c = CauseRefused then give ()
      else andthen (change (\<lambda>s. s\<lparr>rn_errors := rn_errors s + 1\<rparr>)) (
           seq (look rn_errors) (\<lambda>n.
             if lo_max_stagnant L \<le> 0 \<or> n < lo_max_stagnant L then give ()
             else andthen (set_outcome (\<lambda>o'. o'\<lparr>ro_stagnant_tool := name, ro_stagnant_count := n\<rparr>)) (
                  stop_bound L StopStagnant (''tool '' @ [dquote] @ name @ [dquote] @ '' failed ''
                    @ show_int n @ '' times in a row'')))))"

definition count_call :: "('w, unit) act" where
  "count_call =
     andthen (set_outcome (\<lambda>o'. o'\<lparr>ro_tool_calls := ro_tool_calls o' + 1\<rparr>))
       (change (\<lambda>s. s\<lparr>rn_turn_calls := rn_turn_calls s + 1\<rparr>))"

definition malformed_result :: "string \<Rightarrow> tool_result" where
  "malformed_result name =
     tool_fail CauseMalformed
       (''the arguments for '' @ name @ '' were not valid JSON, so the call never ran. Send it again with the ''
        @ ''arguments as one JSON object, writing any multi-line text as a single string with ''
        @ [backslash] @ ''n escapes rather than real line breaks'')"

definition handle_malformed_call :: "'w loop \<Rightarrow> tool_call \<Rightarrow> ('w, unit) act" where
  "handle_malformed_call L call =
     seq escalate (\<lambda>moved.
       if \<not> moved
       then stop_bound L StopMalformedTool (''malformed tool call '' @ [dquote] @ tc_name call @ [dquote]
              @ '': input is not valid JSON after escalating'')
       else andthen (append_tool_result L call (malformed_result (tc_name call)) [] []) (
            andthen count_call (
            check_stagnation L (tc_name call) True CauseMalformed)))"

definition repeated_result :: "string \<Rightarrow> tool_result" where
  "repeated_result name =
     tool_fail CauseRepeat
       (''you already made this exact '' @ name @ '' call and it did not move the task forward; ''
        @ ''read the previous result, then either change the arguments or stop'')"

definition handle_repeated_call :: "'w loop \<Rightarrow> tool_call \<Rightarrow> ('w, unit) act" where
  "handle_repeated_call L call =
     seq escalate (\<lambda>moved.
       if \<not> moved
       then stop_bound L StopLoopDetected (''identical repeated tool call '' @ [dquote] @ tc_name call @ [dquote]
              @ '' after escalating'')
       else andthen (append_tool_result L call (repeated_result (tc_name call)) [] []) (
            andthen count_call (
            check_stagnation L (tc_name call) True CauseBadInput)))"

definition hook_paths :: "'w tool_t \<Rightarrow> tool_call \<Rightarrow> string list" where
  "hook_paths t call = (case requested t (tc_input call) of Some req \<Rightarrow> pr_paths req | None \<Rightarrow> [])"

definition hook_detail :: "hook_decision \<Rightarrow> (string \<times> detail) list" where
  "hook_detail d = [(''reason'', DText (hd_reason d)), (''output'', DText (hd_output d)), (''exit_code'', DInt (hd_exit d))]"

definition pre_tool_use :: "'w loop \<Rightarrow> 'w tool_t \<Rightarrow> tool_call \<Rightarrow> ('w, bool) act" where
  "pre_tool_use L t call =
     (case lo_hooks L of
        None \<Rightarrow> give True
      | Some h \<Rightarrow>
          if \<not> hk_pre_configured h then give True
          else seq (ext (hk_pre h call (hook_paths t call))) (\<lambda>d.
               if hd_allow d then give True
               else andthen (log_or_fail L ''logging hook refusal''
                      ((plain_event KindPermission (''pre-tool-use hook refused '' @ tc_name call) (hook_detail d))
                       \<lparr>ev_tool := tc_name call\<rparr>))
                    (give False)))"

definition post_tool_use :: "'w loop \<Rightarrow> 'w tool_t \<Rightarrow> tool_call \<Rightarrow> tool_result \<Rightarrow> ('w, unit) act" where
  "post_tool_use L t call res =
     (case lo_hooks L of
        None \<Rightarrow> give ()
      | Some h \<Rightarrow>
          if \<not> hk_post_configured h then give ()
          else seq (ext (hk_post h call (hook_paths t call) res)) (\<lambda>d.
               if hd_allow d then give ()
               else log_or_fail L ''logging hook failure''
                      ((plain_event KindError (''post-tool-use hook failed after '' @ tc_name call) (hook_detail d))
                       \<lparr>ev_tool := tc_name call\<rparr>)))"

definition gate_changes :: "'w loop \<Rightarrow> change_t list \<Rightarrow> ('w, unit) act" where
  "gate_changes L changes =
     (case lo_change_gate L of
        None \<Rightarrow> give ()
      | Some g \<Rightarrow>
          for_each changes (\<lambda>c.
            seq (look rn_id) (\<lambda>id. ext (\<lambda>w. ((), gt_enqueue g (c\<lparr>cg_writer := id\<rparr>) w)))))"

text \<open>
  \<open>checkpointEdit\<close>: the changes grouped by repository in first-seen order, one capture each, and the
  operation of the run's own repository or else the first.
\<close>

definition repo_for :: "'w loop \<Rightarrow> string \<Rightarrow> string" where
  "repo_for L path = (if is_abs path then path_dir path else lo_repo_root L)"

definition add_repo :: "string \<Rightarrow> string \<Rightarrow> (string \<times> string list) list \<Rightarrow> (string \<times> string list) list" where
  "add_repo repo path groups =
     (case map_of groups repo of
        None \<Rightarrow> groups @ [(repo, [path])]
      | Some _ \<Rightarrow> map (\<lambda>(r, ps). if r = repo then (r, ps @ [path]) else (r, ps)) groups)"

fun group_repos ::
  "'w loop \<Rightarrow> 'w checkpointer \<Rightarrow> (string \<times> string list) list \<Rightarrow> change_t list
     \<Rightarrow> ('w, (string \<times> string list) list) act" where
  "group_repos L cp groups [] = give groups"
| "group_repos L cp groups (c # cs) =
     seq (ext (cp_repo_root cp (repo_for L (cg_path c)))) (\<lambda>r.
       case r of
         None \<Rightarrow> group_repos L cp groups cs
       | Some repo \<Rightarrow> group_repos L cp (add_repo repo (cg_path c) groups) cs)"

fun capture_repos ::
  "'w loop \<Rightarrow> 'w checkpointer \<Rightarrow> string \<Rightarrow> (string \<times> string) list \<Rightarrow> (string \<times> string list) list
     \<Rightarrow> ('w, string \<times> (string \<times> string) list) act" where
  "capture_repos L cp primary repos [] = give (if repos = [] then [] else primary, repos)"
| "capture_repos L cp primary repos ((repo, paths) # gs) =
     seq (ext (cp_capture cp repo)) (\<lambda>r.
       case r of
         Inl e \<Rightarrow> capture_repos L cp primary repos gs
       | Inr op' \<Rightarrow>
           andthen (set_outcome (\<lambda>o'. o'\<lparr>ro_edits := ro_edits o' @ [\<lparr>ep_repo = repo, ep_op = op', ep_paths = paths\<rparr>]\<rparr>))
             (capture_repos L cp (if primary = [] \<or> repo = lo_repo_root L then op' else primary)
                (repos @ [(repo, op')]) gs))"

definition checkpoint_edit :: "'w loop \<Rightarrow> change_t list \<Rightarrow> ('w, string \<times> (string \<times> string) list) act" where
  "checkpoint_edit L changes =
     (case lo_checkpointer L of
        None \<Rightarrow> give ([], [])
      | Some cp \<Rightarrow>
          if changes = [] then give ([], [])
          else seq (group_repos L cp [] changes) (capture_repos L cp [] []))"

text \<open>A refused call, and a call to an unknown tool, is answered without running anything.\<close>

definition answer_call :: "'w loop \<Rightarrow> tool_call \<Rightarrow> tool_result \<Rightarrow> ('w, tool_result) act" where
  "answer_call L call res = andthen (append_tool_result L call res [] []) (give res)"

definition quoted :: "string \<Rightarrow> string" where
  "quoted s = [dquote] @ s @ [dquote]"

definition dispatch :: "'w loop \<Rightarrow> 'w tool_t \<Rightarrow> tool_call \<Rightarrow> ('w, tool_result) act" where
  "dispatch L t call =
     seq (ext (tl_run t (tc_input call))) (\<lambda>(waits, r).
     andthen (for_each (filter (\<lambda>d. 0 < d) waits) (credit_human_wait L)) (
     let res = (case r of Inl e \<Rightarrow> tool_fail CauseIO (tc_name call @ '': '' @ e) | Inr res \<Rightarrow> res) in
     andthen (change (\<lambda>s. s\<lparr>rn_changes := rn_changes s @ tr_changes res\<rparr>)) (
     andthen (gate_changes L (tr_changes res)) (
     seq (checkpoint_edit L (tr_changes res)) (\<lambda>(op', repos).
     andthen (post_tool_use L t call res) (
     andthen (append_tool_result L call res op' repos) (
     give res)))))))"

definition run_tool :: "'w loop \<Rightarrow> tool_call \<Rightarrow> ('w, tool_result) act" where
  "run_tool L call =
     (case lo_tools L (tc_name call) of
        None \<Rightarrow> answer_call L call (tool_fail CauseBadInput (''unknown tool '' @ quoted (tc_name call)))
      | Some t \<Rightarrow>
          seq (gate_check L t (tc_input call)) (\<lambda>allowed.
            case allowed of
              Inl e \<Rightarrow> fail (''checking permission for '' @ quoted (tc_name call) @ '': '' @ e)
            | Inr ok \<Rightarrow>
                if \<not> ok
                then answer_call L call (tool_fail CauseRefused (''permission denied for '' @ quoted (tc_name call)))
                else seq (pre_tool_use L t call) (\<lambda>proceed.
                     if \<not> proceed
                     then answer_call L call (tool_fail CauseRefused (''pre-tool-use hook refused '' @ quoted (tc_name call)))
                     else dispatch L t call)))"

definition repeats_last :: "'w run_t \<Rightarrow> tool_call \<Rightarrow> bool" where
  "repeats_last s call \<longleftrightarrow>
     (case rn_last_call s of
        None \<Rightarrow> False
      | Some l \<Rightarrow> tc_name l = tc_name call \<and> tc_input l = tc_input call)"

definition flood_reason :: "'w loop \<Rightarrow> string" where
  "flood_reason L =
     ''per-turn tool-call flood guard tripped: '' @ show_int (lo_max_calls L) @ '' calls in one turn''"

text \<open>\<open>runTools\<close>: a malformed or repeated call ends the loop over the turn's calls.\<close>

fun run_tools :: "'w loop \<Rightarrow> tool_call list \<Rightarrow> ('w, unit) act" where
  "run_tools L [] = give ()"
| "run_tools L (call # calls) =
     seq (past_deadline L) (\<lambda>late.
     if late then stop_deadline L else
     seq (look rn_turn_calls) (\<lambda>n.
     if lo_max_calls L \<le> n then stop_bound L StopToolCallFlood (flood_reason L) else
     if \<not> json_valid (tc_input call) then handle_malformed_call L call else
     andthen (provided (tc_name call \<in> set edit_tool_names) (change (\<lambda>s. s\<lparr>rn_edit_attempted := True\<rparr>))) (
     seq (look (\<lambda>s. repeats_last s call)) (\<lambda>repeated.
     if repeated then handle_repeated_call L call else
     seq (run_tool L call) (\<lambda>res.
     andthen (change (\<lambda>s. s\<lparr>rn_last_call := Some call\<rparr>)) (
     andthen count_call (
     andthen (check_stagnation L (tc_name call) (tr_error res) (tr_cause res)) (
     run_tools L calls))))))))"

section \<open>The request\<close>

definition context_window :: "'w loop \<Rightarrow> int" where
  "context_window L = (if lo_context_window L \<le> 0 then fast_context_budget else lo_context_window L)"

definition route_input :: "'w loop \<Rightarrow> 'w run_t \<Rightarrow> int \<Rightarrow> input" where
  "route_input L s estimated =
     \<lparr>in_override = rn_override s, in_window = context_window L, in_estimated = estimated,
      in_prior_failures = rn_escalations s\<rparr>"

text \<open>\<open>messages\<close>: the compacted prefix, then what was appended since, duplicates replaced.\<close>

definition view_entries :: "'w run_t \<Rightarrow> turn_message list" where
  "view_entries s =
     (if rn_compacted_through s > 0 then rn_compacted s @ drop (rn_compacted_through s) (th_entries s)
      else th_entries s)"

definition messages :: "'w loop \<Rightarrow> 'w run_t \<Rightarrow> message list" where
  "messages L s = flatten (fst (dedupe_tool_reads (lo_hash L) (view_entries s)))"

definition tools_for :: "'w run_t \<Rightarrow> choice \<Rightarrow> tool_spec list" where
  "tools_for s c = (if c = Fast \<and> rn_fast_tools s \<noteq> [] then rn_fast_tools s else rn_tools s)"

definition estimate_request :: "string \<Rightarrow> tool_spec list \<Rightarrow> message list \<Rightarrow> int" where
  "estimate_request system tools history =
     (int (length system)
      + sum_list (map (\<lambda>t. int (length (ts_name t) + length (ts_description t) + length (ts_schema t))) tools)
      + sum_list (map (\<lambda>m. int (length (ms_content m))) history)) div 4"

definition estimate_run :: "'w run_t \<Rightarrow> message list \<Rightarrow> int" where
  "estimate_run s history = estimate_request (rn_system s) (tools_for s Fast) history"

definition compact_budget :: "'w loop \<Rightarrow> 'w run_t \<Rightarrow> int \<Rightarrow> int" where
  "compact_budget L s estimated =
     context_budget (dc_choice (route (route_input L s estimated))) (context_window L)"

definition cold_compact_trigger :: rat where
  "cold_compact_trigger = 1/4"

definition observation_share :: rat where
  "observation_share = 2/5"

definition compact_event :: "compact_report \<Rightarrow> event" where
  "compact_event report =
     plain_event KindUsage
       (''compacted history, saving ~'' @ show_int (cr_total report) @ '' tokens'')
       [(''tokens_saved'', DInt (cr_total report)),
        (''rules'', DSavings (map (\<lambda>(n, sv). (n, sv_tokens sv, sv_items sv)) (cr_rules report)))]"

definition maybe_compact :: "'w loop \<Rightarrow> int \<Rightarrow> ('w, unit) act" where
  "maybe_compact L estimated =
     (if \<not> lo_compact_enabled L then give () else
      seq (look rn_prefix_cold) (\<lambda>cold.
      andthen (change (\<lambda>s. s\<lparr>rn_prefix_cold := False\<rparr>)) (
      seq (look id) (\<lambda>s.
        let trigger = (if cold then cold_compact_trigger else lo_compact_trigger L);
            budget = compact_budget L s estimated
        in if of_int estimated < trigger * of_int budget then give ()
           else if length (th_entries s) \<le> rn_compacted_through s then give ()
           else let opts = (lo_compact L)\<lparr>co_observation_budget := \<lfloor>observation_share * of_int budget\<rfloor>\<rparr>;
                    (fresh, report) = compact (lo_hash L) (drop (rn_compacted_through s) (th_entries s)) opts
                in if cr_total report \<le> 0 then give ()
                   else andthen (change (\<lambda>s. s\<lparr>rn_compacted := rn_compacted s @ fresh,
                                                rn_compacted_through := length (th_entries s)\<rparr>)) (
                        andthen (set_outcome (\<lambda>o'. o'\<lparr>ro_compacted := ro_compacted o' + cr_total report\<rparr>)) (
                        log_or_fail L ''logging compaction'' (compact_event report)))))))"

definition nudge_text :: "int \<Rightarrow> string" where
  "nudge_text turns =
     ''You have changed no file in '' @ show_int turns @ '' turns. More reading is not progress on this task. ''
     @ ''Make the smallest edit that starts it now, and read again afterwards if you need to.''"

definition max_nudges :: int where
  "max_nudges = 2"

definition can_edit :: "'w run_t \<Rightarrow> bool" where
  "can_edit s \<longleftrightarrow> list_ex (\<lambda>t. ts_name t \<in> set edit_tool_names) (rn_tools s)"

definition nudge_if_nothing_changed :: "'w loop \<Rightarrow> ('w, unit) act" where
  "nudge_if_nothing_changed L =
     seq (look id) (\<lambda>s.
       if lo_before_nudge L \<le> 0 \<or> max_nudges \<le> rn_nudges s \<or> rn_changes s \<noteq> [] then give ()
       else if ro_turns (rn_outcome s) < lo_before_nudge L * (rn_nudges s + 1) then give ()
       else if \<not> can_edit s then give ()
       else andthen (change (\<lambda>s. s\<lparr>rn_nudges := rn_nudges s + 1\<rparr>))
            (append_user L ''appending no-change nudge'' (nudge_text (ro_turns (rn_outcome s)))))"

section \<open>What the gates found\<close>

definition log_false_alarms :: "'w loop \<Rightarrow> 'w change_gate \<Rightarrow> ('w, unit) act" where
  "log_false_alarms L g =
     seq (look rn_id) (\<lambda>id.
     seq (ext (gt_false_alarms g id)) (\<lambda>names.
     for_each names (\<lambda>name.
       andthen (set_outcome (\<lambda>o'. o'\<lparr>ro_false_alarms := ro_false_alarms o' + 1\<rparr>))
         (log_or_fail L ''logging a gate false alarm''
           (plain_event KindGate (name @ '' passed over the change set it just failed over'')
             [(''gate'', DText name), (''pass'', DBool True), (''false_alarm'', DBool True)])))))"

definition escalate_if_stuck :: "'w loop \<Rightarrow> 'w change_gate \<Rightarrow> ('w, unit) act" where
  "escalate_if_stuck L g =
     seq (look rn_id) (\<lambda>id.
     seq (ext (gt_stuck g id)) (\<lambda>stuck.
     seq (look rn_stuck_escalated) (\<lambda>already.
       case stuck of
         None \<Rightarrow> give ()
       | Some name \<Rightarrow>
           if already then give ()
           else andthen (change (\<lambda>s. s\<lparr>rn_stuck_escalated := True\<rparr>)) (
                seq escalate (\<lambda>moved.
                log_or_fail L ''logging the escalation''
                  (plain_event KindGate
                    (name @ (if moved then '' has failed the same way across edits; moving up a tier''
                             else '' has failed the same way across edits, with no tier above to move into''))
                    [(''gate'', DText name), (''pass'', DBool False), (''escalated'', DBool moved)]))))))"

definition collect_gate_feedback :: "'w loop \<Rightarrow> ('w, unit) act" where
  "collect_gate_feedback L =
     (case lo_change_gate L of
        None \<Rightarrow> give ()
      | Some g \<Rightarrow>
          andthen (log_false_alarms L g) (
          andthen (escalate_if_stuck L g) (
          seq (look rn_id) (\<lambda>id.
          seq (ext (gt_take_feedback g id)) (\<lambda>(feedback, failed).
            if feedback = [] then give ()
            else andthen (log_or_fail L ''logging the gate feedback''
                   (plain_event KindGate
                     (if failed then ''gates reported a failure to the run'' else ''gates reported a pass to the run'')
                     [(''pass'', DBool (\<not> failed)), (''delivered'', DBool True)]))
                 (append_user L ''appending gate feedback'' feedback))))))"

section \<open>A turn\<close>

record streamed =
  st_text :: string
  st_calls :: "tool_call list"
  st_usage :: "usage option"
  st_stop :: stop_reason

fun consume :: "'w loop \<Rightarrow> streamed \<Rightarrow> chunk list \<Rightarrow> ('w, string + streamed) act" where
  "consume L acc [] = give (Inr acc)"
| "consume L acc (ChunkText t # cs) =
     seq (log_append L (plain_event KindAgent t [])) (\<lambda>r.
       case r of
         Some e \<Rightarrow> give (Inl (''logging text chunk: '' @ e))
       | None \<Rightarrow> consume L (acc\<lparr>st_text := st_text acc @ t\<rparr>) cs)"
| "consume L acc (ChunkToolCall c # cs) =
     consume L (case c of Some call \<Rightarrow> acc\<lparr>st_calls := st_calls acc @ [call]\<rparr> | None \<Rightarrow> acc) cs"
| "consume L acc (ChunkDone u r # cs) = consume L (acc\<lparr>st_usage := u, st_stop := r\<rparr>) cs"

definition no_stream :: streamed where
  "no_stream = \<lparr>st_text = [], st_calls = [], st_usage = None, st_stop = StopUnset\<rparr>"

text \<open>
  \<open>stream\<close>: the provider's chunks in order; a provider error ends the iteration after the chunks before
  it. What is left of the deadline bounds the stream when it is positive.
\<close>

definition stream :: "'w loop \<Rightarrow> 'w provider \<Rightarrow> request \<Rightarrow> ('w, string + streamed) act" where
  "stream L provider req =
     seq (remaining L) (\<lambda>left.
     seq (ext (provider req (if left > 0 then Some left else None))) (\<lambda>(chunks, err).
     seq (consume L no_stream chunks) (\<lambda>r.
       case (r, err) of
         (Inr acc, Some e) \<Rightarrow> give (Inl e)
       | _ \<Rightarrow> give r)))"

definition admit_slot :: "'w loop \<Rightarrow> choice \<Rightarrow> ('w, bool) act" where
  "admit_slot L c =
     (case lo_slots L of
        None \<Rightarrow> give False
      | Some admit \<Rightarrow>
          if c \<noteq> Fast then give False
          else seq (now L) (\<lambda>from.
               seq (look rn_id) (\<lambda>id.
               seq (ext (admit id)) (\<lambda>r.
                 case r of
                   Some e \<Rightarrow> fail (''admitting a local turn: '' @ e)
                 | None \<Rightarrow>
                     seq (now L) (\<lambda>t.
                     andthen (change (\<lambda>s. if 0 < t - from
                                then s\<lparr>rn_deadline := map_option (\<lambda>d. d + (t - from)) (rn_deadline s)\<rparr> else s))
                       (give True))))))"

definition release_slot :: "'w loop \<Rightarrow> bool \<Rightarrow> ('w, unit) act" where
  "release_slot L held = provided held (ext (\<lambda>w. ((), lo_release L w)))"

definition stream_failed :: "'w loop \<Rightarrow> string \<Rightarrow> string \<Rightarrow> ('w, unit) act" where
  "stream_failed L model cause =
     seq (context_error L) (\<lambda>c.
     if c \<noteq> None then stop_canceled L else
     seq (past_deadline L) (\<lambda>late.
     if late then stop_deadline L else
     seq escalate (\<lambda>moved.
     if \<not> moved then stop_failed L cause else
     seq (look rn_route) (\<lambda>tier.
     log_or_fail L ''logging tier failure''
       (plain_event KindError (choice_text tier @ '' tier failed and the turn moved up: '' @ cause)
         [(''tier'', DText (choice_text tier)), (''model'', DText model), (''escalated'', DBool True)])))))"

definition build_request :: "'w loop \<Rightarrow> 'w run_t \<Rightarrow> decision \<Rightarrow> message list \<Rightarrow> request" where
  "build_request L s d msgs =
     \<lparr>rq_thinking = (case rn_thinking s of Some b \<Rightarrow> Some b | None \<Rightarrow> tier_for (lo_thinking L) d),
      rq_model = tier_for (lo_models L) d, rq_system = rn_system s, rq_messages = msgs,
      rq_tools = tools_for s (dc_choice d),
      rq_presence = (if dc_choice d = Fast then lo_fast_presence L else 0),
      rq_repeat = (if dc_choice d = Fast then lo_fast_repeat L else 0)\<rparr>"

text \<open>Routing the turn: the message list of the history, and the tier kept in \<open>rn_route\<close>.\<close>

definition route_turn :: "'w loop \<Rightarrow> ('w, decision \<times> request) act" where
  "route_turn L =
     seq (look id) (\<lambda>s.
       let msgs = messages L s;
           d = route (route_input L s (estimate_run s msgs))
       in andthen (change (\<lambda>s. s\<lparr>rn_route := dc_choice d\<rparr>)) (give (d, build_request L s d msgs)))"

definition charge :: "'w loop \<Rightarrow> string \<Rightarrow> usage option \<Rightarrow> ('w, unit) act" where
  "charge L model us =
     (case us of
        None \<Rightarrow> give ()
      | Some u \<Rightarrow>
          change (\<lambda>s. let o' = rn_outcome s; spend = ro_spend o' + price_turn L model u in
            s\<lparr>rn_outcome := o'\<lparr>ro_input_tokens := ro_input_tokens o' + us_input u,
                               ro_output_tokens := ro_output_tokens o' + us_output u,
                               ro_spend := spend, ro_thread_spend := rn_prior_spend s + spend\<rparr>\<rparr>))"

definition over_ceiling :: "'w loop \<Rightarrow> 'w run_t \<Rightarrow> bool" where
  "over_ceiling L s \<longleftrightarrow> lo_max_spend L > 0 \<and> lo_max_spend L \<le> ro_spend (rn_outcome s)"

definition ceiling_reason :: "'w loop \<Rightarrow> 'w run_t \<Rightarrow> string" where
  "ceiling_reason L s =
     ''hosted spend ceiling reached: $'' @ show_fixed4 (ro_spend (rn_outcome s)) @ '' spent (ceiling $''
     @ show_fixed4 (lo_max_spend L) @ '') after '' @ show_int (ro_turns (rn_outcome s)) @ '' turn(s); ''
     @ ''thread '' @ rn_id s @ '' has cost $'' @ show_fixed4 (ro_thread_spend (rn_outcome s))
     @ '' and keeps its transcript, so another prompt continues it''"

text \<open>What follows a response: the calls recovered from prose, the transcript, the bill, the next step.\<close>

definition recover_calls :: "'w loop \<Rightarrow> streamed \<Rightarrow> ('w, streamed) act" where
  "recover_calls L r =
     (if st_calls r \<noteq> [] then give r
      else seq (look tool_names) (\<lambda>names.
           let found = recover_text_calls (lo_params L) names (st_text r) in
           andthen (set_outcome (\<lambda>o'. o'\<lparr>ro_recovered := ro_recovered o' + int (length found)\<rparr>))
             (give (if found = [] then r else r\<lparr>st_calls := found, st_stop := StopToolUse\<rparr>))))"

definition after_response :: "'w loop \<Rightarrow> string \<Rightarrow> streamed \<Rightarrow> ('w, unit) act" where
  "after_response L model r0 =
     seq (recover_calls L r0) (\<lambda>r.
     seq (look rn_route) (\<lambda>tier.
     andthen (append_assistant L
       \<lparr>ms_role = RoleAssistant, ms_content = st_text r, ms_calls = st_calls r, ms_call_id = [], ms_error = False\<rparr>
       (st_usage r) model (choice_text tier)) (
     andthen (charge L model (st_usage r)) (
     seq (look id) (\<lambda>s.
       if over_ceiling L s then stop_bound L StopCostCeiling (ceiling_reason L s)
       else if st_stop r = StopEndTurn then
         (if st_calls r = [] then end_turn_with_no_calls L (st_text r) (st_usage r) else finish_or_verify L)
       else run_tools L (st_calls r))))))"

definition begin_turn :: "('w, unit) act" where
  "begin_turn =
     andthen (change (\<lambda>s. s\<lparr>th_turn := th_turn s + 1, rn_turn_calls := 0\<rparr>))
       (set_outcome (\<lambda>o'. o'\<lparr>ro_turns := ro_turns o' + 1\<rparr>))"

text \<open>\<open>turn\<close> after its counters are set.\<close>

definition turn_body :: "'w loop \<Rightarrow> ('w, unit) act" where
  "turn_body L =
     andthen (collect_gate_feedback L) (
     andthen (nudge_if_nothing_changed L) (
     seq (look id) (\<lambda>s.
     andthen (maybe_compact L (estimate_run s (messages L s))) (
     seq (route_turn L) (\<lambda>(d, req).
     seq (admit_slot L (dc_choice d)) (\<lambda>held.
     seq (stream L (tier_for (lo_providers L) d) req) (\<lambda>r.
     andthen (release_slot L held) (
       case r of Inl e \<Rightarrow> stream_failed L (rq_model req) e | Inr resp \<Rightarrow> after_response L (rq_model req) resp))))))))"

definition turn :: "'w loop \<Rightarrow> ('w, unit) act" where
  "turn L = andthen begin_turn (turn_body L)"

section \<open>The run\<close>

definition max_turns_reason :: "'w loop \<Rightarrow> ('w, string) act" where
  "max_turns_reason L =
     seq (elapsed L) (\<lambda>t.
     give (''max turns reached (dead-man'' @ [squote] @ ''s switch): '' @ show_int (lo_max_turns L) @ '', ''
           @ show_seconds t @ '' elapsed''))"

text \<open>One round of \<open>drive\<close>'s loop: the bounds checked between turns, then a turn.\<close>

definition drive_round :: "'w loop \<Rightarrow> ('w, unit) act" where
  "drive_round L =
     seq (context_error L) (\<lambda>c.
     if c \<noteq> None then stop_canceled L else
     seq (past_deadline L) (\<lambda>late.
     if late then stop_deadline L else
     seq (look (\<lambda>s. ro_turns (rn_outcome s))) (\<lambda>n.
     if lo_max_turns L \<le> n then seq (max_turns_reason L) (stop_bound L StopMaxTurns) else turn L)))"

text \<open>\<open>drive\<close> loops until a round leaves; \<open>None\<close> would be a run that never ends.\<close>

partial_function (option) drive :: "'w loop \<Rightarrow> 'w run_t \<Rightarrow> ('w leaving \<times> 'w run_t) option" where
  "drive L s =
     (case drive_round L s of
        (Leave x, t) \<Rightarrow> Some (x, t)
      | (Go u, t) \<Rightarrow> drive L t)"

declare drive.simps [code]

text \<open>
  \<open>Loop.Run\<close>: what precedes the first turn. The state given holds the thread; every field of the run is
  set afresh. A failure here reports \<open>startupOutcome\<close>.
\<close>

record prefix_t =
  px_system :: string
  px_ledger :: string
  px_tools :: "tool_spec list"
  px_fast_tools :: "tool_spec list"

definition standing_goal :: "'w run_t \<Rightarrow> string" where
  "standing_goal s =
     (if th_goal s = [] then []
      else if list_ex (\<lambda>m. ms_role m = RoleUser \<and> contains (ms_content m) (th_goal s)) (flatten (th_entries s)) then []
      else th_goal s)"

definition system_text :: "prefix_t \<Rightarrow> 'w run_t \<Rightarrow> string" where
  "system_text px s =
     px_system px
     @ (if px_ledger px \<noteq> [] then [nl, nl] @ ''## Session ledger'' @ [nl] @ px_ledger px else [])
     @ (if standing_goal s \<noteq> [] then [nl, nl] @ ''## Goal'' @ [nl] @ standing_goal s else [])"

definition capture_checkpoint :: "'w loop \<Rightarrow> ('w, string + string) act" where
  "capture_checkpoint L =
     (case lo_checkpointer L of
        None \<Rightarrow> give (Inr [])
      | Some cp \<Rightarrow> seq (ext (cp_capture cp (lo_repo_root L))) (\<lambda>r.
          give (case r of Inl e \<Rightarrow> Inl (''capturing checkpoint: '' @ e) | Inr c \<Rightarrow> Inr c)))"

definition leave_startup :: "'w loop \<Rightarrow> string \<Rightarrow> run_error option \<Rightarrow> ('w, 'a) act" where
  "leave_startup L checkpoint e =
     seq (context_error L) (\<lambda>c.
     leave (empty_outcome\<lparr>ro_checkpoint := checkpoint,
                          ro_stop := (if c \<noteq> None then StopCanceled else StopNone)\<rparr>, e))"

definition or_startup :: "'w loop \<Rightarrow> string \<Rightarrow> ('w, unit) act \<Rightarrow> ('w, unit) act" where
  "or_startup L checkpoint m =
     seq (attempt m) (\<lambda>r. case r of Inr u \<Rightarrow> give u | Inl left \<Rightarrow> leave_startup L checkpoint (snd left))"

definition fresh_run :: "'w loop \<Rightarrow> prefix_t \<Rightarrow> string \<Rightarrow> choice \<Rightarrow> bool option \<Rightarrow> string \<Rightarrow> int \<Rightarrow> string \<Rightarrow> 'w run_t \<Rightarrow> 'w run_t" where
  "fresh_run L px prompt override thinking system start checkpoint s =
     (let prior = prior_spend L (th_log s) in
      s\<lparr>rn_system := system, rn_tools := px_tools px, rn_fast_tools := px_fast_tools px,
        rn_override := override, rn_thinking := thinking, rn_task := prompt, rn_start := start,
        rn_prior_spend := prior,
        rn_deadline := (if lo_max_wall L > 0 then Some (start + lo_max_wall L) else None),
        rn_allowed := [], rn_last_call := None, rn_answer := [], rn_changes := [], rn_compacted := [],
        rn_compacted_through := 0, rn_route := NoChoice,
        rn_outcome := empty_outcome\<lparr>ro_checkpoint := checkpoint, ro_thread_spend := prior\<rparr>,
        rn_verify_rounds := 0, rn_review_rounds := 0, rn_turn_calls := 0, rn_errors := 0,
        rn_escalations := 0, rn_nudges := 0, rn_stuck_escalated := False, rn_edit_attempted := False,
        rn_prefix_cold := False\<rparr>)"

definition begin_run :: "'w loop \<Rightarrow> prefix_t \<Rightarrow> string \<Rightarrow> choice \<Rightarrow> bool option \<Rightarrow> ('w, unit) act" where
  "begin_run L px prompt override thinking =
     seq (look (system_text px)) (\<lambda>system.
     seq (look rn_id) (\<lambda>id.
     andthen (case lo_change_gate L of None \<Rightarrow> give () | Some g \<Rightarrow> ext (\<lambda>w. ((), gt_begin g id w))) (
     seq (capture_checkpoint L) (\<lambda>cp.
       case cp of
         Inl e \<Rightarrow> leave_startup L [] (Some (ErrOther e))
       | Inr checkpoint \<Rightarrow>
           andthen (or_startup L checkpoint (append_user L ''appending prompt'' prompt)) (
           andthen (or_startup L checkpoint (set_state_or_fail L StateWorking)) (
           seq (now L) (\<lambda>start.
           change (fresh_run L px prompt override thinking system start checkpoint))))))))"

definition run_agent ::
  "'w loop \<Rightarrow> prefix_t \<Rightarrow> string \<Rightarrow> choice \<Rightarrow> bool option \<Rightarrow> 'w run_t \<Rightarrow> ('w leaving \<times> 'w run_t) option" where
  "run_agent L px prompt override thinking s =
     (case begin_run L px prompt override thinking s of
        (Leave x, t) \<Rightarrow> Some (x, t)
      | (Go u, t) \<Rightarrow> drive L t)"

end
