(* ===== verification/AgentKept.thy ===== *)
theory AgentKept
  imports AgentLoop
begin

text \<open>
  What a run of the loop keeps, proved once: the locale \<open>run_kept\<close> fixes a preorder on run states and
  assumes that each elementary change the methods make keeps it; then every method does, up to the
  counters of a turn, which \<open>run_counted\<close> adds. The interpretations below and in AgentFacts choose the
  relation: the history and the log only grow, the transcript's numbers move together, and every
  remembered permission was given.
\<close>

locale run_log = kept R E for R :: "'w run_t \<Rightarrow> 'w run_t \<Rightarrow> bool" and E :: "'w leaving \<Rightarrow> 'w run_t \<Rightarrow> bool" +
  fixes L :: "'w loop"
  assumes k_world: "R s (s\<lparr>rn_world := w\<rparr>)"
    and k_log: "R s (s\<lparr>th_log := th_log s @ [e]\<rparr>)"
    and k_entry: "R s (s\<lparr>th_entries := th_entries s @ [en]\<rparr>)"
    and k_goal: "R s (s\<lparr>th_goal := g\<rparr>)"
    and k_state: "R s (s\<lparr>th_state := st\<rparr>)"
    and k_outcome: "ro_turns o' = ro_turns (rn_outcome s) \<Longrightarrow> ro_tool_calls o' = ro_tool_calls (rn_outcome s) \<Longrightarrow>
          ro_stop o' = ro_stop (rn_outcome s) \<Longrightarrow> ro_review o' = ro_review (rn_outcome s) \<Longrightarrow>
          R s (s\<lparr>rn_outcome := o'\<rparr>)"
    and k_empty: "E (empty_outcome, e') s"
begin

lemma k_ext [intro]: "keeps R E (ext f)"
  by (auto simp: keeps_def ext_def k_world split: prod.splits)

lemma k_fail [intro]: "keeps R E (fail e)"
  unfolding fail_def by (rule keeps_leave) (rule k_empty)

lemma k_now [intro]: "keeps R E (now M)"
  unfolding now_def by (rule k_ext)

lemma k_set_outcome:
  "(\<And>o'. ro_turns (f o') = ro_turns o' \<and> ro_tool_calls (f o') = ro_tool_calls o' \<and> ro_stop (f o') = ro_stop o' \<and>
     ro_review (f o') = ro_review o') \<Longrightarrow> keeps R E (set_outcome f)"
  unfolding set_outcome_def by (rule keeps_change) (simp add: k_outcome)

lemma k_context_error [intro]: "keeps R E (context_error L)"
  unfolding context_error_def by blast

lemma k_log_append [intro]: "keeps R E (log_append L ev)"
  unfolding log_append_def by (intro keeps_seq k_ext keeps_option keeps_give keeps_andthen keeps_change k_log)

lemma k_log_or_fail [intro]: "keeps R E (log_or_fail L p ev)"
  unfolding log_or_fail_def by (intro keeps_seq k_log_append keeps_option k_fail keeps_give)

lemma k_record_entry [intro]: "keeps R E (record_entry L p m)"
  unfolding record_entry_def by (intro keeps_seq keeps_look k_ext keeps_option k_fail keeps_change k_entry)

lemma k_check_context [intro]: "keeps R E (check_context L p)"
  unfolding check_context_def by (intro keeps_seq k_context_error keeps_option k_fail keeps_give)

lemma k_append_user [intro]: "keeps R E (append_user L p c)"
  unfolding append_user_def
  by (intro keeps_andthen k_check_context k_record_entry k_log_or_fail keeps_change)
    (auto intro: k_goal kept_refl)

lemma k_append_assistant [intro]: "keeps R E (append_assistant L m u d t)"
  unfolding append_assistant_def Let_def
  by (intro keeps_andthen k_check_context k_record_entry k_log_or_fail)

lemma k_append_tool_result [intro]: "keeps R E (append_tool_result L c r k rs)"
  unfolding append_tool_result_def Let_def
  by (intro keeps_andthen k_check_context k_record_entry k_log_or_fail)

lemma k_set_state [intro]: "keeps R E (set_state L b st)"
  unfolding set_state_def
  by (intro keeps_seq keeps_if k_context_error keeps_option keeps_give keeps_andthen keeps_change k_state k_log_append)

lemma k_set_state_or_fail [intro]: "keeps R E (set_state_or_fail L st)"
  unfolding set_state_or_fail_def by (intro keeps_seq k_set_state keeps_option k_fail keeps_give)

lemma k_elapsed [intro]: "keeps R E (elapsed L)"
  unfolding elapsed_def by (intro keeps_seq k_now keeps_look)

lemma k_past_deadline [intro]: "keeps R E (past_deadline L)"
  unfolding past_deadline_def by (intro keeps_seq keeps_look keeps_option keeps_give k_now)

lemma k_remaining [intro]: "keeps R E (remaining L)"
  unfolding remaining_def by (intro keeps_seq keeps_look keeps_option keeps_give k_now)

lemma k_finish_checks [intro]: "keeps R E (run_finish_checks L)"
  unfolding run_finish_checks_def
  by (intro keeps_option keeps_give keeps_seq keeps_look k_ext keeps_sum k_fail keeps_if keeps_andthen
      k_set_outcome k_log_or_fail) simp

lemma k_verify_abandoned [intro]: "keeps R E (verify_abandoned L)"
  unfolding verify_abandoned_def Let_def
  by (intro keeps_seq keeps_look keeps_option keeps_give keeps_if k_ext keeps_prod keeps_andthen
      k_set_outcome k_log_append) simp

lemma k_check_abandoned [intro]: "keeps R E (check_abandoned L)"
  unfolding check_abandoned_def
  by (intro keeps_seq keeps_look keeps_if keeps_give keeps_attempt [where E' = E] k_finish_checks keeps_sum k_log_append)

end

text \<open>The changes a tool call and the request make, and the tier.\<close>

locale run_base = run_log R E L for R :: "'w run_t \<Rightarrow> 'w run_t \<Rightarrow> bool" and E and L +
  assumes k_deadline: "R s (s\<lparr>rn_deadline := d\<rparr>)"
    and k_cold: "R s (s\<lparr>rn_prefix_cold := b\<rparr>)"
    and k_escalations: "R s (s\<lparr>rn_escalations := Suc (rn_escalations s)\<rparr>)"
    and k_answer: "R s (s\<lparr>rn_answer := a\<rparr>)"
    and k_allowed: "lo_gate L req w = (Inr AllowAlways, w') \<Longrightarrow> R s (s\<lparr>rn_allowed := pr_key req # rn_allowed s\<rparr>)"
    and k_changes: "R s (s\<lparr>rn_changes := rn_changes s @ cs\<rparr>)"
    and k_compacted: "R s (s\<lparr>rn_compacted := rn_compacted s @ v, rn_compacted_through := length (th_entries s)\<rparr>)"
    and k_stuck: "R s (s\<lparr>rn_stuck_escalated := True\<rparr>)"
    and k_route: "R s (s\<lparr>rn_route := c\<rparr>)"
begin

lemma k_credit [intro]: "keeps R E (credit_human_wait L d)"
  unfolding credit_human_wait_def
proof (rule keeps_change)
  fix s :: "'w run_t"
  let ?s = "if lo_cache_lifetime L \<le> d then s\<lparr>rn_prefix_cold := True\<rparr> else s"
  have "R s ?s" by (simp add: k_cold kept_refl)
  moreover have "R ?s (?s\<lparr>rn_deadline := map_option (\<lambda>t. t + d) (rn_deadline ?s)\<rparr>)" by (rule k_deadline)
  ultimately show "R s (let s1 = ?s in if d \<le> 0 then s1
      else s1\<lparr>rn_deadline := map_option (\<lambda>t. t + d) (rn_deadline s1)\<rparr>)"
    unfolding Let_def by (auto intro: kept_trans)
qed

lemma k_escalate [intro]: "keeps R E escalate"
  unfolding escalate_def
  by (intro keeps_seq keeps_look keeps_if keeps_give keeps_andthen keeps_change k_escalations)

lemma k_gate_ask [intro]: "keeps R E (gate_ask L req)"
proof -
  have "\<exists>a t. gate_ask L req s = (Go a, t) \<and> R s t" for s
  proof (cases "pr_key req \<in> set (rn_allowed s)")
    case True
    then show ?thesis by (simp add: gate_ask_def seq_def prog_simps kept_refl)
  next
    case False
    obtain r w where g: "lo_gate L req (rn_world s) = (r, w)" by (cases "lo_gate L req (rn_world s)")
    have "r = Inr AllowAlways \<Longrightarrow>
        R (s\<lparr>rn_world := w\<rparr>) (s\<lparr>rn_world := w, rn_allowed := pr_key req # rn_allowed s\<rparr>)"
      using k_allowed [of req "rn_world s" w "s\<lparr>rn_world := w\<rparr>"] g by simp
    then show ?thesis using False g k_world [of s w]
      by (auto simp: gate_ask_def seq_def ext_def andthen_def prog_simps split: sum.splits answer.splits
          intro: kept_trans)
  qed
  then show ?thesis unfolding keeps_def by (metis (mono_tags, lifting) old.prod.case res.case(1))
qed

lemma k_ask_writes [intro]: "keeps R E (ask_writes L n ps)"
  by (induction ps) (auto intro!: keeps_give keeps_seq k_gate_ask)

lemma k_gate_check [intro]: "keeps R E (gate_check L t i)"
  unfolding gate_check_def by (intro keeps_option keeps_if keeps_give k_ask_writes k_gate_ask)

lemma k_pre_tool_use [intro]: "keeps R E (pre_tool_use L t c)"
  unfolding pre_tool_use_def
  by (intro keeps_option keeps_give keeps_if keeps_seq k_ext keeps_andthen k_log_or_fail)

lemma k_post_tool_use [intro]: "keeps R E (post_tool_use L t c r)"
  unfolding post_tool_use_def by (intro keeps_option keeps_give keeps_if keeps_seq k_ext k_log_or_fail)

lemma k_gate_changes [intro]: "keeps R E (gate_changes L cs)"
  unfolding gate_changes_def by (intro keeps_option keeps_give keeps_for_each keeps_seq keeps_look k_ext)

lemma k_group_repos [intro]: "keeps R E (group_repos L cp gs cs)"
  by (induction cs arbitrary: gs) (auto intro!: keeps_give keeps_seq k_ext split: option.splits)

lemma k_capture_repos [intro]: "keeps R E (capture_repos L cp p rs gs)"
proof (induction gs arbitrary: p rs)
  case (Cons g gs)
  then show ?case
    by (cases g) (auto intro!: keeps_seq k_ext keeps_andthen k_set_outcome split: sum.splits)
qed (auto intro: keeps_give)

lemma k_checkpoint_edit [intro]: "keeps R E (checkpoint_edit L cs)"
  unfolding checkpoint_edit_def
  by (intro keeps_option keeps_give keeps_if keeps_seq k_group_repos k_capture_repos)

lemma k_answer_call [intro]: "keeps R E (answer_call L c r)"
  unfolding answer_call_def by (intro keeps_andthen k_append_tool_result keeps_give)

lemma k_dispatch [intro]: "keeps R E (dispatch L t c)"
  unfolding dispatch_def Let_def
  by (intro keeps_seq k_ext keeps_prod keeps_andthen keeps_for_each k_credit keeps_change k_changes
      k_gate_changes k_checkpoint_edit k_post_tool_use k_append_tool_result keeps_give)

lemma k_run_tool [intro]: "keeps R E (run_tool L c)"
  unfolding run_tool_def
  by (intro keeps_option k_answer_call keeps_seq k_gate_check keeps_sum k_fail keeps_if k_pre_tool_use k_dispatch)

lemma k_maybe_compact [intro]: "keeps R E (maybe_compact L n)"
  unfolding maybe_compact_def Let_def case_prod_unfold
  by (intro keeps_if keeps_give keeps_seq keeps_look keeps_andthen keeps_change k_cold
      k_compacted k_set_outcome k_log_or_fail) simp

lemma k_collect [intro]: "keeps R E (collect_gate_feedback L)"
  unfolding collect_gate_feedback_def log_false_alarms_def escalate_if_stuck_def
  by (intro keeps_option keeps_give keeps_andthen keeps_seq keeps_look k_ext keeps_for_each k_set_outcome
      k_log_or_fail keeps_if keeps_change k_stuck k_escalate keeps_prod k_append_user) simp

lemma k_consume [intro]: "keeps R E (consume L acc cs)"
proof (induction cs arbitrary: acc)
  case (Cons c cs)
  then show ?case
    by (cases c) (auto intro!: keeps_give keeps_seq k_log_append keeps_option)
qed (auto intro: keeps_give)

lemma k_stream [intro]: "keeps R E (stream L p rq)"
  unfolding stream_def
  by (intro keeps_seq k_remaining k_ext keeps_prod k_consume) (auto intro: keeps_give split: sum.split option.split)

lemma k_admit_slot [intro]: "keeps R E (admit_slot L c)"
  unfolding admit_slot_def
  by (intro keeps_option keeps_give keeps_if keeps_seq k_now keeps_look k_ext k_fail keeps_andthen keeps_change)
    (simp add: k_deadline kept_refl)

lemma k_release_slot [intro]: "keeps R E (release_slot L b)"
  unfolding release_slot_def by (intro keeps_provided k_ext)

lemma k_route_turn [intro]: "keeps R E (route_turn L)"
  unfolding route_turn_def Let_def by (intro keeps_seq keeps_look keeps_andthen keeps_change k_route keeps_give)

lemma k_charge [intro]: "keeps R E (charge L m u)"
  unfolding charge_def by (intro keeps_option keeps_give keeps_change) (simp add: Let_def k_outcome)

lemma k_recover_calls [intro]: "keeps R E (recover_calls L r)"
  unfolding recover_calls_def Let_def
  by (intro keeps_if keeps_give keeps_seq keeps_look keeps_andthen k_set_outcome) simp

end

text \<open>
  Stopping and finishing leave the loop, so what they keep is an interface of its own. A relation that
  any outcome keeps, and a result that may be the run's own, satisfy it.
\<close>

locale run_kept = run_base R E L for R :: "'w run_t \<Rightarrow> 'w run_t \<Rightarrow> bool" and E and L +
  assumes k_stop_bound [intro]: "st \<noteq> StopComplete \<Longrightarrow> keeps R E (stop_bound L st r :: ('w, unit) act)"
    and k_stop_canceled [intro]: "keeps R E (stop_canceled L :: ('w, unit) act)"
    and k_stop_failed [intro]: "keeps R E (stop_failed L c :: ('w, unit) act)"
    and k_finish_or_verify [intro]: "keeps R E (finish_or_verify L)"
begin

lemma k_stop_deadline [intro]: "keeps R E (stop_deadline L :: ('w, unit) act)"
  unfolding stop_deadline_def deadline_reason_def by (intro keeps_seq k_elapsed keeps_look k_stop_bound) simp

lemma k_talked [intro]: "st \<noteq> StopComplete \<Longrightarrow> keeps R E (handle_talked_not_acted L st r c)"
  unfolding handle_talked_not_acted_def by (intro keeps_seq k_escalate keeps_if k_stop_bound k_append_user)

lemma k_end_turn [intro]: "keeps R E (end_turn_with_no_calls L c u)"
  unfolding end_turn_with_no_calls_def empty_turn_def end_turn_without_calls_def handle_tool_call_as_text_def Let_def
  by (intro keeps_andthen keeps_if keeps_give keeps_seq k_escalate k_stop_failed keeps_change k_answer keeps_look
      k_stop_bound k_append_user k_talked k_finish_or_verify) simp_all

lemma k_stream_failed [intro]: "keeps R E (stream_failed L m c)"
  unfolding stream_failed_def
  by (intro keeps_seq k_context_error keeps_if k_stop_canceled k_past_deadline k_stop_deadline k_escalate
      k_stop_failed keeps_look k_log_or_fail)

end

locale run_plain = run_base R E L for R :: "'w run_t \<Rightarrow> 'w run_t \<Rightarrow> bool" and E and L +
  assumes k_stopped: "ro_turns o' = ro_turns (rn_outcome s) \<Longrightarrow> ro_tool_calls o' = ro_tool_calls (rn_outcome s) \<Longrightarrow>
          R s (s\<lparr>rn_outcome := o'\<rparr>)"
    and k_own: "E (rn_outcome s, e) s"
    and k_reviews: "R s (s\<lparr>rn_review_rounds := rn_review_rounds s + 1\<rparr>)"
    and k_verifies: "R s (s\<lparr>rn_verify_rounds := rn_verify_rounds s + 1\<rparr>)"
begin

lemma k_leave_outcome [intro]: "keeps R E (leave_outcome e)"
  by (rule keepsI) (auto simp: leave_outcome_def seq_def prog_simps kept_refl k_own)

lemma k_set_stopped:
  "(\<And>o'. ro_turns (f o') = ro_turns o' \<and> ro_tool_calls (f o') = ro_tool_calls o') \<Longrightarrow> keeps R E (set_outcome f)"
  unfolding set_outcome_def by (rule keeps_change) (simp add: k_stopped)

lemma k_set_stop [intro]: "keeps R E (set_stop L st r)"
  unfolding set_stop_def by (intro keeps_seq k_elapsed k_set_stopped) simp

lemma p_stop_bound [intro]: "keeps R E (stop_bound L st r)"
  unfolding stop_bound_def
  by (intro keeps_andthen k_set_stop keeps_seq keeps_look k_log_or_fail k_verify_abandoned k_check_abandoned
      k_set_state_or_fail k_leave_outcome)

lemma p_stop_canceled [intro]: "keeps R E (stop_canceled L)"
  unfolding stop_canceled_def Let_def
  by (intro keeps_andthen k_set_stop keeps_seq k_context_error k_set_state keeps_option k_leave_outcome)

lemma p_stop_failed [intro]: "keeps R E (stop_failed L c)"
  unfolding stop_failed_def Let_def
  by (intro keeps_andthen k_set_stop keeps_seq keeps_look k_log_or_fail k_set_state_or_fail k_leave_outcome)

lemma k_talked_plain: "keeps R E (handle_talked_not_acted L st r c)"
  unfolding handle_talked_not_acted_def by (intro keeps_seq k_escalate keeps_if p_stop_bound k_append_user)

lemma k_complete [intro]: "keeps R E (complete L)"
  unfolding complete_def
  by (intro keeps_andthen k_finish_checks keeps_seq k_elapsed k_set_stopped k_set_state_or_fail k_leave_outcome) simp

lemma k_review_or_complete [intro]: "keeps R E (review_or_complete L)"
  unfolding review_or_complete_def log_review_def
  by (intro keeps_seq keeps_look keeps_if k_talked_plain keeps_option k_complete k_ext keeps_andthen keeps_change
      k_reviews k_set_stopped k_log_or_fail k_append_user) simp

lemma p_finish_or_verify [intro]: "keeps R E (finish_or_verify L)"
  unfolding finish_or_verify_def log_verify_def
  by (intro keeps_option k_review_or_complete keeps_seq keeps_look k_ext keeps_prod keeps_andthen keeps_change
      k_verifies k_log_or_fail keeps_if p_stop_bound k_append_user)

end

sublocale run_plain \<subseteq> run_kept
  by unfold_locales (rule p_stop_bound p_stop_canceled p_stop_failed p_finish_or_verify)+

text \<open>
  The changes only \<open>runTools\<close> and the nudge make: the call counters, which move together, the last call,
  the error count and the nudge count.
\<close>

definition counted :: "'w run_t \<Rightarrow> 'w run_t" where
  "counted s = s\<lparr>rn_outcome := (rn_outcome s)\<lparr>ro_tool_calls := ro_tool_calls (rn_outcome s) + 1\<rparr>,
                 rn_turn_calls := rn_turn_calls s + 1\<rparr>"

lemma count_call_eq: "count_call = change counted"
  by (simp add: fun_eq_iff count_call_def andthen_def seq_def set_outcome_def counted_def prog_simps)

locale run_counted = run_kept R E L for R :: "'w run_t \<Rightarrow> 'w run_t \<Rightarrow> bool" and E and L +
  assumes k_counted: "R s (counted s)"
    and k_last_call: "R s (s\<lparr>rn_last_call := lc\<rparr>)"
    and k_errors: "R s (s\<lparr>rn_errors := n\<rparr>)"
    and k_edit_attempted: "R s (s\<lparr>rn_edit_attempted := True\<rparr>)"
    and k_nudges: "R s (s\<lparr>rn_nudges := rn_nudges s + 1\<rparr>)"
begin

lemma k_count_call [intro]: "keeps R E count_call"
  unfolding count_call_eq by (rule keeps_change) (rule k_counted)

lemma k_check_stagnation [intro]: "keeps R E (check_stagnation L n e c)"
  unfolding check_stagnation_def
  by (intro keeps_if keeps_change k_errors keeps_give keeps_andthen keeps_seq keeps_look k_set_outcome k_stop_bound) simp_all

lemma k_malformed [intro]: "keeps R E (handle_malformed_call L c)"
  unfolding handle_malformed_call_def
  by (intro keeps_seq k_escalate keeps_if k_stop_bound keeps_andthen k_append_tool_result k_count_call k_check_stagnation) simp_all

lemma k_repeated [intro]: "keeps R E (handle_repeated_call L c)"
  unfolding handle_repeated_call_def
  by (intro keeps_seq k_escalate keeps_if k_stop_bound keeps_andthen k_append_tool_result k_count_call k_check_stagnation) simp_all

lemma k_run_tools [intro]: "keeps R E (run_tools L cs)"
proof (induction cs)
  case (Cons c cs)
  then show ?case
    unfolding run_tools.simps
    by (intro keeps_seq k_past_deadline keeps_if k_stop_deadline keeps_look k_stop_bound k_malformed keeps_andthen
        keeps_provided keeps_change k_edit_attempted k_repeated k_run_tool k_last_call k_count_call k_check_stagnation) simp_all
qed (simp add: keeps_give)

lemma k_nudge [intro]: "keeps R E (nudge_if_nothing_changed L)"
  unfolding nudge_if_nothing_changed_def
  by (intro keeps_seq keeps_look keeps_if keeps_give keeps_andthen keeps_change k_nudges k_append_user)

lemma k_after_response [intro]: "keeps R E (after_response L m r)"
  unfolding after_response_def
  by (intro keeps_seq k_recover_calls keeps_look keeps_andthen k_append_assistant k_charge keeps_if k_stop_bound
      k_end_turn k_finish_or_verify k_run_tools) simp_all

lemma k_turn_body: "keeps R E (turn_body L)"
  unfolding turn_body_def
  by (intro keeps_andthen k_collect k_nudge keeps_seq keeps_look k_maybe_compact k_route_turn keeps_prod k_admit_slot
      k_stream k_release_slot keeps_sum k_stream_failed k_after_response)

end

end
