(* ===== verification/AgentFacts.thy ===== *)
theory AgentFacts
  imports AgentKept
begin

text \<open>
  What holds of a whole run of the loop: it ends, within its bounds, and only adds to what the thread
  holds; what its outcome \<open>complete\<close> means; which tools can run; and the turns it mishandles.
\<close>

section \<open>A run ends, and only adds\<close>

definition history_grows :: "'w run_t \<Rightarrow> 'w run_t \<Rightarrow> bool" where
  "history_grows s t \<longleftrightarrow> prefix (th_entries s) (th_entries t) \<and> prefix (th_log s) (th_log t) \<and> rn_id t = rn_id s"

definition grows :: "'w run_t \<Rightarrow> 'w run_t \<Rightarrow> bool" where
  "grows s t \<longleftrightarrow> history_grows s t \<and> prefix (rn_changes s) (rn_changes t)
     \<and> ro_turns (rn_outcome t) = ro_turns (rn_outcome s)
     \<and> ro_tool_calls (rn_outcome t) - ro_tool_calls (rn_outcome s) = rn_turn_calls t - rn_turn_calls s"

definition own :: "'w leaving \<Rightarrow> 'w run_t \<Rightarrow> bool" where
  "own x t \<longleftrightarrow> fst x = rn_outcome t \<or> fst x = empty_outcome"

lemma history_grows_refl [simp]: "history_grows s s"
  by (simp add: history_grows_def)

lemma history_grows_trans: "history_grows s t \<Longrightarrow> history_grows t u \<Longrightarrow> history_grows s u"
  by (auto simp: history_grows_def intro: prefix_order.trans)

lemma grows_trans: "grows s t \<Longrightarrow> grows t u \<Longrightarrow> grows s u"
  by (auto simp: grows_def intro: history_grows_trans prefix_order.trans)

interpretation grow: run_plain grows own L for L
  by unfold_locales
    (simp_all add: grows_trans, simp_all add: grows_def history_grows_def own_def)

interpretation grow: run_counted grows own L for L
  by unfold_locales (simp_all add: grows_def history_grows_def counted_def)

text \<open>The number of calls of the turn in hand changes only where \<open>runTools\<close> counts one.\<close>

definition same_calls :: "'w run_t \<Rightarrow> 'w run_t \<Rightarrow> bool" where
  "same_calls s t \<longleftrightarrow> rn_turn_calls t = rn_turn_calls s"

interpretation calls: run_plain same_calls "\<lambda>_ _. True" L for L
  by unfold_locales (simp_all add: same_calls_def)

definition calls_within :: "'w loop \<Rightarrow> 'w run_t \<Rightarrow> bool" where
  "calls_within L s \<longleftrightarrow> rn_turn_calls s \<le> max 0 (lo_max_calls L)"

definition bounded_calls :: "'w loop \<Rightarrow> ('w, 'a) act \<Rightarrow> bool" where
  "bounded_calls L m \<longleftrightarrow> triple (calls_within L) m (\<lambda>_. calls_within L) (\<lambda>_. calls_within L)"

lemma bounded_same: "keeps same_calls E m \<Longrightarrow> bounded_calls L m"
  unfolding bounded_calls_def triple_def
  by (auto simp: calls_within_def same_calls_def dest: keeps_end split: prod.splits res.splits)

lemma bounded_seq: "bounded_calls L m \<Longrightarrow> (\<And>a. bounded_calls L (f a)) \<Longrightarrow> bounded_calls L (seq m f)"
  unfolding bounded_calls_def by (rule triple_seq)

lemma bounded_andthen: "bounded_calls L m \<Longrightarrow> bounded_calls L k \<Longrightarrow> bounded_calls L (andthen m k)"
  unfolding andthen_def by (rule bounded_seq)

lemma bounded_if: "(b \<Longrightarrow> bounded_calls L m) \<Longrightarrow> (\<not> b \<Longrightarrow> bounded_calls L k) \<Longrightarrow> bounded_calls L (if b then m else k)"
  by simp

lemma bounded_change: "(\<And>s. rn_turn_calls (f s) = rn_turn_calls s) \<Longrightarrow> bounded_calls L (change f)"
  unfolding bounded_calls_def by (rule triple_change) (simp add: calls_within_def)

lemma bounded_stagnation: "bounded_calls L (check_stagnation L n e c)"
  unfolding check_stagnation_def
  by (intro bounded_if bounded_change bounded_andthen bounded_seq)
    (auto intro: bounded_same [OF calls.keeps_give] bounded_same [OF calls.keeps_look]
      bounded_same [OF calls.k_stop_bound] bounded_same [OF calls.k_set_outcome])

text \<open>After the flood guard has passed, one more call fits.\<close>

definition guarded :: "'w loop \<Rightarrow> int \<Rightarrow> ('w, 'a) act \<Rightarrow> bool" where
  "guarded L n m \<longleftrightarrow>
     triple (\<lambda>s. rn_turn_calls s = n \<and> n < lo_max_calls L) m (\<lambda>_. calls_within L) (\<lambda>_. calls_within L)"

lemma guarded_bounded: "bounded_calls L m \<Longrightarrow> guarded L n m"
  unfolding bounded_calls_def guarded_def by (erule triple_pre) (auto simp: calls_within_def)

lemma guarded_seq:
  assumes "keeps same_calls E m" "\<And>a. guarded L n (f a)"
  shows "guarded L n (seq m f)"
  unfolding guarded_def
proof (rule triple_seq)
  show "triple (\<lambda>s. rn_turn_calls s = n \<and> n < lo_max_calls L) m
      (\<lambda>_ s. rn_turn_calls s = n \<and> n < lo_max_calls L) (\<lambda>_. calls_within L)"
    unfolding triple_def using keeps_end [OF assms(1)]
    by (fastforce simp: same_calls_def calls_within_def split: res.splits)
qed (use assms(2) in \<open>simp add: guarded_def\<close>)

lemma guarded_andthen: "keeps same_calls E m \<Longrightarrow> guarded L n k \<Longrightarrow> guarded L n (andthen m k)"
  unfolding andthen_def by (rule guarded_seq)

lemma guarded_if: "(b \<Longrightarrow> guarded L n m) \<Longrightarrow> (\<not> b \<Longrightarrow> guarded L n k) \<Longrightarrow> guarded L n (if b then m else k)"
  by simp

lemma guarded_count: "bounded_calls L k \<Longrightarrow> guarded L n (andthen count_call k)"
  unfolding guarded_def bounded_calls_def count_call_eq
  by (erule triple_andthen [rotated], rule triple_change) (auto simp: calls_within_def counted_def)

lemma same_change: "(\<And>s. rn_turn_calls (f s) = rn_turn_calls s) \<Longrightarrow> keeps same_calls (\<lambda>_ _. True) (change f :: ('w, unit) act)"
  by (rule calls.keeps_change) (simp add: same_calls_def)

lemmas guarded_stop = guarded_bounded [OF bounded_same [OF calls.k_stop_bound]]

lemma guarded_handled:
  "guarded L n (handle_malformed_call L c)" "guarded L n (handle_repeated_call L c)"
  unfolding handle_malformed_call_def handle_repeated_call_def
  by (intro guarded_seq [OF calls.k_escalate] guarded_if guarded_stop guarded_count bounded_stagnation
      guarded_andthen [OF calls.k_append_tool_result]; simp)+

lemma bounded_look_calls:
  assumes "\<And>n. lo_max_calls L \<le> n \<Longrightarrow> bounded_calls L (f n)" "\<And>n. n < lo_max_calls L \<Longrightarrow> guarded L n (f n)"
  shows "bounded_calls L (seq (look rn_turn_calls) f)"
  unfolding bounded_calls_def
proof (rule triple_seq)
  show "triple (calls_within L) (look rn_turn_calls) (\<lambda>n s. calls_within L s \<and> rn_turn_calls s = n) (\<lambda>_. calls_within L)"
    by (rule triple_look) simp
  fix n
  show "triple (\<lambda>s. calls_within L s \<and> rn_turn_calls s = n) (f n) (\<lambda>_. calls_within L) (\<lambda>_. calls_within L)"
  proof (cases "lo_max_calls L \<le> n")
    case True
    show ?thesis by (rule triple_pre [OF assms(1) [OF True, unfolded bounded_calls_def]]) simp
  next
    case False
    then show ?thesis
      by (intro triple_pre [OF assms(2) [of n, unfolded guarded_def]]) auto
  qed
qed

lemma bounded_run_tools: "bounded_calls L (run_tools L cs)"
proof (induction cs)
  case Nil
  show ?case by (simp add: bounded_same [OF calls.keeps_give])
next
  case (Cons c cs)
  note rules = bounded_seq [OF bounded_same [OF calls.k_past_deadline]] bounded_if bounded_look_calls
    bounded_same [OF calls.k_stop_deadline] bounded_same [OF calls.k_stop_bound] guarded_if guarded_handled
    guarded_andthen [OF calls.keeps_provided [OF same_change]] guarded_seq [OF calls.keeps_look]
    guarded_seq [OF calls.k_run_tool] guarded_andthen [OF same_change] guarded_count
    bounded_andthen [OF bounded_stagnation] Cons.IH
  show ?case unfolding run_tools.simps by (intro rules; simp)
qed

lemma bounded_nudge: "bounded_calls L (nudge_if_nothing_changed L)"
  unfolding nudge_if_nothing_changed_def
  by (intro bounded_seq bounded_if bounded_andthen bounded_change bounded_same [OF calls.keeps_give]
      bounded_same [OF calls.keeps_look] bounded_same [OF calls.k_append_user]) simp

lemma bounded_turn_body: "bounded_calls L (turn_body L)"
proof -
  note same = bounded_same [OF calls.k_collect] bounded_nudge bounded_same [OF calls.keeps_look]
    bounded_same [OF calls.k_maybe_compact] bounded_same [OF calls.k_route_turn] bounded_same [OF calls.k_admit_slot]
    bounded_same [OF calls.k_stream] bounded_same [OF calls.k_release_slot] bounded_same [OF calls.k_stream_failed]
    bounded_same [OF calls.k_recover_calls] bounded_same [OF calls.k_append_assistant] bounded_same [OF calls.k_charge]
    bounded_same [OF calls.k_stop_bound] bounded_same [OF calls.k_end_turn] bounded_same [OF calls.k_finish_or_verify]
    bounded_run_tools
  have after: "bounded_calls L (after_response L m r)" for m r
    unfolding after_response_def by (intro bounded_seq bounded_andthen bounded_if same; simp)
  show ?thesis
    unfolding turn_body_def
    by (intro bounded_seq bounded_andthen same) (auto intro!: bounded_seq bounded_andthen same after split: sum.splits prod.splits)
qed

text \<open>One round: it leaves before the turn, or it is a turn.\<close>

definition begun :: "'w run_t \<Rightarrow> 'w run_t" where
  "begun s = s\<lparr>th_turn := th_turn s + 1, rn_turn_calls := 0,
               rn_outcome := (rn_outcome s)\<lparr>ro_turns := ro_turns (rn_outcome s) + 1\<rparr>\<rparr>"

lemma begin_turn_eq: "begin_turn = change begun"
  by (simp add: fun_eq_iff begin_turn_def andthen_def seq_def set_outcome_def begun_def prog_simps)

lemma turn_eq: "turn L s = turn_body L (begun s)"
  by (simp add: turn_def begin_turn_eq andthen_def seq_def prog_simps)

definition round_grows :: "'w loop \<Rightarrow> 'w run_t \<Rightarrow> 'w run_t \<Rightarrow> bool" where
  "round_grows L s t \<longleftrightarrow> history_grows s t \<and> prefix (rn_changes s) (rn_changes t)
     \<and> (ro_turns (rn_outcome t) = ro_turns (rn_outcome s) \<and> ro_tool_calls (rn_outcome t) = ro_tool_calls (rn_outcome s)
        \<or> ro_turns (rn_outcome s) < lo_max_turns L \<and> ro_turns (rn_outcome t) = ro_turns (rn_outcome s) + 1
          \<and> ro_tool_calls (rn_outcome t) - ro_tool_calls (rn_outcome s) \<le> max 0 (lo_max_calls L))"

lemma turn_round:
  assumes "turn L s = (r, t)" "ro_turns (rn_outcome s) < lo_max_turns L"
  shows "round_grows L s t \<and> ro_turns (rn_outcome t) = ro_turns (rn_outcome s) + 1"
proof -
  have b: "turn_body L (begun s) = (r, t)" using assms(1) by (simp add: turn_eq)
  have "grows (begun s) t" using keeps_end [OF grow.k_turn_body b] .
  moreover have "calls_within L t"
    using bounded_turn_body [of L] b
    by (cases r) (auto simp: bounded_calls_def triple_def calls_within_def begun_def dest!: spec [of _ "begun s"])
  ultimately show ?thesis using assms(2)
    by (auto simp: round_grows_def grows_def history_grows_def begun_def calls_within_def)
qed

text \<open>What is read and written between turns, where no call is counted.\<close>

definition between :: "'w run_t \<Rightarrow> 'w run_t \<Rightarrow> bool" where
  "between s t \<longleftrightarrow> grows s t \<and> same_calls s t"

interpretation between: run_plain between own L for L
  by unfold_locales
    (auto simp: between_def same_calls_def own_def intro: grows_trans, auto simp: grows_def history_grows_def)

lemma never_goes_stop:
  "never_goes (leave_outcome e)" "never_goes (stop_bound L st c)" "never_goes (stop_canceled L)"
  "never_goes (stop_failed L c)" "never_goes (stop_deadline L)"
proof -
  show *: "never_goes (leave_outcome e)" for e
    unfolding leave_outcome_def by (intro never_goes_seq never_goes_leave)
  show bound: "never_goes (stop_bound L st c)" for st c
    unfolding stop_bound_def by (intro never_goes_andthen never_goes_seq *)
  show "never_goes (stop_canceled L)"
    unfolding stop_canceled_def Let_def
    by (intro never_goes_andthen never_goes_seq) (simp add: * split: option.split)
  show "never_goes (stop_failed L c)"
    unfolding stop_failed_def Let_def by (intro never_goes_andthen never_goes_seq *)
  show "never_goes (stop_deadline L)"
    unfolding stop_deadline_def by (intro never_goes_seq bound)
qed

definition round_ok :: "'w loop \<Rightarrow> ('w, unit) act \<Rightarrow> bool" where
  "round_ok L m \<longleftrightarrow>
     (\<forall>s r t. m s = (r, t) \<longrightarrow> round_grows L s t
        \<and> (case r of Go u \<Rightarrow> ro_turns (rn_outcome s) < lo_max_turns L
                             \<and> ro_turns (rn_outcome t) = ro_turns (rn_outcome s) + 1
           | Leave x \<Rightarrow> own x t))"

lemma round_ok_stop:
  assumes "keeps between own m" "never_goes m"
  shows "round_ok L m"
  unfolding round_ok_def
proof (intro allI impI)
  fix s r t
  assume m: "m s = (r, t)"
  with assms(2) obtain x where x: "r = Leave x" by (blast dest: never_goesD)
  have "between s t" "own x t" using keeps_end [OF assms(1) m] keeps_leaves [OF assms(1)] m x by auto
  then show "round_grows L s t \<and> (case r of Go u \<Rightarrow> ro_turns (rn_outcome s) < lo_max_turns L
      \<and> ro_turns (rn_outcome t) = ro_turns (rn_outcome s) + 1 | Leave x \<Rightarrow> own x t)"
    by (simp add: x round_grows_def between_def grows_def same_calls_def)
qed

lemma round_ok_seq:
  assumes "keeps between own m" "\<And>a. round_ok L (f a)"
  shows "round_ok L (seq m f)"
  unfolding round_ok_def
proof (intro allI impI)
  fix s r t
  assume m: "seq m f s = (r, t)"
  have b: "round_grows L u t \<Longrightarrow> between s u \<Longrightarrow> round_grows L s t
      \<and> ro_turns (rn_outcome u) = ro_turns (rn_outcome s)" for u
    by (auto simp: round_grows_def between_def grows_def same_calls_def
        intro: history_grows_trans prefix_order.trans)
  show "round_grows L s t \<and> (case r of Go u \<Rightarrow> ro_turns (rn_outcome s) < lo_max_turns L
      \<and> ro_turns (rn_outcome t) = ro_turns (rn_outcome s) + 1 | Leave x \<Rightarrow> own x t)"
  proof (cases "m s")
    case (Pair p u)
    show ?thesis
    proof (cases p)
      case (Go a)
      with m Pair have f: "f a u = (r, t)" by (simp add: seq_def)
      have "between s u" using keeps_end [OF assms(1) Pair] .
      with assms(2) [of a] f b [of u] show ?thesis
        unfolding round_ok_def by (fastforce split: res.splits)
    next
      case (Leave x)
      with m Pair have e: "r = Leave x" "t = u" by (simp_all add: seq_def)
      have "between s u" "own x u" using keeps_end [OF assms(1) Pair] keeps_leaves [OF assms(1)] Pair Leave by auto
      then show ?thesis by (simp add: e round_grows_def between_def grows_def same_calls_def)
    qed
  qed
qed

lemma round_ok_if: "(b \<Longrightarrow> round_ok L m) \<Longrightarrow> (\<not> b \<Longrightarrow> round_ok L k) \<Longrightarrow> round_ok L (if b then m else k)"
  by simp

lemma turn_leaves_own: "turn L s = (Leave x, t) \<Longrightarrow> own x t"
  using keeps_leaves [OF grow.k_turn_body] by (simp add: turn_eq)

lemma round_ok_turn:
  "round_ok L (seq (look (\<lambda>s. ro_turns (rn_outcome s)))
     (\<lambda>n. if lo_max_turns L \<le> n then seq (max_turns_reason L) (stop_bound L StopMaxTurns) else turn L))"
proof -
  have stop: "round_ok L (seq (max_turns_reason L) (stop_bound L StopMaxTurns))"
    unfolding max_turns_reason_def
    by (intro round_ok_seq round_ok_stop between.p_stop_bound never_goes_stop between.keeps_seq
        between.k_elapsed between.keeps_give)
  show ?thesis
    unfolding round_ok_def
  proof (intro allI impI)
    fix s r t
    assume m: "seq (look (\<lambda>s. ro_turns (rn_outcome s)))
      (\<lambda>n. if lo_max_turns L \<le> n then seq (max_turns_reason L) (stop_bound L StopMaxTurns) else turn L) s = (r, t)"
    show "round_grows L s t \<and> (case r of Go u \<Rightarrow> ro_turns (rn_outcome s) < lo_max_turns L
        \<and> ro_turns (rn_outcome t) = ro_turns (rn_outcome s) + 1 | Leave x \<Rightarrow> own x t)"
    proof (cases "lo_max_turns L \<le> ro_turns (rn_outcome s)")
      case True
      with m stop show ?thesis by (simp add: seq_def [of "look _"] prog_simps round_ok_def)
    next
      case False
      with m have "turn L s = (r, t)" by (simp add: seq_def [of "look _"] prog_simps)
      with turn_round [of L s r t] turn_leaves_own [of L s _ t] False show ?thesis by (cases r) auto
    qed
  qed
qed

lemma round_ok_drive: "round_ok L (drive_round L)"
  unfolding drive_round_def
  by (intro round_ok_seq round_ok_if round_ok_turn round_ok_stop between.k_context_error between.p_stop_canceled
      between.k_past_deadline between.k_stop_deadline never_goes_stop)

lemma round_grows_trans:
  "round_grows L s t \<Longrightarrow> history_grows s t \<and> prefix (rn_changes s) (rn_changes t)"
  by (simp add: round_grows_def)

definition run_bounds :: "'w loop \<Rightarrow> 'w run_t \<Rightarrow> 'w run_t \<Rightarrow> bool" where
  "run_bounds L s t \<longleftrightarrow> history_grows s t \<and> prefix (rn_changes s) (rn_changes t)
     \<and> ro_turns (rn_outcome s) \<le> ro_turns (rn_outcome t)
     \<and> ro_turns (rn_outcome t) \<le> max (ro_turns (rn_outcome s)) (lo_max_turns L)
     \<and> ro_tool_calls (rn_outcome t) - ro_tool_calls (rn_outcome s)
       \<le> max 0 (lo_max_calls L) * (ro_turns (rn_outcome t) - ro_turns (rn_outcome s))"

lemma run_bounds_round: "round_grows L s t \<Longrightarrow> run_bounds L s t"
  by (auto simp: round_grows_def run_bounds_def)

lemma run_bounds_trans:
  assumes "run_bounds L s t" "run_bounds L t u"
  shows "run_bounds L s u"
proof -
  have "max 0 (lo_max_calls L) * (ro_turns (rn_outcome t) - ro_turns (rn_outcome s))
      + max 0 (lo_max_calls L) * (ro_turns (rn_outcome u) - ro_turns (rn_outcome t))
      = max 0 (lo_max_calls L) * (ro_turns (rn_outcome u) - ro_turns (rn_outcome s))"
    by (simp add: algebra_simps)
  with assms show ?thesis
    unfolding run_bounds_def by (auto intro: history_grows_trans prefix_order.trans)
qed

lemma drive_returns: "\<exists>x t. drive L s = Some (x, t) \<and> run_bounds L s t \<and> own x t"
proof (induction "nat (lo_max_turns L - ro_turns (rn_outcome s))" arbitrary: s rule: less_induct)
  case less
  obtain r t where d: "drive_round L s = (r, t)" by (cases "drive_round L s")
  with round_ok_drive [of L] have g: "round_grows L s t"
    and r: "case r of Go u \<Rightarrow> ro_turns (rn_outcome s) < lo_max_turns L
        \<and> ro_turns (rn_outcome t) = ro_turns (rn_outcome s) + 1 | Leave x \<Rightarrow> own x t"
    unfolding round_ok_def by blast+
  show ?case
  proof (cases r)
    case (Go u)
    with r have "nat (lo_max_turns L - ro_turns (rn_outcome t)) < nat (lo_max_turns L - ro_turns (rn_outcome s))"
      by simp
    from less [OF this] obtain x v where "drive L t = Some (x, v)" "run_bounds L t v" "own x v" by blast
    with d Go g show ?thesis
      by (subst drive.simps) (auto intro: run_bounds_trans run_bounds_round)
  next
    case (Leave x)
    with d g r show ?thesis by (subst drive.simps) (auto intro: run_bounds_round)
  qed
qed

text \<open>What a run leaves with, some round of it left with.\<close>

lemma drive_leaves:
  assumes "\<And>s x t. drive_round L s = (Leave x, t) \<Longrightarrow> P x t" "drive L s = Some (x, t)"
  shows "P x t"
  using assms(2)
proof (induction "nat (lo_max_turns L - ro_turns (rn_outcome s))" arbitrary: s rule: less_induct)
  case less
  obtain r u where d: "drive_round L s = (r, u)" by (cases "drive_round L s")
  show ?case
  proof (cases r)
    case (Go v)
    with d less.prems have "drive L u = Some (x, t)" by (subst (asm) drive.simps) simp
    moreover have "ro_turns (rn_outcome s) < lo_max_turns L \<and> ro_turns (rn_outcome u) = ro_turns (rn_outcome s) + 1"
      using round_ok_drive [of L] d Go unfolding round_ok_def by fastforce
    ultimately show ?thesis using less.hyps [of u] by simp
  next
    case (Leave y)
    with d less.prems have "(x, t) = (y, u)" by (subst (asm) drive.simps) simp
    with assms(1) d Leave show ?thesis by simp
  qed
qed

definition nothing_counted :: "'w leaving \<Rightarrow> 'w run_t \<Rightarrow> bool" where
  "nothing_counted x t \<longleftrightarrow> ro_turns (fst x) = 0 \<and> ro_tool_calls (fst x) = 0 \<and> ro_stop (fst x) \<noteq> StopComplete"

interpretation hist: run_base history_grows nothing_counted L for L
  by unfold_locales
    (auto intro: history_grows_trans simp: nothing_counted_def empty_outcome_def,
     simp_all add: history_grows_def)

lemma startup_grows: "keeps history_grows nothing_counted (leave_startup L c e)"
  unfolding leave_startup_def
  by (intro hist.keeps_seq hist.k_context_error hist.keeps_leave) (simp add: nothing_counted_def empty_outcome_def)

lemma begin_run_grows: "keeps history_grows nothing_counted (begin_run L px prompt ov th)"
  unfolding begin_run_def or_startup_def capture_checkpoint_def
  by (intro hist.keeps_seq hist.keeps_look hist.keeps_andthen hist.keeps_option hist.keeps_give hist.k_ext
      hist.keeps_sum startup_grows hist.keeps_attempt [where E' = nothing_counted] hist.k_append_user
      hist.k_set_state_or_fail hist.k_now hist.keeps_change)
    (simp add: history_grows_def fresh_run_def Let_def)

lemma begin_run_fresh:
  fixes L :: "'w loop"
  shows "triple (\<lambda>_. True) (begin_run L px prompt ov th)
     (\<lambda>_ t. ro_turns (rn_outcome t) = 0 \<and> ro_tool_calls (rn_outcome t) = 0) (\<lambda>_ _. True)"
proof -
  have any: "triple (\<lambda>_. True) m (\<lambda>_ _. True) (\<lambda>_ _. True)" for m :: "('w, 'a) act"
    by (auto simp: triple_def split: prod.splits res.splits)
  have out: "triple (\<lambda>_. True) (leave_startup L c e) Q (\<lambda>_ _. True)" for c e and Q :: "unit \<Rightarrow> 'w run_t \<Rightarrow> bool"
    unfolding leave_startup_def by (rule triple_seq [OF any]) (simp add: triple_leave)
  have last: "triple (\<lambda>_. True) (change (fresh_run L px prompt ov th sy st c))
      (\<lambda>_ t. ro_turns (rn_outcome t) = 0 \<and> ro_tool_calls (rn_outcome t) = 0) (\<lambda>_ _. True)" for sy st c
    by (rule triple_change) (simp add: fresh_run_def Let_def empty_outcome_def)
  show ?thesis
    unfolding begin_run_def
    apply (rule triple_seq [OF any])+
    apply (rule triple_andthen [OF any])
    apply (rule triple_seq [OF any])
    subgoal for sy i cp
      by (cases cp) (auto intro!: out triple_andthen [OF any] triple_seq [OF any] last)
    done
qed

text \<open>
  C1: every run returns, whatever the providers, tools and gates it calls answer: the thread's history and
  log only grow, and the outcome counts no more turns than the bound and no more tool calls than the
  per-turn bound allows in each of them.
\<close>

theorem run_returns:
  "\<exists>o' e t. run_agent L px prompt ov th s = Some ((o', e), t) \<and> history_grows s t
     \<and> 0 \<le> ro_turns o' \<and> ro_turns o' \<le> max 0 (lo_max_turns L)
     \<and> ro_tool_calls o' \<le> max 0 (lo_max_calls L) * max 0 (lo_max_turns L)"
proof (cases "begin_run L px prompt ov th s")
  case (Pair r t)
  have g: "history_grows s t" using keeps_end [OF begin_run_grows Pair] .
  show ?thesis
  proof (cases r)
    case (Go u)
    have z: "ro_turns (rn_outcome t) = 0" "ro_tool_calls (rn_outcome t) = 0"
      using triple_Go [OF begin_run_fresh _ Pair [unfolded Go]] by simp_all
    obtain x v where d: "drive L t = Some (x, v)" and b: "run_bounds L t v" and o: "own x v"
      using drive_returns [of L t] by blast
    let ?n = "ro_turns (rn_outcome v)"
    have "0 \<le> ?n" "?n \<le> max 0 (lo_max_turns L)" "ro_tool_calls (rn_outcome v) \<le> max 0 (lo_max_calls L) * ?n"
      using b z by (auto simp: run_bounds_def)
    moreover from this have "max 0 (lo_max_calls L) * ?n \<le> max 0 (lo_max_calls L) * max 0 (lo_max_turns L)"
      by (intro mult_left_mono) simp_all
    moreover have "history_grows s v" using g b by (auto simp: run_bounds_def intro: history_grows_trans)
    ultimately show ?thesis
      using d o Pair Go by (cases x) (auto simp: run_agent_def own_def empty_outcome_def)
  next
    case (Leave x)
    with keeps_leaves [OF begin_run_grows Pair [unfolded Leave]] Pair g show ?thesis
      by (cases x) (auto simp: run_agent_def nothing_counted_def)
  qed
qed

end
