(* ===== verification/AgentDone.thy ===== *)
theory AgentDone
  imports AgentFacts
begin

text \<open>
  What \<open>complete\<close> promises: the verdicts behind it, and the ways a turn gets there without having done
  what it said.
\<close>

section \<open>A complete run was verified\<close>

definition not_complete :: "'w leaving \<Rightarrow> 'w run_t \<Rightarrow> bool" where
  "not_complete x t \<longleftrightarrow> ro_stop (fst x) \<noteq> StopComplete"

definition same_stop :: "'w run_t \<Rightarrow> 'w run_t \<Rightarrow> bool" where
  "same_stop s t \<longleftrightarrow> ro_stop (rn_outcome t) = ro_stop (rn_outcome s)"

interpretation stopped: run_base same_stop not_complete L for L
  by unfold_locales (simp_all add: same_stop_def not_complete_def empty_outcome_def)

definition no_task_change :: "'w run_t \<Rightarrow> 'w run_t \<Rightarrow> bool" where
  "no_task_change s t \<longleftrightarrow>
     rn_changes t = rn_changes s \<and> rn_edit_attempted t = rn_edit_attempted s \<and> rn_task t = rn_task s
     \<and> ro_review (rn_outcome t) = ro_review (rn_outcome s) \<and> rn_review_rounds t = rn_review_rounds s"

interpretation duty: run_log no_task_change not_complete L for L
  by unfold_locales (simp_all add: no_task_change_def not_complete_def empty_outcome_def)

text \<open>A stop that is not \<open>complete\<close> is reported as what it is.\<close>

lemma leaves_stop:
  "triple (\<lambda>s. ro_stop (rn_outcome s) \<noteq> StopComplete) (leave_outcome e) Q not_complete"
  by (simp add: triple_def leave_outcome_def seq_def prog_simps not_complete_def)

lemma stop_kept:
  assumes "keeps same_stop not_complete m"
    and "triple (\<lambda>s. ro_stop (rn_outcome s) \<noteq> StopComplete) k Q not_complete"
  shows "triple (\<lambda>s. ro_stop (rn_outcome s) \<noteq> StopComplete) (andthen m k) Q not_complete"
proof (rule triple_andthen [OF _ assms(2)])
  show "triple (\<lambda>s. ro_stop (rn_outcome s) \<noteq> StopComplete) m
      (\<lambda>_ s. ro_stop (rn_outcome s) \<noteq> StopComplete) not_complete"
    unfolding triple_def
    by (auto simp: same_stop_def dest: keeps_end [OF assms(1)] keeps_leaves [OF assms(1)] split: prod.split res.split)
qed

lemma stop_kept_seq:
  assumes "keeps same_stop not_complete m"
    and "\<And>a. triple (\<lambda>s. ro_stop (rn_outcome s) \<noteq> StopComplete) (k a) Q not_complete"
  shows "triple (\<lambda>s. ro_stop (rn_outcome s) \<noteq> StopComplete) (seq m k) Q not_complete"
proof (rule triple_seq [OF _ assms(2)])
  show "triple (\<lambda>s. ro_stop (rn_outcome s) \<noteq> StopComplete) m
      (\<lambda>_ s. ro_stop (rn_outcome s) \<noteq> StopComplete) not_complete"
    unfolding triple_def
    by (auto simp: same_stop_def dest: keeps_end [OF assms(1)] keeps_leaves [OF assms(1)] split: prod.split res.split)
qed

lemma set_stop_not_complete:
  assumes "st \<noteq> StopComplete"
  shows "triple (\<lambda>_. True) (set_stop L st r) (\<lambda>_ s. ro_stop (rn_outcome s) \<noteq> StopComplete) not_complete"
proof -
  have "triple (\<lambda>_. True) (elapsed L) (\<lambda>_ _. True) not_complete"
    unfolding triple_def by (auto dest: keeps_leaves [OF stopped.k_elapsed] split: prod.split res.split)
  then show ?thesis
    unfolding set_stop_def set_outcome_def
    by (rule triple_seq) (rule triple_change, use assms in simp)
qed

lemma leaves_after_stop:
  assumes "st \<noteq> StopComplete"
    and "triple (\<lambda>s. ro_stop (rn_outcome s) \<noteq> StopComplete) k Q not_complete"
  shows "keeps (\<lambda>_ _. True) not_complete (andthen (set_stop L st r) k)"
proof -
  have "triple (\<lambda>_. True) (andthen (set_stop L st r) k) Q not_complete"
    by (rule triple_andthen [OF set_stop_not_complete [OF assms(1)] assms(2)])
  then show ?thesis unfolding triple_def keeps_def by (auto split: prod.splits res.splits)
qed

lemma not_complete_stops:
  "st \<noteq> StopComplete \<Longrightarrow> keeps (\<lambda>_ _. True) not_complete (stop_bound L st r :: ('w, unit) act)"
  "keeps (\<lambda>_ _. True) not_complete (stop_canceled L :: ('w, unit) act)"
  "keeps (\<lambda>_ _. True) not_complete (stop_failed L c :: ('w, unit) act)"
proof -
  show "st \<noteq> StopComplete \<Longrightarrow> keeps (\<lambda>_ _. True) not_complete (stop_bound L st r :: ('w, unit) act)"
    unfolding stop_bound_def
    by (erule leaves_after_stop) (intro stop_kept stop_kept_seq stopped.keeps_look stopped.k_log_or_fail
        stopped.k_verify_abandoned stopped.k_check_abandoned stopped.k_set_state_or_fail leaves_stop)
  have *: "triple (\<lambda>s. ro_stop (rn_outcome s) \<noteq> StopComplete)
      (case r of None \<Rightarrow> leave_outcome e | Some x \<Rightarrow> leave_outcome (f x)) Q not_complete"
    for r :: "string option" and e f and Q :: "unit \<Rightarrow> 'w run_t \<Rightarrow> bool"
    by (cases r) (simp_all add: leaves_stop)
  show "keeps (\<lambda>_ _. True) not_complete (stop_canceled L :: ('w, unit) act)"
    unfolding stop_canceled_def Let_def
    by (rule leaves_after_stop, simp, intro stop_kept_seq stopped.k_context_error stopped.k_set_state *)
  show "keeps (\<lambda>_ _. True) not_complete (stop_failed L c :: ('w, unit) act)"
    unfolding stop_failed_def Let_def
    by (rule leaves_after_stop, simp, intro stop_kept stop_kept_seq stopped.keeps_look stopped.k_log_or_fail
        stopped.k_set_state_or_fail leaves_stop)
qed

text \<open>The verdicts a completed run carries.\<close>

definition verified :: "'w loop \<Rightarrow> 'w run_t \<Rightarrow> bool" where
  "verified L s \<longleftrightarrow>
     (case lo_verifier L of
        None \<Rightarrow> True
      | Some verify \<Rightarrow> \<exists>w feedback w'. verify (rn_changes s) w = ((feedback, VerdictPass), w'))"

definition reviewed :: "'w loop \<Rightarrow> 'w run_t \<Rightarrow> bool" where
  "reviewed L s \<longleftrightarrow>
     lo_reviewer L = None \<or> rn_changes s = []
     \<or> rv_result (ro_review (rn_outcome s)) \<noteq> ReviewObjection \<or> lo_max_review L \<le> rn_review_rounds s"

definition may_complete :: "'w loop \<Rightarrow> 'w run_t \<Rightarrow> bool" where
  "may_complete L s \<longleftrightarrow> verified L s \<and> \<not> owes_change L s \<and> reviewed L s"

definition done_well :: "'w loop \<Rightarrow> 'w leaving \<Rightarrow> 'w run_t \<Rightarrow> bool" where
  "done_well L x t \<longleftrightarrow> ro_stop (fst x) = StopComplete \<longrightarrow> may_complete L t \<and> th_state t = StateDone"

lemma not_complete_done: "not_complete x t \<Longrightarrow> done_well L x t"
  by (simp add: not_complete_def done_well_def)

lemma may_complete_cong: "no_task_change s t \<Longrightarrow> may_complete L t = may_complete L s"
  by (auto simp: may_complete_def verified_def reviewed_def owes_change_def no_task_change_def split: option.splits)

lemma duty_triple:
  assumes "keeps no_task_change not_complete m"
  shows "triple (may_complete L) m (\<lambda>_. may_complete L) (done_well L)"
  unfolding triple_def
  by (auto dest: keeps_end [OF assms] keeps_leaves [OF assms] may_complete_cong [of _ _ L]
      intro: not_complete_done split: prod.split res.split)

lemma set_state_reached:
  "triple (may_complete L) (set_state_or_fail L st) (\<lambda>_ s. may_complete L s \<and> th_state s = st) (done_well L)"
proof -
  have state: "th_state t = st" if "set_state_or_fail L st s = (Go u, t)" for s u t
    using that
    by (auto simp: set_state_or_fail_def set_state_def log_append_def context_error_def fail_def andthen_def seq_def
        ext_def prog_simps split: prod.splits res.splits option.splits)
  show ?thesis
    using duty_triple [OF duty.k_set_state_or_fail, of L L st] state
    unfolding triple_def by (fastforce split: prod.splits res.splits)
qed

lemma complete_done: "triple (may_complete L) (complete L) (\<lambda>_ _. True) (done_well L)"
  unfolding complete_def
proof (rule triple_andthen [OF duty_triple [OF duty.k_finish_checks]], rule triple_seq [OF duty_triple [OF duty.k_elapsed]],
    rule triple_andthen [OF _ triple_andthen [OF set_state_reached]])
  show "triple (may_complete L) (set_outcome (\<lambda>o'. o'\<lparr>ro_elapsed := t, ro_stop := StopComplete,
       ro_reason := ''the model ended its turn after '' @ show_int (ro_turns o')
                    @ '' turn(s) and every configured check passed''\<rparr>)) (\<lambda>_. may_complete L) (done_well L)" for t
    unfolding set_outcome_def
    by (rule triple_change) (auto simp: may_complete_def verified_def reviewed_def owes_change_def split: option.splits)
  show "triple (\<lambda>s. may_complete L s \<and> th_state s = StateDone) (leave_outcome None) (\<lambda>_ _. True) (done_well L)"
    by (simp add: triple_def leave_outcome_def seq_def prog_simps done_well_def)
qed

text \<open>What stands while nothing about the task changes.\<close>

lemma duty_keep:
  assumes "keeps no_task_change not_complete m" "\<And>s t. no_task_change s t \<Longrightarrow> P s \<Longrightarrow> P t"
  shows "triple P m (\<lambda>_. P) (done_well L)"
  unfolding triple_def
  by (auto dest: keeps_end [OF assms(1)] keeps_leaves [OF assms(1)] assms(2)
      intro: not_complete_done split: prod.split res.split)

lemma triple_done:
  assumes "keeps (\<lambda>_ _. True) not_complete m"
  shows "triple P m (\<lambda>_ _. True) (done_well L)"
  unfolding triple_def
  by (auto dest: keeps_leaves [OF assms] intro: not_complete_done split: prod.split res.split)

interpretation quiet: run_base "\<lambda>_ _. True" not_complete L for L
  by unfold_locales (simp_all add: not_complete_def empty_outcome_def)

lemma talked_not_complete:
  "st \<noteq> StopComplete \<Longrightarrow> keeps (\<lambda>_ _. True) not_complete (handle_talked_not_acted L st r c)"
  unfolding handle_talked_not_acted_def
  by (intro quiet.keeps_seq quiet.k_escalate quiet.keeps_if not_complete_stops quiet.k_append_user)

definition settled :: "'w loop \<Rightarrow> review_verdict \<Rightarrow> 'w run_t \<Rightarrow> bool" where
  "settled L v s \<longleftrightarrow> verified L s \<and> \<not> owes_change L s \<and> ro_review (rn_outcome s) = v"

lemma settled_cong: "no_task_change s t \<Longrightarrow> settled L v s \<Longrightarrow> settled L v t"
  by (auto simp: settled_def verified_def owes_change_def no_task_change_def split: option.splits)

lemma review_done:
  "triple (settled L v)
     (andthen (log_review L v) (
      seq (look rn_review_rounds) (\<lambda>rounds.
        if rv_result v \<noteq> ReviewObjection \<or> lo_max_review L \<le> rounds then complete L
        else append_user L p c))) (\<lambda>_ _. True) (done_well L)"
proof (rule triple_andthen [OF duty_keep])
  show "keeps no_task_change not_complete (log_review L v)"
    unfolding log_review_def by (intro duty.keeps_seq duty.keeps_look duty.k_log_or_fail)
  show "settled L v s \<Longrightarrow> no_task_change s t \<Longrightarrow> settled L v t" for s t
    by (rule settled_cong)
  show "triple (settled L v) (seq (look rn_review_rounds) (\<lambda>rounds.
        if rv_result v \<noteq> ReviewObjection \<or> lo_max_review L \<le> rounds then complete L
        else append_user L p c)) (\<lambda>_ _. True) (done_well L)"
  proof (rule triple_seq [where Q = "\<lambda>n s. settled L v s \<and> rn_review_rounds s = n"])
    fix n
    show "triple (\<lambda>s. settled L v s \<and> rn_review_rounds s = n)
      (if rv_result v \<noteq> ReviewObjection \<or> lo_max_review L \<le> n then complete L else append_user L p c)
      (\<lambda>_ _. True) (done_well L)"
      by (rule triple_if, rule triple_pre [OF complete_done], force simp: may_complete_def settled_def reviewed_def)
        (rule triple_done [OF quiet.k_append_user])
  qed (simp add: triple_look)
qed

lemma review_or_complete_done: "triple (verified L) (review_or_complete L) (\<lambda>_ _. True) (done_well L)"
  unfolding review_or_complete_def
proof (rule triple_seq [where Q = "\<lambda>s0 s. s0 = s \<and> verified L s"])
  fix s0
  have direct: "triple (\<lambda>s. s0 = s \<and> verified L s) (complete L) (\<lambda>_ _. True) (done_well L)"
    if "\<not> owes_change L s0" "lo_reviewer L = None \<or> rn_changes s0 = []"
    by (rule triple_pre [OF complete_done]) (use that in \<open>auto simp: may_complete_def reviewed_def\<close>)
  have review: "triple (\<lambda>s. s0 = s \<and> verified L s) (seq (ext f) (\<lambda>v.
        andthen (change (\<lambda>s. s\<lparr>rn_review_rounds := rn_review_rounds s + 1\<rparr>)) (
        andthen (set_outcome (\<lambda>o'. o'\<lparr>ro_review := v\<rparr>)) (
        andthen (log_review L v) (
        seq (look rn_review_rounds) (\<lambda>rounds.
          if rv_result v \<noteq> ReviewObjection \<or> lo_max_review L \<le> rounds then complete L
          else append_user L p (c v))))))) (\<lambda>_ _. True) (done_well L)"
    if n: "\<not> owes_change L s0" for f p and c :: "review_verdict \<Rightarrow> string"
  proof (rule triple_seq [where Q = "\<lambda>_ s. verified L s \<and> \<not> owes_change L s"])
    show "triple (\<lambda>s. s0 = s \<and> verified L s) (ext f) (\<lambda>_ s. verified L s \<and> \<not> owes_change L s) (done_well L)"
      using n by (auto simp: triple_def ext_def verified_def owes_change_def split: prod.splits option.splits)
    fix v
    show "triple (\<lambda>s. verified L s \<and> \<not> owes_change L s)
      (andthen (change (\<lambda>s. s\<lparr>rn_review_rounds := rn_review_rounds s + 1\<rparr>)) (
        andthen (set_outcome (\<lambda>o'. o'\<lparr>ro_review := v\<rparr>)) (
        andthen (log_review L v) (
        seq (look rn_review_rounds) (\<lambda>rounds.
          if rv_result v \<noteq> ReviewObjection \<or> lo_max_review L \<le> rounds then complete L
          else append_user L p (c v)))))) (\<lambda>_ _. True) (done_well L)"
      unfolding set_outcome_def
      by (rule triple_andthen [OF triple_change triple_andthen [OF triple_change review_done]])
        (auto simp: settled_def verified_def owes_change_def split: option.splits)
  qed
  show "triple (\<lambda>s. s0 = s \<and> verified L s)
     (if owes_change L s0 then handle_talked_not_acted L StopStagnant no_change_reason no_change_critique
      else case lo_reviewer L of None \<Rightarrow> complete L
        | Some review \<Rightarrow>
            if rn_changes s0 = [] then complete L
            else seq (ext (review (rn_task s0) (ro_checkpoint (rn_outcome s0)) (rn_changes s0))) (\<lambda>v.
                 andthen (change (\<lambda>s. s\<lparr>rn_review_rounds := rn_review_rounds s + 1\<rparr>)) (
                 andthen (set_outcome (\<lambda>o'. o'\<lparr>ro_review := v\<rparr>)) (
                 andthen (log_review L v) (
                 seq (look rn_review_rounds) (\<lambda>rounds.
                   if rv_result v \<noteq> ReviewObjection \<or> lo_max_review L \<le> rounds then complete L
                   else append_user L ''appending review objection'' (review_critique (rv_note v))))))))
     (\<lambda>_ _. True) (done_well L)"
    by (intro triple_if triple_option triple_done [OF talked_not_complete] direct review) simp_all
qed (simp add: triple_look)

lemma finish_or_verify_done: "keeps (\<lambda>_ _. True) (done_well L) (finish_or_verify L)"
proof -
  have "triple (\<lambda>_. True) (finish_or_verify L) (\<lambda>_ _. True) (done_well L)"
  proof (cases "lo_verifier L")
    case None
    then show ?thesis
      unfolding finish_or_verify_def by (simp add: triple_pre [OF review_or_complete_done] verified_def)
  next
    case (Some verify)
    have passed: "triple (\<lambda>s. v = VerdictPass \<longrightarrow> verified L s)
        (andthen (change (\<lambda>s. s\<lparr>rn_verify_rounds := rn_verify_rounds s + 1\<rparr>)) (
         andthen (log_verify L v) (
           if v = VerdictPass then review_or_complete L
           else if v = VerdictUnattributed then stop_bound L StopTreeState feedback
           else seq (look rn_verify_rounds) (\<lambda>rounds.
                if lo_max_verify L \<le> rounds
                then stop_bound L StopVerifyFailed (''verification failed after '' @ show_int rounds @ '' round(s)'')
                else append_user L ''appending verification feedback'' feedback))))
        (\<lambda>_ _. True) (done_well L)" for v feedback
    proof -
      let ?P = "\<lambda>s. v = VerdictPass \<longrightarrow> verified L s"
      have log: "keeps no_task_change not_complete (log_verify L v)"
        unfolding log_verify_def by (intro duty.keeps_seq duty.keeps_look duty.k_log_or_fail)
      have count: "triple ?P (change (\<lambda>s. s\<lparr>rn_verify_rounds := rn_verify_rounds s + 1\<rparr>)) (\<lambda>_. ?P) (done_well L)"
        by (rule triple_change) (auto simp: verified_def split: option.splits)
      have logged: "triple ?P (log_verify L v) (\<lambda>_. ?P) (done_well L)"
        by (rule duty_keep [OF log]) (auto simp: verified_def no_task_change_def split: option.splits)
      have rest: "triple (\<lambda>s. v = VerdictPass \<longrightarrow> verified L s)
         (if v = VerdictPass then review_or_complete L
          else if v = VerdictUnattributed then stop_bound L StopTreeState feedback
          else seq (look rn_verify_rounds) (\<lambda>rounds.
                if lo_max_verify L \<le> rounds
                then stop_bound L StopVerifyFailed (''verification failed after '' @ show_int rounds @ '' round(s)'')
                else append_user L ''appending verification feedback'' feedback)) (\<lambda>_ _. True) (done_well L)"
        by (intro triple_if triple_pre [OF review_or_complete_done] triple_done quiet.keeps_seq quiet.keeps_look
            quiet.keeps_if not_complete_stops quiet.k_append_user) simp_all
      show ?thesis by (rule triple_andthen [OF count triple_andthen [OF logged rest]])
    qed
    show ?thesis
      unfolding finish_or_verify_def Some option.case
    proof (rule triple_seq [where Q = "\<lambda>c s. c = rn_changes s"])
      fix c
      show "triple (\<lambda>s. c = rn_changes s) (seq (ext (verify c)) (\<lambda>(feedback, v).
          andthen (change (\<lambda>s. s\<lparr>rn_verify_rounds := rn_verify_rounds s + 1\<rparr>)) (
          andthen (log_verify L v) (
            if v = VerdictPass then review_or_complete L
            else if v = VerdictUnattributed then stop_bound L StopTreeState feedback
            else seq (look rn_verify_rounds) (\<lambda>rounds.
                 if lo_max_verify L \<le> rounds
                 then stop_bound L StopVerifyFailed (''verification failed after '' @ show_int rounds @ '' round(s)'')
                 else append_user L ''appending verification feedback'' feedback))))) (\<lambda>_ _. True) (done_well L)"
      proof (rule triple_seq [where Q = "\<lambda>fv s. snd fv = VerdictPass \<longrightarrow> verified L s"])
        show "triple (\<lambda>s. c = rn_changes s) (ext (verify c)) (\<lambda>fv s. snd fv = VerdictPass \<longrightarrow> verified L s) (done_well L)"
          using Some by (fastforce simp: triple_def ext_def verified_def split: prod.splits)
      qed (use passed in \<open>auto split: prod.split\<close>)
    qed (simp add: triple_look)
  qed
  then show ?thesis unfolding triple_def keeps_def by (auto split: prod.splits res.splits)
qed

interpretation finishing: run_counted "\<lambda>_ _. True" "done_well L" L for L
proof unfold_locales
  show "done_well L (empty_outcome, e) s" for e s
    by (rule not_complete_done) (simp add: not_complete_def empty_outcome_def)
  show "keeps (\<lambda>_ _. True) (done_well L) (stop_bound L st r :: ('a, unit) act)" if "st \<noteq> StopComplete" for st r
    using not_complete_stops(1) [OF that, of L r] unfolding keeps_def
    by (auto intro: not_complete_done split: prod.splits res.splits)
  show "keeps (\<lambda>_ _. True) (done_well L) (stop_canceled L :: ('a, unit) act)"
    using not_complete_stops(2) [of L] unfolding keeps_def
    by (auto intro: not_complete_done split: prod.splits res.splits)
  show "keeps (\<lambda>_ _. True) (done_well L) (stop_failed L c :: ('a, unit) act)" for c
    using not_complete_stops(3) [of L c] unfolding keeps_def
    by (auto intro: not_complete_done split: prod.splits res.splits)
qed (simp_all add: finish_or_verify_done)

lemma drive_done:
  assumes "drive L s = Some (x, t)"
  shows "done_well L x t"
proof (rule drive_leaves [OF _ assms])
  fix s x t
  assume r: "drive_round L s = (Leave x, t)"
  have "keeps (\<lambda>_ _. True) (done_well L) (turn L)"
    unfolding turn_def by (intro finishing.keeps_andthen finishing.k_turn_body) (simp add: begin_turn_eq finishing.keeps_change)
  then have "keeps (\<lambda>_ _. True) (done_well L) (drive_round L)"
    unfolding drive_round_def max_turns_reason_def
    by (intro finishing.keeps_seq finishing.keeps_if finishing.k_context_error finishing.k_stop_canceled
        finishing.k_past_deadline finishing.k_stop_deadline finishing.keeps_look finishing.k_elapsed
        finishing.keeps_give finishing.k_stop_bound) simp_all
  from keeps_leaves [OF this r] show "done_well L x t" .
qed

lemma run_agent_done:
  assumes "run_agent L px prompt ov th s = Some ((o', e), t)" "ro_stop o' = StopComplete"
  shows "may_complete L t \<and> th_state t = StateDone"
proof (cases "begin_run L px prompt ov th s")
  case (Pair r u)
  show ?thesis
  proof (cases r)
    case (Go v)
    with assms(1) Pair have "drive L u = Some ((o', e), t)" by (simp add: run_agent_def)
    from drive_done [OF this] assms(2) show ?thesis by (simp add: done_well_def)
  next
    case (Leave x)
    with assms Pair keeps_leaves [OF begin_run_grows Pair [unfolded Leave]] show ?thesis
      by (simp add: run_agent_def nothing_counted_def)
  qed
qed

text \<open>
  C5: a run that reports \<open>complete\<close> was verified: its verifier, when it has one, passed on exactly the
  changes the run ends with; it left a change when one was asked for or an edit tool was called; no
  objection of the reviewer stands unless the review rounds are used up; and the thread is done.
\<close>

theorem complete_means_verified:
  assumes "run_agent L px prompt ov th s = Some ((o', e), t)" "ro_stop o' = StopComplete"
  shows "verified L t \<and> reviewed L t \<and> \<not> owes_change L t \<and> th_state t = StateDone"
  using run_agent_done [OF assms] by (simp add: may_complete_def)

section \<open>Runs\<close>

text \<open>
  A loop over a scripted provider, whose world is the list of responses to come. Its tools are \<open>look\<close>,
  which reads, and \<open>write\<close>, which changes a file; its clock stands still and nothing it writes fails.
\<close>

type_synonym script = "(chunk list \<times> string option) list"

definition scripted :: "script provider" where
  "scripted req left w = (case w of [] \<Rightarrow> (([], Some ''no more''), []) | r # rs \<Rightarrow> (r, rs))"

definition look_tool :: "script tool_t" where
  "look_tool = \<lparr>tl_name = ''look'', tl_risk = RiskRead, tl_requester = None,
     tl_run = (\<lambda>inp w. (([], Inr \<lparr>tr_content = ''seen'', tr_cause = CauseUnspecified, tr_changes = [], tr_error = False\<rparr>), w))\<rparr>"

definition demo_change :: change_t where
  "demo_change = \<lparr>cg_path = ''a.go'', cg_writer = [], cg_ranges = [], cg_added = 1, cg_removed = 0\<rparr>"

definition write_tool :: "script tool_t" where
  "write_tool = \<lparr>tl_name = ''write'', tl_risk = RiskWriteLocal, tl_requester = None,
     tl_run = (\<lambda>inp w. (([], Inr \<lparr>tr_content = ''written'', tr_cause = CauseUnspecified,
                                  tr_changes = [demo_change], tr_error = False\<rparr>), w))\<rparr>"

definition demo_loop :: "(change_t list \<Rightarrow> script \<Rightarrow> (string \<times> gate_verdict) \<times> script) option \<Rightarrow> script loop" where
  "demo_loop verifier =
     \<lparr>lo_max_turns = 200, lo_max_calls = 50, lo_max_verify = 2, lo_max_review = 2, lo_max_stagnant = 3,
      lo_before_nudge = 15, lo_max_wall = 600, lo_max_spend = 1, lo_compact_trigger = 3/4, lo_cache_lifetime = 600,
      lo_context_window = 0, lo_compact = \<lparr>co_keep_lines = 0, co_observation_budget = 0, co_dedupe_reads = False\<rparr>,
      lo_compact_enabled = False, lo_gate_writes = False, lo_pricing = (\<lambda>_. None),
      lo_models = \<lparr>t_fast = ''f'', t_balanced = ''b'', t_deep = ''d''\<rparr>,
      lo_thinking = \<lparr>t_fast = None, t_balanced = None, t_deep = None\<rparr>, lo_fast_presence = 0, lo_fast_repeat = 0,
      lo_repo_root = ''/r'', lo_providers = \<lparr>t_fast = scripted, t_balanced = scripted, t_deep = scripted\<rparr>,
      lo_tools = (\<lambda>n. if n = ''look'' then Some look_tool else if n = ''write'' then Some write_tool else None),
      lo_gate = (\<lambda>req w. (Inr Deny, w)), lo_slots = None, lo_release = (\<lambda>w. w), lo_hooks = None,
      lo_verifier = verifier, lo_reviewer = None, lo_finisher = None, lo_change_gate = None, lo_checkpointer = None,
      lo_clock = (\<lambda>w. (0, w)), lo_ctx = (\<lambda>w. (None, w)), lo_log = (\<lambda>ev w. (None, w)),
      lo_record = (\<lambda>en w. (None, w)), lo_hash = (\<lambda>s. s), lo_letter = (\<lambda>_. False), lo_params = (\<lambda>b. ''{}''),
      lo_write_paths = (\<lambda>inp. None)\<rparr>"

definition demo_prefix :: prefix_t where
  "demo_prefix = \<lparr>px_system = ''s'', px_ledger = [], px_tools = [\<lparr>ts_name = ''look'', ts_description = [], ts_schema = []\<rparr>,
     \<lparr>ts_name = ''write'', ts_description = [], ts_schema = []\<rparr>], px_fast_tools = []\<rparr>"

definition demo_thread :: "script \<Rightarrow> script run_t" where
  "demo_thread w =
     \<lparr>rn_world = w, rn_id = ''t'', rn_system = [], rn_tools = [], rn_fast_tools = [], rn_override = NoChoice,
      rn_thinking = None, rn_task = [], rn_start = 0, rn_prior_spend = 0, th_entries = [], th_turn = 0,
      th_state = StateIdle, th_goal = [], th_log = [], rn_deadline = None, rn_allowed = [], rn_last_call = None,
      rn_answer = [], rn_changes = [], rn_compacted = [], rn_compacted_through = 0, rn_route = NoChoice,
      rn_outcome = empty_outcome, rn_verify_rounds = 0, rn_review_rounds = 0, rn_turn_calls = 0, rn_errors = 0,
      rn_escalations = 0, rn_nudges = 0, rn_stuck_escalated = False, rn_edit_attempted = False, rn_prefix_cold = False\<rparr>"

definition demo_call :: "string \<Rightarrow> string \<Rightarrow> string \<Rightarrow> tool_call" where
  "demo_call i n inp = \<lparr>tc_id = i, tc_name = n, tc_input = inp\<rparr>"

text \<open>The stop a run reports, whether it failed, and its transcript as roles, calls and answered ids.\<close>

definition transcript :: "'w run_t \<Rightarrow> (role \<times> string list \<times> string) list" where
  "transcript s = map (\<lambda>m. (ms_role m, map tc_id (ms_calls m), ms_call_id m)) (flatten (th_entries s))"

definition demo_run :: "(change_t list \<Rightarrow> script \<Rightarrow> (string \<times> gate_verdict) \<times> script) option \<Rightarrow> string \<Rightarrow> script
    \<Rightarrow> (stop \<times> bool \<times> (role \<times> string list \<times> string) list) option" where
  "demo_run verifier prompt w =
     map_option (\<lambda>((o', e), t). (ro_stop o', e = None, transcript t))
       (run_agent (demo_loop verifier) demo_prefix prompt NoChoice None (demo_thread w))"

section \<open>A run that writes and is verified\<close>

abbreviation writing_script :: script where
  "writing_script \<equiv> [([ChunkToolCall (Some (demo_call ''c1'' ''write'' ''{}'')), ChunkDone None StopToolUse], None),
                     ([ChunkText ''Added.'', ChunkDone None StopEndTurn], None)]"

abbreviation always_pass :: "change_t list \<Rightarrow> script \<Rightarrow> (string \<times> gate_verdict) \<times> script" where
  "always_pass c w \<equiv> (([], VerdictPass), w)"

lemma writing_run:
  "case run_agent (demo_loop (Some always_pass)) demo_prefix ''Add a line'' NoChoice None (demo_thread writing_script) of
     None \<Rightarrow> False
   | Some ((o', e), t) \<Rightarrow> ro_stop o' = StopComplete \<and> rn_changes t = [demo_change]"
  by code_simp

theorem complete_means_verified_witness:
  "\<exists>o' e t. run_agent (demo_loop (Some always_pass)) demo_prefix ''Add a line'' NoChoice None (demo_thread writing_script)
       = Some ((o', e), t)
     \<and> rn_changes t = [demo_change] \<and> verified (demo_loop (Some always_pass)) t \<and> th_state t = StateDone"
proof -
  obtain o' e t where
    r: "run_agent (demo_loop (Some always_pass)) demo_prefix ''Add a line'' NoChoice None (demo_thread writing_script)
          = Some ((o', e), t)"
    and c: "ro_stop o' = StopComplete" "rn_changes t = [demo_change]"
    using writing_run by (auto split: option.splits)
  from complete_means_verified [OF r c(1)] r c(2) show ?thesis by blast
qed

end
