(* ===== verification/AgentEscapes.thy ===== *)
theory AgentEscapes
  imports AgentDone
begin

text \<open>
  Which calls reach a tool, and the turns that end otherwise than the comments of the loop say.
\<close>

section \<open>Permission\<close>

text \<open>The decisions that let a call run: the tool asks for nothing, or what it asks for was granted.\<close>

definition granted :: "'w loop \<Rightarrow> string list \<Rightarrow> perm_request \<Rightarrow> bool" where
  "granted L allowed req \<longleftrightarrow>
     pr_key req \<in> set allowed \<or> (\<exists>w a w'. lo_gate L req w = (Inr a, w') \<and> (a = Allow \<or> a = AllowAlways))"

definition write_request :: "'w tool_t \<Rightarrow> string \<Rightarrow> perm_request" where
  "write_request t p =
     \<lparr>pr_thread = [], pr_tool = tl_name t, pr_action = ''write'', pr_detail = p,
      pr_reason = ''the write gate is enabled for this run'', pr_key = ''write '' @ p, pr_paths = []\<rparr>"

definition asks_for :: "'w loop \<Rightarrow> 'w tool_t \<Rightarrow> string \<Rightarrow> perm_request list" where
  "asks_for L t inp =
     (case requested t inp of
        Some req \<Rightarrow> [req]
      | None \<Rightarrow> if tl_risk t = RiskWriteLocal \<and> lo_gate_writes L
                then map (write_request t) (write_paths L inp) else [])"

text \<open>Keys are remembered only from an \<open>AllowAlways\<close> answer to a request that carried the key.\<close>

definition remembers :: "'w loop \<Rightarrow> 'w run_t \<Rightarrow> 'w run_t \<Rightarrow> bool" where
  "remembers L s t \<longleftrightarrow>
     set (rn_allowed s) \<subseteq> set (rn_allowed t)
     \<and> set (rn_allowed t) \<subseteq> set (rn_allowed s) \<union> {pr_key req | req w w'. lo_gate L req w = (Inr AllowAlways, w')}"

interpretation remember: run_plain "remembers L" "\<lambda>_ _. True" L for L
  by unfold_locales (auto simp: remembers_def)

interpretation remember: run_counted "remembers L" "\<lambda>_ _. True" L for L
  by unfold_locales (auto simp: remembers_def counted_def)

lemma gate_ask_granted:
  assumes "gate_ask L req s = (Go (Inr True), t)"
  shows "granted L (rn_allowed s) req"
proof (cases "pr_key req \<in> set (rn_allowed s)")
  case False
  obtain r w where g: "lo_gate L req (rn_world s) = (r, w)" by (cases "lo_gate L req (rn_world s)")
  with False assms have "r = Inr Allow \<or> r = Inr AllowAlways"
    by (auto simp: gate_ask_def seq_def andthen_def ext_def prog_simps split: sum.splits answer.splits)
  with g show ?thesis unfolding granted_def by blast
qed (simp add: granted_def)

lemma granted_mono:
  assumes "granted L (rn_allowed t) req" "remembers L s t"
  shows "\<exists>req'. pr_key req' = pr_key req \<and> granted L (rn_allowed s) req'"
proof (cases "granted L (rn_allowed s) req")
  case False
  with assms(1) have "pr_key req \<in> set (rn_allowed t)" "pr_key req \<notin> set (rn_allowed s)"
    by (auto simp: granted_def)
  with assms(2) obtain req' w w' where "pr_key req' = pr_key req" "lo_gate L req' w = (Inr AllowAlways, w')"
    unfolding remembers_def by force
  then show ?thesis unfolding granted_def by blast
qed blast

definition key_granted :: "'w loop \<Rightarrow> 'w run_t \<Rightarrow> perm_request \<Rightarrow> bool" where
  "key_granted L s req \<longleftrightarrow> (\<exists>req'. pr_key req' = pr_key req \<and> granted L (rn_allowed s) req')"

lemma ask_writes_granted:
  "ask_writes L (tl_name t) ps s = (Go (Inr True), u) \<Longrightarrow> list_all (\<lambda>p. key_granted L s (write_request t p)) ps"
proof (induction ps arbitrary: s)
  case (Cons p ps)
  obtain r v where g: "gate_ask L (write_request t p) s = (r, v)" by (cases "gate_ask L (write_request t p) s")
  with Cons.prems have r: "r = Go (Inr True)" and rest: "ask_writes L (tl_name t) ps v = (Go (Inr True), u)"
    by (auto simp: seq_def write_request_def prog_simps split: res.splits if_splits)
  have m: "remembers L s v" using keeps_end [OF remember.k_gate_ask g] .
  have "key_granted L s req" if "key_granted L v req" for req
    using that granted_mono [OF _ m] unfolding key_granted_def by metis
  with Cons.IH [OF rest] have "list_all (\<lambda>p. key_granted L s (write_request t p)) ps"
    by (auto simp: list_all_iff)
  moreover have "key_granted L s (write_request t p)"
    using gate_ask_granted [of L "write_request t p" s v] g r unfolding key_granted_def by blast
  ultimately show ?case by simp
qed simp

lemma gate_check_granted:
  assumes "gate_check L t inp s = (Go (Inr True), u)"
  shows "list_all (key_granted L s) (asks_for L t inp)"
proof (cases "requested t inp")
  case None
  show ?thesis
  proof (cases "tl_risk t = RiskWriteLocal \<and> lo_gate_writes L")
    case True
    with assms None have "ask_writes L (tl_name t) (write_paths L inp) s = (Go (Inr True), u)"
      by (simp add: gate_check_def)
    from ask_writes_granted [OF this] True None show ?thesis
      by (simp add: asks_for_def list_all_iff)
  qed (use None in \<open>auto simp: asks_for_def\<close>)
next
  case (Some req)
  with assms gate_ask_granted [of L req s u] show ?thesis
    by (auto simp: gate_check_def asks_for_def key_granted_def)
qed

text \<open>What a call does when its tool's code is replaced: the same, unless the call was let through.\<close>

definition with_run :: "'w loop \<Rightarrow> string \<Rightarrow> (string \<Rightarrow> 'w \<Rightarrow> (int list \<times> (string + tool_result)) \<times> 'w) \<Rightarrow> 'w loop" where
  "with_run L name f = L\<lparr>lo_tools := (\<lambda>n. if n = name then map_option (\<lambda>t. t\<lparr>tl_run := f\<rparr>) (lo_tools L n) else lo_tools L n)\<rparr>"

lemma with_run_fields:
  "lo_gate (with_run L name f) = lo_gate L" "lo_gate_writes (with_run L name f) = lo_gate_writes L"
  "lo_write_paths (with_run L name f) = lo_write_paths L" "lo_ctx (with_run L name f) = lo_ctx L"
  "lo_record (with_run L name f) = lo_record L" "lo_log (with_run L name f) = lo_log L"
  by (simp_all add: with_run_def)

lemma gate_ask_with: "gate_ask (with_run L name f) = gate_ask L"
  by (rule ext)+ (simp only: gate_ask_def with_run_fields)

lemma ask_writes_with: "ask_writes (with_run L name f) n ps = ask_writes L n ps"
  by (induction ps) (simp_all only: ask_writes.simps gate_ask_with)

lemma gate_check_with: "gate_check (with_run L name f) (t\<lparr>tl_run := g\<rparr>) inp = gate_check L t inp"
proof -
  have "requested (t\<lparr>tl_run := g\<rparr>) = requested t" "tl_risk (t\<lparr>tl_run := g\<rparr>) = tl_risk t"
    "tl_name (t\<lparr>tl_run := g\<rparr>) = tl_name t"
    by (simp_all add: fun_eq_iff requested_def)
  then show ?thesis
    by (simp only: gate_check_def gate_ask_with ask_writes_with with_run_fields write_paths_def)
qed

lemma answer_with: "answer_call (with_run L name f) c r = answer_call L c r"
  by (simp only: answer_call_def append_tool_result_def check_context_def context_error_def record_entry_def
      log_or_fail_def log_append_def with_run_fields)


section \<open>A key is granted to every tool\<close>

text \<open>
  The gate's memory is by key alone, where the store of approvals keeps the tool beside the key: once
  an edit of a file has been allowed always, any other tool's request that carries the same text as its
  key is let through without asking, a shell command of that text among them.
\<close>

lemma always_is_for_any_tool:
  "gate_ask L req (s\<lparr>rn_allowed := [pr_key req]\<rparr>) = (Go (Inr True), s\<lparr>rn_allowed := [pr_key req]\<rparr>)"
  by (simp add: gate_ask_def seq_def prog_simps)

section \<open>A response that ends its turn with calls pending\<close>

text \<open>
  The tools are not consulted by what follows such a response: replacing all of them changes nothing.
\<close>

definition with_tools :: "'w loop \<Rightarrow> (string \<Rightarrow> 'w tool_t option) \<Rightarrow> 'w loop" where
  "with_tools L f = L\<lparr>lo_tools := f\<rparr>"

lemma with_tools_fields:
  "lo_max_turns (with_tools L f) = lo_max_turns L" "lo_max_verify (with_tools L f) = lo_max_verify L"
  "lo_max_review (with_tools L f) = lo_max_review L" "lo_max_spend (with_tools L f) = lo_max_spend L"
  "lo_pricing (with_tools L f) = lo_pricing L" "lo_verifier (with_tools L f) = lo_verifier L"
  "lo_reviewer (with_tools L f) = lo_reviewer L" "lo_finisher (with_tools L f) = lo_finisher L"
  "lo_clock (with_tools L f) = lo_clock L" "lo_ctx (with_tools L f) = lo_ctx L"
  "lo_log (with_tools L f) = lo_log L" "lo_record (with_tools L f) = lo_record L"
  "lo_letter (with_tools L f) = lo_letter L" "lo_params (with_tools L f) = lo_params L"
  by (simp_all add: with_tools_def)

lemmas small_defs = context_error_def log_append_def log_or_fail_def record_entry_def check_context_def
  append_user_def append_assistant_def set_state_def set_state_or_fail_def now_def elapsed_def
  run_finish_checks_def verify_abandoned_def check_abandoned_def set_stop_def stop_bound_def

lemma small_with_tools:
  "append_user (with_tools L f) = append_user L" "append_assistant (with_tools L f) = append_assistant L"
  "stop_bound (with_tools L f) = stop_bound L" "log_or_fail (with_tools L f) = log_or_fail L"
  "run_finish_checks (with_tools L f) = run_finish_checks L" "elapsed (with_tools L f) = elapsed L"
  "set_state_or_fail (with_tools L f) = set_state_or_fail L"
  by ((rule ext)+, simp only: small_defs with_tools_fields)+

lemma finish_with_tools: "finish_or_verify (with_tools L f) = finish_or_verify L"
proof -
  have c: "complete (with_tools L f) = complete L"
    by (simp only: complete_def small_with_tools)
  have r: "review_or_complete (with_tools L f) = review_or_complete L"
    by (simp only: review_or_complete_def handle_talked_not_acted_def owes_change_def log_review_def c
        small_with_tools with_tools_fields)
  show ?thesis
    by (simp only: finish_or_verify_def log_verify_def r small_with_tools with_tools_fields)
qed

lemma spend_with_tools:
  "charge (with_tools L f) = charge L" "over_ceiling (with_tools L f) = over_ceiling L"
  "ceiling_reason (with_tools L f) = ceiling_reason L"
  by ((rule ext)+, simp only: charge_def price_turn_def over_ceiling_def ceiling_reason_def with_tools_fields)+

lemma after_response_with_tools:
  assumes "st_calls r \<noteq> []" "st_stop r = StopEndTurn"
  shows "after_response (with_tools L f) model r = after_response L model r"
proof -
  have e: "recover_calls M r = give r" for M
    using assms(1) by (simp only: recover_calls_def if_True not_False_eq_True)
  have step: "after_response M model r
      = seq (look rn_route) (\<lambda>tier.
        andthen (append_assistant M
          \<lparr>ms_role = RoleAssistant, ms_content = st_text r, ms_calls = st_calls r, ms_call_id = [], ms_error = False\<rparr>
          (st_usage r) model (choice_text tier)) (
        andthen (charge M model (st_usage r)) (
        seq (look id) (\<lambda>s.
          if over_ceiling M s then stop_bound M StopCostCeiling (ceiling_reason M s) else finish_or_verify M))))" for M
    by (simp only: after_response_def e seq_give assms if_True if_False simp_thms)
  show ?thesis
    by (simp only: step small_with_tools spend_with_tools finish_with_tools)
qed

text \<open>
  When a response carries tool calls and ends its turn, as a provider does that reports \<open>stop\<close>
  beside calls, none of the calls is run: the run goes on to finish as if they were not there, whatever
  the tools are, and can report \<open>complete\<close> with a call of its transcript unanswered. The comment on
  \<open>StopComplete\<close> says that it means no pending tool call.
\<close>

theorem pending_calls_dropped:
  "after_response (with_tools L f) model (r\<lparr>st_calls := c # cs, st_stop := StopEndTurn\<rparr>)
     = after_response L model (r\<lparr>st_calls := c # cs, st_stop := StopEndTurn\<rparr>)
   \<and> demo_run None ''Which files are there?''
       [([ChunkToolCall (Some (demo_call ''c1'' ''look'' ''{}'')), ChunkDone None StopEndTurn], None)]
     = Some (StopComplete, True, [(RoleUser, [], []), (RoleAssistant, [''c1''], [])])"
proof
  show "after_response (with_tools L f) model (r\<lparr>st_calls := c # cs, st_stop := StopEndTurn\<rparr>)
     = after_response L model (r\<lparr>st_calls := c # cs, st_stop := StopEndTurn\<rparr>)"
    by (rule after_response_with_tools) simp_all
  show "demo_run None ''Which files are there?''
       [([ChunkToolCall (Some (demo_call ''c1'' ''look'' ''{}'')), ChunkDone None StopEndTurn], None)]
     = Some (StopComplete, True, [(RoleUser, [], []), (RoleAssistant, [''c1''], [])])"
    by code_simp
qed

section \<open>Calls left without an answer\<close>

text \<open>
  A malformed call ends the handling of its turn: the calls after it are neither run nor answered,
  so the transcript sent with the next request holds calls without results, which the comment on
  \<open>handleMalformedCall\<close> says the provider does not allow. A repeated call does the same.
\<close>

theorem malformed_call_drops_rest:
  "\<not> json_valid (tc_input c) \<Longrightarrow> run_tools L (c # cs) = run_tools L [c]"
  by (simp add: run_tools.simps)

theorem malformed_call_drops_rest_witness:
  "run_tools (demo_loop None) [demo_call ''c1'' ''look'' ''{'', demo_call ''c2'' ''look'' ''{}'']
     = run_tools (demo_loop None) [demo_call ''c1'' ''look'' ''{'']"
proof -
  have "\<not> json_valid (tc_input (demo_call ''c1'' ''look'' ''{''))" by code_simp
  then show ?thesis by (rule malformed_call_drops_rest)
qed

section \<open>An empty completion\<close>

lemma blank_no_call:
  assumes "trim_space t = []"
  shows "\<not> looks_like_tool_call_text t names"
proof -
  have sp: "is_space c" if "c \<in> set t" for c
  proof (rule ccontr)
    assume "\<not> is_space c"
    with that have ne: "dropWhile is_space t \<noteq> []" by (auto simp: dropWhile_eq_Nil_conv)
    then have "hd (dropWhile is_space t) \<in> set (dropWhile is_space t)" "\<not> is_space (hd (dropWhile is_space t))"
      by (rule hd_in_set, rule hd_dropWhile)
    then have "trim_space t \<noteq> []"
      unfolding trim_space_def trim_left_while_def trim_right_while_def
      by (auto simp only: rev_is_Nil_conv dropWhile_eq_Nil_conv set_rev)
    with assms show False by simp
  qed
  have "index_of t m = None" if "m \<in> set tool_call_markers" for m
  proof (rule ccontr)
    assume "index_of t m \<noteq> None"
    then obtain i where "index_of t m = Some i" by blast
    then have "contains t m" by (simp add: contains_def)
    then obtain a b where "t = a @ m @ b" by (auto simp: contains_iff)
    moreover have "CHR ''<'' \<in> set m" using that by (auto simp: tool_call_markers_def)
    ultimately have "CHR ''<'' \<in> set t" by simp
    with sp show False by (auto dest: sp)
  qed
  then show ?thesis by (auto simp: looks_like_tool_call_text_def list_ex_iff)
qed

text \<open>
  An empty completion on a tier that is not the top one is not retried on the next: it counts an
  escalation and finishes the run exactly as a closing answer does, so a task that asks for no change is
  reported \<open>complete\<close> although the provider returned nothing. The comments on \<open>emptyTurn\<close> and
  \<open>ErrEmptyCompletion\<close> call it a provider failure that must not be absorbed as an outcome.
\<close>

theorem empty_turn_finishes:
  assumes "trim_space c = []" "rn_route s \<noteq> Deep"
  shows "end_turn_with_no_calls L c us s
       = finish_or_verify L (s\<lparr>rn_escalations := Suc (rn_escalations s), rn_answer := c\<rparr>)"
  using assms blank_no_call [OF assms(1)] blank_talk [OF assms(1)]
  by (simp add: end_turn_with_no_calls_def empty_turn_def end_turn_without_calls_def escalate_def andthen_def seq_def
      prog_simps Let_def)

theorem empty_turn_finishes_witness:
  "end_turn_with_no_calls (demo_loop None) [] None (demo_thread [])
     = finish_or_verify (demo_loop None) ((demo_thread [])\<lparr>rn_escalations := 1, rn_answer := []\<rparr>)
   \<and> demo_run None ''Which files are there?'' [([ChunkDone None StopEndTurn], None)]
     = Some (StopComplete, True, [(RoleUser, [], []), (RoleAssistant, [], [])])"
proof
  have "trim_space [] = []" "rn_route (demo_thread []) \<noteq> Deep" by code_simp+
  from empty_turn_finishes [OF this]
  show "end_turn_with_no_calls (demo_loop None) [] None (demo_thread [])
     = finish_or_verify (demo_loop None) ((demo_thread [])\<lparr>rn_escalations := 1, rn_answer := []\<rparr>)"
    by (simp add: demo_thread_def)
  show "demo_run None ''Which files are there?'' [([ChunkDone None StopEndTurn], None)]
     = Some (StopComplete, True, [(RoleUser, [], []), (RoleAssistant, [], [])])"
    by code_simp
qed

end
