(* ===== verification/Composer.thy ===== *)
theory Composer
  imports GoUtf8 GoStrings "HOL-Library.Monad_Syntax"
begin

text \<open>
  Model of \<open>internal/tui/vim.go\<close>: the modal editor of the thread composer. A line is its runes, a
  position two integers. Go panics when an index or a slice leaves its bounds: the accessors below
  are partial, every operation is an option, and None is the panic. Which runes above ASCII are letters
  or digits is the table \<open>word\<close>.
\<close>

section \<open>Checked access\<close>

definition at_index :: "'a list \<Rightarrow> int \<Rightarrow> 'a option" where
  "at_index xs i = (if 0 \<le> i \<and> i < int (length xs) then Some (xs ! nat i) else None)"

definition slice :: "'a list \<Rightarrow> int \<Rightarrow> int \<Rightarrow> 'a list option" where
  "slice xs a b =
     (if 0 \<le> a \<and> a \<le> b \<and> b \<le> int (length xs) then Some (take (nat b - nat a) (drop (nat a) xs)) else None)"

definition set_index :: "'a list \<Rightarrow> int \<Rightarrow> 'a \<Rightarrow> 'a list option" where
  "set_index xs i x = (if 0 \<le> i \<and> i < int (length xs) then Some (xs[nat i := x]) else None)"

lemma slice_all: "0 \<le> a \<Longrightarrow> a \<le> int (length xs) \<Longrightarrow> slice xs a (int (length xs)) = Some (drop (nat a) xs)"
  by (simp add: slice_def)

lemma slice_start: "0 \<le> b \<Longrightarrow> b \<le> int (length xs) \<Longrightarrow> slice xs 0 b = Some (take (nat b) xs)"
  by (simp add: slice_def)

section \<open>Runes\<close>

datatype char_class = ClassSpace | ClassWord | ClassPunct

text \<open>\<open>unicode.IsSpace\<close>.\<close>

definition space_rune :: "nat \<Rightarrow> bool" where
  "space_rune r \<longleftrightarrow>
     9 \<le> r \<and> r \<le> 13 \<or> r \<in> {0x20, 0x85, 0xA0, 0x1680, 0x2028, 0x2029, 0x202F, 0x205F, 0x3000}
     \<or> 0x2000 \<le> r \<and> r \<le> 0x200A"

definition class_of :: "(nat \<Rightarrow> bool) \<Rightarrow> nat \<Rightarrow> char_class" where
  "class_of word r =
     (if r = 95 \<or> (if r < 128 then 48 \<le> r \<and> r \<le> 57 \<or> 65 \<le> r \<and> r \<le> 90 \<or> 97 \<le> r \<and> r \<le> 122 else word r)
      then ClassWord
      else if space_rune r then ClassSpace else ClassPunct)"

type_synonym line = "nat list"

definition line_of :: "string \<Rightarrow> line" where
  "line_of s = map fst (runes s)"

section \<open>The editor\<close>

datatype vim_mode = ModeNormal | ModeInsert

record pos =
  p_row :: int
  p_col :: int

abbreviation at_pos :: "int \<Rightarrow> int \<Rightarrow> pos" where
  "at_pos r c \<equiv> \<lparr>p_row = r, p_col = c\<rparr>"

record undo_state =
  un_lines :: "line list"
  un_cur :: pos

definition max_undo :: nat where
  "max_undo = 100"

record vim =
  vi_placeholder :: string
  vi_pending :: string
  vi_lines :: "line list"
  vi_reg :: "line list"
  vi_undo :: "undo_state list"
  vi_cur :: pos
  vi_mode :: vim_mode
  vi_width :: int
  vi_reg_line :: bool
  vi_focused :: bool

definition new_vim :: "string \<Rightarrow> vim" where
  "new_vim placeholder =
     \<lparr>vi_placeholder = placeholder, vi_pending = [], vi_lines = [[]], vi_reg = [], vi_undo = [],
      vi_cur = at_pos 0 0, vi_mode = ModeNormal, vi_width = 0, vi_reg_line = False, vi_focused = False\<rparr>"

definition vim_value :: "vim \<Rightarrow> string" where
  "vim_value v = join_with [nl] (map encode_runes (vi_lines v))"

definition move_to :: "pos \<Rightarrow> vim \<Rightarrow> vim" where
  "move_to p v = v\<lparr>vi_cur := p\<rparr>"

definition row_of :: "vim \<Rightarrow> int" where
  "row_of v = p_row (vi_cur v)"

definition col_of :: "vim \<Rightarrow> int" where
  "col_of v = p_col (vi_cur v)"

definition line_now :: "vim \<Rightarrow> line option" where
  "line_now v = at_index (vi_lines v) (row_of v)"

definition clamp :: "vim \<Rightarrow> vim option" where
  "clamp v =
     (let row = min (max (row_of v) 0) (int (length (vi_lines v)) - 1) in
      do {
        l \<leftarrow> at_index (vi_lines v) row;
        let last = int (length l) - (if vi_mode v = ModeNormal \<and> 0 < length l then 1 else 0);
        Some (move_to (at_pos row (min (max (col_of v) 0) last)) v)
      })"

definition set_value :: "string \<Rightarrow> vim \<Rightarrow> vim option" where
  "set_value s v =
     (let ls = map line_of (split_byte nl s) in
      do {
        l \<leftarrow> at_index ls (int (length ls) - 1);
        clamp (v\<lparr>vi_lines := ls, vi_cur := at_pos (int (length ls) - 1) (int (length l)), vi_undo := [],
                 vi_pending := []\<rparr>)
      })"

definition reset :: "vim \<Rightarrow> vim" where
  "reset v = v\<lparr>vi_lines := [[]], vi_cur := at_pos 0 0, vi_undo := [], vi_pending := []\<rparr>"

definition focus :: "vim \<Rightarrow> vim option" where
  "focus v = clamp (v\<lparr>vi_focused := True, vi_mode := ModeInsert\<rparr>)"

definition blur :: "vim \<Rightarrow> vim option" where
  "blur v = clamp (v\<lparr>vi_focused := False, vi_mode := ModeNormal, vi_pending := []\<rparr>)"

definition set_width :: "int \<Rightarrow> vim \<Rightarrow> vim" where
  "set_width w v = v\<lparr>vi_width := max w 1\<rparr>"

definition leave_insert :: "vim \<Rightarrow> vim option" where
  "leave_insert v =
     clamp (v\<lparr>vi_mode := ModeNormal, vi_cur := at_pos (row_of v) (col_of v - 1), vi_pending := []\<rparr>)"

text \<open>The undo stack keeps the newest \<open>max_undo\<close> snapshots.\<close>

definition snapshot :: "vim \<Rightarrow> vim" where
  "snapshot v =
     (let stack = vi_undo v @ [\<lparr>un_lines = vi_lines v, un_cur = vi_cur v\<rparr>]
      in v\<lparr>vi_undo := drop (length stack - max_undo) stack\<rparr>)"

definition restore :: "vim \<Rightarrow> vim option" where
  "restore v =
     (if vi_undo v = [] then Some v
      else clamp (v\<lparr>vi_undo := butlast (vi_undo v), vi_lines := un_lines (last (vi_undo v)),
                    vi_cur := un_cur (last (vi_undo v))\<rparr>))"

section \<open>Word motions\<close>

text \<open>The end of a line reads as a newline, so a motion crosses it.\<close>

definition rune_at :: "vim \<Rightarrow> pos \<Rightarrow> nat option" where
  "rune_at v p =
     do {
       l \<leftarrow> at_index (vi_lines v) (p_row p);
       if int (length l) \<le> p_col p then Some 10 else at_index l (p_col p)
     }"

definition forward :: "vim \<Rightarrow> pos \<Rightarrow> (pos \<times> bool) option" where
  "forward v p =
     do {
       l \<leftarrow> at_index (vi_lines v) (p_row p);
       Some (if p_col p < int (length l) then (at_pos (p_row p) (p_col p + 1), True)
             else if p_row p + 1 < int (length (vi_lines v)) then (at_pos (p_row p + 1) 0, True)
             else (p, False))
     }"

definition backward :: "vim \<Rightarrow> pos \<Rightarrow> (pos \<times> bool) option" where
  "backward v p =
     (if 0 < p_col p then Some (at_pos (p_row p) (p_col p - 1), True)
      else if 0 < p_row p then
        do {
          l \<leftarrow> at_index (vi_lines v) (p_row p - 1);
          Some (at_pos (p_row p - 1) (int (length l)), True)
        }
      else Some (p, False))"

text \<open>What lies ahead of a position and behind it, the measures of the two directions.\<close>

definition ahead :: "vim \<Rightarrow> pos \<Rightarrow> nat" where
  "ahead v p =
     sum_list (map (\<lambda>l. Suc (length l)) (drop (nat (p_row p + 1)) (vi_lines v)))
     + nat ((case at_index (vi_lines v) (p_row p) of None \<Rightarrow> 0 | Some l \<Rightarrow> int (length l)) - p_col p)"

definition behind :: "vim \<Rightarrow> pos \<Rightarrow> nat" where
  "behind v p =
     sum_list (map (\<lambda>l. Suc (length l)) (take (nat (p_row p)) (vi_lines v))) + nat (p_col p)"

lemma drop_nth: "i < length xs \<Longrightarrow> drop i xs = xs ! i # drop (Suc i) xs"
  by (simp add: Cons_nth_drop_Suc)

lemma forward_ahead: "forward v p = Some (q, True) \<Longrightarrow> ahead v q < ahead v p"
proof (cases "at_index (vi_lines v) (p_row p)")
  case (Some l)
  assume f: "forward v p = Some (q, True)"
  have r: "0 \<le> p_row p" "nat (p_row p) < length (vi_lines v)" "l = vi_lines v ! nat (p_row p)"
    using Some by (auto simp: at_index_def split: if_splits)
  show ?thesis
  proof (cases "p_col p < int (length l)")
    case True
    with f Some have "q = at_pos (p_row p) (p_col p + 1)" by (simp add: forward_def)
    with True Some show ?thesis by (simp add: ahead_def)
  next
    case False
    with f Some have q: "q = at_pos (p_row p + 1) 0" and n: "p_row p + 1 < int (length (vi_lines v))"
      by (auto simp: forward_def split: if_splits)
    have e: "nat (p_row p + 1) < length (vi_lines v)" "nat (p_row p + 2) = Suc (nat (p_row p + 1))"
      using n r(1) by auto
    have a: "at_index (vi_lines v) (1 + p_row p) = Some (vi_lines v ! nat (1 + p_row p))"
      using n r(1) by (simp add: at_index_def)
    have d: "drop (nat (1 + p_row p)) (vi_lines v)
        = vi_lines v ! nat (1 + p_row p) # drop (Suc (nat (1 + p_row p))) (vi_lines v)"
      using e(1) by (simp only: drop_nth add.commute)
    show ?thesis unfolding q ahead_def using Some False
      by (simp add: a d e(2) add.commute)
  qed
qed (simp add: forward_def)

lemma backward_behind: "backward v p = Some (q, True) \<Longrightarrow> behind v q < behind v p"
proof (cases "0 < p_col p")
  case True
  assume "backward v p = Some (q, True)"
  with True show ?thesis by (auto simp: backward_def behind_def)
next
  case False
  assume b: "backward v p = Some (q, True)"
  with False have r: "0 < p_row p" by (auto simp: backward_def split: if_splits)
  with False b obtain l where l: "at_index (vi_lines v) (p_row p - 1) = Some l"
    "q = at_pos (p_row p - 1) (int (length l))"
    by (auto simp: backward_def bind_eq_Some_conv)
  then have k: "nat (p_row p - 1) < length (vi_lines v)" "l = vi_lines v ! nat (p_row p - 1)"
    by (auto simp: at_index_def split: if_splits)
  have s: "nat (p_row p) = Suc (nat (p_row p - 1))" using r by simp
  show ?thesis unfolding behind_def l(2) s using k by (simp add: take_Suc_conv_app_nth)
qed

datatype direction = Forward | Backward

definition step :: "direction \<Rightarrow> vim \<Rightarrow> pos \<Rightarrow> (pos \<times> bool) option" where
  "step d v p = (case d of Forward \<Rightarrow> forward v p | Backward \<Rightarrow> backward v p)"

definition room :: "direction \<Rightarrow> vim \<Rightarrow> pos \<Rightarrow> nat" where
  "room d v p = (case d of Forward \<Rightarrow> ahead v p | Backward \<Rightarrow> behind v p)"

lemma step_room: "step d v p = Some (q, True) \<Longrightarrow> room d v q < room d v p"
  by (cases d) (auto simp: step_def room_def forward_ahead backward_behind)

lemma step_stays: "step d v p = Some (q, False) \<Longrightarrow> q = p"
  by (cases d) (auto simp: step_def forward_def backward_def bind_eq_Some_conv split: if_splits)

text \<open>\<open>for ok && cond(p) { p, ok = step(p) }\<close>.\<close>

function skip_while ::
  "(nat \<Rightarrow> bool) \<Rightarrow> (char_class \<Rightarrow> bool) \<Rightarrow> direction \<Rightarrow> vim \<Rightarrow> pos \<Rightarrow> bool \<Rightarrow> (pos \<times> bool) option" where
  "skip_while word cond d v p ok =
     (if \<not> ok then Some (p, ok)
      else case rune_at v p of
             None \<Rightarrow> None
           | Some r \<Rightarrow>
               if cond (class_of word r)
               then (case step d v p of None \<Rightarrow> None | Some (q, on) \<Rightarrow> skip_while word cond d v q on)
               else Some (p, ok))"
  by pat_completeness auto
termination
proof (relation "measure (\<lambda>(word, cond, d, v, p, ok). room d v p + of_bool ok)")
  fix word cond d v p ok r x q on
  assume "\<not> \<not> ok" "step d v p = Some x" "(q, on) = x"
  then show "((word, cond, d, v, q, on), (word, cond, d, v, p, ok))
      \<in> measure (\<lambda>(word, cond, d, v, p, ok). room d v p + of_bool ok)"
    using step_room [of d v p q] step_stays [of d v p q] by (cases on) auto
qed simp

text \<open>\<open>for { q, on := step(p); if !on || class(q) != c { return p }; p = q }\<close>.\<close>

function run_of :: "(nat \<Rightarrow> bool) \<Rightarrow> char_class \<Rightarrow> direction \<Rightarrow> vim \<Rightarrow> pos \<Rightarrow> pos option" where
  "run_of word c d v p =
     (case step d v p of
        None \<Rightarrow> None
      | Some (q, on) \<Rightarrow>
          if \<not> on then Some p
          else case rune_at v q of
                 None \<Rightarrow> None
               | Some r \<Rightarrow> if class_of word r \<noteq> c then Some p else run_of word c d v q)"
  by pat_completeness auto
termination
  by (relation "measure (\<lambda>(word, c, d, v, p). room d v p)") (auto dest: step_room)

declare skip_while.simps [simp del] run_of.simps [simp del]

definition next_word_start :: "(nat \<Rightarrow> bool) \<Rightarrow> vim \<Rightarrow> pos option" where
  "next_word_start word v =
     do {
       r \<leftarrow> rune_at v (vi_cur v);
       let c = class_of word r;
       (p, ok) \<leftarrow> skip_while word (\<lambda>k. c \<noteq> ClassSpace \<and> k = c) Forward v (vi_cur v) True;
       (p, ok) \<leftarrow> skip_while word (\<lambda>k. k = ClassSpace) Forward v p ok;
       Some p
     }"

definition word_edge :: "(nat \<Rightarrow> bool) \<Rightarrow> direction \<Rightarrow> vim \<Rightarrow> pos option" where
  "word_edge word d v =
     do {
       (p, ok) \<leftarrow> step d v (vi_cur v);
       (p, ok) \<leftarrow> skip_while word (\<lambda>k. k = ClassSpace) d v p ok;
       r \<leftarrow> rune_at v p;
       run_of word (class_of word r) d v p
     }"

definition prev_word_start :: "(nat \<Rightarrow> bool) \<Rightarrow> vim \<Rightarrow> pos option" where
  "prev_word_start word v = word_edge word Backward v"

definition word_end :: "(nat \<Rightarrow> bool) \<Rightarrow> vim \<Rightarrow> pos option" where
  "word_end word v = word_edge word Forward v"

section \<open>Motions\<close>

definition first_non_blank :: "line \<Rightarrow> int" where
  "first_non_blank l = (case find_index (\<lambda>r. \<not> space_rune r) l of Some i \<Rightarrow> int i | None \<Rightarrow> 0)"

text \<open>\<open>target\<close>: the outer option is a panic, the inner one a key that is no motion.\<close>

definition target :: "(nat \<Rightarrow> bool) \<Rightarrow> vim \<Rightarrow> string \<Rightarrow> pos option option" where
  "target word v s =
     (let row = row_of v; col = col_of v in
      if s \<in> {''h'', ''left''} then Some (Some (at_pos row (col - 1)))
      else if s \<in> {''l'', ''right''} then Some (Some (at_pos row (col + 1)))
      else if s \<in> {''j'', ''down''} then Some (Some (at_pos (row + 1) col))
      else if s \<in> {''k'', ''up''} then Some (Some (at_pos (row - 1) col))
      else if s \<in> {''0'', ''home''} then Some (Some (at_pos row 0))
      else if s = ''^'' then do { l \<leftarrow> line_now v; Some (Some (at_pos row (first_non_blank l))) }
      else if s \<in> {''$'', ''end''} then do { l \<leftarrow> line_now v; Some (Some (at_pos row (int (length l)))) }
      else if s = ''w'' then map_option Some (next_word_start word v)
      else if s = ''b'' then map_option Some (prev_word_start word v)
      else if s = ''e'' then map_option Some (word_end word v)
      else if s = ''G'' then Some (Some (at_pos (int (length (vi_lines v)) - 1) 0))
      else Some None)"

definition motion :: "(nat \<Rightarrow> bool) \<Rightarrow> string \<Rightarrow> vim \<Rightarrow> vim option" where
  "motion word s v =
     do {
       t \<leftarrow> target word v s;
       case t of None \<Rightarrow> Some v | Some p \<Rightarrow> clamp (move_to p v)
     }"

text \<open>\<open>span\<close>: the columns of the current line an operator applies to.\<close>

definition span_of :: "(nat \<Rightarrow> bool) \<Rightarrow> vim \<Rightarrow> string \<Rightarrow> (int \<times> int) option option" where
  "span_of word v s =
     do {
       t \<leftarrow> (if s = ''$'' then Some (Some (vi_cur v)) else target word v s);
       case t of
         None \<Rightarrow> Some None
       | Some p \<Rightarrow> do {
           col \<leftarrow> (if s = ''$'' \<or> p_row p > row_of v then map_option (\<lambda>l. int (length l)) (line_now v)
                  else Some (if p_row p < row_of v then 0
                             else if s = ''e'' then p_col p + 1 else p_col p));
           Some (Some (if s \<noteq> ''$'' \<and> col < col_of v then (col, col_of v) else (col_of v, col)))
         }
     }"

section \<open>Edits\<close>

definition cut_span :: "int \<Rightarrow> int \<Rightarrow> vim \<Rightarrow> vim option" where
  "cut_span from0 to0 v =
     do {
       l \<leftarrow> line_now v;
       let from = min (max from0 0) (int (length l));
       let to = min (max to0 from) (int (length l));
       gone \<leftarrow> slice l from to;
       before \<leftarrow> slice l 0 from;
       after \<leftarrow> slice l to (int (length l));
       ls \<leftarrow> set_index (vi_lines v) (row_of v) (before @ after);
       Some (v\<lparr>vi_reg := [gone], vi_reg_line := False, vi_lines := ls, vi_cur := at_pos (row_of v) from\<rparr>)
     }"

definition cut_line :: "bool \<Rightarrow> vim \<Rightarrow> vim option" where
  "cut_line keep v =
     do {
       l \<leftarrow> line_now v;
       let v = v\<lparr>vi_reg := [l], vi_reg_line := True\<rparr>;
       if keep then do {
         ls \<leftarrow> set_index (vi_lines v) (row_of v) [];
         Some (v\<lparr>vi_lines := ls, vi_cur := at_pos (row_of v) 0\<rparr>)
       } else do {
         before \<leftarrow> slice (vi_lines v) 0 (row_of v);
         after \<leftarrow> slice (vi_lines v) (row_of v + 1) (int (length (vi_lines v)));
         let ls = (if before @ after = [] then [[]] else before @ after);
         Some (v\<lparr>vi_lines := ls, vi_cur := at_pos (min (row_of v) (int (length ls) - 1)) 0\<rparr>)
       }
     }"

definition open_line :: "int \<Rightarrow> vim \<Rightarrow> vim option" where
  "open_line row v =
     do {
       before \<leftarrow> slice (vi_lines v) 0 row;
       after \<leftarrow> slice (vi_lines v) row (int (length (vi_lines v)));
       Some (v\<lparr>vi_lines := before @ [[]] @ after, vi_cur := at_pos row 0\<rparr>)
     }"

definition paste :: "bool \<Rightarrow> vim \<Rightarrow> vim option" where
  "paste later v =
     (if vi_reg v = [] then Some v
      else let v = snapshot v in
        if vi_reg_line v then do {
          let row = (if later then row_of v + 1 else row_of v);
          before \<leftarrow> slice (vi_lines v) 0 row;
          after \<leftarrow> slice (vi_lines v) row (int (length (vi_lines v)));
          clamp (v\<lparr>vi_lines := before @ vi_reg v @ after, vi_cur := at_pos row 0\<rparr>)
        } else do {
          l \<leftarrow> line_now v;
          reg \<leftarrow> at_index (vi_reg v) 0;
          let col = min (if later \<and> 0 < length l then col_of v + 1 else col_of v) (int (length l));
          before \<leftarrow> slice l 0 col;
          after \<leftarrow> slice l col (int (length l));
          ls \<leftarrow> set_index (vi_lines v) (row_of v) (before @ reg @ after);
          clamp (v\<lparr>vi_lines := ls, vi_cur := at_pos (row_of v) (col + int (length reg) - 1)\<rparr>)
        })"

definition insert_text :: "line \<Rightarrow> vim \<Rightarrow> vim option" where
  "insert_text rs v =
     do {
       l \<leftarrow> line_now v;
       let col = min (col_of v) (int (length l));
       before \<leftarrow> slice l 0 col;
       after \<leftarrow> slice l col (int (length l));
       ls \<leftarrow> set_index (vi_lines v) (row_of v) (before @ rs @ after);
       Some (v\<lparr>vi_lines := ls, vi_cur := at_pos (row_of v) (col + int (length rs))\<rparr>)
     }"

definition backspace :: "vim \<Rightarrow> vim option" where
  "backspace v =
     (if 0 < col_of v then cut_span (col_of v - 1) (col_of v) v
      else if row_of v = 0 then Some v
      else do {
        prev \<leftarrow> at_index (vi_lines v) (row_of v - 1);
        l \<leftarrow> at_index (vi_lines v) (row_of v);
        joined \<leftarrow> set_index (vi_lines v) (row_of v - 1) (prev @ l);
        before \<leftarrow> slice joined 0 (row_of v);
        after \<leftarrow> slice joined (row_of v + 1) (int (length joined));
        Some (v\<lparr>vi_lines := before @ after, vi_cur := at_pos (row_of v - 1) (int (length prev))\<rparr>)
      })"

definition delete_rune :: "vim \<Rightarrow> vim option" where
  "delete_rune v =
     do {
       l \<leftarrow> line_now v;
       if col_of v < int (length l) then cut_span (col_of v) (col_of v + 1) v else Some v
     }"

definition delete_word_before :: "(nat \<Rightarrow> bool) \<Rightarrow> vim \<Rightarrow> vim option" where
  "delete_word_before word v =
     (if col_of v = 0 then backspace v
      else do {
        start \<leftarrow> prev_word_start word v;
        cut_span (if p_row start \<noteq> row_of v then 0 else p_col start) (col_of v) v
      })"

definition split_line :: "vim \<Rightarrow> vim option" where
  "split_line v =
     do {
       l \<leftarrow> line_now v;
       let col = min (col_of v) (int (length l));
       head \<leftarrow> slice l 0 col;
       rest \<leftarrow> slice l col (int (length l));
       before \<leftarrow> slice (vi_lines v) 0 (row_of v);
       after \<leftarrow> slice (vi_lines v) (row_of v + 1) (int (length (vi_lines v)));
       Some (v\<lparr>vi_lines := before @ [head] @ [rest] @ after, vi_cur := at_pos (row_of v + 1) 0\<rparr>)
     }"

definition enter_insert :: "string \<Rightarrow> vim \<Rightarrow> vim option" where
  "enter_insert s v0 =
     (let v = (snapshot v0)\<lparr>vi_mode := ModeInsert\<rparr> in
      do {
        moved \<leftarrow>
          (if s = ''a'' then Some (move_to (at_pos (row_of v) (col_of v + 1)) v)
           else if s = ''I'' then map_option (\<lambda>l. move_to (at_pos (row_of v) (first_non_blank l)) v) (line_now v)
           else if s = ''A'' then map_option (\<lambda>l. move_to (at_pos (row_of v) (int (length l))) v) (line_now v)
           else if s = ''o'' then open_line (row_of v + 1) v
           else if s = ''O'' then open_line (row_of v) v
           else Some v);
        clamp moved
      })"

text \<open>The text spliced by a completion, which may span lines.\<close>

definition replace_span :: "int \<Rightarrow> int \<Rightarrow> string \<Rightarrow> vim \<Rightarrow> vim option" where
  "replace_span from0 to0 t v =
     do {
       l \<leftarrow> line_now v;
       let from = min (max from0 0) (int (length l));
       let to = min (max to0 from) (int (length l));
       head \<leftarrow> slice l 0 from;
       rest \<leftarrow> slice l to (int (length l));
       let parts = map line_of (split_byte nl t);
       let inserted = (head @ hd parts) # tl parts;
       let last_idx = int (length inserted) - 1;
       lst \<leftarrow> at_index inserted last_idx;
       filled \<leftarrow> set_index inserted last_idx (lst @ rest);
       before \<leftarrow> slice (vi_lines v) 0 (row_of v);
       after \<leftarrow> slice (vi_lines v) (row_of v + 1) (int (length (vi_lines v)));
       Some (v\<lparr>vi_lines := before @ filled @ after, vi_cur := at_pos (row_of v + last_idx) (int (length lst))\<rparr>)
     }"

section \<open>Keys\<close>

text \<open>A key press: its name, the text it types, and whether control is held.\<close>

record key =
  k_name :: string
  k_text :: string
  k_ctrl :: bool

definition insert_key :: "(nat \<Rightarrow> bool) \<Rightarrow> key \<Rightarrow> vim \<Rightarrow> vim option" where
  "insert_key word k v =
     (let s = k_name k in
      if s = ''backspace'' then backspace v
      else if s = ''delete'' then delete_rune v
      else if s = ''enter'' then split_line v
      else if s = ''ctrl+w'' then delete_word_before word v
      else if s \<in> {''left'', ''right'', ''up'', ''down'', ''home'', ''end''} then motion word s v
      else if k_ctrl k \<or> k_text k = [] then Some v
      else insert_text (line_of (k_text k)) v)"

definition operator_key :: "(nat \<Rightarrow> bool) \<Rightarrow> string \<Rightarrow> vim \<Rightarrow> vim option" where
  "operator_key word s0 v0 =
     (let op' = vi_pending v0; v = v0\<lparr>vi_pending := []\<rparr> in
      if op' = ''g'' then (if s0 = ''g'' then clamp (move_to (at_pos 0 0) v) else Some v)
      else if s0 = op' then do {
        u \<leftarrow> cut_line (op' = ''c'') (snapshot v);
        clamp (if op' = ''c'' then u\<lparr>vi_mode := ModeInsert\<rparr> else u)
      }
      else let s = (if op' = ''c'' \<and> s0 = ''w'' then ''e'' else s0) in do {
        sp \<leftarrow> span_of word v s;
        case sp of
          None \<Rightarrow> Some v
        | Some (from, to) \<Rightarrow> do {
            u \<leftarrow> cut_span from to (snapshot v);
            clamp (if op' = ''c'' then u\<lparr>vi_mode := ModeInsert\<rparr> else u)
          }
      })"

definition normal_key :: "(nat \<Rightarrow> bool) \<Rightarrow> string \<Rightarrow> vim \<Rightarrow> vim option" where
  "normal_key word s v =
     (if vi_pending v \<noteq> [] then operator_key word s v
      else if s \<in> {''d'', ''c'', ''g''} then Some (v\<lparr>vi_pending := s\<rparr>)
      else if s \<in> {''i'', ''a'', ''I'', ''A'', ''o'', ''O''} then enter_insert s v
      else if s = ''x'' then Option.bind (cut_span (col_of v) (col_of v + 1) (snapshot v)) clamp
      else if s \<in> {''D'', ''C''} then do {
        l \<leftarrow> line_now v;
        u \<leftarrow> cut_span (col_of v) (int (length l)) (snapshot v);
        clamp (if s = ''C'' then u\<lparr>vi_mode := ModeInsert\<rparr> else u)
      }
      else if s \<in> {''p'', ''P''} then paste (s = ''p'') v
      else if s = ''u'' then restore v
      else motion word s v)"

definition handle_key :: "(nat \<Rightarrow> bool) \<Rightarrow> key \<Rightarrow> vim \<Rightarrow> vim option" where
  "handle_key word k v =
     (if vi_mode v = ModeInsert then insert_key word k v else normal_key word (k_name k) v)"

section \<open>Completing a snippet\<close>

text \<open>\<open>wordsMatch\<close> of \<open>match.go\<close>: every word of the query occurs in the label.\<close>

definition words_match :: "string \<Rightarrow> string \<Rightarrow> bool" where
  "words_match label query = list_all (contains (to_lower label)) (GoStrings.fields (to_lower query))"

fun word_start :: "(nat \<Rightarrow> bool) \<Rightarrow> line \<Rightarrow> nat \<Rightarrow> nat option" where
  "word_start word l 0 = Some 0"
| "word_start word l (Suc n) =
     (case at_index l (int n) of
        None \<Rightarrow> None
      | Some r \<Rightarrow> if class_of word r = ClassWord then word_start word l n else Some (Suc n))"

definition word_before_cursor :: "(nat \<Rightarrow> bool) \<Rightarrow> vim \<Rightarrow> (int \<times> string) option" where
  "word_before_cursor word v =
     do {
       l \<leftarrow> line_now v;
       start \<leftarrow> word_start word l (nat (col_of v));
       w \<leftarrow> slice l (int start) (col_of v);
       Some (int start, encode_runes w)
     }"

definition matching_snippet_names :: "(string \<times> string) list \<Rightarrow> string \<Rightarrow> string list" where
  "matching_snippet_names snippets w =
     sort_strings (filter (\<lambda>n. words_match n w) (map fst snippets))"

fun shrink_to :: "string \<Rightarrow> nat \<Rightarrow> string \<Rightarrow> string" where
  "shrink_to n k p = (if has_prefix n (take k p) \<or> k = 0 then take k p else shrink_to n (k - 1) p)"

declare shrink_to.simps [simp del]

definition longest_common_prefix :: "string list \<Rightarrow> string" where
  "longest_common_prefix names =
     (case names of [] \<Rightarrow> [] | n # ns \<Rightarrow> fold (\<lambda>m p. shrink_to m (length p) p) ns n)"

text \<open>\<open>completeSnippet\<close>: the editor and the status line.\<close>

definition complete_snippet ::
  "(nat \<Rightarrow> bool) \<Rightarrow> (string \<times> string) list \<Rightarrow> vim \<times> string \<Rightarrow> (vim \<times> string) option" where
  "complete_snippet word snippets vs =
     (let (v, status) = vs in
      do {
        (start, w) \<leftarrow> word_before_cursor word v;
        if w = [] then Some (v, status)
        else (let names = matching_snippet_names snippets w;
                  listed = ''snippets: '' @ join_with '', '' names in
          case names of
            [] \<Rightarrow> Some (v, status)
          | [n] \<Rightarrow> do {
              u \<leftarrow> replace_span start (col_of v) (case map_of snippets n of Some t \<Rightarrow> t | None \<Rightarrow> []) (snapshot v);
              Some (u, [])
            }
          | _ \<Rightarrow>
              let lcp = longest_common_prefix names in
              if length w < length lcp then do {
                u \<leftarrow> replace_span start (col_of v) lcp (snapshot v);
                Some (u, listed)
              } else Some (v, listed))
      })"

section \<open>A session\<close>

datatype vim_event =
    EvKey key | EvSet string | EvReset | EvFocus | EvBlur | EvLeave | EvWidth int | EvComplete "(string \<times> string) list"

definition apply_event :: "(nat \<Rightarrow> bool) \<Rightarrow> vim_event \<Rightarrow> vim \<Rightarrow> vim option" where
  "apply_event word e v =
     (case e of
        EvKey k \<Rightarrow> handle_key word k v
      | EvSet s \<Rightarrow> set_value s v
      | EvReset \<Rightarrow> Some (reset v)
      | EvFocus \<Rightarrow> focus v
      | EvBlur \<Rightarrow> blur v
      | EvLeave \<Rightarrow> leave_insert v
      | EvWidth w \<Rightarrow> Some (set_width w v)
      | EvComplete snippets \<Rightarrow> map_option fst (complete_snippet word snippets (v, [])))"

fun run_events :: "(nat \<Rightarrow> bool) \<Rightarrow> vim_event list \<Rightarrow> vim \<Rightarrow> vim option" where
  "run_events word [] v = Some v"
| "run_events word (e # es) v = Option.bind (apply_event word e v) (run_events word es)"

lemma run_events_append: "run_events word (xs @ ys) v = Option.bind (run_events word xs v) (run_events word ys)"
proof (induction xs arbitrary: v)
  case (Cons e es)
  then show ?case by (cases "apply_event word e v") auto
qed simp

end
