(* ===== verification/ComposerFacts.thy ===== *)
theory ComposerFacts
  imports Composer
begin

text \<open>
  The composer never panics, its cursor stays in the buffer, and one undo takes back a whole insertion.
\<close>

section \<open>Positions inside the buffer\<close>

definition in_buffer :: "line list \<Rightarrow> pos \<Rightarrow> bool" where
  "in_buffer ls p \<longleftrightarrow>
     0 \<le> p_row p \<and> p_row p < int (length ls) \<and> 0 \<le> p_col p \<and> p_col p \<le> int (length (ls ! nat (p_row p)))"

definition undo_sound :: "vim \<Rightarrow> bool" where
  "undo_sound v \<longleftrightarrow> list_all (\<lambda>u. un_lines u \<noteq> []) (vi_undo v) \<and> length (vi_undo v) \<le> max_undo"

text \<open>What every operation starts from and leaves.\<close>

definition well_formed :: "vim \<Rightarrow> bool" where
  "well_formed v \<longleftrightarrow> in_buffer (vi_lines v) (vi_cur v) \<and> undo_sound v"

text \<open>In normal mode the cursor is on a rune of its line, unless the line has none.\<close>

definition settled :: "vim \<Rightarrow> bool" where
  "settled v \<longleftrightarrow>
     vi_mode v = ModeInsert \<or> vi_lines v ! nat (row_of v) = []
     \<or> col_of v < int (length (vi_lines v ! nat (row_of v)))"

lemmas cursor_defs = row_of_def col_of_def move_to_def

lemma at_index_Some [simp]: "0 \<le> i \<Longrightarrow> i < int (length xs) \<Longrightarrow> at_index xs i = Some (xs ! nat i)"
  by (simp add: at_index_def)

lemma set_index_Some [simp]: "0 \<le> i \<Longrightarrow> i < int (length xs) \<Longrightarrow> set_index xs i x = Some (xs[nat i := x])"
  by (simp add: set_index_def)

lemma slice_Some [simp]:
  "0 \<le> a \<Longrightarrow> a \<le> b \<Longrightarrow> b \<le> int (length xs) \<Longrightarrow> slice xs a b = Some (take (nat b - nat a) (drop (nat a) xs))"
  by (simp add: slice_def)

lemma line_now_Some: "in_buffer (vi_lines v) (vi_cur v) \<Longrightarrow> line_now v = Some (vi_lines v ! nat (row_of v))"
  by (simp add: line_now_def in_buffer_def cursor_defs)

lemma well_formed_line [simp]: "well_formed v \<Longrightarrow> line_now v = Some (vi_lines v ! nat (row_of v))"
  by (simp add: line_now_Some well_formed_def)

lemma well_formed_bounds:
  assumes "well_formed v"
  shows "0 \<le> row_of v" "row_of v < int (length (vi_lines v))" "0 \<le> col_of v"
    "col_of v \<le> int (length (vi_lines v ! nat (row_of v)))" "undo_sound v" "vi_lines v \<noteq> []"
  using assms by (auto simp: well_formed_def in_buffer_def cursor_defs)

lemma well_formedI:
  "0 \<le> row_of v \<Longrightarrow> row_of v < int (length (vi_lines v)) \<Longrightarrow> 0 \<le> col_of v \<Longrightarrow>
   col_of v \<le> int (length (vi_lines v ! nat (row_of v))) \<Longrightarrow> undo_sound v \<Longrightarrow> well_formed v"
  by (simp add: well_formed_def in_buffer_def cursor_defs)

lemma undo_sound_update [simp]:
  "undo_sound (v\<lparr>vi_lines := ls\<rparr>) = undo_sound v" "undo_sound (v\<lparr>vi_cur := p\<rparr>) = undo_sound v"
  "undo_sound (v\<lparr>vi_mode := m\<rparr>) = undo_sound v" "undo_sound (v\<lparr>vi_pending := s\<rparr>) = undo_sound v"
  "undo_sound (v\<lparr>vi_reg := r\<rparr>) = undo_sound v" "undo_sound (v\<lparr>vi_reg_line := b\<rparr>) = undo_sound v"
  "undo_sound (v\<lparr>vi_focused := b\<rparr>) = undo_sound v" "undo_sound (v\<lparr>vi_width := w\<rparr>) = undo_sound v"
  by (simp_all add: undo_sound_def)

text \<open>\<open>clamp\<close> repairs any position as long as there is a line.\<close>

lemma clamp_ok:
  assumes "vi_lines v \<noteq> []"
  obtains p where "clamp v = Some (v\<lparr>vi_cur := p\<rparr>)" "in_buffer (vi_lines v) p" "settled (v\<lparr>vi_cur := p\<rparr>)"
proof -
  define row where "row = min (max (row_of v) 0) (int (length (vi_lines v)) - 1)"
  have r: "0 \<le> row" "row < int (length (vi_lines v))" using assms by (auto simp: row_def)
  define l where "l = vi_lines v ! nat row"
  define lst where "lst = int (length l) - (if vi_mode v = ModeNormal \<and> 0 < length l then 1 else 0)"
  define p where "p = at_pos row (min (max (col_of v) 0) lst)"
  have "clamp v = Some (v\<lparr>vi_cur := p\<rparr>)"
    using r by (auto simp: clamp_def Let_def row_def [symmetric] l_def [symmetric] lst_def p_def move_to_def)
  moreover have "in_buffer (vi_lines v) p"
    using r by (auto simp: in_buffer_def p_def l_def [symmetric] lst_def Suc_le_eq)
  moreover have "settled (v\<lparr>vi_cur := p\<rparr>)"
    by (cases "vi_mode v") (auto simp: settled_def cursor_defs p_def l_def [symmetric] lst_def)
  ultimately show thesis by (rule that)
qed

text \<open>A clamped position stays where it is.\<close>

lemma clamp_id: "well_formed v \<Longrightarrow> settled v \<Longrightarrow> clamp v = Some v"
  by (cases "vi_mode v")
    (auto simp: clamp_def well_formed_def in_buffer_def settled_def cursor_defs Let_def)

section \<open>Motions stay inside\<close>

lemma rune_at_Some: "in_buffer (vi_lines v) p \<Longrightarrow> \<exists>r. rune_at v p = Some r"
  by (auto simp: rune_at_def in_buffer_def)

lemma step_in: "in_buffer (vi_lines v) p \<Longrightarrow> \<exists>q on. step d v p = Some (q, on) \<and> in_buffer (vi_lines v) q"
  by (cases d) (auto simp: step_def forward_def backward_def in_buffer_def)

lemma skip_while_in:
  "in_buffer (vi_lines v) p \<Longrightarrow> \<exists>q on. skip_while word cond d v p ok = Some (q, on) \<and> in_buffer (vi_lines v) q"
proof (induction word cond d v p ok rule: skip_while.induct)
  case (1 word cond d v p ok)
  obtain r where r: "rune_at v p = Some r" using rune_at_Some [OF "1.prems"] by blast
  obtain q on where q: "step d v p = Some (q, on)" "in_buffer (vi_lines v) q"
    using step_in [OF "1.prems"] by blast
  show ?case
  proof (cases "ok \<and> cond (class_of word r)")
    case True
    with "1.IH" [of r "(q, on)" q on] r q show ?thesis
      by (subst skip_while.simps) (simp add: r)
  next
    case False
    with "1.prems" r show ?thesis by (subst skip_while.simps) (auto simp: r)
  qed
qed

lemma run_of_in: "in_buffer (vi_lines v) p \<Longrightarrow> \<exists>q. run_of word c d v p = Some q \<and> in_buffer (vi_lines v) q"
proof (induction word c d v p rule: run_of.induct)
  case (1 word c d v p)
  obtain q on where q: "step d v p = Some (q, on)" "in_buffer (vi_lines v) q"
    using step_in [OF "1.prems"] by blast
  obtain r where r: "rune_at v q = Some r" using rune_at_Some [OF q(2)] by blast
  show ?case
  proof (cases "on \<and> class_of word r = c")
    case True
    with "1.IH" [of "(q, on)" q on r] r q show ?thesis by (subst run_of.simps) simp
  next
    case False
    with "1.prems" q r show ?thesis by (subst run_of.simps) auto
  qed
qed

lemma word_edge_in:
  assumes "in_buffer (vi_lines v) (vi_cur v)"
  shows "\<exists>q. word_edge word d v = Some q \<and> in_buffer (vi_lines v) q"
proof -
  obtain p ok where p: "step d v (vi_cur v) = Some (p, ok)" "in_buffer (vi_lines v) p"
    using step_in [OF assms] by blast
  obtain q on where q: "skip_while word (\<lambda>k. k = ClassSpace) d v p ok = Some (q, on)" "in_buffer (vi_lines v) q"
    using skip_while_in [OF p(2)] by blast
  obtain r where r: "rune_at v q = Some r" using rune_at_Some [OF q(2)] by blast
  show ?thesis using run_of_in [OF q(2)] by (simp add: word_edge_def p q r)
qed

lemma next_word_in:
  assumes "in_buffer (vi_lines v) (vi_cur v)"
  shows "\<exists>q. next_word_start word v = Some q \<and> in_buffer (vi_lines v) q"
proof -
  obtain r where r: "rune_at v (vi_cur v) = Some r" using rune_at_Some [OF assms] by blast
  obtain p ok where p: "skip_while word (\<lambda>k. class_of word r \<noteq> ClassSpace \<and> k = class_of word r) Forward v (vi_cur v) True
      = Some (p, ok)" "in_buffer (vi_lines v) p"
    using skip_while_in [OF assms] by blast
  obtain q on where "skip_while word (\<lambda>k. k = ClassSpace) Forward v p ok = Some (q, on)" "in_buffer (vi_lines v) q"
    using skip_while_in [OF p(2)] by blast
  then show ?thesis by (simp add: next_word_start_def r p)
qed

lemma target_ok: "well_formed v \<Longrightarrow> \<exists>t. target word v s = Some t"
  using next_word_in [of v word] word_edge_in [of v word]
  by (auto simp: target_def Let_def well_formed_def line_now_Some prev_word_start_def word_end_def)


section \<open>Edits return, and stay inside\<close>

text \<open>An edit returns a well-formed editor in the mode and with the undo stack it had.\<close>

definition edits :: "vim \<Rightarrow> vim option \<Rightarrow> bool" where
  "edits v r \<longleftrightarrow> (\<exists>u. r = Some u \<and> well_formed u \<and> vi_undo u = vi_undo v \<and> vi_mode u = vi_mode v)"

lemma editsI: "r = Some u \<Longrightarrow> well_formed u \<Longrightarrow> vi_undo u = vi_undo v \<Longrightarrow> vi_mode u = vi_mode v \<Longrightarrow> edits v r"
  by (auto simp: edits_def)

lemma edits_same: "well_formed v \<Longrightarrow> edits v (Some v)"
  by (auto simp: edits_def)

lemma edits_clamp: "vi_lines v \<noteq> [] \<Longrightarrow> undo_sound v \<Longrightarrow> edits v (clamp v)"
  by (erule clamp_ok) (auto simp: edits_def well_formed_def)

lemma clamp_settled: "clamp v = Some u \<Longrightarrow> vi_lines v \<noteq> [] \<Longrightarrow> settled u"
  by (erule clamp_ok) auto

lemma cut_span_edits:
  assumes "well_formed v"
  shows "edits v (cut_span a b v)"
proof -
  note w = well_formed_bounds [OF assms]
  let ?l = "vi_lines v ! nat (row_of v)"
  define f where "f = min (max a 0) (int (length ?l))"
  define t where "t = min (max b f) (int (length ?l))"
  have b: "0 \<le> f" "f \<le> t" "t \<le> int (length ?l)" by (auto simp: f_def t_def)
  have "cut_span a b v = Some (v\<lparr>vi_reg := [take (nat t - nat f) (drop (nat f) ?l)], vi_reg_line := False,
      vi_lines := (vi_lines v)[nat (row_of v) := take (nat f) ?l @ drop (nat t) ?l], vi_cur := at_pos (row_of v) f\<rparr>)"
    using assms b w by (simp add: cut_span_def Let_def f_def [symmetric] t_def [symmetric])
  then show ?thesis
    by (rule editsI) (use w b in \<open>auto simp: well_formed_def in_buffer_def\<close>)
qed

lemma insert_text_edits:
  assumes "well_formed v"
  shows "edits v (insert_text rs v)"
proof -
  note w = well_formed_bounds [OF assms]
  let ?l = "vi_lines v ! nat (row_of v)"
  have "insert_text rs v = Some (v\<lparr>vi_lines := (vi_lines v)[nat (row_of v) := take (nat (col_of v)) ?l @ rs @ drop (nat (col_of v)) ?l],
      vi_cur := at_pos (row_of v) (col_of v + int (length rs))\<rparr>)"
    using assms w by (simp add: insert_text_def Let_def)
  then show ?thesis
    by (rule editsI) (use w in \<open>auto simp: well_formed_def in_buffer_def\<close>)
qed

lemma backspace_edits:
  assumes "well_formed v"
  shows "edits v (backspace v)"
proof -
  note w = well_formed_bounds [OF assms]
  consider "0 < col_of v" | "col_of v = 0" "row_of v = 0" | "col_of v = 0" "0 < row_of v" using w(1,3) by linarith
  then show ?thesis
  proof cases
    case 3
    let ?prev = "vi_lines v ! nat (row_of v - 1)" and ?l = "vi_lines v ! nat (row_of v)"
    let ?j = "(vi_lines v)[nat (row_of v - 1) := ?prev @ ?l]"
    have "backspace v = Some (v\<lparr>vi_lines := take (nat (row_of v)) ?j @ drop (nat (row_of v + 1)) ?j,
        vi_cur := at_pos (row_of v - 1) (int (length ?prev))\<rparr>)"
      using 3 w by (simp add: backspace_def)
    then show ?thesis
    proof (rule editsI)
      have i: "nat (row_of v - 1) < length (take (nat (row_of v)) ?j)"
        "nat (row_of v - 1) < nat (row_of v)" "nat (row_of v - 1) < length (vi_lines v)" using 3 w by auto
      then have "(take (nat (row_of v)) ?j @ drop (nat (row_of v + 1)) ?j) ! nat (row_of v - 1) = ?prev @ ?l"
        by (simp add: nth_append)
      then show "well_formed (v\<lparr>vi_lines := take (nat (row_of v)) ?j @ drop (nat (row_of v + 1)) ?j,
          vi_cur := at_pos (row_of v - 1) (int (length ?prev))\<rparr>)"
        using 3 w by (auto simp: well_formed_def in_buffer_def)
    qed auto
  qed (use assms in \<open>auto simp: backspace_def intro: cut_span_edits edits_same\<close>)
qed

lemma split_line_edits:
  assumes "well_formed v"
  shows "edits v (split_line v)"
proof -
  note w = well_formed_bounds [OF assms]
  let ?l = "vi_lines v ! nat (row_of v)"
  have "split_line v = Some (v\<lparr>vi_lines := take (nat (row_of v)) (vi_lines v) @ [take (nat (col_of v)) ?l]
      @ [drop (nat (col_of v)) ?l] @ drop (nat (row_of v + 1)) (vi_lines v), vi_cur := at_pos (row_of v + 1) 0\<rparr>)"
    using assms w by (simp add: split_line_def Let_def)
  then show ?thesis
    by (rule editsI) (use w in \<open>auto simp: well_formed_def in_buffer_def nth_append\<close>)
qed

lemma motion_edits: "well_formed v \<Longrightarrow> edits v (motion word s v)"
  using target_ok [of v word s] edits_clamp [of "move_to _ v"] well_formed_bounds(5,6) [of v]
  by (auto simp: motion_def edits_same edits_def move_to_def split: option.split)

lemma delete_rune_edits: "well_formed v \<Longrightarrow> edits v (delete_rune v)"
  by (auto simp: delete_rune_def intro: cut_span_edits edits_same)

lemma delete_word_edits:
  assumes "well_formed v"
  shows "edits v (delete_word_before word v)"
  using word_edge_in [of v word Backward] assms
  by (auto simp: delete_word_before_def prev_word_start_def well_formed_def
      intro: cut_span_edits [OF assms] backspace_edits [OF assms])

lemma insert_key_edits: "well_formed v \<Longrightarrow> edits v (insert_key word k v)"
  by (simp add: insert_key_def Let_def backspace_edits delete_rune_edits split_line_edits delete_word_edits
      motion_edits edits_same insert_text_edits)


section \<open>Normal mode\<close>

text \<open>What a normal-mode operation returns: well-formed, and settled once clamped.\<close>

definition lands :: "vim \<Rightarrow> vim option \<Rightarrow> bool" where
  "lands v r \<longleftrightarrow> (\<exists>u. r = Some u \<and> well_formed u \<and> (settled v \<longrightarrow> settled u))"

lemma lands_same: "well_formed v \<Longrightarrow> lands v (Some v)"
  by (simp add: lands_def)

lemma lands_pending: "well_formed v \<Longrightarrow> lands v (Some (v\<lparr>vi_pending := s\<rparr>))"
  by (simp add: lands_def well_formed_def in_buffer_def settled_def undo_sound_def cursor_defs)

lemma lands_clamp: "vi_lines v \<noteq> [] \<Longrightarrow> undo_sound v \<Longrightarrow> lands v0 (clamp v)"
  by (erule clamp_ok) (auto simp: lands_def well_formed_def)

lemma lands_mode:
  assumes "well_formed u"
  shows "lands v0 (clamp (u\<lparr>vi_mode := m\<rparr>))" "lands v0 (clamp u)"
  using well_formed_bounds(5,6) [OF assms] by (auto intro: lands_clamp)

lemma snapshot_fields [simp]:
  "vi_lines (snapshot v) = vi_lines v" "vi_cur (snapshot v) = vi_cur v" "vi_mode (snapshot v) = vi_mode v"
  "vi_reg (snapshot v) = vi_reg v" "vi_reg_line (snapshot v) = vi_reg_line v" "vi_pending (snapshot v) = vi_pending v"
  by (simp_all add: snapshot_def Let_def)

lemma snapshot_places [simp]: "row_of (snapshot v) = row_of v" "col_of (snapshot v) = col_of v"
  by (simp_all add: cursor_defs)

lemma undo_sound_snapshot: "well_formed v \<Longrightarrow> undo_sound (snapshot v)"
  using well_formed_bounds(5,6) [of v]
  by (auto simp: undo_sound_def snapshot_def Let_def list_all_iff dest!: in_set_dropD)

lemma well_formed_snapshot: "well_formed v \<Longrightarrow> well_formed (snapshot v)"
  using undo_sound_snapshot [of v] by (simp add: well_formed_def)

lemma well_formed_pending [simp]: "well_formed (v\<lparr>vi_pending := s\<rparr>) = well_formed v"
  and settled_pending [simp]: "settled (v\<lparr>vi_pending := s\<rparr>) = settled v"
  by (simp_all add: well_formed_def settled_def cursor_defs)

lemma cut_span_lands:
  assumes "well_formed v"
  shows "lands v0 (Option.bind (cut_span a b v) (\<lambda>u. clamp (if c then u\<lparr>vi_mode := m\<rparr> else u)))"
    "lands v0 (Option.bind (cut_span a b v) clamp)"
  using cut_span_edits [OF assms, of a b] lands_mode by (auto simp: edits_def)

lemma cut_line_lands:
  assumes "well_formed v"
  shows "lands v0 (Option.bind (cut_line k v) (\<lambda>u. clamp (if c then u\<lparr>vi_mode := m\<rparr> else u)))"
proof -
  note w = well_formed_bounds [OF assms]
  have "\<exists>u. cut_line k v = Some u \<and> vi_lines u \<noteq> [] \<and> undo_sound u"
    using assms w by (cases k) (auto simp: cut_line_def Let_def row_of_def)
  then obtain u where u: "cut_line k v = Some u" "vi_lines u \<noteq> []" "undo_sound u" by blast
  have "lands v0 (clamp (if c then u\<lparr>vi_mode := m\<rparr> else u))" by (rule lands_clamp) (use u in auto)
  with u(1) show ?thesis by simp
qed

lemma paste_lands:
  assumes "well_formed v"
  shows "lands v (paste later v)"
proof (cases "vi_reg v = []")
  case False
  note w = well_formed_bounds [OF assms] and u = undo_sound_snapshot [OF assms]
  have s: "line_now (snapshot v) = Some (vi_lines v ! nat (row_of v))"
    using assms by (simp add: line_now_Some well_formed_def row_of_def)
  show ?thesis
    using False w u s by (auto simp: paste_def Let_def at_index_def row_of_def [symmetric] col_of_def [symmetric] intro!: lands_clamp)
qed (use assms in \<open>simp add: paste_def lands_same\<close>)

lemma enter_insert_lands:
  assumes "well_formed v"
  shows "lands v (enter_insert s v)"
proof -
  note w = well_formed_bounds [OF assms] and u = undo_sound_snapshot [OF assms]
  let ?v = "(snapshot v)\<lparr>vi_mode := ModeInsert\<rparr>"
  have l: "line_now ?v = Some (vi_lines v ! nat (row_of v))" "row_of ?v = row_of v"
    using assms by (simp_all add: line_now_Some well_formed_def row_of_def)
  show ?thesis
    using w u by (auto simp: enter_insert_def Let_def l open_line_def move_to_def intro!: lands_clamp)
qed

lemma restore_lands:
  assumes "well_formed v"
  shows "lands v (restore v)"
proof (cases "vi_undo v = []")
  case False
  then have "un_lines (last (vi_undo v)) \<noteq> []" "undo_sound (v\<lparr>vi_undo := butlast (vi_undo v)\<rparr>)"
    using well_formed_bounds(5) [OF assms]
    by (auto simp: undo_sound_def list_all_iff dest: in_set_butlastD)
  with False show ?thesis by (auto simp: restore_def undo_sound_def intro!: lands_clamp)
qed (use assms in \<open>simp add: restore_def lands_same\<close>)

lemma span_ok: "well_formed v \<Longrightarrow> \<exists>sp. span_of word v s = Some sp"
  using target_ok [of v word s] by (auto simp: span_of_def split: option.split)

lemma motion_lands: "well_formed v \<Longrightarrow> lands v (motion word s v)"
  using target_ok [of v word s] lands_clamp [of "move_to _ v"] well_formed_bounds(5,6) [of v]
  by (auto simp: motion_def lands_same move_to_def split: option.split)

lemma operator_lands:
  assumes "well_formed v"
  shows "lands v (operator_key word s v)"
proof -
  let ?v = "v\<lparr>vi_pending := []\<rparr>"
  have w: "well_formed ?v" "well_formed (snapshot ?v)" using assms by (simp_all add: well_formed_snapshot)
  obtain sp where sp: "span_of word ?v (if vi_pending v = ''c'' \<and> s = ''w'' then ''e'' else s) = Some sp"
    using span_ok [OF w(1)] by blast
  show ?thesis
    using assms well_formed_bounds(5,6) [OF assms] w
    by (auto simp: operator_key_def Let_def sp move_to_def intro!: lands_pending lands_clamp
        cut_line_lands [OF w(2)] cut_span_lands [OF w(2)] split: option.split simp del: snapshot_fields)
qed

lemma normal_lands:
  assumes "well_formed v"
  shows "lands v (normal_key word s v)"
proof -
  have w: "well_formed (snapshot v)" using assms by (rule well_formed_snapshot)
  show ?thesis
    using assms cut_span_lands [OF w] operator_lands [OF assms] enter_insert_lands [OF assms]
      paste_lands [OF assms] restore_lands [OF assms] motion_lands [OF assms]
    by (simp add: normal_key_def lands_pending)
qed


section \<open>Completion and sessions\<close>

lemma replace_span_edits:
  assumes "well_formed v"
  shows "edits v (replace_span a b t v)"
proof -
  note w = well_formed_bounds [OF assms]
  let ?l = "vi_lines v ! nat (row_of v)"
  define f where "f = min (max a 0) (int (length ?l))"
  define g where "g = min (max b f) (int (length ?l))"
  have b: "0 \<le> f" "f \<le> g" "g \<le> int (length ?l)" by (auto simp: f_def g_def)
  define ps where "ps = map line_of (split_byte nl t)"
  define ins where "ins = (take (nat f) ?l @ hd ps) # tl ps"
  define k where "k = length ins - 1"
  have k: "int (length ins) - 1 = int k" "k < length ins" by (simp_all add: k_def ins_def)
  let ?filled = "ins[k := ins ! k @ drop (nat g) ?l]"
  let ?ls = "take (nat (row_of v)) (vi_lines v) @ ?filled @ drop (nat (row_of v + 1)) (vi_lines v)"
  have e: "replace_span a b t v = Some (v\<lparr>vi_lines := ?ls, vi_cur := at_pos (row_of v + int k) (int (length (ins ! k)))\<rparr>)"
  proof -
    have s: "slice ?l 0 f = Some (take (nat f) ?l)" "slice ?l g (int (length ?l)) = Some (drop (nat g) ?l)"
      "slice (vi_lines v) 0 (row_of v) = Some (take (nat (row_of v)) (vi_lines v))"
      "slice (vi_lines v) (row_of v + 1) (int (length (vi_lines v))) = Some (drop (nat (row_of v + 1)) (vi_lines v))"
      using b w by simp_all
    have i: "at_index ins (int k) = Some (ins ! k)" "set_index ins (int k) x = Some (ins[k := x])" for x
      using k by simp_all
    show ?thesis
      by (simp only: replace_span_def Let_def well_formed_line [OF assms] Option.bind.simps f_def [symmetric]
          g_def [symmetric] s ps_def [symmetric] ins_def [symmetric] k(1) i)
  qed
  have i: "nat (row_of v + int k) = nat (row_of v) + k" using w by simp
  have n: "?ls ! nat (row_of v + int k) = ins ! k @ drop (nat g) ?l"
    using w k unfolding i by (simp add: nth_append)
  show ?thesis using e
  proof (rule editsI)
    have "row_of v + int k < int (length ?ls)" using w k by (simp add: min_def)
    with n w show "well_formed (v\<lparr>vi_lines := ?ls, vi_cur := at_pos (row_of v + int k) (int (length (ins ! k)))\<rparr>)"
      by (auto simp: well_formed_def in_buffer_def)
  qed simp_all
qed

lemma word_start_Some: "n \<le> length l \<Longrightarrow> \<exists>s. word_start word l n = Some s \<and> s \<le> n"
  by (induction n) (auto intro: le_SucI)

lemma word_before_ok:
  assumes "well_formed v"
  shows "\<exists>s w. word_before_cursor word v = Some (s, w)"
proof -
  note w = well_formed_bounds [OF assms]
  have "nat (col_of v) \<le> length (vi_lines v ! nat (row_of v))" using w(4) by simp
  from word_start_Some [OF this, of word]
  obtain s where "word_start word (vi_lines v ! nat (row_of v)) (nat (col_of v)) = Some s" "s \<le> nat (col_of v)"
    by blast
  then show ?thesis using assms w by (simp add: word_before_cursor_def)
qed

lemma complete_snippet_ok:
  assumes "well_formed v"
  shows "\<exists>u st. complete_snippet word snippets (v, st0) = Some (u, st) \<and> well_formed u \<and> vi_mode u = vi_mode v"
proof -
  obtain s w where sw: "word_before_cursor word v = Some (s, w)" using word_before_ok [OF assms] by blast
  have r: "\<exists>u st. Option.bind (replace_span s (col_of v) t (snapshot v)) (\<lambda>u. Some (u, g)) = Some (u, st)
      \<and> well_formed u \<and> vi_mode u = vi_mode v" for t g
    using replace_span_edits [OF well_formed_snapshot [OF assms], of s "col_of v" t] by (auto simp: edits_def)
  consider "w = [] \<or> matching_snippet_names snippets w = []" | n where "w \<noteq> []" "matching_snippet_names snippets w = [n]"
    | n m ns where "w \<noteq> []" "matching_snippet_names snippets w = n # m # ns"
    by (metis list.exhaust)
  then show ?thesis
  proof cases
    case 1
    with assms show ?thesis by (auto simp: complete_snippet_def sw)
  next
    case 2
    with r show ?thesis by (simp add: complete_snippet_def sw)
  next
    case 3
    with r assms show ?thesis by (auto simp: complete_snippet_def sw Let_def)
  qed
qed

lemma split_lines_ne [simp]: "map line_of (split_byte nl s) \<noteq> []"
  by simp

lemma set_value_lands: "lands v (set_value s v)"
proof -
  let ?ls = "map line_of (split_byte nl s)"
  have "0 < length ?ls" by simp
  then have "0 \<le> int (length ?ls) - 1" "int (length ?ls) - 1 < int (length ?ls)" by linarith+
  then show ?thesis unfolding set_value_def Let_def
    by (simp del: length_map) (rule lands_clamp; simp add: undo_sound_def)
qed

lemma reset_lands: "well_formed (reset v) \<and> settled (reset v)"
  by (simp add: well_formed_def reset_def in_buffer_def undo_sound_def settled_def cursor_defs max_undo_def)

definition is_complete :: "vim_event \<Rightarrow> bool" where
  "is_complete e \<longleftrightarrow> (case e of EvComplete _ \<Rightarrow> True | _ \<Rightarrow> False)"

lemma handle_key_lands:
  assumes "well_formed v"
  shows "lands v (handle_key word k v)"
  using insert_key_edits [OF assms, of word k] normal_lands [OF assms]
  by (auto simp: handle_key_def edits_def lands_def settled_def)


lemma event_lands:
  assumes "well_formed v"
  shows "\<exists>u. apply_event word e v = Some u \<and> well_formed u \<and> (settled v \<longrightarrow> settled u \<or> is_complete e)"
proof -
  note w = well_formed_bounds(5,6) [OF assms]
  show ?thesis
  proof (cases e)
    case (EvKey k)
    with handle_key_lands [OF assms, of word k] show ?thesis by (auto simp: apply_event_def lands_def)
  next
    case (EvSet s)
    with set_value_lands [of v s] show ?thesis by (auto simp: apply_event_def lands_def)
  next
    case EvReset
    with reset_lands [of v] show ?thesis by (auto simp: apply_event_def)
  next
    case EvFocus
    have "lands v (focus v)" unfolding focus_def by (rule lands_clamp) (use w in auto)
    with EvFocus show ?thesis by (auto simp: apply_event_def lands_def)
  next
    case EvBlur
    have "lands v (blur v)" unfolding blur_def by (rule lands_clamp) (use w in auto)
    with EvBlur show ?thesis by (auto simp: apply_event_def lands_def)
  next
    case EvLeave
    have "lands v (leave_insert v)" unfolding leave_insert_def by (rule lands_clamp) (use w in auto)
    with EvLeave show ?thesis by (auto simp: apply_event_def lands_def)
  next
    case (EvWidth i)
    with assms show ?thesis
      by (auto simp: apply_event_def set_width_def well_formed_def settled_def undo_sound_def cursor_defs)
  next
    case (EvComplete snippets)
    from complete_snippet_ok [OF assms, of word snippets "[]"]
    obtain u st where "complete_snippet word snippets (v, []) = Some (u, st)" "well_formed u" by blast
    with EvComplete show ?thesis by (auto simp: apply_event_def is_complete_def)
  qed
qed

lemma events_land:
  "well_formed v \<Longrightarrow> settled v \<or> b \<Longrightarrow>
     \<exists>u. run_events word es v = Some u \<and> well_formed u \<and> (settled u \<or> b \<or> list_ex is_complete es)"
proof (induction es arbitrary: v b)
  case (Cons e es)
  obtain u where u: "apply_event word e v = Some u" "well_formed u" "settled u \<or> (b \<or> is_complete e)"
    using event_lands [OF Cons.prems(1), of word e] Cons.prems(2) by blast
  from Cons.IH [OF u(2,3)] u(1) show ?case by auto
qed auto

lemma new_vim_well_formed: "well_formed (new_vim ph) \<and> settled (new_vim ph)"
  by (simp add: well_formed_def new_vim_def in_buffer_def undo_sound_def settled_def cursor_defs max_undo_def)

text \<open>
  C14: whatever is typed, pasted, completed or set, the composer never panics, and its cursor stays inside
  the buffer, which keeps at least one line; the undo stack holds at most a hundred snapshots, none of
  them without a line. Unless a snippet was completed, the cursor of normal mode rests on a rune of its
  line.
\<close>

theorem composer_never_panics:
  "\<exists>v. run_events word es (new_vim ph) = Some v \<and> well_formed v \<and> (settled v \<or> list_ex is_complete es)"
  using events_land [of "new_vim ph" False word es] new_vim_well_formed [of ph] by simp

lemma composer_start: "run_events word es (new_vim ph) = Some v \<Longrightarrow> well_formed v"
  using events_land [of "new_vim ph" False word es] new_vim_well_formed [of ph] by auto

section \<open>Undoing an insert\<close>

lemma typed_keeps:
  assumes "well_formed v" "vi_mode v = ModeInsert"
  shows "\<exists>u. run_events word (map EvKey ks) v = Some u \<and> well_formed u \<and> vi_mode u = ModeInsert \<and> vi_undo u = vi_undo v"
  using assms
proof (induction ks arbitrary: v)
  case (Cons k ks)
  obtain u where u: "insert_key word k v = Some u" "well_formed u" "vi_undo u = vi_undo v" "vi_mode u = vi_mode v"
    using insert_key_edits [OF Cons.prems(1), of word k] by (auto simp: edits_def)
  with Cons.prems(2) Cons.IH [OF u(2)] show ?case by (simp add: apply_event_def handle_key_def)
qed simp

lemma enter_insert_opens:
  assumes "well_formed v"
  shows "\<exists>u. enter_insert s v = Some u \<and> well_formed u \<and> vi_mode u = ModeInsert
    \<and> vi_undo u \<noteq> [] \<and> last (vi_undo u) = \<lparr>un_lines = vi_lines v, un_cur = vi_cur v\<rparr>"
proof -
  note w = well_formed_bounds [OF assms] and u = undo_sound_snapshot [OF assms]
  let ?v = "(snapshot v)\<lparr>vi_mode := ModeInsert\<rparr>"
  have l: "line_now ?v = Some (vi_lines v ! nat (row_of v))" "row_of ?v = row_of v"
    using assms by (simp_all add: line_now_Some well_formed_def row_of_def)
  have n: "vi_undo (snapshot v) \<noteq> []" "last (vi_undo (snapshot v)) = \<lparr>un_lines = vi_lines v, un_cur = vi_cur v\<rparr>"
    using w(5) by (auto simp: snapshot_def Let_def undo_sound_def max_undo_def)
  have "\<exists>q. enter_insert s v = clamp q \<and> vi_lines q \<noteq> [] \<and> undo_sound q \<and> vi_mode q = ModeInsert
      \<and> vi_undo q = vi_undo (snapshot v)"
    using w u by (auto simp: enter_insert_def Let_def l open_line_def move_to_def)
  then obtain q where q: "enter_insert s v = clamp q" "vi_lines q \<noteq> []" "undo_sound q" "vi_mode q = ModeInsert"
    "vi_undo q = vi_undo (snapshot v)" by blast
  from edits_clamp [OF q(2,3)] q n show ?thesis by (auto simp: edits_def)
qed

text \<open>
  One \<open>u\<close> undoes a whole insertion: from normal mode, however insert mode is entered (\<open>i a I A o O\<close>)
  and whatever is then typed, deleted or split, leaving it and pressing \<open>u\<close> gives back the lines as they
  were, and the cursor where \<open>clamp\<close> would put it.
\<close>

theorem undo_whole_insert:
  assumes "run_events word es (new_vim ph) = Some v" "vi_mode v = ModeNormal" "vi_pending v = []"
    "i \<in> {''i'', ''a'', ''I'', ''A'', ''o'', ''O''}"
  shows "\<exists>u. run_events word
       ([EvKey \<lparr>k_name = i, k_text = t, k_ctrl = c\<rparr>] @ map EvKey ks @ [EvLeave, EvKey \<lparr>k_name = ''u'', k_text = t', k_ctrl = c'\<rparr>]) v
       = Some u \<and> vi_lines u = vi_lines v \<and> vi_mode u = ModeNormal \<and> clamp v = Some (v\<lparr>vi_cur := vi_cur u\<rparr>)"
proof -
  have w: "well_formed v" using composer_start [OF assms(1)] .
  obtain a where a: "enter_insert i v = Some a" "well_formed a" "vi_mode a = ModeInsert" "vi_undo a \<noteq> []"
    "last (vi_undo a) = \<lparr>un_lines = vi_lines v, un_cur = vi_cur v\<rparr>"
    using enter_insert_opens [OF w, of i] by blast
  have i: "apply_event word (EvKey \<lparr>k_name = i, k_text = t, k_ctrl = c\<rparr>) v = Some a"
    using assms a(1) by (auto simp: apply_event_def handle_key_def normal_key_def)
  obtain b where b: "run_events word (map EvKey ks) a = Some b" "well_formed b" "vi_undo b = vi_undo a"
    using typed_keeps [OF a(2,3), of word ks] by blast
  let ?l = "b\<lparr>vi_mode := ModeNormal, vi_cur := at_pos (row_of b) (col_of b - 1), vi_pending := []\<rparr>"
  obtain p where p: "clamp ?l = Some (?l\<lparr>vi_cur := p\<rparr>)"
    by (rule clamp_ok [of ?l]) (use well_formed_bounds(6) [OF b(2)] in simp_all)
  let ?m = "?l\<lparr>vi_cur := p\<rparr>"
  let ?r = "?m\<lparr>vi_undo := butlast (vi_undo b), vi_lines := vi_lines v, vi_cur := vi_cur v\<rparr>"
  have r: "restore ?m = clamp ?r" using a b by (simp add: restore_def)
  obtain q where q: "clamp v = Some (v\<lparr>vi_cur := q\<rparr>)"
    by (rule clamp_ok [of v]) (use well_formed_bounds(6) [OF w] in simp_all)
  obtain q' where q': "clamp ?r = Some (?r\<lparr>vi_cur := q'\<rparr>)"
    by (rule clamp_ok [of ?r]) (use well_formed_bounds(6) [OF w] in simp_all)
  have "q' = q"
    using q q' assms(2)
    by (auto simp: clamp_def cursor_defs Let_def bind_eq_Some_conv dest!: arg_cong [where f = vi_cur])
  with i b p q q' r show ?thesis
    by (simp add: run_events_append apply_event_def leave_insert_def handle_key_def normal_key_def)
qed

theorem undo_whole_insert_witness:
  "\<exists>v u. run_events (\<lambda>_. False) [EvSet ''ab''] (new_vim []) = Some v \<and> vi_lines v = [[97, 98]]
     \<and> run_events (\<lambda>_. False) ([EvKey \<lparr>k_name = ''i'', k_text = ''i'', k_ctrl = False\<rparr>]
          @ map EvKey [\<lparr>k_name = ''enter'', k_text = [], k_ctrl = False\<rparr>, \<lparr>k_name = ''x'', k_text = ''x'', k_ctrl = False\<rparr>]
          @ [EvLeave, EvKey \<lparr>k_name = ''u'', k_text = ''u'', k_ctrl = False\<rparr>]) v = Some u
     \<and> vi_lines u = [[97, 98]]"
proof -
  define v where "v = the (run_events (\<lambda>_. False) [EvSet ''ab''] (new_vim []))"
  have v: "run_events (\<lambda>_. False) [EvSet ''ab''] (new_vim []) = Some v" "vi_lines v = [[97, 98]]"
    "vi_mode v = ModeNormal" "vi_pending v = []"
    unfolding v_def by code_simp+
  from undo_whole_insert [OF v(1,3,4), of "''i''" "''i''" False
      "[\<lparr>k_name = ''enter'', k_text = [], k_ctrl = False\<rparr>, \<lparr>k_name = ''x'', k_text = ''x'', k_ctrl = False\<rparr>]" "''u''" False] v
  show ?thesis by auto
qed

text \<open>
  An operator with a vertical motion is not dropped: \<open>dj\<close> cuts to the end of the line and leaves the next,
  and \<open>dk\<close> to its start.
\<close>

lemma vertical_operator_guesses:
  "map_option vi_lines (run_events (\<lambda>_. False)
     (EvSet (''ab'' @ [nl] @ ''cd'') # map (\<lambda>n. EvKey \<lparr>k_name = n, k_text = n, k_ctrl = False\<rparr>) [''k'', ''0'', ''d'', ''j''])
     (new_vim [])) = Some [[], [99, 100]]"
  by code_simp

end
