(* ===== verification/GoTest.thy ===== *)
theory GoTest
  imports AgentTypes GoPath
begin

text \<open>
  Model of \<open>internal/gate/gotest.go\<close>: reading what \<open>go test -json\<close> reported, trimming a failure to the
  lines that name a changed file, the digest of a failure that names none, and the arguments of the
  command. The stream is the list of its decoded events; the regular expressions are written out as
  the scans they make.
\<close>

section \<open>The event stream\<close>

record go_test_event =
  ge_action :: string
  ge_package :: string
  ge_test :: string
  ge_output :: string
  ge_import_path :: string
  ge_failed_build :: string

record failed_test =
  ft_name :: string
  ft_package :: string
  ft_output :: "string list"

record go_test_summary =
  gs_failed :: "failed_test list"
  gs_passed :: "string list"
  gs_testless :: "string list"
  gs_build_failed :: bool
  gs_pass :: bool

definition add_line :: "'k \<Rightarrow> string \<Rightarrow> ('k \<Rightarrow> string list) \<Rightarrow> 'k \<Rightarrow> string list" where
  "add_line k l m = m(k := m k @ [l])"

text \<open>One event: the output kept per test and per build, and the summary.\<close>

type_synonym parse_state = "(string \<times> string \<Rightarrow> string list) \<times> (string \<Rightarrow> string list) \<times> go_test_summary"

definition parse_event :: "go_test_event \<Rightarrow> parse_state \<Rightarrow> parse_state" where
  "parse_event ev st =
     (let (output, build, s) = st; k = (ge_package ev, ge_test ev) in
      if ge_action ev = ''output'' then (add_line k (ge_output ev) output, build, s)
      else if ge_action ev = ''build-output'' then (output, add_line (ge_import_path ev) (ge_output ev) build, s)
      else if ge_action ev = ''skip'' then
        (output, build, if ge_test ev = [] then s\<lparr>gs_testless := gs_testless s @ [ge_package ev]\<rparr> else s)
      else if ge_action ev = ''pass'' then
        (output, build, if ge_test ev \<noteq> [] then s\<lparr>gs_passed := gs_passed s @ [ge_package ev @ ''.'' @ ge_test ev]\<rparr> else s)
      else if ge_action ev = ''fail'' then
        (output, build,
         if ge_test ev \<noteq> [] then
           s\<lparr>gs_failed := gs_failed s @ [\<lparr>ft_name = ge_test ev, ft_package = ge_package ev, ft_output = output k\<rparr>]\<rparr>
         else if ge_failed_build ev \<noteq> [] then
           s\<lparr>gs_build_failed := True,
             gs_failed := gs_failed s @ [\<lparr>ft_name = [], ft_package = ge_package ev,
                                          ft_output = build (ge_failed_build ev) @ output k\<rparr>]\<rparr>
         else s)
      else st)"

definition parse_go_test :: "go_test_event list \<Rightarrow> go_test_summary" where
  "parse_go_test evs =
     (let (_, _, s) = fold parse_event evs
            ((\<lambda>_. []), (\<lambda>_. []), \<lparr>gs_failed = [], gs_passed = [], gs_testless = [], gs_build_failed = False, gs_pass = False\<rparr>)
      in s\<lparr>gs_pass := \<not> gs_build_failed s \<and> gs_failed s = []\<rparr>)"

section \<open>File and line references\<close>

definition between :: "char \<Rightarrow> char \<Rightarrow> char \<Rightarrow> bool" where
  "between lo hi c \<longleftrightarrow> lo \<le> c \<and> c \<le> hi"

definition digit_char :: "char \<Rightarrow> bool" where
  "digit_char = between CHR ''0'' CHR ''9''"

definition word_char :: "char \<Rightarrow> bool" where
  "word_char c = (digit_char c \<or> c = CHR ''_'' \<or> list_ex (\<lambda>(lo, hi). between lo hi c) [(CHR ''a'', CHR ''z''), (CHR ''A'', CHR ''Z'')])"

definition path_char :: "char \<Rightarrow> bool" where
  "path_char c \<longleftrightarrow> word_char c \<or> c = CHR ''.'' \<or> c = CHR ''/'' \<or> c = CHR ''-''"

text \<open>\<open>[\w./-]+\.\w+\<close> read against a whole run of path characters: what follows the last dot is a word.\<close>

definition file_like :: "string \<Rightarrow> bool" where
  "file_like r =
     (let suf = takeWhile (\<lambda>c. c \<noteq> CHR ''.'') (rev r); pre = drop (length suf) (rev r)
      in suf \<noteq> [] \<and> list_all word_char suf \<and> 2 \<le> length pre)"

text \<open>\<open>fileLineRe\<close>: the first groups of all matches, left to right.\<close>

function file_refs :: "string \<Rightarrow> string list" where
  "file_refs s =
     (if s = [] then []
      else let r = takeWhile path_char s; rest = dropWhile path_char s in
        if r = [] then file_refs (tl s)
        else if file_like r \<and> has_prefix rest '':'' \<and> takeWhile digit_char (tl rest) \<noteq> []
        then r # file_refs (dropWhile digit_char (tl rest))
        else file_refs rest)"
  by pat_completeness auto
termination
proof (relation "measure length")
  fix s r rest :: string
  assume r: "r = takeWhile path_char s" and rest: "rest = dropWhile path_char s" and n: "r \<noteq> []"
  have "length r + length rest = length s"
    unfolding r rest by (metis length_append takeWhile_dropWhile_id)
  moreover have "0 < length r" using n by simp
  ultimately have l: "length rest < length s" by linarith
  then show "(rest, s) \<in> measure length" by simp
  show "(dropWhile digit_char (tl rest), s) \<in> measure length"
    using l length_dropWhile_le [of digit_char "tl rest"] by (simp add: le_less_trans)
qed auto

declare file_refs.simps [simp del]

text \<open>\<open>\s\<close> of a regular expression, which leaves the vertical tab out.\<close>

definition re_space :: "char \<Rightarrow> bool" where
  "re_space c \<longleftrightarrow> c \<in> set [CHR 0x09, CHR 0x0A, CHR 0x0C, CHR 0x0D, CHR '' '']"

text \<open>\<open>(:\d+)?\<close> after a location's line: the rest once it is taken, if it is there.\<close>

definition drop_column :: "string \<Rightarrow> string option" where
  "drop_column s =
     (if has_prefix s '':'' \<and> takeWhile digit_char (tl s) \<noteq> [] then Some (dropWhile digit_char (tl s)) else None)"

text \<open>\<open>locationOnlyRe\<close>.\<close>

definition lead_char :: "char \<Rightarrow> bool" where
  "lead_char c \<longleftrightarrow> re_space c \<or> c = CHR ''>'' \<or> c = CHR ''|'' \<or> c = CHR ''^'' \<or> c = CHR ''-''"

definition location_only :: "string \<Rightarrow> bool" where
  "location_only s =
     list_ex (\<lambda>k.
       let t = drop k s; r = takeWhile path_char t in
       file_like r
       \<and> (case drop_column (dropWhile path_char t) of
            None \<Rightarrow> False
          | Some rest \<Rightarrow> list_all re_space rest
                         \<or> (case drop_column rest of None \<Rightarrow> False | Some rest' \<Rightarrow> list_all re_space rest')))
     [0..<Suc (length (takeWhile lead_char s))]"

text \<open>\<open>locationPrefixRe\<close>: the length of the prefix, with the column when a colon follows it.\<close>

definition location_prefix :: "string \<Rightarrow> string" where
  "location_prefix s =
     (let r = takeWhile path_char s; finish = (\<lambda>t. take (length s - length (dropWhile re_space (tl t))) s) in
      if \<not> file_like r then []
      else case drop_column (dropWhile path_char s) of
             None \<Rightarrow> []
           | Some rest \<Rightarrow>
               (case drop_column rest of
                  Some rest' \<Rightarrow> if has_prefix rest' '':'' then finish rest'
                                else if has_prefix rest '':'' then finish rest else []
                | None \<Rightarrow> if has_prefix rest '':'' then finish rest else []))"

text \<open>\<open>goTestScaffoldRe\<close>, on a trimmed line.\<close>

definition word_ends :: "string \<Rightarrow> bool" where
  "word_ends t \<longleftrightarrow> t = [] \<or> \<not> word_char (hd t)"

definition scaffold :: "string \<Rightarrow> bool" where
  "scaffold s \<longleftrightarrow>
     list_ex (\<lambda>p. has_prefix s p \<and> word_ends (drop (length p) s))
       [''=== RUN'', ''=== PAUSE'', ''=== CONT'', ''=== NAME'', ''--- PASS'', ''--- SKIP'']
     \<or> s = ''PASS'' \<or> s = ''FAIL'' \<or> s = ''ok''"

section \<open>Trimming a failure\<close>

record trimmed_failure =
  tf_test :: string
  tf_package :: string
  tf_writer :: string
  tf_frames :: "string list"
  tf_context :: "string list"

definition trim_newlines :: "string \<Rightarrow> string" where
  "trim_newlines s = trim_right s [nl]"

definition diagnostic_lead :: "string list \<Rightarrow> nat \<Rightarrow> string" where
  "diagnostic_lead ls i =
     (if i = 0 \<or> \<not> location_only (ls ! i) then []
      else let lead = trim_newlines (ls ! (i - 1)) in
        if trim_space lead = [] \<or> file_refs lead \<noteq> [] then [] else lead)"

definition line_frames :: "string list \<Rightarrow> string list \<Rightarrow> nat \<Rightarrow> string list" where
  "line_frames changed ls i =
     (if list_ex (\<lambda>f. path_base f \<in> set (map path_base changed)) (file_refs (ls ! i))
      then (let lead = diagnostic_lead ls i in if lead \<noteq> [] then [lead] else []) @ [trim_newlines (ls ! i)]
      else [])"

definition context_lines :: nat where
  "context_lines = 6"

definition repeated_locations :: nat where
  "repeated_locations = 3"

text \<open>The digest: the messages kept in order, each with the line that first gave it and further places.\<close>

type_synonym digest = "(string \<times> string \<times> string list) list"

definition digest_line :: "string \<Rightarrow> digest \<Rightarrow> digest" where
  "digest_line l kept =
     (let trimmed = trim_newlines l in
      if trim_space trimmed = [] \<or> scaffold (trim_space trimmed) then kept
      else let location = location_prefix trimmed; message = drop (length location) trimmed in
        if message \<in> set (map fst kept)
        then (if location \<noteq> []
              then map (\<lambda>(m, first, also). if m = message
                     then (m, first, also @ [trim_right (trim_space location) '':'']) else (m, first, also)) kept
              else kept)
        else if length kept = context_lines then kept
        else kept @ [(message, trimmed, [])])"

definition also_at :: "string list \<Rightarrow> string" where
  "also_at ps =
     (if length ps \<le> repeated_locations then '' (also at '' @ join_with '', '' ps @ '')''
      else '' (also at '' @ join_with '', '' (take repeated_locations ps) @ '' and ''
           @ show_nat (length ps - repeated_locations) @ '' more)'')"

definition output_digest :: "string list \<Rightarrow> string list" where
  "output_digest ls =
     map (\<lambda>(m, first, also). if also \<noteq> [] then first @ also_at also else first) (fold digest_line ls [])"

definition trim_failure :: "failed_test \<Rightarrow> string list \<Rightarrow> trimmed_failure" where
  "trim_failure f changed =
     (let frames = concat (map (line_frames changed (ft_output f)) [0..<length (ft_output f)]) in
      if frames = []
      then \<lparr>tf_test = ft_name f, tf_package = ft_package f, tf_writer = [], tf_frames = [],
            tf_context = output_digest (ft_output f)\<rparr>
      else \<lparr>tf_test = ft_name f, tf_package = ft_package f, tf_writer = [], tf_frames = frames, tf_context = []\<rparr>)"

section \<open>The command\<close>

datatype level = LevelNone | LevelLine | LevelImporter | LevelPackage

record selection =
  se_level :: level
  se_tests :: "string list"
  se_packages :: "string list"

text \<open>A test's id is its package, a dot, and its name: the last dot splits it.\<close>

definition split_test_id :: "string \<Rightarrow> string \<times> string" where
  "split_test_id tid =
     (let name = rev (takeWhile (\<lambda>c. c \<noteq> CHR ''.'') (rev tid)) in
      if CHR ''.'' \<in> set tid then (take (length tid - length name - 1) tid, name) else (tid, tid))"

definition test_names_regex :: "string list \<Rightarrow> string" where
  "test_names_regex tids = ''^('' @ join_with ''|'' (sort_strings (dedup [] (map (snd \<circ> split_test_id) tids))) @ '')$''"

definition test_packages :: "string list \<Rightarrow> string list" where
  "test_packages tids = sort_strings (dedup [] (map (fst \<circ> split_test_id) tids))"

definition go_files :: "change_t list \<Rightarrow> string list" where
  "go_files changes = filter (\<lambda>p. path_ext p = ''.go'') (map cg_path changes)"

definition build_test_args :: "selection \<Rightarrow> string list" where
  "build_test_args sel =
     (case se_level sel of
        LevelLine \<Rightarrow> if se_tests sel = [] then []
                     else [''-run'', test_names_regex (se_tests sel)] @ test_packages (se_tests sel)
      | LevelImporter \<Rightarrow> se_packages sel
      | LevelPackage \<Rightarrow> se_packages sel
      | LevelNone \<Rightarrow> [])"

record gate_result =
  gr_gate :: string
  gr_level :: level
  gr_reason :: string
  gr_failures :: "trimmed_failure list"
  gr_advisories :: "trimmed_failure list"
  gr_rewrote :: "string list"
  gr_examined :: int
  gr_pass :: bool

definition abstained :: "string \<Rightarrow> level \<Rightarrow> string \<Rightarrow> gate_result" where
  "abstained g lvl reason =
     \<lparr>gr_gate = g, gr_level = lvl, gr_reason = reason, gr_failures = [], gr_advisories = [], gr_rewrote = [],
      gr_examined = 0, gr_pass = True\<rparr>"

definition examined_nothing_test :: string where
  "examined_nothing_test = ''examined-nothing''"

definition examined_nothing :: "string \<Rightarrow> level \<Rightarrow> string \<Rightarrow> gate_result" where
  "examined_nothing g lvl reason =
     \<lparr>gr_gate = g, gr_level = lvl, gr_reason = [],
      gr_failures = [\<lparr>tf_test = examined_nothing_test, tf_package = [], tf_writer = [], tf_frames = [reason],
                      tf_context = []\<rparr>],
      gr_advisories = [], gr_rewrote = [], gr_examined = 0, gr_pass = False\<rparr>"

definition level_text :: "level \<Rightarrow> string" where
  "level_text l = (case l of LevelNone \<Rightarrow> [] | LevelLine \<Rightarrow> ''line'' | LevelImporter \<Rightarrow> ''importer'' | LevelPackage \<Rightarrow> ''package'')"

text \<open>
  \<open>GoTestGate.Run\<close>: \<open>go\<close> is the command with its arguments, whose output is the decoded stream or a
  reason it could not be decoded.
\<close>

definition go_test_gate :: "(string list \<Rightarrow> string + go_test_event list) \<Rightarrow> change_t list \<Rightarrow> selection \<Rightarrow> string + gate_result" where
  "go_test_gate go changes sel =
     (let changed = length (go_files changes);
          args = build_test_args sel; lvl = se_level sel in
      if changed = 0 then Inr (abstained ''go-test'' lvl ''no changed Go file'')
      else if args = [] then
        Inr (examined_nothing ''go-test'' lvl
          (''selection produced no tests or packages for '' @ show_nat changed @ '' changed Go file(s), so nothing was run''))
      else case go args of
             Inl e \<Rightarrow> Inl (''go test gate: '' @ e)
           | Inr evs \<Rightarrow>
               let s = parse_go_test evs; ran = length (gs_passed s) + length (gs_failed s) in
               if ran = 0 then
                 (if gs_testless s \<noteq> [] \<and> \<not> gs_build_failed s
                  then Inr (abstained ''go-test'' lvl
                         (show_nat (length (gs_testless s)) @ '' selected package(s) hold no test file''))
                  else Inr (examined_nothing ''go-test'' lvl
                         (''go test ran 0 tests for '' @ show_nat changed @ '' changed Go file(s) at ''
                          @ level_text lvl @ '' level; the selection matched no test'')))
               else Inr \<lparr>gr_gate = ''go-test'', gr_level = lvl, gr_reason = [],
                         gr_failures = map (\<lambda>f. trim_failure f (map cg_path changes)) (gs_failed s),
                         gr_advisories = [], gr_rewrote = [], gr_examined = int ran, gr_pass = gs_pass s\<rparr>)"

section \<open>What the summary says\<close>

definition fails :: "go_test_event \<Rightarrow> bool" where
  "fails ev \<longleftrightarrow> ge_action ev = ''fail'' \<and> (ge_test ev \<noteq> [] \<or> ge_failed_build ev \<noteq> [])"

lemma parse_event_failed:
  "parse_event ev (out, build, s) = (out', build', s') \<Longrightarrow>
     (gs_build_failed s' \<or> gs_failed s' \<noteq> []) \<longleftrightarrow> (gs_build_failed s \<or> gs_failed s \<noteq> []) \<or> fails ev"
  by (auto simp: parse_event_def fails_def Let_def split: if_splits)

lemma fold_parse_failed:
  "fold parse_event evs (out, build, s) = (out', build', s') \<Longrightarrow>
     (gs_build_failed s' \<or> gs_failed s' \<noteq> []) \<longleftrightarrow> (gs_build_failed s \<or> gs_failed s \<noteq> []) \<or> list_ex fails evs"
proof (induction evs arbitrary: out build s)
  case (Cons ev evs)
  obtain o1 b1 s1 where e: "parse_event ev (out, build, s) = (o1, b1, s1)" by (cases "parse_event ev (out, build, s)")
  with Cons.prems have "fold parse_event evs (o1, b1, s1) = (out', build', s')" by simp
  from Cons.IH [OF this] parse_event_failed [OF e] show ?case by simp
qed simp

lemma parse_go_test_pass: "gs_pass (parse_go_test evs) \<longleftrightarrow> \<not> list_ex fails evs"
proof -
  let ?s0 = "\<lparr>gs_failed = [], gs_passed = [], gs_testless = [], gs_build_failed = False, gs_pass = False\<rparr>"
  obtain out build s where f: "fold parse_event evs ((\<lambda>_. []), (\<lambda>_. []), ?s0) = (out, build, s)"
    by (cases "fold parse_event evs ((\<lambda>_. []), (\<lambda>_. []), ?s0)")
  from fold_parse_failed [OF f] show ?thesis by (auto simp: parse_go_test_def f)
qed

definition package_fails :: "string \<Rightarrow> go_test_event" where
  "package_fails pkg = \<lparr>ge_action = ''fail'', ge_package = pkg, ge_test = [], ge_output = [], ge_import_path = [],
     ge_failed_build = []\<rparr>"

definition test_passes :: "string \<Rightarrow> string \<Rightarrow> go_test_event" where
  "test_passes pkg t = \<lparr>ge_action = ''pass'', ge_package = pkg, ge_test = t, ge_output = [], ge_import_path = [],
     ge_failed_build = []\<rparr>"

text \<open>
  A run of \<open>go test\<close> passes the gate exactly when no event fails a test or a build. So a package that fails
  on its own, with every test in it passed (\<open>TestMain\<close> exits with an error, a panic in an initializer of
  another package, a leak checker), is reported as passed: the comment says that such an event carries
  nothing new.
\<close>

theorem package_failure_passes:
  "(gs_pass (parse_go_test evs) \<longleftrightarrow> \<not> list_ex fails evs)
   \<and> parse_go_test (evs @ [package_fails pkg]) = parse_go_test evs
   \<and> map_option gr_pass (case go_test_gate (\<lambda>_. Inr [test_passes ''m/p'' ''TestA'', package_fails ''m/p''])
        [\<lparr>cg_path = ''p/a.go'', cg_writer = [], cg_ranges = [], cg_added = 1, cg_removed = 0\<rparr>]
        \<lparr>se_level = LevelPackage, se_tests = [], se_packages = [''./p'']\<rparr> of Inl e \<Rightarrow> None | Inr r \<Rightarrow> Some r) = Some True"
proof (intro conjI)
  show "gs_pass (parse_go_test evs) \<longleftrightarrow> \<not> list_ex fails evs" by (rule parse_go_test_pass)
  show "parse_go_test (evs @ [package_fails pkg]) = parse_go_test evs"
    by (simp add: parse_go_test_def parse_event_def package_fails_def case_prod_unfold Let_def)
  show "map_option gr_pass (case go_test_gate (\<lambda>_. Inr [test_passes ''m/p'' ''TestA'', package_fails ''m/p''])
        [\<lparr>cg_path = ''p/a.go'', cg_writer = [], cg_ranges = [], cg_added = 1, cg_removed = 0\<rparr>]
        \<lparr>se_level = LevelPackage, se_tests = [], se_packages = [''./p'']\<rparr> of Inl e \<Rightarrow> None | Inr r \<Rightarrow> Some r) = Some True"
    by code_simp
qed

section \<open>What a trimmed failure holds\<close>

lemma not_list_ex_nth: "(\<not> list_ex P xs) \<longleftrightarrow> (\<forall>i < length xs. \<not> P (xs ! i))"
  by (simp add: list_ex_iff all_set_conv_all_nth)

lemma digest_line_bound: "length kept \<le> context_lines \<Longrightarrow> length (digest_line l kept) \<le> context_lines"
  by (auto simp: digest_line_def Let_def)

lemma digest_bound: "length kept \<le> context_lines \<Longrightarrow> length (fold digest_line ls kept) \<le> context_lines"
  by (induction ls arbitrary: kept) (simp_all add: digest_line_bound)

lemma line_frames_lines:
  assumes "i < length ls"
  shows "set (line_frames changed ls i) \<subseteq> trim_newlines ` set ls"
proof -
  have "ls ! (i - 1) \<in> set ls" "ls ! i \<in> set ls" using assms by auto
  then show ?thesis by (auto simp: line_frames_def diagnostic_lead_def Let_def)
qed

text \<open>
  What a failure hands to the model is bounded by what was printed: its frames are lines of the output,
  at least one of which names a changed file; when none does there are no frames and a digest of at most
  six lines stands in for them.
\<close>

theorem trim_failure_bounds:
  "set (tf_frames (trim_failure f changed)) \<subseteq> trim_newlines ` set (ft_output f)
   \<and> length (tf_context (trim_failure f changed)) \<le> 6
   \<and> (if list_ex (\<lambda>l. list_ex (\<lambda>p. path_base p \<in> set (map path_base changed)) (file_refs l)) (ft_output f)
      then tf_frames (trim_failure f changed) \<noteq> [] \<and> tf_context (trim_failure f changed) = []
      else tf_frames (trim_failure f changed) = [])"
proof -
  let ?ls = "ft_output f"
  define frames where "frames = concat (map (line_frames changed ?ls) [0..<length ?ls])"
  let ?names = "\<lambda>l. list_ex (\<lambda>p. path_base p \<in> set (map path_base changed)) (file_refs l)"
  have empty: "frames = [] \<longleftrightarrow> \<not> list_ex ?names ?ls"
  proof -
    have "frames = [] \<longleftrightarrow> (\<forall>i < length ?ls. line_frames changed ?ls i = [])"
      by (auto simp: frames_def)
    also have "\<dots> \<longleftrightarrow> (\<forall>i < length ?ls. \<not> ?names (?ls ! i))"
      by (auto simp: line_frames_def)
    also have "\<dots> \<longleftrightarrow> \<not> list_ex ?names ?ls"
      by (rule not_list_ex_nth [symmetric])
    finally show ?thesis .
  qed
  have sub: "set frames \<subseteq> trim_newlines ` set ?ls"
    using line_frames_lines [where ls = ?ls and changed = changed] by (fastforce simp: frames_def)
  have d: "length (output_digest ?ls) \<le> 6"
    using digest_bound [of "[]" ?ls] by (simp add: output_digest_def context_lines_def)
  have t: "trim_failure f changed = (if frames = []
      then \<lparr>tf_test = ft_name f, tf_package = ft_package f, tf_writer = [], tf_frames = [],
            tf_context = output_digest ?ls\<rparr>
      else \<lparr>tf_test = ft_name f, tf_package = ft_package f, tf_writer = [], tf_frames = frames, tf_context = []\<rparr>)"
    by (simp only: trim_failure_def frames_def [symmetric] Let_def)
  show ?thesis
  proof (cases "frames = []")
    case True
    with empty d t show ?thesis by simp
  next
    case False
    with empty sub t show ?thesis by simp
  qed
qed

end
