(* ===== verification/GateSelect.thy ===== *)
theory GateSelect
  imports GoTest "HOL-Library.AList"
begin

text \<open>
  Model of \<open>internal/gate/select.go\<close>, \<open>importgraph.go\<close>, \<open>golist.go\<close> (its data), \<open>cadence.go\<close>,
  \<open>attribute.go\<close> and the selection part of \<open>coordinator.go\<close>: which tests a change runs, when a whole run
  is forced, and whether a failure can be this run's. A Go map is an association list with one entry a
  key, a Go set is a list without repetitions; the coverage map is a parameter.
\<close>

section \<open>The import graph\<close>

record go_package =
  gp_path :: string
  gp_dir :: string
  gp_imports :: "string list"
  gp_files :: "string list"
  gp_test_files :: "string list"
  gp_xtest_files :: "string list"

record import_graph =
  ig_files :: "(string \<times> string) list"
  ig_importers :: "(string \<times> string list) list"

definition importers_of :: "import_graph \<Rightarrow> string \<Rightarrow> string list" where
  "importers_of g p = (case map_of (ig_importers g) p of None \<Rightarrow> [] | Some ps \<Rightarrow> ps)"

definition add_file :: "string \<Rightarrow> go_package \<Rightarrow> string \<Rightarrow> import_graph \<Rightarrow> import_graph" where
  "add_file repo pkg f g =
     (case path_rel repo (path_join (gp_dir pkg) f) of
        None \<Rightarrow> g
      | Some rel \<Rightarrow> g\<lparr>ig_files := AList.update rel (gp_path pkg) (ig_files g)\<rparr>)"

definition add_import :: "go_package \<Rightarrow> string \<Rightarrow> import_graph \<Rightarrow> import_graph" where
  "add_import pkg imp g = g\<lparr>ig_importers := AList.update imp (importers_of g imp @ [gp_path pkg]) (ig_importers g)\<rparr>"

definition add_package :: "string \<Rightarrow> go_package \<Rightarrow> import_graph \<Rightarrow> import_graph" where
  "add_package repo pkg g =
     fold (add_import pkg) (gp_imports pkg)
       (fold (add_file repo pkg) (gp_files pkg @ gp_test_files pkg @ gp_xtest_files pkg) g)"

definition build_import_graph :: "string \<Rightarrow> go_package list \<Rightarrow> import_graph" where
  "build_import_graph repo pkgs = fold (add_package repo) pkgs \<lparr>ig_files = [], ig_importers = []\<rparr>"

text \<open>The queue of \<open>transitiveImporters\<close>: \<open>out\<close> holds what was visited, in order.\<close>

definition all_importers :: "import_graph \<Rightarrow> string list" where
  "all_importers g = concat (map snd (ig_importers g))"

lemma importers_of_all: "set (importers_of g p) \<subseteq> set (all_importers g)"
  by (cases "map_of (ig_importers g) p") (auto simp: importers_of_def all_importers_def dest!: map_of_SomeD intro!: bexI)

function walk_importers :: "import_graph \<Rightarrow> string list \<Rightarrow> string list \<Rightarrow> string list" where
  "walk_importers g out [] = out"
| "walk_importers g out (cur # queue) =
     (let new = dedup out (importers_of g cur) in walk_importers g (out @ new) (queue @ new))"
  by pat_completeness auto
termination
proof (relation "measures [\<lambda>(g, out, queue). card (set (all_importers g) - set out), \<lambda>(g, out, queue). length queue]")
  fix g out cur queue and new :: "string list"
  assume new: "new = dedup out (importers_of g cur)"
  show "((g, out @ new, queue @ new), (g, out, cur # queue))
    \<in> measures [\<lambda>(g, out, queue). card (set (all_importers g) - set out), \<lambda>(g, out, queue). length queue]"
  proof (cases "new = []")
    case False
    then obtain x where x: "x \<in> set new" by fastforce
    then have "x \<in> set (all_importers g)" "x \<notin> set out"
      using importers_of_all [of g cur] by (auto simp: new set_dedup)
    then have "card (set (all_importers g) - set (out @ new)) < card (set (all_importers g) - set out)"
      using x by (intro psubset_card_mono) auto
    then show ?thesis by simp
  qed simp
qed simp

definition transitive_importers :: "import_graph \<Rightarrow> string \<Rightarrow> string list" where
  "transitive_importers g p = walk_importers g [] [p]"

text \<open>The reference: the edges of the graph and their closure.\<close>

definition imported_by :: "import_graph \<Rightarrow> (string \<times> string) set" where
  "imported_by g = {(p, q). q \<in> set (importers_of g p)}"

lemma imported_by_iff [simp]: "(p, q) \<in> imported_by g \<longleftrightarrow> q \<in> set (importers_of g p)"
  by (simp add: imported_by_def)

lemma walk_importers_sound:
  "set out \<subseteq> (imported_by g)\<^sup>+ `` {p} \<Longrightarrow> set queue \<subseteq> (imported_by g)\<^sup>* `` {p} \<Longrightarrow>
     set (walk_importers g out queue) \<subseteq> (imported_by g)\<^sup>+ `` {p}"
proof (induction g out queue rule: walk_importers.induct)
  case (2 g out cur queue)
  let ?new = "dedup out (importers_of g cur)"
  have "(p, cur) \<in> (imported_by g)\<^sup>*" using "2.prems"(2) by auto
  then have "(p, q) \<in> (imported_by g)\<^sup>+" if "q \<in> set (importers_of g cur)" for q
    using that by (meson imported_by_iff rtrancl_into_trancl1)
  then have new: "set ?new \<subseteq> (imported_by g)\<^sup>+ `` {p}" by (auto simp: set_dedup)
  then have "set ?new \<subseteq> (imported_by g)\<^sup>* `` {p}" by (auto dest: trancl_into_rtrancl)
  then show ?case using "2.IH" [OF refl] "2.prems" new by (auto simp: Let_def)
qed simp

lemma walk_importers_closed:
  "(\<And>x q. x \<in> insert p (set out) \<Longrightarrow> x \<notin> set queue \<Longrightarrow> q \<in> set (importers_of g x) \<Longrightarrow> q \<in> set out) \<Longrightarrow>
     set out \<subseteq> set (walk_importers g out queue)
     \<and> (\<forall>x\<in>insert p (set (walk_importers g out queue)).
          set (importers_of g x) \<subseteq> set (walk_importers g out queue))"
proof (induction g out queue rule: walk_importers.induct)
  case (2 g out cur queue)
  let ?new = "dedup out (importers_of g cur)"
  have "q \<in> set (out @ ?new)"
    if "x \<in> insert p (set (out @ ?new))" "x \<notin> set (queue @ ?new)" "q \<in> set (importers_of g x)" for x q
  proof (cases "x = cur")
    case True
    with that(3) show ?thesis by (auto simp: set_dedup)
  next
    case False
    with that "2.prems" [of x q] show ?thesis by auto
  qed
  from "2.IH" [OF refl this] show ?case by (auto simp: Let_def)
qed auto

lemma transitive_importers_closure:
  "set (transitive_importers g p) = (imported_by g)\<^sup>+ `` {p}"
proof
  show "set (transitive_importers g p) \<subseteq> (imported_by g)\<^sup>+ `` {p}"
    unfolding transitive_importers_def by (rule walk_importers_sound) auto
  let ?r = "walk_importers g [] [p]"
  have closed: "\<forall>x\<in>insert p (set ?r). set (importers_of g x) \<subseteq> set ?r"
    using walk_importers_closed [of p "[]" "[p]" g] by auto
  have "q \<in> set ?r" if "(p, q) \<in> (imported_by g)\<^sup>+" for q
    using that by (induction rule: trancl_induct) (use closed in auto)
  then show "(imported_by g)\<^sup>+ `` {p} \<subseteq> set (transitive_importers g p)"
    by (auto simp: transitive_importers_def)
qed

section \<open>Selecting what to run\<close>

text \<open>
  \<open>LineCoverage\<close>: the tests covering a range of lines of a file, by id, or an error; \<open>cv_ready\<close> is what
  a map that knows whether it is finished answers, \<open>None\<close> when it is not a \<open>CoverageMap\<close>.
\<close>

record coverage =
  cv_ready :: "bool option"
  cv_tests :: "string \<Rightarrow> int \<Rightarrow> int \<Rightarrow> string + string list"

definition coverage_usable :: "coverage option \<Rightarrow> bool" where
  "coverage_usable cov =
     (case cov of None \<Rightarrow> False | Some c \<Rightarrow> (case cv_ready c of None \<Rightarrow> True | Some ready \<Rightarrow> ready))"

fun collect_ranges :: "coverage \<Rightarrow> string \<Rightarrow> (int \<times> int) list \<Rightarrow> string list \<Rightarrow> string + string list option" where
  "collect_ranges c f [] tests = Inr (Some tests)"
| "collect_ranges c f ((a, b) # rs) tests =
     (case cv_tests c f a b of
        Inl e \<Rightarrow> Inl (''selecting line coverage for '' @ f @ '':'' @ show_int a @ ''-'' @ show_int b @ '': '' @ e)
      | Inr covering \<Rightarrow>
          if covering = [] then Inr None else collect_ranges c f rs (tests @ dedup tests covering))"

fun collect_changes :: "coverage \<Rightarrow> change_t list \<Rightarrow> string list \<Rightarrow> string + string list option" where
  "collect_changes c [] tests = Inr (Some tests)"
| "collect_changes c (ch # chs) tests =
     (if cg_ranges ch = [] then Inr None
      else case collect_ranges c (cg_path ch) (cg_ranges ch) tests of
             Inl e \<Rightarrow> Inl e
           | Inr None \<Rightarrow> Inr None
           | Inr (Some tests') \<Rightarrow> collect_changes c chs tests')"

definition select_by_line :: "coverage option \<Rightarrow> change_t list \<Rightarrow> string + string list option" where
  "select_by_line cov changes =
     (if \<not> coverage_usable cov \<or> changes = [] then Inr None
      else case cov of
             None \<Rightarrow> Inr None
           | Some c \<Rightarrow> (case collect_changes c changes [] of
                          Inl e \<Rightarrow> Inl e
                        | Inr None \<Rightarrow> Inr None
                        | Inr (Some tests) \<Rightarrow> Inr (Some (sort_strings tests))))"

definition sorted_keys :: "string list \<Rightarrow> string list" where
  "sorted_keys xs = sort_strings (dedup [] xs)"

fun change_packages :: "import_graph \<Rightarrow> change_t list \<Rightarrow> string list option" where
  "change_packages g [] = Some []"
| "change_packages g (ch # chs) =
     (case map_of (ig_files g) (cg_path ch) of
        None \<Rightarrow> None
      | Some p \<Rightarrow> (case change_packages g chs of None \<Rightarrow> None | Some ps \<Rightarrow> Some (p # ps)))"

definition with_importers :: "import_graph \<Rightarrow> string \<Rightarrow> string list" where
  "with_importers g p = p # transitive_importers g p"

definition select_by_importers :: "import_graph \<Rightarrow> change_t list \<Rightarrow> string list option" where
  "select_by_importers g changes =
     (case change_packages g changes of
        None \<Rightarrow> None
      | Some roots \<Rightarrow> Some (sorted_keys (concat (map (with_importers g) (dedup [] roots)))))"

definition relative_pattern :: "string \<Rightarrow> string" where
  "relative_pattern dir =
     (if dir = [] \<or> dir = ''.'' then ''./...'' else if is_abs dir then dir else ''./'' @ dir)"

definition own_package :: "import_graph option \<Rightarrow> string \<Rightarrow> string" where
  "own_package graph f =
     (case graph of
        None \<Rightarrow> relative_pattern (path_dir f)
      | Some g \<Rightarrow> (case map_of (ig_files g) f of None \<Rightarrow> relative_pattern (path_dir f) | Some p \<Rightarrow> p))"

definition fallback_packages :: "import_graph option \<Rightarrow> change_t list \<Rightarrow> string list" where
  "fallback_packages graph changes =
     sorted_keys (map (own_package graph) (filter (\<lambda>f. path_ext f = ''.go'') (map cg_path changes)))"

definition select :: "coverage option \<Rightarrow> import_graph option \<Rightarrow> change_t list \<Rightarrow> string + selection" where
  "select cov graph changes =
     (case select_by_line cov changes of
        Inl e \<Rightarrow> Inl e
      | Inr (Some tests) \<Rightarrow> Inr \<lparr>se_level = LevelLine, se_tests = tests, se_packages = []\<rparr>
      | Inr None \<Rightarrow>
          (case (case graph of None \<Rightarrow> None | Some g \<Rightarrow> select_by_importers g changes) of
             Some pkgs \<Rightarrow> Inr \<lparr>se_level = LevelImporter, se_tests = [], se_packages = pkgs\<rparr>
           | None \<Rightarrow> Inr \<lparr>se_level = LevelPackage, se_tests = [], se_packages = fallback_packages graph changes\<rparr>))"

section \<open>The cadence of whole runs\<close>

record cadence_config =
  cc_max_passes :: nat
  cc_max_interval :: int

definition needs_full_run :: "cadence_config \<Rightarrow> nat \<Rightarrow> int \<Rightarrow> bool \<Rightarrow> bool" where
  "needs_full_run cfg passes since untracked =
     (untracked \<or> 0 < cc_max_passes cfg \<and> cc_max_passes cfg \<le> passes
      \<or> 0 < cc_max_interval cfg \<and> cc_max_interval cfg \<le> since)"

definition max_selective_passes :: nat where
  "max_selective_passes = 10"

text \<open>Fifteen minutes, in seconds.\<close>

definition max_selective_interval :: int where
  "max_selective_interval = 15 * 60"

definition default_cadence :: cadence_config where
  "default_cadence = \<lparr>cc_max_passes = max_selective_passes, cc_max_interval = max_selective_interval\<rparr>"

record cadence =
  ca_last_full :: int
  ca_passes :: nat

definition whole_module :: selection where
  "whole_module = \<lparr>se_level = LevelPackage, se_tests = [], se_packages = [''./...'']\<rparr>"

definition cadence_apply :: "cadence_config \<Rightarrow> int \<Rightarrow> cadence \<Rightarrow> selection \<Rightarrow> selection \<times> cadence" where
  "cadence_apply cfg now c sel =
     (if \<not> needs_full_run cfg (ca_passes c) (now - ca_last_full c) False
      then (sel, if se_level sel \<noteq> LevelPackage then c\<lparr>ca_passes := ca_passes c + 1\<rparr> else c)
      else (whole_module, c\<lparr>ca_passes := 0, ca_last_full := now\<rparr>))"

section \<open>A batch\<close>

definition relative_to :: "string \<Rightarrow> change_t list \<Rightarrow> change_t list" where
  "relative_to repo changes =
     (if repo = [] then changes
      else map (\<lambda>ch. if \<not> is_abs (cg_path ch) then ch
                     else case path_rel repo (cg_path ch) of
                            None \<Rightarrow> ch
                          | Some rel \<Rightarrow> if has_prefix rel dotdot then ch else ch\<lparr>cg_path := rel\<rparr>) changes)"

fun sole_writer_from :: "string \<Rightarrow> change_t list \<Rightarrow> string" where
  "sole_writer_from writer [] = writer"
| "sole_writer_from writer (ch # chs) =
     (if cg_writer ch = [] then sole_writer_from writer chs
      else if writer = [] then sole_writer_from (cg_writer ch) chs
      else if cg_writer ch \<noteq> writer then []
      else sole_writer_from writer chs)"

definition sole_writer :: "change_t list \<Rightarrow> string" where
  "sole_writer changes = sole_writer_from [] changes"

text \<open>The head of \<open>BuildRunFunc\<close>: what a batch is gated with, and the cadence after it.\<close>

definition batch_selection ::
  "cadence_config \<Rightarrow> coverage option \<Rightarrow> import_graph option \<Rightarrow> string \<Rightarrow> int \<Rightarrow> cadence \<Rightarrow> change_t list
     \<Rightarrow> change_t list \<times> selection \<times> cadence" where
  "batch_selection cfg cov graph repo now c changes =
     (let changes = relative_to repo changes;
          sel = (case select cov graph changes of
                   Inl _ \<Rightarrow> \<lparr>se_level = LevelPackage, se_tests = [], se_packages = fallback_packages graph changes\<rparr>
                 | Inr sel \<Rightarrow> sel);
          (sel, c) = cadence_apply cfg now c sel
      in (changes, sel, c))"

section \<open>Whose failure it is\<close>

definition reachable_packages :: "import_graph \<Rightarrow> change_t list \<Rightarrow> string list" where
  "reachable_packages g changes =
     concat (map (\<lambda>ch. case map_of (ig_files g) (clean (cg_path ch)) of
                         None \<Rightarrow> [] | Some p \<Rightarrow> with_importers g p) changes)"

definition names_file :: "string \<Rightarrow> string \<Rightarrow> bool" where
  "names_file cleaned f =
     (if CHR ''/'' \<in> set cleaned then f = cleaned \<or> has_suffix f (''/'' @ cleaned) else path_base f = cleaned)"

definition names_reachable_file :: "import_graph \<Rightarrow> string list \<Rightarrow> string \<Rightarrow> bool" where
  "names_reachable_file g reachable reported =
     list_ex (\<lambda>(f, p). p \<in> set reachable \<and> names_file (clean reported) f) (ig_files g)"

definition attributable :: "gate_result \<Rightarrow> import_graph option \<Rightarrow> change_t list \<Rightarrow> bool" where
  "attributable r graph changes =
     (if gr_pass r then True
      else if list_ex (\<lambda>f. tf_frames f \<noteq> []) (gr_failures r) then True
      else case graph of
             None \<Rightarrow> True
           | Some g \<Rightarrow>
               let reachable = reachable_packages g changes in
               if reachable = [] then True
               else list_ex (\<lambda>f. list_ex (\<lambda>l. list_ex (names_reachable_file g reachable) (file_refs l)) (tf_context f))
                      (gr_failures r))"

end
