(* ===== verification/ChangeGate.thy ===== *)
theory ChangeGate
  imports GateSelect
begin

text \<open>
  Model of \<open>internal/app/changegate.go\<close> over \<open>internal/gate/runner.go\<close> and \<open>runscope.go\<close>: changes go
  from the tool that made them through an inbox and a debounce window into batches, one per writer, and
  what the gates found about a batch waits until a turn takes it. The goroutines are the steps of a
  transition system over one state: a write, the two pumps, the timer, a batch that finishes.
\<close>

section \<open>Coalescing\<close>

definition merge_ranges :: "(int \<times> int) list \<Rightarrow> (int \<times> int) list \<Rightarrow> (int \<times> int) list" where
  "merge_ranges a b = fold (\<lambda>r out. if r \<in> set out then out else out @ [r]) b a"

type_synonym by_path = "(string \<times> change_t) list"

definition coalesce :: "change_t \<Rightarrow> by_path \<Rightarrow> by_path" where
  "coalesce c pending =
     (case map_of pending (cg_path c) of
        None \<Rightarrow> AList.update (cg_path c) c pending
      | Some old \<Rightarrow>
          AList.update (cg_path c)
            (old\<lparr>cg_added := cg_added old + cg_added c, cg_removed := cg_removed old + cg_removed c,
                 cg_ranges := merge_ranges (cg_ranges old) (cg_ranges c)\<rparr>) pending)"

definition drain :: "by_path \<Rightarrow> change_t list" where
  "drain pending = sort_key cg_path (map snd pending)"

section \<open>The identity of a run\<close>

record run_scope =
  sc_ids :: "string \<Rightarrow> string"
  sc_count :: nat

definition scope_begin :: "int \<Rightarrow> string \<Rightarrow> run_scope \<Rightarrow> run_scope" where
  "scope_begin now writer sc =
     (if writer = [] then sc
      else sc\<lparr>sc_ids := (sc_ids sc)(writer := ''run-'' @ show_int now @ ''-'' @ show_nat (sc_count sc + 1)),
              sc_count := sc_count sc + 1\<rparr>)"

definition scope_current :: "string \<Rightarrow> run_scope \<Rightarrow> string" where
  "scope_current writer sc = (if writer = [] then [] else sc_ids sc writer)"

section \<open>What a run has been told and has written\<close>

record verdict_t =
  gv_failure :: string
  gv_changes :: nat
  gv_repeats :: nat
  gv_pass :: bool

record run_state =
  rs_pending :: "gate_result list"
  rs_latest :: "gate_result list"
  rs_changed :: "change_t list"
  rs_verdict :: "(string \<times> verdict_t) list"
  rs_alarms :: "string list"
  rs_queued :: nat

definition new_state :: run_state where
  "new_state = \<lparr>rs_pending = [], rs_latest = [], rs_changed = [], rs_verdict = [], rs_alarms = [], rs_queued = 0\<rparr>"

definition stuck_after :: nat where
  "stuck_after = 3"

definition change_inbox :: nat where
  "change_inbox = 256"

definition failure_signature :: "gate_result \<Rightarrow> string" where
  "failure_signature r =
     join_with (nl # ''--'' @ [nl])
       (map (\<lambda>f. tf_package f @ '' '' @ tf_test f @ [nl] @ join_with [nl] (tf_frames f) @ [nl] @ join_with [nl] (tf_context f))
          (gr_failures r))"

text \<open>One result against the verdict the gate had: \<open>n\<close> is how many changes the run has made by now.\<close>

definition next_verdict :: "nat \<Rightarrow> verdict_t option \<Rightarrow> gate_result \<Rightarrow> verdict_t" where
  "next_verdict n prior r =
     (let failure = (if gr_pass r then [] else failure_signature r);
          repeats = (case prior of
                       None \<Rightarrow> 0
                     | Some p \<Rightarrow> if failure \<noteq> [] \<and> failure = gv_failure p
                                 then gv_repeats p + (if gv_changes p < n then 1 else 0) else 0)
      in \<lparr>gv_failure = failure, gv_changes = n, gv_repeats = repeats, gv_pass = gr_pass r\<rparr>)"

definition note_result :: "gate_result \<Rightarrow> run_state \<Rightarrow> run_state" where
  "note_result r st =
     (let n = length (rs_changed st); prior = map_of (rs_verdict st) (gr_gate r) in
      st\<lparr>rs_alarms := rs_alarms st @
           (case prior of None \<Rightarrow> []
            | Some p \<Rightarrow> if \<not> gv_pass p \<and> gr_pass r \<and> gv_changes p = n then [gr_gate r] else []),
         rs_verdict := AList.update (gr_gate r) (next_verdict n prior r) (rs_verdict st)\<rparr>)"

definition note_false_alarms :: "gate_result list \<Rightarrow> run_state \<Rightarrow> run_state" where
  "note_false_alarms rs st = fold note_result rs st"

definition path_change :: "string \<Rightarrow> change_t" where
  "path_change p = \<lparr>cg_path = p, cg_writer = [], cg_ranges = [], cg_added = 0, cg_removed = 0\<rparr>"

definition note_rewrites :: "gate_result list \<Rightarrow> run_state \<Rightarrow> run_state" where
  "note_rewrites rs st = st\<lparr>rs_changed := rs_changed st @ map path_change (concat (map gr_rewrote rs))\<rparr>"

text \<open>\<open>Collect\<close> on the state of the batch's writer.\<close>

definition collect_into :: "change_t list \<Rightarrow> gate_result list \<Rightarrow> run_state \<Rightarrow> run_state" where
  "collect_into changes gates st =
     (let st1 = st\<lparr>rs_pending := rs_pending st @ gates, rs_latest := gates\<rparr>;
          st2 = note_rewrites gates (note_false_alarms gates st1)
      in st2\<lparr>rs_queued := rs_queued st2 - length changes\<rparr>)"

section \<open>The states of all writers\<close>

type_synonym states = "(string \<times> run_state) list"

definition state_of :: "string \<Rightarrow> states \<Rightarrow> run_state" where
  "state_of w sts = (case map_of sts w of None \<Rightarrow> new_state | Some st \<Rightarrow> st)"

definition every_state :: "states \<Rightarrow> run_state" where
  "every_state sts =
     new_state\<lparr>rs_changed := concat (map (rs_changed \<circ> snd) sts), rs_latest := concat (map (rs_latest \<circ> snd) sts),
               rs_queued := sum_list (map (rs_queued \<circ> snd) sts)\<rparr>"

definition asked :: "string \<Rightarrow> states \<Rightarrow> run_state" where
  "asked w sts = (if w = [] then every_state sts else state_of w sts)"

definition changed_by :: "string \<Rightarrow> states \<Rightarrow> change_t list" where
  "changed_by w sts = rs_changed (asked w sts)"

text \<open>The part of \<open>Enqueue\<close> under the lock.\<close>

definition note_change :: "change_t \<Rightarrow> states \<Rightarrow> states" where
  "note_change c sts =
     (let st = state_of (cg_writer c) sts in
      AList.update (cg_writer c) (st\<lparr>rs_queued := rs_queued st + 1, rs_changed := rs_changed st @ [c]\<rparr>) sts)"

definition collect :: "change_t list \<Rightarrow> gate_result list \<Rightarrow> states \<Rightarrow> states" where
  "collect changes gates sts =
     (let w = sole_writer changes in AList.update w (collect_into changes gates (state_of w sts)) sts)"

definition stuck :: "string \<Rightarrow> states \<Rightarrow> string option" where
  "stuck w sts =
     map_option fst (List.find (\<lambda>(name, v). stuck_after - 1 \<le> gv_repeats v) (rs_verdict (state_of w sts)))"

definition false_alarms :: "string \<Rightarrow> states \<Rightarrow> string list \<times> states" where
  "false_alarms w sts =
     (let st = state_of w sts in (rs_alarms st, AList.update w (st\<lparr>rs_alarms := []\<rparr>) sts))"

section \<open>Telling a run\<close>

definition failure_name :: "trimmed_failure \<Rightarrow> string" where
  "failure_name f =
     (if tf_test f \<noteq> [] then tf_test f else if tf_package f \<noteq> [] then ''build '' @ tf_package f else ''build'')"

definition indented :: "string list \<Rightarrow> string" where
  "indented ls = concat (map (\<lambda>l. ''  '' @ l @ [nl]) ls)"

definition says_nothing :: "trimmed_failure \<Rightarrow> bool" where
  "says_nothing f \<longleftrightarrow> tf_frames f = [] \<and> tf_context f = [] \<and> tf_test f = [] \<and> tf_package f = []"

definition describe_one :: "string \<Rightarrow> trimmed_failure \<Rightarrow> string" where
  "describe_one g f =
     g @ '' '' @ failure_name f @ [nl] @
     (if tf_frames f = []
      then (if tf_context f = []
            then ''  no output line named a changed file, so run it yourself to see'' @ [nl]
            else ''  no output line named a changed file. What it printed:'' @ [nl]) @ indented (tf_context f)
      else indented (tf_frames f))"

definition describe_failure :: "gate_result \<Rightarrow> string" where
  "describe_failure r =
     (let told = filter (\<lambda>f. \<not> says_nothing f) (gr_failures r) in
      concat (map (describe_one (gr_gate r)) told) @
      (if told = [] then gr_gate r @ '' failed without reporting which check, so run it yourself to see'' @ [nl] else []))"

definition attributed :: "gate_result list \<Rightarrow> bool" where
  "attributed rs = list_ex (\<lambda>r. list_ex (\<lambda>f. tf_frames f \<noteq> []) (gr_failures r)) rs"

definition attributed_only :: "gate_result list \<Rightarrow> gate_result list" where
  "attributed_only rs = filter (\<lambda>r. gr_pass r \<or> attributed [r]) rs"

definition failure_report :: "gate_result list \<Rightarrow> string" where
  "failure_report rs =
     trim_suffix (concat (map describe_failure (filter (\<lambda>r. \<not> gr_pass r) rs))) [nl]"

definition rewrite_note :: "gate_result list \<Rightarrow> string" where
  "rewrite_note rs =
     (let paths = concat (map gr_rewrote rs) in
      if paths = [] then []
      else [nl, nl] @ ''These were fixed for you and are already in your change set: '' @
           join_with '', '' (dedup [] paths) @ ''. Read them before editing them again.'')"

definition sole_writing :: "states \<Rightarrow> bool" where
  "sole_writing sts \<longleftrightarrow> length (filter (\<lambda>(_, st). rs_changed st \<noteq> []) sts) \<le> 1"

definition examined_passes :: "gate_result list \<Rightarrow> string list" where
  "examined_passes rs = map gr_gate (filter (\<lambda>r. gr_pass r \<and> 0 < gr_examined r) rs)"

definition feedback_of :: "gate_result list \<Rightarrow> string \<times> bool" where
  "feedback_of rs =
     (let failed = filter (\<lambda>r. \<not> gr_pass r) rs; passed = examined_passes rs in
      if rs = [] then ([], False)
      else if failed = [] then
        (if passed = [] then ([], False)
         else (''Gates ran on your changes and passed: '' @ join_with '', '' (dedup [] passed) @
               ''. Do not re-run these yourself.'' @ rewrite_note rs, False))
      else (''Gates ran on your changes and found this:'' @ [nl] @
            concat (map (\<lambda>r. [nl] @ describe_failure r) failed) @
            (if attributed failed then [nl] @ ''Fix the cause before continuing.''
             else [nl] @ ''None of this names a file this run changed. Decide whether the change '' @
                  ''caused it before treating it as yours, and carry on with the task if it did not.'') @
            rewrite_note rs, True))"

definition take_feedback :: "string \<Rightarrow> states \<Rightarrow> (string \<times> bool) \<times> states" where
  "take_feedback w sts =
     (let st = state_of w sts; results = rs_pending st;
          sts' = AList.update w (st\<lparr>rs_pending := []\<rparr>) sts;
          results = (if sole_writing sts' then results else attributed_only results)
      in (feedback_of results, sts'))"

definition running_now :: string where
  "running_now =
     ''they are running on your latest changes now, and what they find '' @ ''reaches you before your next turn''"

definition status :: "string \<Rightarrow> states \<Rightarrow> string option" where
  "status w sts =
     (let st = asked w sts; passed = examined_passes (rs_latest st) in
      if 0 < rs_queued st then Some running_now
      else if list_ex (\<lambda>r. \<not> gr_pass r) (rs_latest st)
      then Some (''they ran on your changes and failed:'' @ [nl, nl] @ failure_report (rs_latest st))
      else if passed = [] then None
      else Some (''they ran on your changes and passed: '' @ join_with '', '' (dedup [] passed)))"

definition covers_any :: "string \<Rightarrow> change_t list \<Rightarrow> bool" where
  "covers_any target changed =
     list_ex (\<lambda>c. let p = clean (cg_path c) in p = clean target \<or> has_prefix p (clean target @ ''/'')) changed"

definition covers_paths :: "string \<Rightarrow> string list \<Rightarrow> states \<Rightarrow> bool" where
  "covers_paths w paths sts \<longleftrightarrow> paths \<noteq> [] \<and> list_all (\<lambda>p. covers_any p (changed_by w sts)) paths"

definition covers :: "string \<Rightarrow> string list \<Rightarrow> states \<Rightarrow> bool" where
  "covers w pkgs sts \<longleftrightarrow>
     pkgs \<noteq> []
     \<and> (let dirs = map path_dir (filter (\<lambda>p. has_suffix p ''.go'') (map cg_path (changed_by w sts)))
        in list_all (\<lambda>p. p \<in> set dirs) pkgs)"

section \<open>The pumps and the debounce loop\<close>

text \<open>
  \<open>gg_held\<close> is the change the first pump has in hand, \<open>gg_batches\<close> what the loop has still to run of the
  window that closed, and \<open>gg_results\<close> the channel of one result to the second pump.
\<close>

record gating =
  gg_states :: states
  gg_scope :: run_scope
  gg_inbox :: "change_t list"
  gg_held :: "change_t option"
  gg_pending :: "(string \<times> by_path) list"
  gg_timer :: bool
  gg_batches :: "change_t list list"
  gg_results :: "(change_t list \<times> gate_result list) list"

definition gating_init :: gating where
  "gating_init =
     \<lparr>gg_states = [], gg_scope = \<lparr>sc_ids = (\<lambda>_. []), sc_count = 0\<rparr>, gg_inbox = [], gg_held = None, gg_pending = [],
      gg_timer = False, gg_batches = [], gg_results = []\<rparr>"

datatype gact =
    Begin int string
  | Write change_t
  | TakeFeedback string
  | FalseAlarms string
  | Pump
  | Hand
  | Fire
  | Ran "gate_result list"
  | Collect

definition begin_run_of :: "int \<Rightarrow> string \<Rightarrow> gating \<Rightarrow> gating" where
  "begin_run_of now w g =
     g\<lparr>gg_scope := scope_begin now w (gg_scope g), gg_states := AList.update w new_state (gg_states g)\<rparr>"

definition write_step :: "change_t \<Rightarrow> gating \<Rightarrow> gating option" where
  "write_step c g =
     (if length (gg_inbox g) < change_inbox
      then Some (g\<lparr>gg_states := note_change c (gg_states g), gg_inbox := gg_inbox g @ [c]\<rparr>) else None)"

definition pump_step :: "gating \<Rightarrow> gating option" where
  "pump_step g =
     (case (gg_held g, gg_inbox g) of
        (None, c # cs) \<Rightarrow> Some (g\<lparr>gg_held := Some c, gg_inbox := cs\<rparr>)
      | _ \<Rightarrow> None)"

definition pending_of :: "string \<Rightarrow> (string \<times> by_path) list \<Rightarrow> by_path" where
  "pending_of w ps = (case map_of ps w of None \<Rightarrow> [] | Some b \<Rightarrow> b)"

text \<open>The loop takes a change only between two windows' batches; taking it arms the timer.\<close>

definition hand_step :: "gating \<Rightarrow> gating option" where
  "hand_step g =
     (case gg_held g of
        None \<Rightarrow> None
      | Some c \<Rightarrow>
          if gg_batches g \<noteq> [] then None
          else Some (g\<lparr>gg_held := None, gg_timer := True,
                       gg_pending := AList.update (cg_writer c) (coalesce c (pending_of (cg_writer c) (gg_pending g)))
                                       (gg_pending g)\<rparr>))"

definition fire_step :: "gating \<Rightarrow> gating option" where
  "fire_step g =
     (if gg_timer g \<and> gg_batches g = []
      then Some (g\<lparr>gg_timer := False, gg_pending := [], gg_batches := map (drain \<circ> snd) (gg_pending g)\<rparr>)
      else None)"

definition ran_step :: "gate_result list \<Rightarrow> gating \<Rightarrow> gating option" where
  "ran_step gates g =
     (case gg_batches g of
        [] \<Rightarrow> None
      | b # bs \<Rightarrow> if gg_results g = [] then Some (g\<lparr>gg_batches := bs, gg_results := [(b, gates)]\<rparr>) else None)"

definition collect_step :: "gating \<Rightarrow> gating option" where
  "collect_step g =
     (case gg_results g of
        [] \<Rightarrow> None
      | (changes, gates) # rs \<Rightarrow> Some (g\<lparr>gg_results := rs, gg_states := collect changes gates (gg_states g)\<rparr>))"

definition gstep :: "gact \<Rightarrow> gating \<Rightarrow> gating option" where
  "gstep a g =
     (case a of
        Begin now w \<Rightarrow> Some (begin_run_of now w g)
      | Write c \<Rightarrow> write_step c g
      | TakeFeedback w \<Rightarrow> Some (g\<lparr>gg_states := snd (take_feedback w (gg_states g))\<rparr>)
      | FalseAlarms w \<Rightarrow> Some (g\<lparr>gg_states := snd (false_alarms w (gg_states g))\<rparr>)
      | Pump \<Rightarrow> pump_step g
      | Hand \<Rightarrow> hand_step g
      | Fire \<Rightarrow> fire_step g
      | Ran gates \<Rightarrow> ran_step gates g
      | Collect \<Rightarrow> collect_step g)"

fun gsteps :: "gact list \<Rightarrow> gating \<Rightarrow> gating option" where
  "gsteps [] g = Some g"
| "gsteps (a # as) g = (case gstep a g of None \<Rightarrow> None | Some g' \<Rightarrow> gsteps as g')"

end
