(* ===== verification/Drain.thy ===== *)
theory Drain
  imports Main
begin

text \<open>
  The contract of a system that works off what it has: each of its steps keeps what makes it sound and
  lowers what is left to do, and while it has not finished some step can be taken. Whatever the steps
  and their order, it finishes, within as many steps as were left.
\<close>

locale draining =
  fixes step :: "'s \<Rightarrow> 's \<Rightarrow> bool"
    and sound :: "'s \<Rightarrow> bool"
    and left_to_do :: "'s \<Rightarrow> nat"
    and finished :: "'s \<Rightarrow> bool"
  assumes sound_step: "sound s \<Longrightarrow> step s t \<Longrightarrow> sound t"
    and lower_step: "sound s \<Longrightarrow> step s t \<Longrightarrow> left_to_do t < left_to_do s"
    and progress: "sound s \<Longrightarrow> \<not> finished s \<Longrightarrow> \<exists>t. step s t"
begin

lemma sound_steps: "step\<^sup>*\<^sup>* s t \<Longrightarrow> sound s \<Longrightarrow> sound t"
  by (induction rule: rtranclp_induct) (auto intro: sound_step)

lemma steps_bounded: "(step ^^ n) s t \<Longrightarrow> sound s \<Longrightarrow> n + left_to_do t \<le> left_to_do s"
proof (induction n arbitrary: t)
  case (Suc n)
  from Suc.prems(1) obtain u where u: "(step ^^ n) s u" "step u t" by auto
  then have "sound u" using Suc.prems(2) sound_steps by (metis relpowp_imp_rtranclp)
  with lower_step u(2) Suc.IH [OF u(1) Suc.prems(2)] show ?case by fastforce
qed simp

lemma finishes: "sound s \<Longrightarrow> \<exists>t. step\<^sup>*\<^sup>* s t \<and> finished t"
proof (induction "left_to_do s" arbitrary: s rule: less_induct)
  case less
  show ?case
  proof (cases "finished s")
    case False
    then obtain u where "step s u" using progress less.prems by blast
    with less lower_step sound_step show ?thesis by (meson converse_rtranclp_into_rtranclp)
  qed auto
qed

lemma stuck_is_finished: "sound s \<Longrightarrow> step\<^sup>*\<^sup>* s t \<Longrightarrow> \<not> (\<exists>u. step t u) \<Longrightarrow> finished t"
  using progress sound_steps by blast

end

end
