(* ===== verification/ChangeGateFacts.thy ===== *)
theory ChangeGateFacts
  imports ChangeGate Drain "HOL-Library.Multiset"
begin

text \<open>
  What the change gate promises: every change written reaches a batch with all its lines counted, and
  what is in flight drains in a bounded number of steps; and where its account of a run goes wrong: the
  changes it counts as not yet covered, the failures it takes back, the results it hands to the next run.
\<close>

section \<open>Counting the lines of a file's changes\<close>

definition touch :: "change_t \<Rightarrow> string \<times> string" where
  "touch c = (cg_writer c, cg_path c)"

definition lines_of :: "(change_t \<Rightarrow> int) \<Rightarrow> string \<times> string \<Rightarrow> change_t list \<Rightarrow> int" where
  "lines_of f k cs = sum_list (map f (filter (\<lambda>c. touch c = k) cs))"

lemma lines_of_simps [simp]:
  "lines_of f k [] = 0"
  "lines_of f k (c # cs) = (if touch c = k then f c else 0) + lines_of f k cs"
  "lines_of f k (as @ bs) = lines_of f k as + lines_of f k bs"
  by (simp_all add: lines_of_def)

lemma lines_of_perm: "mset as = mset bs \<Longrightarrow> lines_of f k as = lines_of f k bs"
proof -
  assume "mset as = mset bs"
  then have "mset (map f (filter (\<lambda>c. touch c = k) as)) = mset (map f (filter (\<lambda>c. touch c = k) bs))" by simp
  then show ?thesis unfolding lines_of_def by (metis sum_mset_sum_list)
qed

text \<open>The counts a change carries.\<close>

definition counted :: "(change_t \<Rightarrow> int) \<Rightarrow> bool" where
  "counted f \<longleftrightarrow> f = cg_added \<or> f = cg_removed"

section \<open>Pending changes\<close>

definition owned :: "string \<Rightarrow> by_path \<Rightarrow> bool" where
  "owned w b \<longleftrightarrow> b \<noteq> [] \<and> list_all (\<lambda>(p, c). touch c = (w, p)) b"

lemma touch_update:
  "touch (c\<lparr>cg_added := a, cg_removed := r, cg_ranges := rs\<rparr>) = touch c"
  by (simp add: touch_def)

lemma update_owned: "owned w b \<or> b = [] \<Longrightarrow> touch c = (w, p) \<Longrightarrow> owned w (AList.update p c b)"
proof -
  assume o: "owned w b \<or> b = []" and c: "touch c = (w, p)"
  have "list_all (\<lambda>(p, c). touch c = (w, p)) (AList.update p c b)"
    if "list_all (\<lambda>(p, c). touch c = (w, p)) b" using that c by (induction b) auto
  moreover have "AList.update p c b \<noteq> []" by (induction b) auto
  ultimately show ?thesis using o by (auto simp: owned_def)
qed

lemma update_touches:
  "list_all (\<lambda>(p, c). touch c = (w, p)) b \<Longrightarrow> touch c = (w, p) \<Longrightarrow>
     touch ` set (map snd (AList.update p c b)) = insert (w, p) (touch ` set (map snd b))"
  by (induction b) auto

lemma update_lines_new:
  "map_of b p = None \<Longrightarrow> lines_of f k (map snd (AList.update p c b)) = lines_of f k [c] + lines_of f k (map snd b)"
  by (induction b) (auto split: if_splits simp: algebra_simps)

lemma update_lines_old:
  "map_of b p = Some old \<Longrightarrow>
     lines_of f k (map snd (AList.update p c b)) + lines_of f k [old] = lines_of f k [c] + lines_of f k (map snd b)"
  by (induction b) (auto split: if_splits simp: algebra_simps)

lemma coalesce_owned:
  assumes "owned (cg_writer c) b \<or> b = []"
  shows "owned (cg_writer c) (coalesce c b)"
proof (cases "map_of b (cg_path c)")
  case None
  with update_owned [OF assms, of c "cg_path c"] show ?thesis by (simp add: coalesce_def touch_def)
next
  case (Some old)
  with assms have "touch old = (cg_writer c, cg_path c)"
    by (auto simp: owned_def list_all_iff dest!: map_of_SomeD)
  with Some update_owned [OF assms] show ?thesis by (simp add: coalesce_def touch_update)
qed

lemma coalesce_keeps:
  assumes "owned (cg_writer c) b \<or> b = []" "counted f"
  shows "touch ` set (map snd (coalesce c b)) = insert (touch c) (touch ` set (map snd b))"
    and "lines_of f k (map snd (coalesce c b)) = lines_of f k [c] + lines_of f k (map snd b)"
proof -
  have o: "list_all (\<lambda>(p, d). touch d = (cg_writer c, p)) b" using assms(1) by (auto simp: owned_def)
  have "touch ` set (map snd (coalesce c b)) = insert (touch c) (touch ` set (map snd b))
      \<and> lines_of f k (map snd (coalesce c b)) = lines_of f k [c] + lines_of f k (map snd b)"
  proof (cases "map_of b (cg_path c)")
    case None
    with update_touches [OF o, of c "cg_path c"] update_lines_new [OF None] show ?thesis
      by (simp add: coalesce_def touch_def)
  next
    case (Some old)
    let ?new = "old\<lparr>cg_added := cg_added old + cg_added c, cg_removed := cg_removed old + cg_removed c,
      cg_ranges := merge_ranges (cg_ranges old) (cg_ranges c)\<rparr>"
    from Some o have t: "touch old = touch c" by (auto simp: list_all_iff touch_def dest!: map_of_SomeD)
    then have n: "touch ?new = (cg_writer c, cg_path c)" by (simp add: touch_update) (simp add: touch_def)
    have "lines_of f k [?new] = lines_of f k [c] + lines_of f k [old]" using t assms(2) by (auto simp: touch_update counted_def add.commute)
    with update_lines_old [OF Some, where f = f and k = k and c = ?new]
    have "lines_of f k (map snd (AList.update (cg_path c) ?new b)) = lines_of f k [c] + lines_of f k (map snd b)"
      by (simp add: algebra_simps del: lines_of_simps)
    with update_touches [OF o n] Some show ?thesis by (simp add: coalesce_def touch_def)
  qed
  then show "touch ` set (map snd (coalesce c b)) = insert (touch c) (touch ` set (map snd b))"
    and "lines_of f k (map snd (coalesce c b)) = lines_of f k [c] + lines_of f k (map snd b)" by simp_all
qed

lemma drain_keeps: "set (drain b) = set (map snd b)" "lines_of f k (drain b) = lines_of f k (map snd b)"
  by (simp_all add: drain_def lines_of_perm)

definition in_windows :: "(string \<times> by_path) list \<Rightarrow> change_t list" where
  "in_windows ps = concat (map (map snd \<circ> snd) ps)"

definition windows_ok :: "(string \<times> by_path) list \<Rightarrow> bool" where
  "windows_ok ps \<longleftrightarrow> list_all (\<lambda>(w, b). owned w b) ps"

lemma pending_of_owned: "windows_ok ps \<Longrightarrow> owned w (pending_of w ps) \<or> pending_of w ps = []"
  by (auto simp: windows_ok_def pending_of_def list_all_iff dest!: map_of_SomeD split: option.splits)

lemma windows_update:
  assumes "windows_ok ps" "owned w b"
    and "touch ` set (map snd b) = insert k (touch ` set (map snd (pending_of w ps)))"
    and "\<And>j. lines_of f j (map snd b) = d j + lines_of f j (map snd (pending_of w ps))"
  shows "windows_ok (AList.update w b ps)"
    and "touch ` set (in_windows (AList.update w b ps)) = insert k (touch ` set (in_windows ps))"
    and "lines_of f j (in_windows (AList.update w b ps)) = d j + lines_of f j (in_windows ps)"
proof -
  have "windows_ok (AList.update w b ps)
      \<and> touch ` set (in_windows (AList.update w b ps)) = insert k (touch ` set (in_windows ps))
      \<and> lines_of f j (in_windows (AList.update w b ps)) = d j + lines_of f j (in_windows ps)"
    using assms
    by (induction ps) (auto simp: windows_ok_def in_windows_def pending_of_def image_Un add.assoc add.left_commute)
  then show "windows_ok (AList.update w b ps)"
    and "touch ` set (in_windows (AList.update w b ps)) = insert k (touch ` set (in_windows ps))"
    and "lines_of f j (in_windows (AList.update w b ps)) = d j + lines_of f j (in_windows ps)" by simp_all
qed

section \<open>No change is lost\<close>

definition held_list :: "'a option \<Rightarrow> 'a list" where
  "held_list h = (case h of None \<Rightarrow> [] | Some c \<Rightarrow> [c])"

lemma held_list_simps [simp]: "held_list None = []" "held_list (Some c) = [c]"
  by (simp_all add: held_list_def)

definition in_flight :: "gating \<Rightarrow> change_t list" where
  "in_flight g =
     gg_inbox g @ held_list (gg_held g) @ in_windows (gg_pending g) @ concat (gg_batches g) @ concat (map fst (gg_results g))"

definition gating_ok :: "gating \<Rightarrow> bool" where
  "gating_ok g \<longleftrightarrow> windows_ok (gg_pending g) \<and> (gg_timer g \<longleftrightarrow> gg_pending g \<noteq> [])"

definition written_now :: "gact \<Rightarrow> change_t list" where
  "written_now a = (case a of Write c \<Rightarrow> [c] | _ \<Rightarrow> [])"

definition gated_now :: "gact \<Rightarrow> gating \<Rightarrow> change_t list" where
  "gated_now a g = (case a of Collect \<Rightarrow> concat (map fst (take 1 (gg_results g))) | _ \<Rightarrow> [])"

fun gated :: "gact list \<Rightarrow> gating \<Rightarrow> change_t list" where
  "gated [] g = []"
| "gated (a # as) g = (case gstep a g of None \<Rightarrow> [] | Some g' \<Rightarrow> gated_now a g @ gated as g')"

definition written :: "gact list \<Rightarrow> change_t list" where
  "written as = concat (map written_now as)"

definition balanced :: "gating \<Rightarrow> change_t list \<Rightarrow> change_t list \<Rightarrow> gating \<Rightarrow> bool" where
  "balanced g wr ga g' \<longleftrightarrow>
     touch ` set (in_flight g @ wr) = touch ` set (in_flight g' @ ga)
     \<and> (\<forall>f k. counted f \<longrightarrow> lines_of f k (in_flight g @ wr) = lines_of f k (in_flight g' @ ga))"

lemma balanced_mset: "mset (in_flight g @ wr) = mset (in_flight g' @ ga) \<Longrightarrow> balanced g wr ga g'"
  unfolding balanced_def by (metis lines_of_perm set_mset_mset)

lemma balanced_trans: "balanced g w1 g1 h \<Longrightarrow> balanced h w2 g2 i \<Longrightarrow> balanced g (w1 @ w2) (g1 @ g2) i"
proof -
  assume a: "balanced g w1 g1 h" and b: "balanced h w2 g2 i"
  have sets: "A \<union> (B \<union> C) = X \<union> (Y \<union> Z)" if "A \<union> B = H \<union> Y" "H \<union> C = X \<union> Z"
    for A B C H X Y Z :: "(string \<times> string) set"
    using that by blast
  have "touch ` set (in_flight g) \<union> touch ` set w1 = touch ` set (in_flight h) \<union> touch ` set g1"
    using conjunct1 [OF a [unfolded balanced_def]] by (simp only: set_append image_Un)
  moreover have "touch ` set (in_flight h) \<union> touch ` set w2 = touch ` set (in_flight i) \<union> touch ` set g2"
    using conjunct1 [OF b [unfolded balanced_def]] by (simp only: set_append image_Un)
  ultimately have "touch ` set (in_flight g) \<union> (touch ` set w1 \<union> touch ` set w2)
      = touch ` set (in_flight i) \<union> (touch ` set g1 \<union> touch ` set g2)" by (rule sets)
  then have "touch ` set (in_flight g @ (w1 @ w2)) = touch ` set (in_flight i @ (g1 @ g2))"
    by (simp only: set_append image_Un)
  moreover have "lines_of f k (in_flight g @ (w1 @ w2)) = lines_of f k (in_flight i @ (g1 @ g2))" if "counted f" for f k
  proof -
    have "lines_of f k (in_flight g @ w1) = lines_of f k (in_flight h @ g1)"
      "lines_of f k (in_flight h @ w2) = lines_of f k (in_flight i @ g2)"
      using conjunct2 [OF a [unfolded balanced_def]] conjunct2 [OF b [unfolded balanced_def]] that by blast+
    then show ?thesis by simp
  qed
  ultimately show ?thesis unfolding balanced_def by (intro conjI allI impI)
qed

lemma hand_balanced:
  assumes ok: "gating_ok g" and h: "gg_held g = Some c" "gg_batches g = []"
    and g': "hand_step g = Some g'"
  shows "gating_ok g' \<and> balanced g [] [] g'"
proof -
  let ?b = "coalesce c (pending_of (cg_writer c) (gg_pending g))"
  let ?ps = "AList.update (cg_writer c) ?b (gg_pending g)"
  from ok have w: "windows_ok (gg_pending g)" by (simp add: gating_ok_def)
  note o = pending_of_owned [OF w, of "cg_writer c"]
  have t: "touch ` set (map snd ?b) = insert (touch c) (touch ` set (map snd (pending_of (cg_writer c) (gg_pending g))))"
    by (rule coalesce_keeps(1) [OF o, of cg_added]) (simp add: counted_def)
  have upd: "windows_ok ?ps \<and> touch ` set (in_windows ?ps) = insert (touch c) (touch ` set (in_windows (gg_pending g)))
      \<and> lines_of f j (in_windows ?ps) = lines_of f j [c] + lines_of f j (in_windows (gg_pending g))"
    if f: "counted f" for f j
    using windows_update [OF w coalesce_owned [OF o] t, where d = "\<lambda>j. lines_of f j [c]" and f = f]
      coalesce_keeps(2) [OF o f] by blast
  from upd [of cg_added] have ok': "windows_ok ?ps"
    and ts: "touch ` set (in_windows ?ps) = insert (touch c) (touch ` set (in_windows (gg_pending g)))"
    by (simp_all add: counted_def)
  have ne: "?ps \<noteq> []" by (cases "gg_pending g") auto
  have e: "g' = g\<lparr>gg_held := None, gg_timer := True, gg_pending := ?ps\<rparr>" using g' h by (simp add: hand_step_def)
  have "gating_ok g'" using ok' ne by (simp add: e gating_ok_def counted_def)
  moreover have "touch ` set (in_flight g) = touch ` set (in_flight g')"
    using ts by (auto simp: e in_flight_def h image_Un)
  moreover have "lines_of f j (in_flight g) = lines_of f j (in_flight g')" if "counted f" for f j
    using upd [OF that, of j] by (simp add: e in_flight_def h)
  ultimately show ?thesis by (simp add: balanced_def)
qed

lemma fire_balanced:
  assumes "fire_step g = Some g'"
  shows "gating_ok g' \<and> balanced g [] [] g'"
proof -
  from assms have e: "gg_batches g = []"
    "g' = g\<lparr>gg_timer := False, gg_pending := [], gg_batches := map (drain \<circ> snd) (gg_pending g)\<rparr>"
    by (auto simp: fire_step_def split: if_splits)
  have "mset (concat (map (drain \<circ> snd) ps)) = mset (in_windows ps)" for ps :: "(string \<times> by_path) list"
    by (induction ps) (simp_all add: in_windows_def drain_def)
  then have "mset (in_flight g) = mset (in_flight g')" by (simp add: e in_flight_def) (simp add: in_windows_def)
  then show ?thesis using balanced_mset [of g "[]" g' "[]"] by (simp add: e(2) gating_ok_def windows_ok_def)
qed

lemma gstep_balanced:
  assumes ok: "gating_ok g" and s: "gstep a g = Some g'"
  shows "gating_ok g' \<and> balanced g (written_now a) (gated_now a g) g'"
proof (cases a)
  case (Write c)
  with s ok show ?thesis
    by (auto simp: gstep_def write_step_def gating_ok_def written_now_def gated_now_def in_flight_def
        intro!: balanced_mset split: if_splits)
next
  case Pump
  with s ok show ?thesis
    by (auto simp: gstep_def pump_step_def gating_ok_def written_now_def gated_now_def in_flight_def
        intro!: balanced_mset split: option.splits list.splits)
next
  case Hand
  with s ok show ?thesis
    using hand_balanced [OF ok] by (auto simp: gstep_def written_now_def gated_now_def hand_step_def split: option.splits if_splits)
next
  case Fire
  with s show ?thesis using fire_balanced by (simp add: gstep_def written_now_def gated_now_def)
next
  case (Ran gates)
  with s ok show ?thesis
    by (auto simp: gstep_def ran_step_def gating_ok_def written_now_def gated_now_def in_flight_def
        intro!: balanced_mset split: list.splits if_splits)
next
  case Collect
  with s ok show ?thesis
    by (auto simp: gstep_def collect_step_def gating_ok_def written_now_def gated_now_def in_flight_def
        intro!: balanced_mset split: list.splits)
next
  case (Begin now w)
  with s ok show ?thesis
    by (auto simp: gstep_def begin_run_of_def gating_ok_def written_now_def gated_now_def in_flight_def intro!: balanced_mset)
qed (use s ok in \<open>auto simp: gstep_def gating_ok_def written_now_def gated_now_def in_flight_def intro!: balanced_mset\<close>)

lemma gsteps_balanced:
  "gating_ok g \<Longrightarrow> gsteps as g = Some g' \<Longrightarrow> gating_ok g' \<and> balanced g (written as) (gated as g) g'"
proof (induction as arbitrary: g)
  case Nil
  then show ?case by (simp add: balanced_def written_def)
next
  case (Cons a as)
  from Cons.prems obtain h where h: "gstep a g = Some h" "gsteps as h = Some g'" by (auto split: option.splits)
  from gstep_balanced [OF Cons.prems(1) h(1)] Cons.IH [OF _ h(2)] h(1) show ?case
    by (auto simp: written_def intro: balanced_trans)
qed

lemma gating_init_ok: "gating_ok gating_init"
  by (simp add: gating_init_def gating_ok_def windows_ok_def)

text \<open>
  C4: whatever the writers, the pumps, the timer and the gates do, and in whatever order: the files written
  are the files in flight and the files gated, for each writer, and each line added or removed is counted
  once in one of them.
\<close>

theorem no_change_lost:
  "case gsteps as gating_init of
     None \<Rightarrow> True
   | Some g \<Rightarrow>
       touch ` set (written as) = touch ` set (in_flight g @ gated as gating_init)
       \<and> lines_of cg_added k (written as) = lines_of cg_added k (in_flight g @ gated as gating_init)
       \<and> lines_of cg_removed k (written as) = lines_of cg_removed k (in_flight g @ gated as gating_init)"
proof (cases "gsteps as gating_init")
  case (Some g)
  have "in_flight gating_init = []" by (simp add: in_flight_def gating_init_def in_windows_def)
  moreover have "balanced gating_init (written as) (gated as gating_init) g"
    using gsteps_balanced [OF gating_init_ok Some] by blast
  ultimately have "touch ` set (written as) = touch ` set (in_flight g @ gated as gating_init)"
    and "counted f \<Longrightarrow> lines_of f k (written as) = lines_of f k (in_flight g @ gated as gating_init)" for f
    unfolding balanced_def by (metis append_Nil)+
  with Some show ?thesis by (simp add: counted_def)
qed simp

section \<open>What is in flight drains\<close>

definition internal :: "gact \<Rightarrow> bool" where
  "internal a = (case a of Pump \<Rightarrow> True | Hand \<Rightarrow> True | Fire \<Rightarrow> True | Ran _ \<Rightarrow> True | Collect \<Rightarrow> True | _ \<Rightarrow> False)"

definition todo :: "gating \<Rightarrow> nat" where
  "todo g =
     6 * length (gg_inbox g) + 5 * length (held_list (gg_held g)) + 3 * length (gg_pending g) + (if gg_timer g then 1 else 0)
     + 2 * length (gg_batches g) + length (gg_results g)"

lemma length_update: "length (AList.update k v al) \<le> length al + 1"
  by (induction al) auto

lemma gstep_todo: "internal a \<Longrightarrow> gstep a g = Some g' \<Longrightarrow> todo g' < todo g"
proof (cases a)
  case Hand
  assume s: "gstep a g = Some g'"
  then obtain c where c: "gg_held g = Some c" "gg_batches g = []" and
    g': "g' = g\<lparr>gg_held := None, gg_timer := True, gg_pending := AList.update (cg_writer c)
      (coalesce c (pending_of (cg_writer c) (gg_pending g))) (gg_pending g)\<rparr>"
    using Hand by (auto simp: gstep_def hand_step_def split: option.splits if_splits)
  show "todo g' < todo g"
    using length_update [of "cg_writer c" "coalesce c (pending_of (cg_writer c) (gg_pending g))" "gg_pending g"]
    by (simp add: todo_def c g')
qed (auto simp: internal_def gstep_def todo_def pump_step_def fire_step_def ran_step_def collect_step_def
    split: option.splits list.splits if_splits)

lemma gating_enabled:
  assumes "gating_ok g" "todo g \<noteq> 0"
  shows "\<exists>a g'. internal a \<and> gstep a g = Some g'"
proof (cases "gg_results g = [] \<and> gg_batches g = []")
  case False
  then have "\<exists>g'. gstep Collect g = Some g' \<or> gstep (Ran []) g = Some g'"
    by (cases "gg_results g"; cases "gg_batches g") (auto simp: gstep_def collect_step_def ran_step_def)
  moreover have "internal Collect" "internal (Ran [])" by (simp_all add: internal_def)
  ultimately show ?thesis by blast
next
  case True
  with assms have "\<exists>g'. gstep Hand g = Some g' \<or> gstep Pump g = Some g' \<or> gstep Fire g = Some g'"
    by (cases "gg_held g"; cases "gg_inbox g")
      (auto simp: gstep_def hand_step_def pump_step_def fire_step_def todo_def gating_ok_def)
  moreover have "internal Hand" "internal Pump" "internal Fire" by (simp_all add: internal_def)
  ultimately show ?thesis by blast
qed

definition quiet_now :: "gating \<Rightarrow> bool" where
  "quiet_now g \<longleftrightarrow> gg_inbox g = [] \<and> gg_held g = None \<and> gg_pending g = [] \<and> gg_batches g = [] \<and> gg_results g = []"

lemma todo_quiet: "todo g = 0 \<Longrightarrow> quiet_now g"
  by (cases "gg_held g") (auto simp: todo_def quiet_now_def)

definition gate_step :: "gating \<Rightarrow> gating \<Rightarrow> bool" where
  "gate_step g g' \<longleftrightarrow> (\<exists>a. internal a \<and> gstep a g = Some g')"

interpretation gating: draining gate_step gating_ok todo quiet_now
proof unfold_locales
  show "gating_ok g'" if "gating_ok g" "gate_step g g'" for g g'
    using that gstep_balanced by (auto simp: gate_step_def)
  show "todo g' < todo g" if "gating_ok g" "gate_step g g'" for g g'
    using that gstep_todo by (auto simp: gate_step_def)
  show "\<exists>g'. gate_step g g'" if "gating_ok g" "\<not> quiet_now g" for g
    using gating_enabled [OF that(1)] todo_quiet [of g] that(2) unfolding gate_step_def by blast
qed

text \<open>
  C24: from every state the gate can reach, its own steps end: no more than \<open>todo\<close> of them can follow one
  another, and it comes to a state in which nothing is in flight.
\<close>

theorem gating_settles:
  "case gsteps as gating_init of
     None \<Rightarrow> True
   | Some g \<Rightarrow>
       (\<exists>g'. gate_step\<^sup>*\<^sup>* g g' \<and> quiet_now g') \<and> \<not> (\<exists>n g'. (gate_step ^^ n) g g' \<and> todo g < n)"
proof (cases "gsteps as gating_init")
  case (Some g)
  with gsteps_balanced [OF gating_init_ok] have ok: "gating_ok g" by blast
  from gating.finishes [OF ok] gating.steps_bounded [OF _ ok] Some show ?thesis by fastforce
qed simp

section \<open>Changes counted as not covered\<close>

lemma gsteps_append: "gsteps (as @ bs) g = (case gsteps as g of None \<Rightarrow> None | Some g' \<Rightarrow> gsteps bs g')"
  by (induction as arbitrary: g) (auto split: option.split)

lemma note_false_alarms_queued: "rs_queued (note_false_alarms rs st) = rs_queued st"
proof -
  have "rs_queued (note_result r st) = rs_queued st" for r st by (simp add: note_result_def Let_def)
  then show ?thesis unfolding note_false_alarms_def by (induction rs arbitrary: st) simp_all
qed

lemma collect_into_queued: "rs_queued (collect_into changes gates st) = rs_queued st - length changes"
  by (simp add: collect_into_def note_rewrites_def note_false_alarms_queued Let_def)

text \<open>The state while the same file is edited again within one window: \<open>n\<close> edits, coalesced into \<open>d\<close>.\<close>

definition editing :: "nat \<Rightarrow> change_t \<Rightarrow> change_t \<Rightarrow> gating" where
  "editing n c d =
     gating_init\<lparr>gg_states := [(cg_writer c, new_state\<lparr>rs_queued := n, rs_changed := replicate n c\<rparr>)],
       gg_pending := [(cg_writer c, [(cg_path c, d)])], gg_timer := True\<rparr>"

lemma edit_first: "gsteps [Write c, Pump, Hand] gating_init = Some (editing 1 c c)"
  by (simp add: gstep_def write_step_def pump_step_def hand_step_def note_change_def state_of_def gating_init_def
      new_state_def change_inbox_def editing_def coalesce_def pending_of_def Let_def)

lemma edit_again:
  assumes "touch d = touch c"
  shows "\<exists>d'. gsteps [Write c, Pump, Hand] (editing n c d) = Some (editing (Suc n) c d') \<and> touch d' = touch c"
proof -
  let ?d = "d\<lparr>cg_added := cg_added d + cg_added c, cg_removed := cg_removed d + cg_removed c,
    cg_ranges := merge_ranges (cg_ranges d) (cg_ranges c)\<rparr>"
  have "gsteps [Write c, Pump, Hand] (editing n c d) = Some (editing (Suc n) c ?d)"
    by (simp add: gstep_def write_step_def pump_step_def hand_step_def note_change_def state_of_def gating_init_def
        new_state_def change_inbox_def editing_def coalesce_def pending_of_def Let_def replicate_append_same)
  then show ?thesis using assms by (auto simp: touch_update)
qed

lemma edits:
  "\<exists>d. gsteps (concat (replicate (Suc n) [Write c, Pump, Hand])) gating_init = Some (editing (Suc n) c d) \<and> touch d = touch c"
proof (induction n)
  case 0
  show ?case using edit_first [of c] by (intro exI [of _ c]) (simp del: gsteps.simps)
next
  case (Suc n)
  then obtain d where d: "gsteps (concat (replicate (Suc n) [Write c, Pump, Hand])) gating_init = Some (editing (Suc n) c d)"
    and t: "touch d = touch c" by blast
  have "concat (replicate (Suc (Suc n)) [Write c, Pump, Hand])
      = concat (replicate (Suc n) [Write c, Pump, Hand]) @ [Write c, Pump, Hand]"
    by (metis concat_append concat.simps append_Nil2 replicate_Suc replicate_append_same)
  then show ?case using edit_again [OF t] by (simp only: gsteps_append d option.case)
qed

lemma window_gated:
  assumes "touch d = touch c"
  shows "\<exists>g. gsteps [Fire, Ran gates, Collect] (editing (Suc (Suc n)) c d) = Some g \<and> quiet_now g
    \<and> status (cg_writer c) (gg_states g) = Some running_now"
proof -
  have w: "sole_writer [d] = cg_writer c" using assms by (auto simp: sole_writer_def touch_def)
  let ?st = "new_state\<lparr>rs_queued := Suc (Suc n), rs_changed := replicate (Suc (Suc n)) c\<rparr>"
  let ?sts = "[(cg_writer c, collect_into [d] gates ?st)]"
  have d: "drain [(cg_path c, d)] = [d]" by (simp add: drain_def)
  have q: "0 < rs_queued (asked (cg_writer c) ?sts)"
    by (simp add: asked_def every_state_def state_of_def collect_into_queued)
  have "gsteps [Fire, Ran gates, Collect] (editing (Suc (Suc n)) c d) = Some (gating_init\<lparr>gg_states := ?sts\<rparr>)"
    by (simp add: gstep_def fire_step_def ran_step_def collect_step_def collect_def editing_def gating_init_def w d
        state_of_def Let_def)
  then show ?thesis using q by (simp add: status_def Let_def quiet_now_def gating_init_def)
qed

text \<open>
  \<open>queued\<close> counts changes and is lowered by the paths of a batch, so editing one file twice or more
  within a window leaves it above zero for good: every step has run, nothing is in flight, every gate
  has answered, and \<open>Status\<close> still says that the gates are running and that what they find is to come.
\<close>

theorem status_never_settles:
  "case gsteps (concat (replicate (n + 2) [Write c, Pump, Hand]) @ [Fire, Ran gates, Collect]) gating_init of
     None \<Rightarrow> False
   | Some g \<Rightarrow> quiet_now g \<and> status (cg_writer c) (gg_states g) = Some running_now"
proof -
  have n: "n + 2 = Suc (Suc n)" by simp
  obtain d where d: "gsteps (concat (replicate (Suc (Suc n)) [Write c, Pump, Hand])) gating_init = Some (editing (Suc (Suc n)) c d)"
    and "touch d = touch c" using edits [of "Suc n" c] by blast
  then obtain g where g: "gsteps [Fire, Ran gates, Collect] (editing (Suc (Suc n)) c d) = Some g" "quiet_now g"
    "status (cg_writer c) (gg_states g) = Some running_now" using window_gated by blast
  then show ?thesis by (simp only: n gsteps_append d option.case)
qed

section \<open>Failures taken back, results of another run\<close>

definition demo_gate :: "bool \<Rightarrow> gate_result" where
  "demo_gate p = \<lparr>gr_gate = ''build'', gr_level = LevelPackage, gr_reason = [],
     gr_failures = (if p then [] else [\<lparr>tf_test = ''build'', tf_package = [], tf_writer = [], tf_frames = [''a.go:1''], tf_context = []\<rparr>]),
     gr_advisories = [], gr_rewrote = [], gr_examined = 1, gr_pass = p\<rparr>"

definition demo_edit :: "string \<Rightarrow> change_t" where
  "demo_edit p = \<lparr>cg_path = p, cg_writer = ''t'', cg_ranges = [], cg_added = 1, cg_removed = 0\<rparr>"

text \<open>
  The defect is in \<open>a.go\<close>; its fix in \<open>b.go\<close> is written while the gates still run over the defect. Both
  verdicts are recorded against two changes, so the pass counts as proof that the failure was false.
\<close>

lemma fix_recorded_as_false_alarm:
  "map_option (\<lambda>g. (fst (false_alarms ''t'' (gg_states g)), map cg_path (changed_by ''t'' (gg_states g))))
     (gsteps [Write (demo_edit ''a.go''), Pump, Hand, Fire, Write (demo_edit ''b.go''), Ran [demo_gate False], Collect,
              Pump, Hand, Fire, Ran [demo_gate True], Collect] gating_init)
   = Some ([''build''], [''a.go'', ''b.go''])"
  by code_simp

text \<open>A batch of the run before is told to the run that \<open>Begin\<close> started, which has written nothing.\<close>

lemma stale_batch_told:
  "map_option (\<lambda>g. (snd (fst (take_feedback ''t'' (gg_states g))), changed_by ''t'' (gg_states g)))
     (gsteps [Write (demo_edit ''a.go''), Pump, Hand, Fire, Begin 0 ''t'', Ran [demo_gate False], Collect] gating_init)
   = Some (True, [])"
  by code_simp

end
