(* ===== verification/Verifier.thy ===== *)
theory Verifier
  imports ChangeGate AgentState
begin

text \<open>
  Model of \<open>internal/app/verifier.go\<close>: the gates run in order over the changes of a run when it means to
  finish, the first failure decides, and a failure this run cannot have caused is told apart. The gates,
  the clock, the gate log (which \<open>app.go\<close> always opens) and the leases of the other writers act on the
  world \<open>'w\<close>.
\<close>

section \<open>A gate and its record\<close>

record gate_context =
  gc_repo :: string
  gc_run_id :: string
  gc_selection :: selection
  gc_changes :: "change_t list"

record 'w gate =
  ga_name :: string
  ga_resources :: "string list"
  ga_run :: "gate_context \<Rightarrow> 'w \<Rightarrow> (string + gate_result) \<times> 'w"

record log_entry =
  le_time :: int
  le_gate :: string
  le_level :: level
  le_reason :: string
  le_advisories :: "trimmed_failure list"
  le_duration :: int
  le_waited :: int
  le_examined :: int
  le_pass :: bool

record 'w verifier =
  vf_repo :: string
  vf_cov :: "coverage option"
  vf_graph :: "import_graph option"
  vf_log :: "log_entry \<Rightarrow> 'w \<Rightarrow> string option \<times> 'w"
  vf_clock :: "'w \<Rightarrow> int \<times> 'w"
  vf_gates :: "'w gate list"
  vf_others :: "('w \<Rightarrow> string list) option"

section \<open>Which changes are this project's\<close>

definition under_root :: "string \<Rightarrow> string \<Rightarrow> bool" where
  "under_root p repo =
     (if \<not> is_abs p then True
      else case path_rel repo (clean p) of
             None \<Rightarrow> False
           | Some rel \<Rightarrow> rel \<noteq> dotdot \<and> \<not> has_prefix rel (dotdot @ ''/''))"

definition partition_changes :: "change_t list \<Rightarrow> string \<Rightarrow> change_t list \<times> string list" where
  "partition_changes changes repo =
     (filter (\<lambda>ch. under_root (cg_path ch) repo) changes,
      dedup [] (map (\<lambda>ch. path_dir (clean (cg_path ch))) (filter (\<lambda>ch. \<not> under_root (cg_path ch) repo) changes)))"

definition note_uncovered :: "'w verifier \<Rightarrow> string list \<Rightarrow> 'w \<Rightarrow> 'w" where
  "note_uncovered V dirs w =
     (if dirs = [] then w
      else let (now, w) = vf_clock V w in
           snd (vf_log V \<lparr>le_time = now, le_gate = ''scope'', le_level = LevelNone,
                 le_reason = ''outside this project: '' @ join_with '', '' dirs, le_advisories = [], le_duration = 0,
                 le_waited = 0, le_examined = 0, le_pass = True\<rparr> w))"

section \<open>What the model reads\<close>

definition attributed_text :: "gate_result \<Rightarrow> string" where
  "attributed_text r =
     (case filter (\<lambda>a. tf_writer a \<noteq> []) (gr_advisories r) of
        [] \<Rightarrow> []
      | a # as \<Rightarrow>
          trim_right (''Findings in the same packages that '' @ tf_writer a @
            '' left. They are not yours and they do not fail this gate, so work around them:'' @ [nl] @
            concat (map (indented \<circ> tf_frames) (a # as))) [nl])"

definition feedback_text :: "gate_result \<Rightarrow> bool \<Rightarrow> string" where
  "feedback_text r alone =
     (if gr_pass r then []
      else let told = trim_right (describe_failure r) [nl] in
           if alone \<and> attributed_text r \<noteq> [] then told @ [nl, nl] @ attributed_text r else told)"

definition unattributed_text :: "gate_result \<Rightarrow> string" where
  "unattributed_text r = ''the tree fails a gate this run cannot have caused:'' @ [nl] @ feedback_text r False"

definition sole_writer_now :: "'w verifier \<Rightarrow> 'w \<Rightarrow> bool" where
  "sole_writer_now V w = (case vf_others V of None \<Rightarrow> True | Some others \<Rightarrow> others w = [])"

section \<open>One gate, and all of them\<close>

definition run_step :: "'w verifier \<Rightarrow> gate_context \<Rightarrow> 'w gate \<Rightarrow> 'w \<Rightarrow> gate_result \<times> 'w" where
  "run_step V rc g w =
     (let (start, w) = vf_clock V w;
          (ran_to, w) = ga_run g rc w;
          r = (case ran_to of
                 Inr r \<Rightarrow> r
               | Inl e \<Rightarrow> \<lparr>gr_gate = ga_name g, gr_level = se_level (gc_selection rc), gr_reason = [],
                            gr_failures = [\<lparr>tf_test = ga_name g, tf_package = [], tf_writer = [], tf_frames = [e],
                                            tf_context = []\<rparr>],
                            gr_advisories = [], gr_rewrote = [], gr_examined = 0, gr_pass = False\<rparr>);
          (stop, w) = vf_clock V w
      in (case vf_log V \<lparr>le_time = start, le_gate = gr_gate r, le_level = gr_level r, le_reason = gr_reason r,
                le_advisories = [], le_duration = stop - start, le_waited = 0, le_examined = gr_examined r,
                le_pass = gr_pass r\<rparr> w of
                (None, w) \<Rightarrow> (r, w)
              | (Some e, w) \<Rightarrow>
                  (r\<lparr>gr_pass := False,
                     gr_failures := gr_failures r @ [\<lparr>tf_test = ga_name g, tf_package = [], tf_writer = [],
                                                      tf_frames = [''gate log: '' @ e], tf_context = []\<rparr>]\<rparr>, w)))"

text \<open>The loop of \<open>Verify\<close>: the first result that does not pass.\<close>

fun first_failure :: "'w verifier \<Rightarrow> gate_context \<Rightarrow> 'w gate list \<Rightarrow> 'w \<Rightarrow> gate_result option \<times> 'w" where
  "first_failure V rc [] w = (None, w)"
| "first_failure V rc (g # gs) w =
     (let (r, w) = run_step V rc g w in if gr_pass r then first_failure V rc gs w else (Some r, w))"

definition verify_selection :: "'w verifier \<Rightarrow> change_t list \<Rightarrow> selection" where
  "verify_selection V changes =
     (case select (vf_cov V) (vf_graph V) changes of
        Inl _ \<Rightarrow> \<lparr>se_level = LevelPackage, se_tests = [], se_packages = []\<rparr>
      | Inr sel \<Rightarrow> sel)"

definition verify :: "'w verifier \<Rightarrow> change_t list \<Rightarrow> 'w \<Rightarrow> (string \<times> gate_verdict) \<times> 'w" where
  "verify V all w =
     (let (changes, outside) = partition_changes all (vf_repo V);
          w = note_uncovered V outside w
      in if changes = [] then (([], VerdictPass), w)
         else let rc = \<lparr>gc_repo = vf_repo V, gc_run_id = [], gc_selection = verify_selection V changes,
                        gc_changes = changes\<rparr>
              in case first_failure V rc (vf_gates V) w of
                   (None, w) \<Rightarrow> (([], VerdictPass), w)
                 | (Some r, w) \<Rightarrow>
                     if \<not> attributable r (vf_graph V) changes then ((unattributed_text r, VerdictUnattributed), w)
                     else ((feedback_text r (sole_writer_now V w), VerdictFailed), w))"

end
