(* ===== verification/GateSelectFacts.thy ===== *)
theory GateSelectFacts
  imports GateSelect
begin

text \<open>
  What selection promises: each level says exactly which tests or packages it runs, a package which
  imports a changed one at any depth is selected, selection narrows at most ten times in a row, and a
  failure written off as somebody else's names no file this change could reach.
\<close>

section \<open>The line level\<close>

definition covering :: "coverage \<Rightarrow> string \<Rightarrow> int \<times> int \<Rightarrow> string list" where
  "covering c f r = (case cv_tests c f (fst r) (snd r) of Inl _ \<Rightarrow> [] | Inr ts \<Rightarrow> ts)"

definition range_tests :: "coverage \<Rightarrow> change_t \<Rightarrow> string list" where
  "range_tests c ch = concat (map (covering c (cg_path ch)) (cg_ranges ch))"

definition covers_change :: "coverage \<Rightarrow> change_t \<Rightarrow> bool" where
  "covers_change c ch \<longleftrightarrow> cg_ranges ch \<noteq> [] \<and> list_all (\<lambda>r. covering c (cg_path ch) r \<noteq> []) (cg_ranges ch)"

lemma collect_ranges_some:
  "collect_ranges c f rs tests = Inr (Some ts) \<Longrightarrow>
     set ts = set tests \<union> set (concat (map (covering c f) rs)) \<and> list_all (\<lambda>r. covering c f r \<noteq> []) rs"
proof (induction rs arbitrary: tests)
  case (Cons r rs)
  obtain a b where r: "r = (a, b)" by (cases r)
  from Cons.prems obtain cs where cs: "cv_tests c f a b = Inr cs" "cs \<noteq> []"
    "collect_ranges c f rs (tests @ dedup tests cs) = Inr (Some ts)"
    by (auto simp: r split: sum.splits if_splits)
  from Cons.IH [OF cs(3)] show ?case by (auto simp: r covering_def cs set_dedup)
qed simp

lemma collect_ranges_none:
  "collect_ranges c f rs tests = Inr None \<Longrightarrow> \<not> list_all (\<lambda>r. covering c f r \<noteq> []) rs"
proof (induction rs arbitrary: tests)
  case (Cons r rs)
  obtain a b where r: "r = (a, b)" by (cases r)
  show ?case
  proof (cases "covering c f r = []")
    case False
    then obtain cs where "cv_tests c f a b = Inr cs" "cs \<noteq> []"
      by (auto simp: r covering_def split: sum.splits)
    with Cons.prems have "collect_ranges c f rs (tests @ dedup tests cs) = Inr None" by (simp add: r)
    from Cons.IH [OF this] show ?thesis by simp
  qed simp
qed simp

lemma collect_changes_some:
  "collect_changes c chs tests = Inr (Some ts) \<Longrightarrow>
     set ts = set tests \<union> set (concat (map (range_tests c) chs)) \<and> list_all (covers_change c) chs"
proof (induction chs arbitrary: tests)
  case (Cons ch chs)
  from Cons.prems obtain ts' where n: "cg_ranges ch \<noteq> []"
    and r: "collect_ranges c (cg_path ch) (cg_ranges ch) tests = Inr (Some ts')"
    and rest: "collect_changes c chs ts' = Inr (Some ts)"
    by (auto split: sum.splits option.splits if_splits)
  from Cons.IH [OF rest] collect_ranges_some [OF r] n show ?case
    by (auto simp: covers_change_def range_tests_def)
qed simp

lemma collect_changes_none: "collect_changes c chs tests = Inr None \<Longrightarrow> \<not> list_all (covers_change c) chs"
proof (induction chs arbitrary: tests)
  case (Cons ch chs)
  then show ?case
    by (auto simp: covers_change_def dest: collect_ranges_none split: sum.splits option.splits if_splits)
qed simp

definition line_decides :: "coverage option \<Rightarrow> change_t list \<Rightarrow> bool" where
  "line_decides cov changes \<longleftrightarrow>
     coverage_usable cov \<and> changes \<noteq> [] \<and> (case cov of None \<Rightarrow> False | Some c \<Rightarrow> list_all (covers_change c) changes)"

definition covering_tests :: "coverage option \<Rightarrow> change_t list \<Rightarrow> string list" where
  "covering_tests cov changes = (case cov of None \<Rightarrow> [] | Some c \<Rightarrow> concat (map (range_tests c) changes))"

lemma select_by_line_some:
  "select_by_line cov changes = Inr (Some ts) \<Longrightarrow> line_decides cov changes \<and> set ts = set (covering_tests cov changes)"
  by (auto simp: select_by_line_def line_decides_def covering_tests_def sort_strings_def
      dest!: collect_changes_some split: if_splits option.splits sum.splits)

lemma select_by_line_none: "select_by_line cov changes = Inr None \<Longrightarrow> \<not> line_decides cov changes"
  by (auto simp: select_by_line_def line_decides_def
      dest!: collect_changes_none split: if_splits option.splits sum.splits)

section \<open>The importer level\<close>

definition owner :: "import_graph \<Rightarrow> change_t \<Rightarrow> string option" where
  "owner g ch = map_of (ig_files g) (cg_path ch)"

definition changed_packages :: "import_graph \<Rightarrow> change_t list \<Rightarrow> string set" where
  "changed_packages g changes = {p. list_ex (\<lambda>ch. owner g ch = Some p) changes}"

definition knows_all :: "import_graph \<Rightarrow> change_t list \<Rightarrow> bool" where
  "knows_all g changes = list_all (\<lambda>ch. owner g ch \<noteq> None) changes"

lemma change_packages_eq:
  "change_packages g changes = (if knows_all g changes then Some (map (the \<circ> owner g) changes) else None)"
  by (induction changes) (auto simp: knows_all_def owner_def split: option.splits)

lemma set_with_importers: "set (with_importers g p) = (imported_by g)\<^sup>* `` {p}"
  by (auto simp: with_importers_def transitive_importers_closure rtrancl_eq_or_trancl)

lemma set_sorted_keys [simp]: "set (sorted_keys xs) = set xs"
  by (simp add: sorted_keys_def sort_strings_def set_dedup)

lemma changed_packages_map: "knows_all g changes \<Longrightarrow> changed_packages g changes = (the \<circ> owner g) ` set changes"
  by (force simp: changed_packages_def knows_all_def list_ex_iff list_all_iff image_iff)

lemma select_by_importers_eq:
  "select_by_importers g changes = Some pkgs \<Longrightarrow>
     knows_all g changes \<and> set pkgs = (imported_by g)\<^sup>* `` changed_packages g changes"
proof -
  assume s: "select_by_importers g changes = Some pkgs"
  then have k: "knows_all g changes"
    by (auto simp: select_by_importers_def change_packages_eq split: if_splits option.splits)
  with s have "set pkgs = (\<Union>p\<in>(the \<circ> owner g) ` set changes. (imported_by g)\<^sup>* `` {p})"
    by (auto simp: select_by_importers_def change_packages_eq set_with_importers set_dedup)
  then show ?thesis using k changed_packages_map [OF k] by auto
qed

lemma select_by_importers_none: "select_by_importers g changes = None \<longleftrightarrow> \<not> knows_all g changes"
  by (simp add: select_by_importers_def change_packages_eq)

section \<open>Each level, exactly\<close>

definition knows_changes :: "import_graph option \<Rightarrow> change_t list \<Rightarrow> bool" where
  "knows_changes graph changes = (case graph of None \<Rightarrow> False | Some g \<Rightarrow> knows_all g changes)"

definition reached :: "import_graph option \<Rightarrow> change_t list \<Rightarrow> string set" where
  "reached graph changes = (case graph of None \<Rightarrow> {} | Some g \<Rightarrow> (imported_by g)\<^sup>* `` changed_packages g changes)"


section \<open>The cadence\<close>

fun cadence_run :: "cadence_config \<Rightarrow> cadence \<Rightarrow> (int \<times> selection) list \<Rightarrow> selection list" where
  "cadence_run cfg c [] = []"
| "cadence_run cfg c ((now, sel) # rest) =
     (let (sel', c') = cadence_apply cfg now c sel in sel' # cadence_run cfg c' rest)"

text \<open>After each batch, how many narrowed ones there were since the last whole run.\<close>

fun narrowed_since :: "nat \<Rightarrow> selection list \<Rightarrow> nat list" where
  "narrowed_since n [] = []"
| "narrowed_since n (sel # rest) =
     (let m = (if sel = whole_module then 0 else if se_level sel \<noteq> LevelPackage then n + 1 else n)
      in m # narrowed_since m rest)"

lemma narrowed_bound:
  assumes "0 < cc_max_passes cfg" "n \<le> ca_passes c" "ca_passes c \<le> cc_max_passes cfg"
  shows "list_all (\<lambda>m. m \<le> cc_max_passes cfg) (narrowed_since n (cadence_run cfg c batches))"
  using assms(2,3)
proof (induction batches arbitrary: n c)
  case (Cons b batches)
  obtain now sel where b: "b = (now, sel)" by (cases b)
  obtain sel' c' where a: "cadence_apply cfg now c sel = (sel', c')" by (cases "cadence_apply cfg now c sel")
  define m where "m = (if sel' = whole_module then 0 else if se_level sel' \<noteq> LevelPackage then n + 1 else n)"
  have "m \<le> ca_passes c'" "ca_passes c' \<le> cc_max_passes cfg"
    using a Cons.prems assms(1)
    by (auto simp: m_def cadence_apply_def needs_full_run_def whole_module_def split: if_splits)
  from this Cons.IH [OF this] show ?case by (simp add: b a Let_def m_def)
qed simp

text \<open>
  C34: however many batches there are, whatever they select and whenever they come, at most ten of them are
  narrowed between two runs of the whole module.
\<close>

theorem cadence_bounds_narrowing:
  "list_all (\<lambda>n. n \<le> 10)
     (narrowed_since 0 (cadence_run default_cadence \<lparr>ca_last_full = start, ca_passes = 0\<rparr> batches))"
  using narrowed_bound [of default_cadence 0 "\<lparr>ca_last_full = start, ca_passes = 0\<rparr>" batches]
  by (simp add: default_cadence_def max_selective_passes_def)

section \<open>Failures of others\<close>

definition names_in :: "gate_result \<Rightarrow> string \<Rightarrow> bool" where
  "names_in r f =
     list_ex (\<lambda>t. list_ex (\<lambda>l. list_ex (\<lambda>p. names_file (clean p) f) (file_refs l)) (tf_context t)) (gr_failures r)"

definition could_break :: "import_graph \<Rightarrow> change_t list \<Rightarrow> string \<Rightarrow> bool" where
  "could_break g changes p =
     list_ex (\<lambda>ch. case map_of (ig_files g) (clean (cg_path ch)) of
                     None \<Rightarrow> False | Some q \<Rightarrow> (q, p) \<in> (imported_by g)\<^sup>*) changes"

lemma mem_concat_map: "x \<in> set (concat (map h xs)) \<longleftrightarrow> list_ex (\<lambda>a. x \<in> set (h a)) xs"
  by (auto simp: list_ex_iff)

lemma reachable_packages_iff: "p \<in> set (reachable_packages g changes) \<longleftrightarrow> could_break g changes p"
proof -
  have "p \<in> set (case map_of (ig_files g) (clean (cg_path ch)) of None \<Rightarrow> [] | Some q \<Rightarrow> with_importers g q)
      \<longleftrightarrow> (case map_of (ig_files g) (clean (cg_path ch)) of None \<Rightarrow> False | Some q \<Rightarrow> (q, p) \<in> (imported_by g)\<^sup>*)" for ch :: change_t
    by (simp add: set_with_importers split: option.split)
  then show ?thesis by (simp only: reachable_packages_def could_break_def mem_concat_map)
qed

lemma unattributed_names_nothing:
  "\<not> attributable r (Some g) changes \<Longrightarrow> (f, p) \<in> set (ig_files g) \<Longrightarrow> could_break g changes p \<Longrightarrow> \<not> names_in r f"
  by (fastforce simp: attributable_def names_in_def names_reachable_file_def Let_def list_ex_iff
      reachable_packages_iff [symmetric] split: if_splits)

lemma relative_to_misses:
  "map cg_path (relative_to ''/r'' [\<lparr>cg_path = ''/r/..dots/a.go'', cg_writer = [], cg_ranges = [], cg_added = 1, cg_removed = 0\<rparr>])
     = [''/r/..dots/a.go'']"
  by code_simp

end
