(* ===== verification/GateLint.thy ===== *)
theory GateLint
  imports Verifier
begin

text \<open>
  Model of \<open>internal/gate/lint.go\<close>, with \<open>containedPath\<close> and \<open>presentGoFiles\<close> of \<open>format.go\<close>: the
  linter's findings on a run's files, and the baseline which tells what a run inherited from what it
  caused. The linter and the file system are parameters.
\<close>

section \<open>The files of a change\<close>

text \<open>The repository's root is an absolute path here, as \<open>filepath.Abs\<close> leaves one.\<close>

definition contained_path :: "string \<Rightarrow> string \<Rightarrow> string + string" where
  "contained_path repo f =
     (let p = clean (if is_abs f then f else path_join repo f) in
      if p \<noteq> repo \<and> \<not> has_prefix p (repo @ ''/'')
      then Inl (''path escapes the repository root: '' @ f) else Inr p)"

fun present_files :: "(string \<Rightarrow> bool) \<Rightarrow> string \<Rightarrow> string list \<Rightarrow> string + string list" where
  "present_files there repo [] = Inr []"
| "present_files there repo (f # fs) =
     (case contained_path repo f of
        Inl e \<Rightarrow> Inl e
      | Inr p \<Rightarrow> (case present_files there repo fs of
                   Inl e \<Rightarrow> Inl e
                 | Inr rest \<Rightarrow> Inr (if there p then f # rest else rest)))"

definition present_go_files :: "(string \<Rightarrow> bool) \<Rightarrow> string \<Rightarrow> change_t list \<Rightarrow> string + string list" where
  "present_go_files there repo changes = present_files there repo (go_files changes)"

definition packages_of :: "string list \<Rightarrow> string list" where
  "packages_of files = dedup [] (map (\<lambda>f. ''./'' @ path_dir f) files)"

definition lint_args :: "string list" where
  "lint_args = [''run'', ''--allow-serial-runners'', ''--max-issues-per-linter=0'', ''--max-same-issues=0'']"

definition lint_env :: "string \<Rightarrow> string" where
  "lint_env repo = ''GOLANGCI_LINT_CACHE='' @ path_join repo ''.wavez/cache/golangci-lint''"

section \<open>Findings\<close>

text \<open>\<open>findingLine\<close>, \<open>^(.+?):\d+:\d+: \<close>: the path is the shortest that a line, a column and a space follow.\<close>

definition after_number :: "string \<Rightarrow> string option" where
  "after_number s =
     (case s of [] \<Rightarrow> None
      | c # r \<Rightarrow> if c = CHR '':'' \<and> takeWhile digit_char r \<noteq> [] then Some (dropWhile digit_char r) else None)"

definition location_follows :: "string \<Rightarrow> bool" where
  "location_follows s =
     (case after_number s of
        None \<Rightarrow> False
      | Some r \<Rightarrow> (case after_number r of None \<Rightarrow> False | Some r' \<Rightarrow> has_prefix r' '': ''))"

definition finding_path :: "string \<Rightarrow> string option" where
  "finding_path l =
     map_option (\<lambda>k. take k l) (List.find (\<lambda>k. location_follows (drop k l)) [1..<length l])"

definition names_changed_file :: "string list \<Rightarrow> string \<Rightarrow> bool" where
  "names_changed_file changed l =
     (case finding_path (trim_space l) of
        None \<Rightarrow> False
      | Some p \<Rightarrow> list_ex (\<lambda>c. clean p = c \<or> has_suffix (clean p) (''/'' @ c)) changed)"

definition is_finding :: "string \<Rightarrow> bool" where
  "is_finding l \<longleftrightarrow> finding_path (trim_space l) \<noteq> None"

definition typecheck_suffix :: string where
  "typecheck_suffix = ''(typecheck)''"

definition typechecks :: "string list \<Rightarrow> bool" where
  "typechecks ls = (\<not> list_ex (\<lambda>l. has_suffix (trim_space l) typecheck_suffix) ls)"

section \<open>The baseline of a run\<close>

record lint_state =
  ls_run :: string
  ls_baseline :: "string list"

definition has_baseline :: "lint_state \<Rightarrow> string \<Rightarrow> bool" where
  "has_baseline st rid \<longleftrightarrow> ls_run st = rid"

definition in_baseline :: "lint_state \<Rightarrow> string \<Rightarrow> string \<Rightarrow> bool" where
  "in_baseline st rid l \<longleftrightarrow> ls_run st = rid \<and> trim_space l \<in> set (ls_baseline st)"

definition record_baseline :: "string \<Rightarrow> string list \<Rightarrow> lint_state \<Rightarrow> lint_state" where
  "record_baseline rid findings st =
     (let st = (if ls_run st \<noteq> rid then st\<lparr>ls_run := rid, ls_baseline := []\<rparr> else st)
      in st\<lparr>ls_baseline := ls_baseline st @ dedup (ls_baseline st) (map trim_space findings)\<rparr>)"

section \<open>The gate\<close>

definition max_lint_findings :: nat where
  "max_lint_findings = 10"

definition lint_name :: string where
  "lint_name = ''lint''"

definition bounded :: "string list \<Rightarrow> trimmed_failure list" where
  "bounded findings =
     (if findings = [] then []
      else [\<lparr>tf_test = lint_name, tf_package = [], tf_writer = [],
             tf_frames = (if max_lint_findings < length findings
                          then take max_lint_findings findings
                            @ [''('' @ show_nat (length findings - max_lint_findings) @ '' more not shown)'']
                          else findings),
             tf_context = []\<rparr>])"

definition head_of :: "string list \<Rightarrow> string list" where
  "head_of ls = take 5 ls"

text \<open>The findings of the run's files, of its neighbours that it inherits, and of its neighbours that are new.\<close>

definition own_findings :: "string list \<Rightarrow> string list \<Rightarrow> string list" where
  "own_findings changed ls = map trim_space (filter (names_changed_file changed) ls)"

definition exempt :: "lint_state \<Rightarrow> string \<Rightarrow> string \<Rightarrow> bool" where
  "exempt st rid l \<longleftrightarrow> rid = [] \<or> \<not> has_baseline st rid \<or> in_baseline st rid l"

definition neighbours :: "string list \<Rightarrow> string list \<Rightarrow> string list" where
  "neighbours changed ls = filter (\<lambda>l. \<not> names_changed_file changed l \<and> is_finding l) ls"

definition inherited_findings :: "lint_state \<Rightarrow> string \<Rightarrow> string list \<Rightarrow> string list \<Rightarrow> string list" where
  "inherited_findings st rid changed ls = map trim_space (filter (exempt st rid) (neighbours changed ls))"

definition fresh_findings :: "lint_state \<Rightarrow> string \<Rightarrow> string list \<Rightarrow> string list \<Rightarrow> string list" where
  "fresh_findings st rid changed ls = map trim_space (filter (\<lambda>l. \<not> exempt st rid l) (neighbours changed ls))"

type_synonym lint_reading = "trimmed_failure list \<times> trimmed_failure list \<times> bool"

definition lint_failures :: "string \<Rightarrow> change_t list \<Rightarrow> string \<Rightarrow> lint_state \<Rightarrow> lint_reading \<times> lint_state" where
  "lint_failures out changes rid st =
     (let changed = map cg_path changes; ls = split_byte nl (trim_right out [nl]);
          mine = own_findings changed ls;
          inherited = inherited_findings st rid changed ls;
          fresh = fresh_findings st rid changed ls
      in if \<not> typechecks ls then (([], [], False), st)
         else if mine = [] \<and> inherited = [] \<and> fresh = []
         then (([\<lparr>tf_test = lint_name, tf_package = [], tf_writer = [], tf_frames = [], tf_context = head_of ls\<rparr>], [], False), st)
         else ((bounded (mine @ fresh), bounded inherited, True),
               if rid \<noteq> [] then record_baseline rid (mine @ fresh @ inherited) st else st))"

text \<open>What running the linter over packages comes to: no findings, an exit status with its output, or an error.\<close>

datatype lint_run = LintClean | LintExit string | LintBroken string

definition other_writer :: string where
  "other_writer = ''another writer''"

definition lint_gate ::
  "(string \<Rightarrow> bool) \<Rightarrow> bool \<Rightarrow> (string list \<Rightarrow> lint_run) \<Rightarrow> string \<Rightarrow> gate_context \<Rightarrow> lint_state
     \<Rightarrow> (string + gate_result) \<times> lint_state" where
  "lint_gate there installed linter repo rc st =
     (let lvl = se_level (gc_selection rc); rid = gc_run_id rc in
      case present_go_files there repo (gc_changes rc) of
        Inl e \<Rightarrow> (Inl e, st)
      | Inr files \<Rightarrow>
          if files = [] then (Inr (abstained lint_name lvl ''the change set holds no Go files''), st)
          else if \<not> installed then (Inr (abstained lint_name lvl ''golangci-lint is not installed''), st)
          else (case linter (lint_args @ packages_of files) of
                  LintBroken e \<Rightarrow> (Inl (''golangci-lint run: '' @ e), st)
                | LintClean \<Rightarrow>
                    (Inr \<lparr>gr_gate = lint_name, gr_level = lvl, gr_reason = [], gr_failures = [], gr_advisories = [],
                          gr_rewrote = [], gr_examined = int (length files), gr_pass = True\<rparr>,
                     if rid \<noteq> [] then record_baseline rid [] st else st)
                | LintExit out \<Rightarrow>
                    let ((failures, advisories, saw), st) = lint_failures out (gc_changes rc) rid st in
                    if \<not> saw \<and> failures = []
                    then (Inr (abstained lint_name lvl ''the change does not compile, which the build gate reports''), st)
                    else (Inr \<lparr>gr_gate = lint_name, gr_level = lvl, gr_reason = [], gr_failures = failures,
                               gr_advisories = map (\<lambda>a. a\<lparr>tf_writer := other_writer\<rparr>) advisories, gr_rewrote = [],
                               gr_examined = int (length files), gr_pass = (failures = [])\<rparr>, st)))"

section \<open>What fails a run\<close>

lemma bounded_empty [simp]: "bounded fs = [] \<longleftrightarrow> fs = []"
  by (simp add: bounded_def)

lemma record_baseline_run: "ls_run (record_baseline rid fs st) = rid"
  by (simp add: record_baseline_def Let_def)

lemma record_baseline_set:
  "set (ls_baseline (record_baseline rid fs st)) = (if ls_run st = rid then set (ls_baseline st) else {}) \<union> trim_space ` set fs"
  by (auto simp: record_baseline_def Let_def set_dedup)

text \<open>
  A run's first lint never fails over a file it did not change: with no run, or before a baseline, every
  finding of a neighbour is inherited, and a finding in a changed file always fails.
\<close>

lemma first_lint_own_only:
  assumes "rid = [] \<or> ls_run st \<noteq> rid"
  shows "fresh_findings st rid changed ls = []"
    and "inherited_findings st rid changed ls = map trim_space (neighbours changed ls)"
  using assms by (auto simp: fresh_findings_def inherited_findings_def exempt_def has_baseline_def filter_empty_conv
      intro!: filter_True)

text \<open>Once a lint has been recorded its findings are in the baseline, those that failed it with the rest.\<close>

lemma recorded_is_exempt:
  assumes "l \<in> set (neighbours changed ls)"
    and "st' = record_baseline rid (own_findings changed ls @ fresh_findings st rid changed ls @ inherited_findings st rid changed ls) st"
  shows "exempt st' rid l"
proof -
  have "trim_space l \<in> set (fresh_findings st rid changed ls) \<union> set (inherited_findings st rid changed ls)"
    using assms(1) by (auto simp: fresh_findings_def inherited_findings_def)
  then have "trim_space (trim_space l) \<in> set (ls_baseline st')"
    unfolding assms(2) record_baseline_set set_append by blast
  then show ?thesis by (simp add: exempt_def in_baseline_def assms(2) record_baseline_run)
qed

section \<open>A finding that fails once\<close>

text \<open>The lines that open with the path of a file nobody changed, in a run that changed \<open>a.go\<close>.\<close>

definition demo_lint :: "string list \<Rightarrow> string \<Rightarrow> lint_state \<Rightarrow> (string + gate_result) \<times> lint_state" where
  "demo_lint ls rid st =
     lint_gate (\<lambda>_. True) True (\<lambda>_. if ls = [] then LintClean else LintExit (join_with [nl] ls)) ''/r''
       \<lparr>gc_repo = ''/r'', gc_run_id = rid, gc_selection = \<lparr>se_level = LevelPackage, se_tests = [], se_packages = []\<rparr>,
        gc_changes = [\<lparr>cg_path = ''p/a.go'', cg_writer = ''t'', cg_ranges = [], cg_added = 1, cg_removed = 0\<rparr>]\<rparr> st"

fun demo_lints :: "(string list \<times> string) list \<Rightarrow> lint_state \<Rightarrow> bool list" where
  "demo_lints [] st = []"
| "demo_lints ((ls, rid) # rest) st =
     (let (r, st') = demo_lint ls rid st
      in (case r of Inl e \<Rightarrow> False | Inr g \<Rightarrow> gr_pass g) # demo_lints rest st')"

definition no_baseline :: lint_state where
  "no_baseline = \<lparr>ls_run = [], ls_baseline = []\<rparr>"

lemma repeated_reading:
  assumes "rid \<noteq> []" "typechecks (split_byte nl (trim_right out [nl]))"
    and "lint_failures out changes rid st = ((f1, a1, True), st')"
  shows "fresh_findings st' rid (map cg_path changes) (split_byte nl (trim_right out [nl])) = []"
proof -
  let ?ls = "split_byte nl (trim_right out [nl])" and ?ch = "map cg_path changes"
  have "st' = record_baseline rid (own_findings ?ch ?ls @ fresh_findings st rid ?ch ?ls @ inherited_findings st rid ?ch ?ls) st"
    using assms by (auto simp: lint_failures_def Let_def split: if_splits)
  with recorded_is_exempt show ?thesis by (auto simp: fresh_findings_def filter_empty_conv)
qed

text \<open>
  The baseline takes in what every lint of the run saw, not the first alone. So a finding that a run
  causes in a file it did not change fails the gate once, and the same finding passes from the next lint
  on, with nothing repaired: the gate's answers are pass, fail, pass.
\<close>

theorem lint_forgets_failures:
  "(case lint_failures out changes rid st of
      ((f1, a1, saw), st') \<Rightarrow>
        if rid = [] \<or> \<not> saw then True
        else fst (fst (lint_failures out changes rid st'))
             = bounded (own_findings (map cg_path changes) (split_byte nl (trim_right out [nl]))))
   \<and> demo_lints [([], ''run-1''), ([''p/b.go:3:1: unused (deadcode)''], ''run-1''), ([''p/b.go:3:1: unused (deadcode)''], ''run-1'')]
       no_baseline = [True, False, True]"
proof
  let ?ls = "split_byte nl (trim_right out [nl])" and ?ch = "map cg_path changes"
  obtain f1 a1 saw st' where r: "lint_failures out changes rid st = ((f1, a1, saw), st')"
    by (metis prod.exhaust)
  have "fst (fst (lint_failures out changes rid st')) = bounded (own_findings ?ch ?ls)" if "rid \<noteq> []" "saw"
  proof -
    have t: "typechecks ?ls" and some: "own_findings ?ch ?ls \<noteq> [] \<or> neighbours ?ch ?ls \<noteq> []"
      using r that by (auto simp: lint_failures_def Let_def inherited_findings_def fresh_findings_def split: if_splits)
    from repeated_reading [OF that(1) t] r that(2) have "fresh_findings st' rid ?ch ?ls = []" by simp
    moreover from this some have "own_findings ?ch ?ls \<noteq> [] \<or> inherited_findings st' rid ?ch ?ls \<noteq> []"
      by (auto simp: fresh_findings_def inherited_findings_def filter_empty_conv)
    ultimately show ?thesis using t by (auto simp: lint_failures_def Let_def)
  qed
  then show "case lint_failures out changes rid st of
      ((f1, a1, saw), st') \<Rightarrow>
        if rid = [] \<or> \<not> saw then True
        else fst (fst (lint_failures out changes rid st')) = bounded (own_findings ?ch ?ls)"
    by (simp add: r)
  show "demo_lints [([], ''run-1''), ([''p/b.go:3:1: unused (deadcode)''], ''run-1''), ([''p/b.go:3:1: unused (deadcode)''], ''run-1'')]
       no_baseline = [True, False, True]" by code_simp
qed

text \<open>
  The gate keeps the baseline of one run: another writer's lint in between drops it, and what the first
  run has caused since counts as what it started with.
\<close>

lemma other_writer_resets_baseline:
  "demo_lints [([], ''run-1''), ([], ''run-2''), ([''p/b.go:3:1: unused (deadcode)''], ''run-1'')] no_baseline
     = [True, True, True]"
  by code_simp

text \<open>An absolute path is prefixed like a relative one, into a directory that is not there.\<close>

lemma packages_of_absolute: "packages_of [''/r/p/a.go''] = [''.//r/p'']"
  by code_simp

end
