(* ===== verification/GateLocks.thy ===== *)
theory GateLocks
  imports Verifier Drain
begin

text \<open>
  Model of \<open>internal/gate/scheduler.go\<close>: the locks of a process, one for each resource key, and the gates
  of a batch, those which rewrite the worktree before those which read it. A goroutine is a job that
  takes its sorted keys one by one, works, and gives them back; the jobs of all batches and of background
  work share the locks.
\<close>

section \<open>Jobs\<close>

text \<open>The waves of a batch, and work that belongs to none.\<close>

datatype wave = Outside | Writing | Reading

record job =
  jb_wave :: wave
  jb_shared :: bool
  jb_todo :: "string list"
  jb_held :: "string list"
  jb_ran :: bool

definition new_job :: "wave \<Rightarrow> bool \<Rightarrow> string list \<Rightarrow> job" where
  "new_job wv shared keys = \<lparr>jb_wave = wv, jb_shared = shared, jb_todo = sort_strings keys, jb_held = [], jb_ran = False\<rparr>"

definition job_done :: "job \<Rightarrow> bool" where
  "job_done j \<longleftrightarrow> jb_ran j \<and> jb_held j = []"

text \<open>\<open>runWave\<close> starts the readers when every writer has returned.\<close>

definition started :: "job list \<Rightarrow> job \<Rightarrow> bool" where
  "started jobs j \<longleftrightarrow> jb_wave j \<noteq> Reading \<or> list_all (\<lambda>k. jb_wave k \<noteq> Writing \<or> job_done k) jobs"

text \<open>
  \<open>sync.RWMutex\<close>: \<open>Lock\<close> waits for every holder, \<open>RLock\<close> for an exclusive one and, since a waiting \<open>Lock\<close>
  keeps new readers out, for any started job that waits for the key exclusively.
\<close>

definition holds :: "string \<Rightarrow> job \<Rightarrow> bool" where
  "holds k j \<longleftrightarrow> k \<in> set (jb_held j)"

definition waits_exclusive :: "job list \<Rightarrow> string \<Rightarrow> job \<Rightarrow> bool" where
  "waits_exclusive jobs k j \<longleftrightarrow> started jobs j \<and> \<not> jb_shared j \<and> (case jb_todo j of [] \<Rightarrow> False | x # _ \<Rightarrow> x = k)"

definition lock_free :: "job list \<Rightarrow> bool \<Rightarrow> string \<Rightarrow> bool" where
  "lock_free jobs shared k \<longleftrightarrow>
     (if shared then list_all (\<lambda>j. \<not> (holds k j \<and> \<not> jb_shared j) \<and> \<not> waits_exclusive jobs k j) jobs
      else list_all (\<lambda>j. \<not> holds k j) jobs)"

section \<open>Steps\<close>

definition take_key :: "job \<Rightarrow> job" where
  "take_key j = j\<lparr>jb_held := jb_held j @ take 1 (jb_todo j), jb_todo := drop 1 (jb_todo j)\<rparr>"

text \<open>\<open>next_job jobs j\<close>: what job \<open>j\<close> does next, \<open>None\<close> while it waits or when it has returned.\<close>

definition next_job :: "job list \<Rightarrow> job \<Rightarrow> job option" where
  "next_job jobs j =
     (if \<not> started jobs j then None
      else case jb_todo j of
             k # _ \<Rightarrow> if lock_free jobs (jb_shared j) k then Some (take_key j) else None
           | [] \<Rightarrow> if \<not> jb_ran j then Some (j\<lparr>jb_ran := True\<rparr>)
                   else if jb_held j \<noteq> [] then Some (j\<lparr>jb_held := butlast (jb_held j)\<rparr>)
                   else None)"

inductive sched_step :: "job list \<Rightarrow> job list \<Rightarrow> bool" where
  step: "i < length jobs \<Longrightarrow> next_job jobs (jobs ! i) = Some j \<Longrightarrow> sched_step jobs (jobs[i := j])"

inductive_cases sched_stepE: "sched_step jobs jobs'"

section \<open>The gates of a batch\<close>

definition worktree_resource :: string where
  "worktree_resource = ''worktree''"

definition partition_by_worktree :: "'w gate list \<Rightarrow> nat list \<times> nat list" where
  "partition_by_worktree gates =
     (let writes = (\<lambda>i. worktree_resource \<in> set (ga_resources (gates ! i))) in
      (filter writes [0..<length gates], filter (\<lambda>i. \<not> writes i) [0..<length gates]))"

definition gate_job :: "'w gate \<Rightarrow> job" where
  "gate_job g =
     new_job (if worktree_resource \<in> set (ga_resources g) then Writing else Reading) False (ga_resources g)"

definition run_one :: "('w \<Rightarrow> int \<times> 'w) \<Rightarrow> 'w gate \<Rightarrow> gate_context \<Rightarrow> 'w \<Rightarrow> (int \<times> int \<times> gate_result) \<times> 'w" where
  "run_one clock g rc w =
     (let (start, w) = clock w; (ran_to, w) = ga_run g rc w; (stop, w) = clock w;
          r = (case ran_to of
                 Inr r \<Rightarrow> r
               | Inl _ \<Rightarrow> \<lparr>gr_gate = ga_name g, gr_level = se_level (gc_selection rc), gr_reason = [], gr_failures = [],
                            gr_advisories = [], gr_rewrote = [], gr_examined = 0, gr_pass = False\<rparr>)
      in ((start, stop - start, r), w))"

text \<open>\<open>RunGates\<close> in the order \<open>turns\<close> in which its gates come to run; each writes its own place.\<close>

definition run_gates ::
  "('w \<Rightarrow> int \<times> 'w) \<Rightarrow> 'w gate list \<Rightarrow> gate_context \<Rightarrow> nat list \<Rightarrow> 'w \<Rightarrow> (int \<times> int \<times> gate_result) option list \<times> 'w" where
  "run_gates clock gates rc turns w =
     fold (\<lambda>i (results, w). let (r, w) = run_one clock (gates ! i) rc w in (results[i := Some r], w))
       turns (replicate (length gates) None, w)"

section \<open>Sound states\<close>

definition job_ok :: "job \<Rightarrow> bool" where
  "job_ok j \<longleftrightarrow>
     sorted_wrt (<) (jb_held j @ jb_todo j) \<and> (jb_ran j \<longrightarrow> jb_todo j = [])"

definition excludes :: "job \<Rightarrow> job \<Rightarrow> bool" where
  "excludes a b \<longleftrightarrow> \<not> (\<exists>k. holds k a \<and> holds k b \<and> \<not> (jb_shared a \<and> jb_shared b))"

text \<open>No reader of a batch has begun while one of its writers has still to return.\<close>

definition untouched :: "job \<Rightarrow> bool" where
  "untouched j \<longleftrightarrow> jb_held j = [] \<and> \<not> jb_ran j"

definition sched_ok :: "job list \<Rightarrow> bool" where
  "sched_ok jobs \<longleftrightarrow>
     (\<forall>j\<in>set jobs. job_ok j)
     \<and> (\<forall>a < length jobs. \<forall>b < length jobs. a \<noteq> b \<longrightarrow> excludes (jobs ! a) (jobs ! b))
     \<and> (\<forall>j\<in>set jobs. started jobs j \<or> untouched j)"

definition job_left :: "job \<Rightarrow> nat" where
  "job_left j = 2 * length (jb_todo j) + length (jb_held j) + (if jb_ran j then 0 else 1)"

definition sched_left :: "job list \<Rightarrow> nat" where
  "sched_left jobs = sum_list (map job_left jobs)"

definition all_done :: "job list \<Rightarrow> bool" where
  "all_done jobs \<longleftrightarrow> list_all job_done jobs"

lemma next_job_left: "next_job jobs j = Some j' \<Longrightarrow> job_left j' < job_left j"
  by (auto simp: next_job_def job_left_def take_key_def split: if_splits list.splits)

lemma next_job_ok: "job_ok j \<Longrightarrow> next_job jobs j = Some j' \<Longrightarrow> job_ok j'"
  by (auto simp: next_job_def job_ok_def take_key_def sorted_wrt_append butlast_conv_take
      split: if_splits list.splits intro: sorted_wrt_take dest: in_set_takeD)

lemma next_job_same: "next_job jobs j = Some j' \<Longrightarrow> jb_wave j' = jb_wave j \<and> jb_shared j' = jb_shared j"
  by (auto simp: next_job_def take_key_def split: if_splits list.splits)

lemma next_job_holds:
  "next_job jobs j = Some j' \<Longrightarrow> holds k j' \<Longrightarrow> holds k j \<or> (lock_free jobs (jb_shared j) k)"
  by (auto simp: next_job_def take_key_def holds_def split: if_splits list.splits dest: in_set_butlastD)

lemma next_job_started: "next_job jobs j = Some j' \<Longrightarrow> started jobs j"
  by (simp add: next_job_def split: if_splits)

lemma next_job_done: "job_done j \<Longrightarrow> job_ok j \<Longrightarrow> next_job jobs j = None"
  by (auto simp: next_job_def job_done_def job_ok_def)

lemma sum_list_update_less: "i < length ns \<Longrightarrow> n < ns ! i \<Longrightarrow> sum_list (ns[i := n]) < sum_list (ns :: nat list)"
proof (induction ns arbitrary: i)
  case (Cons a ns)
  then show ?case by (cases i) auto
qed simp

lemma sched_step_left: "sched_step jobs jobs' \<Longrightarrow> sched_left jobs' < sched_left jobs"
  by (auto simp: sched_left_def map_update elim!: sched_stepE intro!: sum_list_update_less next_job_left)

lemma started_step:
  assumes "i < length jobs" "next_job jobs (jobs ! i) = Some j" "job_ok (jobs ! i)" "started jobs k"
  shows "started (jobs[i := j]) k"
proof -
  have "jb_wave j \<noteq> Writing" if "list_all (\<lambda>k. jb_wave k \<noteq> Writing \<or> job_done k) jobs"
  proof
    assume "jb_wave j = Writing"
    with next_job_same [OF assms(2)] that assms(1) have "job_done (jobs ! i)" by (auto simp: list_all_length)
    with assms(2,3) show False by (simp add: next_job_done)
  qed
  with assms(1,4) show ?thesis by (auto simp: started_def list_all_length nth_list_update)
qed

lemma lock_free_excludes:
  assumes "lock_free jobs (jb_shared j) k" "b < length jobs" "holds k (jobs ! b)"
  shows "jb_shared j \<and> jb_shared (jobs ! b)"
  using assms by (auto simp: lock_free_def list_all_length split: if_splits)

lemma sched_ok_step:
  assumes ok: "sched_ok jobs" and s: "sched_step jobs jobs'"
  shows "sched_ok jobs'"
proof -
  from s obtain i j where i: "i < length jobs" "next_job jobs (jobs ! i) = Some j" and e: "jobs' = jobs[i := j]"
    by (rule sched_stepE)
  from ok i have oki: "job_ok (jobs ! i)" by (simp add: sched_ok_def)
  have new: "excludes j (jobs ! b)" if b: "b < length jobs" "b \<noteq> i" for b
  proof -
    have "jb_shared j \<and> jb_shared (jobs ! b)" if h: "holds k j" "holds k (jobs ! b)" for k
      using next_job_holds [OF i(2) h(1)]
    proof
      assume "holds k (jobs ! i)"
      with ok i(1) b h(2) next_job_same [OF i(2)] show ?thesis unfolding sched_ok_def excludes_def by metis
    next
      assume "lock_free jobs (jb_shared (jobs ! i)) k"
      from lock_free_excludes [OF this b(1) h(2)] next_job_same [OF i(2)] show ?thesis by simp
    qed
    then show ?thesis by (auto simp: excludes_def)
  qed
  have sym: "excludes a b \<Longrightarrow> excludes b a" for a b by (auto simp: excludes_def)
  have "excludes (jobs' ! a) (jobs' ! b)" if "a < length jobs'" "b < length jobs'" "a \<noteq> b" for a b
    using that ok i new sym by (cases "a = i"; cases "b = i") (auto simp: e sched_ok_def)
  moreover have "job_ok k" if "k \<in> set jobs'" for k
    using that ok next_job_ok [OF oki i(2)] set_update_subset_insert [of jobs i j] by (auto simp: e sched_ok_def)
  moreover have "started jobs' k \<or> untouched k" if "k \<in> set jobs'" for k
  proof (cases "k \<in> set jobs")
    case True
    with ok have "started jobs k \<or> untouched k" by (simp add: sched_ok_def)
    with started_step [OF i oki] show ?thesis by (auto simp: e)
  next
    case False
    with that set_update_subset_insert [of jobs i j] have "k = j" by (auto simp: e)
    moreover have "started jobs j" using next_job_started [OF i(2)] next_job_same [OF i(2)] by (simp add: started_def)
    ultimately show ?thesis using started_step [OF i oki] by (simp add: e)
  qed
  ultimately show ?thesis unfolding sched_ok_def by blast
qed

section \<open>No deadlock\<close>

text \<open>Of the waiting jobs the one that waits for the greatest key is not kept from it.\<close>

definition head_key :: "job \<Rightarrow> string" where
  "head_key j = (case jb_todo j of [] \<Rightarrow> [] | k # _ \<Rightarrow> k)"

lemma holder_waits_higher:
  assumes "job_ok j" "holds k j" "jb_todo j \<noteq> []"
  shows "k < head_key j"
  using assms by (cases "jb_todo j") (auto simp: job_ok_def holds_def head_key_def sorted_wrt_append)

lemma sched_progress:
  assumes ok: "sched_ok jobs" and nd: "\<not> all_done jobs"
  shows "\<exists>jobs'. sched_step jobs jobs'"
proof -
  let ?live = "filter (\<lambda>j. started jobs j \<and> \<not> job_done j) jobs"
  have live: "?live \<noteq> []"
  proof
    assume none: "?live = []"
    from nd obtain j where j: "j \<in> set jobs" "\<not> job_done j" by (auto simp: all_done_def list_all_iff)
    with none have "\<not> started jobs j" by (auto simp: filter_empty_conv)
    then obtain k where "k \<in> set jobs" "jb_wave k = Writing" "\<not> job_done k" by (auto simp: started_def list_all_iff)
    with none show False by (auto simp: filter_empty_conv started_def)
  qed
  have step: "\<exists>jobs'. sched_step jobs jobs'" if "j \<in> set jobs" "next_job jobs j \<noteq> None" for j
    using that by (auto simp: in_set_conv_nth intro: sched_step.intros)
  show ?thesis
  proof (cases "\<exists>j \<in> set ?live. jb_todo j = []")
    case True
    then obtain j where "j \<in> set jobs" "started jobs j" "\<not> job_done j" "jb_todo j = []" by auto
    then show ?thesis by (intro step [of j]) (auto simp: next_job_def job_done_def)
  next
    case False
    define m where "m = Max (head_key ` set ?live)"
    have "m \<in> head_key ` set ?live" unfolding m_def using live by (intro Max_in) (auto simp: filter_empty_conv)
    then obtain j where j: "j \<in> set ?live" "head_key j = m" by auto
    have top: "head_key i \<le> m" if "i \<in> set ?live" for i unfolding m_def using that by (intro Max_ge) auto
    have unheld: "\<not> holds m i" if i: "i \<in> set jobs" for i
    proof
      assume h: "holds m i"
      with ok i have "started jobs i" "\<not> job_done i" by (auto simp: sched_ok_def untouched_def holds_def job_done_def)
      with i have live: "i \<in> set ?live" by simp
      with False have "jb_todo i \<noteq> []" by blast
      with holder_waits_higher [OF _ h] ok i have "m < head_key i" by (auto simp: sched_ok_def)
      with top [OF live] show False by simp
    qed
    have go: "next_job jobs i \<noteq> None" if i: "i \<in> set ?live" "head_key i = m" "lock_free jobs (jb_shared i) m" for i
    proof -
      from i(1) False obtain ks where "jb_todo i = m # ks" using i(2) by (cases "jb_todo i") (auto simp: head_key_def)
      with i show ?thesis by (simp add: next_job_def)
    qed
    have free: "lock_free jobs False m" using unheld by (simp add: lock_free_def list_all_iff)
    show ?thesis
    proof (cases "\<exists>i \<in> set jobs. waits_exclusive jobs m i")
      case True
      then obtain i where i: "i \<in> set jobs" "waits_exclusive jobs m i" by blast
      then have "i \<in> set ?live" "head_key i = m" "\<not> jb_shared i"
        using ok by (auto simp: waits_exclusive_def head_key_def job_done_def sched_ok_def job_ok_def split: list.splits)
      with go [of i] free i(1) show ?thesis by (intro step [of i]) auto
    next
      case no_writer: False
      with unheld have "lock_free jobs True m" by (auto simp: lock_free_def list_all_iff)
      with free have "lock_free jobs (jb_shared j) m" by (cases "jb_shared j") auto
      with go [of j] j show ?thesis by (intro step [of j]) auto
    qed
  qed
qed

interpretation sched: draining sched_step sched_ok sched_left all_done
  by unfold_locales (auto intro: sched_ok_step sched_step_left sched_progress)

section \<open>What the locks promise\<close>

text \<open>A job as it is asked for: its wave, how it takes its keys, the keys.\<close>

type_synonym job_spec = "wave \<times> bool \<times> string list"

definition job_of :: "job_spec \<Rightarrow> job" where
  "job_of sp = (case sp of (wv, shared, keys) \<Rightarrow> new_job wv shared keys)"

definition no_repeats :: "job_spec \<Rightarrow> bool" where
  "no_repeats sp = (case sp of (wv, shared, keys) \<Rightarrow> distinct keys)"

definition sched_init :: "job_spec list \<Rightarrow> job list" where
  "sched_init specs = map job_of specs"

lemma sorted_strict: "distinct keys \<Longrightarrow> sorted_wrt (<) (sort_strings keys)"
  by (simp add: sort_strings_def strict_sorted_iff)

lemma sched_init_ok: "list_all no_repeats specs \<Longrightarrow> sched_ok (sched_init specs)"
  by (auto simp: sched_ok_def sched_init_def job_of_def new_job_def job_ok_def excludes_def holds_def untouched_def
      list_all_iff no_repeats_def sorted_strict nth_map split: prod.splits)



text \<open>The gates of this repository: the formatter writes, the tests and the linter share a key; coverage runs behind them.\<close>

definition demo_specs :: "job_spec list" where
  "demo_specs = [(Writing, False, [''worktree'']), (Reading, False, [''go-test'']), (Reading, False, []), (Outside, True, [''go-test''])]"


definition demo_jobs :: "job list" where
  "demo_jobs = (sched_init demo_specs)[3 := take_key (sched_init demo_specs ! 3)]"

lemma demo_step: "sched_step (sched_init demo_specs) demo_jobs"
  unfolding demo_jobs_def by (rule sched_step.step) code_simp+


text \<open>A key asked for twice is waited for by the job that holds it.\<close>

lemma repeated_key_blocks:
  "sched_step [new_job Outside False [k, k]] [take_key (new_job Outside False [k, k])]
   \<and> \<not> (\<exists>jobs. sched_step [take_key (new_job Outside False [k, k])] jobs)"
proof
  have k: "sort_strings [k, k] = [k, k]" by (simp add: sort_strings_def)
  show "sched_step [new_job Outside False [k, k]] [take_key (new_job Outside False [k, k])]"
    using sched_step.step [of 0 "[new_job Outside False [k, k]]" "take_key (new_job Outside False [k, k])"]
    by (simp add: next_job_def new_job_def k started_def lock_free_def holds_def)
  show "\<not> (\<exists>jobs. sched_step [take_key (new_job Outside False [k, k])] jobs)"
    by (auto simp: next_job_def new_job_def take_key_def k started_def lock_free_def holds_def elim!: sched_stepE)
qed

section \<open>The place of a result\<close>

definition one_result :: "('w \<Rightarrow> int \<times> 'w) \<Rightarrow> gate_context \<Rightarrow> 'w gate \<Rightarrow> (int \<times> int \<times> gate_result) option \<Rightarrow> bool" where
  "one_result clock rc g r \<longleftrightarrow> (\<exists>w. r = Some (fst (run_one clock g rc w)))"

lemma fold_places:
  assumes "fold (\<lambda>i (results, w). let (r, w) = run_one clock (gates ! i) rc w in (results[i := Some r], w)) turns (rs, w)
      = (rs', w')"
    and "i < length rs" "i \<in> set turns \<or> one_result clock rc (gates ! i) (rs ! i)"
  shows "length rs' = length rs \<and> one_result clock rc (gates ! i) (rs' ! i)"
  using assms
proof (induction turns arbitrary: rs w)
  case (Cons t turns)
  obtain r w1 where r: "run_one clock (gates ! t) rc w = (r, w1)" by (cases "run_one clock (gates ! t) rc w")
  then have "one_result clock rc (gates ! t) (Some r)" by (auto simp: one_result_def intro!: exI [of _ w])
  with Cons.prems r have "i \<in> set turns \<or> one_result clock rc (gates ! i) (rs[t := Some r] ! i)"
    by (cases "i = t") auto
  with Cons.IH [of "rs[t := Some r]" w1] Cons.prems r show ?case by simp
qed simp

text \<open>Each gate's result is in its place, in whichever order the gates come to run.\<close>

lemma run_gates_places:
  assumes "run_gates clock gates rc turns w = (results, w')" "i < length gates" "i \<in> set turns"
  shows "one_result clock rc (gates ! i) (results ! i)"
  using fold_places [OF assms(1) [unfolded run_gates_def], of i] assms(2,3) by simp

end
