(* ===== verification/Glob.thy ===== *)
theory Glob
  imports GoPath
begin

text \<open>
  Model of \<open>internal/glob/glob.go\<close>: the patterns a configuration names paths with. A pattern without \<open>**\<close>
  is read by \<open>path.Match\<close>; one with it becomes a regular expression, modelled as the tokens its
  translation writes and the matches they have. A string is a list of characters here.
\<close>

section \<open>The standard library's \<open>path.Match\<close>\<close>

definition get_esc :: "string \<Rightarrow> (char \<times> string) option" where
  "get_esc chunk =
     (case chunk of
        [] \<Rightarrow> None
      | c # r \<Rightarrow>
          if c = CHR ''-'' \<or> c = CHR '']'' then None
          else let cr = (if c = CHR 0x5C then r else c # r) in
               case cr of
                 x # y # z \<Rightarrow> Some (x, y # z)
               | _ \<Rightarrow> None)"

lemma get_esc_shorter: "get_esc chunk = Some (x, rest) \<Longrightarrow> length rest < length chunk"
  by (auto simp: get_esc_def Let_def split: list.splits if_splits)

text \<open>One range of a class: its ends and what follows.\<close>

definition class_range :: "string \<Rightarrow> (char \<times> char \<times> string) option" where
  "class_range chunk =
     (case get_esc chunk of
        None \<Rightarrow> None
      | Some (lo, rest) \<Rightarrow>
          if has_prefix rest ''-'' then map_option (\<lambda>(hi, rest'). (lo, hi, rest')) (get_esc (tl rest))
          else Some (lo, lo, rest))"

lemma class_range_shorter: "class_range chunk = Some (lo, hi, rest) \<Longrightarrow> length rest < length chunk"
  by (auto simp: class_range_def split: option.splits if_splits dest!: get_esc_shorter)

function class_ranges :: "char \<Rightarrow> bool \<Rightarrow> bool \<Rightarrow> string \<Rightarrow> (bool \<times> string) option" where
  "class_ranges x first found chunk =
     (if \<not> first \<and> has_prefix chunk '']'' then Some (found, tl chunk)
      else case class_range chunk of
             None \<Rightarrow> None
           | Some (lo, hi, rest) \<Rightarrow> class_ranges x False (found \<or> lo \<le> x \<and> x \<le> hi) rest)"
  by pat_completeness auto
termination
  by (relation "measure (\<lambda>(x, first, found, chunk). length chunk)") (auto dest: class_range_shorter)

declare class_ranges.simps [simp del]

lemma class_ranges_shorter: "class_ranges x first found chunk = Some (m, rest) \<Longrightarrow> length rest \<le> length chunk"
proof (induction x first found chunk rule: class_ranges.induct)
  case (1 x first found chunk)
  show ?case
  proof (cases "\<not> first \<and> has_prefix chunk '']''")
    case True
    with "1.prems" have "rest = tl chunk" by (subst (asm) class_ranges.simps) auto
    then show ?thesis by simp
  next
    case False
    with "1.prems" obtain lo hi r where r: "class_range chunk = Some (lo, hi, r)"
      "class_ranges x False (found \<or> lo \<le> x \<and> x \<le> hi) r = Some (m, rest)"
      by (subst (asm) class_ranges.simps) (auto split: option.splits)
    from "1.IH" [OF False r(1) refl refl r(2)] class_range_shorter [OF r(1)] show ?thesis by simp
  qed
qed

definition slash :: char where
  "slash = CHR ''/''"

function path_match :: "string \<Rightarrow> string \<Rightarrow> bool" where
  "path_match [] s = (s = [])"
| "path_match (c # p) s =
     (if c = CHR ''*'' then path_match p s \<or> (case s of [] \<Rightarrow> False | x # t \<Rightarrow> x \<noteq> slash \<and> path_match (c # p) t)
      else case s of
             [] \<Rightarrow> False
           | x # t \<Rightarrow>
               if c = CHR ''?'' then x \<noteq> slash \<and> path_match p t
               else if c = CHR ''['' then
                 (let negated = has_prefix p ''^'' in
                  case class_ranges x True False (if negated then tl p else p) of
                    None \<Rightarrow> False
                  | Some (found, q) \<Rightarrow> found \<noteq> negated \<and> path_match q t)
               else if c = CHR 0x5C then (case p of [] \<Rightarrow> False | y # q \<Rightarrow> x = y \<and> path_match q t)
               else x = c \<and> path_match p t)"
  by pat_completeness auto
termination
proof (relation "measure (\<lambda>(p, s). length p + length s)", goal_cases)
  case (5 c p s x t negated a found q)
  then have "length q \<le> length p" using class_ranges_shorter by (fastforce split: if_splits)
  with 5 show ?case by simp
qed auto

section \<open>The translation of \<open>**\<close> patterns\<close>

datatype gtok = Dirs | Rest | Star | Quest | Lit char

fun glob_tokens :: "string \<Rightarrow> gtok list" where
  "glob_tokens [] = []"
| "glob_tokens (c # p) =
     (if has_prefix (c # p) ''**/'' then Dirs # glob_tokens (drop 2 p)
      else if has_prefix (c # p) ''**'' then Rest # glob_tokens (drop 1 p)
      else (if c = CHR ''*'' then Star else if c = CHR ''?'' then Quest else Lit c) # glob_tokens p)"

text \<open>What follows the first slash: one turn of \<open>[^/]*/\<close>.\<close>

definition after_slash :: "string \<Rightarrow> string option" where
  "after_slash s = (case dropWhile (\<lambda>c. c \<noteq> slash) s of [] \<Rightarrow> None | _ # r \<Rightarrow> Some r)"

lemma after_slash_shorter: "after_slash s = Some r \<Longrightarrow> length r < length s"
  using length_dropWhile_le [of "\<lambda>c. c \<noteq> slash" s] by (auto simp: after_slash_def split: list.splits)

function tok_match :: "gtok list \<Rightarrow> string \<Rightarrow> bool" where
  "tok_match [] s = (s = [])"
| "tok_match (Dirs # ts) s =
     (tok_match ts s \<or> (case after_slash s of None \<Rightarrow> False | Some r \<Rightarrow> tok_match (Dirs # ts) r))"
| "tok_match (Rest # ts) s =
     (tok_match ts s \<or> (case s of [] \<Rightarrow> False | x # r \<Rightarrow> x \<noteq> nl \<and> tok_match (Rest # ts) r))"
| "tok_match (Star # ts) s =
     (tok_match ts s \<or> (case s of [] \<Rightarrow> False | x # r \<Rightarrow> x \<noteq> slash \<and> tok_match (Star # ts) r))"
| "tok_match (Quest # ts) s = (case s of [] \<Rightarrow> False | x # r \<Rightarrow> x \<noteq> slash \<and> tok_match ts r)"
| "tok_match (Lit c # ts) s = (case s of [] \<Rightarrow> False | x # r \<Rightarrow> x = c \<and> tok_match ts r)"
  by pat_completeness auto
termination
  by (relation "measure (\<lambda>(ts, s). length ts + length s)") (auto dest: after_slash_shorter)

definition glob_match :: "string \<Rightarrow> string \<Rightarrow> bool" where
  "glob_match pattern rel =
     (if pattern = [] then True
      else if slash \<notin> set pattern then path_match pattern (path_base rel)
      else if \<not> contains pattern ''**'' then path_match pattern rel
      else tok_match (glob_tokens pattern) rel)"

section \<open>Segment by segment\<close>

text \<open>
  The reference: a pattern and a path as lists of segments. \<open>**\<close> stands for any number of segments, and
  for at least one at the end; any other segment for one, with \<open>*\<close> and \<open>?\<close> in it.
\<close>

definition deep :: string where
  "deep = ''**''"

definition plain_seg :: "string \<Rightarrow> bool" where
  "plain_seg p \<longleftrightarrow> slash \<notin> set p \<and> \<not> contains p ''**''"

fun seg_match :: "string list \<Rightarrow> string list \<Rightarrow> bool" where
  "seg_match [] ss = (ss = [])"
| "seg_match (p # ps) [] = False"
| "seg_match (p # ps) (s # ss) =
     (if p = deep then ps = [] \<or> seg_match ps (s # ss) \<or> seg_match (p # ps) ss
      else tok_match (glob_tokens p) s \<and> seg_match ps ss)"

definition simple_tok :: "gtok \<Rightarrow> bool" where
  "simple_tok t \<longleftrightarrow> t \<noteq> Dirs \<and> t \<noteq> Rest \<and> t \<noteq> Lit slash"

lemma contains_Cons: "contains p sub \<Longrightarrow> contains (c # p) sub"
  by (metis append_Cons contains_iff)

lemma no_deep_head: "\<not> contains (c # p) ''**'' \<Longrightarrow> \<not> has_prefix (c # p) ''**''"
  by (metis append_Nil contains_iff has_prefix_iff)

lemma deep_slash_deep: "has_prefix s ''**/'' \<Longrightarrow> has_prefix s ''**''"
  by (auto simp: has_prefix_iff simp del: has_prefix.simps)

lemma no_slash_drop: "slash \<notin> set s \<Longrightarrow> dropWhile (\<lambda>c. c \<noteq> slash) s = []"
  by (auto simp: dropWhile_eq_Nil_conv)

lemma glob_tokens_plain_append:
  "plain_seg p \<Longrightarrow> glob_tokens (p @ slash # r) = glob_tokens p @ Lit slash # glob_tokens r \<and> list_all simple_tok (glob_tokens p)"
proof (induction p)
  case Nil
  then show ?case by (simp add: slash_def)
next
  case (Cons c p)
  then have p: "plain_seg p" and c: "c \<noteq> slash" by (auto simp: plain_seg_def dest: contains_Cons)
  from Cons.prems have n: "\<not> has_prefix (c # p) ''**''" unfolding plain_seg_def using no_deep_head by blast
  then have n3: "\<not> has_prefix (c # p) ''**/''" using deep_slash_deep by blast
  from n have m: "\<not> has_prefix (c # p @ slash # r) ''**''" by (cases p) (auto simp: slash_def)
  then have m3: "\<not> has_prefix (c # p @ slash # r) ''**/''" using deep_slash_deep by blast
  from Cons.IH [OF p] c show ?case by (simp add: n n3 m m3 simple_tok_def del: has_prefix.simps)
qed

lemma glob_tokens_plain: "plain_seg p \<Longrightarrow> list_all simple_tok (glob_tokens p)"
  using glob_tokens_plain_append by blast

lemma lit_slash_needed: "tok_match ts s \<Longrightarrow> Lit slash \<in> set ts \<Longrightarrow> slash \<in> set s"
proof (induction ts s rule: tok_match.induct)
  case (2 ts s)
  show ?case
  proof (cases "tok_match ts s")
    case False
    with "2.prems" obtain r where "after_slash s = Some r" by (auto split: option.splits)
    then show ?thesis using no_slash_drop [of s] by (cases "slash \<in> set s") (auto simp: after_slash_def)
  qed (use 2 in auto)
next
  case (3 ts s)
  then show ?case by (cases s) auto
next
  case (4 ts s)
  then show ?case by (cases s) auto
next
  case (5 ts s)
  then show ?case by (cases s) auto
next
  case (6 c ts s)
  then show ?case by (cases s) auto
qed simp

lemma seg_then_slash:
  "list_all simple_tok ts \<Longrightarrow> slash \<notin> set s \<Longrightarrow>
     tok_match (ts @ Lit slash # us) (s @ slash # r) \<longleftrightarrow> tok_match ts s \<and> tok_match us r"
proof (induction ts s rule: tok_match.induct)
  case (1 s)
  then show ?case by (cases s) auto
next
  case (4 ts s)
  then show ?case by (cases s) (auto simp: simple_tok_def)
next
  case (5 ts s)
  then show ?case by (cases s) (auto simp: simple_tok_def)
next
  case (6 c ts s)
  then show ?case by (cases s) (auto simp: simple_tok_def)
qed (simp_all add: simple_tok_def)

lemma slash_never: "list_all simple_tok ts \<Longrightarrow> slash \<in> set s \<Longrightarrow> \<not> tok_match ts s"
proof (induction ts s rule: tok_match.induct)
  case (4 ts s)
  then show ?case by (cases s) (auto simp: simple_tok_def)
next
  case (5 ts s)
  then show ?case by (cases s) (auto simp: simple_tok_def)
next
  case (6 c ts s)
  then show ?case by (cases s) (auto simp: simple_tok_def)
qed (auto simp: simple_tok_def)

lemma after_slash_segs: "slash \<notin> set s \<Longrightarrow> after_slash (s @ slash # r) = Some r" "slash \<notin> set s \<Longrightarrow> after_slash s = None"
proof -
  show "slash \<notin> set s \<Longrightarrow> after_slash (s @ slash # r) = Some r"
    by (simp add: after_slash_def dropWhile_append no_slash_drop)
  show "slash \<notin> set s \<Longrightarrow> after_slash s = None"
    by (simp add: after_slash_def no_slash_drop)
qed

lemma rest_matches: "nl \<notin> set s \<Longrightarrow> tok_match [Rest] s"
  by (induction s) auto

lemma glob_deep_slash: "glob_tokens (deep @ slash # r) = Dirs # glob_tokens r"
  by (simp add: deep_def slash_def)

lemma glob_deep: "glob_tokens deep = [Rest]"
  by (simp add: deep_def)

definition path_seg :: "string \<Rightarrow> bool" where
  "path_seg s \<longleftrightarrow> slash \<notin> set s \<and> nl \<notin> set s"

lemma path_segs_join: "list_all path_seg ss \<Longrightarrow> nl \<notin> set (join_with [slash] ss)"
  by (induction ss rule: induct_list012) (auto simp: path_seg_def slash_def)

lemma tokens_match_segs:
  "ps \<noteq> [] \<Longrightarrow> ss \<noteq> [] \<Longrightarrow> list_all (\<lambda>p. p = deep \<or> plain_seg p) ps \<Longrightarrow> list_all path_seg ss \<Longrightarrow>
     tok_match (glob_tokens (join_with [slash] ps)) (join_with [slash] ss) = seg_match ps ss"
proof (induction ps ss rule: seg_match.induct)
  case (3 p ps s ss)
  let ?s = "join_with [slash] (s # ss)"
  have s: "slash \<notin> set s" using "3.prems" by (simp add: path_seg_def)
  have js: "?s = (if ss = [] then s else s @ slash # join_with [slash] ss)" by (cases ss) auto
  have jp: "join_with [slash] (p # ps) = (if ps = [] then p else p @ slash # join_with [slash] ps)" by (cases ps) auto
  show ?case
  proof (cases "p = deep")
    case True
    show ?thesis
    proof (cases "ps = []")
      case True
      with \<open>p = deep\<close> rest_matches path_segs_join [OF "3.prems"(4)] show ?thesis by (simp add: glob_deep)
    next
      case False
      let ?ts = "glob_tokens (join_with [slash] ps)"
      have a: "tok_match ?ts ?s = seg_match ps (s # ss)"
        using "3.IH"(1) True False "3.prems" by simp
      have gt: "glob_tokens (join_with [slash] (p # ps)) = Dirs # ?ts"
        unfolding jp using False True by (simp add: glob_deep_slash)
      have "tok_match (Dirs # ?ts) (join_with [slash] ss) = seg_match (p # ps) ss" if ss: "ss \<noteq> []"
      proof -
        have "tok_match (glob_tokens (join_with [slash] (p # ps))) (join_with [slash] ss) = seg_match (p # ps) ss"
          using "3.IH"(2) "3.prems" ss True by simp
        then show ?thesis unfolding gt .
      qed
      then have c: "(case after_slash ?s of None \<Rightarrow> False | Some r \<Rightarrow> tok_match (Dirs # ?ts) r) = (ss \<noteq> [] \<and> seg_match (p # ps) ss)"
        using after_slash_segs [OF s] by (cases "ss = []") (simp_all add: js)
      have "tok_match (glob_tokens (join_with [slash] (p # ps))) ?s = (seg_match ps (s # ss) \<or> (ss \<noteq> [] \<and> seg_match (p # ps) ss))"
        unfolding gt tok_match.simps a c ..
      moreover have "seg_match (p # ps) (s # ss) = (seg_match ps (s # ss) \<or> seg_match (p # ps) ss)" using True False by simp
      moreover have "seg_match (p # ps) ss \<Longrightarrow> ss \<noteq> []" by (cases ss) auto
      ultimately show ?thesis by blast
    qed
  next
    case False
    with "3.prems" have p: "plain_seg p" by simp
    note simple = glob_tokens_plain [OF p]
    show ?thesis
    proof (cases "ps = []")
      case True
      show ?thesis
      proof (cases "ss = []")
        case False
        have "\<not> tok_match (glob_tokens p) (s @ slash # join_with [slash] ss)"
          using simple slash_never [OF simple] by simp
        with True False \<open>p \<noteq> deep\<close> show ?thesis by (cases ss) (auto simp: js)
      qed (use True False in simp)
    next
      case psn: False
      have t: "glob_tokens (join_with [slash] (p # ps)) = glob_tokens p @ Lit slash # glob_tokens (join_with [slash] ps)"
        using glob_tokens_plain_append [OF p] psn by (simp add: jp)
      show ?thesis
      proof (cases "ss = []")
        case True
        have "\<not> tok_match (glob_tokens p @ Lit slash # glob_tokens (join_with [slash] ps)) s"
          using lit_slash_needed s by fastforce
        moreover have "\<not> seg_match ps []" using psn by (cases ps) auto
        ultimately show ?thesis using True False t by simp
      next
        case ssn: False
        with "3.IH"(3) "3.prems" seg_then_slash [OF simple s] t False psn show ?thesis
          by (simp add: js)
      qed
    qed
  qed
qed auto

lemma join_with_mem: "p \<in> set ps \<Longrightarrow> \<exists>a b. join_with sep ps = a @ p @ b"
proof (induction ps rule: induct_list012)
  case (3 x y zs)
  then show ?case
  proof (cases "p = x")
    case True
    then show ?thesis by (intro exI [of _ "[]"] exI [of _ "sep @ join_with sep (y # zs)"]) simp
  next
    case False
    with 3 obtain a b where "join_with sep (y # zs) = a @ p @ b" by auto
    then show ?thesis by (intro exI [of _ "x @ sep @ a"] exI [of _ b]) simp
  qed
next
  case (2 x)
  then show ?case by (intro exI [of _ "[]"]) simp
qed simp

text \<open>
  C33: a pattern with \<open>**\<close> in it, of segments that are \<open>**\<close> or have no \<open>**\<close>, matches a path exactly when it
  matches segment by segment: \<open>**\<close> takes any number of segments, none included (one at least where the
  pattern ends), every other segment takes one.
\<close>

theorem glob_by_segments:
  assumes "2 \<le> length ps" "deep \<in> set ps" "list_all (\<lambda>p. p = deep \<or> plain_seg p) ps"
    and "ss \<noteq> []" "list_all path_seg ss"
  shows "glob_match (join_with [slash] ps) (join_with [slash] ss) = seg_match ps ss"
proof -
  obtain p q qs where ps: "ps = p # q # qs" using assms(1) by (cases ps; cases "tl ps") auto
  have "contains (join_with [slash] ps) ''**''"
    using join_with_mem [OF assms(2)] by (auto simp: contains_iff deep_def)
  moreover have "slash \<in> set (join_with [slash] ps)" by (simp add: ps)
  moreover have "join_with [slash] ps \<noteq> []" by (simp add: ps)
  ultimately show ?thesis
    using tokens_match_segs [OF _ assms(4,3,5)] by (simp add: glob_match_def ps)
qed

theorem glob_by_segments_witness:
  "glob_match ''apps/**/main.py'' ''apps/main.py'' \<and> glob_match ''apps/**/main.py'' ''apps/api/v2/main.py''
   \<and> \<not> glob_match ''apps/**/main.py'' ''lib/apps/main.py''"
proof -
  let ?ps = "[''apps'', ''**'', ''main.py'']"
  have ps: "2 \<le> length ?ps" "deep \<in> set ?ps" "list_all (\<lambda>p. p = deep \<or> plain_seg p) ?ps" by code_simp+
  have ss: "list_all path_seg [''apps'', ''main.py'']" "list_all path_seg [''apps'', ''api'', ''v2'', ''main.py'']"
    "list_all path_seg [''lib'', ''apps'', ''main.py'']" by code_simp+
  have m: "seg_match ?ps [''apps'', ''main.py'']" "seg_match ?ps [''apps'', ''api'', ''v2'', ''main.py'']"
    "\<not> seg_match ?ps [''lib'', ''apps'', ''main.py'']" by code_simp+
  from glob_by_segments [OF ps _ ss(1)] glob_by_segments [OF ps _ ss(2)] glob_by_segments [OF ps _ ss(3)] m
  show ?thesis by (simp add: slash_def)
qed

text \<open>A class is read in a pattern without \<open>**\<close> and is literal in one with it.\<close>

lemma glob_class_lost: "glob_match ''src/[ab].go'' ''src/a.go'' \<and> \<not> glob_match ''src/**/[ab].go'' ''src/a.go''"
  by (rule conjI) (code_simp, code_simp)

end
