(* ===== verification/GateCommand.thy ===== *)
theory GateCommand
  imports GateLocks Glob
begin

text \<open>
  Model of \<open>internal/gate/command.go\<close> and \<open>build.go\<close>: the checks a project declares for itself, run over
  the changed files they name, and the build of the whole module. The shell, the files' sizes and times,
  and the Go command act on the world \<open>'w\<close>.
\<close>

section \<open>A declared check\<close>

record command_check =
  ck_name :: string
  ck_command :: string
  ck_dir :: string
  ck_fix :: string
  ck_paths :: "string list"
  ck_rewrites :: bool

definition command_resources :: "command_check \<Rightarrow> string list" where
  "command_resources ck = (if ck_rewrites ck then [worktree_resource] else [''check:'' @ ck_name ck])"

definition check_names :: "command_check \<Rightarrow> string \<Rightarrow> bool" where
  "check_names ck p = (if ck_paths ck = [] then True else list_ex (\<lambda>pat. glob_match pat p) (ck_paths ck))"

definition matching :: "command_check \<Rightarrow> change_t list \<Rightarrow> string list" where
  "matching ck changes = filter (check_names ck) (map cg_path changes)"

section \<open>The changed files in a command\<close>

definition shell_quote :: "string \<Rightarrow> string" where
  "shell_quote p =
     [squote] @ replace_all p [squote] [squote, backslash, squote, squote] @ [squote]"

definition files_placeholder :: string where
  "files_placeholder = ''{files}''"

definition in_dir :: "string \<Rightarrow> string \<Rightarrow> string" where
  "in_dir dir m =
     (if dir \<noteq> [] \<and> dir \<noteq> ''.'' then (case path_rel dir m of None \<Rightarrow> m | Some r \<Rightarrow> r) else m)"

definition expand_files :: "string \<Rightarrow> string list \<Rightarrow> string \<Rightarrow> string" where
  "expand_files command matched dir =
     (if \<not> contains command files_placeholder then command
      else replace_all command files_placeholder (join_with '' '' (map (shell_quote \<circ> in_dir dir) matched)))"

section \<open>Running it\<close>

datatype sh_run = ShOk | ShExit string | ShBroken string

record 'w machine =
  mc_sh :: "string \<Rightarrow> string \<Rightarrow> 'w \<Rightarrow> sh_run \<times> 'w"
  mc_stat :: "'w \<Rightarrow> string \<Rightarrow> (int \<times> int) option"

definition fingerprint :: "'w machine \<Rightarrow> string \<Rightarrow> 'w \<Rightarrow> string \<Rightarrow> string" where
  "fingerprint M repo w rel =
     (case mc_stat M w (path_join repo rel) of
        None \<Rightarrow> ''absent''
      | Some (size_of, time_of) \<Rightarrow> show_int size_of @ '':'' @ show_int time_of)"

definition apply_fixes :: "'w machine \<Rightarrow> string \<Rightarrow> command_check \<Rightarrow> string list \<Rightarrow> 'w \<Rightarrow> string list \<times> 'w" where
  "apply_fixes M repo ck matched w =
     (if ck_fix ck = [] then ([], w)
      else case mc_sh M (expand_files (ck_fix ck) matched (ck_dir ck)) (path_join repo (ck_dir ck)) w of
             (ShBroken _, w') \<Rightarrow> ([], w')
           | (_, w') \<Rightarrow> (filter (\<lambda>rel. fingerprint M repo w' rel \<noteq> fingerprint M repo w rel) matched, w'))"

definition output_lines :: "string \<Rightarrow> string list" where
  "output_lines out = split_byte nl (trim_right out [nl])"

definition command_run :: "'w machine \<Rightarrow> string \<Rightarrow> command_check \<Rightarrow> gate_context \<Rightarrow> 'w \<Rightarrow> (string + gate_result) \<times> 'w" where
  "command_run M repo ck rc w =
     (let lvl = se_level (gc_selection rc); matched = matching ck (gc_changes rc) in
      if matched = [] then (Inr (abstained (ck_name ck) lvl ''the change set holds no path this check names''), w)
      else let (rewrote, w) = apply_fixes M repo ck matched w;
               r = \<lparr>gr_gate = ck_name ck, gr_level = lvl, gr_reason = [], gr_failures = [], gr_advisories = [],
                    gr_rewrote = rewrote, gr_examined = int (length matched), gr_pass = True\<rparr>
           in case mc_sh M (expand_files (ck_command ck) matched (ck_dir ck)) (path_join repo (ck_dir ck)) w of
                (ShOk, w) \<Rightarrow> (Inr r, w)
              | (ShBroken e, w) \<Rightarrow> (Inl (''running the '' @ ck_name ck @ '' check: '' @ e), w)
              | (ShExit out, w) \<Rightarrow>
                  (Inr (r\<lparr>gr_pass := False,
                          gr_failures := [trim_failure \<lparr>ft_name = ck_name ck, ft_package = [], ft_output = output_lines out\<rparr>
                                            (map cg_path (gc_changes rc))]\<rparr>), w))"

definition command_gate :: "'w machine \<Rightarrow> string \<Rightarrow> command_check \<Rightarrow> 'w gate" where
  "command_gate M repo ck =
     \<lparr>ga_name = ck_name ck, ga_resources = command_resources ck, ga_run = command_run M repo ck\<rparr>"

definition new_command_gates :: "'w machine \<Rightarrow> string \<Rightarrow> command_check list \<Rightarrow> 'w gate list" where
  "new_command_gates M repo cks =
     map (command_gate M repo) (filter (\<lambda>ck. ck_name ck \<noteq> [] \<and> ck_command ck \<noteq> []) cks)"

section \<open>The build\<close>

text \<open>
  \<open>main_packages\<close> is what \<open>go list\<close> prints of the module's main packages, or nothing when it fails;
  \<open>link_cache\<close> makes the directory the binaries go to.
\<close>

definition build_args :: "string option \<Rightarrow> string + string \<Rightarrow> string + string list" where
  "build_args main_packages link_cache =
     (if (case main_packages of None \<Rightarrow> True | Some out \<Rightarrow> trim_space out = []) then Inr [''build'', ''./...'']
      else case link_cache of
             Inl e \<Rightarrow> Inl e
           | Inr dir \<Rightarrow> Inr [''build'', ''-o'', dir @ ''/'', ''./...''])"

definition build_run ::
  "bool \<Rightarrow> string option \<Rightarrow> string + string \<Rightarrow> (string list \<Rightarrow> sh_run) \<Rightarrow> gate_context \<Rightarrow> string + gate_result" where
  "build_run has_mod main_packages link_cache go rc =
     (let lvl = se_level (gc_selection rc) in
      if \<not> has_mod then Inr (abstained ''build'' lvl ''the project root holds no go.mod'')
      else case build_args main_packages link_cache of
             Inl e \<Rightarrow> Inl e
           | Inr args \<Rightarrow>
               let r = \<lparr>gr_gate = ''build'', gr_level = lvl, gr_reason = [], gr_failures = [], gr_advisories = [],
                        gr_rewrote = [], gr_examined = 1, gr_pass = True\<rparr> in
               (case go args of
                  ShOk \<Rightarrow> Inr r
                | ShBroken e \<Rightarrow> Inl (''go build ./...: '' @ e)
                | ShExit out \<Rightarrow>
                    Inr (r\<lparr>gr_pass := False,
                           gr_failures := [trim_failure \<lparr>ft_name = ''build'', ft_package = [], ft_output = output_lines out\<rparr>
                                             (map cg_path (gc_changes rc))]\<rparr>)))"

section \<open>What the shell reads\<close>

text \<open>
  A word as \<open>sh\<close> reads it: between single quotes everything stands for itself, outside them a backslash
  quotes what follows, and the word ends at a character the shell gives a meaning.
\<close>

fun sh_word :: "bool \<Rightarrow> string \<Rightarrow> string option" where
  "sh_word True [] = None"
| "sh_word True (c # s) = (if c = squote then sh_word False s else map_option ((#) c) (sh_word True s))"
| "sh_word False [] = Some []"
| "sh_word False (c # s) =
     (if c = squote then sh_word True s
      else if c = backslash then (case s of [] \<Rightarrow> None | x # t \<Rightarrow> map_option ((#) x) (sh_word False t))
      else if word_char c \<or> path_char c then map_option ((#) c) (sh_word False s)
      else None)"

lemma replace_quote: "replace_all (c # p) [squote] r = (if c = squote then r else [c]) @ replace_all p [squote] r"
  by (simp add: replace_all.simps [of "c # p"])

lemma sh_word_inside:
  "sh_word True (replace_all p [squote] [squote, backslash, squote, squote] @ [squote]) = Some p"
proof (induction p)
  case Nil
  then show ?case by (simp add: replace_all.simps)
next
  case (Cons c p)
  then show ?case by (simp add: replace_quote)
qed

text \<open>Whatever a changed file is called, the shell reads its quoted name back as one word, unchanged.\<close>

theorem shell_quote_reads_back: "sh_word False (shell_quote p) = Some p"
  by (simp add: shell_quote_def sh_word_inside)

section \<open>A fixer beside the readers\<close>

definition demo_check :: command_check where
  "demo_check = \<lparr>ck_name = ''ruff'', ck_command = ''ruff check {files}'', ck_dir = [], ck_fix = ''ruff check --fix {files}'',
     ck_paths = [''*.py''], ck_rewrites = False\<rparr>"

text \<open>A world that counts the commands run; every command touches the file.\<close>

definition demo_machine :: "nat machine" where
  "demo_machine = \<lparr>mc_sh = (\<lambda>_ _ w. (ShOk, w + 1)), mc_stat = (\<lambda>w _. Some (1, int w))\<rparr>"

definition demo_context :: gate_context where
  "demo_context = \<lparr>gc_repo = ''/r'', gc_run_id = [], gc_selection = \<lparr>se_level = LevelPackage, se_tests = [], se_packages = []\<rparr>,
     gc_changes = [path_change ''app/main.py'']\<rparr>"

text \<open>
  Whether a check waits for the gates that rewrite the worktree is decided by \<open>Rewrites\<close> alone. A check
  with its own fixer rewrites files and runs in the wave of the gates that read them.
\<close>

theorem fixer_runs_beside_readers:
  "jb_wave (gate_job (command_gate M repo ck)) = (if ck_rewrites ck then Writing else Reading)
   \<and> jb_wave (gate_job (command_gate demo_machine ''/r'' demo_check)) = Reading
   \<and> (case fst (command_run demo_machine ''/r'' demo_check demo_context 0) of
        Inl _ \<Rightarrow> False | Inr r \<Rightarrow> gr_pass r \<and> gr_rewrote r = [''app/main.py''])"
proof (intro conjI)
  show "jb_wave (gate_job (command_gate M repo ck)) = (if ck_rewrites ck then Writing else Reading)"
    by (simp add: gate_job_def command_gate_def command_resources_def new_job_def worktree_resource_def)
  show "jb_wave (gate_job (command_gate demo_machine ''/r'' demo_check)) = Reading"
    by (simp add: gate_job_def command_gate_def command_resources_def new_job_def worktree_resource_def demo_check_def)
  show "case fst (command_run demo_machine ''/r'' demo_check demo_context 0) of
        Inl _ \<Rightarrow> False | Inr r \<Rightarrow> gr_pass r \<and> gr_rewrote r = [''app/main.py'']"
    by code_simp
qed

end
