(* ===== verification/Cycle.thy ===== *)
theory Cycle
  imports GateSelect "HOL-Library.Product_Lexorder"
begin

text \<open>
  Model of \<open>internal/cycle\<close> and \<open>internal/condition\<close>: phases of model work that advance only when the
  harness observes their exit condition. The driver of a phase, the event log, the runs of tests and
  sweeps and the file system act on the world \<open>'w\<close>; the ledger is passed along, as the tools a phase
  runs with write to it.
\<close>

section \<open>Conditions\<close>

definition no_verdict :: verdict where
  "no_verdict = \<lparr>vd_condition = [], vd_reason = [], vd_holds = False\<rparr>"

record ('s, 'w) condition =
  cn_name :: string
  cn_holds :: "'s \<Rightarrow> 'w \<Rightarrow> (string + verdict) \<times> 'w"

fun all_parts :: "string \<Rightarrow> ('s, 'w) condition list \<Rightarrow> 's \<Rightarrow> 'w \<Rightarrow> (string + verdict) \<times> 'w" where
  "all_parts name [] s w = (Inr (met name ''every part held''), w)"
| "all_parts name (c # cs) s w =
     (case cn_holds c s w of
        (Inl e, w) \<Rightarrow> (Inl (''evaluating '' @ cn_name c @ '': '' @ e), w)
      | (Inr v, w) \<Rightarrow> if \<not> vd_holds v then (Inr (unmet name (vd_reason v)), w) else all_parts name cs s w)"

definition all_cond :: "string \<Rightarrow> ('s, 'w) condition list \<Rightarrow> ('s, 'w) condition" where
  "all_cond name cs = \<lparr>cn_name = name, cn_holds = all_parts name cs\<rparr>"

section \<open>The ledger\<close>

record hypothesis =
  hy_phase :: string
  hy_cause :: string
  hy_experiment :: string
  hy_observation :: string
  hy_verdict :: string

record dismissal =
  di_file :: string
  di_reason :: string
  di_line :: int

record sweep =
  sw_phase :: string
  sw_pattern :: string
  sw_language :: string
  sw_path :: string
  sw_artifact :: string
  sw_dismissed :: "dismissal list"

record rows =
  ro_hypotheses :: "hypothesis list"
  ro_sweeps :: "sweep list"

record ledger =
  le_phase :: string
  le_rows :: rows

definition new_ledger :: ledger where
  "new_ledger = \<lparr>le_phase = [], le_rows = \<lparr>ro_hypotheses = [], ro_sweeps = []\<rparr>\<rparr>"

definition set_phase :: "string \<Rightarrow> ledger \<Rightarrow> ledger" where
  "set_phase name l = l\<lparr>le_phase := name\<rparr>"

definition rows_empty :: "rows \<Rightarrow> bool" where
  "rows_empty r \<longleftrightarrow> ro_hypotheses r = [] \<and> ro_sweeps r = []"

definition last_sweep :: "rows \<Rightarrow> sweep option" where
  "last_sweep r = (if ro_sweeps r = [] then None else Some (last (ro_sweeps r)))"

definition record_hypothesis :: "hypothesis \<Rightarrow> ledger \<Rightarrow> (string + unit) \<times> ledger" where
  "record_hypothesis h l =
     (if list_ex (\<lambda>have. equal_fold (hy_cause have) (hy_cause h) \<and> hy_verdict have = hy_verdict h) (ro_hypotheses (le_rows l))
      then (Inl ''cycle: this cause and verdict are already in the ledger'', l)
      else (Inr (), l\<lparr>le_rows := (le_rows l)\<lparr>ro_hypotheses := ro_hypotheses (le_rows l) @ [h\<lparr>hy_phase := le_phase l\<rparr>]\<rparr>\<rparr>))"

definition same_place :: "dismissal \<Rightarrow> dismissal \<Rightarrow> bool" where
  "same_place a b \<longleftrightarrow> di_file a = di_file b \<and> di_line a = di_line b"

text \<open>Replace the first element that \<open>P\<close> singles out, or add the new one at the end.\<close>

fun put_where :: "('a \<Rightarrow> bool) \<Rightarrow> 'a \<Rightarrow> 'a list \<Rightarrow> 'a list" where
  "put_where P x [] = [x]"
| "put_where P x (y # ys) = (if P y then x # ys else y # put_where P x ys)"

definition merge_dismissals :: "dismissal list \<Rightarrow> dismissal list \<Rightarrow> dismissal list" where
  "merge_dismissals a b =
     sort_key (\<lambda>d. (di_file d, di_line d)) (fold (\<lambda>d out. put_where (\<lambda>e. same_place e d) d out) b a)"

definition record_sweep :: "sweep \<Rightarrow> ledger \<Rightarrow> ledger" where
  "record_sweep sw l =
     (let s = sw\<lparr>sw_phase := le_phase l\<rparr>; ss = ro_sweeps (le_rows l) in
      case List.find (\<lambda>o'. sw_pattern o' = sw_pattern s) ss of
        None \<Rightarrow> l\<lparr>le_rows := (le_rows l)\<lparr>ro_sweeps := ss @ [s]\<rparr>\<rparr>
      | Some old \<Rightarrow>
          let s = s\<lparr>sw_dismissed := merge_dismissals (sw_dismissed old) (sw_dismissed s),
                    sw_artifact := if sw_artifact s = [] then sw_artifact old else sw_artifact s\<rparr>;
              before = takeWhile (\<lambda>o'. sw_pattern o' \<noteq> sw_pattern s) ss
          in l\<lparr>le_rows := (le_rows l)\<lparr>ro_sweeps := before @ drop (length before + 1) ss @ [s]\<rparr>\<rparr>)"

definition sweeps_changed :: "rows \<Rightarrow> rows \<Rightarrow> bool" where
  "sweeps_changed new old =
     (let dismissals = (\<lambda>r. sum_list (map (length \<circ> sw_dismissed) (ro_sweeps r))) in
      ro_sweeps new \<noteq> [] \<and> (length (ro_sweeps new) \<noteq> length (ro_sweeps old) \<or> dismissals new \<noteq> dismissals old))"

definition line_of_text :: "string \<Rightarrow> string" where
  "line_of_text s = s @ [nl]"

definition render_hypothesis :: "hypothesis \<Rightarrow> string" where
  "render_hypothesis h =
     line_of_text (''| '' @ hy_phase h @ '' | '' @ hy_cause h @ '' | '' @ hy_experiment h @ '' | '' @ hy_observation h @ '' | ''
       @ hy_verdict h @ '' |'')"

definition render_sweep :: "sweep \<Rightarrow> string" where
  "render_sweep s =
     line_of_text (''## Sweep recorded in '' @ sw_phase s) @ [nl] @
     line_of_text (''pattern: '' @ sw_pattern s @ '' ('' @ sw_language s @ '') over '' @ sw_path s) @
     (if sw_artifact s \<noteq> [] then line_of_text (''durable artifact: '' @ sw_artifact s) else []) @
     concat (map (\<lambda>d. line_of_text (''dismissed '' @ di_file d @ '':'' @ show_int (di_line d) @ '': '' @ di_reason d)) (sw_dismissed s)) @
     [nl]"

definition render_rows :: "rows \<Rightarrow> string" where
  "render_rows r =
     (if ro_hypotheses r = [] then []
      else line_of_text ''## Hypothesis ledger'' @ [nl] @
           line_of_text ''| phase | candidate cause | experiment | observation | verdict |'' @
           line_of_text ''|---|---|---|---|---|'' @ concat (map render_hypothesis (ro_hypotheses r)) @ [nl]) @
     concat (map render_sweep (ro_sweeps r))"

section \<open>Phases\<close>

record cycle_state =
  cs_repo :: string
  cs_goal :: string
  cs_phase :: string
  cs_reason :: string
  cs_changes :: "change_t list"
  cs_rows :: rows
  cs_complete :: bool

type_synonym 'w exit_condition = "(cycle_state, 'w) condition"

record 'w phase =
  ph_exit :: "'w exit_condition option"
  ph_name :: string
  ph_goal :: string
  ph_tools :: "string list"
  ph_max :: int
  ph_gated :: bool

record 'w cycle =
  cy_name :: string
  cy_phases :: "'w phase list"

definition default_max_attempts :: nat where
  "default_max_attempts = 2"

definition attempts :: "'w phase \<Rightarrow> nat" where
  "attempts p = (if ph_max p \<le> 0 then default_max_attempts else nat (ph_max p))"

definition validate :: "'w cycle \<Rightarrow> string option" where
  "validate c =
     (if cy_phases c = [] then Some (''cycle: has no phases: '' @ cy_name c)
      else case List.find (\<lambda>p. ph_exit p = None) (cy_phases c) of
             Some p \<Rightarrow> Some (''cycle: phase has no exit condition: '' @ cy_name c @ ''/'' @ ph_name p)
           | None \<Rightarrow> None)"

definition merge_changes :: "change_t list \<Rightarrow> change_t list \<Rightarrow> change_t list" where
  "merge_changes a b = fold (\<lambda>c out. put_where (\<lambda>e. cg_path e = cg_path c) c out) b a"

section \<open>A run\<close>

record phase_result =
  pr_stop :: verdict
  pr_changes :: "change_t list"
  pr_turns :: int
  pr_calls :: int
  pr_spend :: rat
  pr_complete :: bool

record 'w attempt =
  at_cycle :: string
  at_prompt :: string
  at_phase :: "'w phase"
  at_number :: nat

record phase_outcome =
  po_phase :: string
  po_verdict :: verdict
  po_spend :: rat
  po_attempts :: nat
  po_turns :: int
  po_calls :: int

datatype cycle_stop = StopNone | CycleComplete | ConditionUnmet

record cycle_outcome =
  oc_verdict :: verdict
  oc_cycle :: string
  oc_phase :: string
  oc_stop :: cycle_stop
  oc_phases :: "phase_outcome list"
  oc_changes :: "change_t list"
  oc_rows :: rows
  oc_turns :: int
  oc_calls :: int
  oc_spend :: rat

record 'w runner =
  rr_repo :: string
  rr_drive :: "'w attempt \<Rightarrow> ledger \<Rightarrow> 'w \<Rightarrow> (string + phase_result) \<times> ledger \<times> 'w"
  rr_log :: "event \<Rightarrow> 'w \<Rightarrow> string option \<times> 'w"

definition prompt_text :: "string \<Rightarrow> 'w phase \<Rightarrow> change_t list \<Rightarrow> rows \<Rightarrow> verdict \<Rightarrow> string" where
  "prompt_text goal p changes r previous =
     ''## Standing goal'' @ [nl, nl] @ goal @ [nl, nl] @ ''## Phase: '' @ ph_name p @ [nl, nl] @ ph_goal p @ [nl, nl] @
     ''This phase ends when the harness observes '' @ [dquote] @
       (case ph_exit p of None \<Rightarrow> [] | Some c \<Rightarrow> cn_name c) @ [dquote] @
     ''. Nothing you write about your own progress advances it.'' @ [nl, nl] @
     (if changes = [] then []
      else ''## Change set so far'' @ [nl, nl] @
           concat (map (\<lambda>c. ''- '' @ cg_path c @ '' (+'' @ show_int (cg_added c) @ ''/-'' @ show_int (cg_removed c) @ '')'' @ [nl]) changes)
           @ [nl]) @
     (if rows_empty r then [] else render_rows r) @
     (if vd_condition previous \<noteq> [] \<and> \<not> vd_holds previous
      then ''## Previous attempt'' @ [nl, nl] @ ''The harness refused to advance: '' @ vd_reason previous @ [nl] else [])"

definition cycle_detail :: "string \<Rightarrow> string \<Rightarrow> (string \<times> detail) list" where
  "cycle_detail c p = [(''cycle'', DText c), (''phase'', DText p)]"

definition phase_event :: "string \<Rightarrow> string \<Rightarrow> string \<Rightarrow> verdict \<Rightarrow> event" where
  "phase_event c p k v =
     plain_event KindCycle (c @ '' cycle: '' @ p @ '' '' @ replace_all k ''_'' '' '')
       (cycle_detail c p @ [(''event'', DText k)] @
        (if vd_condition v \<noteq> []
         then [(''condition'', DText (vd_condition v)), (''holds'', DBool (vd_holds v)), (''reason'', DText (vd_reason v))] else []))"

definition verdict_event :: "string \<Rightarrow> string \<Rightarrow> nat \<Rightarrow> verdict \<Rightarrow> event" where
  "verdict_event c p n v =
     plain_event KindCycle (vd_condition v @ '': '' @ vd_reason v)
       (cycle_detail c p @ [(''event'', DText ''verdict''), (''attempt'', DInt (int n)), (''condition'', DText (vd_condition v)),
          (''holds'', DBool (vd_holds v)), (''reason'', DText (vd_reason v))])"

definition hypothesis_event :: "string \<Rightarrow> string \<Rightarrow> hypothesis \<Rightarrow> event" where
  "hypothesis_event c p h =
     plain_event KindHypothesis (hy_cause h @ '': '' @ hy_observation h @ '' ('' @ hy_verdict h @ '')'')
       (cycle_detail c p @ [(''cause'', DText (hy_cause h)), (''experiment'', DText (hy_experiment h)),
          (''observation'', DText (hy_observation h)), (''verdict'', DText (hy_verdict h))])"

definition sweep_event :: "string \<Rightarrow> string \<Rightarrow> sweep \<Rightarrow> event" where
  "sweep_event c p s =
     plain_event KindHypothesis
       (''sweep '' @ sw_pattern s @ '': '' @ show_nat (length (sw_dismissed s)) @ '' hit(s) dismissed'')
       (cycle_detail c p @ [(''pattern'', DText (sw_pattern s)), (''language'', DText (sw_language s)), (''path'', DText (sw_path s)),
          (''artifact'', DText (sw_artifact s)), (''dismissed'', DInt (int (length (sw_dismissed s))))])"

text \<open>What \<open>logRows\<close> appends; \<open>append_all\<close> stops at the first event that cannot be appended.\<close>

definition row_events :: "string \<Rightarrow> string \<Rightarrow> rows \<Rightarrow> rows \<Rightarrow> event list" where
  "row_events c p new old =
     map (hypothesis_event c p) (drop (length (ro_hypotheses old)) (ro_hypotheses new)) @
     (if sweeps_changed new old then [sweep_event c p (last (ro_sweeps new))] else [])"

fun append_all :: "'w runner \<Rightarrow> event list \<Rightarrow> 'w \<Rightarrow> string option \<times> 'w" where
  "append_all R [] w = (None, w)"
| "append_all R (e # es) w =
     (case rr_log R e w of
        (Some err, w) \<Rightarrow> (Some (''logging cycle event: '' @ err), w)
      | (None, w) \<Rightarrow> append_all R es w)"

text \<open>
  \<open>runPhase\<close> from attempt number \<open>n\<close> on, with \<open>k\<close> attempts left; it gives the changes and the ledger back
  with the outcome.
\<close>

type_synonym 'w phase_run = "(string + phase_outcome \<times> change_t list) \<times> ledger \<times> 'w"

fun run_attempts ::
  "'w runner \<Rightarrow> string \<Rightarrow> 'w phase \<Rightarrow> string \<Rightarrow> 'w exit_condition \<Rightarrow> nat \<Rightarrow> nat \<Rightarrow> phase_outcome \<Rightarrow> rows \<Rightarrow> change_t list
     \<Rightarrow> ledger \<Rightarrow> 'w \<Rightarrow> 'w phase_run" where
  "run_attempts R c p goal ex 0 n po logged changes l w = (Inr (po, changes), l, w)"
| "run_attempts R c p goal ex (Suc k) n po logged changes l w =
     (case rr_drive R \<lparr>at_cycle = c, at_prompt = prompt_text goal p changes (le_rows l) (po_verdict po), at_phase = p, at_number = n\<rparr> l w of
        (Inl e, l, w) \<Rightarrow> (Inl (''cycle '' @ c @ '' phase '' @ ph_name p @ '': '' @ e), l, w)
      | (Inr r, l, w) \<Rightarrow>
          (case append_all R (row_events c (ph_name p) (le_rows l) logged) w of
             (Some e, w) \<Rightarrow> (Inl e, l, w)
           | (None, w) \<Rightarrow>
               let changes = merge_changes changes (pr_changes r) in
               (case cn_holds ex \<lparr>cs_repo = rr_repo R, cs_goal = goal, cs_phase = ph_name p, cs_reason = vd_reason (pr_stop r),
                                  cs_changes = changes, cs_rows = le_rows l, cs_complete = pr_complete r\<rparr> w of
                  (Inl e, w) \<Rightarrow> (Inl (''cycle '' @ c @ '' phase '' @ ph_name p @ '': '' @ e), l, w)
                | (Inr v, w) \<Rightarrow>
                    let po = po\<lparr>po_attempts := n, po_turns := po_turns po + pr_turns r, po_calls := po_calls po + pr_calls r,
                                po_spend := po_spend po + pr_spend r, po_verdict := v\<rparr> in
                    (case append_all R [verdict_event c (ph_name p) n v] w of
                       (Some e, w) \<Rightarrow> (Inl e, l, w)
                     | (None, w) \<Rightarrow>
                         if vd_holds v then (Inr (po, changes), l, w)
                         else run_attempts R c p goal ex k (n + 1) po (le_rows l) changes l w))))"

definition run_phase ::
  "'w runner \<Rightarrow> string \<Rightarrow> 'w phase \<Rightarrow> string \<Rightarrow> 'w exit_condition \<Rightarrow> change_t list \<Rightarrow> ledger \<Rightarrow> 'w \<Rightarrow> 'w phase_run" where
  "run_phase R c p goal ex changes l w =
     run_attempts R c p goal ex (attempts p) 1
       \<lparr>po_phase = ph_name p, po_verdict = no_verdict, po_spend = 0, po_attempts = 0, po_turns = 0, po_calls = 0\<rparr>
       (le_rows l) changes l w"

definition add_outcome :: "phase_outcome \<Rightarrow> change_t list \<Rightarrow> rows \<Rightarrow> cycle_outcome \<Rightarrow> cycle_outcome" where
  "add_outcome po changes r out =
     out\<lparr>oc_phases := oc_phases out @ [po], oc_turns := oc_turns out + po_turns po, oc_calls := oc_calls out + po_calls po,
         oc_spend := oc_spend out + po_spend po, oc_verdict := po_verdict po, oc_rows := r, oc_changes := changes\<rparr>"

fun run_phases ::
  "'w runner \<Rightarrow> string \<Rightarrow> string \<Rightarrow> 'w phase list \<Rightarrow> cycle_outcome \<Rightarrow> ledger \<Rightarrow> 'w \<Rightarrow> (string + cycle_outcome) \<times> 'w" where
  "run_phases R c goal [] out l w = (Inr (out\<lparr>oc_stop := CycleComplete\<rparr>), w)"
| "run_phases R c goal (p # ps) out l w =
     (let out = out\<lparr>oc_phase := ph_name p\<rparr>; l = set_phase (ph_name p) l in
      case append_all R [phase_event c (ph_name p) ''phase_start'' no_verdict] w of
        (Some e, w) \<Rightarrow> (Inl e, w)
      | (None, w) \<Rightarrow>
          (case ph_exit p of
             None \<Rightarrow> (Inl ''nil exit condition'', w)
           | Some ex \<Rightarrow>
               (case run_phase R c p goal ex (oc_changes out) l w of
                  (Inl e, l, w) \<Rightarrow> (Inl e, w)
                | (Inr (po, changes), l, w) \<Rightarrow>
                    let out = add_outcome po changes (le_rows l) out in
                    (case append_all R [phase_event c (ph_name p) ''phase_end'' (po_verdict po)] w of
                       (Some e, w) \<Rightarrow> (Inl e, w)
                     | (None, w) \<Rightarrow>
                         if \<not> vd_holds (po_verdict po) then (Inr (out\<lparr>oc_stop := ConditionUnmet\<rparr>), w)
                         else run_phases R c goal ps out l w))))"

definition run_cycle :: "'w runner \<Rightarrow> 'w cycle \<Rightarrow> string \<Rightarrow> 'w \<Rightarrow> (string + cycle_outcome) \<times> 'w" where
  "run_cycle R c goal w =
     (case validate c of
        Some e \<Rightarrow> (Inl e, w)
      | None \<Rightarrow>
          run_phases R (cy_name c) goal (cy_phases c)
            \<lparr>oc_verdict = no_verdict, oc_cycle = cy_name c, oc_phase = [], oc_stop = StopNone, oc_phases = [], oc_changes = [],
             oc_rows = \<lparr>ro_hypotheses = [], ro_sweeps = []\<rparr>, oc_turns = 0, oc_calls = 0, oc_spend = 0\<rparr> new_ledger w)"

end
