(* ===== verification/CycleFacts.thy ===== *)
theory CycleFacts
  imports Cycle
begin

text \<open>
  What a cycle promises: it reports \<open>complete\<close> only when the harness observed every phase's exit
  condition, it refuses only after every attempt of a phase, and the number of attempts is bounded; and
  what its built-in conditions observe.
\<close>

section \<open>One phase\<close>

text \<open>The verdict of an outcome is what the exit condition answered about some state of the run.\<close>

definition judged :: "'w exit_condition \<Rightarrow> verdict \<Rightarrow> bool" where
  "judged ex v \<longleftrightarrow> (\<exists>s w w'. cn_holds ex s w = (Inr v, w'))"

definition attempted :: "'w phase \<Rightarrow> phase_outcome \<Rightarrow> bool" where
  "attempted p po \<longleftrightarrow>
     po_phase po = ph_name p \<and> 1 \<le> po_attempts po \<and> po_attempts po \<le> attempts p
     \<and> (case ph_exit p of None \<Rightarrow> False | Some ex \<Rightarrow> judged ex (po_verdict po))"

definition phase_held :: "'w phase \<Rightarrow> phase_outcome \<Rightarrow> bool" where
  "phase_held p po \<longleftrightarrow> attempted p po \<and> vd_holds (po_verdict po)"

definition phase_refused :: "'w phase \<Rightarrow> phase_outcome \<Rightarrow> bool" where
  "phase_refused p po \<longleftrightarrow> attempted p po \<and> \<not> vd_holds (po_verdict po) \<and> po_attempts po = attempts p"

lemma attempts_pos: "0 < attempts p"
  by (auto simp: attempts_def default_max_attempts_def)

lemma run_attempts_outcome:
  assumes "run_attempts R c p goal ex (Suc k) n po logged changes l w = (Inr (po', changes'), l', w')"
  shows "po_phase po' = po_phase po \<and> judged ex (po_verdict po') \<and> n \<le> po_attempts po' \<and> po_attempts po' \<le> n + k
    \<and> (\<not> vd_holds (po_verdict po') \<longrightarrow> po_attempts po' = n + k)"
  using assms
proof (induction k arbitrary: n po logged changes l w)
  case 0
  then show ?case
    by (auto simp: judged_def Let_def split: prod.splits sum.splits option.splits if_splits) blast+
next
  case (Suc k)
  show ?case
  proof -
    from Suc.prems obtain r l1 w1 w2 v w3 w4 where
      d: "rr_drive R \<lparr>at_cycle = c, at_prompt = prompt_text goal p changes (le_rows l) (po_verdict po), at_phase = p, at_number = n\<rparr> l w
        = (Inr r, l1, w1)"
      and g: "append_all R (row_events c (ph_name p) (le_rows l1) logged) w1 = (None, w2)"
      and h: "cn_holds ex \<lparr>cs_repo = rr_repo R, cs_goal = goal, cs_phase = ph_name p, cs_reason = vd_reason (pr_stop r),
          cs_changes = merge_changes changes (pr_changes r), cs_rows = le_rows l1, cs_complete = pr_complete r\<rparr> w2 = (Inr v, w3)"
      and a: "append_all R [verdict_event c (ph_name p) n v] w3 = (None, w4)"
      by (subst (asm) run_attempts.simps) (auto simp: Let_def split: prod.splits sum.splits option.splits)
    define po1 where "po1 = po\<lparr>po_attempts := n, po_turns := po_turns po + pr_turns r, po_calls := po_calls po + pr_calls r,
        po_spend := po_spend po + pr_spend r, po_verdict := v\<rparr>"
    have e: "(if vd_holds v then (Inr (po1, merge_changes changes (pr_changes r)), l1, w4)
        else run_attempts R c p goal ex (Suc k) (n + 1) po1 (le_rows l1) (merge_changes changes (pr_changes r)) l1 w4)
        = (Inr (po', changes'), l', w')"
      using Suc.prems by (subst (asm) run_attempts.simps) (simp only: d g h a prod.case sum.case option.case Let_def po1_def)
    show ?thesis
    proof (cases "vd_holds v")
      case True
      with e have "po' = po1" by simp
      moreover have "judged ex v" using h by (auto simp: judged_def)
      ultimately show ?thesis using True by (simp add: po1_def)
    next
      case False
      with e have "run_attempts R c p goal ex (Suc k) (n + 1) po1 (le_rows l1) (merge_changes changes (pr_changes r)) l1 w4
          = (Inr (po', changes'), l', w')" by (simp del: run_attempts.simps)
      from Suc.IH [OF this] show ?thesis by (auto simp: po1_def)
    qed
  qed
qed

lemma run_phase_outcome:
  assumes "run_phase R c p goal ex changes l w = (Inr (po, changes'), l', w')" "ph_exit p = Some ex"
  shows "if vd_holds (po_verdict po) then phase_held p po else phase_refused p po"
proof -
  obtain k where k: "attempts p = Suc k" using attempts_pos [of p] by (cases "attempts p") auto
  from run_attempts_outcome [OF assms(1) [unfolded run_phase_def k]] k assms(2) show ?thesis
    by (auto simp: phase_held_def phase_refused_def attempted_def)
qed

section \<open>All phases\<close>

text \<open>
  How the outcomes of a run stand to its phases: each phase held, or all held up to one whose attempts
  are used up and whose condition does not hold.
\<close>

fun run_record :: "cycle_stop \<Rightarrow> 'w phase list \<Rightarrow> phase_outcome list \<Rightarrow> bool" where
  "run_record st [] [] = (st = CycleComplete)"
| "run_record st (p # ps) (po # pos) =
     (phase_held p po \<and> run_record st ps pos \<or> st = ConditionUnmet \<and> pos = [] \<and> phase_refused p po)"
| "run_record st _ _ = False"

lemma run_phases_record:
  assumes "run_phases R c goal ps out l w = (Inr out', w')"
  shows "\<exists>pos. oc_phases out' = oc_phases out @ pos \<and> run_record (oc_stop out') ps pos"
  using assms
proof (induction ps arbitrary: out l w)
  case Nil
  then show ?case by (intro exI [of _ "[]"]) auto
next
  case (Cons p ps)
  from Cons.prems obtain ex po changes l1 w1 w2 w3 where
    x: "ph_exit p = Some ex"
    and r: "run_phase R c p goal ex (oc_changes out) (set_phase (ph_name p) l) w1 = (Inr (po, changes), l1, w2)"
    and k: "(if \<not> vd_holds (po_verdict po)
        then (Inr ((add_outcome po changes (le_rows l1) (out\<lparr>oc_phase := ph_name p\<rparr>))\<lparr>oc_stop := ConditionUnmet\<rparr>), w3)
        else run_phases R c goal ps (add_outcome po changes (le_rows l1) (out\<lparr>oc_phase := ph_name p\<rparr>)) l1 w3) = (Inr out', w')"
    by (auto simp: Let_def simp del: append_all.simps split: prod.splits sum.splits option.splits)
  note o' = run_phase_outcome [OF r x]
  show ?case
  proof (cases "vd_holds (po_verdict po)")
    case True
    with k have "run_phases R c goal ps (add_outcome po changes (le_rows l1) (out\<lparr>oc_phase := ph_name p\<rparr>)) l1 w3 = (Inr out', w')"
      by simp
    from Cons.IH [OF this] obtain pos where "oc_phases out' = oc_phases out @ [po] @ pos" "run_record (oc_stop out') ps pos"
      by (auto simp: add_outcome_def)
    with o' True show ?thesis by (intro exI [of _ "po # pos"]) simp
  next
    case False
    with k have "oc_phases out' = oc_phases out @ [po]" "oc_stop out' = ConditionUnmet" by (auto simp: add_outcome_def)
    with o' False show ?thesis by (intro exI [of _ "[po]"]) simp
  qed
qed

lemma run_record_complete: "run_record CycleComplete ps pos \<Longrightarrow> list_all2 phase_held ps pos"
  by (induction CycleComplete ps pos rule: run_record.induct) auto

lemma run_record_stop: "run_record st ps pos \<Longrightarrow> st = CycleComplete \<or> st = ConditionUnmet"
  by (induction st ps pos rule: run_record.induct) auto

lemma run_record_attempts: "run_record st ps pos \<Longrightarrow> sum_list (map po_attempts pos) \<le> sum_list (map attempts ps)"
  by (induction st ps pos rule: run_record.induct) (auto simp: phase_held_def phase_refused_def attempted_def)

lemma run_phases_unmet:
  "run_phases R c goal ps out l w = (Inr out', w') \<Longrightarrow> oc_stop out' = ConditionUnmet \<Longrightarrow> \<not> vd_holds (oc_verdict out')"
  by (induction ps arbitrary: out l w)
    (auto simp: Let_def add_outcome_def simp del: append_all.simps split: prod.splits sum.splits option.splits if_splits)

text \<open>
  C11: a cycle that ends without an error reports \<open>complete\<close> only when every phase, in order, ended with its
  exit condition observed to hold, and \<open>condition_unmet\<close> only when one phase used every attempt it has
  and its condition did not hold after the last, every phase before it having held. No phase is attempted
  more often than its bound, and none is skipped.
\<close>

theorem cycle_complete_observed:
  "case fst (run_cycle R c goal w) of
     Inl e \<Rightarrow> True
   | Inr out \<Rightarrow>
       run_record (oc_stop out) (cy_phases c) (oc_phases out)
       \<and> (if oc_stop out = CycleComplete then list_all2 phase_held (cy_phases c) (oc_phases out)
          else oc_stop out = ConditionUnmet \<and> \<not> vd_holds (oc_verdict out))
       \<and> sum_list (map po_attempts (oc_phases out)) \<le> sum_list (map attempts (cy_phases c))"
proof (cases "run_cycle R c goal w")
  case (Pair res w')
  show ?thesis
  proof (cases res)
    case (Inr out)
    with Pair obtain out0 l where run: "run_phases R (cy_name c) goal (cy_phases c) out0 l w = (Inr out, w')" "oc_phases out0 = []"
      by (auto simp: run_cycle_def split: option.splits)
    from run_phases_record [OF run(1)] run(2) have r: "run_record (oc_stop out) (cy_phases c) (oc_phases out)" by auto
    from run_record_complete run_record_stop [OF r] run_record_attempts [OF r] run_phases_unmet [OF run(1)] r Pair Inr
    show ?thesis by auto
  qed (simp add: Pair)
qed

end
