(* ===== verification/GoNumbers.thy ===== *)
theory GoNumbers
  imports GoStrings
begin

text \<open>\<open>strconv\<close>'s reading of decimal numbers, and that it reads back what \<open>%d\<close> prints.\<close>

definition decimal :: "char \<Rightarrow> bool" where
  "decimal c \<longleftrightarrow> c \<in> set ''0123456789''"

definition digits_value :: "string \<Rightarrow> nat" where
  "digits_value s = foldl (\<lambda>n c. 10 * n + (of_char c - 48)) 0 s"

text \<open>\<open>strconv.Atoi\<close>: a sign, digits, and a value of 64 bits.\<close>

definition atoi :: "string \<Rightarrow> int option" where
  "atoi s =
     (let neg = has_prefix s ''-''; ds = (if neg \<or> has_prefix s ''+'' then tl s else s);
          v = (if neg then - int (digits_value ds) else int (digits_value ds))
      in if ds = [] \<or> \<not> list_all decimal ds then None
         else if v < - (2 ^ 63) \<or> 2 ^ 63 \<le> v then None else Some v)"

lemma decimal_digit: "(n::nat) < 10 \<Longrightarrow> decimal (char_of (48 + n))"
proof -
  have "list_all (\<lambda>n. decimal (char_of (48 + n))) [0..<10::nat]" by code_simp
  then show "n < 10 \<Longrightarrow> decimal (char_of (48 + n))" by (simp add: list_all_iff)
qed

lemma digits_of_ne [simp]: "digits_of n \<noteq> []"
  by (subst digits_of.simps) simp

lemma digits_of_decimal: "list_all decimal (digits_of n)"
  by (induction n rule: digits_of.induct) (subst digits_of.simps, auto simp: decimal_digit)

lemma digits_value_of: "digits_value (digits_of n) = n"
proof (induction n rule: digits_of.induct)
  case (1 n)
  show ?case
  proof (cases "n < 10")
    case True
    then show ?thesis by (subst digits_of.simps) (simp add: digits_value_def)
  next
    case False
    with 1 have "digits_value (digits_of (n div 10)) = n div 10" by simp
    then show ?thesis using False by (subst digits_of.simps) (simp add: digits_value_def)
  qed
qed

text \<open>No leading zero, but for zero itself.\<close>

lemma digits_of_head: "hd (digits_of n) = CHR ''0'' \<longleftrightarrow> n = 0"
proof (induction n rule: digits_of.induct)
  case (1 n)
  have z: "list_all (\<lambda>n. (char_of (48 + n) = CHR ''0'') = (n = 0)) [0..<10::nat]" by code_simp
  show ?case
  proof (cases "n < 10")
    case True
    then show ?thesis using z by (subst digits_of.simps) (simp add: list_all_iff)
  next
    case False
    with 1 show ?thesis by (subst digits_of.simps) (simp add: div_eq_0_iff)
  qed
qed

lemma decimal_not_sign: "decimal c \<Longrightarrow> c \<noteq> CHR ''-'' \<and> c \<noteq> CHR ''+''"
  by (auto simp: decimal_def)

lemma show_nat_shape: "\<exists>c ds. show_nat n = c # ds \<and> list_all decimal (c # ds)"
  using digits_of_decimal [of n] digits_of_ne [of n] by (cases "digits_of n") (auto simp: show_nat_def)

lemma atoi_show_int: "- (2 ^ 63) \<le> i \<Longrightarrow> i < 2 ^ 63 \<Longrightarrow> atoi (show_int i) = Some i"
proof -
  assume i: "- (2 ^ 63) \<le> i" "i < 2 ^ 63"
  obtain c ds where s: "show_nat (nat (- i)) = c # ds" "list_all decimal (c # ds)" using show_nat_shape by metis
  obtain d es where t: "show_nat (nat i) = d # es" "list_all decimal (d # es)" using show_nat_shape by metis
  have v: "digits_value (c # ds) = nat (- i)" "digits_value (d # es) = nat i"
    using digits_value_of s(1) t(1) by (metis show_nat_def)+
  show ?thesis
    using i s t v decimal_not_sign [of d] by (auto simp: atoi_def show_int_def Let_def)
qed

end
