(* ===== verification/GateRevert.thy ===== *)
theory GateRevert
  imports GoTest GoNumbers "HOL-Library.AList"
begin

text \<open>
  Model of \<open>internal/gate/failtopass.go\<close>: the tests a change declares, the diff of the working copy read
  back into hunks, the hunks undone in a throwaway tree, and what the run's tests say there. The Go
  parser, the diff, the workspace and the run of the tests are parameters; a tree is a map from paths to
  contents.
\<close>

section \<open>The tests of a change\<close>

text \<open>A function declaration as the parser gives it: its name, its lines, whether it has a receiver.\<close>

record decl =
  dc_name :: string
  dc_start :: int
  dc_end :: int
  dc_method :: bool

record test_func =
  te_pkg :: string
  te_name :: string

definition go_changes_matching :: "change_t list \<Rightarrow> bool \<Rightarrow> change_t list" where
  "go_changes_matching changes want_tests =
     filter (\<lambda>c. path_ext (cg_path c) = ''.go'' \<and> has_suffix (cg_path c) ''_test.go'' = want_tests) changes"

definition is_test_name :: "string \<Rightarrow> bool" where
  "is_test_name n \<longleftrightarrow> has_prefix n ''Test'' \<or> has_prefix n ''Fuzz''"

definition decl_touched :: "decl \<Rightarrow> (int \<times> int) list \<Rightarrow> bool" where
  "decl_touched d ranges = (ranges = [] \<or> list_ex (\<lambda>(a, b). a \<le> dc_end d \<and> dc_start d \<le> b) ranges)"

definition package_arg :: "string \<Rightarrow> string \<Rightarrow> string" where
  "package_arg repo p =
     (case path_rel repo (path_dir p) of None \<Rightarrow> ''.'' | Some rel \<Rightarrow> if rel = ''.'' then ''.'' else ''./'' @ rel)"

text \<open>\<open>parse\<close> reads and parses a file.\<close>

fun candidate_tests :: "(string \<Rightarrow> string + decl list) \<Rightarrow> string \<Rightarrow> change_t list \<Rightarrow> string + test_func list" where
  "candidate_tests parse repo [] = Inr []"
| "candidate_tests parse repo (c # cs) =
     (let p = (if is_abs (cg_path c) then cg_path c else path_join repo (cg_path c)) in
      case parse p of
        Inl e \<Rightarrow> Inl (''fail-to-pass gate: '' @ cg_path c @ '': '' @ e)
      | Inr decls \<Rightarrow>
          (case candidate_tests parse repo cs of
             Inl e \<Rightarrow> Inl e
           | Inr rest \<Rightarrow>
               Inr (map (\<lambda>d. \<lparr>te_pkg = package_arg repo p, te_name = dc_name d\<rparr>)
                      (filter (\<lambda>d. \<not> dc_method d \<and> is_test_name (dc_name d) \<and> decl_touched d (cg_ranges c)) decls) @ rest)))"

definition changed_tests :: "(string \<Rightarrow> string + decl list) \<Rightarrow> string \<Rightarrow> change_t list \<Rightarrow> string + test_func list" where
  "changed_tests parse repo changes = candidate_tests parse repo (go_changes_matching changes True)"

section \<open>Reading a diff\<close>

record hunk =
  hk_lines :: "string list"
  hk_start :: int
  hk_old :: int
  hk_new :: int

record file_patch =
  fp_path :: string
  fp_hunks :: "hunk list"
  fp_created :: bool
  fp_deleted :: bool

definition parse_range :: "string \<Rightarrow> (int \<times> int) option" where
  "parse_range field =
     (let start = takeWhile (\<lambda>c. c \<noteq> CHR '','') field; rest = dropWhile (\<lambda>c. c \<noteq> CHR '','') field in
      case atoi start of
        None \<Rightarrow> None
      | Some a \<Rightarrow> if rest = [] then Some (a, 1) else map_option (\<lambda>n. (a, n)) (atoi (tl rest)))"

definition parse_hunk_header :: "string \<Rightarrow> hunk option" where
  "parse_hunk_header l =
     (case GoStrings.fields l of
        _ # a # b # _ \<Rightarrow>
          if \<not> has_prefix a ''-'' \<or> \<not> has_prefix b ''+'' then None
          else (case parse_range (tl a) of
                  None \<Rightarrow> None
                | Some (_, old) \<Rightarrow>
                    map_option (\<lambda>(start, new). \<lparr>hk_lines = [], hk_start = start, hk_old = old, hk_new = new\<rparr>) (parse_range (tl b)))
      | _ \<Rightarrow> None)"

definition append_body_line :: "string \<Rightarrow> hunk \<Rightarrow> hunk" where
  "append_body_line l h =
     (if has_prefix l [backslash] \<or> hk_old h = 0 \<and> hk_new h = 0 then h
      else if has_prefix l ''+'' then h\<lparr>hk_new := hk_new h - 1, hk_lines := hk_lines h @ [l]\<rparr>
      else if has_prefix l ''-'' then h\<lparr>hk_old := hk_old h - 1, hk_lines := hk_lines h @ [l]\<rparr>
      else if l = [] \<or> has_prefix l '' ''
      then h\<lparr>hk_old := hk_old h - 1, hk_new := hk_new h - 1, hk_lines := hk_lines h @ [l]\<rparr>
      else h)"

definition diff_path :: "string \<Rightarrow> string" where
  "diff_path field =
     (let f = trim_space field in
      if f = ''/dev/null'' then []
      else case dropWhile (\<lambda>c. c \<noteq> CHR ''/'') f of [] \<Rightarrow> f | _ # r \<Rightarrow> r)"

definition keep_patch :: "string list \<Rightarrow> file_patch list \<Rightarrow> file_patch option \<Rightarrow> file_patch list" where
  "keep_patch want out cur =
     (case cur of
        None \<Rightarrow> out
      | Some p \<Rightarrow> if fp_path p = [] \<or> fp_hunks p = [] \<or> fp_path p \<notin> set want then out else out @ [p])"

type_synonym diff_state = "file_patch list \<times> file_patch option \<times> string"

definition last_hunk :: "(hunk \<Rightarrow> hunk) \<Rightarrow> file_patch \<Rightarrow> file_patch" where
  "last_hunk f p = p\<lparr>fp_hunks := butlast (fp_hunks p) @ [f (last (fp_hunks p))]\<rparr>"

definition diff_line :: "string list \<Rightarrow> string \<Rightarrow> diff_state \<Rightarrow> diff_state" where
  "diff_line want l st =
     (let (out, cur, old) = st in
      if has_prefix l ''diff --git '' then
        (keep_patch want out cur, Some \<lparr>fp_path = [], fp_hunks = [], fp_created = False, fp_deleted = False\<rparr>, [])
      else case cur of
             None \<Rightarrow> st
           | Some p \<Rightarrow>
               if fp_hunks p = [] \<and> has_prefix l ''--- '' then
                 (let o' = diff_path (drop 4 l) in (out, Some (p\<lparr>fp_created := (o' = [])\<rparr>), o'))
               else if fp_hunks p = [] \<and> has_prefix l ''+++ '' then
                 (let n = diff_path (drop 4 l) in
                  (out, Some (p\<lparr>fp_path := if n = [] then old else n, fp_deleted := (n = [])\<rparr>), old))
               else if has_prefix l ''@@'' then
                 (case parse_hunk_header l of
                    None \<Rightarrow> st
                  | Some h \<Rightarrow> (out, Some (p\<lparr>fp_hunks := fp_hunks p @ [h]\<rparr>), old))
               else if fp_hunks p \<noteq> [] then (out, Some (last_hunk (append_body_line l) p), old)
               else st)"

definition parse_git_diff :: "string \<Rightarrow> string list \<Rightarrow> file_patch list" where
  "parse_git_diff diff want =
     (let (out, cur, _) = fold (diff_line want) (split_byte nl diff) ([], None, []) in keep_patch want out cur)"

section \<open>Undoing hunks\<close>

definition line_body :: "string \<Rightarrow> string" where
  "line_body l = (if l = [] then [] else tl l)"

definition hunk_want :: "hunk \<Rightarrow> string list" where
  "hunk_want h = map line_body (filter (\<lambda>l. \<not> has_prefix l ''-'') (hk_lines h))"

definition hunk_replacement :: "hunk \<Rightarrow> string list" where
  "hunk_replacement h = map line_body (filter (\<lambda>l. \<not> has_prefix l ''+'') (hk_lines h))"

definition undo_hunk :: "hunk \<Rightarrow> string list \<Rightarrow> string + string list" where
  "undo_hunk h ls =
     (let w = hunk_want h; k = nat (max (hk_start h - 1) 0) in
      if length ls < k + length w \<or> take (length w) (drop k ls) \<noteq> w
      then Inl ''workspace content does not match the diff being reverted''
      else Inr (take k ls @ hunk_replacement h @ drop (k + length w) ls))"

text \<open>Last first.\<close>

fun undo_hunks :: "hunk list \<Rightarrow> string list \<Rightarrow> string + string list" where
  "undo_hunks [] ls = Inr ls"
| "undo_hunks (h # hs) ls = (case undo_hunks hs ls of Inl e \<Rightarrow> Inl e | Inr ls' \<Rightarrow> undo_hunk h ls')"

definition split_lines :: "string \<Rightarrow> string list \<times> bool" where
  "split_lines s =
     (if s = [] then ([], True)
      else if has_suffix s [nl] then (split_byte nl (trim_suffix s [nl]), True)
      else (split_byte nl s, False))"

definition join_lines :: "string list \<Rightarrow> bool \<Rightarrow> string" where
  "join_lines ls trailing = (if ls = [] then [] else join_with [nl] ls @ (if trailing then [nl] else []))"

definition revert_lines :: "string \<Rightarrow> hunk list \<Rightarrow> string + string" where
  "revert_lines content hunks =
     (let (ls, trailing) = split_lines content in
      case undo_hunks hunks ls of Inl e \<Rightarrow> Inl e | Inr ls' \<Rightarrow> Inr (join_lines ls' trailing))"

type_synonym tree = "(string \<times> string) list"

definition revert_one :: "file_patch \<Rightarrow> tree \<Rightarrow> string + tree" where
  "revert_one p t =
     (if fp_created p then
        (case map_of t (fp_path p) of
           None \<Rightarrow> Inl (''removing '' @ fp_path p)
         | Some _ \<Rightarrow> Inr (filter (\<lambda>(q, _). q \<noteq> fp_path p) t))
      else
        (case (if fp_deleted p then Some [] else map_of t (fp_path p)) of
           None \<Rightarrow> Inl (''reading '' @ fp_path p)
         | Some current \<Rightarrow>
             (case revert_lines current (fp_hunks p) of
                Inl e \<Rightarrow> Inl e
              | Inr content \<Rightarrow> Inr (AList.update (fp_path p) content t))))"

fun revert_in_workspace :: "file_patch list \<Rightarrow> tree \<Rightarrow> string + tree" where
  "revert_in_workspace [] t = Inr t"
| "revert_in_workspace (p # ps) t =
     (case revert_one p t of
        Inl e \<Rightarrow> Inl (''fail-to-pass gate: reverting '' @ fp_path p @ '': '' @ e)
      | Inr t' \<Rightarrow> revert_in_workspace ps t')"

section \<open>The gate\<close>

definition survived_revert_test :: string where
  "survived_revert_test = ''survives-revert''"

definition fail_to_pass_name :: string where
  "fail_to_pass_name = ''fail-to-pass''"

definition revert_verdict :: "level \<Rightarrow> test_func list \<Rightarrow> go_test_summary \<Rightarrow> gate_result" where
  "revert_verdict lvl candidates s =
     (let r = \<lparr>gr_gate = fail_to_pass_name, gr_level = lvl, gr_reason = [], gr_failures = [], gr_advisories = [],
               gr_rewrote = [], gr_examined = 0, gr_pass = True\<rparr>;
          wanted = (\<lambda>n. n \<in> set (map te_name candidates) \<and> CHR ''/'' \<notin> set n);
          survived = filter (\<lambda>tid. wanted (snd (split_test_id tid))) (gs_passed s);
          killed = filter (\<lambda>f. wanted (ft_name f)) (gs_failed s)
      in if gs_build_failed s then r\<lparr>gr_examined := int (length candidates)\<rparr>
         else if survived = [] \<and> killed = [] then
           examined_nothing fail_to_pass_name lvl
             (''none of the '' @ show_nat (length candidates) @ '' test(s) this run wrote ran against the reverted tree'')
         else r\<lparr>gr_examined := int (length survived + length killed),
                gr_advisories := map (\<lambda>tid.
                  \<lparr>tf_test = survived_revert_test, tf_package = fst (split_test_id tid), tf_writer = [],
                   tf_frames = [snd (split_test_id tid) @
                     '' passes with the run's non-test changes reverted, so it does not check them''],
                   tf_context = []\<rparr>) survived\<rparr>)"

definition revert_patches :: "string + string \<Rightarrow> string \<Rightarrow> change_t list \<Rightarrow> string + file_patch list" where
  "revert_patches diff repo code =
     (case diff of
        Inl e \<Rightarrow> Inl (''fail-to-pass gate: '' @ e)
      | Inr d \<Rightarrow>
          let rels = map (\<lambda>c. path_rel repo (path_join repo (cg_path c))) code in
          if None \<in> set rels then Inl ''fail-to-pass gate: locating a changed file''
          else Inr (parse_git_diff d (map the rels)))"

definition regex_of :: "string list \<Rightarrow> string" where
  "regex_of names = ''^('' @ join_with ''|'' (sort_strings (dedup [] names)) @ '')$''"

definition candidate_args :: "test_func list \<Rightarrow> string list" where
  "candidate_args cs =
     [''test'', ''-count=1'', ''-json'', ''-run'', regex_of (map te_name cs)] @ sort_strings (dedup [] (map te_pkg cs))"

text \<open>
  \<open>FailToPassGate.Run\<close>: \<open>copy\<close> is the tree of a new workspace, \<open>go\<close> the events of a run in a tree.
\<close>

definition fail_to_pass ::
  "(string \<Rightarrow> string + decl list) \<Rightarrow> string + string \<Rightarrow> string + tree \<Rightarrow> (tree \<Rightarrow> string list \<Rightarrow> string + go_test_event list)
     \<Rightarrow> string \<Rightarrow> change_t list \<Rightarrow> level \<Rightarrow> string + gate_result" where
  "fail_to_pass parse diff copy go repo changes lvl =
     (let tests = go_changes_matching changes True; code = go_changes_matching changes False in
      if go_files changes = [] then
        Inr \<lparr>gr_gate = fail_to_pass_name, gr_level = lvl, gr_reason = [], gr_failures = [], gr_advisories = [],
             gr_rewrote = [], gr_examined = 0, gr_pass = True\<rparr>
      else if tests = [] then
        Inr (abstained fail_to_pass_name lvl (show_nat (length (go_files changes)) @
          '' changed Go file(s) and no changed test file, so this run wrote no test to check''))
      else if code = [] then
        Inr (abstained fail_to_pass_name lvl ''the change set is test-only, so there is no non-test hunk to revert'')
      else case candidate_tests parse repo tests of
             Inl e \<Rightarrow> Inl e
           | Inr cs \<Rightarrow>
               if cs = [] then
                 Inr (abstained fail_to_pass_name lvl (show_nat (length tests) @
                   '' changed test file(s) declare no test function on their changed lines''))
               else (case revert_patches diff repo code of
                  Inl e \<Rightarrow> Inl e
                | Inr patches \<Rightarrow>
                    if patches = [] then
                      Inr (examined_nothing fail_to_pass_name lvl (''the working copy holds no hunk for '' @
                        show_nat (length code) @ '' changed non-test Go file(s), so nothing could be reverted''))
                    else (case copy of
                       Inl e \<Rightarrow> Inl (''fail-to-pass gate: '' @ e)
                     | Inr t \<Rightarrow>
                         (case revert_in_workspace patches t of
                            Inl e \<Rightarrow> Inl e
                          | Inr t' \<Rightarrow>
                              (case go t' (candidate_args cs) of
                                 Inl e \<Rightarrow> Inl (''fail-to-pass gate: '' @ e)
                               | Inr evs \<Rightarrow> Inr (revert_verdict lvl cs (parse_go_test evs)))))))"

section \<open>Undoing is the inverse of the change\<close>

text \<open>
  A change of a file as the pieces of its diff: lines that stay outside every hunk, then a hunk of lines
  kept, added and removed; and the lines after the last hunk.
\<close>

datatype dline = Keep string | Plus string | Minus string

fun body_text :: "dline \<Rightarrow> string" where
  "body_text (Keep s) = CHR '' '' # s"
| "body_text (Plus s) = CHR ''+'' # s"
| "body_text (Minus s) = CHR ''-'' # s"

fun new_side :: "dline list \<Rightarrow> string list" where
  "new_side [] = []"
| "new_side (Minus s # ds) = new_side ds"
| "new_side (Keep s # ds) = s # new_side ds"
| "new_side (Plus s # ds) = s # new_side ds"

fun old_side :: "dline list \<Rightarrow> string list" where
  "old_side [] = []"
| "old_side (Plus s # ds) = old_side ds"
| "old_side (Keep s # ds) = s # old_side ds"
| "old_side (Minus s # ds) = s # old_side ds"

type_synonym piece = "string list \<times> dline list"

definition new_lines :: "piece list \<Rightarrow> string list \<Rightarrow> string list" where
  "new_lines ps rest = concat (map (\<lambda>(gap, ds). gap @ new_side ds) ps) @ rest"

definition old_lines :: "piece list \<Rightarrow> string list \<Rightarrow> string list" where
  "old_lines ps rest = concat (map (\<lambda>(gap, ds). gap @ old_side ds) ps) @ rest"

text \<open>The hunks git prints for it; \<open>n\<close> lines of the new file come before.\<close>

fun hunks_of :: "nat \<Rightarrow> piece list \<Rightarrow> hunk list" where
  "hunks_of n [] = []"
| "hunks_of n ((gap, ds) # ps) =
     \<lparr>hk_lines = map body_text ds,
      hk_start = int (n + length gap) + (if new_side ds = [] then 0 else 1), hk_old = 0, hk_new = 0\<rparr>
     # hunks_of (n + length gap + length (new_side ds)) ps"

lemma want_new_side: "map line_body (filter (\<lambda>l. \<not> has_prefix l ''-'') (map body_text ds)) = new_side ds"
  by (induction ds rule: new_side.induct) (auto simp: line_body_def)

lemma replacement_old_side: "map line_body (filter (\<lambda>l. \<not> has_prefix l ''+'') (map body_text ds)) = old_side ds"
  by (induction ds rule: old_side.induct) (auto simp: line_body_def)

lemma undo_hunks_of:
  "list_all (\<lambda>(gap, ds). new_side ds \<noteq> []) ps \<Longrightarrow>
     undo_hunks (hunks_of (length pre) ps) (pre @ new_lines ps rest) = Inr (pre @ old_lines ps rest)"
proof (induction ps arbitrary: pre)
  case Nil
  then show ?case by (simp add: new_lines_def old_lines_def)
next
  case (Cons p ps)
  obtain gap ds where p: "p = (gap, ds)" by (cases p)
  with Cons.prems have n: "new_side ds \<noteq> []" by simp
  have "undo_hunks (hunks_of (length (pre @ gap @ new_side ds)) ps) ((pre @ gap @ new_side ds) @ new_lines ps rest)
      = Inr ((pre @ gap @ new_side ds) @ old_lines ps rest)"
    by (rule Cons.IH) (use Cons.prems in simp)
  then show ?case
    by (simp add: p new_lines_def old_lines_def undo_hunk_def hunk_want_def hunk_replacement_def want_new_side
        replacement_old_side n nat_add_distrib Let_def add.assoc)
qed

definition whole_lines :: "string list \<Rightarrow> bool \<Rightarrow> bool" where
  "whole_lines ls trailing \<longleftrightarrow> list_all (\<lambda>l. nl \<notin> set l) ls \<and> (if ls = [] then trailing else trailing \<or> last ls \<noteq> [])"

lemma join_with_last: "ls \<noteq> [] \<Longrightarrow> \<exists>a. join_with [nl] ls = a @ last ls"
  by (induction ls rule: induct_list012) (auto intro: exI [of _ "_ @ nl # _"])

lemma split_join_lines:
  assumes "whole_lines ls trailing"
  shows "split_lines (join_lines ls trailing) = (ls, trailing)"
proof (cases "ls = []")
  case True
  with assms show ?thesis by (simp add: split_lines_def join_lines_def whole_lines_def)
next
  case False
  have s: "split_byte nl (join_with [nl] ls) = ls"
    using False assms by (intro split_join_byte) (auto simp: whole_lines_def list_all_iff)
  show ?thesis
  proof (cases trailing)
    case True
    then show ?thesis using False s by (simp add: split_lines_def join_lines_def trim_suffix_def has_suffix_def)
  next
    case nt: False
    with assms False have l: "last ls \<noteq> []" "nl \<notin> set (last ls)" by (auto simp: whole_lines_def list_all_iff)
    obtain a where a: "join_with [nl] ls = a @ last ls" using join_with_last [OF False] by blast
    have "last (last ls) \<noteq> nl" using l last_in_set by metis
    with a l have "last (join_with [nl] ls) \<noteq> nl" "join_with [nl] ls \<noteq> []" by (simp_all add: last_append)
    then have "\<not> has_suffix (join_with [nl] ls) [nl]" 
      by (cases "join_with [nl] ls" rule: rev_cases) (simp_all add: has_suffix_def)
    with nt False s \<open>join_with [nl] ls \<noteq> []\<close> show ?thesis by (simp add: split_lines_def join_lines_def)
  qed
qed


definition demo_pieces :: "piece list" where
  "demo_pieces = [([''package a''], [Keep [], Minus ''func f() { g() }'', Plus ''func f() {'', Plus ''}'']), ([''x''], [Plus ''y''])]"


text \<open>
  A hunk that leaves nothing in the new file starts, in git's count, at the line before it: it is put back
  one line too early. Diffs with context have no such hunk unless the file becomes empty.
\<close>

lemma deletion_without_context:
  "revert_lines (join_lines [''a'', ''c''] True) (hunks_of 0 [([''a''], [Minus ''b''])]) = Inr (join_lines [''b'', ''a'', ''c''] True)"
  by code_simp

text \<open>The marker of a missing last newline is skipped, so a change of it alone is not undone.\<close>

lemma last_newline_lost:
  "append_body_line (backslash # '' No newline at end of file'') h = h"
  by (simp add: append_body_line_def)

end
