(* ===== verification/CycleChecks.thy ===== *)
theory CycleChecks
  imports CycleFacts GateRevert
begin

text \<open>
  Model of \<open>internal/cycle/conditions.go\<close>, \<open>probe.go\<close> and \<open>fix.go\<close>: the exit conditions a project may put on
  a phase, the run of the tests a change declares, the sweep, the built-in fix cycle and the cycles of a
  configuration. The runs of \<open>go test\<close>, of ast-grep, and the file system act on the world \<open>'w\<close>.
\<close>

section \<open>What the conditions observe\<close>

record observation =
  ob_package :: string
  ob_test :: string
  ob_detail :: string
  ob_failed :: bool

record hit =
  ht_file :: string
  ht_line :: int

record 'w checks =
  ck_probe :: "string \<Rightarrow> change_t list \<Rightarrow> 'w \<Rightarrow> (string + observation list) \<times> 'w"
  ck_sweep :: "string \<Rightarrow> sweep \<Rightarrow> 'w \<Rightarrow> (string + hit list) \<times> 'w"
  ck_there :: "string \<Rightarrow> 'w \<Rightarrow> bool"

definition failing :: "observation list \<Rightarrow> string list" where
  "failing os = map ob_test (filter ob_failed os)"

definition artifact_fails_name :: string where
  "artifact_fails_name = ''artifact-fails''"

definition artifact_passes_gated_name :: string where
  "artifact_passes_gated_name = ''artifact-passes-gates-green''"

definition sweep_accounted_name :: string where
  "sweep_accounted_name = ''sweep-accounted''"

definition artifact_fails :: "'w checks \<Rightarrow> 'w exit_condition" where
  "artifact_fails K =
     \<lparr>cn_name = artifact_fails_name,
      cn_holds = (\<lambda>s w. case ck_probe K (cs_repo s) (cs_changes s) w of
        (Inl e, w) \<Rightarrow> (Inl (''probing the change set's tests: '' @ e), w)
      | (Inr os, w) \<Rightarrow>
          (Inr (if os = [] then
                  unmet artifact_fails_name ''the change set declares no test on its changed lines, so it produced no artifact to fail''
                else if failing os \<noteq> [] then met artifact_fails_name (join_with '', '' (failing os) @ '' fails on the current tree'')
                else unmet artifact_fails_name (''all '' @ show_nat (length os) @
                       '' test(s) the change set declares pass on the current tree, so nothing is reproduced'')), w))\<rparr>"

definition artifact_passes :: "'w checks \<Rightarrow> 'w exit_condition" where
  "artifact_passes K =
     \<lparr>cn_name = ''artifact-passes'',
      cn_holds = (\<lambda>s w. case ck_probe K (cs_repo s) (cs_changes s) w of
        (Inl e, w) \<Rightarrow> (Inl (''probing the change set's tests: '' @ e), w)
      | (Inr os, w) \<Rightarrow>
          (Inr (if os = [] then
                  unmet ''artifact-passes'' ''the change set declares no test, so there is no artifact to pass''
                else if failing os \<noteq> [] then unmet ''artifact-passes'' (join_with '', '' (failing os) @ '' still fails'')
                else met ''artifact-passes'' (''all '' @ show_nat (length os) @ '' test(s) the change set declares pass'')), w))\<rparr>"

definition gates_green :: "'w exit_condition" where
  "gates_green =
     \<lparr>cn_name = ''gates-green'',
      cn_holds = (\<lambda>s w. (Inr (if cs_complete s then met ''gates-green'' ''the phase's loop completed with its gates green''
                             else unmet ''gates-green'' (''the phase's loop stopped early: '' @ cs_reason s)), w))\<rparr>"

definition same_site :: "hit \<Rightarrow> dismissal \<Rightarrow> bool" where
  "same_site h d \<longleftrightarrow> ht_file h = di_file d \<and> (di_line d = 0 \<or> di_line d = ht_line h)"

definition untriaged :: "hit list \<Rightarrow> dismissal list \<Rightarrow> string list" where
  "untriaged hits ds =
     map (\<lambda>h. ht_file h @ '':'' @ show_int (ht_line h)) (filter (\<lambda>h. \<not> list_ex (same_site h) ds) hits)"

definition in_change_set :: "change_t list \<Rightarrow> string \<Rightarrow> bool" where
  "in_change_set changes p \<longleftrightarrow> list_ex (\<lambda>c. clean (cg_path c) = clean p) changes"

definition inside_repo :: "string \<Rightarrow> string \<Rightarrow> bool" where
  "inside_repo repo p =
     (case path_rel repo p of None \<Rightarrow> False | Some rel \<Rightarrow> rel \<noteq> dotdot \<and> \<not> has_prefix rel (dotdot @ ''/''))"

definition durable_artifact :: "'w checks \<Rightarrow> sweep \<Rightarrow> cycle_state \<Rightarrow> nat \<Rightarrow> nat \<Rightarrow> 'w \<Rightarrow> verdict option" where
  "durable_artifact K sw s hits left w =
     (let a = sw_artifact sw; p = path_join (cs_repo s) a in
      if a = [] then None
      else Some
        (if \<not> inside_repo (cs_repo s) p then unmet sweep_accounted_name ''the named durable artifact points outside the project''
         else if \<not> ck_there K p w then unmet sweep_accounted_name (''the named durable artifact '' @ a @ '' does not exist'')
         else if \<not> in_change_set (cs_changes s) a then
           unmet sweep_accounted_name (''the named durable artifact '' @ a @
             '' is not in this cycle's change set, so this run did not write it'')
         else met sweep_accounted_name (''the sweep does not discriminate ('' @ show_nat hits @ '' hit(s), '' @ show_nat left @
                '' untriaged) and '' @ a @ '' is written in its place'')))"

definition sweep_accounted :: "'w checks \<Rightarrow> 'w exit_condition" where
  "sweep_accounted K =
     \<lparr>cn_name = sweep_accounted_name,
      cn_holds = (\<lambda>s w. case last_sweep (cs_rows s) of
        None \<Rightarrow> (Inr (unmet sweep_accounted_name
                       ''no sweep was recorded, so nothing establishes where else the cause reaches''), w)
      | Some sw \<Rightarrow>
          (case ck_sweep K (cs_repo s) sw w of
             (Inl e, w) \<Rightarrow> (Inl (''re-running the recorded sweep: '' @ e), w)
           | (Inr hits, w) \<Rightarrow>
               let left = untriaged hits (sw_dismissed sw) in
               (Inr (if left = [] then
                       met sweep_accounted_name (''the sweep leaves '' @ show_nat (length hits) @
                         '' hit(s), each fixed or dismissed with a reason'')
                     else case durable_artifact K sw s (length hits) (length left) w of
                            Some v \<Rightarrow> v
                          | None \<Rightarrow> unmet sweep_accounted_name (show_nat (length left) @ '' of '' @ show_nat (length hits) @
                              '' sweep hit(s) are neither fixed nor dismissed ('' @ join_with '', '' left @
                              '') and no durable artifact is named'')), w)))\<rparr>"

definition conditions :: "'w checks \<Rightarrow> string \<Rightarrow> 'w exit_condition option" where
  "conditions K name =
     (if name = artifact_fails_name then Some (artifact_fails K)
      else if name = artifact_passes_gated_name then
        Some (all_cond artifact_passes_gated_name [artifact_passes K, gates_green])
      else if name = sweep_accounted_name then Some (sweep_accounted K)
      else None)"

section \<open>Running the declared tests\<close>

definition short_name :: "string \<Rightarrow> string" where
  "short_name tid = (if CHR ''.'' \<in> set tid then rev (takeWhile (\<lambda>c. c \<noteq> CHR ''.'') (rev tid)) else tid)"

definition observe_one :: "go_test_summary \<Rightarrow> test_func \<Rightarrow> observation" where
  "observe_one s t =
     (let o' = (\<lambda>d f. \<lparr>ob_package = te_pkg t, ob_test = te_name t, ob_detail = d, ob_failed = f\<rparr>) in
      if gs_build_failed s then o' ''the package does not build'' True
      else case List.find (\<lambda>f. ft_name f = te_name t) (rev (gs_failed s)) of
             Some f \<Rightarrow> o' (join_with [nl] (ft_output f)) True
           | None \<Rightarrow> if te_name t \<in> set (map short_name (gs_passed s)) then o' ''passed'' False
                     else o' ''the test did not run'' True)"

definition observe :: "test_func list \<Rightarrow> go_test_summary \<Rightarrow> observation list" where
  "observe ts s = map (observe_one s) ts"

definition probe_args :: "test_func list \<Rightarrow> string list" where
  "probe_args ts =
     [''test'', ''-count=1'', ''-json'', ''-run'', ''^('' @ join_with ''|'' (sorted_keys (map te_name ts)) @ '')$'']
     @ sorted_keys (map te_pkg ts)"

definition go_probe ::
  "(string \<Rightarrow> 'w \<Rightarrow> string + decl list) \<Rightarrow> (string list \<Rightarrow> 'w \<Rightarrow> (string + go_test_event list) \<times> 'w)
     \<Rightarrow> string \<Rightarrow> change_t list \<Rightarrow> 'w \<Rightarrow> (string + observation list) \<times> 'w" where
  "go_probe parse go repo changes w =
     (case changed_tests (\<lambda>p. parse p w) repo changes of
        Inl e \<Rightarrow> (Inl (''reading the change set's tests: '' @ e), w)
      | Inr ts \<Rightarrow>
          if ts = [] then (Inr [], w)
          else (case go (probe_args ts) w of
                  (Inl e, w) \<Rightarrow> (Inl (''parsing go test output: '' @ e), w)
                | (Inr evs, w) \<Rightarrow> (Inr (observe ts (parse_go_test evs)), w)))"

definition default_sweep_language :: string where
  "default_sweep_language = ''go''"

definition ast_sweep ::
  "(string \<Rightarrow> string \<Rightarrow> string \<Rightarrow> string list \<Rightarrow> 'w \<Rightarrow> (string + hit list) \<times> 'w) \<Rightarrow> string \<Rightarrow> sweep \<Rightarrow> 'w
     \<Rightarrow> (string + hit list) \<times> 'w" where
  "ast_sweep scan repo sw w =
     (case scan repo (sw_pattern sw) (if sw_language sw = [] then default_sweep_language else sw_language sw)
             (if sw_path sw \<noteq> [] then [sw_path sw] else []) w of
        (Inl e, w) \<Rightarrow> (Inl (''sweeping for '' @ [dquote] @ sw_pattern sw @ [dquote] @ '': '' @ e), w)
      | (Inr hits, w) \<Rightarrow> (Inr hits, w))"

section \<open>The cycles of a project\<close>

definition investigate_tools :: "string list" where
  "investigate_tools = [''read'', ''search'', ''context'', ''delete'', ''rename'', ''str_replace'', ''write'', ''shell'', ''hypothesis'']"

definition generalize_tools :: "string list" where
  "generalize_tools = [''read'', ''search'', ''context'', ''delete'', ''rename'', ''str_replace'', ''write'', ''sweep'', ''hypothesis'']"

definition reproduce_goal :: string where
  "reproduce_goal =
     ''Write the artifact that demonstrates the bug: a test that fails on the tree as it '' @
     ''stands. Do not fix anything yet. Record each candidate cause you test with the '' @
     ''hypothesis tool, including the ones you falsify.''"

definition fix_goal :: string where
  "fix_goal =
     ''Make the failing test pass by fixing the cause, not the symptom. The test you wrote '' @
     ''must still fail when your fix is reverted, so do not weaken it.''"

definition generalize_goal :: string where
  "generalize_goal =
     ''Establish where else this cause reaches. Express it as one structural pattern and '' @
     ''call the sweep tool, then fix every hit or dismiss it with a reason. If the pattern '' @
     ''does not discriminate, name a durable artifact you wrote instead: a rule file, a '' @
     ''helper that makes the wrong call impossible, or a test at the boundary.''"

definition fix_cycle :: "'w checks \<Rightarrow> 'w cycle" where
  "fix_cycle K =
     \<lparr>cy_name = ''fix'',
      cy_phases =
        [\<lparr>ph_exit = Some (artifact_fails K), ph_name = ''reproduce'', ph_goal = reproduce_goal, ph_tools = investigate_tools,
          ph_max = 0, ph_gated = False\<rparr>,
         \<lparr>ph_exit = conditions K artifact_passes_gated_name, ph_name = ''fix'', ph_goal = fix_goal,
          ph_tools = investigate_tools, ph_max = 0, ph_gated = True\<rparr>,
         \<lparr>ph_exit = Some (sweep_accounted K), ph_name = ''generalize'', ph_goal = generalize_goal,
          ph_tools = generalize_tools, ph_max = 0, ph_gated = True\<rparr>]\<rparr>"

record phase_spec =
  sp_name :: string
  sp_goal :: string
  sp_exit :: string
  sp_tools :: "string list"
  sp_max :: int
  sp_gated :: bool

record cycle_spec =
  cp_name :: string
  cp_phases :: "phase_spec list"

fun resolve_phases :: "'w checks \<Rightarrow> string \<Rightarrow> phase_spec list \<Rightarrow> string + 'w phase list" where
  "resolve_phases K c [] = Inr []"
| "resolve_phases K c (p # ps) =
     (case conditions K (sp_exit p) of
        None \<Rightarrow> Inl (''cycle: unknown exit condition: '' @ [dquote] @ sp_exit p @ [dquote] @ '' on '' @ c @ ''/'' @ sp_name p)
      | Some ex \<Rightarrow>
          (case resolve_phases K c ps of
             Inl e \<Rightarrow> Inl e
           | Inr rest \<Rightarrow> Inr (\<lparr>ph_exit = Some ex, ph_name = sp_name p, ph_goal = sp_goal p, ph_tools = sp_tools p,
                               ph_max = sp_max p, ph_gated = sp_gated p\<rparr> # rest)))"

fun resolve_into :: "'w checks \<Rightarrow> cycle_spec list \<Rightarrow> (string \<times> 'w cycle) list \<Rightarrow> string + (string \<times> 'w cycle) list" where
  "resolve_into K [] out = Inr out"
| "resolve_into K (sp # sps) out =
     (case resolve_phases K (cp_name sp) (cp_phases sp) of
        Inl e \<Rightarrow> Inl e
      | Inr ps \<Rightarrow>
          let c = \<lparr>cy_name = cp_name sp, cy_phases = ps\<rparr> in
          (case validate c of
             Some e \<Rightarrow> Inl e
           | None \<Rightarrow> resolve_into K sps (AList.update (cp_name sp) c out)))"

definition resolve :: "'w checks \<Rightarrow> cycle_spec list \<Rightarrow> string + (string \<times> 'w cycle) list" where
  "resolve K specs = resolve_into K specs [(''fix'', fix_cycle K)]"

section \<open>Every cycle of a configuration can run\<close>

lemma resolve_phases_exits: "resolve_phases K c ps = Inr ps' \<Longrightarrow> list_all (\<lambda>p. ph_exit p \<noteq> None) ps'"
  by (induction ps arbitrary: ps') (auto split: option.splits sum.splits)

lemma resolve_into_valid:
  "list_all (\<lambda>(n, c). validate c = None) out \<Longrightarrow> resolve_into K sps out = Inr out' \<Longrightarrow>
     list_all (\<lambda>(n, c). validate c = None) out'"
proof (induction sps arbitrary: out)
  case (Cons sp sps)
  from Cons.prems obtain ps where v: "validate \<lparr>cy_name = cp_name sp, cy_phases = ps\<rparr> = None"
    and r: "resolve_into K sps (AList.update (cp_name sp) \<lparr>cy_name = cp_name sp, cy_phases = ps\<rparr> out) = Inr out'"
    by (auto simp: Let_def split: sum.splits option.splits)
  have "list_all (\<lambda>(n, c). validate c = None) (AList.update (cp_name sp) \<lparr>cy_name = cp_name sp, cy_phases = ps\<rparr> out)"
    using Cons.prems(1) v by (induction out) auto
  from Cons.IH [OF this r] show ?case .
qed simp

lemma fix_cycle_valid: "validate (fix_cycle K) = None"
  by (simp add: validate_def fix_cycle_def conditions_def artifact_passes_gated_name_def artifact_fails_name_def)

lemma resolve_valid: "resolve K specs = Inr cs \<Longrightarrow> list_all (\<lambda>(n, c). validate c = None) cs"
  unfolding resolve_def using resolve_into_valid [of "[(''fix'', fix_cycle K)]" K specs cs] by (simp add: fix_cycle_valid)

section \<open>A test that did not run\<close>

text \<open>A project whose one test, on the changed lines, is skipped; the driver does no more than report the change.\<close>

definition demo_test_change :: change_t where
  "demo_test_change = \<lparr>cg_path = ''p/a_test.go'', cg_writer = [], cg_ranges = [(1, 9)], cg_added = 9, cg_removed = 0\<rparr>"

definition demo_event :: "string \<Rightarrow> string \<Rightarrow> string \<Rightarrow> go_test_event" where
  "demo_event act pkg t =
     \<lparr>ge_action = act, ge_package = pkg, ge_test = t, ge_output = [], ge_import_path = [], ge_failed_build = []\<rparr>"

definition demo_checks :: "go_test_event list \<Rightarrow> decl list \<Rightarrow> unit checks" where
  "demo_checks evs ds =
     \<lparr>ck_probe = go_probe (\<lambda>_ _. Inr ds) (\<lambda>_ w. (Inr evs, w)), ck_sweep = (\<lambda>_ _ w. (Inr [], w)), ck_there = (\<lambda>_ _. False)\<rparr>"

definition demo_state :: "change_t list \<Rightarrow> bool \<Rightarrow> cycle_state" where
  "demo_state changes done_ok =
     \<lparr>cs_repo = ''/r'', cs_goal = [], cs_phase = [], cs_reason = [], cs_changes = changes,
      cs_rows = \<lparr>ro_hypotheses = [], ro_sweeps = []\<rparr>, cs_complete = done_ok\<rparr>"

definition demo_decl :: "string \<Rightarrow> int \<Rightarrow> int \<Rightarrow> decl" where
  "demo_decl n a b = \<lparr>dc_name = n, dc_start = a, dc_end = b, dc_method = False\<rparr>"

definition verdict_holds :: "'w exit_condition \<Rightarrow> cycle_state \<Rightarrow> 'w \<Rightarrow> bool" where
  "verdict_holds ex s w = (case fst (cn_holds ex s w) of Inl _ \<Rightarrow> False | Inr v \<Rightarrow> vd_holds v)"

lemma observe_unreported:
  "\<not> gs_build_failed s \<Longrightarrow> te_name t \<notin> set (map ft_name (gs_failed s)) \<Longrightarrow> te_name t \<notin> set (map short_name (gs_passed s)) \<Longrightarrow>
     ob_failed (observe_one s t)"
  by (auto simp: observe_one_def Let_def split: option.splits)

text \<open>
  A test which the run reported nothing about counts as failed. That keeps the fix from passing on it, but
  it lets the reproduction hold: a skipped test, or a run that printed nothing at all, is taken for a test
  that fails on the current tree.
\<close>

theorem unrun_test_reproduces:
  "verdict_holds (artifact_fails (demo_checks [demo_event ''skip'' ''m/p'' ''TestBug''] [demo_decl ''TestBug'' 1 9]))
     (demo_state [demo_test_change] True) ()
   \<and> verdict_holds (artifact_fails (demo_checks [] [demo_decl ''TestBug'' 1 9])) (demo_state [demo_test_change] True) ()
   \<and> \<not> verdict_holds (artifact_passes (demo_checks [] [demo_decl ''TestBug'' 1 9])) (demo_state [demo_test_change] True) ()"
  by (intro conjI) (code_simp, code_simp, code_simp)

text \<open>Results are paired by the bare name: a test of another package stands for the one that never ran.\<close>

lemma same_name_stands_in:
  "map ob_failed (observe [\<lparr>te_pkg = ''./p'', te_name = ''TestBug''\<rparr>] (parse_go_test [demo_event ''pass'' ''m/q'' ''TestBug''])) = [False]"
  by code_simp

text \<open>
  The changes of a cycle keep the last ranges recorded for a path. When a later phase touches the test's
  file elsewhere the reproduction is no longer a test of the change set, and the phase can pass on another.
\<close>

lemma reproduction_forgotten:
  "verdict_holds (all_cond artifact_passes_gated_name
       [artifact_passes (demo_checks [demo_event ''fail'' ''m/p'' ''TestBug'', demo_event ''pass'' ''m/p'' ''TestOther'']
          [demo_decl ''TestBug'' 1 9, demo_decl ''TestOther'' 20 25]), gates_green])
     (demo_state (merge_changes [demo_test_change] [demo_test_change\<lparr>cg_ranges := [(20, 20)]\<rparr>]) True) ()"
  by code_simp

text \<open>Only the last sweep is read: one that matches nothing answers for all before it.\<close>

definition demo_sweep :: "string \<Rightarrow> sweep" where
  "demo_sweep p = \<lparr>sw_phase = [], sw_pattern = p, sw_language = [], sw_path = [], sw_artifact = [], sw_dismissed = []\<rparr>"

lemma last_sweep_answers:
  "verdict_holds (sweep_accounted \<lparr>ck_probe = (\<lambda>_ _ w. (Inr [], w)),
        ck_sweep = (\<lambda>_ sw w. (Inr (if sw_pattern sw = ''bad($X)'' then [\<lparr>ht_file = ''a.go'', ht_line = 3\<rparr>] else []), w)),
        ck_there = (\<lambda>_ _. False)\<rparr>)
     ((demo_state [] True)\<lparr>cs_rows := le_rows (record_sweep (demo_sweep ''nothing'') (record_sweep (demo_sweep ''bad($X)'') new_ledger))\<rparr>) ()"
  by code_simp

end
