(* ===== verification/JsonText.thy ===== *)
theory JsonText
  imports GoJson GoUtf8 GoNumbers
begin

text \<open>
  The text of JSON as \<open>encoding/json\<close> writes and reads it: strings with Go's escapes, values, the
  compact printer of \<open>Marshal\<close> and the parser of \<open>Unmarshal\<close>. A number is its literal; nesting is not
  bounded here, where the library stops at 10000.
\<close>

section \<open>Strings\<close>

definition hex_char :: "nat \<Rightarrow> char" where
  "hex_char n = ''0123456789abcdef'' ! n"

definition unicode_escape :: "nat \<Rightarrow> string" where
  "unicode_escape r =
     backslash # CHR ''u'' # map hex_char [r div 4096 mod 16, r div 256 mod 16, r div 16 mod 16, r mod 16]"

definition short_escapes :: "(char \<times> nat) list" where
  "short_escapes = [(CHR ''b'', 8), (CHR ''f'', 12), (CHR ''n'', 10), (CHR ''r'', 13), (CHR ''t'', 9)]"

text \<open>A rune with its length in bytes; length 1 with the error rune is a byte that is not UTF-8.\<close>

definition quote_rune :: "nat \<times> nat \<Rightarrow> string" where
  "quote_rune = (\<lambda>(r, n).
     case List.find (\<lambda>(c, k). k = r) short_escapes of
       Some (c, _) \<Rightarrow> [backslash, c]
     | None \<Rightarrow>
         if r = 0x22 then [backslash, dquote] else if r = 0x5C then [backslash, backslash]
         else if r < 0x20 \<or> r \<in> set [0x3C, 0x3E, 0x26, 0x2028, 0x2029] \<or> r = rune_error \<and> n = 1 then unicode_escape r
         else encode_rune r)"

definition json_quote :: "string \<Rightarrow> string" where
  "json_quote s = dquote # concat (map quote_rune (runes s)) @ [dquote]"

definition hex_value :: "char \<Rightarrow> nat option" where
  "hex_value c =
     (let n = byte_of c in
      if 48 \<le> n \<and> n \<le> 57 then Some (n - 48) else if 97 \<le> n \<and> n \<le> 102 then Some (n - 87)
      else if 65 \<le> n \<and> n \<le> 70 then Some (n - 55) else None)"

fun hex4 :: "string \<Rightarrow> (nat \<times> string) option" where
  "hex4 (a # b # c # d # s) =
     (case (hex_value a, hex_value b, hex_value c, hex_value d) of
        (Some i, Some j, Some k, Some l) \<Rightarrow> Some (4096 * i + 256 * j + 16 * k + l, s)
      | _ \<Rightarrow> None)"
| "hex4 _ = None"

definition surrogate :: "nat \<Rightarrow> bool" where
  "surrogate r \<longleftrightarrow> 0xD800 \<le> r \<and> r < 0xE000"

fun second_half :: "string \<Rightarrow> (nat \<times> string) option" where
  "second_half (c # e # t) = (if c = backslash \<and> e = CHR ''u'' then hex4 t else None)"
| "second_half _ = None"

text \<open>What follows \<open>\u\<close>: a rune, or the two halves of one.\<close>

definition read_u :: "string \<Rightarrow> (nat \<times> string) option" where
  "read_u s =
     (case hex4 s of
        None \<Rightarrow> None
      | Some (r, t) \<Rightarrow>
          if \<not> surrogate r then Some (r, t)
          else (case second_half t of
                  None \<Rightarrow> Some (rune_error, t)
                | Some (r2, t2) \<Rightarrow>
                    if r < 0xDC00 \<and> 0xDC00 \<le> r2 \<and> r2 < 0xE000
                    then Some ((r - 0xD800) * 1024 + (r2 - 0xDC00) + 0x10000, t2)
                    else Some (rune_error, t)))"

definition simple_escape :: "char \<Rightarrow> char option" where
  "simple_escape c =
     (if c = dquote \<or> c = backslash \<or> c = CHR ''/'' then Some c
      else map_option of_byte (map_of short_escapes c))"

definition glue :: "string \<Rightarrow> (string \<times> string) option \<Rightarrow> (string \<times> string) option" where
  "glue p = map_option (\<lambda>(a, rest). (p @ a, rest))"

lemma hex4_shorter: "hex4 s = Some (r, t) \<Longrightarrow> length t < length s"
  by (induction s rule: hex4.induct) (auto split: option.splits)

lemma read_u_shorter: "read_u s = Some (r, t) \<Longrightarrow> length t < length s"
proof -
  assume a: "read_u s = Some (r, t)"
  have half: "second_half u = Some (q, v) \<Longrightarrow> length v < length u" for u v q
    by (induction u rule: second_half.induct) (auto dest!: hex4_shorter split: if_splits)
  obtain r1 t1 where h: "hex4 s = Some (r1, t1)" using a by (auto simp: read_u_def split: option.splits)
  have "t = t1 \<or> (\<exists>q. second_half t1 = Some (q, t))"
    using a unfolding read_u_def h by (auto split: option.splits if_splits)
  with hex4_shorter [OF h] show ?thesis by (auto dest: half)
qed

text \<open>The string after its opening quote, up to the closing one, and what follows.\<close>

function unq :: "string \<Rightarrow> (string \<times> string) option" where
  "unq s =
     (case s of
        [] \<Rightarrow> None
      | c # t \<Rightarrow>
          if c = dquote then Some ([], t)
          else if c = backslash then
            (case t of
               [] \<Rightarrow> None
             | e # u \<Rightarrow>
                 (case simple_escape e of
                    Some b \<Rightarrow> glue [b] (unq u)
                  | None \<Rightarrow>
                      if e \<noteq> CHR ''u'' then None
                      else (case read_u u of None \<Rightarrow> None | Some (r, v) \<Rightarrow> glue (encode_rune r) (unq v))))
          else if byte_of c < 0x20 then None
          else glue (encode_rune (fst (decode_rune s))) (unq (drop (snd (decode_rune s)) s)))"
  by pat_completeness auto
termination
proof (relation "measure length", goal_cases)
  case (4 s c t)
  then show ?case using decode_size [of s] by auto
qed (auto dest: read_u_shorter)

declare unq.simps [simp del]

definition sanitize :: "string \<Rightarrow> string" where
  "sanitize s = encode_runes (map fst (runes s))"

section \<open>A string is read back\<close>

lemma hex_value_hex_char: "n < 16 \<Longrightarrow> hex_value (hex_char n) = Some n"
proof -
  have "list_all (\<lambda>n. hex_value (hex_char n) = Some n) [0..<16]" by code_simp
  then show "n < 16 \<Longrightarrow> hex_value (hex_char n) = Some n" by (simp add: list_all_iff)
qed

lemma hex_digits: "4096 * (r div 4096) + 256 * (r div 256 mod 16) + 16 * (r div 16 mod 16) + r mod 16 = (r::nat)"
proof -
  have d: "r div 256 = r div 16 div 16" "r div 4096 = r div 16 div 16 div 16" by (simp_all add: div_mult2_eq [symmetric])
  show ?thesis unfolding d
    using div_mult_mod_eq [of r 16] div_mult_mod_eq [of "r div 16" 16] div_mult_mod_eq [of "r div 16 div 16" 16] by linarith
qed

lemma hex4_digits:
  "r < 65536 \<Longrightarrow>
     hex4 (hex_char (r div 4096) # hex_char (r div 256 mod 16) # hex_char (r div 16 mod 16) # hex_char (r mod 16) # t)
       = Some (r, t)"
  using hex_digits [of r] by (simp add: hex_value_hex_char)

lemma unq_escape: "r < 65536 \<Longrightarrow> \<not> surrogate r \<Longrightarrow> unq (unicode_escape r @ t) = glue (encode_rune r) (unq t)"
  by (subst unq.simps)
    (simp add: unicode_escape_def simple_escape_def short_escapes_def read_u_def hex4_digits del: hex4.simps)

lemma decode_bytes_valid: "valid_rune (fst (decode_bytes bs))"
proof (cases bs)
  case (Cons b0 rest)
  have three: "valid_rune ((b0 - 0xE0) * 4096 + (b1 - 0x80) * 64 + (b2 - 0x80))"
    if h: "0xE0 \<le> b0" "b0 \<le> 0xEF" "accept2 b0 b1" "cont b2" for b1 b2
  proof -
    define x y z where v: "x = b0 - 0xE0" "y = b1 - 0x80" "z = b2 - 0x80"
    have b: "z \<le> 63" "y \<le> 63" "x \<le> 15" using h by (auto simp: v cont_def accept2_def split: if_splits)
    have e: "y \<le> 31" if "x = 13"
    proof -
      have "b0 = 0xED" using that h by (simp add: v)
      with h have "b1 \<le> 0x9F" by (simp add: accept2_def)
      then show ?thesis by (simp add: v)
    qed
    consider "x = 13" | "x \<le> 12" | "14 \<le> x" by linarith
    then show ?thesis unfolding v [symmetric] valid_rune_def by cases (use b e in linarith)+
  qed
  have four: "valid_rune ((b0 - 0xF0) * 262144 + (b1 - 0x80) * 4096 + (b2 - 0x80) * 64 + (b3 - 0x80))"
    if h: "0xF0 \<le> b0" "b0 \<le> 0xF4" "accept2 b0 b1" "cont b2" "cont b3" for b1 b2 b3
  proof -
    define x y z k where v: "x = b0 - 0xF0" "y = b1 - 0x80" "z = b2 - 0x80" "k = b3 - 0x80"
    have b: "z \<le> 63" "k \<le> 63" "y \<le> 63" "x \<le> 4" using h by (auto simp: v cont_def accept2_def split: if_splits)
    have low: "16 \<le> y" if "x = 0" using that h by (auto simp: v accept2_def)
    have high: "y \<le> 15" if "x = 4"
    proof -
      have "b0 = 0xF4" using that h by (simp add: v)
      with h have "b1 \<le> 0x8F" by (simp add: accept2_def)
      then show ?thesis by (simp add: v)
    qed
    consider "x = 0" | "x = 4" | "1 \<le> x" "x \<le> 3" using b by linarith
    then show ?thesis unfolding v [symmetric] valid_rune_def by cases (use b low high in linarith)+
  qed
  have two: "valid_rune ((b0 - 0xC0) * 64 + (b1 - 0x80))" if "b0 \<le> 0xDF" "cont b1" for b1
    using that by (auto simp: valid_rune_def cont_def)
  have e: "valid_rune rune_error" by (simp add: valid_rune_def)
  consider "b0 < 0x80" | "0xC2 \<le> b0" "b0 \<le> 0xDF" | (3) "0xE0 \<le> b0" "b0 \<le> 0xEF" | (4) "0xF0 \<le> b0" "b0 \<le> 0xF4"
    | (bad) "0x80 \<le> b0" "b0 < 0xC2 \<or> 0xF4 < b0" by linarith
  then show ?thesis
  proof cases
    case 1
    then show ?thesis by (simp add: Cons decode_bytes.simps) (simp add: valid_rune_def)
  next
    case 2
    then show ?thesis by (cases rest) (simp_all add: Cons decode_bytes.simps e two)
  next
    case 3
    then show ?thesis
      by (cases rest; cases "tl rest") (simp_all add: Cons decode_bytes.simps e three)
  next
    case 4
    then show ?thesis
      by (cases rest; cases "tl rest"; cases "tl (tl rest)") (simp_all add: Cons decode_bytes.simps e four)
  next
    case bad
    then show ?thesis by (auto simp: Cons decode_bytes.simps e)
  qed
qed (simp add: decode_bytes.simps valid_rune_def)

lemma runes_valid: "list_all valid_rune (map fst (runes s))"
  by (induction s rule: runes.induct)
    (subst runes.simps, auto simp: decode_rune_def decode_bytes_valid)

lemma encode_rune_head: "0x20 \<le> r \<Longrightarrow> b \<in> set (encode_rune r) \<Longrightarrow> 0x20 \<le> byte_of b"
  by (auto simp: encode_rune_def encode_bytes_def valid_rune_def Let_def split: if_splits)

lemma encode_rune_first:
  assumes "valid_rune r"
  obtains b bs where "encode_rune r = b # bs" "byte_of b = r \<or> 0x80 \<le> byte_of b \<and> 0x80 \<le> r"
proof (cases "r < 0x80")
  case True
  with assms have "encode_rune r = [of_byte r]" by (simp add: encode_rune_def encode_bytes_def)
  with True show thesis by (intro that [of "of_byte r" "[]"]) simp_all
next
  case False
  with assms have "\<exists>n ns. encode_bytes r = n # ns \<and> 0x80 \<le> n" by (simp add: encode_bytes_def Let_def)
  then obtain n ns where e: "encode_bytes r = n # ns" "0x80 \<le> n" by blast
  with encode_bytes_less [of n r] have "n < 256" by simp
  with e False show thesis by (intro that [of "of_byte n" "map of_byte ns"]) (simp_all add: encode_rune_def)
qed

lemma unq_plain:
  assumes "valid_rune r" "0x20 \<le> r" "r \<noteq> 0x22" "r \<noteq> 0x5C"
  shows "unq (encode_rune r @ t) = glue (encode_rune r) (unq t)"
proof -
  obtain b bs where b: "encode_rune r = b # bs" "byte_of b = r \<or> 0x80 \<le> byte_of b \<and> 0x80 \<le> r"
    using encode_rune_first [OF assms(1)] by metis
  have n: "b \<noteq> dquote" "b \<noteq> backslash" "\<not> byte_of b < 0x20" using b(2) assms by (auto simp: byte_of_def)
  have "decode_rune (b # bs @ t) = (r, length (b # bs))" using decode_encode_rune [OF assms(1), of t] b by simp
  then show ?thesis using n by (subst unq.simps) (simp add: b)
qed

lemma unq_simple_escape: "simple_escape e = Some b \<Longrightarrow> unq (backslash # e # u) = glue [b] (unq u)"
  by (subst unq.simps) simp

lemma encode_ascii: "r < 0x80 \<Longrightarrow> encode_rune r = [of_byte r]"
  by (simp add: encode_rune_def encode_bytes_def valid_rune_def)

text \<open>Where a rune has an escape of its own.\<close>

lemma quote_short: "(c, r) \<in> set short_escapes \<Longrightarrow> quote_rune (r, n) = [backslash, c]"
  by (auto simp: short_escapes_def quote_rune_def)

lemma quote_not_short:
  "r \<notin> snd ` set short_escapes \<Longrightarrow>
     quote_rune (r, n) =
       (if r = 0x22 then [backslash, dquote] else if r = 0x5C then [backslash, backslash]
        else if r < 0x20 \<or> r \<in> set [0x3C, 0x3E, 0x26, 0x2028, 0x2029] \<or> r = rune_error \<and> n = 1 then unicode_escape r
        else encode_rune r)"
  by (auto simp: quote_rune_def short_escapes_def)

lemma unq_quote_rune:
  assumes v: "valid_rune r"
  shows "unq (quote_rune (r, n) @ t) = glue (encode_rune r) (unq t)"
proof (cases "r \<in> snd ` set short_escapes")
  case True
  then obtain c where c: "(c, r) \<in> set short_escapes" by auto
  then have "simple_escape c = Some (of_byte r)" "r < 0x80" by (auto simp: short_escapes_def simple_escape_def)
  then show ?thesis by (simp add: quote_short [OF c] unq_simple_escape encode_ascii)
next
  case False
  note q = quote_not_short [OF False, of n]
  have s: "simple_escape dquote = Some (of_byte 0x22)" "simple_escape backslash = Some (of_byte 0x5C)"
    by code_simp+
  consider "r = 0x22" | "r = 0x5C"
    | (hex) "r \<noteq> 0x22" "r \<noteq> 0x5C" "r < 0x20 \<or> r \<in> set [0x3C, 0x3E, 0x26, 0x2028, 0x2029] \<or> r = rune_error \<and> n = 1"
    | (plain) "r \<noteq> 0x22" "r \<noteq> 0x5C" "\<not> (r < 0x20 \<or> r \<in> set [0x3C, 0x3E, 0x26, 0x2028, 0x2029] \<or> r = rune_error \<and> n = 1)"
    by blast
  then show ?thesis
  proof cases
    case hex
    then have "quote_rune (r, n) = unicode_escape r" unfolding q by (simp only: if_True if_False)
    moreover have "r < 65536" "\<not> surrogate r" using hex by (auto simp: surrogate_def)
    ultimately show ?thesis by (simp add: unq_escape)
  next
    case plain
    then have "quote_rune (r, n) = encode_rune r" unfolding q by (simp only: if_False)
    then show ?thesis using plain v by (simp add: unq_plain)
  qed (use q s in \<open>simp_all add: unq_simple_escape encode_ascii\<close>)
qed

lemma glue_simps [simp]: "glue p None = None" "glue p (Some (a, t)) = Some (p @ a, t)"
  by (simp_all add: glue_def)

lemma unq_quoted: "list_all valid_rune (map fst rs) \<Longrightarrow>
    unq (concat (map quote_rune rs) @ dquote # t) = Some (encode_runes (map fst rs), t)"
proof (induction rs)
  case Nil
  show ?case by (subst unq.simps) simp
next
  case (Cons p rs)
  then show ?case using unq_quote_rune [of "fst p" "snd p"] by simp
qed

lemma unq_json_quote: "unq (tl (json_quote s) @ t) = Some (sanitize s, t)"
  using unq_quoted [OF runes_valid] by (simp add: json_quote_def sanitize_def)

lemma sanitize_encoded: "list_all valid_rune rs \<Longrightarrow> sanitize (encode_runes rs) = encode_runes rs"
  by (simp add: sanitize_def runes_encode)

lemma sanitize_idem [simp]: "sanitize (sanitize s) = sanitize s"
  unfolding sanitize_def [of s] by (rule sanitize_encoded) (rule runes_valid)

lemma runes_ascii: "list_all (\<lambda>c. byte_of c < 0x80) s \<Longrightarrow> runes s = map (\<lambda>c. (byte_of c, 1)) s"
  by (induction s) (simp_all add: runes.simps decode_rune_def decode_bytes.simps)

text \<open>Text that needs no escape.\<close>

definition unescaped :: "char \<Rightarrow> bool" where
  "unescaped c \<longleftrightarrow> 0x20 \<le> byte_of c \<and> byte_of c < 0x80 \<and> byte_of c \<notin> set [0x22, 0x5C, 0x3C, 0x3E, 0x26]"

lemma json_quote_unescaped: "list_all unescaped s \<Longrightarrow> json_quote s = dquote # s @ [dquote]"
proof -
  assume a: "list_all unescaped s"
  then have "list_all (\<lambda>c. byte_of c < 0x80) s" by (auto simp: list_all_iff unescaped_def)
  moreover have "quote_rune (byte_of c, 1) = [c]" if "unescaped c" for c
  proof -
    have n: "byte_of c \<noteq> 0x22" "byte_of c \<noteq> 0x5C" "byte_of c \<notin> set [0x3C, 0x3E, 0x26, 0x2028, 0x2029]"
      using that by (auto simp: unescaped_def)
    have "byte_of c \<notin> snd ` set short_escapes" using that by (auto simp: unescaped_def short_escapes_def)
    from quote_not_short [OF this, of 1] n that show ?thesis by (simp add: unescaped_def encode_ascii)
  qed
  then have "concat (map (\<lambda>c. quote_rune (byte_of c, 1)) s) = s" using a by (induction s) simp_all
  ultimately show ?thesis by (simp add: json_quote_def runes_ascii o_def)
qed

lemma sanitize_ascii: "list_all (\<lambda>c. byte_of c < 0x80) s \<Longrightarrow> sanitize s = s"
proof -
  assume a: "list_all (\<lambda>c. byte_of c < 0x80) s"
  note runes_ascii [OF a]
  then have "sanitize s = concat (map (\<lambda>c. encode_rune (byte_of c)) s)" by (simp add: sanitize_def encode_runes_def o_def)
  moreover have "concat (map (\<lambda>c. encode_rune (byte_of c)) s) = s" using a by (induction s) (simp_all add: encode_ascii)
  ultimately show ?thesis by simp
qed

lemma sanitize_Nil [simp]: "sanitize [] = []"
  by (simp add: sanitize_def)

section \<open>What a quoted string looks like\<close>

lemma length_quote_rune: "length (quote_rune (r, n)) \<le> 6"
proof (cases "r \<in> snd ` set short_escapes")
  case True
  then show ?thesis by (auto simp: quote_short)
next
  case False
  then show ?thesis using length_encode_rune(2) [of r] by (simp add: quote_not_short unicode_escape_def)
qed

lemma runes_positive: "(r, n) \<in> set (runes s) \<Longrightarrow> 1 \<le> n"
proof (induction s rule: runes.induct)
  case (1 s)
  show ?case
  proof (cases "s = []")
    case False
    then have "runes s = decode_rune s # runes (drop (snd (decode_rune s)) s)" by (subst runes.simps) simp
    with 1 False show ?thesis using decode_size [OF False] by (cases "decode_rune s") auto
  qed (use 1 in simp)
qed

lemma length_quoted_runes:
  "\<forall>p \<in> set rs. 1 \<le> snd p \<Longrightarrow> length (concat (map quote_rune rs)) \<le> 6 * sum_list (map snd rs)"
proof (induction rs)
  case (Cons p rs)
  have "length (quote_rune p) \<le> 6" "1 \<le> snd p" using length_quote_rune [of "fst p" "snd p"] Cons.prems by simp_all
  moreover have "length (concat (map quote_rune rs)) \<le> 6 * sum_list (map snd rs)" using Cons by simp
  ultimately show ?case by simp
qed simp

lemma length_json_quote: "length (json_quote s) \<le> 6 * length s + 2"
proof -
  have "\<forall>p \<in> set (runes s). 1 \<le> snd p" using runes_positive [of _ _ s] by auto
  from length_quoted_runes [OF this] show ?thesis by (simp add: json_quote_def runes_sizes)
qed

text \<open>Nothing below a space: a quoted string never breaks a line.\<close>

lemma quote_rune_printable: "b \<in> set (quote_rune (r, n)) \<Longrightarrow> 0x20 \<le> byte_of b"
proof (cases "r \<in> snd ` set short_escapes")
  case True
  then obtain c where c: "(c, r) \<in> set short_escapes" by auto
  have "list_all (\<lambda>(c, r). 0x20 \<le> byte_of c) short_escapes" "0x20 \<le> byte_of backslash" by code_simp+
  with c show "b \<in> set (quote_rune (r, n)) \<Longrightarrow> 0x20 \<le> byte_of b" by (auto simp: quote_short list_all_iff)
next
  case False
  have h: "0x20 \<le> byte_of (hex_char k)" if "k < 16" for k
  proof -
    have "list_all (\<lambda>k. 0x20 \<le> byte_of (hex_char k)) [0..<16]" by code_simp
    with that show ?thesis by (simp add: list_all_iff)
  qed
  have p: "0x20 \<le> byte_of backslash" "0x20 \<le> byte_of dquote" "0x20 \<le> byte_of CHR ''u''" by code_simp+
  assume "b \<in> set (quote_rune (r, n))"
  then show "0x20 \<le> byte_of b"
    unfolding quote_not_short [OF False]
    by (auto simp: unicode_escape_def h p split: if_splits simp del: One_nat_def intro: encode_rune_head [of r b])
qed

lemma json_quote_printable: "b \<in> set (json_quote s) \<Longrightarrow> 0x20 \<le> byte_of b"
  using quote_rune_printable by (fastforce simp: json_quote_def byte_of_def)

end
