(* ===== verification/JsonValue.thy ===== *)
theory JsonValue
  imports JsonText
begin

text \<open>
  JSON values as \<open>encoding/json\<close> prints and parses them, that what is printed is parsed back, and that a
  piece of a document is none. The parser recurses on fuel, twice the length of its input: an opening
  bracket, a value and what separates two of them each take a character and at most two calls.
\<close>

section \<open>Values\<close>

datatype jval = JNull | JBool bool | JNum string | JStr string | JArr "jval list" | JObj "(string \<times> jval) list"

fun print_val :: "jval \<Rightarrow> string" where
  "print_val JNull = ''null''"
| "print_val (JBool b) = (if b then ''true'' else ''false'')"
| "print_val (JNum l) = l"
| "print_val (JStr s) = json_quote s"
| "print_val (JArr vs) = ''['' @ join_with '','' (map print_val vs) @ '']''"
| "print_val (JObj kvs) = ''{'' @ join_with '','' (map (\<lambda>(k, v). json_quote k @ '':'' @ print_val v) kvs) @ ''}''"

definition skip_ws :: "string \<Rightarrow> string" where
  "skip_ws s = dropWhile json_space s"

definition frac_part :: "string \<Rightarrow> (string \<times> string) option" where
  "frac_part s =
     (case s of
        c # t \<Rightarrow>
          if c \<noteq> CHR ''.'' then Some ([], s)
          else if takeWhile decimal t = [] then None else Some (c # takeWhile decimal t, dropWhile decimal t)
      | [] \<Rightarrow> Some ([], s))"

definition exp_part :: "string \<Rightarrow> (string \<times> string) option" where
  "exp_part s =
     (case s of
        c # t \<Rightarrow>
          if c \<noteq> CHR ''e'' \<and> c \<noteq> CHR ''E'' then Some ([], s)
          else let sign = (case t of d # _ \<Rightarrow> if d = CHR ''+'' \<or> d = CHR ''-'' then [d] else [] | [] \<Rightarrow> []);
                   u = drop (length sign) t
               in if takeWhile decimal u = [] then None
                  else Some (c # sign @ takeWhile decimal u, dropWhile decimal u)
      | [] \<Rightarrow> Some ([], s))"

definition int_part :: "string \<Rightarrow> (string \<times> string) option" where
  "int_part s =
     (case s of
        [] \<Rightarrow> None
      | c # t \<Rightarrow>
          if c = CHR ''0'' then Some ([c], t)
          else if decimal c then Some (takeWhile decimal s, dropWhile decimal s) else None)"

definition parse_num :: "string \<Rightarrow> (string \<times> string) option" where
  "parse_num s =
     (let (sign, s1) = (if has_prefix s ''-'' then (''-'', tl s) else ([], s)) in
      case int_part s1 of
        None \<Rightarrow> None
      | Some (i, s2) \<Rightarrow>
          (case frac_part s2 of
             None \<Rightarrow> None
           | Some (f, s3) \<Rightarrow> (case exp_part s3 of None \<Rightarrow> None | Some (e, s4) \<Rightarrow> Some (sign @ i @ f @ e, s4))))"

text \<open>A literal name.\<close>

definition parse_word :: "string \<Rightarrow> jval \<Rightarrow> string \<Rightarrow> (jval \<times> string) option" where
  "parse_word w v s = (if has_prefix s w then Some (v, drop (length w) s) else None)"

fun parse_val :: "nat \<Rightarrow> string \<Rightarrow> (jval \<times> string) option"
  and parse_elems :: "nat \<Rightarrow> string \<Rightarrow> (jval list \<times> string) option"
  and parse_members :: "nat \<Rightarrow> string \<Rightarrow> ((string \<times> jval) list \<times> string) option" where
  "parse_val 0 s = None"
| "parse_val (Suc n) s =
     (case skip_ws s of
        [] \<Rightarrow> None
      | c # t \<Rightarrow>
          if c = dquote then map_option (\<lambda>(a, r). (JStr a, r)) (unq t)
          else if c = CHR ''{'' then
            (if has_prefix (skip_ws t) ''}'' then Some (JObj [], tl (skip_ws t))
             else map_option (\<lambda>(kvs, r). (JObj kvs, r)) (parse_members n t))
          else if c = CHR ''['' then
            (if has_prefix (skip_ws t) '']'' then Some (JArr [], tl (skip_ws t))
             else map_option (\<lambda>(vs, r). (JArr vs, r)) (parse_elems n t))
          else if c = CHR ''t'' then parse_word ''true'' (JBool True) (c # t)
          else if c = CHR ''f'' then parse_word ''false'' (JBool False) (c # t)
          else if c = CHR ''n'' then parse_word ''null'' JNull (c # t)
          else map_option (\<lambda>(l, r). (JNum l, r)) (parse_num (c # t)))"
| "parse_elems 0 s = None"
| "parse_elems (Suc n) s =
     (case parse_val n s of
        None \<Rightarrow> None
      | Some (v, r) \<Rightarrow>
          (case skip_ws r of
             [] \<Rightarrow> None
           | c # t \<Rightarrow>
               if c = CHR '']'' then Some ([v], t)
               else if c = CHR '','' then map_option (\<lambda>(vs, u). (v # vs, u)) (parse_elems n t)
               else None))"
| "parse_members 0 s = None"
| "parse_members (Suc n) s =
     (case skip_ws s of
        [] \<Rightarrow> None
      | q # t \<Rightarrow>
          if q \<noteq> dquote then None
          else (case unq t of
                  None \<Rightarrow> None
                | Some (k, r) \<Rightarrow>
                    if \<not> has_prefix (skip_ws r) '':'' then None
                    else (case parse_val n (tl (skip_ws r)) of
                            None \<Rightarrow> None
                          | Some (v, r2) \<Rightarrow>
                              (case skip_ws r2 of
                                 [] \<Rightarrow> None
                               | c # u \<Rightarrow>
                                   if c = CHR ''}'' then Some ([(k, v)], u)
                                   else if c = CHR '','' then map_option (\<lambda>(kvs, w). ((k, v) # kvs, w)) (parse_members n u)
                                   else None))))"

definition json_parse :: "string \<Rightarrow> jval option" where
  "json_parse s =
     (case parse_val (2 * length s + 2) s of
        None \<Rightarrow> None
      | Some (v, r) \<Rightarrow> if skip_ws r = [] then Some v else None)"

section \<open>What is printed is parsed\<close>

text \<open>The values the program prints hold integers only; strings come back as UTF-8.\<close>

fun plain_val :: "jval \<Rightarrow> bool" where
  "plain_val (JNum l) = (\<exists>i. l = show_int i)"
| "plain_val (JArr vs) = list_all plain_val vs"
| "plain_val (JObj kvs) = list_all (\<lambda>(k, v). plain_val v) kvs"
| "plain_val _ = True"

fun sanitize_val :: "jval \<Rightarrow> jval" where
  "sanitize_val (JStr s) = JStr (sanitize s)"
| "sanitize_val (JArr vs) = JArr (map sanitize_val vs)"
| "sanitize_val (JObj kvs) = JObj (map (\<lambda>(k, v). (sanitize k, sanitize_val v)) kvs)"
| "sanitize_val v = v"

definition number_ends :: "string \<Rightarrow> bool" where
  "number_ends s \<longleftrightarrow> (case s of [] \<Rightarrow> True | c # _ \<Rightarrow> \<not> decimal c \<and> c \<noteq> CHR ''.'' \<and> c \<noteq> CHR ''e'' \<and> c \<noteq> CHR ''E'')"

lemma takeWhile_decimal: "list_all decimal ds \<Longrightarrow> number_ends s \<Longrightarrow> takeWhile decimal (ds @ s) = ds \<and> dropWhile decimal (ds @ s) = s"
  by (induction ds) (auto simp: number_ends_def split: list.splits)

lemma int_part_show: "number_ends s \<Longrightarrow> int_part (show_nat n @ s) = Some (show_nat n, s)"
proof -
  assume e: "number_ends s"
  obtain c ds where s: "show_nat n = c # ds" "list_all decimal (c # ds)" using show_nat_shape by metis
  have z: "c = CHR ''0'' \<longleftrightarrow> n = 0" using digits_of_head [of n] s by (simp add: show_nat_def)
  show ?thesis
  proof (cases "n = 0")
    case True
    moreover have "show_nat 0 = ''0''" by code_simp
    ultimately show ?thesis by (simp add: int_part_def)
  next
    case False
    then show ?thesis using takeWhile_decimal [OF s(2) e] s z by (simp add: int_part_def)
  qed
qed

lemma frac_exp_end: "number_ends s \<Longrightarrow> frac_part s = Some ([], s) \<and> exp_part s = Some ([], s)"
  by (auto simp: number_ends_def frac_part_def exp_part_def split: list.splits)

lemma parse_num_show: "number_ends s \<Longrightarrow> parse_num (show_int i @ s) = Some (show_int i, s)"
proof -
  assume e: "number_ends s"
  obtain c ds where s: "show_nat (nat i) = c # ds" "list_all decimal (c # ds)" using show_nat_shape by metis
  have "c \<noteq> CHR ''-''" using s decimal_not_sign by simp
  then show ?thesis
    using int_part_show [OF e, of "nat i"] int_part_show [OF e, of "nat (- i)"] frac_exp_end [OF e] s
    by (auto simp: parse_num_def show_int_def)
qed

lemma show_int_head: "\<exists>c t. show_int i = c # t \<and> (c = CHR ''-'' \<or> decimal c)"
proof (cases "i < 0")
  case False
  with show_nat_shape [of "nat i"] show ?thesis by (auto simp: show_int_def)
qed (simp add: show_int_def)

lemma decimal_cases: "decimal c \<Longrightarrow> \<not> json_space c \<and> c \<noteq> dquote \<and> c \<notin> set ''{[tfn-]},''"
  by (auto simp: decimal_def json_space_def)

lemma skip_ws_here [simp]: "\<not> json_space c \<Longrightarrow> skip_ws (c # s) = c # s"
  by (simp add: skip_ws_def)

lemma not_space [simp]:
  "\<not> json_space dquote" "\<not> json_space (CHR ''['')" "\<not> json_space (CHR ''{'')" "\<not> json_space (CHR '']'')"
  "\<not> json_space (CHR ''}'')" "\<not> json_space (CHR '','')" "\<not> json_space (CHR '':'')" "\<not> json_space (CHR ''t'')"
  "\<not> json_space (CHR ''f'')" "\<not> json_space (CHR ''n'')" "\<not> json_space (CHR ''-'')"
  by (simp_all add: json_space_def)

lemma json_quote_head: "json_quote s = dquote # tl (json_quote s)"
  by (simp add: json_quote_def)

text \<open>The first character of a printed value is none that a bracket or a separator could be.\<close>

lemma print_val_head: "plain_val v \<Longrightarrow> \<exists>c t. print_val v = c # t \<and> \<not> json_space c \<and> c \<noteq> CHR '']'' \<and> c \<noteq> CHR ''}''"
proof (cases v)
  case (JNum l)
  moreover assume "plain_val v"
  ultimately obtain i where "l = show_int i" by auto
  then show ?thesis using JNum show_int_head [of i] decimal_cases by auto
next
  case (JStr s)
  then show ?thesis using json_quote_head [of s] by auto
qed auto

definition member_text :: "string \<times> jval \<Rightarrow> string" where
  "member_text = (\<lambda>(k, v). json_quote k @ '':'' @ print_val v)"

lemma join_with_Cons: "join_with sep (x # xs) = x @ (if xs = [] then [] else sep @ join_with sep xs)"
  by (cases xs) simp_all

lemma parse_elems_print:
  assumes "\<And>v n rest. v \<in> set vs \<Longrightarrow> number_ends rest \<Longrightarrow> 2 * length (print_val v) \<le> n \<Longrightarrow>
      parse_val n (print_val v @ rest) = Some (sanitize_val v, rest)"
    and "vs \<noteq> []" "2 * length (join_with '','' (map print_val vs)) + 1 \<le> n"
  shows "parse_elems n (join_with '','' (map print_val vs) @ CHR '']'' # rest) = Some (map sanitize_val vs, rest)"
  using assms
proof (induction vs arbitrary: n)
  case (Cons v vs)
  from Cons.prems(3) obtain m where m: "n = Suc m" by (cases n) auto
  have e: "number_ends (CHR '']'' # rest)" "number_ends (CHR '','' # s)" for s
    by (simp_all add: number_ends_def decimal_def)
  have len: "2 * length (print_val v) \<le> m" using Cons.prems(3) m by (simp add: join_with_Cons split: if_splits)
  show ?case
  proof (cases "vs = []")
    case True
    with Cons.prems(1) [OF _ e(1) len] show ?thesis by (simp add: m)
  next
    case False
    have "parse_elems m (join_with '','' (map print_val vs) @ CHR '']'' # rest) = Some (map sanitize_val vs, rest)"
      using Cons.prems(3) m False by (intro Cons.IH) (auto simp: join_with_Cons intro: Cons.prems(1))
    with Cons.prems(1) [OF _ e(2) len] False show ?thesis by (simp add: m join_with_Cons)
  qed
qed simp

lemma parse_members_print:
  assumes "\<And>k v n rest. (k, v) \<in> set kvs \<Longrightarrow> number_ends rest \<Longrightarrow> 2 * length (print_val v) \<le> n \<Longrightarrow>
      parse_val n (print_val v @ rest) = Some (sanitize_val v, rest)"
    and "kvs \<noteq> []" "2 * length (join_with '','' (map member_text kvs)) + 1 \<le> n"
  shows "parse_members n (join_with '','' (map member_text kvs) @ CHR ''}'' # rest)
    = Some (map (\<lambda>(k, v). (sanitize k, sanitize_val v)) kvs, rest)"
  using assms
proof (induction kvs arbitrary: n)
  case (Cons kv kvs)
  obtain k v where kv: "kv = (k, v)" by force
  from Cons.prems(3) obtain m where m: "n = Suc m" by (cases n) auto
  have e: "number_ends (CHR ''}'' # rest)" "number_ends (CHR '','' # s)" for s
    by (simp_all add: number_ends_def decimal_def)
  have len: "2 * length (print_val v) \<le> m"
    using Cons.prems(3) m by (simp add: join_with_Cons kv member_text_def split: if_splits)
  obtain q where q: "json_quote k = dquote # q" "\<And>t. unq (q @ t) = Some (sanitize k, t)"
    using json_quote_head [of k] unq_json_quote [of k] by metis
  show ?case
  proof (cases "kvs = []")
    case True
    with Cons.prems(1) [OF _ e(1) len, of k] show ?thesis by (simp add: m kv member_text_def q)
  next
    case False
    have "parse_members m (join_with '','' (map member_text kvs) @ CHR ''}'' # rest)
        = Some (map (\<lambda>(k, v). (sanitize k, sanitize_val v)) kvs, rest)"
      using Cons.prems(3) m False by (intro Cons.IH) (auto simp: join_with_Cons intro: Cons.prems(1))
    with Cons.prems(1) [OF _ e(2) len, of k] False show ?thesis by (simp add: m kv member_text_def q join_with_Cons)
  qed
qed simp

lemma parse_print:
  "plain_val v \<Longrightarrow> number_ends rest \<Longrightarrow> 2 * length (print_val v) \<le> n \<Longrightarrow>
     parse_val n (print_val v @ rest) = Some (sanitize_val v, rest)"
proof (induction v arbitrary: n rest)
  case (JArr vs)
  then obtain m where m: "n = Suc m" by (cases n) auto
  show ?case
  proof (cases "vs = []")
    case False
    then obtain v ws where vs: "vs = v # ws" by (cases vs) auto
    with JArr.prems(1) obtain c t where c: "print_val v = c # t" "\<not> json_space c" "c \<noteq> CHR '']''"
      using print_val_head [of v] by auto
    have "parse_elems m (join_with '','' (map print_val vs) @ CHR '']'' # rest) = Some (map sanitize_val vs, rest)"
      using JArr False m by (intro parse_elems_print) (auto simp: list_all_iff)
    then show ?thesis using c by (simp add: m vs join_with_Cons)
  qed (simp add: m)
next
  case (JObj kvs)
  then obtain m where m: "n = Suc m" by (cases n) auto
  let ?text = "join_with '','' (map member_text kvs)"
  have t: "print_val (JObj kvs) = ''{'' @ ?text @ ''}''" by (simp add: member_text_def)
  show ?case
  proof (cases "kvs = []")
    case False
    then obtain k v ws where kvs: "kvs = (k, v) # ws" by (cases kvs) auto
    have "\<exists>w. ?text = dquote # w" by (simp add: kvs join_with_Cons member_text_def json_quote_def)
    then obtain w where w: "?text = dquote # w" by blast
    have "parse_members m (?text @ CHR ''}'' # rest) = Some (map (\<lambda>(k, v). (sanitize k, sanitize_val v)) kvs, rest)"
    proof (rule parse_members_print [OF _ False])
      show "2 * length ?text + 1 \<le> m" using JObj.prems(3) m unfolding t by simp
      show "parse_val n (print_val v @ rest) = Some (sanitize_val v, rest)"
        if "(k, v) \<in> set kvs" "number_ends rest" "2 * length (print_val v) \<le> n" for k v n rest
        using that JObj.prems(1) by (intro JObj.IH [of "(k, v)"]) (auto simp: list_all_iff)
    qed
    then show ?thesis unfolding t w by (simp add: m)
  qed (simp add: m)
next
  case (JNum l)
  then obtain i where i: "l = show_int i" by auto
  obtain c t where c: "show_int i = c # t" "c = CHR ''-'' \<or> decimal c" using show_int_head by metis
  then have "\<not> json_space c" "c \<noteq> dquote" "c \<notin> set ''{[tfn''" using decimal_cases [of c] by auto
  moreover from JNum c i obtain m where "n = Suc m" by (cases n) auto
  ultimately show ?case using parse_num_show [OF JNum.prems(2), of i] c i by simp
next
  case (JStr s)
  obtain q where q: "json_quote s = dquote # q" "\<And>t. unq (q @ t) = Some (sanitize s, t)"
    using json_quote_head [of s] unq_json_quote [of s] by metis
  with JStr obtain m where "n = Suc m" by (cases n) auto
  with q show ?case by simp
next
  case (JBool b)
  then obtain m where "n = Suc m" by (cases n; cases b) auto
  then show ?case by (simp add: parse_word_def)
next
  case JNull
  then obtain m where "n = Suc m" by (cases n) auto
  then show ?case by (simp add: parse_word_def)
qed

lemma json_parse_print: "plain_val v \<Longrightarrow> json_parse (print_val v) = Some (sanitize_val v)"
  using parse_print [of v "[]" "2 * length (print_val v) + 2"] by (simp add: json_parse_def number_ends_def skip_ws_def)

section \<open>A piece of a document is none\<close>

text \<open>
  What the parser takes from an input it takes from every longer one; a number is the exception, as it may
  go on. So no proper start of an object is a document.
\<close>

lemma hex4_more: "hex4 s = Some (r, t) \<Longrightarrow> hex4 (s @ u) = Some (r, t @ u)"
  by (induction s rule: hex4.induct) (auto split: option.splits)

lemma second_half_more: "second_half s = Some (r, t) \<Longrightarrow> second_half (s @ u) = Some (r, t @ u)"
  by (induction s rule: second_half.induct) (auto simp: hex4_more split: if_splits)

lemma second_half_never: "unq s \<noteq> None \<Longrightarrow> second_half s = None \<Longrightarrow> second_half (s @ u) = None"
proof -
  assume q: "unq s \<noteq> None" and n: "second_half s = None"
  then have "s \<noteq> []" by (auto simp: unq.simps)
  show ?thesis
  proof (cases "tl s = []")
    case True
    with \<open>s \<noteq> []\<close> obtain c where "s = [c]" by (cases s) auto
    with q have "c \<noteq> backslash" by (subst (asm) unq.simps) auto
    then show ?thesis using \<open>s = [c]\<close> by (cases u) auto
  next
    case False
    with \<open>s \<noteq> []\<close> obtain c e t where s: "s = c # e # t" by (cases s; cases "tl s") auto
    show ?thesis
    proof (cases "c = backslash \<and> e = CHR ''u''")
      case True
      have "simple_escape (CHR ''u'') = None" by code_simp
      with True q s have "read_u t \<noteq> None" by (subst (asm) unq.simps) (auto split: option.splits)
      then have "hex4 t \<noteq> None" by (auto simp: read_u_def split: option.splits)
      with n s True show ?thesis by auto
    qed (use s in auto)
  qed
qed

lemma read_u_more:
  assumes "read_u s = Some (r, t)" "unq t \<noteq> None"
  shows "read_u (s @ u) = Some (r, t @ u)"
proof -
  obtain r1 t1 where h: "hex4 s = Some (r1, t1)" using assms(1) by (auto simp: read_u_def split: option.splits)
  show ?thesis
  proof (cases "second_half t1")
    case None
    with assms(1) h have "t = t1" by (auto simp: read_u_def split: if_splits)
    with None second_half_never [OF assms(2)] assms(1) h show ?thesis by (auto simp: read_u_def hex4_more)
  next
    case (Some p)
    then obtain r2 t2 where p: "second_half t1 = Some (r2, t2)" by (cases p) auto
    show ?thesis using assms(1) h p
      by (auto simp: read_u_def hex4_more second_half_more split: if_splits)
  qed
qed

lemma decode_bytes_more: "0x22 \<in> set bs \<Longrightarrow> decode_bytes (bs @ es) = decode_bytes bs"
proof (cases bs)
  case (Cons b0 rest)
  moreover assume "0x22 \<in> set bs"
  ultimately have q: "b0 = 0x22 \<or> 0x22 \<in> set rest" by auto
  have n: "\<not> cont 0x22" "\<not> accept2 b 0x22" for b by (simp_all add: cont_def accept2_def)
  consider "rest = []" | b1 where "rest = [b1]" | b1 b2 where "rest = [b1, b2]" | b1 b2 b3 es' where "rest = b1 # b2 # b3 # es'"
    by (cases rest; cases "tl rest"; cases "tl (tl rest)") auto
  then show ?thesis
  proof cases
    case 2
    with q n show ?thesis by (cases es; cases "tl es") (auto simp: Cons decode_bytes.simps)
  next
    case 3
    with q n show ?thesis by (cases es) (auto simp: Cons decode_bytes.simps)
  qed (use q in \<open>simp_all add: Cons decode_bytes.simps\<close>)
qed simp

lemma decode_rune_more: "dquote \<in> set s \<Longrightarrow> decode_rune (s @ u) = decode_rune s"
proof (cases "4 \<le> length s")
  case False
  assume "dquote \<in> set s"
  then have "byte_of dquote \<in> set (map byte_of (take 4 s))" using False by simp
  then have "0x22 \<in> set (map byte_of (take 4 s))" by (simp add: byte_of_def)
  from decode_bytes_more [OF this] False show ?thesis by (simp add: decode_rune_def)
qed (simp add: decode_rune_def)

lemma glue_eq_Some: "glue p x = Some (a, r) \<longleftrightarrow> (\<exists>b. x = Some (b, r) \<and> a = p @ b)"
  by (auto simp: glue_def)

lemma unq_quote_in: "unq s = Some (a, r) \<Longrightarrow> dquote \<in> set s"
proof (induction s arbitrary: a rule: unq.induct)
  case (1 s)
  show ?case
  proof (cases s)
    case Nil
    with 1(4) show ?thesis by (simp add: unq.simps)
  next
    case (Cons c t)
    have hex: "set v \<subseteq> set u" if "read_u u = Some (r, v)" for u r v
    proof -
      have 4: "hex4 w = Some (q, x) \<Longrightarrow> set x \<subseteq> set w" for w q x by (induction w rule: hex4.induct) (auto split: option.splits)
      have 2: "second_half w = Some (q, x) \<Longrightarrow> set x \<subseteq> set w" for w q x
        by (induction w rule: second_half.induct) (auto dest!: 4 split: if_splits)
      show ?thesis using that unfolding read_u_def by (auto dest!: 4 2 split: option.splits if_splits) blast+
    qed
    show ?thesis
    proof (cases "c = dquote")
      case False
      consider (esc) e u where "c = backslash" "t = e # u" | "c = backslash" "t = []" | "c \<noteq> backslash" by (cases t) auto
      then show ?thesis
      proof cases
        case esc
        show ?thesis
        proof (cases "simple_escape e")
          case None
          with 1(4) Cons esc obtain x v b where h: "e = CHR ''u''" "read_u u = Some (x, v)" "unq v = Some (b, r)"
            by (subst (asm) unq.simps) (auto simp: glue_eq_Some split: option.splits if_splits)
          then have "dquote \<in> set v" using 1(1) [OF Cons False esc(1,2) None _ h(2)] by auto
          with hex [OF h(2)] show ?thesis by (auto simp: Cons esc)
        next
          case (Some b)
          with 1(4) Cons esc obtain a' where "unq u = Some (a', r)"
            by (subst (asm) unq.simps) (auto simp: glue_eq_Some)
          with 1(2) [OF Cons False esc(1,2) Some] show ?thesis by (auto simp: Cons esc)
        qed
      next
        case 2
        with 1(4) Cons show ?thesis by (subst (asm) unq.simps) auto
      next
        case 3
        from 1(4) Cons False 3 have u: "\<not> byte_of c < 0x20" by (subst (asm) unq.simps) (auto split: if_splits)
        with 1(4) Cons False 3 obtain a' where "unq (drop (snd (decode_rune s)) s) = Some (a', r)"
          by (subst (asm) unq.simps) (auto simp: glue_eq_Some)
        then have "dquote \<in> set (drop (snd (decode_rune s)) s)" using 1(3) [OF Cons False 3 u] by simp
        then show ?thesis by (rule in_set_dropD)
      qed
    qed (simp add: Cons)
  qed
qed

lemma unq_more: "unq s = Some (a, r) \<Longrightarrow> unq (s @ u) = Some (a, r @ u)"
proof (induction s arbitrary: a rule: unq.induct)
  case (1 s)
  show ?case
  proof (cases s)
    case Nil
    with 1(4) show ?thesis by (simp add: unq.simps)
  next
    case (Cons c t)
    show ?thesis
    proof (cases "c = dquote")
      case True
      with 1(4) show ?thesis by (simp add: Cons unq.simps)
    next
      case False
      consider (esc) e w where "c = backslash" "t = e # w" | "c = backslash" "t = []" | "c \<noteq> backslash" by (cases t) auto
      then show ?thesis
      proof cases
        case esc
        show ?thesis
        proof (cases "simple_escape e")
          case None
          with 1(4) Cons esc obtain x v b where r: "e = CHR ''u''" "read_u w = Some (x, v)" "unq v = Some (b, r)" "a = encode_rune x @ b"
            by (subst (asm) unq.simps) (auto simp: glue_eq_Some split: option.splits if_splits)
          have "unq (v @ u) = Some (b, r @ u)" using 1(1) [OF Cons False esc(1,2) None _ r(2)] r by auto
          with read_u_more [OF r(2)] r None esc show ?thesis by (subst unq.simps) (simp add: Cons)
        next
          case (Some b)
          with 1(4) Cons esc obtain a' where "unq w = Some (a', r)" "a = b # a'"
            by (subst (asm) unq.simps) (auto simp: glue_eq_Some)
          with 1(2) [OF Cons False esc(1,2) Some] Some esc show ?thesis by (simp add: Cons unq_simple_escape)
        qed
      next
        case 2
        with 1(4) Cons show ?thesis by (subst (asm) unq.simps) auto
      next
        case 3
        let ?k = "snd (decode_rune s)"
        from 1(4) Cons False 3 have b: "\<not> byte_of c < 0x20" by (subst (asm) unq.simps) (auto split: if_splits)
        with 1(4) Cons False 3 obtain a' where a: "unq (drop ?k s) = Some (a', r)" "a = encode_rune (fst (decode_rune s)) @ a'"
          by (subst (asm) unq.simps) (auto simp: glue_eq_Some)
        have d: "decode_rune (s @ u) = decode_rune s" using unq_quote_in [OF 1(4)] by (rule decode_rune_more)
        have k: "?k \<le> length s" using decode_size [of s] Cons by auto
        have "unq (drop ?k (s @ u)) = Some (a', r @ u)" using 1(3) [OF Cons False 3 b a(1)] k by simp
        then show ?thesis using False 3 b d a(2) Cons by (subst unq.simps) simp
      qed
    qed
  qed
qed

lemma skip_ws_more: "skip_ws s \<noteq> [] \<Longrightarrow> skip_ws (s @ u) = skip_ws s @ u"
  unfolding skip_ws_def by (induction s) auto

lemma decimal_more: "dropWhile decimal s \<noteq> [] \<Longrightarrow> takeWhile decimal (s @ u) = takeWhile decimal s \<and> dropWhile decimal (s @ u) = dropWhile decimal s @ u"
  by (induction s) auto

lemma int_part_more: "int_part s = Some (l, r) \<Longrightarrow> r \<noteq> [] \<Longrightarrow> int_part (s @ u) = Some (l, r @ u)"
  using decimal_more [of s u] by (cases s) (auto simp: int_part_def split: if_splits)

lemma frac_part_more: "frac_part s = Some (l, r) \<Longrightarrow> r \<noteq> [] \<Longrightarrow> frac_part (s @ u) = Some (l, r @ u)"
  using decimal_more [of "tl s" u] by (cases s) (auto simp: frac_part_def split: if_splits)

lemma exp_part_more: "exp_part s = Some (l, r) \<Longrightarrow> r \<noteq> [] \<Longrightarrow> exp_part (s @ u) = Some (l, r @ u)"
proof (cases s)
  case (Cons c t)
  assume e: "exp_part s = Some (l, r)" and r: "r \<noteq> []"
  show ?thesis
  proof (cases t)
    case Nil
    with e r Cons show ?thesis by (auto simp: exp_part_def split: if_splits)
  next
    case (Cons d v)
    have t: "takeWhile decimal (d # v @ u) = takeWhile decimal (d # v) \<and> dropWhile decimal (d # v @ u) = dropWhile decimal (d # v) @ u"
      if "dropWhile decimal (d # v) \<noteq> []" using decimal_more [OF that] by simp
    show ?thesis using e r decimal_more [of v u] t
      unfolding \<open>s = c # t\<close> Cons exp_part_def by (auto simp: Let_def split: if_splits simp del: takeWhile.simps dropWhile.simps)
  qed
qed (simp add: exp_part_def)

lemma parse_num_more: "parse_num s = Some (l, r) \<Longrightarrow> r \<noteq> [] \<Longrightarrow> parse_num (s @ u) = Some (l, r @ u)"
proof -
  assume p: "parse_num s = Some (l, r)" "r \<noteq> []"
  define s1 where "s1 = (if has_prefix s ''-'' then tl s else s)"
  obtain i s2 f s3 e where h: "int_part s1 = Some (i, s2)" "frac_part s2 = Some (f, s3)" "exp_part s3 = Some (e, r)"
    "l = (if has_prefix s ''-'' then ''-'' else []) @ i @ f @ e"
    using p(1) by (auto simp: parse_num_def s1_def split: option.splits if_splits)
  have n: "int_part [] = None" "frac_part [] = Some ([], [])" "exp_part [] = Some ([], [])"
    by (simp_all add: int_part_def frac_part_def exp_part_def)
  have "s3 \<noteq> []" using h(3) p(2) n by auto
  moreover then have "s2 \<noteq> []" using h(2) n by auto
  moreover have "s1 \<noteq> []" using h(1) n by auto
  moreover have "(if has_prefix (s @ u) ''-'' then tl (s @ u) else s @ u) = s1 @ u" "has_prefix (s @ u) ''-'' = has_prefix s ''-''"
    using \<open>s1 \<noteq> []\<close> by (cases s; simp add: s1_def split: if_splits)+
  ultimately show ?thesis using int_part_more [OF h(1)] frac_part_more [OF h(2)] exp_part_more [OF h(3) p(2)] h(4)
    by (auto simp: parse_num_def split: if_splits)
qed

lemma has_prefix_more: "has_prefix s p \<Longrightarrow> has_prefix (s @ u) p"
  by (auto simp: has_prefix_iff)

lemma parse_word_more: "parse_word w v s = Some (v', r) \<Longrightarrow> parse_word w v (s @ u) = Some (v', r @ u)"
  by (auto simp: parse_word_def has_prefix_iff split: if_splits)

text \<open>An input that is not used up can only be followed by more.\<close>

lemma skip_ws_cases: "skip_ws s = c # t \<Longrightarrow> skip_ws (s @ u) = c # t @ u"
  using skip_ws_more [of s u] by simp

lemma skip_ws_prefix: "skip_ws t \<noteq> [] \<Longrightarrow> has_prefix (skip_ws (t @ u)) [c] = has_prefix (skip_ws t) [c]"
  using skip_ws_more [of t u] by (cases "skip_ws t") simp_all

definition may_go_on :: "jval \<Rightarrow> bool" where
  "may_go_on v = (case v of JNum _ \<Rightarrow> True | _ \<Rightarrow> False)"

lemma parse_nonempty:
  "parse_val n s = Some (v, r) \<Longrightarrow> skip_ws s \<noteq> []"
  "parse_elems n s = Some (vs, r) \<Longrightarrow> skip_ws s \<noteq> []"
  "parse_members n s = Some (kvs, r) \<Longrightarrow> skip_ws s \<noteq> []"
proof -
  show v: "parse_val n s = Some (v, r) \<Longrightarrow> skip_ws s \<noteq> []" for n v r by (cases n) (auto split: list.splits)
  show "parse_elems n s = Some (vs, r) \<Longrightarrow> skip_ws s \<noteq> []"
  proof (cases n)
    case (Suc m)
    assume "parse_elems n s = Some (vs, r)"
    with Suc obtain w x where "parse_val m s = Some (w, x)" by (auto split: option.splits)
    then show ?thesis by (rule v)
  qed simp
  show "parse_members n s = Some (kvs, r) \<Longrightarrow> skip_ws s \<noteq> []" by (cases n) (auto split: list.splits)
qed

lemma parse_more:
  "parse_val n s = Some (v, r) \<Longrightarrow> n \<le> m \<Longrightarrow> \<not> may_go_on v \<or> r \<noteq> [] \<Longrightarrow> parse_val m (s @ u) = Some (v, r @ u)"
  "parse_elems n s = Some (vs, r) \<Longrightarrow> n \<le> m \<Longrightarrow> parse_elems m (s @ u) = Some (vs, r @ u)"
  "parse_members n s = Some (kvs, r) \<Longrightarrow> n \<le> m \<Longrightarrow> parse_members m (s @ u) = Some (kvs, r @ u)"
proof (induction n s and n s and n s arbitrary: v r m and vs r m and kvs r m
    rule: parse_val_parse_elems_parse_members.induct)
  case (2 n s)
  obtain k where m: "m = Suc k" "n \<le> k" using 2(4) by (cases m) auto
  obtain c t where s: "skip_ws s = c # t" using parse_nonempty(1) [OF 2(3)] by (cases "skip_ws s") auto
  note su = skip_ws_cases [OF s, of u]
  consider (str) "c = dquote" | (obj) "c = CHR ''{''" | (arr) "c = CHR ''[''" | (word) "c \<in> set ''tfn''"
    | (num) "c \<noteq> dquote" "c \<notin> set ''{[tfn''" by auto
  then show ?case
  proof cases
    case str
    with 2(3) s obtain a where "unq t = Some (a, r)" "v = JStr a" by auto
    then show ?thesis using str by (simp add: m su unq_more)
  next
    case obj
    show ?thesis
    proof (cases "has_prefix (skip_ws t) ''}''")
      case True
      then obtain w where "skip_ws t = CHR ''}'' # w" by (cases "skip_ws t") auto
      with 2(3) s obj show ?thesis by (auto simp: m su skip_ws_cases)
    next
      case False
      with 2(3) s obj obtain kvs where k: "parse_members n t = Some (kvs, r)" "v = JObj kvs" by auto
      have "parse_members k (t @ u) = Some (kvs, r @ u)" using 2(1) [OF s _ _ False k(1) m(2)] obj by simp
      then show ?thesis using obj k False skip_ws_prefix [OF parse_nonempty(3) [OF k(1)], of u "CHR ''}''"] by (simp add: m su)
    qed
  next
    case arr
    show ?thesis
    proof (cases "has_prefix (skip_ws t) '']''")
      case True
      then obtain w where "skip_ws t = CHR '']'' # w" by (cases "skip_ws t") auto
      with 2(3) s arr show ?thesis by (auto simp: m su skip_ws_cases)
    next
      case False
      with 2(3) s arr obtain vs where k: "parse_elems n t = Some (vs, r)" "v = JArr vs" by auto
      have "parse_elems k (t @ u) = Some (vs, r @ u)" using 2(2) [OF s _ _ _ False k(1) m(2)] arr by simp
      then show ?thesis using arr k False skip_ws_prefix [OF parse_nonempty(2) [OF k(1)], of u "CHR '']''"] by (simp add: m su)
    qed
  next
    case word
    with 2(3) s show ?thesis using parse_word_more [where u = u and s = "c # t"] by (auto simp: m su)
  next
    case num
    with 2(3) s obtain l where l: "parse_num (c # t) = Some (l, r)" "v = JNum l" by auto
    with 2(5) have "r \<noteq> []" by (simp add: may_go_on_def)
    from parse_num_more [OF l(1) this, of u] num l(2) show ?thesis by (simp add: m su)
  qed
next
  case (4 n s)
  obtain k where m: "m = Suc k" "n \<le> k" using 4(4) by (cases m) auto
  obtain v x where v: "parse_val n s = Some (v, x)" using 4(3) by (auto split: option.splits)
  obtain c t where x: "skip_ws x = c # t" using 4(3) v by (cases "skip_ws x") auto
  then have "x \<noteq> []" by (auto simp: skip_ws_def)
  then have p: "parse_val k (s @ u) = Some (v, x @ u)" using 4(1) [OF v m(2)] by simp
  show ?case
  proof (cases "c = CHR '']''")
    case True
    with 4(3) v x show ?thesis by (simp add: m p skip_ws_cases [OF x])
  next
    case False
    with 4(3) v x obtain ws where w: "c = CHR '',''" "parse_elems n t = Some (ws, r)" "vs = v # ws" by (auto split: if_splits)
    have "parse_elems k (t @ u) = Some (ws, r @ u)" using 4(2) [OF v refl x _ _ w(2) m(2)] False w(1) by simp
    then show ?thesis using w by (simp add: m p skip_ws_cases [OF x])
  qed
next
  case (6 n s)
  obtain k where m: "m = Suc k" "n \<le> k" using 6(4) by (cases m) auto
  obtain t where s: "skip_ws s = dquote # t" using 6(3) by (auto split: list.splits if_splits)
  obtain a x where a: "unq t = Some (a, x)" using 6(3) s by (auto split: option.splits)
  have c: "has_prefix (skip_ws x) '':''" using 6(3) s a by (auto split: if_splits)
  then obtain w where w: "skip_ws x = CHR '':'' # w" by (cases "skip_ws x") auto
  obtain v y where v: "parse_val n w = Some (v, y)" using 6(3) s a w by (auto split: option.splits)
  obtain d z where y: "skip_ws y = d # z" using 6(3) s a w v by (cases "skip_ws y") auto
  then have "y \<noteq> []" by (auto simp: skip_ws_def)
  then have p: "parse_val k (w @ u) = Some (v, y @ u)" using 6(1) [OF s _ a refl _ _ m(2)] c v w by simp
  note su = skip_ws_cases [OF s, of u] unq_more [OF a, of u] skip_ws_cases [OF w, of u] skip_ws_cases [OF y, of u] p
  show ?case
  proof (cases "d = CHR ''}''")
    case True
    with 6(3) s a w v y show ?thesis by (simp add: m su)
  next
    case False
    with 6(3) s a w v y obtain ws where k: "d = CHR '',''" "parse_members n z = Some (ws, r)" "kvs = (a, v) # ws"
      by (auto split: if_splits)
    have "parse_members k (z @ u) = Some (ws, r @ u)"
      using 6(2) [OF s _ a refl _ _ refl y _ _ k(2) m(2)] c v w False k(1) by simp
    then show ?thesis using k by (simp add: m su)
  qed
qed simp_all

lemma torn_object:
  assumes "plain_val (JObj kvs)" "p @ q = print_val (JObj kvs)" "q \<noteq> []"
  shows "json_parse p = None"
proof (rule ccontr)
  assume "json_parse p \<noteq> None"
  then obtain v r where v: "parse_val (2 * length p + 2) p = Some (v, r)" "skip_ws r = []"
    by (auto simp: json_parse_def split: option.splits if_splits)
  then have "p \<noteq> []" by (auto simp: skip_ws_def)
  with assms(2) obtain p' where p: "p = CHR ''{'' # p'" by (cases p) auto
  with v(1) have "\<not> may_go_on v"
    by (auto simp: may_go_on_def split: if_splits)
  then have "parse_val (2 * length (p @ q) + 2) (p @ q) = Some (v, r @ q)"
    by (intro parse_more(1) [OF v(1)]) simp_all
  moreover have "parse_val (2 * length (p @ q) + 2) (p @ q) = Some (sanitize_val (JObj kvs), [])"
    using parse_print [OF assms(1) _ le_add1, of "[]"] unfolding assms(2) append_Nil2 by (simp only: number_ends_def list.case)
  ultimately show False using assms(3) by simp
qed

end
