(* ===== verification/LineFile.thy ===== *)
theory LineFile
  imports JsonValue
begin

text \<open>
  Files of lines, as the history, the event log and the approvals are: \<open>bufio.Scanner\<close> over their bytes,
  and the interface of what a line holds. An encoder that never breaks a line and a decoder that reads it
  back, and refuses a piece of it, make a file to which records can be appended and from which all of them
  come back, up to the one that was being written when the process was killed.
\<close>

section \<open>The scanner\<close>

definition drop_cr :: "string \<Rightarrow> string" where
  "drop_cr l = (if has_suffix l [cr] then butlast l else l)"

text \<open>
  The lines of a file and whether one was too long for the buffer of \<open>limit\<close> bytes, at which the scan
  stops. A line needs room for its end too; the last one needs none but the reader asks for more.
\<close>

function scan_lines :: "nat \<Rightarrow> string \<Rightarrow> string list \<times> bool" where
  "scan_lines limit s =
     (if s = [] then ([], False)
      else let l = takeWhile (\<lambda>c. c \<noteq> nl) s in
           if limit \<le> length l then ([], True)
           else (case scan_lines limit (drop (length l + 1) s) of (ls, bad) \<Rightarrow> (drop_cr l # ls, bad)))"
  by pat_completeness auto
termination by (relation "measure (\<lambda>(_, s). length s)") auto

declare scan_lines.simps [simp del]

lemma scan_lines_Nil [simp]: "scan_lines limit [] = ([], False)"
  by (simp add: scan_lines.simps)

lemma takeWhile_line: "nl \<notin> set l \<Longrightarrow> takeWhile (\<lambda>c. c \<noteq> nl) (l @ nl # s) = l"
  by (induction l) auto

lemma takeWhile_last: "nl \<notin> set l \<Longrightarrow> takeWhile (\<lambda>c. c \<noteq> nl) l = l"
  by (induction l) auto

lemma scan_line:
  "nl \<notin> set l \<Longrightarrow> length l < limit \<Longrightarrow>
     scan_lines limit (l @ nl # s) = (case scan_lines limit s of (ls, bad) \<Rightarrow> (drop_cr l # ls, bad))"
  by (subst scan_lines.simps) (simp add: takeWhile_line)

lemma scan_long_line: "nl \<notin> set l \<Longrightarrow> limit \<le> length l \<Longrightarrow> scan_lines limit (l @ nl # s) = ([], True)"
  by (subst scan_lines.simps) (simp add: takeWhile_line)

lemma scan_torn: "nl \<notin> set l \<Longrightarrow> length l < limit \<Longrightarrow> scan_lines limit l = (if l = [] then [] else [drop_cr l], False)"
  by (subst scan_lines.simps) (simp add: takeWhile_last)

lemma drop_cr_plain: "cr \<notin> set l \<Longrightarrow> drop_cr l = l"
  by (cases l rule: rev_cases) (auto simp: drop_cr_def has_suffix_def)

section \<open>Reading records\<close>

text \<open>A reader that stops at the first line it cannot decode, one that fails there, and both skip empty lines.\<close>

fun read_until :: "(string \<Rightarrow> 'b option) \<Rightarrow> string list \<Rightarrow> bool \<Rightarrow> string + 'b list" where
  "read_until dec [] bad = (if bad then Inl ''token too long'' else Inr [])"
| "read_until dec (l # ls) bad =
     (if l = [] then read_until dec ls bad
      else case dec l of
             None \<Rightarrow> Inr []
           | Some b \<Rightarrow> (case read_until dec ls bad of Inl e \<Rightarrow> Inl e | Inr bs \<Rightarrow> Inr (b # bs)))"

fun read_strict :: "(string \<Rightarrow> 'b option) \<Rightarrow> string list \<Rightarrow> bool \<Rightarrow> string + 'b list" where
  "read_strict dec [] bad = (if bad then Inl ''token too long'' else Inr [])"
| "read_strict dec (l # ls) bad =
     (if l = [] then read_strict dec ls bad
      else case dec l of
             None \<Rightarrow> Inl ''decoding a line''
           | Some b \<Rightarrow> (case read_strict dec ls bad of Inl e \<Rightarrow> Inl e | Inr bs \<Rightarrow> Inr (b # bs)))"

text \<open>How many lines are whole in the first \<open>n\<close> bytes of a file; the last one needs no end.\<close>

fun whole :: "nat \<Rightarrow> string list \<Rightarrow> nat" where
  "whole n [] = 0"
| "whole n (l # ls) = (if n < length l then 0 else Suc (whole (n - length l - 1) ls))"

section \<open>What a line holds\<close>

locale line_codec =
  fixes enc :: "'a \<Rightarrow> string"
    and dec :: "string \<Rightarrow> 'b option"
    and reread :: "'a \<Rightarrow> 'b"
    and ok :: "'a \<Rightarrow> bool"
  assumes dec_enc: "ok a \<Longrightarrow> dec (enc a) = Some (reread a)"
    and enc_line: "ok a \<Longrightarrow> enc a \<noteq> [] \<and> nl \<notin> set (enc a) \<and> cr \<notin> set (enc a)"
    and dec_torn: "ok a \<Longrightarrow> p @ q = enc a \<Longrightarrow> q \<noteq> [] \<Longrightarrow> dec p = None"
begin

definition file_of :: "'a list \<Rightarrow> string" where
  "file_of as = concat (map (\<lambda>a. enc a @ [nl]) as)"

lemma file_of_simps [simp]:
  "file_of [] = []" "file_of (a # as) = enc a @ nl # file_of as" "file_of (as @ bs) = file_of as @ file_of bs"
  by (simp_all add: file_of_def)

definition fits :: "nat \<Rightarrow> 'a list \<Rightarrow> bool" where
  "fits limit as \<longleftrightarrow> list_all (\<lambda>a. ok a \<and> length (enc a) < limit) as"

lemma fits_simps [simp]:
  "fits limit []" "fits limit (a # as) \<longleftrightarrow> ok a \<and> length (enc a) < limit \<and> fits limit as"
  by (simp_all add: fits_def)

lemma scan_enc:
  "ok a \<Longrightarrow> length (enc a) < limit \<Longrightarrow>
     scan_lines limit (enc a @ nl # s) = (case scan_lines limit s of (ls, bad) \<Rightarrow> (enc a # ls, bad))"
  using enc_line [of a] by (simp add: scan_line drop_cr_plain)

text \<open>Records are read back in order, whatever follows them.\<close>

lemma until_file:
  "fits limit as \<Longrightarrow> case_prod (read_until dec) (scan_lines limit (file_of as @ s)) =
     (case case_prod (read_until dec) (scan_lines limit s) of Inl e \<Rightarrow> Inl e | Inr bs \<Rightarrow> Inr (map reread as @ bs))"
proof (induction as)
  case (Cons a as)
  then show ?case using scan_enc [of a limit "file_of as @ s"] enc_line [of a]
    by (auto simp: dec_enc split: prod.splits sum.splits)
qed (auto split: sum.splits)

lemma strict_file:
  "fits limit as \<Longrightarrow> case_prod (read_strict dec) (scan_lines limit (file_of as @ s)) =
     (case case_prod (read_strict dec) (scan_lines limit s) of Inl e \<Rightarrow> Inl e | Inr bs \<Rightarrow> Inr (map reread as @ bs))"
proof (induction as)
  case (Cons a as)
  then show ?case using scan_enc [of a limit "file_of as @ s"] enc_line [of a]
    by (auto simp: dec_enc split: prod.splits sum.splits)
qed (auto split: sum.splits)

lemma until_cut:
  "fits limit as \<Longrightarrow>
     case_prod (read_until dec) (scan_lines limit (take n (file_of as))) = Inr (map reread (take (whole n (map enc as)) as))"
proof (induction as arbitrary: n)
  case (Cons a as)
  then have ok: "ok a" "length (enc a) < limit" "fits limit as" by simp_all
  note l = enc_line [OF ok(1)]
  consider (part) "n < length (enc a)" | (all) "n = length (enc a)" | (more) "length (enc a) < n" by linarith
  then show ?case
  proof cases
    case part
    let ?p = "take n (enc a)"
    have "dec ?p = None" using part by (intro dec_torn [OF ok(1) append_take_drop_id]) simp
    moreover have "scan_lines limit ?p = (if ?p = [] then [] else [drop_cr ?p], False)"
      using l ok(2) by (intro scan_torn) (auto dest: in_set_takeD)
    moreover have "drop_cr ?p = ?p" using l by (intro drop_cr_plain) (auto dest: in_set_takeD)
    ultimately show ?thesis using part by simp
  next
    case all
    have w: "whole 0 (map enc as) = 0" using ok(3) enc_line by (cases as) auto
    have "scan_lines limit (enc a) = ([enc a], False)" using l ok(2) by (simp add: scan_torn drop_cr_plain)
    then show ?thesis using all l w by (simp add: dec_enc ok)
  next
    case more
    then obtain k where k: "n = length (enc a) + Suc k" using less_imp_Suc_add by fastforce
    show ?thesis using Cons.IH [OF ok(3), of k] scan_enc [OF ok(1,2), of "take k (file_of as)"] l
      by (simp add: k dec_enc ok split: prod.splits)
  qed
qed simp

lemma strict_torn:
  assumes "fits limit as" "ok a" "length (enc a) < limit" "p @ q = enc a" "p \<noteq> []" "q \<noteq> []"
  shows "case_prod (read_strict dec) (scan_lines limit (file_of as @ p)) = Inl ''decoding a line''"
proof -
  have e: "nl \<notin> set p" "cr \<notin> set p" "length p < limit"
    using enc_line [OF assms(2)] assms(3) unfolding assms(4) [symmetric] by simp_all
  show ?thesis using strict_file [OF assms(1), of p] dec_torn [OF assms(2,4,6)] assms(5)
    by (simp add: scan_torn [OF e(1,3)] drop_cr_plain e(2))
qed

text \<open>What a restart writes after a torn record joins its line: nothing from there on is read again.\<close>

lemma until_merged:
  assumes "fits limit as" "nl \<notin> set p" "cr \<notin> set p" "ok b" "length p + length (enc b) < limit" "dec (p @ enc b) = None"
  shows "case_prod (read_until dec) (scan_lines limit (file_of as @ p @ file_of (b # bs))) = Inr (map reread as)"
proof -
  have "scan_lines limit ((p @ enc b) @ nl # file_of bs) =
      (case scan_lines limit (file_of bs) of (ls, bad) \<Rightarrow> (drop_cr (p @ enc b) # ls, bad))"
    using enc_line [OF assms(4)] assms by (intro scan_line) auto
  moreover have "drop_cr (p @ enc b) = p @ enc b" using enc_line [OF assms(4)] assms by (intro drop_cr_plain) auto
  ultimately show ?thesis using until_file [OF assms(1), of "p @ file_of (b # bs)"] enc_line [OF assms(4)] assms(6)
    by (simp split: prod.splits)
qed

text \<open>One record too long for the reader, which nothing stops the writer from appending, fails the whole reading.\<close>

lemma until_too_long:
  assumes "fits limit as" "ok b" "limit \<le> length (enc b)"
  shows "case_prod (read_until dec) (scan_lines limit (file_of as @ file_of (b # bs))) = Inl ''token too long''"
  using until_file [OF assms(1), of "file_of (b # bs)"] scan_long_line [of "enc b" limit] enc_line [OF assms(2)] assms(3)
  by simp

end

section \<open>Reading a struct\<close>

text \<open>
  \<open>Unmarshal\<close> matches the keys of an object to the fields of a struct without regard to case (that of
  ASCII here), the last one wins, \<open>null\<close> leaves a field as it is and empties a slice, and a value of
  another type is an error.
\<close>

definition named :: "string \<Rightarrow> (string \<times> jval) list \<Rightarrow> jval list" where
  "named n kvs = map snd (filter (\<lambda>(k, v). equal_fold k n) kvs)"

fun take_field :: "(jval \<Rightarrow> 'c option) \<Rightarrow> 'c \<Rightarrow> jval list \<Rightarrow> 'c option" where
  "take_field f d [] = Some d"
| "take_field f d (v # vs) =
     (if v = JNull then take_field f d vs else case f v of None \<Rightarrow> None | Some x \<Rightarrow> take_field f x vs)"

fun string_value :: "jval \<Rightarrow> string option" where
  "string_value (JStr s) = Some s" | "string_value _ = None"

fun int_value :: "jval \<Rightarrow> int option" where
  "int_value (JNum l) = atoi l" | "int_value _ = None"

fun bool_value :: "jval \<Rightarrow> bool option" where
  "bool_value (JBool b) = Some b" | "bool_value _ = None"

fun list_value :: "(jval \<Rightarrow> 'c option) \<Rightarrow> jval \<Rightarrow> 'c list option" where
  "list_value f (JArr vs) = those (map f vs)" | "list_value f _ = None"

definition struct_value :: "jval \<Rightarrow> (string \<times> jval) list option" where
  "struct_value v = (case v of JObj kvs \<Rightarrow> Some kvs | JNull \<Rightarrow> Some [] | _ \<Rightarrow> None)"

definition string_field :: "string \<Rightarrow> (string \<times> jval) list \<Rightarrow> string option" where
  "string_field n kvs = take_field string_value [] (named n kvs)"

definition int_field :: "string \<Rightarrow> (string \<times> jval) list \<Rightarrow> int option" where
  "int_field n kvs = take_field int_value 0 (named n kvs)"

definition bool_field :: "string \<Rightarrow> (string \<times> jval) list \<Rightarrow> bool option" where
  "bool_field n kvs = take_field bool_value False (named n kvs)"

definition list_field :: "(jval \<Rightarrow> 'c option) \<Rightarrow> string \<Rightarrow> (string \<times> jval) list \<Rightarrow> 'c list option" where
  "list_field f n kvs = take_field (list_value f) [] (map (\<lambda>v. if v = JNull then JArr [] else v) (named n kvs))"

lemma named_simps [simp]:
  "named n [] = []" "named n ((k, v) # kvs) = (if equal_fold k n then v # named n kvs else named n kvs)"
  "named n (xs @ ys) = named n xs @ named n ys"
  by (simp_all add: named_def)

text \<open>A name as the sources write one: lower case, and the same after a round trip.\<close>

definition plain_name :: "string \<Rightarrow> bool" where
  "plain_name n \<longleftrightarrow> to_lower n = n \<and> sanitize n = n"

lemma plain_nameI: "list_all (\<lambda>c. byte_of c < 0x80 \<and> lower_char c = c) n \<Longrightarrow> plain_name n"
  by (auto simp: plain_name_def to_lower_def list_all_iff map_idI intro!: sanitize_ascii)

lemma plain_name_sanitize: "plain_name n \<Longrightarrow> sanitize n = n"
  by (simp add: plain_name_def)

lemma plain_name_fold: "plain_name a \<Longrightarrow> plain_name b \<Longrightarrow> equal_fold a b \<longleftrightarrow> a = b"
  by (simp add: plain_name_def equal_fold_def)

lemma those_map: "(\<And>x. x \<in> set xs \<Longrightarrow> f x = Some (g x)) \<Longrightarrow> those (map f xs) = Some (map g xs)"
  by (induction xs) auto

text \<open>A field that \<open>omitempty\<close> leaves out when it is empty.\<close>

definition unless :: "bool \<Rightarrow> string \<Rightarrow> jval \<Rightarrow> (string \<times> jval) list" where
  "unless absent k v = (if absent then [] else [(k, v)])"

lemma sanitize_unless [simp]:
  "map (\<lambda>(k, v). (sanitize k, sanitize_val v)) (unless b k v) = unless b (sanitize k) (sanitize_val v)"
  by (simp add: unless_def)

lemma named_unless [simp]: "named n (unless b k v) = (if equal_fold k n then (if b then [] else [v]) else [])"
  by (simp add: unless_def)

lemma take_unless [simp]:
  "take_field string_value [] (if s = [] then [] else [JStr (sanitize s)]) = Some (sanitize s)"
  "take_field bool_value False (if \<not> c then [] else [JBool c]) = Some c"
  by simp_all

lemma take_list_unless [simp]:
  "(\<And>x. x \<in> set xs \<Longrightarrow> f (j x) = Some (g x)) \<Longrightarrow>
     take_field (list_value f) [] (map (\<lambda>v. if v = JNull then JArr [] else v) (if xs = [] then [] else [JArr (map j xs)]))
       = Some (map g xs)"
  by (simp add: those_map o_def)

lemma plain_unless [simp]: "list_all P (unless b k v) \<longleftrightarrow> b \<or> P (k, v)"
  by (simp add: unless_def)

lemma int_value_show [simp]: "- (2 ^ 63) \<le> i \<Longrightarrow> i < 2 ^ 63 \<Longrightarrow> atoi (show_int i) = Some i"
  by (rule atoi_show_int)

section \<open>Printed values as lines\<close>

lemma join_with_set: "set (join_with sep xs) \<subseteq> set sep \<union> \<Union> (set ` set xs)"
  by (induction xs rule: induct_list012) auto

definition printable :: "char \<Rightarrow> bool" where
  "printable c \<longleftrightarrow> 0x20 \<le> byte_of c"

lemma printable_ascii:
  "list_all printable ''nulltruefalse''" "list_all printable ''[]{},:-''" "list_all printable ''0123456789''"
  by code_simp+

lemma print_printable: "plain_val v \<Longrightarrow> list_all printable (print_val v)"
proof (induction v)
  case (JNum l)
  then obtain i where "l = show_int i" by auto
  moreover have "list_all decimal (show_nat n)" for n using digits_of_decimal by (simp add: show_nat_def)
  then have "list_all printable (show_nat n)" for n
    using printable_ascii(3) unfolding list_all_iff decimal_def by blast
  ultimately show ?case using printable_ascii(2) by (simp add: show_int_def)
next
  case (JStr s)
  then show ?case using json_quote_printable by (simp add: list_all_iff printable_def)
next
  case (JArr vs)
  then have "c \<in> set (join_with '','' (map print_val vs)) \<Longrightarrow> printable c" for c
    using join_with_set [of "'',''" "map print_val vs"] printable_ascii(2) by (fastforce simp: list_all_iff)
  then show ?case using printable_ascii(2) by (auto simp: list_all_iff)
next
  case (JObj kvs)
  let ?f = "\<lambda>(k, v). json_quote k @ '':'' @ print_val v"
  have "printable c" if "kv \<in> set kvs" "c \<in> set (?f kv)" for c kv
    using JObj that json_quote_printable [of c "fst kv"] printable_ascii(2)
    by (cases kv) (auto simp: list_all_iff printable_def)
  then have "c \<in> set (join_with '','' (map ?f kvs)) \<Longrightarrow> printable c" for c
    using join_with_set [of "'',''" "map ?f kvs"] printable_ascii(2) by (fastforce simp: list_all_iff)
  then show ?case using printable_ascii(2) by (auto simp: list_all_iff)
qed (use printable_ascii(1) in \<open>simp_all\<close>)

lemma printable_line: "list_all printable l \<Longrightarrow> nl \<notin> set l \<and> cr \<notin> set l"
proof -
  have "\<not> printable nl" "\<not> printable cr" by code_simp+
  then show "list_all printable l \<Longrightarrow> nl \<notin> set l \<and> cr \<notin> set l" by (auto simp: list_all_iff)
qed

text \<open>
  A record printed as an object and read from the parsed value is a codec of lines, once the reading of
  what it prints is shown.
\<close>

lemma json_codec:
  assumes "\<And>a. ok a \<Longrightarrow> plain_val (JObj (members a))"
    and "\<And>a. ok a \<Longrightarrow> from (sanitize_val (JObj (members a))) = Some (reread a)"
  shows "line_codec (\<lambda>a. print_val (JObj (members a))) (\<lambda>l. Option.bind (json_parse l) from) reread ok"
proof
  fix a p q
  assume o': "ok a"
  note plain = assms(1) [OF o']
  show "Option.bind (json_parse (print_val (JObj (members a)))) from = Some (reread a)"
    using json_parse_print [OF plain] assms(2) [OF o'] by simp
  show "print_val (JObj (members a)) \<noteq> [] \<and> nl \<notin> set (print_val (JObj (members a))) \<and> cr \<notin> set (print_val (JObj (members a)))"
    using printable_line [OF print_printable [OF plain]] by simp
  show "p @ q = print_val (JObj (members a)) \<Longrightarrow> q \<noteq> [] \<Longrightarrow> Option.bind (json_parse p) from = None"
    using torn_object [OF plain] by simp
qed

end
