(* ===== verification/ThreadHistory.thy ===== *)
theory ThreadHistory
  imports LineFile AgentTypes "HOL-Library.Monad_Syntax"
begin

text \<open>
  Model of \<open>internal/thread/history.go\<close>: the transcript of a thread kept beside its event log, one record
  of JSON to a line, read again when the thread is resumed. The file is its bytes.
\<close>

section \<open>Records\<close>

record history_call =
  hc_id :: string
  hc_name :: string
  hc_input :: string

record history_record =
  hr_role :: string
  hr_content :: string
  hr_call_id :: string
  hr_calls :: "history_call list"
  hr_turn :: int
  hr_error :: bool

definition role_text :: "role \<Rightarrow> string" where
  "role_text r =
     (case r of RoleSystem \<Rightarrow> ''system'' | RoleUser \<Rightarrow> ''user'' | RoleAssistant \<Rightarrow> ''assistant'' | RoleTool \<Rightarrow> ''tool'')"

definition new_history_record :: "turn_message \<Rightarrow> history_record" where
  "new_history_record e =
     (let m = tm_message e in
      \<lparr>hr_role = role_text (ms_role m), hr_content = ms_content m, hr_call_id = ms_call_id m,
       hr_calls = map (\<lambda>c. \<lparr>hc_id = tc_id c, hc_name = tc_name c, hc_input = tc_input c\<rparr>) (ms_calls m),
       hr_turn = tm_turn e, hr_error = ms_error m\<rparr>)"

text \<open>A role no code writes has no counterpart in the model.\<close>

definition role_of :: "string \<Rightarrow> role option" where
  "role_of s = List.find (\<lambda>r. role_text r = s) [RoleSystem, RoleUser, RoleAssistant, RoleTool]"

definition entry_of :: "history_record \<Rightarrow> turn_message option" where
  "entry_of r =
     map_option (\<lambda>role.
       \<lparr>tm_message =
          \<lparr>ms_role = role, ms_content = hr_content r,
           ms_calls = map (\<lambda>c. \<lparr>tc_id = hc_id c, tc_name = hc_name c, tc_input = hc_input c\<rparr>) (hr_calls r),
           ms_call_id = hr_call_id r, ms_error = hr_error r\<rparr>,
        tm_turn = hr_turn r\<rparr>) (role_of (hr_role r))"

section \<open>On disk\<close>

definition call_json :: "history_call \<Rightarrow> jval" where
  "call_json c = JObj [(''id'', JStr (hc_id c)), (''name'', JStr (hc_name c)), (''input'', JStr (hc_input c))]"

definition record_members :: "history_record \<Rightarrow> (string \<times> jval) list" where
  "record_members r =
     [(''role'', JStr (hr_role r))] @
     unless (hr_content r = []) ''content'' (JStr (hr_content r)) @
     unless (hr_call_id r = []) ''tool_call_id'' (JStr (hr_call_id r)) @
     unless (hr_calls r = []) ''tool_calls'' (JArr (map call_json (hr_calls r))) @
     [(''turn'', JNum (show_int (hr_turn r)))] @
     unless (\<not> hr_error r) ''is_error'' (JBool (hr_error r))"

definition encode_record :: "history_record \<Rightarrow> string" where
  "encode_record r = print_val (JObj (record_members r))"

definition call_of :: "jval \<Rightarrow> history_call option" where
  "call_of v =
     do {
       kvs \<leftarrow> struct_value v;
       i \<leftarrow> string_field ''id'' kvs;
       n \<leftarrow> string_field ''name'' kvs;
       a \<leftarrow> string_field ''input'' kvs;
       Some \<lparr>hc_id = i, hc_name = n, hc_input = a\<rparr>
     }"

definition record_of :: "jval \<Rightarrow> history_record option" where
  "record_of v =
     do {
       kvs \<leftarrow> struct_value v;
       role \<leftarrow> string_field ''role'' kvs;
       content \<leftarrow> string_field ''content'' kvs;
       call_id \<leftarrow> string_field ''tool_call_id'' kvs;
       calls \<leftarrow> list_field call_of ''tool_calls'' kvs;
       turn \<leftarrow> int_field ''turn'' kvs;
       err \<leftarrow> bool_field ''is_error'' kvs;
       Some \<lparr>hr_role = role, hr_content = content, hr_call_id = call_id, hr_calls = calls, hr_turn = turn, hr_error = err\<rparr>
     }"

definition decode_record :: "string \<Rightarrow> history_record option" where
  "decode_record l = Option.bind (json_parse l) record_of"

definition history_max_line :: nat where
  "history_max_line = 8 * 1024 * 1024"

text \<open>A file that is not there reads as empty.\<close>

definition history_entries :: "string option \<Rightarrow> string + history_record list" where
  "history_entries file =
     (case file of
        None \<Rightarrow> Inr []
      | Some s \<Rightarrow> case_prod (read_until decode_record) (scan_lines history_max_line s))"

definition append_history :: "turn_message \<Rightarrow> string option \<Rightarrow> string option" where
  "append_history e file =
     Some ((case file of None \<Rightarrow> [] | Some s \<Rightarrow> s) @ encode_record (new_history_record e) @ [nl])"

definition last_turn :: "turn_message list \<Rightarrow> int" where
  "last_turn es = foldl (\<lambda>t e. if tm_turn e > t then tm_turn e else t) 0 es"

section \<open>A record is a line\<close>

definition clean_call :: "history_call \<Rightarrow> history_call" where
  "clean_call c = \<lparr>hc_id = sanitize (hc_id c), hc_name = sanitize (hc_name c), hc_input = sanitize (hc_input c)\<rparr>"

definition clean_record :: "history_record \<Rightarrow> history_record" where
  "clean_record r =
     r\<lparr>hr_role := sanitize (hr_role r), hr_content := sanitize (hr_content r), hr_call_id := sanitize (hr_call_id r),
       hr_calls := map clean_call (hr_calls r)\<rparr>"

definition turn_fits :: "history_record \<Rightarrow> bool" where
  "turn_fits r \<longleftrightarrow> - (2 ^ 63) \<le> hr_turn r \<and> hr_turn r < 2 ^ 63"

lemma history_names:
  "plain_name ''role''" "plain_name ''content''" "plain_name ''tool_call_id''" "plain_name ''tool_calls''"
  "plain_name ''turn''" "plain_name ''is_error''" "plain_name ''id''" "plain_name ''name''" "plain_name ''input''"
  by (intro plain_nameI, code_simp)+

lemma call_of_json: "call_of (sanitize_val (call_json c)) = Some (clean_call c)"
  by (simp add: call_of_def call_json_def struct_value_def string_field_def plain_name_fold history_names
      plain_name_sanitize clean_call_def)

definition members_back :: "history_record \<Rightarrow> (string \<times> jval) list" where
  "members_back r = map (\<lambda>(k, v). (sanitize k, sanitize_val v)) (record_members r)"

lemma members_back:
  "members_back r =
     [(''role'', JStr (sanitize (hr_role r)))] @
     unless (hr_content r = []) ''content'' (JStr (sanitize (hr_content r))) @
     unless (hr_call_id r = []) ''tool_call_id'' (JStr (sanitize (hr_call_id r))) @
     unless (hr_calls r = []) ''tool_calls'' (JArr (map (\<lambda>c. sanitize_val (call_json c)) (hr_calls r))) @
     [(''turn'', JNum (show_int (hr_turn r)))] @
     unless (\<not> hr_error r) ''is_error'' (JBool (hr_error r))"
  by (simp add: members_back_def record_members_def plain_name_sanitize history_names o_def)

lemma fields_back:
  "string_field ''role'' (members_back r) = Some (sanitize (hr_role r))"
  "string_field ''content'' (members_back r) = Some (sanitize (hr_content r))"
  "string_field ''tool_call_id'' (members_back r) = Some (sanitize (hr_call_id r))"
  "list_field call_of ''tool_calls'' (members_back r) = Some (map clean_call (hr_calls r))"
  "turn_fits r \<Longrightarrow> int_field ''turn'' (members_back r) = Some (hr_turn r)"
  "bool_field ''is_error'' (members_back r) = Some (hr_error r)"
  by (simp_all only: members_back string_field_def int_field_def bool_field_def list_field_def named_simps named_unless
      plain_name_fold history_names append_Nil append_Nil2 append_Cons)
    (simp_all add: call_of_json turn_fits_def)

lemma record_of_json: "turn_fits r \<Longrightarrow> record_of (sanitize_val (JObj (record_members r))) = Some (clean_record r)"
  using fields_back [of r] unfolding members_back_def
  by (simp add: record_of_def struct_value_def clean_record_def)

lemma record_members_plain: "plain_val (JObj (record_members r))"
  by (auto simp: record_members_def call_json_def list_all_iff unless_def)

interpretation history: line_codec encode_record decode_record clean_record turn_fits
  unfolding encode_record_def [abs_def] decode_record_def [abs_def]
  by (rule json_codec) (simp_all only: record_members_plain record_of_json)

section \<open>What a resumed thread knows\<close>

text \<open>The file after a run appended its messages; \<open>clean_entry\<close> is a message as UTF-8.\<close>

definition history_file :: "turn_message list \<Rightarrow> string" where
  "history_file es = (case fold append_history es (Some []) of None \<Rightarrow> [] | Some s \<Rightarrow> s)"

definition clean_entry :: "turn_message \<Rightarrow> turn_message" where
  "clean_entry e =
     (let m = tm_message e in
      e\<lparr>tm_message := m\<lparr>ms_content := sanitize (ms_content m), ms_call_id := sanitize (ms_call_id m),
          ms_calls := map (\<lambda>c. \<lparr>tc_id = sanitize (tc_id c), tc_name = sanitize (tc_name c), tc_input = sanitize (tc_input c)\<rparr>)
                        (ms_calls m)\<rparr>\<rparr>)"

definition record_fits :: "turn_message \<Rightarrow> bool" where
  "record_fits e \<longleftrightarrow>
     turn_fits (new_history_record e) \<and> length (encode_record (new_history_record e)) < history_max_line"

lemma fold_append_history:
  "fold append_history es (Some s) = Some (s @ history.file_of (map new_history_record es))"
  by (induction es arbitrary: s) (simp_all add: append_history_def)

lemma history_file_lines: "history_file es = history.file_of (map new_history_record es)"
  by (simp add: history_file_def fold_append_history)

lemma records_fit: "list_all record_fits es \<Longrightarrow> history.fits history_max_line (map new_history_record es)"
  by (simp add: history.fits_def record_fits_def list_all_iff)

lemma sanitize_role: "sanitize (role_text r) = role_text r"
  by (cases r) (simp_all add: role_text_def, (intro sanitize_ascii, code_simp)+)

lemma role_of_text: "role_of (role_text r) = Some r"
  by (cases r) (simp_all add: role_of_def role_text_def)

lemma entry_back: "entry_of (clean_record (new_history_record e)) = Some (clean_entry e)"
  by (simp add: entry_of_def clean_record_def new_history_record_def Let_def sanitize_role role_of_text clean_entry_def
      clean_call_def)


definition demo_message :: turn_message where
  "demo_message =
     \<lparr>tm_message = \<lparr>ms_role = RoleUser, ms_content = ''hi'', ms_calls = [], ms_call_id = [], ms_error = False\<rparr>, tm_turn = 1\<rparr>"

lemma demo_record: "encode_record (new_history_record demo_message) = ''{\"role\":\"user\",\"content\":\"hi\",\"turn\":1}''"
proof -
  have u: "list_all unescaped ''role''" "list_all unescaped ''user''" "list_all unescaped ''content''" "list_all unescaped ''hi''"
    "list_all unescaped ''turn''" by code_simp+
  have n: "show_int 1 = ''1''" by code_simp
  show ?thesis
    by (simp add: encode_record_def record_members_def new_history_record_def demo_message_def role_text_def unless_def n
        u [THEN json_quote_unescaped])
qed

lemma demo_fits: "record_fits demo_message"
  unfolding record_fits_def demo_record by (simp add: turn_fits_def new_history_record_def demo_message_def history_max_line_def)


text \<open>
  Nothing closes the line a kill left open, so the first record of the resumed run joins it. Here the kill
  came after one byte: whatever is appended from then on, for good, is not read again.
\<close>

lemma brace_brace: "json_parse (''{'' @ print_val (JObj kvs)) = None"
  by (simp add: json_parse_def)

text \<open>
  After a record was torn, every message a resumed thread appends is lost to the next one: reading
  stops at the line which the torn record and the first new one share.
\<close>

theorem torn_record_swallows:
  assumes "list_all record_fits es" "record_fits e" "Suc (length (encode_record (new_history_record e))) < history_max_line"
  shows "history_entries (Some (history_file es @ ''{'' @ history_file (e # later)))
    = Inr (map (clean_record \<circ> new_history_record) es)"
proof -
  have "nl \<notin> set ''{''" "cr \<notin> set ''{''" by code_simp+
  moreover have "decode_record (''{'' @ encode_record (new_history_record e)) = None"
    by (simp only: decode_record_def encode_record_def brace_brace bind.simps)
  moreover have "turn_fits (new_history_record e)" using assms(2) by (simp add: record_fits_def)
  ultimately show ?thesis
    using history.until_merged [OF records_fit [OF assms(1)], of "''{''" "new_history_record e" "map new_history_record later"] assms(3)
    by (simp add: history_entries_def history_file_lines o_def)
qed

theorem torn_record_swallows_witness:
  "history_entries (Some (history_file [demo_message] @ ''{'' @ history_file [demo_message, demo_message]))
     = Inr [clean_record (new_history_record demo_message)]"
proof -
  have "Suc (length (encode_record (new_history_record demo_message))) < history_max_line"
    unfolding demo_record by (simp add: history_max_line_def)
  from torn_record_swallows [of "[demo_message]", OF _ demo_fits this, of "[demo_message]"] show ?thesis by (simp add: demo_fits)
qed

text \<open>One message past the reader's bound, which no writer checks, and the thread cannot be opened.\<close>

lemma long_message_bars_thread:
  assumes "list_all record_fits es" "turn_fits (new_history_record e)"
    "history_max_line \<le> length (encode_record (new_history_record e))"
  shows "history_entries (Some (history_file (es @ e # later))) = Inl ''token too long''"
  using history.until_too_long [OF records_fit [OF assms(1)] assms(2,3), of "map new_history_record later"]
  by (simp add: history_entries_def history_file_lines)

end
