(* ===== verification/Approvals.thy ===== *)
theory Approvals
  imports LineFile AgentTypes "HOL-Library.Monad_Syntax"
begin

text \<open>
  Model of \<open>internal/permission/store.go\<close>: the allow-always answers of a project, kept in a file so that
  they outlive the thread that got them, and the gate that consults them first. The file is its bytes, an
  approval's time is its text, and \<open>time_ok\<close> is what \<open>time.Time\<close> reads back; \<open>write\<close> is the append of the
  operating system, which says whether it failed.
\<close>

section \<open>The file\<close>

record grant =
  gt_at :: string
  gt_tool :: string
  gt_key :: string

definition max_stored_key :: nat where
  "max_stored_key = 4096"

definition max_scan_line :: nat where
  "max_scan_line = 2 * max_stored_key"

definition grant_members :: "grant \<Rightarrow> (string \<times> jval) list" where
  "grant_members g = [(''at'', JStr (gt_at g)), (''tool'', JStr (gt_tool g)), (''key'', JStr (gt_key g))]"

definition encode_grant :: "grant \<Rightarrow> string" where
  "encode_grant g = print_val (JObj (grant_members g))"

definition time_value :: "(string \<Rightarrow> bool) \<Rightarrow> jval \<Rightarrow> string option" where
  "time_value time_ok v = Option.bind (string_value v) (\<lambda>s. if time_ok s then Some s else None)"

definition grant_of :: "(string \<Rightarrow> bool) \<Rightarrow> jval \<Rightarrow> grant option" where
  "grant_of time_ok v =
     do {
       kvs \<leftarrow> struct_value v;
       at' \<leftarrow> take_field (time_value time_ok) [] (named ''at'' kvs);
       tool \<leftarrow> string_field ''tool'' kvs;
       key \<leftarrow> string_field ''key'' kvs;
       Some \<lparr>gt_at = at', gt_tool = tool, gt_key = key\<rparr>
     }"

definition decode_grant :: "(string \<Rightarrow> bool) \<Rightarrow> string \<Rightarrow> grant option" where
  "decode_grant time_ok l = Option.bind (json_parse l) (grant_of time_ok)"

text \<open>Every line counts here, an empty one is an error.\<close>

fun read_grants :: "(string \<Rightarrow> grant option) \<Rightarrow> string list \<Rightarrow> bool \<Rightarrow> string + grant list" where
  "read_grants dec [] bad = (if bad then Inl ''token too long'' else Inr [])"
| "read_grants dec (l # ls) bad =
     (case dec l of
        None \<Rightarrow> Inl ''reading approvals''
      | Some g \<Rightarrow> (case read_grants dec ls bad of Inl e \<Rightarrow> Inl e | Inr gs \<Rightarrow> Inr (g # gs)))"

section \<open>The store\<close>

record store =
  so_granted :: "string list"
  so_file :: "string option"

definition slot :: "string \<Rightarrow> string \<Rightarrow> string" where
  "slot tool key = tool @ CHR 0x00 # key"

definition open_store :: "(string \<Rightarrow> bool) \<Rightarrow> string option \<Rightarrow> string + store" where
  "open_store time_ok file =
     (case file of
        None \<Rightarrow> Inr \<lparr>so_granted = [], so_file = None\<rparr>
      | Some s \<Rightarrow>
          (case case_prod (read_grants (decode_grant time_ok)) (scan_lines max_scan_line s) of
             Inl e \<Rightarrow> Inl e
           | Inr gs \<Rightarrow>
               Inr \<lparr>so_granted = map (\<lambda>g. slot (gt_tool g) (gt_key g)) (filter (\<lambda>g. gt_key g \<noteq> []) gs), so_file = Some s\<rparr>))"

definition request_slot :: "perm_request \<Rightarrow> string" where
  "request_slot req = slot (pr_tool req) (pr_key req)"

definition allowed :: "perm_request \<Rightarrow> store \<Rightarrow> bool" where
  "allowed req st \<longleftrightarrow> request_slot req \<in> set (so_granted st)"

type_synonym disk_write = "string \<Rightarrow> string option \<Rightarrow> string option \<times> bool"

definition remember :: "disk_write \<Rightarrow> string \<Rightarrow> perm_request \<Rightarrow> store \<Rightarrow> string option \<times> store" where
  "remember write now req st =
     (if pr_key req = [] \<or> max_stored_key < length (pr_key req) then (None, st)
      else (case write (encode_grant \<lparr>gt_at = now, gt_tool = pr_tool req, gt_key = pr_key req\<rparr> @ [nl]) (so_file st) of
              (file, failed) \<Rightarrow>
                if failed then (Some ''writing an approval'', st\<lparr>so_file := file\<rparr>)
                else (None, \<lparr>so_granted = request_slot req # so_granted st, so_file = file\<rparr>)))"

type_synonym 'w asking = "perm_request \<Rightarrow> 'w \<Rightarrow> (string + answer) \<times> 'w"

definition persisting ::
  "'w asking \<Rightarrow> disk_write \<Rightarrow> string \<Rightarrow> perm_request \<Rightarrow> store \<times> 'w \<Rightarrow> (string + answer) \<times> store \<times> 'w" where
  "persisting ask write now req s =
     (case s of (st, w) \<Rightarrow>
        if allowed req st then (Inr Allow, st, w)
        else (case ask req w of
                (Inl e, w) \<Rightarrow> (Inl (''asking the gate: '' @ e), st, w)
              | (Inr d, w) \<Rightarrow>
                  if d = AllowAlways
                  then (case remember write now req st of
                          (Some e, st) \<Rightarrow> (Inr AllowAlways, st, w)
                        | (None, st) \<Rightarrow> (Inr d, st, w))
                  else (Inr d, st, w)))"

section \<open>Nothing is approved that was not\<close>

text \<open>
  What a project asks in turn, each request with its time: what was asked, whether the gate heard of it,
  and the answer.
\<close>

type_synonym asked = "perm_request \<times> bool \<times> (string + answer)"

fun ask_all ::
  "'w asking \<Rightarrow> disk_write \<Rightarrow> (string \<times> perm_request) list \<Rightarrow> store \<times> 'w \<Rightarrow> asked list" where
  "ask_all ask write [] s = []"
| "ask_all ask write ((now, req) # rs) s =
     (case persisting ask write now req s of
        (res, s') \<Rightarrow> (req, \<not> allowed req (fst s), res) # ask_all ask write rs s')"

text \<open>Every answer given without asking has an approval of the same tool and key before it.\<close>

fun justified :: "string list \<Rightarrow> asked list \<Rightarrow> bool" where
  "justified given [] = True"
| "justified given ((req, heard, res) # rest) =
     ((heard \<or> request_slot req \<in> set given \<and> res = Inr Allow)
      \<and> justified (if heard \<and> res = Inr AllowAlways then request_slot req # given else given) rest)"

lemma justified_mono: "justified given rest \<Longrightarrow> set given \<subseteq> set given' \<Longrightarrow> justified given' rest"
proof (induction rest arbitrary: given given')
  case (Cons x rest)
  obtain req heard res where x: "x = (req, heard, res)" by (metis prod_cases3)
  let ?more = "\<lambda>g. if heard \<and> res = Inr AllowAlways then request_slot req # g else g"
  have "justified (?more given) rest" using Cons.prems(1) by (simp add: x)
  then have "justified (?more given') rest" by (rule Cons.IH) (use Cons.prems(2) in auto)
  with Cons.prems show ?case unfolding x justified.simps by blast
qed simp

lemma remember_granted:
  "remember write now req st = (e, st') \<Longrightarrow>
     so_granted st' = so_granted st \<or> so_granted st' = request_slot req # so_granted st"
  by (auto simp: remember_def split: if_splits prod.splits)

lemma persisting_granted:
  "persisting ask write now req (st, w) = (res, st', w') \<Longrightarrow>
     so_granted st' = so_granted st
     \<or> \<not> allowed req st \<and> res = Inr AllowAlways \<and> so_granted st' = request_slot req # so_granted st"
proof (cases "allowed req st")
  case False
  obtain a w1 where a: "ask req w = (a, w1)" by force
  obtain e st1 where r: "remember write now req st = (e, st1)" by force
  assume p: "persisting ask write now req (st, w) = (res, st', w')"
  show ?thesis
  proof (cases a)
    case (Inr d)
    show ?thesis
    proof (cases "d = AllowAlways")
      case True
      then have "res = Inr AllowAlways" "st' = st1" using p False a r Inr by (auto simp: persisting_def split: option.splits)
      with remember_granted [OF r] False show ?thesis by auto
    qed (use p False a Inr in \<open>auto simp: persisting_def\<close>)
  qed (use p False a in \<open>auto simp: persisting_def\<close>)
qed (auto simp: persisting_def)


section \<open>The approvals outlive the process\<close>

definition clean_grant :: "grant \<Rightarrow> grant" where
  "clean_grant g = \<lparr>gt_at = sanitize (gt_at g), gt_tool = sanitize (gt_tool g), gt_key = sanitize (gt_key g)\<rparr>"

definition grant_ok :: "(string \<Rightarrow> bool) \<Rightarrow> grant \<Rightarrow> bool" where
  "grant_ok time_ok g \<longleftrightarrow> time_ok (sanitize (gt_at g))"

lemma grant_names: "plain_name ''at''" "plain_name ''tool''" "plain_name ''key''"
  by (intro plain_nameI, code_simp)+

lemma grant_of_json: "grant_ok time_ok g \<Longrightarrow> grant_of time_ok (sanitize_val (JObj (grant_members g))) = Some (clean_grant g)"
  by (simp add: grant_of_def grant_members_def struct_value_def string_field_def plain_name_fold grant_names
      plain_name_sanitize time_value_def grant_ok_def clean_grant_def)

interpretation approvals: line_codec encode_grant "decode_grant time_ok" clean_grant "grant_ok time_ok" for time_ok
  unfolding encode_grant_def [abs_def] decode_grant_def [abs_def]
  by (rule json_codec) (simp_all only: grant_of_json, simp add: grant_members_def)

lemma read_grants_file:
  "approvals.fits time_ok max_scan_line gs \<Longrightarrow>
     case_prod (read_grants (decode_grant time_ok)) (scan_lines max_scan_line (approvals.file_of gs)) = Inr (map clean_grant gs)"
  by (induction gs) (auto simp: approvals.scan_enc approvals.dec_enc split: prod.splits)

text \<open>A disk that takes every append.\<close>

definition sound_disk :: disk_write where
  "sound_disk text file = (Some ((case file of None \<Rightarrow> [] | Some s \<Rightarrow> s) @ text), False)"

definition remember_all :: "(string \<times> perm_request) list \<Rightarrow> store \<Rightarrow> store" where
  "remember_all rs st = fold (\<lambda>(now, req) st. snd (remember sound_disk now req st)) rs st"

definition grant_for :: "string \<times> perm_request \<Rightarrow> grant" where
  "grant_for = (\<lambda>(now, req). \<lparr>gt_at = now, gt_tool = pr_tool req, gt_key = pr_key req\<rparr>)"

definition storable :: "string \<times> perm_request \<Rightarrow> bool" where
  "storable = (\<lambda>(now, req). pr_key req \<noteq> [] \<and> length (pr_key req) \<le> max_stored_key)"

lemma remember_all_file:
  "list_all storable rs \<Longrightarrow> so_file st = Some s \<Longrightarrow>
     so_file (remember_all rs st) = Some (s @ approvals.file_of (map grant_for rs))"
proof (induction rs arbitrary: st s)
  case (Cons r rs)
  obtain now req where r: "r = (now, req)" by force
  have "so_file (snd (remember sound_disk now req st)) = Some (s @ encode_grant (grant_for r) @ [nl])"
    using Cons.prems by (auto simp: remember_def sound_disk_def storable_def grant_for_def r)
  from Cons.IH [OF _ this] Cons.prems show ?case by (simp add: remember_all_def r)
qed (simp add: remember_all_def)

definition clean_slot :: "string \<times> perm_request \<Rightarrow> string" where
  "clean_slot r = slot (sanitize (pr_tool (snd r))) (sanitize (pr_key (snd r)))"

text \<open>
  A store opened again allows exactly the tools and keys that were remembered, as UTF-8, and what was
  in the file before.
\<close>

theorem approvals_survive:
  assumes "list_all storable rs"
    and "list_all (\<lambda>r. time_ok (sanitize (fst r)) \<and> length (encode_grant (grant_for r)) < max_scan_line) rs"
  shows "case open_store time_ok (so_file (remember_all rs \<lparr>so_granted = [], so_file = Some []\<rparr>)) of
           Inl e \<Rightarrow> False
         | Inr st \<Rightarrow> so_granted st = map clean_slot (filter (\<lambda>r. sanitize (pr_key (snd r)) \<noteq> []) rs)"
proof -
  have f: "so_file (remember_all rs \<lparr>so_granted = [], so_file = Some []\<rparr>) = Some (approvals.file_of (map grant_for rs))"
    using remember_all_file [OF assms(1), of "\<lparr>so_granted = [], so_file = Some []\<rparr>" "[]"] by simp
  have "approvals.fits time_ok max_scan_line (map grant_for rs)"
    using assms(2) by (auto simp: approvals.fits_def list_all_iff grant_ok_def grant_for_def split: prod.splits)
  from read_grants_file [OF this] show ?thesis
    unfolding f by (simp add: open_store_def clean_grant_def clean_slot_def grant_for_def filter_map o_def case_prod_beta)
qed

definition demo_request :: "string \<Rightarrow> perm_request" where
  "demo_request key =
     \<lparr>pr_thread = [], pr_tool = ''shell'', pr_action = [], pr_detail = [], pr_reason = [], pr_key = key, pr_paths = []\<rparr>"

lemma demo_unescaped: "list_all unescaped ''at''" "list_all unescaped ''tool''" "list_all unescaped ''key''" "list_all unescaped ''shell''"
  by code_simp+

lemma sanitize_unescaped: "list_all unescaped s \<Longrightarrow> sanitize s = s"
  by (intro sanitize_ascii) (auto simp: list_all_iff unescaped_def)

theorem approvals_survive_witness:
  "case open_store (\<lambda>_. True) (so_file (remember_all [([], demo_request ''make'')] \<lparr>so_granted = [], so_file = Some []\<rparr>)) of
     Inl e \<Rightarrow> False | Inr st \<Rightarrow> so_granted st = [slot ''shell'' ''make'']"
proof -
  have u: "list_all unescaped ''make''" "list_all unescaped []" by code_simp+
  have "list_all storable [([], demo_request ''make'')]"
    by (simp add: storable_def demo_request_def max_stored_key_def)
  moreover have "list_all (\<lambda>r. True \<and> length (encode_grant (grant_for r)) < max_scan_line) [([], demo_request ''make'')]"
    by (simp add: encode_grant_def grant_members_def grant_for_def demo_request_def max_scan_line_def max_stored_key_def
        u [THEN json_quote_unescaped] demo_unescaped [THEN json_quote_unescaped])
  ultimately show ?thesis
    using approvals_survive [of "[([], demo_request ''make'')]" "\<lambda>_. True"]
    by (simp add: demo_request_def clean_slot_def u [THEN sanitize_unescaped] demo_unescaped [THEN sanitize_unescaped] split: sum.splits)
qed

section \<open>An approval that bars the project\<close>

lemma json_quote_angles: "length (json_quote (replicate n (CHR ''<''))) = 6 * n + 2"
proof -
  have b: "byte_of (CHR ''<'') = 0x3C" by code_simp
  have "list_all (\<lambda>c. byte_of c < 0x80) (replicate n (CHR ''<''))" by (simp add: list_all_iff b)
  moreover have "length (quote_rune (0x3C, 1)) = 6" by code_simp
  ultimately show ?thesis
    by (simp add: json_quote_def runes_ascii b length_concat o_def map_replicate_const sum_list_replicate)
qed

lemma encode_grant_printable: "nl \<notin> set (encode_grant g)"
  using printable_line [OF print_printable, of "JObj (grant_members g)"] by (simp add: encode_grant_def grant_members_def)

text \<open>
  A command of fourteen hundred angle brackets is short enough to be remembered and, each being six
  characters of JSON, too long for the reader: once it is approved for good no project of this directory
  opens again.
\<close>

theorem approval_bars_project:
  "open_store time_ok
     (so_file (snd (remember sound_disk now (demo_request (replicate 1400 (CHR ''<''))) \<lparr>so_granted = [], so_file = None\<rparr>)))
     = Inl ''token too long''"
proof -
  let ?req = "demo_request (replicate 1400 (CHR ''<''))"
  let ?g = "grant_for (now, ?req)"
  have f: "so_file (snd (remember sound_disk now ?req \<lparr>so_granted = [], so_file = None\<rparr>)) = Some (encode_grant ?g @ nl # [])"
    by (simp add: remember_def sound_disk_def grant_for_def demo_request_def max_stored_key_def)
  have "max_scan_line \<le> length (json_quote (gt_key ?g))"
    by (simp add: grant_for_def demo_request_def json_quote_angles max_scan_line_def max_stored_key_def)
  then have "max_scan_line \<le> length (encode_grant ?g)" by (simp add: encode_grant_def grant_members_def)
  then show ?thesis unfolding f open_store_def
    by (simp add: scan_long_line [OF encode_grant_printable])
qed

section \<open>An approval of other bytes\<close>

text \<open>Read again, a key that is not UTF-8 has become another one, which nobody approved.\<close>

definition latin_key :: string where
  "latin_key = ''rm '' @ [CHR 0xE9]"

definition other_key :: string where
  "other_key = ''rm '' @ [CHR 0xEF, CHR 0xBF, CHR 0xBD]"

lemma sanitize_append_ascii: "list_all (\<lambda>c. byte_of c < 0x80) s \<Longrightarrow> sanitize (s @ t) = s @ sanitize t"
proof (induction s)
  case (Cons c s)
  then have "runes ((c # s) @ t) = (byte_of c, 1) # runes (s @ t)"
    by (simp add: runes.simps [of "c # s @ t"] decode_rune_def decode_bytes.simps)
  with Cons show ?case by (simp add: sanitize_def encode_ascii)
qed simp

lemma sanitize_latin: "sanitize latin_key = other_key" "sanitize other_key = other_key"
proof -
  have a: "list_all (\<lambda>c. byte_of c < 0x80) ''rm ''" by code_simp
  have c: "of_byte 0xEF = CHR 0xEF" "of_byte 0xBF = CHR 0xBF" "of_byte 0xBD = CHR 0xBD" by code_simp+
  have d: "decode_rune [CHR 0xE9] = (rune_error, 1)" by (simp add: decode_rune_def decode_bytes.simps byte_of_def)
  have "sanitize [CHR 0xE9] = encode_rune rune_error" by (simp add: sanitize_def runes.simps [of "[CHR 0xE9]"] d)
  also have "encode_rune rune_error = [CHR 0xEF, CHR 0xBF, CHR 0xBD]"
    by (simp add: encode_rune_def encode_bytes_def valid_rune_def c)
  finally have "sanitize [CHR 0xE9] = [CHR 0xEF, CHR 0xBF, CHR 0xBD]" .
  then show l: "sanitize latin_key = other_key" unfolding latin_key_def other_key_def by (simp only: sanitize_append_ascii [OF a])
  show "sanitize other_key = other_key" using sanitize_idem [of latin_key] unfolding l .
qed

lemma other_bytes_approved:
  "case open_store (\<lambda>_. True) (so_file (remember_all [([], demo_request latin_key)] \<lparr>so_granted = [], so_file = Some []\<rparr>)) of
     Inl e \<Rightarrow> False
   | Inr st \<Rightarrow> allowed (demo_request other_key) st \<and> \<not> allowed (demo_request latin_key) st"
proof -
  have n: "other_key \<noteq> []" "latin_key \<noteq> other_key" "length latin_key = 4" by (simp_all add: other_key_def latin_key_def)
  have len: "length (json_quote latin_key) \<le> 26" using length_json_quote [of latin_key] n by simp
  have "list_all storable [([], demo_request latin_key)]"
    by (simp add: storable_def demo_request_def max_stored_key_def n) (simp add: latin_key_def)
  moreover have "list_all (\<lambda>r. True \<and> length (encode_grant (grant_for r)) < max_scan_line) [([], demo_request latin_key)]"
    using len
    by (simp add: encode_grant_def grant_members_def grant_for_def demo_request_def max_scan_line_def max_stored_key_def
        json_quote_unescaped demo_unescaped [THEN json_quote_unescaped])
  ultimately show ?thesis
    using approvals_survive [of "[([], demo_request latin_key)]" "\<lambda>_. True"]
    by (simp add: demo_request_def clean_slot_def allowed_def request_slot_def slot_def sanitize_latin n demo_unescaped [THEN sanitize_unescaped]
        split: sum.splits)
qed

end
