(* ===== verification/EventLog.thy ===== *)
theory EventLog
  imports LineFile AgentTypes "HOL-Library.Monad_Syntax"
begin

text \<open>
  Model of \<open>internal/eventlog/eventlog.go\<close>: a thread's append-only stream of events, kept whole in a file of
  JSON lines and, the recent part of it, in a ring. The file is its bytes; an event's time is its text and
  its detail the JSON object it is stored as. Sequence numbers do not wrap here, but the number a client
  asks from may be the largest there is.
\<close>

section \<open>Stored events\<close>

record stored =
  sv_detail :: "(string \<times> jval) list"
  sv_at :: string
  sv_thread :: string
  sv_kind :: string
  sv_text :: string
  sv_tool :: string
  sv_state :: string
  sv_role :: string
  sv_changes :: "change_t list"
  sv_seq :: nat

definition range_json :: "int \<times> int \<Rightarrow> jval" where
  "range_json r = JObj [(''start'', JNum (show_int (fst r))), (''end'', JNum (show_int (snd r)))]"

definition change_members :: "change_t \<Rightarrow> (string \<times> jval) list" where
  "change_members c =
     [(''path'', JStr (cg_path c))] @
     unless (cg_writer c = []) ''writer'' (JStr (cg_writer c)) @
     unless (cg_ranges c = []) ''ranges'' (JArr (map range_json (cg_ranges c))) @
     [(''added'', JNum (show_int (cg_added c))), (''removed'', JNum (show_int (cg_removed c)))]"

definition event_members :: "stored \<Rightarrow> (string \<times> jval) list" where
  "event_members e =
     unless (sv_detail e = []) ''detail'' (JObj (sv_detail e)) @
     [(''at'', JStr (sv_at e)), (''thread_id'', JStr (sv_thread e)), (''kind'', JStr (sv_kind e))] @
     unless (sv_text e = []) ''text'' (JStr (sv_text e)) @
     unless (sv_tool e = []) ''tool'' (JStr (sv_tool e)) @
     unless (sv_state e = []) ''state'' (JStr (sv_state e)) @
     unless (sv_role e = []) ''role'' (JStr (sv_role e)) @
     unless (sv_changes e = []) ''changes'' (JArr (map (\<lambda>c. JObj (change_members c)) (sv_changes e))) @
     [(''seq'', JNum (show_int (int (sv_seq e))))]"

definition encode_event :: "stored \<Rightarrow> string" where
  "encode_event e = print_val (JObj (event_members e))"

definition range_of :: "jval \<Rightarrow> (int \<times> int) option" where
  "range_of v =
     do {
       kvs \<leftarrow> struct_value v;
       a \<leftarrow> int_field ''start'' kvs;
       b \<leftarrow> int_field ''end'' kvs;
       Some (a, b)
     }"

definition change_of :: "jval \<Rightarrow> change_t option" where
  "change_of v =
     do {
       kvs \<leftarrow> struct_value v;
       p \<leftarrow> string_field ''path'' kvs;
       w \<leftarrow> string_field ''writer'' kvs;
       rs \<leftarrow> list_field range_of ''ranges'' kvs;
       a \<leftarrow> int_field ''added'' kvs;
       r \<leftarrow> int_field ''removed'' kvs;
       Some \<lparr>cg_path = p, cg_writer = w, cg_ranges = rs, cg_added = a, cg_removed = r\<rparr>
     }"

text \<open>An unsigned number, and a field that holds any object.\<close>

fun seq_value :: "jval \<Rightarrow> nat option" where
  "seq_value (JNum l) =
     (if l \<noteq> [] \<and> list_all decimal l \<and> digits_value l < 2 ^ 64 then Some (digits_value l) else None)"
| "seq_value _ = None"

fun object_value :: "jval \<Rightarrow> (string \<times> jval) list option" where
  "object_value (JObj kvs) = Some kvs" | "object_value _ = None"

definition event_of :: "(string \<Rightarrow> bool) \<Rightarrow> jval \<Rightarrow> stored option" where
  "event_of time_ok v =
     do {
       kvs \<leftarrow> struct_value v;
       d \<leftarrow> take_field object_value [] (named ''detail'' kvs);
       t \<leftarrow> take_field (\<lambda>v. Option.bind (string_value v) (\<lambda>s. if time_ok s then Some s else None)) [] (named ''at'' kvs);
       thread \<leftarrow> string_field ''thread_id'' kvs;
       k \<leftarrow> string_field ''kind'' kvs;
       text' \<leftarrow> string_field ''text'' kvs;
       tool \<leftarrow> string_field ''tool'' kvs;
       state \<leftarrow> string_field ''state'' kvs;
       role \<leftarrow> string_field ''role'' kvs;
       changes \<leftarrow> list_field change_of ''changes'' kvs;
       seq \<leftarrow> take_field seq_value 0 (named ''seq'' kvs);
       Some \<lparr>sv_detail = d, sv_at = t, sv_thread = thread, sv_kind = k, sv_text = text', sv_tool = tool, sv_state = state,
             sv_role = role, sv_changes = changes, sv_seq = seq\<rparr>
     }"

definition decode_event :: "(string \<Rightarrow> bool) \<Rightarrow> string \<Rightarrow> stored option" where
  "decode_event time_ok l = Option.bind (json_parse l) (event_of time_ok)"

definition max_line_bytes :: nat where
  "max_line_bytes = 8 * 1024 * 1024"

section \<open>The log\<close>

record event_log =
  lg_file :: string
  lg_ring :: "stored list"
  lg_seq :: nat
  lg_start :: nat
  lg_count :: nat
  lg_closed :: bool
  lg_broken :: bool

definition ring_cap :: "event_log \<Rightarrow> nat" where
  "ring_cap lg = length (lg_ring lg)"

definition push_event :: "stored \<Rightarrow> event_log \<Rightarrow> event_log" where
  "push_event e lg =
     (let n = ring_cap lg; lg' = lg\<lparr>lg_ring := (lg_ring lg)[(lg_start lg + lg_count lg) mod n := e]\<rparr> in
      if lg_count lg = n then lg'\<lparr>lg_start := (lg_start lg + 1) mod n\<rparr> else lg'\<lparr>lg_count := lg_count lg + 1\<rparr>)"

definition zero_event :: stored where
  "zero_event =
     \<lparr>sv_detail = [], sv_at = [], sv_thread = [], sv_kind = [], sv_text = [], sv_tool = [], sv_state = [], sv_role = [],
      sv_changes = [], sv_seq = 0\<rparr>"

definition default_ring :: nat where
  "default_ring = 4096"

definition read_log :: "(string \<Rightarrow> bool) \<Rightarrow> string \<Rightarrow> string + stored list" where
  "read_log time_ok file = case_prod (read_strict (decode_event time_ok)) (scan_lines max_line_bytes file)"

definition replay_event :: "stored \<Rightarrow> event_log \<Rightarrow> event_log" where
  "replay_event e lg = push_event e (lg\<lparr>lg_seq := sv_seq e\<rparr>)"

definition open_log :: "(string \<Rightarrow> bool) \<Rightarrow> nat \<Rightarrow> string \<Rightarrow> string + event_log" where
  "open_log time_ok cap file =
     (let fresh = \<lparr>lg_file = file, lg_ring = replicate (if cap = 0 then default_ring else cap) zero_event, lg_seq = 0,
                   lg_start = 0, lg_count = 0, lg_closed = False, lg_broken = False\<rparr>
      in case read_log time_ok file of Inl e \<Rightarrow> Inl e | Inr es \<Rightarrow> Inr (fold replay_event es fresh))"

text \<open>
  What the disk makes of a line. A writer whose buffer once failed refuses everything after; a line the
  buffer cannot take goes straight to the file, and its failure gives the sequence number back.
\<close>

datatype disk = DiskOk | DiskFails nat

definition buffer_size :: nat where
  "buffer_size = 4096"

definition append_event :: "string \<Rightarrow> string \<Rightarrow> stored \<Rightarrow> disk \<Rightarrow> event_log \<Rightarrow> (string + nat) \<times> event_log" where
  "append_event thread now e d lg =
     (if lg_closed lg then (Inl ''event log closed'', lg)
      else let seq = lg_seq lg + 1;
               e = e\<lparr>sv_seq := seq, sv_thread := thread, sv_at := if sv_at e = [] then now else sv_at e\<rparr>;
               line = encode_event e @ [nl]
           in if lg_broken lg then (Inl ''writing event'', lg)
              else case d of
                     DiskFails n \<Rightarrow>
                       (Inl ''writing event'',
                        lg\<lparr>lg_file := lg_file lg @ take n line, lg_broken := True,
                           lg_seq := if buffer_size < length line then lg_seq lg else seq\<rparr>)
                   | DiskOk \<Rightarrow> (Inr seq, push_event e (lg\<lparr>lg_file := lg_file lg @ line, lg_seq := seq\<rparr>)))"

definition ring_events :: "event_log \<Rightarrow> stored list" where
  "ring_events lg = map (\<lambda>i. lg_ring lg ! ((lg_start lg + i) mod ring_cap lg)) [0..<lg_count lg]"

definition in_memory :: "nat \<Rightarrow> event_log \<Rightarrow> bool" where
  "in_memory from lg \<longleftrightarrow>
     0 < lg_count lg \<and> sv_seq (lg_ring lg ! lg_start lg) \<le> (from + 1) mod 2 ^ 64"

definition since :: "(string \<Rightarrow> bool) \<Rightarrow> nat \<Rightarrow> event_log \<Rightarrow> string + stored list" where
  "since time_ok from lg =
     (if in_memory from lg then Inr (filter (\<lambda>e. from < sv_seq e) (ring_events lg))
      else case read_log time_ok (lg_file lg) of Inl e \<Rightarrow> Inl e | Inr es \<Rightarrow> Inr (filter (\<lambda>e. from < sv_seq e) es))"

definition close_log :: "event_log \<Rightarrow> event_log" where
  "close_log lg = lg\<lparr>lg_closed := True\<rparr>"

section \<open>The ring holds the last events\<close>

definition ring_ok :: "event_log \<Rightarrow> bool" where
  "ring_ok lg \<longleftrightarrow> 0 < ring_cap lg \<and> lg_start lg < ring_cap lg \<and> lg_count lg \<le> ring_cap lg"

lemma mod_once: "x < 2 * n \<Longrightarrow> x mod n = (if x < n then x else x - (n::nat))"
  by (auto simp: le_mod_geq)

lemma mod_shift: "a < n \<Longrightarrow> i < n \<Longrightarrow> j < n \<Longrightarrow> (a + i) mod n = (a + j) mod n \<Longrightarrow> i = (j::nat)"
  using mod_once [of "a + i" n] mod_once [of "a + j" n] by (auto split: if_splits)

lemma length_ring_events [simp]: "length (ring_events lg) = lg_count lg"
  by (simp add: ring_events_def)

lemma push_ring_free:
  assumes "ring_ok lg" "lg_count lg < ring_cap lg"
  shows "ring_events (push_event e lg) = ring_events lg @ [e]"
proof (rule nth_equalityI)
  let ?n = "ring_cap lg" and ?a = "lg_start lg" and ?c = "lg_count lg"
  have p: "push_event e lg = lg\<lparr>lg_ring := (lg_ring lg)[(?a + ?c) mod ?n := e], lg_count := ?c + 1\<rparr>"
    using assms(2) by (simp add: push_event_def Let_def)
  show "length (ring_events (push_event e lg)) = length (ring_events lg @ [e])" by (simp add: p)
  fix i
  assume "i < length (ring_events (push_event e lg))"
  then have i: "i < ?c + 1" by (simp add: p)
  have a: "?a < ?n" "0 < ?n" using assms(1) by (auto simp: ring_ok_def)
  have e: "ring_events (push_event e lg) ! i = (lg_ring lg)[(?a + ?c) mod ?n := e] ! ((?a + i) mod ?n)"
    using i by (simp add: p ring_events_def ring_cap_def del: upt_Suc)
  show "ring_events (push_event e lg) ! i = (ring_events lg @ [e]) ! i"
  proof (cases "i = ?c")
    case True
    then show ?thesis unfolding e using a by (simp add: nth_append ring_cap_def)
  next
    case False
    then have "(?a + ?c) mod ?n \<noteq> (?a + i) mod ?n" using mod_shift [OF a(1), of ?c i] assms(2) i by auto
    then show ?thesis unfolding e using False i by (simp add: nth_append ring_events_def)
  qed
qed

lemma push_ring_full:
  assumes "ring_ok lg" "lg_count lg = ring_cap lg"
  shows "ring_events (push_event e lg) = tl (ring_events lg) @ [e]"
proof (rule nth_equalityI)
  let ?n = "ring_cap lg" and ?a = "lg_start lg"
  have a: "?a < ?n" "0 < ?n" using assms(1) by (auto simp: ring_ok_def)
  have p: "push_event e lg = lg\<lparr>lg_ring := (lg_ring lg)[?a := e], lg_start := (?a + 1) mod ?n\<rparr>"
    using assms(2) a by (simp add: push_event_def Let_def)
  show "length (ring_events (push_event e lg)) = length (tl (ring_events lg) @ [e])" using a by (simp add: p assms(2))
  fix i
  assume "i < length (ring_events (push_event e lg))"
  then have i: "i < ?n" by (simp add: p assms(2))
  have m: "((?a + 1) mod ?n + i) mod ?n = (?a + Suc i) mod ?n" by (simp add: mod_add_left_eq)
  have e: "ring_events (push_event e lg) ! i = (lg_ring lg)[?a := e] ! ((?a + Suc i) mod ?n)"
    using i m by (simp add: p ring_events_def ring_cap_def assms(2))
  show "ring_events (push_event e lg) ! i = (tl (ring_events lg) @ [e]) ! i"
  proof (cases "Suc i = ?n")
    case True
    then have "(?a + Suc i) mod ?n = ?a" using a by simp
    then show ?thesis unfolding e using a True by (simp add: nth_append assms(2) ring_cap_def)
  next
    case False
    then have "?a \<noteq> (?a + Suc i) mod ?n" using mod_shift [OF a(1), of 0 "Suc i"] a i by auto
    moreover have "tl (ring_events lg) ! i = lg_ring lg ! ((?a + Suc i) mod ?n)"
      using False i by (simp add: nth_tl assms(2) ring_events_def)
    ultimately show ?thesis unfolding e using False i by (simp add: nth_append assms(2))
  qed
qed

lemma push_event_frame [simp]:
  "ring_cap (push_event e lg) = ring_cap lg" "lg_file (push_event e lg) = lg_file lg" "lg_seq (push_event e lg) = lg_seq lg"
  "lg_closed (push_event e lg) = lg_closed lg" "lg_broken (push_event e lg) = lg_broken lg"
  "lg_count (push_event e lg) = (if lg_count lg = ring_cap lg then lg_count lg else lg_count lg + 1)"
  by (simp_all add: push_event_def Let_def ring_cap_def)

lemma push_ring_ok: "ring_ok lg \<Longrightarrow> ring_ok (push_event e lg)"
  by (auto simp: ring_ok_def ring_cap_def push_event_def Let_def intro!: mod_less_divisor)

text \<open>The ring as the end of a list that grows.\<close>

definition last_part :: "nat \<Rightarrow> 'a list \<Rightarrow> 'a list" where
  "last_part n xs = drop (length xs - n) xs"

lemma last_part_snoc: "0 < n \<Longrightarrow> last_part n (xs @ [x]) = (if n \<le> length xs then tl (last_part n xs) else last_part n xs) @ [x]"
  by (auto simp: last_part_def Suc_diff_le drop_Suc tl_drop)

definition ring_of :: "stored list \<Rightarrow> event_log \<Rightarrow> bool" where
  "ring_of es lg \<longleftrightarrow> ring_ok lg \<and> ring_events lg = last_part (ring_cap lg) es"

lemma ring_of_count: "ring_of es lg \<Longrightarrow> lg_count lg = min (ring_cap lg) (length es)"
  using length_ring_events [of lg] by (auto simp: ring_of_def last_part_def)

lemma ring_of_push: "ring_of es lg \<Longrightarrow> ring_of (es @ [e]) (push_event e lg)"
proof -
  assume r: "ring_of es lg"
  note c = ring_of_count [OF r]
  from r have ok: "ring_ok lg" and e: "ring_events lg = last_part (ring_cap lg) es" by (simp_all add: ring_of_def)
  have "0 < ring_cap lg" using ok by (simp add: ring_ok_def)
  then show ?thesis using push_ring_ok [OF ok] push_ring_free [OF ok] push_ring_full [OF ok] c e last_part_snoc [of "ring_cap lg" es e]
    by (cases "ring_cap lg \<le> length es") (auto simp: ring_of_def)
qed

section \<open>Events as lines\<close>

definition clean_change :: "change_t \<Rightarrow> change_t" where
  "clean_change c = c\<lparr>cg_path := sanitize (cg_path c), cg_writer := sanitize (cg_writer c)\<rparr>"

definition clean_members :: "(string \<times> jval) list \<Rightarrow> (string \<times> jval) list" where
  "clean_members kvs = map (\<lambda>(k, v). (sanitize k, sanitize_val v)) kvs"

definition clean_event :: "stored \<Rightarrow> stored" where
  "clean_event e =
     \<lparr>sv_detail = clean_members (sv_detail e), sv_at = sanitize (sv_at e), sv_thread = sanitize (sv_thread e),
      sv_kind = sanitize (sv_kind e), sv_text = sanitize (sv_text e), sv_tool = sanitize (sv_tool e),
      sv_state = sanitize (sv_state e), sv_role = sanitize (sv_role e), sv_changes = map clean_change (sv_changes e),
      sv_seq = sv_seq e\<rparr>"

definition word_int :: "int \<Rightarrow> bool" where
  "word_int i \<longleftrightarrow> - (2 ^ 63) \<le> i \<and> i < 2 ^ 63"

definition change_ok :: "change_t \<Rightarrow> bool" where
  "change_ok c \<longleftrightarrow> word_int (cg_added c) \<and> word_int (cg_removed c) \<and> list_all (\<lambda>(a, b). word_int a \<and> word_int b) (cg_ranges c)"

definition event_ok :: "(string \<Rightarrow> bool) \<Rightarrow> stored \<Rightarrow> bool" where
  "event_ok time_ok e \<longleftrightarrow>
     time_ok (sanitize (sv_at e)) \<and> list_all (\<lambda>(k, v). plain_val v) (sv_detail e) \<and> list_all change_ok (sv_changes e)
     \<and> sv_seq e < 2 ^ 64"

lemma event_names:
  "plain_name ''detail''" "plain_name ''at''" "plain_name ''thread_id''" "plain_name ''kind''" "plain_name ''text''"
  "plain_name ''tool''" "plain_name ''state''" "plain_name ''role''" "plain_name ''changes''" "plain_name ''seq''"
  "plain_name ''path''" "plain_name ''writer''" "plain_name ''ranges''" "plain_name ''added''" "plain_name ''removed''"
  "plain_name ''start''" "plain_name ''end''"
  by (intro plain_nameI, code_simp)+

lemmas field_defs = string_field_def int_field_def bool_field_def list_field_def
lemmas field_reads = named_simps named_unless plain_name_fold event_names append_Nil append_Nil2 append_Cons

lemma word_int_reads [simp]: "word_int i \<Longrightarrow> atoi (show_int i) = Some i"
  by (simp add: word_int_def atoi_show_int)

lemma range_of_json: "word_int (fst r) \<Longrightarrow> word_int (snd r) \<Longrightarrow> range_of (sanitize_val (range_json r)) = Some r"
  by (simp add: range_of_def range_json_def struct_value_def int_field_def plain_name_fold event_names plain_name_sanitize)

lemma change_of_json:
  assumes "change_ok c"
  shows "change_of (sanitize_val (JObj (change_members c))) = Some (clean_change c)"
proof -
  let ?m = "map (\<lambda>(k, v). (sanitize k, sanitize_val v)) (change_members c)"
  have m: "?m =
     [(''path'', JStr (sanitize (cg_path c)))] @
     unless (cg_writer c = []) ''writer'' (JStr (sanitize (cg_writer c))) @
     unless (cg_ranges c = []) ''ranges'' (JArr (map (\<lambda>r. sanitize_val (range_json r)) (cg_ranges c))) @
     [(''added'', JNum (show_int (cg_added c))), (''removed'', JNum (show_int (cg_removed c)))]"
    by (simp add: change_members_def plain_name_sanitize event_names o_def)
  have r: "\<And>r. r \<in> set (cg_ranges c) \<Longrightarrow> range_of (sanitize_val (range_json r)) = Some r"
    using assms by (intro range_of_json) (auto simp: change_ok_def list_all_iff)
  have "string_field ''path'' ?m = Some (sanitize (cg_path c))" "string_field ''writer'' ?m = Some (sanitize (cg_writer c))"
    "list_field range_of ''ranges'' ?m = Some (map id (cg_ranges c))" "int_field ''added'' ?m = Some (cg_added c)"
    "int_field ''removed'' ?m = Some (cg_removed c)"
    unfolding m using assms r
    by (simp_all only: field_defs field_reads) (simp_all add: change_ok_def take_list_unless [of _ _ _ id])
  then show ?thesis by (simp add: change_of_def struct_value_def clean_change_def)
qed

lemma seq_value_show: "n < 2 ^ 64 \<Longrightarrow> seq_value (JNum (show_int (int n))) = Some n"
  using digits_of_decimal [of n] digits_of_ne [of n] by (simp add: show_int_def show_nat_def digits_value_of)

lemma take_object [simp]:
  "take_field object_value [] (if d = [] then [] else [JObj (map (\<lambda>(k, v). (sanitize k, sanitize_val v)) d)]) = Some (clean_members d)"
  by (simp add: clean_members_def)

lemma event_of_json:
  assumes "event_ok time_ok e"
  shows "event_of time_ok (sanitize_val (JObj (event_members e))) = Some (clean_event e)"
proof -
  let ?m = "map (\<lambda>(k, v). (sanitize k, sanitize_val v)) (event_members e)"
  have m: "?m =
     unless (sv_detail e = []) ''detail'' (JObj (map (\<lambda>(k, v). (sanitize k, sanitize_val v)) (sv_detail e))) @
     [(''at'', JStr (sanitize (sv_at e))), (''thread_id'', JStr (sanitize (sv_thread e))), (''kind'', JStr (sanitize (sv_kind e)))] @
     unless (sv_text e = []) ''text'' (JStr (sanitize (sv_text e))) @
     unless (sv_tool e = []) ''tool'' (JStr (sanitize (sv_tool e))) @
     unless (sv_state e = []) ''state'' (JStr (sanitize (sv_state e))) @
     unless (sv_role e = []) ''role'' (JStr (sanitize (sv_role e))) @
     unless (sv_changes e = []) ''changes'' (JArr (map (\<lambda>c. sanitize_val (JObj (change_members c))) (sv_changes e))) @
     [(''seq'', JNum (show_int (int (sv_seq e))))]"
    by (simp add: event_members_def plain_name_sanitize event_names o_def)
  have c: "\<And>c. c \<in> set (sv_changes e) \<Longrightarrow> change_of (sanitize_val (JObj (change_members c))) = Some (clean_change c)"
    using assms by (intro change_of_json) (simp add: event_ok_def list_all_iff)
  have strings: "string_field ''thread_id'' ?m = Some (sanitize (sv_thread e))" "string_field ''kind'' ?m = Some (sanitize (sv_kind e))"
    "string_field ''text'' ?m = Some (sanitize (sv_text e))" "string_field ''tool'' ?m = Some (sanitize (sv_tool e))"
    "string_field ''state'' ?m = Some (sanitize (sv_state e))" "string_field ''role'' ?m = Some (sanitize (sv_role e))"
    unfolding m by (simp_all only: field_defs field_reads) simp_all
  have others: "take_field object_value [] (named ''detail'' ?m) = Some (clean_members (sv_detail e))"
    "take_field (\<lambda>v. Option.bind (string_value v) (\<lambda>s. if time_ok s then Some s else None)) [] (named ''at'' ?m) = Some (sanitize (sv_at e))"
    "list_field change_of ''changes'' ?m = Some (map clean_change (sv_changes e))"
    "take_field seq_value 0 (named ''seq'' ?m) = Some (sv_seq e)"
    unfolding m using assms c
    by (simp_all only: field_defs field_reads)
      (simp_all add: event_ok_def seq_value_show take_list_unless [of _ _ _ clean_change] del: sanitize_val.simps seq_value.simps)
  show ?thesis using strings others by (simp add: event_of_def struct_value_def clean_event_def)
qed

lemma event_members_plain: "event_ok time_ok e \<Longrightarrow> plain_val (JObj (event_members e))"
  by (auto simp: event_ok_def event_members_def change_members_def range_json_def list_all_iff unless_def)

interpretation events: line_codec encode_event "decode_event time_ok" clean_event "event_ok time_ok" for time_ok
  unfolding encode_event_def [abs_def] decode_event_def [abs_def]
  by (rule json_codec) (simp_all only: event_of_json event_members_plain)

section \<open>A reader converges\<close>

text \<open>What a thread does with its log: it appends, and the daemon restarts.\<close>

datatype log_op = AppendEvent string stored | Reopen

definition stamp :: "string \<Rightarrow> string \<Rightarrow> nat \<Rightarrow> stored \<Rightarrow> stored" where
  "stamp thread now seq e = e\<lparr>sv_seq := seq, sv_thread := thread, sv_at := if sv_at e = [] then now else sv_at e\<rparr>"

fun stamp_all :: "string \<Rightarrow> nat \<Rightarrow> log_op list \<Rightarrow> stored list" where
  "stamp_all thread n [] = []"
| "stamp_all thread n (AppendEvent now e # ops) = stamp thread now (n + 1) e # stamp_all thread (n + 1) ops"
| "stamp_all thread n (Reopen # ops) = stamp_all thread n ops"

fun run_ops :: "(string \<Rightarrow> bool) \<Rightarrow> nat \<Rightarrow> string \<Rightarrow> log_op list \<Rightarrow> event_log \<Rightarrow> string + event_log" where
  "run_ops time_ok cap thread [] lg = Inr lg"
| "run_ops time_ok cap thread (AppendEvent now e # ops) lg =
     run_ops time_ok cap thread ops (snd (append_event thread now e DiskOk lg))"
| "run_ops time_ok cap thread (Reopen # ops) lg =
     (case open_log time_ok cap (lg_file lg) of Inl e \<Rightarrow> Inl e | Inr lg \<Rightarrow> run_ops time_ok cap thread ops lg)"

fun numbered :: "nat \<Rightarrow> stored list \<Rightarrow> bool" where
  "numbered n [] = True"
| "numbered n (e # es) = (sv_seq e = n + 1 \<and> numbered (n + 1) es)"

lemma numbered_append: "numbered n (xs @ ys) \<longleftrightarrow> numbered n xs \<and> numbered (n + length xs) ys"
  by (induction xs arbitrary: n) auto

lemma numbered_nth: "numbered n es \<Longrightarrow> i < length es \<Longrightarrow> sv_seq (es ! i) = n + i + 1"
  by (induction es arbitrary: n i) (auto simp: nth_Cons split: nat.splits)

lemma numbered_clean [simp]: "numbered n (map clean_event es) = numbered n es"
  by (induction es arbitrary: n) (auto simp: clean_event_def)

text \<open>The log holds \<open>es\<close>: all of them in the file, the last ones in the ring, as they were or as read back.\<close>

definition holds_events :: "(string \<Rightarrow> bool) \<Rightarrow> stored list \<Rightarrow> event_log \<Rightarrow> bool" where
  "holds_events time_ok es lg \<longleftrightarrow>
     lg_file lg = events.file_of es \<and> numbered 0 es \<and> lg_seq lg = length es \<and> \<not> lg_closed lg \<and> \<not> lg_broken lg
     \<and> (\<exists>rs. ring_of rs lg \<and> map clean_event rs = map clean_event es)"

lemma clean_event_idem: "list_all (\<lambda>(k, v). plain_val v) (sv_detail e) \<Longrightarrow> sv_seq (clean_event e) = sv_seq e"
  by (simp add: clean_event_def)

lemma sanitize_val_idem [simp]: "sanitize_val (sanitize_val v) = sanitize_val v"
  by (induction v) (auto simp: o_def)

lemma clean_event_twice [simp]: "clean_event (clean_event e) = clean_event e"
  by (simp add: clean_event_def clean_members_def clean_change_def o_def case_prod_beta)

lemma fold_replay:
  "ring_of rs lg \<Longrightarrow> lg_seq lg = n \<Longrightarrow> numbered n es \<Longrightarrow> \<not> lg_closed lg \<Longrightarrow> \<not> lg_broken lg \<Longrightarrow>
     (let lg' = fold replay_event es lg in
      ring_of (rs @ es) lg' \<and> lg_seq lg' = n + length es \<and> lg_file lg' = lg_file lg \<and> \<not> lg_closed lg' \<and> \<not> lg_broken lg')"
proof (induction es arbitrary: rs lg n)
  case (Cons e es)
  have "ring_of rs (lg\<lparr>lg_seq := sv_seq e\<rparr>)"
    using Cons.prems(1) by (simp add: ring_of_def ring_ok_def ring_events_def ring_cap_def)
  then have r: "ring_of (rs @ [e]) (replay_event e lg)" unfolding replay_event_def by (rule ring_of_push)
  have f: "lg_seq (replay_event e lg) = n + 1" "lg_file (replay_event e lg) = lg_file lg"
    "\<not> lg_closed (replay_event e lg)" "\<not> lg_broken (replay_event e lg)"
    using Cons.prems by (simp_all add: replay_event_def)
  show ?case using Cons.IH [OF r f(1) _ f(3,4)] Cons.prems(3) f(2) by (simp add: Let_def)
qed (simp add: Let_def)

lemma ring_of_fresh: "0 < n \<Longrightarrow> ring_of [] \<lparr>lg_file = f, lg_ring = replicate n zero_event, lg_seq = 0, lg_start = 0, lg_count = 0,
    lg_closed = False, lg_broken = False\<rparr>"
  by (simp add: ring_of_def ring_ok_def ring_events_def ring_cap_def last_part_def)

lemma open_holds:
  assumes "events.fits time_ok max_line_bytes es" "numbered 0 es"
  shows "\<exists>lg. open_log time_ok cap (events.file_of es) = Inr lg \<and> holds_events time_ok es lg"
proof -
  have r: "read_log time_ok (events.file_of es) = Inr (map clean_event es)"
    using events.strict_file [OF assms(1), of "[]"] by (simp add: read_log_def)
  define n where "n = (if cap = 0 then default_ring else cap)"
  have "0 < n" by (simp add: n_def default_ring_def)
  note f = fold_replay [OF ring_of_fresh [OF this, of "events.file_of es"], of 0 "map clean_event es"]
  show ?thesis unfolding open_log_def r Let_def n_def [symmetric]
    using f assms(2) by (auto simp: holds_events_def Let_def intro!: exI [of _ "map clean_event es"])
qed

lemma append_holds:
  assumes "holds_events time_ok es lg"
  shows "holds_events time_ok (es @ [stamp thread now (length es + 1) e]) (snd (append_event thread now e DiskOk lg))"
proof -
  let ?e = "stamp thread now (length es + 1) e"
  let ?lg = "lg\<lparr>lg_file := lg_file lg @ encode_event ?e @ [nl], lg_seq := length es + 1\<rparr>"
  have h: "lg_file lg = events.file_of es" "numbered 0 es" "lg_seq lg = length es" "\<not> lg_closed lg" "\<not> lg_broken lg"
    using assms by (simp_all add: holds_events_def)
  obtain rs where rs: "ring_of rs lg" "map clean_event rs = map clean_event es" using assms by (auto simp: holds_events_def)
  have p: "snd (append_event thread now e DiskOk lg) = push_event ?e ?lg" using h by (simp add: append_event_def stamp_def Let_def)
  have "ring_of rs ?lg" using rs(1) by (simp add: ring_of_def ring_ok_def ring_events_def ring_cap_def)
  from ring_of_push [OF this, of ?e] rs(2) show ?thesis unfolding p
    by (auto simp: holds_events_def h numbered_append stamp_def intro!: exI [of _ "rs @ [?e]"])
qed

lemma numbered_stamp_all: "numbered n (stamp_all thread n ops)"
  by (induction thread n ops rule: stamp_all.induct) (auto simp: stamp_def)

lemma run_ops_holds:
  assumes "holds_events time_ok es lg" "events.fits time_ok max_line_bytes (es @ stamp_all thread (length es) ops)"
  shows "\<exists>lg'. run_ops time_ok cap thread ops lg = Inr lg' \<and> holds_events time_ok (es @ stamp_all thread (length es) ops) lg'"
  using assms
proof (induction time_ok cap thread ops lg arbitrary: es rule: run_ops.induct)
  case (2 time_ok cap thread now e ops lg)
  from 2(1) [OF append_holds [OF 2(2)]] 2(3) show ?case by simp
next
  case (3 time_ok cap thread ops lg)
  have "events.fits time_ok max_line_bytes es" "numbered 0 es" "lg_file lg = events.file_of es"
    using 3(2,3) by (auto simp: events.fits_def holds_events_def)
  with open_holds [of time_ok es cap] obtain lg1 where o': "open_log time_ok cap (lg_file lg) = Inr lg1" "holds_events time_ok es lg1"
    by auto
  from 3(1) [OF o'] 3(3) o'(1) show ?case by simp
qed simp

text \<open>Events the ring has let go carry numbers below its oldest.\<close>

lemma filter_last_part:
  assumes "numbered 0 es" "es \<noteq> []" "0 < n" "sv_seq (hd (last_part n es)) \<le> from + 1"
  shows "filter (\<lambda>e. from < sv_seq e) (last_part n es) = filter (\<lambda>e. from < sv_seq e) es"
proof -
  let ?k = "length es - n"
  have k: "?k < length es" using assms(2,3) by (cases es) auto
  have h: "hd (last_part n es) = es ! ?k" using k by (simp add: last_part_def hd_drop_conv_nth)
  have "\<not> from < sv_seq e" if "e \<in> set (take ?k es)" for e
  proof -
    from that obtain i where i: "i < ?k" "e = es ! i" by (auto simp: in_set_conv_nth)
    with numbered_nth [OF assms(1)] k assms(4) show ?thesis unfolding h by auto
  qed
  then have "filter (\<lambda>e. from < sv_seq e) (take ?k es) = []" by (auto simp: filter_empty_conv)
  moreover have "filter (\<lambda>e. from < sv_seq e) es = filter (\<lambda>e. from < sv_seq e) (take ?k es) @ filter (\<lambda>e. from < sv_seq e) (drop ?k es)"
    unfolding filter_append [symmetric] by simp
  ultimately show ?thesis by (simp add: last_part_def)
qed

lemma map_filter_clean: "map clean_event (filter (\<lambda>e. from < sv_seq e) es) = filter (\<lambda>e. from < sv_seq e) (map clean_event es)"
  by (induction es) (auto simp: clean_event_def)

lemma since_holds:
  assumes "holds_events time_ok es lg" "events.fits time_ok max_line_bytes es"
  shows "map_sum id (map clean_event) (since time_ok from lg) = Inr (filter (\<lambda>e. from < sv_seq e) (map clean_event es))"
proof (cases "in_memory from lg")
  case False
  have "read_log time_ok (lg_file lg) = Inr (map clean_event es)"
    using events.strict_file [OF assms(2), of "[]"] assms(1) by (simp add: read_log_def holds_events_def)
  with False show ?thesis by (simp add: since_def map_filter_clean o_def)
next
  case True
  obtain rs where rs: "ring_of rs lg" "map clean_event rs = map clean_event es" using assms(1) by (auto simp: holds_events_def)
  have "numbered 0 es" using assms(1) by (simp add: holds_events_def)
  then have n: "numbered 0 rs" using numbered_clean [of 0 rs] rs(2) by simp
  from rs(1) have ok: "ring_ok lg" and e: "ring_events lg = last_part (ring_cap lg) rs" by (simp_all add: ring_of_def)
  have c: "0 < lg_count lg" and m: "sv_seq (lg_ring lg ! lg_start lg) \<le> (from + 1) mod 2 ^ 64" using True by (auto simp: in_memory_def)
  have "hd (ring_events lg) = lg_ring lg ! lg_start lg"
    using c ok by (simp add: ring_events_def hd_map ring_ok_def upt_rec)
  with m have "sv_seq (hd (last_part (ring_cap lg) rs)) \<le> from + 1" unfolding e using mod_less_eq_dividend order_trans by metis
  moreover have "rs \<noteq> []" using ring_of_count [OF rs(1)] c by auto
  moreover have "0 < ring_cap lg" using ok by (simp add: ring_ok_def)
  ultimately have "filter (\<lambda>e. from < sv_seq e) (ring_events lg) = filter (\<lambda>e. from < sv_seq e) rs"
    unfolding e by (intro filter_last_part [OF n])
  with True show ?thesis by (simp add: since_def map_filter_clean rs(2))
qed

definition event_fits :: "(string \<Rightarrow> bool) \<Rightarrow> stored \<Rightarrow> bool" where
  "event_fits time_ok e \<longleftrightarrow> event_ok time_ok e \<and> length (encode_event e) < max_line_bytes"

lemma events_fit: "list_all (event_fits time_ok) es \<Longrightarrow> events.fits time_ok max_line_bytes es"
  by (simp add: events.fits_def event_fits_def list_all_iff)

text \<open>
  C17: however many events a thread logged and however often the daemon restarted in between, asking for
  what came after any number gives exactly the events with higher numbers, in order, from the ring or from
  the file alike; the numbers go on through restarts without a gap.
\<close>

theorem since_converges:
  assumes "list_all (event_fits time_ok) (stamp_all thread 0 ops)"
  shows "(case open_log time_ok cap [] of
            Inl e \<Rightarrow> Inl e
          | Inr fresh \<Rightarrow>
              (case run_ops time_ok cap thread ops fresh of
                 Inl e \<Rightarrow> Inl e
               | Inr lg \<Rightarrow> map_sum id (map clean_event) (since time_ok from lg)))
    = Inr (filter (\<lambda>e. from < sv_seq e) (map clean_event (stamp_all thread 0 ops)))"
proof -
  obtain lg0 where o': "open_log time_ok cap [] = Inr lg0" "holds_events time_ok [] lg0"
    using open_holds [of time_ok "[]" cap] by auto
  obtain lg where r: "run_ops time_ok cap thread ops lg0 = Inr lg" "holds_events time_ok (stamp_all thread 0 ops) lg"
    using run_ops_holds [OF o'(2), of thread ops cap] events_fit [OF assms] by auto
  from since_holds [OF r(2) events_fit [OF assms]] show ?thesis by (simp add: o'(1) r(1))
qed

definition demo_stored :: "string \<Rightarrow> stored" where
  "demo_stored t = zero_event\<lparr>sv_kind := ''user'', sv_text := t\<rparr>"

lemma demo_stored_fits: "list_all unescaped t \<Longrightarrow> length t < 1000 \<Longrightarrow> n < 10 \<Longrightarrow> event_fits (\<lambda>_. True) (stamp ''t1'' ''now'' n (demo_stored t))"
proof -
  assume t: "list_all unescaped t" "length t < 1000" "n < 10"
  have u: "list_all unescaped ''at''" "list_all unescaped ''thread_id''" "list_all unescaped ''kind''" "list_all unescaped ''text''"
    "list_all unescaped ''seq''" "list_all unescaped ''now''" "list_all unescaped ''t1''" "list_all unescaped ''user''" by code_simp+
  have n: "length (show_int (int n)) = 1" using t(3) by (simp add: show_int_def show_nat_def digits_of.simps)
  show ?thesis using t(2,3) n
    by (simp add: event_fits_def event_ok_def encode_event_def event_members_def stamp_def demo_stored_def zero_event_def
        unless_def max_line_bytes_def u [THEN json_quote_unescaped] t(1) [THEN json_quote_unescaped])
qed

theorem since_converges_witness:
  "(case open_log (\<lambda>_. True) 1 [] of
      Inl e \<Rightarrow> Inl e
    | Inr fresh \<Rightarrow>
        (case run_ops (\<lambda>_. True) 1 ''t1'' [AppendEvent ''now'' (demo_stored ''a''), Reopen, AppendEvent ''now'' (demo_stored ''b'')] fresh of
           Inl e \<Rightarrow> Inl e
         | Inr lg \<Rightarrow> map_sum id (map sv_seq) (since (\<lambda>_. True) 0 lg))) = Inr [1, 2]"
proof -
  let ?ops = "[AppendEvent ''now'' (demo_stored ''a''), Reopen, AppendEvent ''now'' (demo_stored ''b'')]"
  have "list_all unescaped ''a''" "list_all unescaped ''b''" by code_simp+
  then have f: "list_all (event_fits (\<lambda>_. True)) (stamp_all ''t1'' 0 ?ops)" using demo_stored_fits by simp
  let ?run = "run_ops (\<lambda>_. True) 1 ''t1'' ?ops"
  have conv: "(case open_log (\<lambda>_. True) 1 [] of
        Inl e \<Rightarrow> Inl e
      | Inr fresh \<Rightarrow> (case ?run fresh of Inl e \<Rightarrow> Inl e | Inr lg \<Rightarrow> map_sum id (map clean_event) (since (\<lambda>_. True) 0 lg)))
      = Inr (filter (\<lambda>e. 0 < sv_seq e) (map clean_event (stamp_all ''t1'' 0 ?ops)))"
    by (rule since_converges [OF f])
  obtain fresh where o': "open_log (\<lambda>_. True) 1 [] = Inr fresh" using conv by (cases "open_log (\<lambda>_. True) 1 []") auto
  obtain lg where r: "?run fresh = Inr lg" using conv unfolding o' by (cases "?run fresh") auto
  obtain es where e: "since (\<lambda>_. True) 0 lg = Inr es" using conv unfolding o' sum.case r by (cases "since (\<lambda>_. True) 0 lg") auto
  have c: "map clean_event es = filter (\<lambda>e. 0 < sv_seq e) (map clean_event (stamp_all ''t1'' 0 ?ops))"
    using conv unfolding o' sum.case r e by simp
  have "map sv_seq (map clean_event es) = [1, 2]" unfolding c by (simp add: clean_event_def stamp_def)
  then have "map sv_seq es = [1, 2]" by (simp add: o_def clean_event_def)
  then show ?thesis unfolding o' sum.case r e by simp
qed

section \<open>A torn line bars the thread\<close>

definition log_text :: "stored list \<Rightarrow> string" where
  "log_text es = concat (map (\<lambda>e. encode_event e @ [nl]) es)"

text \<open>
  A process killed while it appends an event leaves a piece of it, and a log with a piece of an event
  at its end cannot be opened: the thread is lost to every client, where its history, next to it, would be
  read up to the piece.
\<close>

theorem torn_event_bars_thread:
  assumes "list_all (event_fits time_ok) es" "event_fits time_ok e" "p @ q = encode_event e" "p \<noteq> []" "q \<noteq> []"
  shows "open_log time_ok cap (log_text es @ p) = Inl ''decoding a line''"
proof -
  have t: "log_text es = events.file_of es" by (simp add: log_text_def events.file_of_def)
  show ?thesis
    using events.strict_torn [OF events_fit [OF assms(1)] _ _ assms(3-5)] assms(2)
    by (simp add: open_log_def read_log_def t event_fits_def)
qed

theorem torn_event_bars_thread_witness: "open_log (\<lambda>_. True) 1 (log_text [] @ ''{'') = Inl ''decoding a line''"
proof -
  have "list_all unescaped ''a''" by code_simp
  then have e: "event_fits (\<lambda>_. True) (stamp ''t1'' ''now'' 1 (demo_stored ''a''))" using demo_stored_fits by simp
  have "''{'' @ tl (encode_event (stamp ''t1'' ''now'' 1 (demo_stored ''a''))) = encode_event (stamp ''t1'' ''now'' 1 (demo_stored ''a''))"
    "tl (encode_event (stamp ''t1'' ''now'' 1 (demo_stored ''a''))) \<noteq> []"
    by (simp_all add: encode_event_def)
  from torn_event_bars_thread [OF _ e this(1) _ this(2), of "[]"] show ?thesis by simp
qed

text \<open>After one failed write the log takes nothing more, though it stays open.\<close>

lemma broken_stays_broken:
  "lg_broken lg \<Longrightarrow> \<not> lg_closed lg \<Longrightarrow> append_event thread now e d lg = (Inl ''writing event'', lg)"
  by (simp add: append_event_def Let_def)

end
