(* ===== verification/EventSubs.thy ===== *)
theory EventSubs
  imports EventLog Drain "HOL-Library.Multiset"
begin

text \<open>
  Model of \<open>internal/eventlog/subscriber.go\<close>, and of what the daemon does with a subscription
  (\<open>internal/daemon/conn.go\<close>): events appended by any number of goroutines reach a subscriber through a
  bounded queue, after the backlog. A step is a section under a mutex, an operation of a channel, or a
  send. The offers of appended events are outside the log's mutex, so they come in any order
  unless \<open>inorder\<close> says that one goroutine appends at a time.
\<close>

section \<open>The queue of a subscriber\<close>

datatype update = Delivered stored | Lagged nat

record batch =
  ba_events :: "stored list"
  ba_last :: nat
  ba_lagged :: bool

record subscriber =
  sb_queue :: "stored list"
  sb_cap :: nat
  sb_last :: nat
  sb_lagged :: bool
  sb_notify :: bool

definition new_subscriber :: "nat \<Rightarrow> subscriber" where
  "new_subscriber cap = \<lparr>sb_queue = [], sb_cap = cap, sb_last = 0, sb_lagged = False, sb_notify = False\<rparr>"

definition offer :: "stored \<Rightarrow> subscriber \<Rightarrow> subscriber" where
  "offer e s =
     (let s = (if sb_cap s \<le> length (sb_queue s) then s\<lparr>sb_queue := [], sb_lagged := True\<rparr> else s) in
      s\<lparr>sb_queue := sb_queue s @ [e], sb_last := sv_seq e\<rparr>)"

definition signal :: "subscriber \<Rightarrow> subscriber" where
  "signal s = s\<lparr>sb_notify := True\<rparr>"

definition drain :: "subscriber \<Rightarrow> batch \<times> subscriber" where
  "drain s =
     (\<lparr>ba_events = if sb_lagged s then [] else sb_queue s, ba_last = sb_last s, ba_lagged = sb_lagged s\<rparr>,
      s\<lparr>sb_queue := [], sb_lagged := False\<rparr>)"

section \<open>The goroutine that forwards\<close>

datatype forwarder =
    FwRegister
  | FwSince
  | FwBacklog "stored list"
  | FwDrain
  | FwLagged batch
  | FwSend "stored list"
  | FwWait
  | FwDone

text \<open>One step of \<open>forward\<close>: what it sends, if anything. It blocks only where the channel has no token.\<close>

fun forward :: "nat \<Rightarrow> forwarder \<times> subscriber \<Rightarrow> (update list \<times> forwarder \<times> subscriber) option" where
  "forward head (FwBacklog [], s) = Some ([], FwDrain, s)"
| "forward head (FwBacklog (e # es), s) = Some (if head < sv_seq e then [] else [Delivered e], FwBacklog es, s)"
| "forward head (FwDrain, s) =
     (case drain s of (b, s') \<Rightarrow> Some ([], if ba_lagged b then FwLagged b else FwSend (ba_events b), s'))"
| "forward head (FwLagged b, s) = Some ([Lagged (ba_last b)], FwSend (ba_events b), s)"
| "forward head (FwSend (e # es), s) = Some (if sv_seq e \<le> head then [] else [Delivered e], FwSend es, s)"
| "forward head (FwSend [], s) = Some ([], FwWait, s)"
| "forward head (FwWait, s) = (if sb_notify s then Some ([], FwDrain, s\<lparr>sb_notify := False\<rparr>) else None)"
| "forward head (FwRegister, s) = None"
| "forward head (FwSince, s) = None"
| "forward head (FwDone, s) = None"

section \<open>A log with one subscription\<close>

record feed =
  fd_log :: event_log
  fd_sub :: subscriber
  fd_head :: nat
  fd_pc :: forwarder
  fd_flight :: "stored list"
  fd_signals :: nat
  fd_out :: "update list"

text \<open>The subscribers an append snapshots are those registered by then.\<close>

definition registered :: "feed \<Rightarrow> bool" where
  "registered s \<longleftrightarrow> fd_pc s \<noteq> FwRegister \<and> fd_pc s \<noteq> FwDone"

definition appended :: "stored \<Rightarrow> event_log \<Rightarrow> feed \<Rightarrow> feed" where
  "appended e lg s = s\<lparr>fd_log := lg, fd_flight := if registered s then fd_flight s @ [e] else fd_flight s\<rparr>"

definition subscribe :: "feed \<Rightarrow> feed" where
  "subscribe s = (if lg_closed (fd_log s) then s\<lparr>fd_pc := FwDone\<rparr> else s\<lparr>fd_head := lg_seq (fd_log s), fd_pc := FwSince\<rparr>)"

definition read_backlog :: "(string \<Rightarrow> bool) \<Rightarrow> nat \<Rightarrow> feed \<Rightarrow> feed" where
  "read_backlog time_ok from s =
     s\<lparr>fd_pc := case since time_ok from (fd_log s) of Inl e \<Rightarrow> FwDone | Inr es \<Rightarrow> FwBacklog es\<rparr>"

definition offered :: "nat \<Rightarrow> feed \<Rightarrow> feed" where
  "offered i s =
     s\<lparr>fd_flight := remove_at i (fd_flight s), fd_sub := offer (fd_flight s ! i) (fd_sub s), fd_signals := fd_signals s + 1\<rparr>"

definition signalled :: "feed \<Rightarrow> feed" where
  "signalled s = s\<lparr>fd_signals := fd_signals s - 1, fd_sub := signal (fd_sub s)\<rparr>"

definition forwarded :: "feed \<Rightarrow> feed option" where
  "forwarded s =
     (case forward (fd_head s) (fd_pc s, fd_sub s) of
        None \<Rightarrow> None
      | Some (us, pc, sub) \<Rightarrow> Some (s\<lparr>fd_out := fd_out s @ us, fd_pc := pc, fd_sub := sub\<rparr>))"

text \<open>The steps that move what is already there, and all steps.\<close>

inductive moves :: "bool \<Rightarrow> feed \<Rightarrow> feed \<Rightarrow> bool" for inorder where
  move_offer: "i < length (fd_flight s) \<Longrightarrow> (inorder \<Longrightarrow> i = 0) \<Longrightarrow> moves inorder s (offered i s)"
| move_signal: "0 < fd_signals s \<Longrightarrow> moves inorder s (signalled s)"
| move_forward: "forwarded s = Some t \<Longrightarrow> moves inorder s t"

datatype feed_event = EvAppend | EvClose | EvSubscribe | EvBacklog | EvCancel | EvMove

inductive feed_step :: "(string \<Rightarrow> bool) \<Rightarrow> nat \<Rightarrow> bool \<Rightarrow> feed \<Rightarrow> feed_event \<Rightarrow> feed \<Rightarrow> bool" for time_ok after inorder where
  step_append: "append_event thread now e DiskOk (fd_log s) = (Inr n, lg) \<Longrightarrow> event_fits time_ok (stamp thread now n e) \<Longrightarrow>
     feed_step time_ok after inorder s EvAppend (appended (stamp thread now n e) lg s)"
| step_close: "feed_step time_ok after inorder s EvClose (s\<lparr>fd_log := close_log (fd_log s)\<rparr>)"
| step_subscribe: "fd_pc s = FwRegister \<Longrightarrow> feed_step time_ok after inorder s EvSubscribe (subscribe s)"
| step_backlog: "fd_pc s = FwSince \<Longrightarrow> feed_step time_ok after inorder s EvBacklog (read_backlog time_ok after s)"
| step_cancel: "feed_step time_ok after inorder s EvCancel (s\<lparr>fd_pc := FwDone\<rparr>)"
| step_move: "moves inorder s t \<Longrightarrow> feed_step time_ok after inorder s EvMove t"

text \<open>A log that holds \<open>es\<close>, nobody subscribed yet.\<close>

definition feed_init :: "event_log \<Rightarrow> nat \<Rightarrow> feed" where
  "feed_init lg cap =
     \<lparr>fd_log = lg, fd_sub = new_subscriber cap, fd_head = 0, fd_pc = FwRegister, fd_flight = [], fd_signals = 0, fd_out = []\<rparr>"

section \<open>What arrives\<close>

fun taken :: "update list \<Rightarrow> stored list" where
  "taken [] = []"
| "taken (Delivered e # us) = e # taken us"
| "taken (Lagged n # us) = taken us"

fun lag_told :: "update list \<Rightarrow> bool" where
  "lag_told [] = False"
| "lag_told (Delivered e # us) = lag_told us"
| "lag_told (Lagged n # us) = True"

lemma taken_append [simp]: "taken (us @ vs) = taken us @ taken vs"
  by (induction us rule: taken.induct) auto

lemma lag_told_append [simp]: "lag_told (us @ vs) \<longleftrightarrow> lag_told us \<or> lag_told vs"
  by (induction us rule: taken.induct) auto

text \<open>What a subscription owes its reader: the backlog after \<open>from\<close>, and everything appended after it began.\<close>

definition owed :: "nat \<Rightarrow> nat \<Rightarrow> stored list \<Rightarrow> stored list" where
  "owed from head all = filter (\<lambda>e. min from head < sv_seq e) all"

text \<open>What the forwarder still holds, with the backlog it has not read yet.\<close>

fun holding :: "nat \<Rightarrow> nat \<Rightarrow> stored list \<Rightarrow> forwarder \<Rightarrow> stored list" where
  "holding from head all FwSince = filter (\<lambda>e. from < sv_seq e \<and> sv_seq e \<le> head) all"
| "holding from head all (FwBacklog es) = filter (\<lambda>e. sv_seq e \<le> head) es"
| "holding from head all (FwSend es) = es"
| "holding from head all _ = []"

definition flow :: "nat \<Rightarrow> stored list \<Rightarrow> feed \<Rightarrow> stored list" where
  "flow from all s = taken (fd_out s) @ holding from (fd_head s) all (fd_pc s) @ sb_queue (fd_sub s) @ fd_flight s"

definition lost :: "feed \<Rightarrow> bool" where
  "lost s \<longleftrightarrow> sb_lagged (fd_sub s) \<or> (\<exists>b. fd_pc s = FwLagged b) \<or> lag_told (fd_out s)"

text \<open>A flow that only loses: nothing twice, in order where the offers are, and nothing at all unless it says so.\<close>

definition part_of :: "bool \<Rightarrow> bool \<Rightarrow> 'a list \<Rightarrow> 'a list \<Rightarrow> bool" where
  "part_of inorder gap xs ys \<longleftrightarrow>
     mset xs \<subseteq># mset ys \<and> (inorder \<longrightarrow> subseq xs ys) \<and> (\<not> gap \<longrightarrow> length xs = length ys)"

lemma part_of_refl [simp]: "part_of inorder gap xs xs"
  by (simp add: part_of_def)

lemma part_of_trans: "part_of inorder gap xs ys \<Longrightarrow> part_of inorder gap' ys zs \<Longrightarrow> (gap' \<Longrightarrow> gap) \<Longrightarrow> part_of inorder gap xs zs"
  by (auto simp: part_of_def intro: subset_mset.order_trans subseq_order.trans)

lemma part_of_snoc: "part_of inorder gap xs ys \<Longrightarrow> part_of inorder gap (xs @ [x]) (ys @ [x])"
  by (simp add: part_of_def)

lemma subseq_mset: "subseq xs ys \<Longrightarrow> mset xs \<subseteq># mset ys"
  by (induction rule: list_emb.induct) (auto simp: subset_mset.trans [OF _ mset_subset_eq_add_right] subset_mset.add_increasing intro: subset_mset.order_trans)

lemma part_of_subseq: "subseq xs ys \<Longrightarrow> part_of inorder True xs ys"
  by (simp add: part_of_def subseq_mset)

lemma part_of_map: "part_of inorder gap xs ys \<Longrightarrow> part_of inorder gap (map f xs) (map f ys)"
  by (auto simp: part_of_def subseq_map image_mset_subseteq_mono)

lemma part_of_whole: "part_of inorder False xs ys \<Longrightarrow> mset xs = mset ys \<and> (inorder \<longrightarrow> xs = ys)"
  using mset_subset_size [of "mset xs" "mset ys"] by (auto simp: part_of_def subseq_same_length subset_mset.le_less)

section \<open>What every reachable state keeps\<close>

definition later_than :: "nat \<Rightarrow> stored list \<Rightarrow> bool" where
  "later_than head es \<longleftrightarrow> list_all (\<lambda>e. head < sv_seq e) es"

fun pc_ok :: "nat \<Rightarrow> forwarder \<Rightarrow> bool" where
  "pc_ok head (FwSend es) = later_than head es"
| "pc_ok head (FwLagged b) = (ba_events b = [])"
| "pc_ok head _ = True"

text \<open>A subscriber with something in its queue has been told, or will look.\<close>

fun will_look :: "forwarder \<Rightarrow> bool" where
  "will_look FwSince = True" | "will_look (FwBacklog es) = True" | "will_look FwDrain = True" | "will_look _ = False"

definition told :: "feed \<Rightarrow> bool" where
  "told s \<longleftrightarrow>
     (sb_queue (fd_sub s) \<noteq> [] \<or> sb_lagged (fd_sub s) \<longrightarrow> sb_notify (fd_sub s) \<or> 0 < fd_signals s \<or> will_look (fd_pc s))"

definition live :: "nat \<Rightarrow> bool \<Rightarrow> stored list \<Rightarrow> feed \<Rightarrow> bool" where
  "live from inorder all s \<longleftrightarrow>
     fd_head s \<le> length all \<and> later_than (fd_head s) (sb_queue (fd_sub s) @ fd_flight s) \<and> pc_ok (fd_head s) (fd_pc s) \<and> told s
     \<and> part_of inorder (lost s) (map clean_event (flow from all s)) (map clean_event (owed from (fd_head s) all))"

definition fed :: "(string \<Rightarrow> bool) \<Rightarrow> nat \<Rightarrow> bool \<Rightarrow> stored list \<Rightarrow> feed \<Rightarrow> bool" where
  "fed time_ok from inorder all s \<longleftrightarrow>
     holds_events time_ok all ((fd_log s)\<lparr>lg_closed := False\<rparr>) \<and> list_all (event_fits time_ok) all
     \<and> (fd_pc s = FwRegister \<longrightarrow> fd_out s = [] \<and> sb_queue (fd_sub s) = [] \<and> \<not> sb_lagged (fd_sub s) \<and> fd_flight s = [] \<and> fd_signals s = 0)
     \<and> (registered s \<longrightarrow> live from inorder all s)"

lemma later_than_simps [simp]:
  "later_than head []"
  "later_than head (e # es) \<longleftrightarrow> head < sv_seq e \<and> later_than head es"
  "later_than head (es @ fs) \<longleftrightarrow> later_than head es \<and> later_than head fs"
  by (simp_all add: later_than_def)

lemma later_than_remove: "later_than head es \<Longrightarrow> later_than head (remove_at i es)"
  using set_remove_at_subset [of i es] by (auto simp: later_than_def list_all_iff)

lemma later_than_nth: "later_than head es \<Longrightarrow> i < length es \<Longrightarrow> head < sv_seq (es ! i)"
  by (simp add: later_than_def list_all_length)

lemma mset_remove_at: "i < length es \<Longrightarrow> add_mset (es ! i) (mset (remove_at i es)) = mset es"
  by (metis add_mset_add_single id_take_nth_drop mset.simps(2) mset_append remove_at_def union_mset_add_mset_right)

text \<open>An offer, a token and a step of the forwarder lose nothing they do not tell of.\<close>

lemma flow_offer:
  assumes "i < length (fd_flight s)" "inorder \<Longrightarrow> i = 0" "registered s"
  shows "part_of inorder (lost (offered i s)) (flow from all (offered i s)) (flow from all s)"
proof (cases "sb_cap (fd_sub s) \<le> length (sb_queue (fd_sub s))")
  case False
  let ?a = "taken (fd_out s) @ holding from (fd_head s) all (fd_pc s) @ sb_queue (fd_sub s)"
  have f: "flow from all (offered i s) = ?a @ fd_flight s ! i # remove_at i (fd_flight s)" "flow from all s = ?a @ fd_flight s"
    using False by (simp_all add: flow_def offered_def offer_def Let_def)
  have "inorder \<Longrightarrow> fd_flight s ! i # remove_at i (fd_flight s) = fd_flight s"
    using assms(1,2) by (cases "fd_flight s") auto
  then show ?thesis unfolding f using mset_remove_at [OF assms(1)] assms(1) by (auto simp: part_of_def)
next
  case True
  then have "lost (offered i s)" by (simp add: lost_def offered_def offer_def Let_def)
  moreover have "flow from all (offered i s) = (taken (fd_out s) @ holding from (fd_head s) all (fd_pc s)) @ (fd_flight s ! i # remove_at i (fd_flight s))"
    "flow from all s = (taken (fd_out s) @ holding from (fd_head s) all (fd_pc s)) @ (sb_queue (fd_sub s) @ fd_flight s)"
    using True by (simp_all add: flow_def offered_def offer_def Let_def)
  moreover have "subseq (fd_flight s ! i # remove_at i (fd_flight s)) (sb_queue (fd_sub s) @ fd_flight s)" if "inorder"
    using assms(1) assms(2) [OF that] by (cases "fd_flight s") (auto intro: subseq_drop_many)
  ultimately show ?thesis
    using mset_remove_at [OF assms(1)] by (auto simp: part_of_def intro!: list_emb_append_mono)
qed

lemma flow_signal: "flow from all (signalled s) = flow from all s"
  by (simp add: flow_def signalled_def signal_def)

lemma subseq_middle: "subseq (xs @ zs) (xs @ ys @ zs)"
  by (intro list_emb_append_mono subseq_drop_many) simp_all

lemma flow_forward:
  assumes "forwarded s = Some t" "live from inorder all s"
  shows "part_of inorder (lost t) (flow from all t) (flow from all s)"
proof -
  obtain us pc sub where f: "forward (fd_head s) (fd_pc s, fd_sub s) = Some (us, pc, sub)"
    and t: "t = s\<lparr>fd_out := fd_out s @ us, fd_pc := pc, fd_sub := sub\<rparr>"
    using assms(1) by (auto simp: forwarded_def split: option.splits prod.splits)
  have ok: "pc_ok (fd_head s) (fd_pc s)" using assms(2) by (simp add: live_def)
  show ?thesis
  proof (cases "fd_pc s = FwDrain \<and> sb_lagged (fd_sub s)")
    case True
    then have "subseq (flow from all t) (flow from all s)" and "lost t"
      using f by (auto simp: t flow_def lost_def drain_def subseq_middle)
    then show ?thesis using part_of_subseq by simp
  next
    case False
    then have "flow from all t = flow from all s"
      using f ok by (cases "(fd_head s, fd_pc s, fd_sub s)" rule: forward.cases)
        (auto simp: t flow_def drain_def split: if_splits)
    then show ?thesis by simp
  qed
qed

lemma moves_flow:
  assumes "moves inorder s t" "live from inorder all s" "registered s"
  shows "part_of inorder (lost t) (flow from all t) (flow from all s)"
  using assms by cases (auto simp: flow_signal intro: flow_offer flow_forward)

lemma forward_lost: "forward head (pc, sub) = Some (us, pc', sub') \<Longrightarrow>
    sb_lagged sub \<or> (\<exists>b. pc = FwLagged b) \<Longrightarrow> sb_lagged sub' \<or> (\<exists>b. pc' = FwLagged b) \<or> lag_told us"
  by (cases "(head, pc, sub)" rule: forward.cases) (auto simp: drain_def split: if_splits)

lemma moves_lost: "moves inorder s t \<Longrightarrow> lost s \<Longrightarrow> lost t"
  by (induction rule: moves.cases)
    (auto simp: lost_def offered_def offer_def signalled_def signal_def forwarded_def Let_def split: option.splits dest: forward_lost)

lemma moves_frame:
  "moves inorder s t \<Longrightarrow> fd_log t = fd_log s \<and> fd_head t = fd_head s \<and>
     (fd_pc t = FwRegister \<longleftrightarrow> fd_pc s = FwRegister) \<and> (fd_pc t = FwDone \<longleftrightarrow> fd_pc s = FwDone) \<and> (fd_pc t = FwSince \<longleftrightarrow> fd_pc s = FwSince)"
proof (induction rule: moves.cases)
  case (move_forward s t)
  then show ?case
    by (cases "(fd_head s, fd_pc s, fd_sub s)" rule: forward.cases) (auto simp: forwarded_def drain_def split: option.splits if_splits)
qed (auto simp: offered_def signalled_def)

lemma moves_later:
  assumes "moves inorder s t" "later_than (fd_head s) (sb_queue (fd_sub s) @ fd_flight s)" "pc_ok (fd_head s) (fd_pc s)"
  shows "later_than (fd_head t) (sb_queue (fd_sub t) @ fd_flight t) \<and> pc_ok (fd_head t) (fd_pc t)"
  using assms
proof cases
  case move_forward
  with assms show ?thesis
    by (cases "(fd_head s, fd_pc s, fd_sub s)" rule: forward.cases) (auto simp: forwarded_def drain_def split: option.splits if_splits)
qed (auto simp: offered_def offer_def signalled_def signal_def Let_def later_than_remove later_than_nth)

lemma moves_told:
  assumes "moves inorder s t" "told s"
  shows "told t"
  using assms
proof cases
  case move_forward
  with assms show ?thesis
    by (cases "(fd_head s, fd_pc s, fd_sub s)" rule: forward.cases) (auto simp: forwarded_def drain_def told_def split: option.splits if_splits)
qed (auto simp: offered_def offer_def signalled_def signal_def Let_def told_def)

lemma moves_registered: "moves inorder s t \<Longrightarrow> registered t \<longleftrightarrow> registered s"
  using moves_frame by (auto simp: registered_def)

lemma moves_live:
  assumes "moves inorder s t" "live from inorder all s" "registered s"
  shows "live from inorder all t"
proof -
  have h: "fd_head t = fd_head s" using moves_frame [OF assms(1)] by simp
  have "part_of inorder (lost t) (map clean_event (flow from all t)) (map clean_event (owed from (fd_head t) all))"
    using part_of_trans [OF part_of_map [OF moves_flow [OF assms]]] assms(2) moves_lost [OF assms(1)] unfolding h live_def by blast
  moreover have "later_than (fd_head t) (sb_queue (fd_sub t) @ fd_flight t) \<and> pc_ok (fd_head t) (fd_pc t)"
    by (rule moves_later [OF assms(1)]) (use assms(2) in \<open>simp_all add: live_def\<close>)
  moreover have "told t" using moves_told [OF assms(1)] assms(2) by (simp add: live_def)
  moreover have "fd_head t \<le> length all" using assms(2) h by (simp add: live_def)
  ultimately show ?thesis unfolding live_def by blast
qed

lemma moves_fed: "moves inorder s t \<Longrightarrow> fed time_ok from inorder all s \<Longrightarrow> fed time_ok from inorder all t"
proof -
  assume m: "moves inorder s t" and f: "fed time_ok from inorder all s"
  have "fd_pc t \<noteq> FwRegister" if "fd_pc s \<noteq> FwRegister" using moves_frame [OF m] that by simp
  moreover have "fd_pc s \<noteq> FwRegister"
    using m f by cases (auto simp: fed_def forwarded_def)
  ultimately show ?thesis using m f moves_live [OF m] moves_frame [OF m] moves_registered [OF m] by (simp add: fed_def)
qed

text \<open>The steps of the log and of the subscription.\<close>

lemma numbered_le: "numbered 0 es \<Longrightarrow> e \<in> set es \<Longrightarrow> sv_seq e \<le> length es"
  by (auto simp: in_set_conv_nth numbered_nth)

lemma since_open: "since time_ok n (lg\<lparr>lg_closed := b\<rparr>) = since time_ok n lg"
  by (simp add: since_def in_memory_def ring_events_def ring_cap_def)

lemma append_fed:
  assumes "fed time_ok from inorder all s" "append_event thread now e DiskOk (fd_log s) = (Inr n, lg)"
    "event_fits time_ok (stamp thread now n e)"
  shows "fed time_ok from inorder (all @ [stamp thread now n e]) (appended (stamp thread now n e) lg s)"
proof -
  let ?e = "stamp thread now n e"
  have h: "holds_events time_ok all ((fd_log s)\<lparr>lg_closed := False\<rparr>)" using assms(1) by (simp add: fed_def)
  have c: "\<not> lg_closed (fd_log s)" using assms(2) by (auto simp: append_event_def)
  then have same: "(fd_log s)\<lparr>lg_closed := False\<rparr> = fd_log s" by simp
  have n: "n = length all + 1" using assms(2) h c by (auto simp: append_event_def holds_events_def Let_def split: if_splits)
  have h': "holds_events time_ok (all @ [?e]) lg" "\<not> lg_closed lg"
    using append_holds [OF h, of thread now e] assms(2) unfolding same n by (simp_all add: holds_events_def)
  have seq: "sv_seq ?e = length all + 1" by (simp add: stamp_def n)
  have "live from inorder (all @ [?e]) (appended ?e lg s)" if r: "registered s"
  proof -
    from r assms(1) have l: "live from inorder all s" by (simp add: fed_def)
    then have hd: "fd_head s \<le> length all" by (simp add: live_def)
    have "holding from (fd_head s) (all @ [?e]) (fd_pc s) = holding from (fd_head s) all (fd_pc s)"
      using hd seq by (cases "fd_pc s") auto
    then have "flow from (all @ [?e]) (appended ?e lg s) = flow from all s @ [?e]"
      using r by (simp add: flow_def appended_def)
    moreover have "owed from (fd_head s) (all @ [?e]) = owed from (fd_head s) all @ [?e]"
      using hd seq by (simp add: owed_def)
    ultimately show ?thesis
      using l r hd seq by (simp add: live_def appended_def told_def lost_def part_of_snoc)
  qed
  moreover have "(appended ?e lg s)\<lparr>fd_log := lg\<rparr> = appended ?e lg s" by (simp add: appended_def)
  moreover have "lg\<lparr>lg_closed := False\<rparr> = lg" using h'(2) by simp
  ultimately show ?thesis using assms(1,3) h'(1) by (auto simp: fed_def appended_def registered_def)
qed

lemma subscribe_fed:
  assumes "fed time_ok from inorder all s" "fd_pc s = FwRegister"
  shows "fed time_ok from inorder all (subscribe s)"
proof (cases "lg_closed (fd_log s)")
  case False
  have h: "numbered 0 all" "lg_seq (fd_log s) = length all" using assms(1) by (simp_all add: fed_def holds_events_def)
  have "filter (\<lambda>e. from < sv_seq e \<and> sv_seq e \<le> length all) all = filter (\<lambda>e. min from (length all) < sv_seq e) all"
    using numbered_le [OF h(1)] by (intro filter_cong) (fastforce simp: min_def split: if_splits)+
  then have "flow from all (subscribe s) = owed from (length all) all"
    using assms False h by (simp add: flow_def subscribe_def owed_def fed_def)
  then have "live from inorder all (subscribe s)"
    using assms False h by (simp add: live_def told_def fed_def subscribe_def)
  then show ?thesis using assms False by (simp add: fed_def subscribe_def)
qed (use assms in \<open>simp add: fed_def subscribe_def registered_def\<close>)

lemma backlog_fed:
  assumes "fed time_ok from inorder all s" "fd_pc s = FwSince"
  shows "fed time_ok from inorder all (read_backlog time_ok from s)"
proof -
  have h: "holds_events time_ok all ((fd_log s)\<lparr>lg_closed := False\<rparr>)" "list_all (event_fits time_ok) all"
    using assms(1) by (simp_all add: fed_def)
  from since_holds [OF h(1) events_fit [OF h(2)], of "from"] obtain es where
    es: "since time_ok from (fd_log s) = Inr es" "map clean_event es = filter (\<lambda>e. from < sv_seq e) (map clean_event all)"
    unfolding since_open by (cases "since time_ok from (fd_log s)") auto
  have seq: "sv_seq (clean_event e) = sv_seq e" for e by (simp add: clean_event_def)
  have "map clean_event (filter (\<lambda>e. sv_seq e \<le> fd_head s) es) = filter (\<lambda>e. sv_seq e \<le> fd_head s) (map clean_event es)"
    by (simp add: filter_map o_def seq)
  also have "\<dots> = map clean_event (filter (\<lambda>e. from < sv_seq e \<and> sv_seq e \<le> fd_head s) all)"
    unfolding es(2) by (simp add: filter_map o_def seq conj_commute)
  finally have "map clean_event (flow from all (read_backlog time_ok from s)) = map clean_event (flow from all s)"
    using assms(2) by (simp add: flow_def read_backlog_def es(1))
  then have "live from inorder all (read_backlog time_ok from s)"
    using assms by (simp add: fed_def registered_def live_def lost_def told_def) (simp add: read_backlog_def es(1))
  then show ?thesis using assms by (simp add: fed_def read_backlog_def es(1) registered_def)
qed

lemma step_fed:
  assumes "feed_step time_ok from inorder s ev t" "fed time_ok from inorder all s"
  shows "\<exists>all'. fed time_ok from inorder all' t"
  using assms
proof cases
  case step_close
  have "fed time_ok from inorder all t"
    using assms(2) by (simp add: step_close fed_def close_log_def registered_def live_def flow_def lost_def told_def)
  then show ?thesis ..
next
  case step_cancel
  then have "fed time_ok from inorder all t" using assms(2) by (simp add: fed_def registered_def)
  then show ?thesis ..
next
  case (step_append thread now e n lg)
  with append_fed [OF assms(2)] show ?thesis by metis
qed (use assms(2) subscribe_fed backlog_fed moves_fed in metis)+

section \<open>Nothing is left behind\<close>

text \<open>The work that is left: an event in flight is offered, signalled, drained and sent.\<close>

fun pc_left :: "forwarder \<Rightarrow> nat" where
  "pc_left (FwBacklog es) = length es + 6"
| "pc_left FwDrain = 5"
| "pc_left (FwLagged b) = length (ba_events b) + 2"
| "pc_left (FwSend es) = length es + 1"
| "pc_left _ = 0"

definition left_to_move :: "feed \<Rightarrow> nat" where
  "left_to_move s =
     11 * length (fd_flight s) + 7 * fd_signals s + length (sb_queue (fd_sub s)) + (if sb_lagged (fd_sub s) then 1 else 0)
     + (if sb_notify (fd_sub s) then 6 else 0) + pc_left (fd_pc s)"

definition quiet :: "feed \<Rightarrow> bool" where
  "quiet s \<longleftrightarrow>
     fd_flight s = [] \<and> fd_signals s = 0
     \<and> (fd_pc s \<in> {FwRegister, FwSince, FwDone} \<or> fd_pc s = FwWait \<and> \<not> sb_notify (fd_sub s))"

lemma moves_lower:
  assumes "moves inorder s t"
  shows "left_to_move t < left_to_move s"
  using assms
proof cases
  case move_forward
  then show ?thesis
    by (cases "(fd_head s, fd_pc s, fd_sub s)" rule: forward.cases)
      (auto simp: forwarded_def drain_def left_to_move_def split: option.splits if_splits)
qed (auto simp: offered_def offer_def signalled_def signal_def left_to_move_def Let_def)

lemma moves_progress: "\<not> quiet s \<Longrightarrow> \<exists>t. moves inorder s t"
proof -
  assume n: "\<not> quiet s"
  consider "fd_flight s \<noteq> []" | "0 < fd_signals s" | "forwarded s \<noteq> None"
  proof (cases "fd_flight s = [] \<and> fd_signals s = 0")
    case True
    with n have "forwarded s \<noteq> None"
      by (cases "(fd_head s, fd_pc s, fd_sub s)" rule: forward.cases) (auto simp: quiet_def forwarded_def drain_def)
    then show ?thesis using that by blast
  qed (use that in auto)
  then show ?thesis by cases (auto intro: moves.intros)
qed

interpretation moving: draining "moves inorder" "\<lambda>_. True" left_to_move quiet for inorder
  by unfold_locales (use moves_lower moves_progress in auto)

definition fresh_log :: "(string \<Rightarrow> bool) \<Rightarrow> nat \<Rightarrow> event_log" where
  "fresh_log time_ok ring = projr (open_log time_ok ring [])"

lemma init_fed: "fed time_ok from inorder [] (feed_init (fresh_log time_ok ring) cap)"
proof -
  obtain lg where "open_log time_ok ring [] = Inr lg" "holds_events time_ok [] lg"
    using open_holds [of time_ok "[]" ring] by auto
  then show ?thesis
    by (simp add: fed_def fresh_log_def feed_init_def new_subscriber_def registered_def holds_events_def ring_of_def ring_ok_def
        ring_events_def ring_cap_def)
qed

interpretation feeding: guarded_system "feed_init (fresh_log time_ok ring) cap" "feed_step time_ok from inorder"
    "\<lambda>s. \<exists>all. fed time_ok from inorder all s" for time_ok ring cap "from" inorder
  by unfold_locales (use init_fed step_fed in blast)+

lemma stuck_quiet: "\<not> (\<exists>t. moves inorder s t) \<Longrightarrow> quiet s"
  using moves_progress by blast

text \<open>However the goroutines are scheduled, what is in flight arrives, within a bound known beforehand.\<close>

lemma feed_settles:
  "\<exists>t. (moves inorder)\<^sup>*\<^sup>* s t \<and> quiet t"
  "(moves inorder ^^ n) s t \<Longrightarrow> n \<le> left_to_move s"
  using moving.finishes moving.steps_bounded by (blast, fastforce)

text \<open>
  C18: when nothing is left to move, a subscriber has every event of the log after the number it asked
  for, each once, or was told that it lagged; and in the order of the log when one goroutine appends at a
  time. The log is the file, whatever was appended while the subscription began.
\<close>

theorem no_silent_gap:
  assumes "reach (feed_init (fresh_log time_ok ring) cap) (feed_step time_ok after inorder) s"
    and "\<not> (\<exists>t. moves inorder s t)" and "fd_pc s = FwWait"
  shows "case read_log time_ok (lg_file (fd_log s)) of
           Inl e \<Rightarrow> False
         | Inr all \<Rightarrow>
             (let got = map clean_event (taken (fd_out s)); due = owed after (fd_head s) all in
              mset got \<subseteq># mset due \<and> (inorder \<longrightarrow> subseq got due)
              \<and> (\<not> lag_told (fd_out s) \<longrightarrow> mset got = mset due \<and> (inorder \<longrightarrow> got = due)))"
proof -
  obtain all where f: "fed time_ok after inorder all s" using feeding.inv_reach [OF assms(1)] by auto
  then have h: "holds_events time_ok all ((fd_log s)\<lparr>lg_closed := False\<rparr>)" "list_all (event_fits time_ok) all"
    and l: "live after inorder all s" using assms(3) by (simp_all add: fed_def registered_def)
  have r: "read_log time_ok (lg_file (fd_log s)) = Inr (map clean_event all)"
    using events.strict_file [OF events_fit [OF h(2)], of "[]"] h(1) by (simp add: read_log_def holds_events_def)
  have q: "quiet s" using assms(2) by (rule stuck_quiet)
  then have "sb_queue (fd_sub s) = [] \<and> \<not> sb_lagged (fd_sub s)"
    using l assms(3) by (simp add: live_def told_def quiet_def)
  then have flow: "flow after all s = taken (fd_out s)" "lost s = lag_told (fd_out s)"
    using q assms(3) by (simp_all add: flow_def lost_def quiet_def)
  have "map clean_event (owed after (fd_head s) all) = owed after (fd_head s) (map clean_event all)"
    by (simp add: owed_def filter_map o_def clean_event_def)
  then have p: "part_of inorder (lag_told (fd_out s)) (map clean_event (taken (fd_out s))) (owed after (fd_head s) (map clean_event all))"
    using l by (simp add: live_def flow)
  then have "\<not> lag_told (fd_out s) \<Longrightarrow>
      mset (map clean_event (taken (fd_out s))) = mset (owed after (fd_head s) (map clean_event all))
      \<and> (inorder \<longrightarrow> map clean_event (taken (fd_out s)) = owed after (fd_head s) (map clean_event all))"
    by (intro part_of_whole) simp
  with p show ?thesis unfolding r sum.case Let_def part_of_def by blast
qed

section \<open>A run, step by step\<close>

datatype movement = Offer nat | Signal | Forward

fun play :: "bool \<Rightarrow> movement list \<Rightarrow> feed \<Rightarrow> feed option" where
  "play inorder [] s = Some s"
| "play inorder (Offer i # ps) s =
     (if i < length (fd_flight s) \<and> (inorder \<longrightarrow> i = 0) then play inorder ps (offered i s) else None)"
| "play inorder (Signal # ps) s = (if 0 < fd_signals s then play inorder ps (signalled s) else None)"
| "play inorder (Forward # ps) s = (case forwarded s of None \<Rightarrow> None | Some t \<Rightarrow> play inorder ps t)"

lemma play_reach:
  "reach init (feed_step time_ok after inorder) s \<Longrightarrow> play inorder ps s = Some t \<Longrightarrow> reach init (feed_step time_ok after inorder) t"
proof (induction inorder ps s rule: play.induct)
  case (2 inorder i ps s)
  then show ?case by (auto split: if_splits intro: reach_step step_move move_offer)
next
  case (3 inorder ps s)
  then show ?case by (auto split: if_splits intro: reach_step step_move move_signal)
next
  case (4 inorder ps s)
  then show ?case by (auto split: option.splits intro: reach_step step_move move_forward)
qed simp

text \<open>Events appended one after the other to a subscription that has just read its backlog.\<close>

lemma append_ok:
  assumes "holds_events time_ok es lg"
  shows "\<exists>lg'. append_event thread now e DiskOk lg = (Inr (length es + 1), lg') \<and> holds_events time_ok (es @ [stamp thread now (length es + 1) e]) lg'"
  using append_holds [OF assms, of thread now e] assms by (auto simp: append_event_def holds_events_def Let_def)

definition demo_event :: "nat \<Rightarrow> stored" where
  "demo_event n = stamp ''t1'' ''now'' n (demo_stored ''a'')"

lemma demo_event_fits: "n < 10 \<Longrightarrow> event_fits (\<lambda>_. True) (demo_event n)"
  unfolding demo_event_def by (rule demo_stored_fits) (simp_all, code_simp)

lemma demo_seq [simp]: "sv_seq (demo_event n) = n"
  by (simp add: demo_event_def stamp_def)

lemma demo_feed:
  assumes "n < 10"
  shows "\<exists>lg. holds_events (\<lambda>_. True) (map (\<lambda>i. demo_event (i + 1)) [0..<n]) lg
    \<and> reach (feed_init (fresh_log (\<lambda>_. True) ring) cap) (feed_step (\<lambda>_. True) 0 inorder)
        \<lparr>fd_log = lg, fd_sub = new_subscriber cap, fd_head = 0, fd_pc = FwBacklog [], fd_flight = map (\<lambda>i. demo_event (i + 1)) [0..<n],
         fd_signals = 0, fd_out = []\<rparr>"
  using assms
proof (induction n)
  case 0
  let ?lg = "fresh_log (\<lambda>_. True) ring"
  have h: "holds_events (\<lambda>_. True) [] ?lg"
    using open_holds [of "\<lambda>_. True" "[]" ring] by (auto simp: fresh_log_def)
  have "since (\<lambda>_. True) 0 ?lg = Inr []" using since_holds [OF h, of 0] by (cases "since (\<lambda>_. True) 0 ?lg") (auto simp: events.fits_def)
  moreover have "\<not> lg_closed ?lg" "lg_seq ?lg = 0" using h by (simp_all add: holds_events_def)
  ultimately have "read_backlog (\<lambda>_. True) 0 (subscribe (feed_init ?lg cap)) =
      \<lparr>fd_log = ?lg, fd_sub = new_subscriber cap, fd_head = 0, fd_pc = FwBacklog [], fd_flight = [], fd_signals = 0, fd_out = []\<rparr>"
    "fd_pc (subscribe (feed_init ?lg cap)) = FwSince"
    by (simp_all add: read_backlog_def subscribe_def feed_init_def)
  moreover have "reach (feed_init ?lg cap) (feed_step (\<lambda>_. True) 0 inorder) (subscribe (feed_init ?lg cap))"
    by (rule reach_step, rule reach_init, rule step_subscribe) (simp add: feed_init_def)
  then have "reach (feed_init ?lg cap) (feed_step (\<lambda>_. True) 0 inorder) (read_backlog (\<lambda>_. True) 0 (subscribe (feed_init ?lg cap)))"
    by (rule reach_step [where e = EvBacklog]) (rule step_backlog, rule calculation)
  with calculation(1) have "reach (feed_init ?lg cap) (feed_step (\<lambda>_. True) 0 inorder)
      \<lparr>fd_log = ?lg, fd_sub = new_subscriber cap, fd_head = 0, fd_pc = FwBacklog [], fd_flight = [], fd_signals = 0, fd_out = []\<rparr>"
    by (simp only:)
  with h show ?case by (intro exI [of _ ?lg]) simp
next
  case (Suc n)
  let ?es = "map (\<lambda>i. demo_event (i + 1)) [0..<n]"
  from Suc obtain lg where lg: "holds_events (\<lambda>_. True) ?es lg"
    "reach (feed_init (fresh_log (\<lambda>_. True) ring) cap) (feed_step (\<lambda>_. True) 0 inorder)
        \<lparr>fd_log = lg, fd_sub = new_subscriber cap, fd_head = 0, fd_pc = FwBacklog [], fd_flight = ?es, fd_signals = 0, fd_out = []\<rparr>"
    by auto
  from append_ok [OF lg(1), of "''t1''" "''now''" "demo_stored ''a''"] obtain lg' where
    a: "append_event ''t1'' ''now'' (demo_stored ''a'') DiskOk lg = (Inr (n + 1), lg')" "holds_events (\<lambda>_. True) (?es @ [demo_event (n + 1)]) lg'"
    by (auto simp: demo_event_def)
  have "event_fits (\<lambda>_. True) (stamp ''t1'' ''now'' (n + 1) (demo_stored ''a''))"
    using demo_event_fits [of "n + 1"] Suc.prems by (simp add: demo_event_def)
  from step_append [OF _ this, of "\<lparr>fd_log = lg, fd_sub = new_subscriber cap, fd_head = 0, fd_pc = FwBacklog [], fd_flight = ?es, fd_signals = 0, fd_out = []\<rparr>"] a(1)
  have "feed_step (\<lambda>_. True) 0 inorder
      \<lparr>fd_log = lg, fd_sub = new_subscriber cap, fd_head = 0, fd_pc = FwBacklog [], fd_flight = ?es, fd_signals = 0, fd_out = []\<rparr> EvAppend
      \<lparr>fd_log = lg', fd_sub = new_subscriber cap, fd_head = 0, fd_pc = FwBacklog [], fd_flight = ?es @ [demo_event (n + 1)], fd_signals = 0, fd_out = []\<rparr>"
    by (simp add: appended_def registered_def demo_event_def [symmetric])
  from reach_step [OF lg(2) this] a(2) show ?case by (intro exI [of _ lg']) simp
qed

definition demo_moves :: "movement list" where
  "demo_moves = [Offer 0, Signal, Forward, Forward, Forward, Forward, Forward, Forward, Forward]"

theorem no_silent_gap_witness:
  "\<exists>s. reach (feed_init (fresh_log (\<lambda>_. True) 8) 4) (feed_step (\<lambda>_. True) 0 True) s
     \<and> map clean_event (taken (fd_out s)) = owed 0 (fd_head s) [clean_event (demo_event 1)]
     \<and> map sv_seq (taken (fd_out s)) = [1]"
proof -
  from demo_feed [of 1 8 4 True] obtain lg where lg: "holds_events (\<lambda>_. True) [demo_event 1] lg"
    "reach (feed_init (fresh_log (\<lambda>_. True) 8) 4) (feed_step (\<lambda>_. True) 0 True)
        \<lparr>fd_log = lg, fd_sub = new_subscriber 4, fd_head = 0, fd_pc = FwBacklog [], fd_flight = [demo_event 1],
         fd_signals = 0, fd_out = []\<rparr>" by auto
  let ?t = "\<lparr>fd_log = lg, fd_sub = (new_subscriber 4)\<lparr>sb_last := 1\<rparr>, fd_head = 0, fd_pc = FwWait, fd_flight = [], fd_signals = 0,
      fd_out = [Delivered (demo_event 1)]\<rparr>"
  have "play True demo_moves \<lparr>fd_log = lg, fd_sub = new_subscriber 4, fd_head = 0, fd_pc = FwBacklog [], fd_flight = [demo_event 1],
         fd_signals = 0, fd_out = []\<rparr> = Some ?t"
    by (simp add: demo_moves_def offered_def offer_def signalled_def signal_def forwarded_def drain_def new_subscriber_def)
  from play_reach [OF lg(2) this] have r: "reach (feed_init (fresh_log (\<lambda>_. True) 8) 4) (feed_step (\<lambda>_. True) 0 True) ?t" .
  have stuck: "\<not> (\<exists>u. moves True ?t u)"
    by (auto simp: moves.simps forwarded_def new_subscriber_def)
  have fits: "events.fits (\<lambda>_. True) max_line_bytes [demo_event 1]"
    by (rule events_fit) (simp add: demo_event_fits)
  have f: "lg_file lg = events.file_of [demo_event 1]" using lg(1) unfolding holds_events_def by blast
  have rd: "read_log (\<lambda>_. True) (lg_file lg) = Inr [clean_event (demo_event 1)]"
    using events.strict_file [OF fits, of "[]"] unfolding read_log_def f by simp
  have "map clean_event (taken (fd_out ?t)) = owed 0 (fd_head ?t) [clean_event (demo_event 1)]"
    using no_silent_gap [OF r stuck] by (simp only: feed.simps rd sum.case Let_def lag_told.simps simp_thms)
  with r show ?thesis by (intro exI [of _ ?t]) (simp add: owed_def clean_event_def)
qed

section \<open>What a client that lagged cannot get back\<close>

text \<open>
  A connection remembers the threads it subscribed to and starts a goroutine only for the first
  subscription to each.
\<close>

definition begin_forward :: "string \<Rightarrow> string set \<Rightarrow> bool \<times> string set" where
  "begin_forward thread subs = (thread \<notin> subs, insert thread subs)"

datatype thread_reply = RepEvent stored | RepLagged nat

definition update_reply :: "update \<Rightarrow> thread_reply" where
  "update_reply u = (case u of Lagged n \<Rightarrow> RepLagged n | Delivered e \<Rightarrow> RepEvent e)"

text \<open>
  C38: with two goroutines appending, a subscriber can be told of a gap and not close it: the second
  event is offered first and delivered, the first is dropped with the queue, and what comes after the last
  event received, which is what the reader is told to ask for, begins at the third. Nor can a client ask
  again: a second subscription of the same connection starts nothing.
\<close>

theorem resync_misses_event:
  "(\<exists>s. reach (feed_init (fresh_log (\<lambda>_. True) 8) 1) (feed_step (\<lambda>_. True) 0 False) s
      \<and> \<not> (\<exists>t. moves False s t) \<and> fd_pc s = FwWait
      \<and> fd_out s = [Delivered (demo_event 2), Lagged 3]
      \<and> map_sum id (map sv_seq) (since (\<lambda>_. True) 0 (fd_log s)) = Inr [1, 2, 3]
      \<and> map_sum id (map sv_seq) (since (\<lambda>_. True) 2 (fd_log s)) = Inr [3])
   \<and> \<not> fst (begin_forward thread (snd (begin_forward thread subs)))"
proof (intro conjI)
  have up: "map (\<lambda>i. demo_event (i + 1)) [0..<3] = [demo_event 1, demo_event 2, demo_event 3]"
    by (simp add: upt_rec numeral_2_eq_2 numeral_3_eq_3)
  from demo_feed [of 3 8 1 False] obtain lg where lg: "holds_events (\<lambda>_. True) [demo_event 1, demo_event 2, demo_event 3] lg"
    "reach (feed_init (fresh_log (\<lambda>_. True) 8) 1) (feed_step (\<lambda>_. True) 0 False)
        \<lparr>fd_log = lg, fd_sub = new_subscriber 1, fd_head = 0, fd_pc = FwBacklog [],
         fd_flight = [demo_event 1, demo_event 2, demo_event 3], fd_signals = 0, fd_out = []\<rparr>" unfolding up by auto
  let ?t = "\<lparr>fd_log = lg, fd_sub = (new_subscriber 1)\<lparr>sb_last := 3\<rparr>, fd_head = 0, fd_pc = FwWait, fd_flight = [], fd_signals = 0,
      fd_out = [Delivered (demo_event 2), Lagged 3]\<rparr>"
  have "play False [Offer 1, Forward, Forward, Forward, Forward, Offer 0, Offer 0, Signal, Signal, Signal, Forward, Forward, Forward, Forward]
      \<lparr>fd_log = lg, fd_sub = new_subscriber 1, fd_head = 0, fd_pc = FwBacklog [],
         fd_flight = [demo_event 1, demo_event 2, demo_event 3], fd_signals = 0, fd_out = []\<rparr> = Some ?t"
    by (simp add: offered_def offer_def signalled_def signal_def forwarded_def drain_def new_subscriber_def remove_at_def)
  from play_reach [OF lg(2) this] have r: "reach (feed_init (fresh_log (\<lambda>_. True) 8) 1) (feed_step (\<lambda>_. True) 0 False) ?t" .
  have stuck: "\<not> (\<exists>u. moves False ?t u)"
    by (auto simp: moves.simps forwarded_def new_subscriber_def)
  have fits: "events.fits (\<lambda>_. True) max_line_bytes [demo_event 1, demo_event 2, demo_event 3]"
    by (rule events_fit) (simp add: demo_event_fits)
  have behind: "map_sum id (map sv_seq) (since (\<lambda>_. True) n lg) = Inr (filter (\<lambda>i. n < i) [1, 2, 3])" for n
  proof -
    from since_holds [OF lg(1) fits, of n] obtain es where es: "since (\<lambda>_. True) n lg = Inr es"
      "map clean_event es = filter (\<lambda>e. n < sv_seq e) (map clean_event [demo_event 1, demo_event 2, demo_event 3])"
      by (cases "since (\<lambda>_. True) n lg") auto
    have "map sv_seq es = map sv_seq (map clean_event es)" by (simp add: o_def clean_event_def)
    then show ?thesis unfolding es by (simp add: es(1) clean_event_def)
  qed
  show "\<exists>s. reach (feed_init (fresh_log (\<lambda>_. True) 8) 1) (feed_step (\<lambda>_. True) 0 False) s
      \<and> \<not> (\<exists>t. moves False s t) \<and> fd_pc s = FwWait
      \<and> fd_out s = [Delivered (demo_event 2), Lagged 3]
      \<and> map_sum id (map sv_seq) (since (\<lambda>_. True) 0 (fd_log s)) = Inr [1, 2, 3]
      \<and> map_sum id (map sv_seq) (since (\<lambda>_. True) 2 (fd_log s)) = Inr [3]"
    using r stuck behind [of 0] behind [of 2] by (intro exI [of _ ?t]) simp
qed (simp add: begin_forward_def)

end
