(* ===== verification/ThreadTurns.thy ===== *)
theory ThreadTurns
  imports Prelude "HOL-Library.Multiset"
begin

text \<open>
  Model of the turns of one thread in \<open>internal/daemon/manager.go\<close>: \<open>send\<close>, \<open>startTurn\<close>, \<open>runTurn\<close>,
  \<open>drainPending\<close>, \<open>cancel\<close>, \<open>park\<close> and \<open>unpark\<close>, and the admission a turn holds at the scheduler. Each turn
  is a goroutine with a program counter, each section under the thread's mutex is one step; when the
  scheduler admits, when a run ends and whether it waits for a person is the environment's. An admission
  is a number, and \<open>mg_admitted\<close> are those the scheduler counts.
\<close>

section \<open>The thread\<close>

text \<open>What \<open>admit\<close> returns: nothing to give back on a hosted tier, else a turn of the local model.\<close>

datatype admission = Free | Admission nat

datatype turn_pc =
    Starting
  | Admitted admission
  | Working
  | Parked
  | Readmitted admission
  | Leaving

record goroutine =
  gr_id :: nat
  gr_prompt :: string
  gr_pc :: turn_pc

text \<open>The last four fields are of the model: names used so far, what was sent, what ran, what was given up.\<close>

record managed =
  mg_cycle :: bool
  mg_hosted :: bool
  mg_running :: bool
  mg_cancel :: "nat option"
  mg_pending :: "string list"
  mg_release :: "admission option"
  mg_turns :: "goroutine list"
  mg_cancelled :: "nat list"
  mg_admitted :: "nat list"
  mg_names :: nat
  mg_sent :: "string list"
  mg_ran :: "string list"
  mg_gave_up :: "string list"

definition start_turn :: "string \<Rightarrow> managed \<Rightarrow> managed" where
  "start_turn p m =
     m\<lparr>mg_running := True, mg_cancel := Some (mg_names m),
       mg_turns := mg_turns m @ [\<lparr>gr_id = mg_names m, gr_prompt = p, gr_pc = Starting\<rparr>], mg_names := mg_names m + 1\<rparr>"

definition cancel_turn :: "managed \<Rightarrow> managed" where
  "cancel_turn m = (case mg_cancel m of None \<Rightarrow> m | Some i \<Rightarrow> m\<lparr>mg_cancelled := i # mg_cancelled m\<rparr>)"

definition send :: "string \<Rightarrow> bool \<Rightarrow> managed \<Rightarrow> managed" where
  "send p interrupt m =
     (let m = m\<lparr>mg_sent := mg_sent m @ [p]\<rparr> in
      if mg_running m
      then (let m = m\<lparr>mg_pending := mg_pending m @ [p]\<rparr> in if interrupt then cancel_turn m else m)
      else start_turn p m)"

definition drain_pending :: "managed \<Rightarrow> managed" where
  "drain_pending m = (case mg_pending m of [] \<Rightarrow> m | p # ps \<Rightarrow> start_turn p (m\<lparr>mg_pending := ps\<rparr>))"

definition give_back :: "admission option \<Rightarrow> managed \<Rightarrow> managed" where
  "give_back a m = (case a of Some (Admission t) \<Rightarrow> m\<lparr>mg_admitted := remove1 t (mg_admitted m)\<rparr> | _ \<Rightarrow> m)"

definition release_admission :: "managed \<Rightarrow> managed" where
  "release_admission m = give_back (mg_release m) (m\<lparr>mg_release := None\<rparr>)"

definition set_release :: "admission \<Rightarrow> managed \<Rightarrow> managed" where
  "set_release a m = m\<lparr>mg_release := Some a\<rparr>"

text \<open>The scheduler lets the turn in.\<close>

definition admit_turn :: "managed \<Rightarrow> admission \<times> managed" where
  "admit_turn m =
     (if mg_hosted m then (Free, m)
      else (Admission (mg_names m), m\<lparr>mg_admitted := mg_admitted m @ [mg_names m], mg_names := mg_names m + 1\<rparr>))"

section \<open>The steps of a turn\<close>

definition put_turn :: "nat \<Rightarrow> turn_pc \<Rightarrow> managed \<Rightarrow> managed" where
  "put_turn k pc m = m\<lparr>mg_turns := (mg_turns m)[k := (mg_turns m ! k)\<lparr>gr_pc := pc\<rparr>]\<rparr>"

definition end_turn :: "nat \<Rightarrow> managed \<Rightarrow> managed" where
  "end_turn k m = m\<lparr>mg_turns := remove_at k (mg_turns m)\<rparr>"

definition admitted :: "(admission \<Rightarrow> turn_pc) \<Rightarrow> nat \<Rightarrow> managed \<Rightarrow> managed" where
  "admitted pc k m = (case admit_turn m of (a, m) \<Rightarrow> put_turn k (pc a) m)"

definition refused :: "nat \<Rightarrow> managed \<Rightarrow> managed" where
  "refused k m =
     end_turn k (m\<lparr>mg_running := False, mg_cancel := None, mg_gave_up := mg_gave_up m @ [gr_prompt (mg_turns m ! k)]\<rparr>)"

definition begun :: "admission \<Rightarrow> nat \<Rightarrow> managed \<Rightarrow> managed" where
  "begun a k m = put_turn k Working (set_release a (m\<lparr>mg_ran := mg_ran m @ [gr_prompt (mg_turns m ! k)]\<rparr>))"

definition parked :: "nat \<Rightarrow> managed \<Rightarrow> managed" where
  "parked k m = put_turn k Parked (release_admission m)"

definition resumed :: "admission \<Rightarrow> nat \<Rightarrow> managed \<Rightarrow> managed" where
  "resumed a k m = put_turn k Working (set_release a m)"

text \<open>The section that ends a run; only an ordinary one looks at the queue.\<close>

definition finished :: "nat \<Rightarrow> managed \<Rightarrow> managed" where
  "finished k m =
     (let m = put_turn k Leaving (m\<lparr>mg_running := False, mg_cancel := None\<rparr>) in if mg_cycle m then m else drain_pending m)"

definition left_turn :: "nat \<Rightarrow> managed \<Rightarrow> managed" where
  "left_turn k m = end_turn k (release_admission m)"

definition cancelled :: "nat \<Rightarrow> managed \<Rightarrow> bool" where
  "cancelled k m \<longleftrightarrow> gr_id (mg_turns m ! k) \<in> set (mg_cancelled m)"

definition nobody_leaving :: "managed \<Rightarrow> bool" where
  "nobody_leaving m \<longleftrightarrow> list_all (\<lambda>g. gr_pc g \<noteq> Leaving) (mg_turns m)"

text \<open>
  With \<open>tidy\<close> the deferred release of a turn that ended comes before the admission of the next, which
  nothing in the code enforces.
\<close>

datatype turn_event = Send string bool | Cancel | SetHosted bool | At nat

inductive turn_step :: "bool \<Rightarrow> managed \<Rightarrow> turn_event \<Rightarrow> managed \<Rightarrow> bool" for tidy where
  turn_send: "turn_step tidy m (Send p interrupt) (send p interrupt m)"
| turn_cancel: "turn_step tidy m Cancel (cancel_turn m)"
| turn_hosted: "turn_step tidy m (SetHosted b) (m\<lparr>mg_hosted := b\<rparr>)"
| turn_admit: "k < length (mg_turns m) \<Longrightarrow> gr_pc (mg_turns m ! k) = Starting \<Longrightarrow> (tidy \<Longrightarrow> nobody_leaving m) \<Longrightarrow>
     turn_step tidy m (At k) (admitted Admitted k m)"
| turn_refused: "k < length (mg_turns m) \<Longrightarrow> gr_pc (mg_turns m ! k) = Starting \<Longrightarrow> cancelled k m \<Longrightarrow>
     turn_step tidy m (At k) (refused k m)"
| turn_begin: "k < length (mg_turns m) \<Longrightarrow> gr_pc (mg_turns m ! k) = Admitted a \<Longrightarrow> turn_step tidy m (At k) (begun a k m)"
| turn_park: "k < length (mg_turns m) \<Longrightarrow> gr_pc (mg_turns m ! k) = Working \<Longrightarrow> turn_step tidy m (At k) (parked k m)"
| turn_readmit: "k < length (mg_turns m) \<Longrightarrow> gr_pc (mg_turns m ! k) = Parked \<Longrightarrow> (tidy \<Longrightarrow> nobody_leaving m) \<Longrightarrow>
     turn_step tidy m (At k) (admitted Readmitted k m)"
| turn_resume: "k < length (mg_turns m) \<Longrightarrow> gr_pc (mg_turns m ! k) = Readmitted a \<Longrightarrow> turn_step tidy m (At k) (resumed a k m)"
| turn_give_up: "k < length (mg_turns m) \<Longrightarrow> gr_pc (mg_turns m ! k) = Parked \<Longrightarrow> cancelled k m \<Longrightarrow>
     turn_step tidy m (At k) (put_turn k Working m)"
| turn_finish: "k < length (mg_turns m) \<Longrightarrow> gr_pc (mg_turns m ! k) = Working \<Longrightarrow> turn_step tidy m (At k) (finished k m)"
| turn_leave: "k < length (mg_turns m) \<Longrightarrow> gr_pc (mg_turns m ! k) = Leaving \<Longrightarrow> turn_step tidy m (At k) (left_turn k m)"

definition thread_init :: "bool \<Rightarrow> managed" where
  "thread_init cycle =
     \<lparr>mg_cycle = cycle, mg_hosted = False, mg_running = False, mg_cancel = None, mg_pending = [], mg_release = None,
      mg_turns = [], mg_cancelled = [], mg_admitted = [], mg_names = 0, mg_sent = [], mg_ran = [], mg_gave_up = []\<rparr>"

section \<open>One turn at a time, prompts in the order they came\<close>

text \<open>The turns that have ended but for their deferred release, and the one that has not.\<close>

definition shape :: "managed \<Rightarrow> bool" where
  "shape m \<longleftrightarrow>
     (if mg_running m
      then \<exists>ls g. mg_turns m = ls @ [g] \<and> list_all (\<lambda>g. gr_pc g = Leaving) ls \<and> gr_pc g \<noteq> Leaving \<and> mg_cancel m = Some (gr_id g)
      else list_all (\<lambda>g. gr_pc g = Leaving) (mg_turns m) \<and> mg_cancel m = None)"

fun not_begun :: "turn_pc \<Rightarrow> bool" where
  "not_begun Starting = True" | "not_begun (Admitted a) = True" | "not_begun _ = False"

definition waiting :: "managed \<Rightarrow> string list" where
  "waiting m = map gr_prompt (filter (\<lambda>g. not_begun (gr_pc g)) (mg_turns m))"

definition queue_ok :: "managed \<Rightarrow> bool" where
  "queue_ok m \<longleftrightarrow>
     mset (mg_sent m) = mset (mg_ran m @ waiting m @ mg_pending m @ mg_gave_up m)
     \<and> (mg_gave_up m = [] \<and> \<not> mg_cycle m \<longrightarrow>
          mg_sent m = mg_ran m @ waiting m @ mg_pending m \<and> (mg_pending m \<noteq> [] \<longrightarrow> mg_running m))"

lemma list_update_last: "(ls @ [g])[length ls := h] = ls @ [h]"
  by simp

lemma remove_at_last: "remove_at (length ls) (ls @ [g]) = ls"
  by (simp add: remove_at_def)

lemma filter_leaving [simp]: "list_all (\<lambda>g. gr_pc g = Leaving) ls \<Longrightarrow> filter (\<lambda>g. not_begun (gr_pc g)) ls = []"
  by (induction ls) auto

lemma give_back_frame [simp]:
  "mg_cycle (give_back a m) = mg_cycle m" "mg_running (give_back a m) = mg_running m" "mg_cancel (give_back a m) = mg_cancel m"
  "mg_pending (give_back a m) = mg_pending m" "mg_turns (give_back a m) = mg_turns m" "mg_sent (give_back a m) = mg_sent m"
  "mg_ran (give_back a m) = mg_ran m" "mg_gave_up (give_back a m) = mg_gave_up m" "mg_release (give_back a m) = mg_release m"
  by (simp_all add: give_back_def split: option.splits admission.splits)

text \<open>A turn that has not ended is the last.\<close>

lemma not_leaving_last:
  assumes "shape m" "k < length (mg_turns m)" "gr_pc (mg_turns m ! k) \<noteq> Leaving"
  obtains ls g where "mg_turns m = ls @ [g]" "k = length ls" "list_all (\<lambda>g. gr_pc g = Leaving) ls"
    "mg_running m" "mg_cancel m = Some (gr_id g)" "gr_pc g = gr_pc (mg_turns m ! k)"
proof (cases "mg_running m")
  case True
  then obtain ls g where s: "mg_turns m = ls @ [g]" "list_all (\<lambda>g. gr_pc g = Leaving) ls" "mg_cancel m = Some (gr_id g)"
    using assms(1) by (auto simp: shape_def)
  have "k = length ls" using assms(2,3) s by (auto simp: nth_append list_all_length less_Suc_eq split: if_splits)
  with s True that show ?thesis by simp
qed (use assms in \<open>auto simp: shape_def list_all_length\<close>)

definition sane :: "managed \<Rightarrow> bool" where
  "sane m \<longleftrightarrow> shape m \<and> queue_ok m"

lemmas turn_ops = admitted_def admit_turn_def refused_def begun_def parked_def resumed_def set_release_def release_admission_def
  put_turn_def end_turn_def

lemma sane_start:
  assumes "list_all (\<lambda>g. gr_pc g = Leaving) (mg_turns m)"
  shows "shape (start_turn p m)" "waiting (start_turn p m) = [p]"
  using assms by (auto simp: shape_def start_turn_def waiting_def)

lemma sane_frame: "sane (m\<lparr>mg_cancelled := is\<rparr>) = sane m" "sane (m\<lparr>mg_hosted := b\<rparr>) = sane m"
  by (simp_all add: sane_def shape_def queue_ok_def waiting_def)

lemma sane_cancel: "sane m \<Longrightarrow> sane (cancel_turn m)"
  by (simp add: cancel_turn_def sane_frame split: option.splits)

lemma sane_send: "sane m \<Longrightarrow> sane (send p interrupt m)"
proof (cases "mg_running m")
  case True
  assume s: "sane m"
  have "sane (m\<lparr>mg_sent := mg_sent m @ [p], mg_pending := mg_pending m @ [p]\<rparr>)"
    using s True by (simp add: sane_def shape_def queue_ok_def waiting_def)
  moreover note sane_cancel
  ultimately show ?thesis using True by (simp add: send_def Let_def)
next
  case False
  assume s: "sane m"
  then have l: "list_all (\<lambda>g. gr_pc g = Leaving) (mg_turns m)" using False by (simp add: sane_def shape_def)
  let ?m = "m\<lparr>mg_sent := mg_sent m @ [p]\<rparr>"
  have "waiting m = []" using l by (simp add: waiting_def)
  moreover have "waiting (start_turn p ?m) = [p]" "shape (start_turn p ?m)" using sane_start [of ?m p] l by simp_all
  moreover have "mg_running (start_turn p ?m)" "mg_pending (start_turn p ?m) = mg_pending m" "mg_ran (start_turn p ?m) = mg_ran m"
    "mg_gave_up (start_turn p ?m) = mg_gave_up m" "mg_sent (start_turn p ?m) = mg_sent m @ [p]" "mg_cycle (start_turn p ?m) = mg_cycle m"
    by (simp_all add: start_turn_def)
  ultimately have "sane (start_turn p ?m)" using s False by (auto simp: sane_def queue_ok_def)
  then show ?thesis using False by (simp add: send_def Let_def)
qed

text \<open>A step of the last turn that keeps it from ending.\<close>

lemma sane_at_last:
  assumes "sane m" "mg_turns m = ls @ [g]" "mg_running m" "mg_turns m' = ls @ [g\<lparr>gr_pc := pc\<rparr>]" "pc \<noteq> Leaving"
    and "mg_running m'" "mg_cancel m' = mg_cancel m" "mg_cycle m' = mg_cycle m" "mg_sent m' = mg_sent m" "mg_pending m' = mg_pending m"
    "mg_gave_up m' = mg_gave_up m" "mg_ran m' = mg_ran m @ (if not_begun (gr_pc g) \<and> \<not> not_begun pc then [gr_prompt g] else [])"
    "not_begun pc \<Longrightarrow> not_begun (gr_pc g)"
  shows "sane m'"
proof -
  have l: "list_all (\<lambda>g. gr_pc g = Leaving) ls" "mg_cancel m = Some (gr_id g)" using assms(1-3) by (auto simp: sane_def shape_def)
  have "shape m'" using l assms by (auto simp: shape_def)
  moreover have "waiting m = (if not_begun (gr_pc g) then [gr_prompt g] else [])" "waiting m' = (if not_begun pc then [gr_prompt g] else [])"
    using l assms(2,4) by (simp_all add: waiting_def)
  ultimately show ?thesis using assms by (auto simp: sane_def queue_ok_def)
qed

lemma sane_at:
  assumes "sane m" "k < length (mg_turns m)" "gr_pc (mg_turns m ! k) \<noteq> Leaving" "pc \<noteq> Leaving"
    and "mg_turns m' = (mg_turns m)[k := (mg_turns m ! k)\<lparr>gr_pc := pc\<rparr>]"
    and "mg_running m' = mg_running m" "mg_cancel m' = mg_cancel m" "mg_cycle m' = mg_cycle m" "mg_sent m' = mg_sent m"
    "mg_pending m' = mg_pending m" "mg_gave_up m' = mg_gave_up m"
    "mg_ran m' = mg_ran m @ (if not_begun (gr_pc (mg_turns m ! k)) \<and> \<not> not_begun pc then [gr_prompt (mg_turns m ! k)] else [])"
    "not_begun pc \<Longrightarrow> not_begun (gr_pc (mg_turns m ! k))"
  shows "sane m'"
proof -
  obtain ls g where g: "mg_turns m = ls @ [g]" "k = length ls" "mg_running m"
    by (rule not_leaving_last [of m k]) (use assms(1-3) in \<open>auto simp: sane_def\<close>)
  then have k: "mg_turns m ! k = g" by simp
  show ?thesis by (rule sane_at_last [OF assms(1) g(1,3), of m' pc]) (use assms(4-) [unfolded k] g in simp_all)
qed

lemma sane_refused:
  assumes "sane m" "mg_turns m = ls @ [g]" "mg_running m" "gr_pc g = Starting"
  shows "sane (refused (length ls) m)"
proof -
  have l: "list_all (\<lambda>g. gr_pc g = Leaving) ls" using assms(1-3) by (auto simp: sane_def shape_def)
  have "waiting m = [gr_prompt g]" "waiting (refused (length ls) m) = []"
    using l assms(2,4) by (simp_all add: waiting_def turn_ops remove_at_last)
  then show ?thesis using assms l by (simp add: sane_def queue_ok_def shape_def turn_ops remove_at_last)
qed

lemma sane_finished:
  assumes "sane m" "mg_turns m = ls @ [g]" "mg_running m" "gr_pc g = Working"
  shows "sane (finished (length ls) m)"
proof -
  have l: "list_all (\<lambda>g. gr_pc g = Leaving) ls" using assms(1-3) by (auto simp: sane_def shape_def)
  let ?m = "put_turn (length ls) Leaving (m\<lparr>mg_running := False, mg_cancel := None\<rparr>)"
  have t: "mg_turns ?m = ls @ [g\<lparr>gr_pc := Leaving\<rparr>]" using assms(2) by (simp add: put_turn_def)
  then have w: "waiting m = []" "waiting ?m = []" "shape ?m" using l assms(2,4) by (simp_all add: waiting_def shape_def put_turn_def)
  have f: "mg_sent ?m = mg_sent m" "mg_ran ?m = mg_ran m" "mg_pending ?m = mg_pending m" "mg_gave_up ?m = mg_gave_up m" "mg_cycle ?m = mg_cycle m"
    by (simp_all add: put_turn_def)
  show ?thesis
  proof (cases "mg_cycle m \<or> mg_pending m = []")
    case True
    then have "finished (length ls) m = ?m" by (auto simp: finished_def Let_def drain_pending_def f split: list.splits)
    then show ?thesis using assms(1) w f True by (auto simp: sane_def queue_ok_def)
  next
    case False
    then obtain p ps where p: "mg_pending m = p # ps" by (cases "mg_pending m") auto
    let ?n = "?m\<lparr>mg_pending := ps\<rparr>"
    have fin: "finished (length ls) m = start_turn p ?n" using False p by (simp add: finished_def Let_def drain_pending_def f)
    have "list_all (\<lambda>g. gr_pc g = Leaving) (mg_turns ?n)" using t l by simp
    from sane_start [OF this] have "shape (start_turn p ?n)" "waiting (start_turn p ?n) = [p]" .
    moreover have "mg_running (start_turn p ?n)" "mg_pending (start_turn p ?n) = ps" "mg_ran (start_turn p ?n) = mg_ran m"
      "mg_gave_up (start_turn p ?n) = mg_gave_up m" "mg_sent (start_turn p ?n) = mg_sent m" "mg_cycle (start_turn p ?n) = mg_cycle m"
      by (simp_all add: start_turn_def f)
    ultimately show ?thesis using assms(1) w p unfolding fin by (simp add: sane_def queue_ok_def)
  qed
qed

lemma sane_left:
  assumes "sane m" "k < length (mg_turns m)" "gr_pc (mg_turns m ! k) = Leaving"
  shows "sane (left_turn k m)"
proof -
  have f: "mg_turns (left_turn k m) = remove_at k (mg_turns m)" "mg_running (left_turn k m) = mg_running m" "mg_cancel (left_turn k m) = mg_cancel m"
    "mg_sent (left_turn k m) = mg_sent m" "mg_ran (left_turn k m) = mg_ran m" "mg_pending (left_turn k m) = mg_pending m"
    "mg_gave_up (left_turn k m) = mg_gave_up m" "mg_cycle (left_turn k m) = mg_cycle m"
    by (simp_all add: left_turn_def turn_ops)
  have sub: "list_all P (remove_at i xs)" if "list_all P xs" for P and i and xs :: "goroutine list"
    using that set_remove_at_subset [of i xs] by (auto simp: list_all_iff)
  have "filter (\<lambda>g. not_begun (gr_pc g)) (remove_at k (mg_turns m)) = filter (\<lambda>g. not_begun (gr_pc g)) (mg_turns m)"
    using assms(2,3) id_take_nth_drop [OF assms(2)]
    by (metis (no_types, lifting) filter.simps(2) filter_append not_begun.simps(6) remove_at_def)
  then have w: "waiting (left_turn k m) = waiting m" by (simp add: waiting_def f)
  have "shape (left_turn k m)"
  proof (cases "mg_running m")
    case True
    then obtain ls g where s: "mg_turns m = ls @ [g]" "list_all (\<lambda>g. gr_pc g = Leaving) ls" "gr_pc g \<noteq> Leaving" "mg_cancel m = Some (gr_id g)"
      using assms(1) by (auto simp: sane_def shape_def)
    then have k: "k < length ls" using assms(2,3) by (auto simp: nth_append less_Suc_eq split: if_splits)
    then have "remove_at k (mg_turns m) = remove_at k ls @ [g]" by (simp add: s(1) remove_at_def)
    then show ?thesis using True s sub [OF s(2)] by (auto simp: shape_def f)
  qed (use assms(1) sub in \<open>auto simp: sane_def shape_def f\<close>)
  then show ?thesis using assms(1) w by (simp add: sane_def queue_ok_def f)
qed

lemma sane_turn_steps:
  assumes "sane m" "k < length (mg_turns m)"
  shows "gr_pc (mg_turns m ! k) = Starting \<Longrightarrow> sane (admitted Admitted k m)"
    "gr_pc (mg_turns m ! k) = Admitted a \<Longrightarrow> sane (begun a k m)"
    "gr_pc (mg_turns m ! k) = Working \<Longrightarrow> sane (parked k m)"
    "gr_pc (mg_turns m ! k) = Parked \<Longrightarrow> sane (admitted Readmitted k m)"
    "gr_pc (mg_turns m ! k) = Readmitted a \<Longrightarrow> sane (resumed a k m)"
    "gr_pc (mg_turns m ! k) = Parked \<Longrightarrow> sane (put_turn k Working m)"
    "gr_pc (mg_turns m ! k) = Starting \<Longrightarrow> sane (refused k m)"
    "gr_pc (mg_turns m ! k) = Working \<Longrightarrow> sane (finished k m)"
proof -
  note at_last = sane_at [OF assms]
  show "sane (admitted Admitted k m)" if "gr_pc (mg_turns m ! k) = Starting"
    by (rule at_last [of "Admitted (fst (admit_turn m))"]) (simp_all add: turn_ops that)
  show "sane (begun a k m)" if "gr_pc (mg_turns m ! k) = Admitted a"
    by (rule at_last [of Working]) (simp_all add: turn_ops that)
  show "sane (parked k m)" if "gr_pc (mg_turns m ! k) = Working"
    by (rule at_last [of Parked]) (simp_all add: turn_ops that)
  show "sane (admitted Readmitted k m)" if "gr_pc (mg_turns m ! k) = Parked"
    by (rule at_last [of "Readmitted (fst (admit_turn m))"]) (simp_all add: turn_ops that)
  show "sane (resumed a k m)" if "gr_pc (mg_turns m ! k) = Readmitted a"
    by (rule at_last [of Working]) (simp_all add: turn_ops that)
  show "sane (put_turn k Working m)" if "gr_pc (mg_turns m ! k) = Parked"
    by (rule at_last [of Working]) (simp_all add: turn_ops that)
  have last_one: "\<exists>ls g. mg_turns m = ls @ [g] \<and> k = length ls \<and> mg_running m \<and> gr_pc g = gr_pc (mg_turns m ! k)"
    if "gr_pc (mg_turns m ! k) \<noteq> Leaving"
    using not_leaving_last [of m k] assms that unfolding sane_def by metis
  show "sane (refused k m)" if "gr_pc (mg_turns m ! k) = Starting"
    using last_one sane_refused [OF assms(1)] that by auto
  show "sane (finished k m)" if "gr_pc (mg_turns m ! k) = Working"
    using last_one sane_finished [OF assms(1)] that by auto
qed

lemma sane_step: "turn_step tidy m e m' \<Longrightarrow> sane m \<Longrightarrow> sane m'"
  by (induction rule: turn_step.cases)
    (simp_all only: sane_send sane_cancel sane_frame sane_left sane_turn_steps)

section \<open>Admissions\<close>

fun tokens :: "admission \<Rightarrow> nat list" where
  "tokens Free = []" | "tokens (Admission t) = [t]"

definition held_by :: "admission option \<Rightarrow> nat list" where
  "held_by r = (case r of None \<Rightarrow> [] | Some a \<Rightarrow> tokens a)"

text \<open>Who holds what the scheduler counts, when a release comes before the next admission.\<close>

fun held_ok :: "turn_pc list \<Rightarrow> admission option \<Rightarrow> nat list \<Rightarrow> bool" where
  "held_ok [] r ts \<longleftrightarrow> r = None \<and> ts = []"
| "held_ok [Starting] r ts \<longleftrightarrow> r = None \<and> ts = []"
| "held_ok [Admitted a] r ts \<longleftrightarrow> r = None \<and> ts = tokens a"
| "held_ok [Working] r ts \<longleftrightarrow> ts = held_by r"
| "held_ok [Parked] r ts \<longleftrightarrow> r = None \<and> ts = []"
| "held_ok [Readmitted a] r ts \<longleftrightarrow> r = None \<and> ts = tokens a"
| "held_ok [Leaving] r ts \<longleftrightarrow> ts = held_by r"
| "held_ok [Leaving, Starting] r ts \<longleftrightarrow> ts = held_by r"
| "held_ok _ r ts \<longleftrightarrow> False"

definition held :: "managed \<Rightarrow> bool" where
  "held m \<longleftrightarrow> held_ok (map gr_pc (mg_turns m)) (mg_release m) (mg_admitted m)"

lemma held_cases:
  assumes "held m" "k < length (mg_turns m)"
  obtains g where "mg_turns m = [g]" "k = 0"
  | g h where "mg_turns m = [g, h]" "gr_pc g = Leaving" "gr_pc h = Starting" "k = 0 \<or> k = 1"
proof (cases "mg_turns m")
  case (Cons g gs)
  show thesis
  proof (cases gs)
    case (Cons h hs)
    from assms(1) have "hs = []" "gr_pc g = Leaving" "gr_pc h = Starting"
      unfolding held_def \<open>mg_turns m = g # gs\<close> Cons by (cases hs; cases "gr_pc g"; cases "gr_pc h"; simp)+
    with that(2) [of g h] Cons \<open>mg_turns m = g # gs\<close> assms(2) show thesis by (auto simp: less_Suc_eq)
  qed (use that(1) [of g] \<open>mg_turns m = g # gs\<close> assms(2) in auto)
qed (use assms(2) in simp)

lemma release_turns [simp]: "mg_turns (release_admission m) = mg_turns m"
  by (simp add: release_admission_def)

lemma release_holds:
  "mg_admitted m = held_by (mg_release m) \<Longrightarrow> mg_release (release_admission m) = None \<and> mg_admitted (release_admission m) = []"
  by (auto simp: release_admission_def give_back_def held_by_def split: option.splits admission.splits)

lemma held_start:
  assumes "held m" "list_all (\<lambda>g. gr_pc g = Leaving) (mg_turns m)"
  shows "held (start_turn p m)"
proof (cases "mg_turns m")
  case (Cons g gs)
  have "gs = []"
    by (rule held_cases [OF assms(1), of 0]) (use assms(2) Cons in simp_all)
  then show ?thesis using assms Cons by (simp add: held_def start_turn_def)
qed (use assms in \<open>simp add: held_def start_turn_def\<close>)

lemma held_frame: "held (m\<lparr>mg_cancelled := is\<rparr>) = held m" "held (m\<lparr>mg_hosted := b\<rparr>) = held m" "held (m\<lparr>mg_sent := ps\<rparr>) = held m"
    "held (m\<lparr>mg_pending := ps\<rparr>) = held m"
  by (simp_all add: held_def)

lemma held_cancel: "held m \<Longrightarrow> held (cancel_turn m)"
  by (simp add: cancel_turn_def held_frame split: option.splits)

lemma held_send: "held m \<Longrightarrow> sane m \<Longrightarrow> held (send p interrupt m)"
proof (cases "mg_running m")
  case True
  moreover assume "held m"
  then have "held (m\<lparr>mg_sent := mg_sent m @ [p], mg_pending := mg_pending m @ [p]\<rparr>)" by (simp add: held_def)
  ultimately show ?thesis using held_cancel by (simp add: send_def Let_def)
next
  case False
  assume "held m" "sane m"
  then have "held (start_turn p (m\<lparr>mg_sent := mg_sent m @ [p]\<rparr>))"
    using False by (intro held_start) (simp_all add: held_frame sane_def shape_def)
  then show ?thesis using False by (simp add: send_def Let_def)
qed

lemma held_admitted:
  "held m \<Longrightarrow> k < length (mg_turns m) \<Longrightarrow> gr_pc (mg_turns m ! k) = Starting \<Longrightarrow> nobody_leaving m \<Longrightarrow> held (admitted Admitted k m)"
  by (rule held_cases [of m k], assumption, assumption)
    (auto simp: held_def turn_ops nobody_leaving_def)

lemma held_begun:
  "held m \<Longrightarrow> k < length (mg_turns m) \<Longrightarrow> gr_pc (mg_turns m ! k) = Admitted a \<Longrightarrow> held (begun a k m)"
  by (rule held_cases [of m k], assumption, assumption)
    (auto simp: held_def turn_ops held_by_def)

lemma held_parked:
  "held m \<Longrightarrow> k < length (mg_turns m) \<Longrightarrow> gr_pc (mg_turns m ! k) = Working \<Longrightarrow> held (parked k m)"
  by (rule held_cases [of m k], assumption, assumption)
    (auto simp: held_def parked_def put_turn_def dest: release_holds)

lemma held_readmitted:
  "held m \<Longrightarrow> k < length (mg_turns m) \<Longrightarrow> gr_pc (mg_turns m ! k) = Parked \<Longrightarrow> held (admitted Readmitted k m)"
  by (rule held_cases [of m k], assumption, assumption)
    (auto simp: held_def turn_ops)

lemma held_resumed:
  "held m \<Longrightarrow> k < length (mg_turns m) \<Longrightarrow> gr_pc (mg_turns m ! k) = Readmitted a \<Longrightarrow> held (resumed a k m)"
  by (rule held_cases [of m k], assumption, assumption)
    (auto simp: held_def turn_ops held_by_def)

lemma held_gave_up:
  "held m \<Longrightarrow> k < length (mg_turns m) \<Longrightarrow> gr_pc (mg_turns m ! k) = Parked \<Longrightarrow> held (put_turn k Working m)"
  by (rule held_cases [of m k], assumption, assumption)
    (auto simp: held_def turn_ops held_by_def)

lemma held_refused:
  "held m \<Longrightarrow> k < length (mg_turns m) \<Longrightarrow> gr_pc (mg_turns m ! k) = Starting \<Longrightarrow> held (refused k m)"
  by (rule held_cases [of m k], assumption, assumption)
    (auto simp: held_def turn_ops remove_at_def)

lemma held_finished:
  "held m \<Longrightarrow> k < length (mg_turns m) \<Longrightarrow> gr_pc (mg_turns m ! k) = Working \<Longrightarrow> held (finished k m)"
  by (rule held_cases [of m k], assumption, assumption)
    (auto simp: held_def finished_def put_turn_def drain_pending_def start_turn_def Let_def split: list.splits)

lemma held_left:
  "held m \<Longrightarrow> k < length (mg_turns m) \<Longrightarrow> gr_pc (mg_turns m ! k) = Leaving \<Longrightarrow> held (left_turn k m)"
  by (rule held_cases [of m k], assumption, assumption)
    (auto simp: held_def left_turn_def end_turn_def remove_at_def dest: release_holds)

lemmas held_steps = held_send held_cancel held_frame held_admitted held_begun held_parked held_readmitted held_resumed held_gave_up
  held_refused held_finished held_left

lemma tidy_step:
  assumes "turn_step tidy m e m'" "sane m \<and> (tidy \<longrightarrow> held m)"
  shows "sane m' \<and> (tidy \<longrightarrow> held m')"
proof -
  have "held m'" if "tidy"
    using assms that by (induction rule: turn_step.cases) (simp_all only: held_steps simp_thms)
  then show ?thesis using sane_step [OF assms(1)] assms(2) by blast
qed

interpretation turns: guarded_system "thread_init cycle" "turn_step tidy" "\<lambda>m. sane m \<and> (tidy \<longrightarrow> held m)" for cycle tidy
proof
  show "sane (thread_init cycle) \<and> (tidy \<longrightarrow> held (thread_init cycle))"
    by (simp add: thread_init_def sane_def shape_def queue_ok_def waiting_def held_def)
qed (use tidy_step in blast)

lemma cycle_kept [simp]:
  "mg_cycle (start_turn p m) = mg_cycle m" "mg_cycle (cancel_turn m) = mg_cycle m" "mg_cycle (send p interrupt m) = mg_cycle m"
  "mg_cycle (drain_pending m) = mg_cycle m" "mg_cycle (put_turn k pc m) = mg_cycle m" "mg_cycle (end_turn k m) = mg_cycle m"
  "mg_cycle (release_admission m) = mg_cycle m" "mg_cycle (snd (admit_turn m)) = mg_cycle m"
  by (simp_all add: start_turn_def cancel_turn_def send_def drain_pending_def put_turn_def end_turn_def release_admission_def
      admit_turn_def Let_def split: option.splits list.splits)

lemma step_cycle: "turn_step tidy m e n \<Longrightarrow> mg_cycle n = mg_cycle m"
  by (induction rule: turn_step.cases)
    (simp_all add: admitted_def refused_def begun_def parked_def resumed_def set_release_def finished_def left_turn_def Let_def case_prod_beta)


text \<open>A run of choices, for the examples.\<close>

datatype choice = ChSend string bool | ChAdmit | ChRefuse | ChBegin nat | ChFinish nat | ChLeave

text \<open>Admission and refusal are of the newest turn, a departure of the oldest.\<close>

fun pick :: "choice \<Rightarrow> managed \<Rightarrow> managed option" where
  "pick (ChSend p interrupt) m = Some (send p interrupt m)"
| "pick ChAdmit m =
     (let k = length (mg_turns m) - 1 in if mg_turns m \<noteq> [] \<and> gr_pc (mg_turns m ! k) = Starting then Some (admitted Admitted k m) else None)"
| "pick ChRefuse m =
     (let k = length (mg_turns m) - 1 in
      if mg_turns m \<noteq> [] \<and> gr_pc (mg_turns m ! k) = Starting \<and> cancelled k m then Some (refused k m) else None)"
| "pick (ChBegin k) m =
     (if k < length (mg_turns m) then (case gr_pc (mg_turns m ! k) of Admitted a \<Rightarrow> Some (begun a k m) | _ \<Rightarrow> None) else None)"
| "pick (ChFinish k) m = (if k < length (mg_turns m) \<and> gr_pc (mg_turns m ! k) = Working then Some (finished k m) else None)"
| "pick ChLeave m = (if mg_turns m \<noteq> [] \<and> gr_pc (mg_turns m ! 0) = Leaving then Some (left_turn 0 m) else None)"

fun choices :: "choice list \<Rightarrow> managed \<Rightarrow> managed option" where
  "choices [] m = Some m"
| "choices (c # cs) m = (case pick c m of None \<Rightarrow> None | Some n \<Rightarrow> choices cs n)"

lemma pick_step: "pick c m = Some n \<Longrightarrow> \<exists>e. turn_step False m e n"
proof (cases c)
  case ChAdmit
  assume "pick c m = Some n"
  then have "mg_turns m \<noteq> []" "gr_pc (mg_turns m ! (length (mg_turns m) - 1)) = Starting" "n = admitted Admitted (length (mg_turns m) - 1) m"
    using ChAdmit by (simp_all add: Let_def split: if_splits)
  then show ?thesis using turn_admit [of "length (mg_turns m) - 1" m False] by auto
next
  case ChRefuse
  assume "pick c m = Some n"
  then have "mg_turns m \<noteq> []" "gr_pc (mg_turns m ! (length (mg_turns m) - 1)) = Starting" "cancelled (length (mg_turns m) - 1) m"
    "n = refused (length (mg_turns m) - 1) m"
    using ChRefuse by (simp_all add: Let_def split: if_splits)
  then show ?thesis using turn_refused [of "length (mg_turns m) - 1" m False] by auto
qed (auto split: if_splits turn_pc.splits intro: turn_step.intros)

lemma choices_reach: "reach init (turn_step False) m \<Longrightarrow> choices cs m = Some n \<Longrightarrow> reach init (turn_step False) n"
proof (induction cs m rule: choices.induct)
  case (2 c cs m)
  then obtain l where l: "pick c m = Some l" "choices cs l = Some n" by (auto split: option.splits)
  with pick_step obtain e where "turn_step False m e l" by blast
  with 2 l show ?case by (blast intro: reach_step)
qed simp

lemmas pick_simps = choices.simps pick.simps Let_def thread_init_def send_def start_turn_def cancel_turn_def turn_ops
  refused_def cancelled_def finished_def drain_pending_def left_turn_def give_back_def remove_at_def option.case list.case



lemma tokens_le: "length (tokens a) \<le> 1"
  by (cases a) simp_all

text \<open>
  When the release a turn deferred comes before the next admission, a thread holds at most the
  admission of the turn at work, and none once its turns are gone.
\<close>

lemma admissions_returned:
  assumes "reach (thread_init cycle) (turn_step True) m"
  shows "length (mg_admitted m) \<le> 1" "mg_turns m = [] \<Longrightarrow> mg_admitted m = [] \<and> mg_release m = None"
proof -
  have h: "held m" using turns.inv_reach [of cycle True m] assms by simp
  then show "length (mg_admitted m) \<le> 1"
    unfolding held_def by (cases "(map gr_pc (mg_turns m), mg_release m, mg_admitted m)" rule: held_ok.cases)
      (auto simp: held_by_def tokens_le [simplified] split: option.splits)
  show "mg_admitted m = [] \<and> mg_release m = None" if "mg_turns m = []" using h that by (simp add: held_def)
qed


end
