(* ===== verification/ThreadView.thy ===== *)
theory ThreadView
  imports AgentTypes Router GoPath
begin

text \<open>
  Model of \<open>internal/daemon/thread.go\<close>, \<open>reopen.go\<close> and the token counts of \<open>metrics.go\<close>: what the daemon shows of
  a thread is folded from the thread's event log, an event at a time, whenever somebody looks. Also what
  \<open>internal/thread\<close> derives from a log: the goal, the change set and the ledger. Times are numbers, an
  unset time is 0; a runtime's own timings are left out.
\<close>

section \<open>The cache\<close>

record logged =
  lv_seq :: nat
  lv_at :: int
  lv_event :: event

record token_usage =
  tu_input :: int
  tu_output :: int
  tu_cache :: int
  tu_context :: int

record edit_op =
  eo_repo :: string
  eo_op :: string
  eo_tool :: string
  eo_paths :: "string list"

record thread_view =
  vw_processed :: nat
  vw_last_at :: int
  vw_run_start :: int
  vw_turn_start :: int
  vw_turns :: int
  vw_state :: lifecycle
  vw_samples :: "(int \<times> lifecycle) list"
  vw_archived :: bool
  vw_usage :: token_usage
  vw_spend :: rat
  vw_live_spend :: rat
  vw_served :: "string \<times> string"
  vw_compactions :: int
  vw_saved :: int
  vw_step :: string
  vw_phase :: string
  vw_edits :: "edit_op list"
  vw_running :: bool
  vw_replaying :: bool

definition add_usage :: "usage \<Rightarrow> token_usage \<Rightarrow> token_usage" where
  "add_usage v u =
     \<lparr>tu_input = tu_input u + us_input v, tu_output = tu_output u + us_output v, tu_cache = tu_cache u + us_cache_read v,
      tu_context = us_input v + us_output v\<rparr>"

definition all_tokens :: "token_usage \<Rightarrow> int" where
  "all_tokens u = tu_input u + tu_output u"

section \<open>Reading an event\<close>

definition field :: "event \<Rightarrow> string \<Rightarrow> detail option" where
  "field ev k = map_of (ev_detail ev) k"

text \<open>Go's conversion of a \<open>float64\<close> to an integer.\<close>

definition whole_part :: "rat \<Rightarrow> int" where
  "whole_part q = (if q < 0 then \<lceil>q\<rceil> else \<lfloor>q\<rfloor>)"

definition json_int :: "(string \<times> detail) list \<Rightarrow> string \<Rightarrow> int" where
  "json_int m k = (case map_of m k of Some (DNumber q) \<Rightarrow> whole_part q | _ \<Rightarrow> 0)"

definition usage_from_event :: "event \<Rightarrow> usage option" where
  "usage_from_event ev =
     (case field ev ''usage'' of
        Some (DUsage u) \<Rightarrow> Some u
      | Some (DObject m) \<Rightarrow>
          Some \<lparr>us_input = json_int m ''input_tokens'', us_output = json_int m ''output_tokens'',
                us_cache_read = json_int m ''cache_read_tokens'', us_reasoning = 0\<rparr>
      | _ \<Rightarrow> None)"

definition text_field :: "event \<Rightarrow> string \<Rightarrow> string option" where
  "text_field ev k = (case field ev k of Some (DText s) \<Rightarrow> Some s | _ \<Rightarrow> None)"

definition served_from_event :: "event \<Rightarrow> (string \<times> string) option" where
  "served_from_event ev =
     (if ev_kind ev \<noteq> KindAgent then None
      else case (text_field ev ''model'', text_field ev ''tier'') of
             (None, None) \<Rightarrow> None
           | (m, t) \<Rightarrow> Some (case m of None \<Rightarrow> [] | Some s \<Rightarrow> s, case t of None \<Rightarrow> [] | Some s \<Rightarrow> s))"

definition archived_from_event :: "event \<Rightarrow> bool option" where
  "archived_from_event ev =
     (if ev_kind ev \<noteq> KindArchive then None
      else case field ev ''archived'' of Some (DBool b) \<Rightarrow> Some b | _ \<Rightarrow> None)"

definition compaction_from_event :: "event \<Rightarrow> int option" where
  "compaction_from_event ev =
     (if ev_kind ev \<noteq> KindUsage then None
      else case field ev ''tokens_saved'' of
             Some (DInt i) \<Rightarrow> Some i | Some (DNumber q) \<Rightarrow> Some (whole_part q) | _ \<Rightarrow> None)"

definition phase_of :: "event \<Rightarrow> string option" where
  "phase_of ev = (if ev_kind ev \<noteq> KindCycle then None else text_field ev ''phase'')"

definition first_line :: "string \<Rightarrow> string" where
  "first_line s = takeWhile (\<lambda>c. c \<noteq> nl) s"

definition state_text :: "lifecycle \<Rightarrow> string" where
  "state_text s =
     (case s of StateWorking \<Rightarrow> ''working'' | StateGating \<Rightarrow> ''running gates'' | StateNeedsIn \<Rightarrow> ''needs input''
      | StateBlocked \<Rightarrow> ''waiting on a lock'' | StateFailed \<Rightarrow> ''failed'' | StateDone \<Rightarrow> ''done'' | StateIdle \<Rightarrow> ''idle''
      | StateNone \<Rightarrow> [])"

definition step_text :: "event \<Rightarrow> string" where
  "step_text ev =
     (case ev_kind ev of
        KindState \<Rightarrow> if ev_text ev \<noteq> [] then ev_text ev else state_text (ev_state ev)
      | KindTool \<Rightarrow> if ev_tool ev \<noteq> [] then ev_tool ev else ''running a tool''
      | KindGate \<Rightarrow> ''gate '' @ ev_tool ev
      | KindCycle \<Rightarrow> first_line (ev_text ev)
      | KindHypothesis \<Rightarrow> ''recording what it found''
      | KindPermission \<Rightarrow> ''waiting for approval''
      | KindError \<Rightarrow> first_line (ev_text ev)
      | KindAgent \<Rightarrow> ''responding''
      | _ \<Rightarrow> [])"

text \<open>
  The operations a tool call left, by repository; a bare one, from before repositories were recorded,
  stands under no name. In the order the fold takes them, by name.
\<close>

definition text_pairs :: "(string \<times> detail) list \<Rightarrow> (string \<times> string) list" where
  "text_pairs m = concat (map (\<lambda>(k, d). case d of DText s \<Rightarrow> if s = [] then [] else [(k, s)] | _ \<Rightarrow> []) m)"

definition checkpoints_from_event :: "event \<Rightarrow> (string \<times> string) list" where
  "checkpoints_from_event ev =
     (case field ev ''checkpoints'' of
        None \<Rightarrow> (case text_field ev ''checkpoint'' of Some op' \<Rightarrow> if op' = [] then [] else [([], op')] | None \<Rightarrow> [])
      | Some (DPairs ps) \<Rightarrow> sort_key fst ps
      | Some (DObject m) \<Rightarrow> sort_key fst (text_pairs m)
      | Some _ \<Rightarrow> [])"

definition repo_of :: "string \<Rightarrow> string \<Rightarrow> bool" where
  "repo_of repo path \<longleftrightarrow>
     path = [] \<or> \<not> is_abs path \<or> has_prefix (clean path @ ''/'') (clean repo @ ''/'')"

section \<open>The fold\<close>

definition apply_timing :: "logged \<Rightarrow> thread_view \<Rightarrow> thread_view" where
  "apply_timing le v =
     (if ev_kind (lv_event le) = KindUser then v\<lparr>vw_run_start := lv_at le, vw_turn_start := lv_at le, vw_turns := 0\<rparr>
      else if usage_from_event (lv_event le) \<noteq> None then v\<lparr>vw_turns := vw_turns v + 1, vw_turn_start := lv_at le\<rparr>
      else v)"

definition lane_samples :: nat where
  "lane_samples = 64"

definition add_sample :: "int \<times> lifecycle \<Rightarrow> (int \<times> lifecycle) list \<Rightarrow> (int \<times> lifecycle) list" where
  "add_sample s ss = (let ss = ss @ [s] in drop (length ss - lane_samples) ss)"

definition add_spend :: "(string \<Rightarrow> usage \<Rightarrow> rat) option \<Rightarrow> event \<Rightarrow> usage \<Rightarrow> thread_view \<Rightarrow> thread_view" where
  "add_spend price ev u v =
     (case (price, served_from_event ev) of
        (Some p, Some (model, tier)) \<Rightarrow>
          if vw_replaying v then v\<lparr>vw_spend := vw_spend v + p model u\<rparr>
          else if vw_running v then v\<lparr>vw_live_spend := vw_live_spend v + p model u\<rparr>
          else v
      | _ \<Rightarrow> v)"

definition apply_edit_point :: "event \<Rightarrow> thread_view \<Rightarrow> thread_view" where
  "apply_edit_point ev v =
     (if ev_kind ev = KindUser then v\<lparr>vw_edits := []\<rparr>
      else if ev_kind ev \<noteq> KindTool \<or> ev_changes ev = [] then v
      else v\<lparr>vw_edits := vw_edits v @
             map (\<lambda>(repo, op').
               let paths = map cg_path (filter (\<lambda>c. repo_of repo (cg_path c)) (ev_changes ev)) in
               \<lparr>eo_repo = repo, eo_op = op', eo_tool = ev_tool ev,
                eo_paths = if paths = [] then map cg_path (ev_changes ev) else paths\<rparr>)
             (checkpoints_from_event ev)\<rparr>)"

definition apply_state :: "logged \<Rightarrow> thread_view \<Rightarrow> thread_view" where
  "apply_state le v =
     (let ev = lv_event le in
      if ev_kind ev = KindState
      then v\<lparr>vw_state := ev_state ev, vw_samples := add_sample (lv_at le, ev_state ev) (vw_samples v)\<rparr> else v)"

definition apply_usage :: "(string \<Rightarrow> usage \<Rightarrow> rat) option \<Rightarrow> event \<Rightarrow> thread_view \<Rightarrow> thread_view" where
  "apply_usage price ev v =
     (case usage_from_event ev of None \<Rightarrow> v | Some u \<Rightarrow> add_spend price ev u (v\<lparr>vw_usage := add_usage u (vw_usage v)\<rparr>))"

definition apply_compaction :: "event \<Rightarrow> thread_view \<Rightarrow> thread_view" where
  "apply_compaction ev v =
     (case compaction_from_event ev of
        None \<Rightarrow> v | Some n \<Rightarrow> v\<lparr>vw_compactions := vw_compactions v + 1, vw_saved := vw_saved v + n\<rparr>)"

definition apply_event :: "(string \<Rightarrow> usage \<Rightarrow> rat) option \<Rightarrow> logged \<Rightarrow> thread_view \<Rightarrow> thread_view" where
  "apply_event price le v =
     (if lv_seq le \<le> vw_processed v then v
      else let ev = lv_event le;
               v = apply_timing le (v\<lparr>vw_processed := lv_seq le, vw_last_at := lv_at le\<rparr>);
               v = apply_state le v;
               v = (case archived_from_event ev of None \<Rightarrow> v | Some b \<Rightarrow> v\<lparr>vw_archived := b\<rparr>);
               v = apply_usage price ev v;
               v = (case served_from_event ev of None \<Rightarrow> v | Some s \<Rightarrow> v\<lparr>vw_served := s\<rparr>);
               v = apply_compaction ev v;
               v = (if step_text ev = [] then v else v\<lparr>vw_step := step_text ev\<rparr>);
               v = (case phase_of ev of None \<Rightarrow> v | Some p \<Rightarrow> v\<lparr>vw_phase := p\<rparr>)
           in apply_edit_point ev v)"

text \<open>\<open>log\<close> is what the thread's log holds; \<open>Since\<close> gives what came after a number.\<close>

definition sync_view :: "(string \<Rightarrow> usage \<Rightarrow> rat) option \<Rightarrow> logged list \<Rightarrow> thread_view \<Rightarrow> thread_view" where
  "sync_view price es v = fold (apply_event price) (filter (\<lambda>le. vw_processed v < lv_seq le) es) v"

definition turn_mean :: "thread_view \<Rightarrow> int" where
  "turn_mean v =
     (if vw_turns v = 0 \<or> vw_run_start v = 0 then 0
      else let d = vw_turn_start v - vw_run_start v in if d < 0 then - ((- d) div vw_turns v) else d div vw_turns v)"

definition view_tier :: "choice \<Rightarrow> thread_view \<Rightarrow> string" where
  "view_tier override v =
     (if snd (vw_served v) \<noteq> [] then snd (vw_served v)
      else if override \<noteq> NoChoice then choice_text override else choice_text Balanced)"

definition fresh_view :: thread_view where
  "fresh_view =
     \<lparr>vw_processed = 0, vw_last_at = 0, vw_run_start = 0, vw_turn_start = 0, vw_turns = 0, vw_state = StateIdle, vw_samples = [],
      vw_archived = False, vw_usage = \<lparr>tu_input = 0, tu_output = 0, tu_cache = 0, tu_context = 0\<rparr>, vw_spend = 0, vw_live_spend = 0,
      vw_served = ([], []), vw_compactions = 0, vw_saved = 0, vw_step = [], vw_phase = [], vw_edits = [], vw_running = False,
      vw_replaying = False\<rparr>"

section \<open>Reopening\<close>

definition interrupted_state :: "lifecycle \<Rightarrow> bool" where
  "interrupted_state s \<longleftrightarrow> s \<in> {StateWorking, StateGating, StateNeedsIn, StateBlocked}"

definition state_event :: "lifecycle \<Rightarrow> event" where
  "state_event s =
     \<lparr>ev_kind = KindState, ev_text = [], ev_tool = [], ev_state = s, ev_role = RoleNone, ev_changes = [], ev_detail = []\<rparr>"

text \<open>The log, with what reopening appends to it, and the view folded from it.\<close>

definition reopen_thread :: "(string \<Rightarrow> usage \<Rightarrow> rat) option \<Rightarrow> int \<Rightarrow> logged list \<Rightarrow> logged list \<times> thread_view" where
  "reopen_thread price now es =
     (let v = sync_view price es (fresh_view\<lparr>vw_replaying := True\<rparr>) in
      if \<not> interrupted_state (vw_state v) then (es, v\<lparr>vw_replaying := False\<rparr>)
      else let es = es @ [\<lparr>lv_seq = length es + 1, lv_at = now, lv_event = state_event StateIdle\<rparr>]
           in (es, (sync_view price es v)\<lparr>vw_replaying := False\<rparr>))"

section \<open>What a log says of its thread\<close>

definition goal_from :: "event list \<Rightarrow> string" where
  "goal_from evs =
     (case List.find (\<lambda>ev. ev_kind ev = KindGoal) (rev evs) of
        Some ev \<Rightarrow> ev_text ev
      | None \<Rightarrow> (case List.find (\<lambda>ev. ev_kind ev = KindUser) evs of Some ev \<Rightarrow> ev_text ev | None \<Rightarrow> []))"

text \<open>One entry to a path, at the place of its first change, with its last.\<close>

fun put_change :: "change_t \<Rightarrow> change_t list \<Rightarrow> change_t list" where
  "put_change c [] = [c]"
| "put_change c (d # ds) = (if cg_path d = cg_path c then c # ds else d # put_change c ds)"

definition change_set :: "event list \<Rightarrow> change_t list" where
  "change_set evs = fold put_change (concat (map ev_changes evs)) []"

record ledger_summary =
  ls_files :: "string list"
  ls_turns :: nat
  ls_gates :: nat

definition ledger_of :: "event list \<Rightarrow> ledger_summary" where
  "ledger_of evs =
     \<lparr>ls_files = sort_strings (remdups (concat (map (\<lambda>ev. if ev_kind ev = KindTool then map cg_path (ev_changes ev) else []) evs))),
      ls_turns = length (filter (\<lambda>ev. ev_kind ev = KindAgent) evs),
      ls_gates = length (filter (\<lambda>ev. ev_kind ev = KindGate) evs)\<rparr>"

definition ledger_text :: "ledger_summary \<Rightarrow> string" where
  "ledger_text s =
     show_nat (ls_turns s) @ '' turns, '' @ show_nat (length (ls_files s)) @ '' files changed, '' @ show_nat (ls_gates s) @ '' gates run''"

section \<open>The view is the log's\<close>

text \<open>All of a view but the money, which depends on what ran when it was folded.\<close>

definition unpriced :: "thread_view \<Rightarrow> thread_view" where
  "unpriced v = v\<lparr>vw_spend := 0, vw_live_spend := 0, vw_running := False, vw_replaying := False\<rparr>"

lemma unpriced_idem [simp]: "unpriced (unpriced v) = unpriced v"
  by (simp add: unpriced_def)

lemma unpriced_fields [simp]:
  "vw_processed (unpriced v) = vw_processed v" "vw_state (unpriced v) = vw_state v" "vw_samples (unpriced v) = vw_samples v"
  "vw_turns (unpriced v) = vw_turns v" "vw_usage (unpriced v) = vw_usage v" "vw_compactions (unpriced v) = vw_compactions v"
  "vw_saved (unpriced v) = vw_saved v" "vw_edits (unpriced v) = vw_edits v"
  by (simp_all add: unpriced_def)

lemma unpriced_updates:
  "unpriced (v\<lparr>vw_spend := a\<rparr>) = unpriced v" "unpriced (v\<lparr>vw_live_spend := a\<rparr>) = unpriced v"
  "unpriced (v\<lparr>vw_running := b\<rparr>) = unpriced v" "unpriced (v\<lparr>vw_replaying := b\<rparr>) = unpriced v"
  "unpriced (v\<lparr>vw_processed := n, vw_last_at := t\<rparr>) = (unpriced v)\<lparr>vw_processed := n, vw_last_at := t\<rparr>"
  "unpriced (v\<lparr>vw_archived := b\<rparr>) = (unpriced v)\<lparr>vw_archived := b\<rparr>"
  "unpriced (v\<lparr>vw_usage := u\<rparr>) = (unpriced v)\<lparr>vw_usage := u\<rparr>"
  "unpriced (v\<lparr>vw_served := m\<rparr>) = (unpriced v)\<lparr>vw_served := m\<rparr>"
  "unpriced (v\<lparr>vw_step := s\<rparr>) = (unpriced v)\<lparr>vw_step := s\<rparr>"
  "unpriced (v\<lparr>vw_phase := s\<rparr>) = (unpriced v)\<lparr>vw_phase := s\<rparr>"
  by (simp_all add: unpriced_def)

lemma unpriced_parts:
  "unpriced (apply_timing le v) = apply_timing le (unpriced v)"
  "unpriced (apply_state le v) = apply_state le (unpriced v)"
  "unpriced (apply_edit_point ev v) = apply_edit_point ev (unpriced v)"
  "unpriced (apply_compaction ev v) = apply_compaction ev (unpriced v)"
  by (simp_all add: unpriced_def apply_timing_def apply_state_def apply_edit_point_def apply_compaction_def Let_def split: option.splits)

lemma unpriced_usage: "unpriced (apply_usage price ev v) = apply_usage None ev (unpriced v)"
  by (simp add: apply_usage_def add_spend_def unpriced_updates split: option.splits prod.splits)

lemma unpriced_apply: "unpriced (apply_event price le v) = apply_event None le (unpriced v)"
  by (simp add: apply_event_def Let_def unpriced_parts unpriced_usage unpriced_updates split: option.splits)

lemma unpriced_fold: "unpriced (fold (apply_event price) es v) = fold (apply_event None) es (unpriced v)"
  by (induction es arbitrary: v) (simp_all add: unpriced_apply)

lemma unpriced_fresh [simp]: "unpriced fresh_view = fresh_view"
  by (simp add: unpriced_def fresh_view_def)

text \<open>Events are numbered from 1, and an event is applied once.\<close>

fun in_sequence :: "nat \<Rightarrow> logged list \<Rightarrow> bool" where
  "in_sequence n [] = True"
| "in_sequence n (le # es) = (lv_seq le = n + 1 \<and> in_sequence (n + 1) es)"

lemma in_sequence_append: "in_sequence n (es @ fs) \<longleftrightarrow> in_sequence n es \<and> in_sequence (n + length es) fs"
  by (induction es arbitrary: n) auto

lemma in_sequence_later: "in_sequence n es \<Longrightarrow> le \<in> set es \<Longrightarrow> n < lv_seq le"
  by (induction es arbitrary: n) (auto dest: Suc_lessD)

lemma in_sequence_earlier: "in_sequence n es \<Longrightarrow> le \<in> set es \<Longrightarrow> lv_seq le \<le> n + length es"
  by (induction es arbitrary: n) fastforce+

lemma in_sequence_drop: "in_sequence 0 es \<Longrightarrow> k \<le> length es \<Longrightarrow> filter (\<lambda>le. k < lv_seq le) es = drop k es"
proof -
  assume s: "in_sequence 0 es" "k \<le> length es"
  have "in_sequence 0 (take k es)" "in_sequence k (drop k es)"
    using s in_sequence_append [of 0 "take k es" "drop k es"] by simp_all
  then have "filter (\<lambda>le. k < lv_seq le) (take k es) = []" "filter (\<lambda>le. k < lv_seq le) (drop k es) = drop k es"
    using in_sequence_earlier [of 0 "take k es"] in_sequence_later [of k "drop k es"] s(2) by (fastforce simp: filter_empty_conv filter_id_conv)+
  then show ?thesis using filter_append [of "\<lambda>le. k < lv_seq le" "take k es" "drop k es"] by simp
qed

lemma processed_parts [simp]:
  "vw_processed (apply_timing le v) = vw_processed v" "vw_processed (apply_state le v) = vw_processed v"
  "vw_processed (apply_edit_point ev v) = vw_processed v" "vw_processed (apply_usage price ev v) = vw_processed v"
  "vw_processed (apply_compaction ev v) = vw_processed v"
  by (simp_all add: apply_timing_def apply_state_def apply_edit_point_def apply_compaction_def apply_usage_def add_spend_def Let_def split: option.splits)

lemma processed_apply: "vw_processed (apply_event price le v) = max (vw_processed v) (lv_seq le)"
  by (auto simp: apply_event_def Let_def split: option.splits)

lemma processed_fold: "in_sequence n es \<Longrightarrow> vw_processed v = n \<Longrightarrow> vw_processed (fold (apply_event price) es v) = n + length es"
  by (induction es arbitrary: n v) (auto simp: processed_apply)

text \<open>A view that has followed the first events of its log.\<close>

definition follows :: "logged list \<Rightarrow> thread_view \<Rightarrow> bool" where
  "follows es v \<longleftrightarrow>
     in_sequence 0 es \<and> vw_processed v \<le> length es \<and> unpriced v = fold (apply_event None) (take (vw_processed v) es) fresh_view"

lemma follows_sync:
  assumes "follows es v"
  shows "unpriced (sync_view price es v) = fold (apply_event None) es fresh_view" "vw_processed (sync_view price es v) = length es"
proof -
  let ?k = "vw_processed v"
  have s: "in_sequence 0 es" "?k \<le> length es" using assms by (simp_all add: follows_def)
  have d: "sync_view price es v = fold (apply_event price) (drop ?k es) v"
    using in_sequence_drop [OF s] by (simp add: sync_view_def)
  have "unpriced (sync_view price es v) = fold (apply_event None) (drop ?k es) (fold (apply_event None) (take ?k es) fresh_view)"
    using assms by (simp add: d unpriced_fold follows_def)
  then show "unpriced (sync_view price es v) = fold (apply_event None) es fresh_view"
    by (metis append_take_drop_id comp_apply fold_append)
  have "in_sequence ?k (drop ?k es)" using s in_sequence_append [of 0 "take ?k es" "drop ?k es"] by simp
  then show "vw_processed (sync_view price es v) = length es" using s by (simp add: d processed_fold)
qed

lemma sync_follows: "follows es v \<Longrightarrow> follows es (sync_view price es v)"
  using follows_sync by (simp add: follows_def)

lemma log_follows: "follows es v \<Longrightarrow> follows (es @ [\<lparr>lv_seq = length es + 1, lv_at = t, lv_event = ev\<rparr>]) v"
  by (simp add: follows_def in_sequence_append)

lemma fresh_follows: "in_sequence 0 es \<Longrightarrow> unpriced v = fresh_view \<Longrightarrow> vw_processed v = 0 \<Longrightarrow> follows es v"
  by (simp add: follows_def)

section \<open>Live events and read ones\<close>

text \<open>Checkpoints that are recorded name an operation, and usage is counts.\<close>

definition well_logged :: "event \<Rightarrow> bool" where
  "well_logged ev \<longleftrightarrow>
     (case field ev ''checkpoints'' of Some (DPairs ps) \<Rightarrow> list_all (\<lambda>(r, op'). op' \<noteq> []) ps | _ \<Rightarrow> True)
     \<and> (case field ev ''usage'' of Some (DPairs ps) \<Rightarrow> False | _ \<Rightarrow> True)"

definition reread_logged :: "logged \<Rightarrow> logged" where
  "reread_logged le = le\<lparr>lv_event := reread_event (lv_event le)\<rparr>"

lemma field_reread: "field (reread_event ev) k = map_option reread (field ev k)"
  by (simp add: field_def reread_event_def map_of_map)

lemma reread_frame [simp]:
  "ev_kind (reread_event ev) = ev_kind ev" "ev_text (reread_event ev) = ev_text ev" "ev_tool (reread_event ev) = ev_tool ev"
  "ev_state (reread_event ev) = ev_state ev" "ev_changes (reread_event ev) = ev_changes ev"
  by (simp_all add: reread_event_def)

lemma whole_part_int [simp]: "whole_part (of_int i) = i"
  by (simp add: whole_part_def)

lemma text_field_reread [simp]: "text_field (reread_event ev) k = text_field ev k"
  by (auto simp: text_field_def field_reread split: option.splits detail.splits elim: reread.elims)

lemma reads_reread [simp]:
  "served_from_event (reread_event ev) = served_from_event ev"
  "archived_from_event (reread_event ev) = archived_from_event ev"
  "compaction_from_event (reread_event ev) = compaction_from_event ev"
  "phase_of (reread_event ev) = phase_of ev"
  "step_text (reread_event ev) = step_text ev"
  by (auto simp: served_from_event_def archived_from_event_def compaction_from_event_def phase_of_def step_text_def field_reread
      split: option.splits detail.splits kind.splits elim: reread.elims)

lemma usage_reread:
  assumes "well_logged ev"
  shows "usage_from_event (reread_event ev) = map_option (\<lambda>u. u\<lparr>us_reasoning := 0\<rparr>) (usage_from_event ev)"
proof (cases "field ev ''usage''")
  case (Some d)
  then show ?thesis using assms by (cases d) (simp_all add: usage_from_event_def field_reread json_int_def well_logged_def)
qed (simp add: usage_from_event_def field_reread)

lemma text_pairs_texts: "list_all (\<lambda>(r, op'). op' \<noteq> []) ps \<Longrightarrow> text_pairs (map (\<lambda>(k, v). (k, DText v)) ps) = ps"
  by (induction ps) (auto simp: text_pairs_def)

lemma checkpoints_reread: "well_logged ev \<Longrightarrow> checkpoints_from_event (reread_event ev) = checkpoints_from_event ev"
proof (cases "field ev ''checkpoints''")
  case (Some d)
  assume w: "well_logged ev"
  show ?thesis
  proof (cases d)
    case (DPairs ps)
    then show ?thesis using Some text_pairs_texts [of ps] w
      by (simp add: checkpoints_from_event_def field_reread well_logged_def)
  qed (use Some in \<open>simp_all add: checkpoints_from_event_def field_reread text_pairs_def\<close>)
qed (simp add: checkpoints_from_event_def field_reread)

lemma reread_logged_fields [simp]:
  "lv_seq (reread_logged le) = lv_seq le" "lv_at (reread_logged le) = lv_at le" "lv_event (reread_logged le) = reread_event (lv_event le)"
  by (simp_all add: reread_logged_def)

lemma timing_reread: "well_logged (lv_event le) \<Longrightarrow> apply_timing (reread_logged le) v = apply_timing le v"
  by (simp add: apply_timing_def usage_reread)

lemma state_reread: "apply_state (reread_logged le) v = apply_state le v"
  by (simp add: apply_state_def Let_def)

lemma usage_part_reread: "well_logged ev \<Longrightarrow> apply_usage None (reread_event ev) v = apply_usage None ev v"
  by (cases "usage_from_event ev") (simp_all add: apply_usage_def usage_reread add_spend_def add_usage_def)

lemma compaction_reread: "apply_compaction (reread_event ev) v = apply_compaction ev v"
  by (simp add: apply_compaction_def)

lemma edit_point_reread: "well_logged ev \<Longrightarrow> apply_edit_point (reread_event ev) v = apply_edit_point ev v"
  by (simp only: apply_edit_point_def reread_frame checkpoints_reread)

lemmas parts_reread = timing_reread state_reread usage_part_reread compaction_reread edit_point_reread

lemma apply_reread: "well_logged (lv_event le) \<Longrightarrow> apply_event None (reread_logged le) v = apply_event None le v"
  by (simp only: apply_event_def Let_def reread_logged_fields reads_reread parts_reread)

lemma fold_reread:
  "list_all (\<lambda>le. well_logged (lv_event le)) es \<Longrightarrow> fold (apply_event None) (map reread_logged es) v = fold (apply_event None) es v"
  by (induction es arbitrary: v) (simp_all add: apply_reread)

section \<open>A thread that is watched and reopened\<close>

text \<open>What happens to a thread: something is logged, somebody looks, a run starts or ends, the daemon restarts.\<close>

datatype watch_op = Logs int event | Looks | Runs | Ends rat | Restarts int

text \<open>The end of a run: its outcome takes the place of what was accrued.\<close>

definition end_run :: "rat \<Rightarrow> thread_view \<Rightarrow> thread_view" where
  "end_run spend v = v\<lparr>vw_running := False, vw_spend := vw_spend v + spend, vw_live_spend := 0\<rparr>"

fun watch :: "(string \<Rightarrow> usage \<Rightarrow> rat) option \<Rightarrow> watch_op \<Rightarrow> logged list \<times> thread_view \<Rightarrow> logged list \<times> thread_view" where
  "watch price (Logs at' ev) (es, v) = (es @ [\<lparr>lv_seq = length es + 1, lv_at = at', lv_event = ev\<rparr>], v)"
| "watch price Looks (es, v) = (es, sync_view price es v)"
| "watch price Runs (es, v) = (es, v\<lparr>vw_running := True\<rparr>)"
| "watch price (Ends spend) (es, v) = (es, end_run spend v)"
| "watch price (Restarts now) (es, v) = reopen_thread price now (map reread_logged es)"

text \<open>The same history as the log alone tells it, restarts left out but for what they append.\<close>

fun ever_logged :: "watch_op \<Rightarrow> logged list \<Rightarrow> logged list" where
  "ever_logged (Logs at' ev) es = es @ [\<lparr>lv_seq = length es + 1, lv_at = at', lv_event = ev\<rparr>]"
| "ever_logged (Restarts now) es =
     (if interrupted_state (vw_state (fold (apply_event None) es fresh_view))
      then es @ [\<lparr>lv_seq = length es + 1, lv_at = now, lv_event = state_event StateIdle\<rparr>] else es)"
| "ever_logged _ es = es"

lemma reread_twice [simp]: "reread (reread d) = reread d"
  by (cases d) auto

lemma reread_logged_twice [simp]: "reread_logged (reread_logged le) = reread_logged le"
  by (simp add: reread_logged_def reread_event_def o_def case_prod_beta)

text \<open>The log in memory is the log as it was written, some of its events as read back.\<close>

definition same_log :: "logged list \<Rightarrow> logged list \<Rightarrow> bool" where
  "same_log es hs \<longleftrightarrow>
     list_all2 (\<lambda>e h. e = h \<or> e = reread_logged h) es hs \<and> list_all (\<lambda>h. well_logged (lv_event h)) hs \<and> in_sequence 0 hs"

lemma same_log_fold:
  assumes "list_all2 (\<lambda>e h. e = h \<or> e = reread_logged h) es hs" "list_all (\<lambda>h. well_logged (lv_event h)) hs"
  shows "fold (apply_event None) es v = fold (apply_event None) hs v"
  using assms by (induction arbitrary: v rule: list_all2_induct) (auto simp: apply_reread)

lemma same_log_sequence:
  "list_all2 (\<lambda>e h. e = h \<or> e = reread_logged h) es hs \<Longrightarrow> in_sequence n hs \<Longrightarrow> in_sequence n es"
  by (induction arbitrary: n rule: list_all2_induct) (auto simp: reread_logged_def)

lemma in_sequence_reread: "in_sequence n es \<Longrightarrow> in_sequence n (map reread_logged es)"
  by (induction es arbitrary: n) auto

lemma same_log_reread: "same_log es hs \<Longrightarrow> same_log (map reread_logged es) hs"
  unfolding same_log_def by (auto simp: list_all2_conv_all_nth)

lemma same_log_snoc:
  "same_log es hs \<Longrightarrow> well_logged ev \<Longrightarrow>
     same_log (es @ [\<lparr>lv_seq = length es + 1, lv_at = t, lv_event = ev\<rparr>]) (hs @ [\<lparr>lv_seq = length hs + 1, lv_at = t, lv_event = ev\<rparr>])"
  unfolding same_log_def by (auto intro!: list_all2_appendI simp: in_sequence_append dest: list_all2_lengthD)

definition keeps_up :: "logged list \<Rightarrow> logged list \<times> thread_view \<Rightarrow> bool" where
  "keeps_up hs s \<longleftrightarrow> same_log (fst s) hs \<and> follows (fst s) (snd s)"

lemma follows_end: "follows es v \<Longrightarrow> follows es (end_run spend v)"
  by (simp add: follows_def end_run_def unpriced_def)

lemma follows_flags: "follows es (v\<lparr>vw_running := b\<rparr>) = follows es v" "follows es (v\<lparr>vw_replaying := b\<rparr>) = follows es v"
  by (simp_all add: follows_def unpriced_updates)

lemma reopen_follows: "in_sequence 0 es \<Longrightarrow> follows es (fresh_view\<lparr>vw_replaying := True\<rparr>)"
  unfolding follows_flags by (rule fresh_follows) (simp_all add: unpriced_fresh, simp add: fresh_view_def)

lemma reopen_keeps_up:
  assumes "same_log es hs"
  shows "keeps_up (ever_logged (Restarts now) hs) (reopen_thread price now es)"
proof -
  have seq: "in_sequence 0 es" using assms same_log_sequence unfolding same_log_def by blast
  let ?v = "sync_view price es (fresh_view\<lparr>vw_replaying := True\<rparr>)"
  note f = reopen_follows [OF seq]
  note s = sync_follows [OF f, of price]
  have st: "vw_state ?v = vw_state (fold (apply_event None) hs fresh_view)"
    using follows_sync(1) [OF f, of price] same_log_fold [of es hs] assms unpriced_fields(2) [of ?v] by (simp add: same_log_def)
  have w: "well_logged (state_event StateIdle)" by (simp add: well_logged_def state_event_def field_def)
  note l = log_follows [OF s, of now "state_event StateIdle"]
  show ?thesis
    using assms s sync_follows [OF l, of price] same_log_snoc [OF assms w, of now]
    by (simp add: keeps_up_def reopen_thread_def Let_def st follows_flags)
qed

lemma state_after_state: "vw_processed v < lv_seq le \<Longrightarrow> ev_kind (lv_event le) = KindState \<Longrightarrow> ev_detail (lv_event le) = [] \<Longrightarrow>
    vw_state (apply_event None le v) = ev_state (lv_event le)"
  by (simp add: apply_event_def Let_def apply_state_def apply_timing_def apply_usage_def apply_compaction_def
      apply_edit_point_def usage_from_event_def field_def served_from_event_def archived_from_event_def compaction_from_event_def phase_of_def)

lemma reopen_settles:
  assumes seq: "in_sequence 0 es"
  shows "\<not> interrupted_state (vw_state (snd (reopen_thread price now es)))"
proof -
  let ?v = "sync_view price es (fresh_view\<lparr>vw_replaying := True\<rparr>)"
  let ?idle = "\<lparr>lv_seq = length es + 1, lv_at = now, lv_event = state_event StateIdle\<rparr>"
  note l = log_follows [OF sync_follows [OF reopen_follows [OF seq], of price], of now "state_event StateIdle"]
  have "vw_state (sync_view price (es @ [?idle]) ?v) = vw_state (unpriced (sync_view price (es @ [?idle]) ?v))" by simp
  also have "\<dots> = vw_state (apply_event None ?idle (fold (apply_event None) es fresh_view))"
    using follows_sync(1) [OF l, of price] by simp
  also have "\<dots> = StateIdle"
    using processed_fold [OF seq, of fresh_view None] by (subst state_after_state) (simp_all add: fresh_view_def state_event_def)
  finally show ?thesis by (simp add: reopen_thread_def Let_def interrupted_state_def)
qed


definition demo_turn :: event where
  "demo_turn =
     (plain_event KindAgent [] [(''usage'', DUsage \<lparr>us_input = 10, us_output = 5, us_cache_read = 0, us_reasoning = 0\<rparr>),
        (''model'', DText ''m'')])\<lparr>ev_role := RoleNote\<rparr>"



text \<open>
  A turn nobody looked at before its run ended is priced again while the next run is in flight: the outcome
  of its own run has paid for it.
\<close>

lemma turn_paid_twice:
  "case fold (watch (Some (\<lambda>m u. 1))) [Runs, Logs 1 demo_turn, Ends 1, Runs, Looks] ([], fresh_view) of
     (es, v) \<Rightarrow> vw_spend v + vw_live_spend v = 2 \<and> length es = 1"
  by code_simp

text \<open>The change set has one entry to a path, the last.\<close>

lemma put_change_paths: "map cg_path (put_change c ds) = (if cg_path c \<in> cg_path ` set ds then map cg_path ds else map cg_path ds @ [cg_path c])"
  by (induction ds) auto

lemma put_change_find: "List.find (\<lambda>d. cg_path d = p) (put_change c ds) = (if cg_path c = p then Some c else List.find (\<lambda>d. cg_path d = p) ds)"
  by (induction ds) auto

lemma change_set_distinct: "distinct (map cg_path (change_set evs))"
proof -
  have "distinct (map cg_path (fold put_change cs ds))" if "distinct (map cg_path ds)" for cs ds
    using that by (induction cs arbitrary: ds) (auto simp: put_change_paths)
  then show ?thesis by (simp add: change_set_def)
qed

lemma change_set_last:
  "List.find (\<lambda>d. cg_path d = p) (change_set evs) = List.find (\<lambda>d. cg_path d = p) (rev (concat (map ev_changes evs)))"
proof -
  have "List.find (\<lambda>d. cg_path d = p) (fold put_change cs ds)
      = (case List.find (\<lambda>d. cg_path d = p) (rev cs) of Some c \<Rightarrow> Some c | None \<Rightarrow> List.find (\<lambda>d. cg_path d = p) ds)" for cs ds
  proof (induction cs arbitrary: ds)
    case (Cons c cs)
    have "List.find P (xs @ ys) = (case List.find P xs of Some x \<Rightarrow> Some x | None \<Rightarrow> List.find P ys)" for P and xs ys :: "change_t list"
      by (induction xs) auto
    with Cons show ?case by (auto simp: put_change_find split: option.splits)
  qed simp
  then show ?thesis by (simp add: change_set_def split: option.splits)
qed

end
