(* ===== verification/Spec2Isabelle.thy ===== *)
theory Spec2Isabelle
  imports Lease Sched GuardChecks Routine RoutineKeys EditReplaceFacts EditBatch EditSpans AgentEscapes
    ComposerFacts ChangeGateFacts VerifierFacts GateLint GateCommand CycleChecks
    ThreadHistory Approvals EventSubs ThreadTurns ThreadView
begin

text \<open>
  wavez is a coding-agent daemon in Go. A run lets a language model call tools on a project; what
  keeps that safe and orderly is deterministic code: leases over directory subtrees, slots of a
  local model, a guard over shell commands, routines of checks, an edit engine, the gates that test what
  a run changed, and the phases of a longer run. This library models that code and proves what makes it
  correct, and where it is not.

  Parts and their theories.

  \<^item> \<open>internal/lease\<close> (theory Lease): \<open>Manager\<close> is the record \<open>manager\<close>, and \<open>Acquire\<close> with its wait
    loop is a step relation over calls. A path is leased by its directory subtree (\<open>subtree\<close>).
  \<^item> \<open>internal/sched\<close> (theory Sched): model slots (\<open>AdmitSlot\<close>) and admission under memory pressure
    (\<open>admit\<close>), again a step relation whose steps are the mutex-guarded sections.
  \<^item> \<open>internal/guard\<close>: GuardSplit is the hand-written shell readers of \<open>split.go\<close>; GuardRules the rules,
    path expansion, built-in lists and protected paths; Guard is \<open>Classify\<close> and the dispatch;
    GuardChecks what other code reads off a parsed command (scripts, write targets).
  \<^item> \<open>internal/routine\<close>: Routine compiles definitions into routines, layers their steps, runs them and
    keeps the schedule; RoutineKeys is the mutual exclusion of runs on a concurrency key.
  \<^item> \<open>internal/edit\<close>: EditReplace is \<open>str_replace\<close>'s matching ladder (its facts are in
    EditReplaceFacts), EditBatch the all-or-nothing batches over files, EditSpans the edits a language
    server states by position.
  \<^item> \<open>internal/agent\<close>, the model loop, with \<open>internal/router\<close> and the history of \<open>internal/thread\<close>.
    Router is \<open>Route\<close> and the budgets; AgentText what the loop reads off a turn's prose; Compaction the
    rules that shorten the view of a history; AgentTypes the data that passes between the loop, its
    providers and its tools. AgentState is the \<open>Loop\<close> (record \<open>loop\<close>: its options and what it calls)
    and a run with its thread (record \<open>run_t\<close>); AgentLoop every method a run executes, up to \<open>drive\<close>
    and \<open>Run\<close>. AgentKept carries a relation through all of them once, inside locales; AgentFacts,
    AgentDone and AgentEscapes hold what follows. GoJson is the validity check of \<open>encoding/json\<close>.
  \<^item> \<open>internal/gate\<close> and its use in \<open>internal/app\<close>. GoTest reads the stream of \<open>go test\<close> and trims
    failures; GateSelect is \<open>Select\<close>, the import graph, the cadence of whole runs and attribution, with
    its facts in GateSelectFacts. ChangeGate is the way of a change from the tool that wrote it through
    the inbox, the debounce window and a batch to what the model is told (record \<open>gating\<close>, one step for
    each pump, timer and batch); Verifier is the check of a run that means to finish. GateLocks is the
    scheduler of \<open>RunGates\<close> and its locks; GateLint, GateCommand and GateRevert are the lint gate with
    its baseline, the declared checks and the build, and the fail-to-pass gate. Glob is \<open>internal/glob\<close>.
  \<^item> \<open>internal/cycle\<close> and \<open>internal/condition\<close>: Cycle is the run of phases with its ledger, CycleFacts
    what it promises, CycleChecks the built-in conditions and the cycles of a configuration.
  \<^item> \<open>internal/tui/vim.go\<close> with the snippets and the matching of names (theories Composer and
    ComposerFacts): the modal editor of the terminal client, every index and slice checked as Go does.
  \<^item> The files a run leaves: ThreadHistory is \<open>internal/thread/history.go\<close>, Approvals
    \<open>internal/permission/store.go\<close>, EventLog \<open>internal/eventlog/eventlog.go\<close> (record \<open>event_log\<close>: the file's bytes
    and the ring of recent events). Below them JsonText, JsonValue and LineFile are what \<open>encoding/json\<close> and
    \<open>bufio.Scanner\<close> do with strings, values and lines, and GoNumbers is \<open>strconv.Atoi\<close>.
  \<^item> \<open>internal/daemon\<close>: EventSubs is a subscription to an event log with the queue between them
    (\<open>internal/eventlog/subscriber.go\<close>; record \<open>feed\<close>, one step per section under a mutex, channel operation and
    send); ThreadTurns the turns of a thread (\<open>manager.go\<close>: record \<open>managed\<close>, a goroutine per turn) with the
    prompts that wait and the admission they hold; ThreadView what is shown of a thread, a fold of its log
    (\<open>thread.go\<close>, \<open>reopen.go\<close>), and the goal, change set and ledger of \<open>internal/thread\<close>.
  \<^item> Effects is the way methods that return early are written: a program yields a value and goes on, or
    leaves with what the whole run returns. Prelude holds reachability, runs and the interface \<open>guarded_system\<close> of a component whose
    correctness is an invariant, and Drain the interface \<open>draining\<close> of one that works off what it has; GoStrings, GoPath and GoUtf8 are the parts of Go's standard library
    the sources use.

  How the model reads. A struct is a record, an enumeration a datatype, a map a partial function or
  an association list, a nil pointer an option, an error a constructor of a sum. Go strings are byte
  lists (\<open>char\<close> is a byte), offsets are byte offsets. Concurrency is interleaving: a call is a
  program counter, each section under the mutex is one step, and an invariant is proved for every
  reachable state through an interpretation of \<open>guarded_system\<close>. Clocks, memory readings, handlers
  and the results of outside code are arguments. The loop calls providers, tools, gates, hooks, a clock
  and a log, which act on a world of any type \<open>'w\<close> that the run's state carries along: nothing is
  assumed of them but that they return. A provider's stream is the list of its chunks and the error it
  ended with; money is rational; \<open>%q\<close> is written as the name between quotes; the log's file can fail
  at every append, and what it holds is the list of events of the thread.

  What the lemmas show. Leases: writers to overlapping subtrees exclude each other, with the one
  release that breaks it, and the accounting of waiters. Slots: the count is the owners, the queue is
  first-in first-out, nothing leaks, admission excludes as documented. Guard: an allowed line runs
  only vouched-for programs and trips no refusal; deletion stays inside the project; classification
  returns except where a counterexample shows it cannot; and four readings a shell makes that the
  guard does not. Routines: waves exist exactly for acyclic steps, execution follows them, runs on a
  key exclude each other and are served within a bound, except for a hand-off that loses the key.
  The loop: every run returns within its turn and call bounds and only adds to the history, a run that
  reports \<open>complete\<close> was verified on exactly what it leaves, no tool runs without the gate, compaction
  loses nothing but text of tool results and never rewrites what was deduplicated before; and a response
  that ends its turn with calls, a malformed call, and an empty completion end otherwise than the
  comments say. Edits: a replacement changes one region that read as the caller said, batches replace all at once
  or nothing, positions are UTF-16, and the cases where text is lost, reordered or a slice panics.
  Gates: every change written reaches a batch with its lines counted, whatever the interleaving, and
  what is in flight drains; each level of selection runs exactly what it says; locks exclude and never
  deadlock; a complete run had every gate passed over what it leaves; and the failures that pass or are
  told wrong. Cycles: completion means that every phase's condition was observed. Files: what was
  appended is read back as it was, from a file cut anywhere too; a reader that asks for what came after a
  number gets exactly that from ring or file; an approval answers only for its own tool and key; and a torn
  line, an escaped key and a long message lose more than the comments say. The daemon: a subscriber gets
  every event once or is told of a gap, and what is in flight settles; one turn of a thread is at work and
  prompts run in order, except where an interrupted admission or a cycle strands them and where a late release
  leaks an admission; what is shown of a thread is its log, through every restart. The composer never
  panics and keeps its cursor in the buffer.

  Termination and bounds. Loops over strings and lists are structural or have a measure; the binary
  search of the near-match report is bounded by the anchor's length, a wave places at least one step.
  Variable expansion, which can run for ever, is a partial function: its value None is not
  returning, and both sides are proved. The loop's \<open>drive\<close> is one too, and is proved to return whatever
  the world answers, because every round counts a turn. The JSON parser takes fuel, twice the length of its
  input, of which each call uses a part of what it reads, so that a printed value is always read back. Integers of Go that cannot wrap in the code (lengths,
  counters, line numbers) are unbounded; times are int.

  Interfaces. \<open>guarded_system\<close> is interpreted by the waiting calls and the exclusion of leases, the
  subscription of an event log, the turns of a thread, the slots, admission and configuration of the scheduler, and the concurrency keys (with and without
  patient waiters); \<open>draining\<close> by the steps of the change gate, by the jobs of the gates' locks and by what is in flight
  to a subscriber;
  \<open>line_codec\<close>, a file of encoded lines and what is left of it when it is cut, merged or too long, by the
  records of the history, the approvals and the events; \<open>separator\<close> of GuardSplit by the sequence and pipeline splitters. A property of the
  loop is a relation between the states before and after: \<open>kept\<close> (Effects) is what every construct asks
  of it; \<open>run_log\<close>, \<open>run_base\<close>, \<open>run_kept\<close> and \<open>run_counted\<close> carry it through the methods, the later
  ones asking about more of the state, and \<open>run_plain\<close> is the case that reads nothing but the world.
  They are interpreted by the growth of the history, the count of calls, the turns between rounds, the
  duties of a run that may complete, its stop and finish, and the keys a gate remembers.

  Not modelled, and why. The terminal interface around the composer, HTTP, language servers and provider clients are input
  and output around these parts; configuration is evaluated by Pkl, shell text is
  parsed by mvdan.cc/sh, and matching files of code is done by external indexes: those results are
  parameters here. Resource locks around a routine's step, durations and log lines are left out.
  Of the loop, the option setters (their values are fields of \<open>loop\<close>) and the restoring of a checkpoint
  are left out, and the parameters of a call written as markup (\<open>internal/xmlcall\<close>) and the decoding of a
  write's paths are parameters. Unicode white space outside ASCII is not trimmed by the string model, and the Unicode tables of
  letters and digits are a parameter. Of the daemon, sockets and requests, projects, prompts to a person, restoring,
  names and the runtime's timings are not modelled, and money is left out of what is shown. Of JSON, the nesting limit of 10,000, names that match only under Unicode case
  folding, floating-point rendering and the wrapping of sequence numbers are left out. Of the gates, the compiler, the linter, \<open>go list\<close>, the coverage
  database, jj and the shell are parameters, the cancelling of a context is left out, and convention,
  mutation, diagnostics and the format gate are not modelled.
\<close>

end
